(* ===== verification/JsPrelude.thy ===== *)
theory JsPrelude
  imports Complex_Main "HOL-Library.AList" "HOL-Library.Multiset"
begin

text \<open>
  What the components share: the operations of JavaScript's arrays, strings, \<open>Map\<close>s and
  \<open>Set\<close>s the source uses, with the lemmas the component theories rest on.

  \<^item> A JavaScript string is a \<^typ>\<open>string\<close>; a \<^typ>\<open>char\<close> is one UTF-16 code unit, so the
    model is exact on text whose code units are below 256.
  \<^item> \<open>indexOf\<close> and \<open>findIndex\<close> return \<open>-1\<close> when nothing is found, so they are
    integers here too.
  \<^item> A \<open>Map\<close> keeps the order in which its keys were first inserted: an association list
    with distinct keys, written with \<^const>\<open>AList.update\<close> (in place, or at the end).
  \<^item> A \<open>Set\<close> keeps insertion order as well: a distinct list, grown by \<open>set_add\<close>.
\<close>

named_theorems js_array \<open>rules for the array operations\<close>

section \<open>Arrays\<close>

fun findIndex :: "('a \<Rightarrow> bool) \<Rightarrow> 'a list \<Rightarrow> int" where
  "findIndex P [] = -1"
| "findIndex P (x # xs) = (if P x then 0 else (let i = findIndex P xs in if i < 0 then -1 else i + 1))"

definition indexOf :: "'a \<Rightarrow> 'a list \<Rightarrow> int" where
  "indexOf x xs = findIndex (\<lambda>y. y = x) xs"

definition clamp_int :: "int \<Rightarrow> int \<Rightarrow> int \<Rightarrow> int" where
  "clamp_int i lo hi = max lo (min i hi)"

text \<open>\<open>xs.splice(i, 0, x)\<close> for an index already clamped into the list.\<close>

definition insert_at :: "int \<Rightarrow> 'a \<Rightarrow> 'a list \<Rightarrow> 'a list" where
  "insert_at i x xs = take (nat i) xs @ x # drop (nat i) xs"

text \<open>\<open>xs[i]\<close>, which is \<open>undefined\<close> out of range.\<close>

definition at_index :: "'a list \<Rightarrow> int \<Rightarrow> 'a option" where
  "at_index xs i = (if 0 \<le> i \<and> i < int (length xs) then Some (xs ! nat i) else None)"

lemma findIndex_bounds: "-1 \<le> findIndex P xs \<and> findIndex P xs < int (length xs)"
  by (induction xs) (auto simp: Let_def)

lemma findIndex_neg: "findIndex P xs < 0 \<longleftrightarrow> (\<forall>x\<in>set xs. \<not> P x)"
  by (induction xs) (auto simp: Let_def)

lemma findIndex_minus_one: "findIndex P xs = -1 \<longleftrightarrow> (\<forall>x\<in>set xs. \<not> P x)"
  using findIndex_bounds [of P xs] findIndex_neg [of P xs] by linarith

lemma findIndex_nth:
  "0 \<le> findIndex P xs \<Longrightarrow> nat (findIndex P xs) < length xs \<and> P (xs ! nat (findIndex P xs))"
proof (induction xs)
  case Nil
  then show ?case by simp
next
  case (Cons x xs)
  show ?case
  proof (cases "P x")
    case True
    then show ?thesis by simp
  next
    case False
    with Cons.prems have "0 \<le> findIndex P xs" by (auto simp: Let_def split: if_splits)
    with Cons.IH False show ?thesis
      by (simp add: Let_def nat_add_distrib)
  qed
qed

lemma findIndex_first: "k < nat (findIndex P xs) \<Longrightarrow> \<not> P (xs ! k)"
proof (induction xs arbitrary: k)
  case Nil
  then show ?case by simp
next
  case (Cons x xs)
  then show ?case
    by (cases k) (auto simp: Let_def nat_add_distrib split: if_splits)
qed

lemma indexOf_neg [js_array]: "indexOf x xs < 0 \<longleftrightarrow> x \<notin> set xs"
  by (auto simp: indexOf_def findIndex_neg)

lemma indexOf_nonneg [js_array]: "0 \<le> indexOf x xs \<longleftrightarrow> x \<in> set xs"
  using indexOf_neg [of x xs] by linarith

lemma indexOf_less [js_array]: "indexOf x xs < int (length xs)"
  using findIndex_bounds [of "\<lambda>y. y = x" xs] by (simp add: indexOf_def)

lemma indexOf_nth: "x \<in> set xs \<Longrightarrow> xs ! nat (indexOf x xs) = x"
  using findIndex_nth [of "\<lambda>y. y = x" xs] indexOf_nonneg [of x xs] by (simp add: indexOf_def)

lemma clamp_int_bounds [js_array]: "lo \<le> hi \<Longrightarrow> lo \<le> clamp_int i lo hi \<and> clamp_int i lo hi \<le> hi"
  by (auto simp: clamp_int_def)

lemma clamp_int_id [js_array]: "lo \<le> i \<Longrightarrow> i \<le> hi \<Longrightarrow> clamp_int i lo hi = i"
  by (auto simp: clamp_int_def)

lemma set_insert_at [simp]: "set (insert_at i x xs) = insert x (set xs)"
proof -
  have "set (take (nat i) xs) \<union> set (drop (nat i) xs) = set xs"
    by (metis append_take_drop_id set_append)
  then show ?thesis by (auto simp: insert_at_def)
qed

lemma mset_insert_at [simp]: "mset (insert_at i x xs) = add_mset x (mset xs)"
proof -
  have "mset (take (nat i) xs) + mset (drop (nat i) xs) = mset xs"
    by (metis append_take_drop_id mset_append)
  then show ?thesis by (simp add: insert_at_def)
qed

lemma distinct_insert_at [simp]: "distinct (insert_at i x xs) \<longleftrightarrow> x \<notin> set xs \<and> distinct xs"
proof -
  have "mset (insert_at i x xs) = mset (x # xs)" by simp
  then have "distinct (insert_at i x xs) \<longleftrightarrow> distinct (x # xs)"
    by (rule mset_eq_imp_distinct_iff)
  then show ?thesis by simp
qed

lemma length_insert_at [simp]: "length (insert_at i x xs) = Suc (length xs)"
  by (metis mset_insert_at size_add_mset size_mset)

lemma filter_insert_at:
  "filter P (insert_at i x xs) =
     filter P (take (nat i) xs) @ (if P x then [x] else []) @ filter P (drop (nat i) xs)"
  by (simp add: insert_at_def)

lemma filter_neq_insert_at [simp]: "x \<notin> set xs \<Longrightarrow> filter (\<lambda>y. y \<noteq> x) (insert_at i x xs) = xs"
proof -
  assume "x \<notin> set xs"
  then have "filter (\<lambda>y. y \<noteq> x) (take (nat i) xs) = take (nat i) xs"
    and "filter (\<lambda>y. y \<noteq> x) (drop (nat i) xs) = drop (nat i) xs"
    by (auto simp: filter_id_conv dest: in_set_takeD in_set_dropD)
  then show ?thesis by (simp add: filter_insert_at)
qed

lemma nth_insert_at:
  "0 \<le> i \<Longrightarrow> i \<le> int (length xs) \<Longrightarrow> insert_at i x xs ! nat i = x"
  by (simp add: insert_at_def nth_append)

lemma at_index_Some: "at_index xs i = Some x \<longleftrightarrow> 0 \<le> i \<and> i < int (length xs) \<and> xs ! nat i = x"
  by (auto simp: at_index_def)

lemma at_index_in_set: "at_index xs i = Some x \<Longrightarrow> x \<in> set xs"
  by (auto simp: at_index_Some nat_less_iff)

lemma find_append_or: "List.find P (xs @ ys) = (case List.find P xs of None \<Rightarrow> List.find P ys | Some x \<Rightarrow> Some x)"
  by (induction xs) auto

lemma in_map_filter: "y \<in> set (List.map_filter f xs) \<longleftrightarrow> (\<exists>x\<in>set xs. f x = Some y)"
  by (auto simp: List.map_filter_def) force

lemma concat_map_id: "(\<And>x. x \<in> set xs \<Longrightarrow> f x = [x]) \<Longrightarrow> concat (map f xs) = xs"
  by (induction xs) auto

section \<open>Sets and maps with insertion order\<close>

definition set_add :: "'a \<Rightarrow> 'a list \<Rightarrow> 'a list" where
  "set_add x xs = (if x \<in> set xs then xs else xs @ [x])"

lemma set_set_add [simp]: "set (set_add x xs) = insert x (set xs)"
  by (auto simp: set_add_def)

lemma distinct_set_add [simp]: "distinct (set_add x xs) \<longleftrightarrow> distinct xs"
  by (auto simp: set_add_def)

definition to_set :: "'a list \<Rightarrow> 'a list" where
  "to_set xs = fold set_add xs []"

lemma set_fold_set_add [simp]: "set (fold set_add xs acc) = set acc \<union> set xs"
  by (induction xs arbitrary: acc) auto

lemma distinct_fold_set_add [simp]: "distinct (fold set_add xs acc) \<longleftrightarrow> distinct acc"
  by (induction xs arbitrary: acc) auto

lemma set_to_set [simp]: "set (to_set xs) = set xs"
  and distinct_to_set [simp]: "distinct (to_set xs)"
  by (simp_all add: to_set_def)

text \<open>
  The contract of a \<open>Map\<close>: what \<open>get\<close> returns after \<open>set\<close> and \<open>delete\<close>, and
  that the keys stay distinct. Its clients fold \<open>set\<close> over a list.
\<close>

locale js_map =
  fixes get :: "'m \<Rightarrow> 'k \<Rightarrow> 'v option"
    and put :: "'k \<Rightarrow> 'v \<Rightarrow> 'm \<Rightarrow> 'm"
    and del :: "'k \<Rightarrow> 'm \<Rightarrow> 'm"
    and keys :: "'m \<Rightarrow> 'k list"
  assumes get_put: "get (put k v m) = (get m)(k \<mapsto> v)"
    and get_del: "get (del k m) = (get m)(k := None)"
    and keys_put: "keys (put k v m) = (if k \<in> set (keys m) then keys m else keys m @ [k])"
    and keys_get: "k \<in> set (keys m) \<longleftrightarrow> get m k \<noteq> None"
begin

lemma get_put_all: "get (fold (\<lambda>(k, v). put k v) kvs m) = get m ++ map_of (rev kvs)"
proof (induction kvs arbitrary: m)
  case Nil
  then show ?case by simp
next
  case (Cons kv kvs)
  obtain k v where kv: "kv = (k, v)" by (cases kv)
  have "get (fold (\<lambda>(k, v). put k v) (kv # kvs) m) = get (put k v m) ++ map_of (rev kvs)"
    by (simp add: kv Cons.IH)
  also have "\<dots> = (get m ++ [k \<mapsto> v]) ++ map_of (rev kvs)"
    by (simp add: get_put)
  finally show ?case by (simp add: kv map_of_append map_add_assoc)
qed

lemma distinct_keys_put: "distinct (keys m) \<Longrightarrow> distinct (keys (put k v m))"
  by (simp add: keys_put)

lemma distinct_keys_put_all:
  "distinct (keys m) \<Longrightarrow> distinct (keys (fold (\<lambda>(k, v). put k v) kvs m))"
  by (induction kvs arbitrary: m) (auto simp: distinct_keys_put)

lemma keys_put_all:
  "set (keys (fold (\<lambda>(k, v). put k v) kvs m)) = set (keys m) \<union> fst ` set kvs"
  by (induction kvs arbitrary: m) (auto simp: keys_put split: if_splits)

end

interpretation jm: js_map map_of AList.update AList.delete "map fst"
proof unfold_locales
  show "map_of (AList.update k v m) = (map_of m)(k \<mapsto> v)" for k :: 'a and v :: 'b and m
    by (rule update_conv')
  show "map_of (AList.delete k m) = (map_of m)(k := None)" for k :: 'a and m :: "('a \<times> 'b) list"
    by (rule delete_conv')
  show "map fst (AList.update k v m) =
      (if k \<in> set (map fst m) then map fst m else map fst m @ [k])" for k :: 'a and v :: 'b and m
    by (auto simp: update_keys)
  show "k \<in> set (map fst m) \<longleftrightarrow> map_of m k \<noteq> None" for k :: 'a and m :: "('a \<times> 'b) list"
    by (auto simp: map_of_eq_None_iff)
qed

section \<open>Strings\<close>

text \<open>An optional string is used as a condition: absent and empty are both false.\<close>

fun truthy :: "string option \<Rightarrow> bool" where
  "truthy None = False"
| "truthy (Some s) = (s \<noteq> [])"

definition or_else :: "'a option \<Rightarrow> 'a option \<Rightarrow> 'a option" where
  "or_else a b = (case a of None \<Rightarrow> b | Some x \<Rightarrow> Some x)"

lemma or_else_simps [simp]: "or_else None b = b" "or_else (Some x) b = Some x"
  by (simp_all add: or_else_def)

lemma or_else_None [simp]: "or_else a None = a"
  by (cases a) simp_all

definition keep_truthy :: "string option \<Rightarrow> string option" where
  "keep_truthy s = (if truthy s then s else None)"

lemma keep_truthy_simps [simp]:
  "keep_truthy None = None" "keep_truthy (Some []) = None" "keep_truthy (Some (c # s)) = Some (c # s)"
  by (simp_all add: keep_truthy_def)

lemma keep_truthy_idem [simp]: "keep_truthy (keep_truthy s) = keep_truthy s"
  by (simp add: keep_truthy_def)

lemma truthy_keep [simp]: "truthy (keep_truthy s) = truthy s"
  by (simp add: keep_truthy_def)

definition starts_with :: "string \<Rightarrow> string \<Rightarrow> bool" where
  "starts_with s p = (take (length p) s = p)"

lemma starts_with_append [simp]: "starts_with (p @ s) p"
  by (simp add: starts_with_def)

lemma starts_with_split: "starts_with s p \<Longrightarrow> s = p @ drop (length p) s"
  by (metis append_take_drop_id starts_with_def)

text \<open>\<open>s.includes(sub)\<close>.\<close>

fun str_includes :: "string \<Rightarrow> string \<Rightarrow> bool" where
  "str_includes [] sub = (sub = [])"
| "str_includes (ch # s) sub = (starts_with (ch # s) sub \<or> str_includes s sub)"

text \<open>\<open>s.lastIndexOf(p)\<close> and \<open>s.indexOf(p)\<close> for a substring.\<close>

fun lastIndexOf_sub :: "string \<Rightarrow> string \<Rightarrow> int" where
  "lastIndexOf_sub p [] = (if p = [] then 0 else -1)"
| "lastIndexOf_sub p (c # s) =
     (let i = lastIndexOf_sub p s
      in if 0 \<le> i then i + 1 else if starts_with (c # s) p then 0 else -1)"

lemma lastIndexOf_sub_bounds: "-1 \<le> lastIndexOf_sub p s \<and> lastIndexOf_sub p s \<le> int (length s)"
  by (induction s) (auto simp: Let_def)

lemma lastIndexOf_sub_neg: "lastIndexOf_sub p s < 0 \<Longrightarrow> lastIndexOf_sub p s = -1"
  using lastIndexOf_sub_bounds [of p s] by linarith

lemma lastIndexOf_sub_at:
  "0 \<le> lastIndexOf_sub p s \<Longrightarrow> starts_with (drop (nat (lastIndexOf_sub p s)) s) p"
proof (induction s)
  case Nil
  then show ?case by (auto simp: starts_with_def split: if_splits)
next
  case (Cons c s)
  show ?case
  proof (cases "0 \<le> lastIndexOf_sub p s")
    case True
    with Cons.IH show ?thesis by (simp add: Let_def nat_add_distrib)
  next
    case False
    with Cons.prems show ?thesis by (auto simp: Let_def split: if_splits)
  qed
qed

text \<open>A prefix only shifts the position of an occurrence.\<close>

lemma lastIndexOf_sub_append:
  "0 \<le> lastIndexOf_sub p s \<Longrightarrow> lastIndexOf_sub p (u @ s) = int (length u) + lastIndexOf_sub p s"
  by (induction u) (auto simp: Let_def)

definition is_space :: "char \<Rightarrow> bool" where
  "is_space c = (c = CHR '' '' \<or> c = CHR 0x09 \<or> c = CHR 0x0A \<or> c = CHR 0x0B \<or> c = CHR 0x0C
     \<or> c = CHR 0x0D \<or> c = CHR 0xA0)"

definition trim :: "string \<Rightarrow> string" where
  "trim s = rev (dropWhile is_space (rev (dropWhile is_space s)))"

lemma dropWhile_head: "s \<noteq> [] \<Longrightarrow> \<not> P (hd s) \<Longrightarrow> dropWhile P s = s"
  by (cases s) auto

lemma trim_id: "s \<noteq> [] \<Longrightarrow> \<not> is_space (hd s) \<Longrightarrow> \<not> is_space (last s) \<Longrightarrow> trim s = s"
  by (simp add: trim_def dropWhile_head hd_rev)

lemma trim_head: "trim s \<noteq> [] \<Longrightarrow> \<not> is_space (hd (trim s))"
proof -
  assume ne: "trim s \<noteq> []"
  define x where "x = dropWhile is_space s"
  have t: "trim s = rev (dropWhile is_space (rev x))" by (simp add: trim_def x_def)
  then have "x \<noteq> []" using ne by auto
  then have "\<not> is_space (hd x)" unfolding x_def by (rule hd_dropWhile)
  moreover obtain y where "x = trim s @ y"
    using takeWhile_dropWhile_id [of is_space "rev x"] t by (metis rev_append rev_rev_ident)
  ultimately show ?thesis using ne by auto
qed

lemma trim_last: "trim s \<noteq> [] \<Longrightarrow> \<not> is_space (last (trim s))"
  by (metis hd_dropWhile last_rev rev_is_Nil_conv trim_def)

lemma trim_twice: "trim (trim s) = trim s"
proof (cases "trim s = []")
  case True
  have "trim [] = []" by (simp add: trim_def)
  then show ?thesis by (simp only: True)
qed (simp add: trim_id trim_head trim_last)

definition is_digit :: "char \<Rightarrow> bool" where
  "is_digit c = (48 \<le> (of_char c :: nat) \<and> (of_char c :: nat) \<le> 57)"

definition is_letter :: "char \<Rightarrow> bool" where
  "is_letter c = (let n = (of_char c :: nat) in (65 \<le> n \<and> n \<le> 90) \<or> (97 \<le> n \<and> n \<le> 122))"

text \<open>\<open>toLowerCase\<close> and \<open>toUpperCase\<close> of one code unit below 256.\<close>

definition lower_char :: "char \<Rightarrow> char" where
  "lower_char c = (let n = (of_char c :: nat)
     in if (65 \<le> n \<and> n \<le> 90) \<or> (192 \<le> n \<and> n \<le> 222 \<and> n \<noteq> 215) then char_of (n + 32) else c)"

definition to_lower :: "string \<Rightarrow> string" where
  "to_lower s = map lower_char s"

definition upper_letter :: "char \<Rightarrow> char" where
  "upper_letter c = (let n = (of_char c :: nat) in if 97 \<le> n \<and> n \<le> 122 then char_of (n - 32) else c)"

definition ends_with :: "string \<Rightarrow> string \<Rightarrow> bool" where
  "ends_with s p = starts_with (rev s) (rev p)"

text \<open>\<open>s.split(c)\<close>, also for a class of separators, and \<open>xs.join(c)\<close>.\<close>

fun split_by :: "(char \<Rightarrow> bool) \<Rightarrow> string \<Rightarrow> string list" where
  "split_by P [] = [[]]"
| "split_by P (c # s) =
     (if P c then [] # split_by P s
      else (case split_by P s of [] \<Rightarrow> [[c]] | w # ws \<Rightarrow> (c # w) # ws))"

definition split_on :: "char \<Rightarrow> string \<Rightarrow> string list" where
  "split_on c s = split_by (\<lambda>d. d = c) s"

fun join :: "string \<Rightarrow> string list \<Rightarrow> string" where
  "join sep [] = []"
| "join sep [w] = w"
| "join sep (w # ws) = w @ sep @ join sep ws"

lemma split_by_nonempty [simp]: "split_by P s \<noteq> []"
  by (induction s) (auto split: list.splits)

lemma split_by_words: "w \<in> set (split_by P s) \<Longrightarrow> \<forall>c\<in>set w. \<not> P c"
  by (induction s arbitrary: w) (fastforce split: list.splits if_splits)+

lemma split_by_append:
  "\<forall>c\<in>set w. \<not> P c \<Longrightarrow> split_by P (w @ s) = (w @ hd (split_by P s)) # tl (split_by P s)"
proof (induction w)
  case Nil
  then show ?case by simp
next
  case (Cons c w)
  then show ?case by (auto split: list.splits)
qed

lemma split_by_plain: "\<forall>c\<in>set w. \<not> P c \<Longrightarrow> split_by P w = [w]"
  using split_by_append [of w P "[]"] by simp

lemma join_Cons: "ws \<noteq> [] \<Longrightarrow> join sep (w # ws) = w @ sep @ join sep ws"
  by (cases ws) simp_all

lemma join_hd: "ws \<noteq> [] \<Longrightarrow> join [c] ((a # hd ws) # tl ws) = a # join [c] ws"
  by (cases ws; cases "tl ws") simp_all

lemma join_split_on [simp]: "join [c] (split_on c s) = s"
proof (induction s)
  case Nil
  then show ?case by (simp add: split_on_def)
next
  case (Cons d s)
  have ne: "split_on c s \<noteq> []" by (simp add: split_on_def)
  show ?case
  proof (cases "d = c")
    case True
    then have "join [c] (split_on c (d # s)) = join [c] ([] # split_on c s)"
      by (simp add: split_on_def)
    with Cons ne True show ?thesis by (simp add: join_Cons)
  next
    case False
    then have "split_on c (d # s) = (d # hd (split_on c s)) # tl (split_on c s)"
      by (simp add: split_on_def split: list.splits)
    with Cons ne show ?thesis by (simp add: join_hd)
  qed
qed

lemma split_on_join:
  "ws \<noteq> [] \<Longrightarrow> \<forall>w\<in>set ws. c \<notin> set w \<Longrightarrow> split_on c (join [c] ws) = ws"
proof (induction ws rule: induct_list012)
  case 1
  then show ?case by simp
next
  case (2 w)
  then show ?case by (auto simp: split_on_def intro: split_by_plain)
next
  case (3 w v ws)
  have "split_on c (join [c] (w # v # ws)) = split_by (\<lambda>d. d = c) (w @ c # join [c] (v # ws))"
    by (simp add: split_on_def)
  also have "\<dots> = w # split_by (\<lambda>d. d = c) (join [c] (v # ws))"
    using "3.prems" by (subst split_by_append) auto
  finally show ?case using "3.IH"(2) "3.prems" by (simp add: split_on_def)
qed

lemma split_on_words: "w \<in> set (split_on c s) \<Longrightarrow> c \<notin> set w"
  using split_by_words [of w "\<lambda>d. d = c" s] by (auto simp: split_on_def)

lemma split_on_nonempty [simp]: "split_on c s \<noteq> []"
  by (simp add: split_on_def)

text \<open>Decimal printing and reading: \<open>`${n}`\<close> and \<open>Number(text)\<close> on digits.\<close>

fun nat_str :: "nat \<Rightarrow> string" where
  "nat_str n = (if n < 10 then [char_of (48 + n)] else nat_str (n div 10) @ [char_of (48 + n mod 10)])"

declare nat_str.simps [simp del]

definition str_nat :: "string \<Rightarrow> nat" where
  "str_nat s = foldl (\<lambda>a c. 10 * a + (of_char c - 48)) 0 s"

lemma str_nat_nat_str [simp]: "str_nat (nat_str n) = n"
proof (induction n rule: nat_str.induct)
  case (1 n)
  show ?case
  proof (cases "n < 10")
    case True
    then show ?thesis by (subst nat_str.simps) (simp add: str_nat_def)
  next
    case False
    with "1.IH" have "str_nat (nat_str (n div 10)) = n div 10" by simp
    with False show ?thesis by (subst nat_str.simps) (simp add: str_nat_def)
  qed
qed

lemma nat_str_inject [simp]: "nat_str m = nat_str n \<longleftrightarrow> m = n"
  by (metis str_nat_nat_str)

lemma nat_str_digits: "list_all is_digit (nat_str n)"
proof (induction n rule: nat_str.induct)
  case (1 n)
  show ?case
  proof (cases "n < 10")
    case True
    then show ?thesis by (subst nat_str.simps) (simp add: is_digit_def)
  next
    case False
    with "1.IH" have "list_all is_digit (nat_str (n div 10))" by simp
    moreover have "is_digit (char_of (48 + n mod 10))" by (simp add: is_digit_def)
    ultimately show ?thesis using False by (subst nat_str.simps) simp
  qed
qed

lemma nat_str_nonempty [simp]: "nat_str n \<noteq> []"
  by (subst nat_str.simps) simp

text \<open>
  The loop \<open>while (used.has(prefix + n)) n++\<close>: the first number at or above \<open>n\<close> whose
  label is free. It ends because the labels are all different and \<open>used\<close> is finite.
\<close>

lemma finite_numbered: "finite {k. n \<le> k \<and> pre @ nat_str k \<in> set used}"
proof -
  have "inj_on (\<lambda>k. pre @ nat_str k) UNIV" by (simp add: inj_on_def)
  then have "finite ((\<lambda>k. pre @ nat_str k) -` set used \<inter> UNIV)"
    by (intro finite_vimage_IntI) simp_all
  then show ?thesis by (rule rev_finite_subset) auto
qed

function first_free :: "string \<Rightarrow> string list \<Rightarrow> nat \<Rightarrow> nat" where
  "first_free pre used n = (if pre @ nat_str n \<in> set used then first_free pre used (Suc n) else n)"
  by pat_completeness auto
termination
proof (relation "measure (\<lambda>(pre, used, n). card {k. n \<le> k \<and> pre @ nat_str k \<in> set used})")
  fix pre :: string and used n
  assume "pre @ nat_str n \<in> set used"
  then have "n \<in> {k. n \<le> k \<and> pre @ nat_str k \<in> set used}" by simp
  moreover have "n \<notin> {k. Suc n \<le> k \<and> pre @ nat_str k \<in> set used}" by simp
  ultimately have "{k. Suc n \<le> k \<and> pre @ nat_str k \<in> set used} \<subset>
      {k. n \<le> k \<and> pre @ nat_str k \<in> set used}"
    by (metis (no_types, lifting) Collect_mono Suc_leD psubsetI)
  with finite_numbered [of n pre used]
  show "((pre, used, Suc n), pre, used, n)
      \<in> measure (\<lambda>(pre, used, n). card {k. n \<le> k \<and> pre @ nat_str k \<in> set used})"
    by (simp add: psubset_card_mono)
qed simp

declare first_free.simps [simp del]

lemma first_free_free: "pre @ nat_str (first_free pre used n) \<notin> set used"
  by (induction pre used n rule: first_free.induct) (simp add: first_free.simps)

lemma first_free_ge: "n \<le> first_free pre used n"
  by (induction pre used n rule: first_free.induct) (subst first_free.simps, auto)

lemma first_free_least: "n \<le> k \<Longrightarrow> k < first_free pre used n \<Longrightarrow> pre @ nat_str k \<in> set used"
proof (induction pre used n rule: first_free.induct)
  case (1 pre used n)
  show ?case
  proof (cases "pre @ nat_str n \<in> set used")
    case True
    with 1 show ?thesis by (cases "k = n") (auto simp: first_free.simps [of pre used n])
  next
    case False
    with 1 show ?thesis by (simp add: first_free.simps [of pre used n])
  qed
qed

section \<open>State machines\<close>

text \<open>
  The shape of every component that keeps state and answers events: a start state, a step
  function and an invariant its steps keep. Any run from the start keeps the invariant.
\<close>

locale machine =
  fixes start :: 's
    and step :: "'s \<Rightarrow> 'e \<Rightarrow> 's"
    and inv :: "'s \<Rightarrow> bool"
  assumes start_inv: "inv start"
    and step_inv: "inv s \<Longrightarrow> inv (step s e)"
begin

lemma run_from: "inv s \<Longrightarrow> inv (foldl step s es)"
  by (induction es arbitrary: s) (auto intro: step_inv)

lemma run_inv: "inv (foldl step start es)"
  by (rule run_from [OF start_inv])

end

end
