(* ===== verification/JsSort.thy ===== *)
theory JsSort
  imports JsPrelude "HOL-Library.List_Lexorder" "HOL-Library.Char_ord"
begin

text \<open>
  \<open>Array.prototype.sort\<close> with a comparator, which is stable, and the comparison of strings
  with \<open><\<close>, by code units. The locale \<open>js_compare\<close> is what a comparator has to be for the
  sort to mean anything; every comparator of the model is interpreted in it.
\<close>

fun insert_by :: "('a \<Rightarrow> 'a \<Rightarrow> int) \<Rightarrow> 'a \<Rightarrow> 'a list \<Rightarrow> 'a list" where
  "insert_by cmp x [] = [x]"
| "insert_by cmp x (y # ys) = (if cmp x y \<le> 0 then x # y # ys else y # insert_by cmp x ys)"

definition sort_by :: "('a \<Rightarrow> 'a \<Rightarrow> int) \<Rightarrow> 'a list \<Rightarrow> 'a list" where
  "sort_by cmp xs = foldr (insert_by cmp) xs []"

lemma sort_by_simps [simp]:
  "sort_by cmp [] = []" "sort_by cmp (x # xs) = insert_by cmp x (sort_by cmp xs)"
  by (simp_all add: sort_by_def)

lemma mset_insert_by [simp]: "mset (insert_by cmp x xs) = add_mset x (mset xs)"
  by (induction xs) auto

lemma mset_sort_by [simp]: "mset (sort_by cmp xs) = mset xs"
  by (induction xs) auto

lemma set_insert_by [simp]: "set (insert_by cmp x xs) = insert x (set xs)"
  by (metis mset_insert_by set_mset_add_mset_insert set_mset_mset)

lemma set_sort_by [simp]: "set (sort_by cmp xs) = set xs"
  by (metis mset_sort_by set_mset_mset)

lemma length_sort_by [simp]: "length (sort_by cmp xs) = length xs"
  by (metis mset_sort_by size_mset)

lemma distinct_sort_by [simp]: "distinct (sort_by cmp xs) = distinct xs"
  by (rule mset_eq_imp_distinct_iff) simp

lemma sort_by_cong:
  assumes "\<And>x y. x \<in> set xs \<Longrightarrow> y \<in> set xs \<Longrightarrow> cmp x y = cmp' x y"
  shows "sort_by cmp xs = sort_by cmp' xs"
  using assms
proof (induction xs)
  case (Cons x xs)
  have "set ys \<subseteq> set xs \<Longrightarrow> insert_by cmp x ys = insert_by cmp' x ys" for ys
    using Cons.prems by (induction ys) auto
  then show ?case using Cons by simp
qed simp

lemma insert_by_map:
  "insert_by cmp (f x) (map f xs) = map f (insert_by (\<lambda>a b. cmp (f a) (f b)) x xs)"
  by (induction xs) simp_all

lemma sort_by_map: "sort_by cmp (map f xs) = map f (sort_by (\<lambda>a b. cmp (f a) (f b)) xs)"
  by (induction xs) (simp_all add: insert_by_map)

section \<open>Comparators\<close>

locale js_compare =
  fixes cmp :: "'a \<Rightarrow> 'a \<Rightarrow> int"
  assumes opposite: "sgn (cmp x y) = - sgn (cmp y x)"
    and transitive: "cmp x y \<le> 0 \<Longrightarrow> cmp y z \<le> 0 \<Longrightarrow> cmp x z \<le> 0"
begin

lemma not_le: "\<not> cmp x y \<le> 0 \<Longrightarrow> cmp y x < 0"
  using opposite [of x y] by (simp add: sgn_if split: if_splits)

lemma refl [simp]: "cmp x x = 0"
  using opposite [of x x] by (simp add: sgn_if split: if_splits)

lemma lt_le_trans: "cmp x y < 0 \<Longrightarrow> cmp y z \<le> 0 \<Longrightarrow> cmp x z < 0"
proof -
  assume xy: "cmp x y < 0" and yz: "cmp y z \<le> 0"
  have "cmp x z \<noteq> 0"
  proof
    assume "cmp x z = 0"
    then have "cmp z x \<le> 0" using opposite [of x z] by (simp add: sgn_if split: if_splits)
    then have "cmp y x \<le> 0" using transitive yz by blast
    then show False using xy opposite [of x y] by (simp add: sgn_if split: if_splits)
  qed
  moreover have "cmp x z \<le> 0" using transitive [of x y z] xy yz by simp
  ultimately show ?thesis by simp
qed

lemma sorted_insert_by:
  "sorted_wrt (\<lambda>x y. cmp x y \<le> 0) xs \<Longrightarrow> sorted_wrt (\<lambda>x y. cmp x y \<le> 0) (insert_by cmp x xs)"
proof (induction xs)
  case (Cons y ys)
  show ?case
  proof (cases "cmp x y \<le> 0")
    case True
    with Cons.prems show ?thesis by (auto intro: transitive)
  next
    case False
    with not_le [OF False] Cons show ?thesis by auto
  qed
qed simp

lemma sorted_sort_by: "sorted_wrt (\<lambda>x y. cmp x y \<le> 0) (sort_by cmp xs)"
  by (induction xs) (simp_all add: sorted_insert_by)

lemma insert_by_front: "\<forall>y\<in>set ys. cmp x y \<le> 0 \<Longrightarrow> insert_by cmp x ys = x # ys"
  by (cases ys) simp_all

lemma sort_by_sorted: "sorted_wrt (\<lambda>x y. cmp x y \<le> 0) xs \<Longrightarrow> sort_by cmp xs = xs"
  by (induction xs) (simp_all add: insert_by_front)

lemma sort_by_idem [simp]: "sort_by cmp (sort_by cmp xs) = sort_by cmp xs"
  by (rule sort_by_sorted [OF sorted_sort_by])

lemma filter_insert_by:
  "sorted_wrt (\<lambda>x y. cmp x y \<le> 0) xs \<Longrightarrow>
   filter P (insert_by cmp x xs) = (if P x then insert_by cmp x (filter P xs) else filter P xs)"
proof (induction xs)
  case (Cons y ys)
  have front: "insert_by cmp x (filter P ys) = x # filter P ys" if "cmp x y \<le> 0"
  proof (rule insert_by_front)
    show "\<forall>z\<in>set (filter P ys). cmp x z \<le> 0"
      using Cons.prems that transitive by auto
  qed
  with Cons show ?case by (cases "cmp x y \<le> 0") auto
qed simp

text \<open>Sorting and selecting commute: the order among the selected ones is the order they had.\<close>

lemma filter_sort_by: "filter P (sort_by cmp xs) = sort_by cmp (filter P xs)"
  by (induction xs) (simp_all add: filter_insert_by sorted_sort_by)

lemma sort_by_stable: "filter (\<lambda>y. cmp x y = 0) (sort_by cmp xs) = filter (\<lambda>y. cmp x y = 0) xs"
proof -
  have "sorted_wrt (\<lambda>a b. cmp a b \<le> 0) (filter (\<lambda>y. cmp x y = 0) xs)"
  proof (induction xs)
    case (Cons a xs)
    have "cmp a b \<le> 0" if "cmp x a = 0" "cmp x b = 0" for b
      using transitive [of a x b] opposite [of x a] that by (simp add: sgn_if split: if_splits)
    with Cons show ?case by auto
  qed simp
  then show ?thesis by (simp add: filter_sort_by sort_by_sorted)
qed

text \<open>A strictly increasing arrangement of the same elements is what the sort returns.\<close>

lemma sort_by_unique:
  assumes "sorted_wrt (\<lambda>x y. cmp x y < 0) ys" and "mset xs = mset ys"
  shows "sort_by cmp xs = ys"
  using assms
proof (induction ys arbitrary: xs)
  case (Cons y ys)
  have s: "sorted_wrt (\<lambda>x y. cmp x y \<le> 0) (sort_by cmp xs)" and m: "mset (sort_by cmp xs) = mset (y # ys)"
    using Cons.prems by (simp_all add: sorted_sort_by)
  then obtain z zs where z: "sort_by cmp xs = z # zs" by (cases "sort_by cmp xs") auto
  have "z = y"
  proof (rule ccontr)
    assume ne: "z \<noteq> y"
    have "set (z # zs) = set (y # ys)" by (metis m z mset_eq_setD)
    then have "z \<in> set ys" "y \<in> set zs" using ne by auto
    then have "cmp y z < 0" "cmp z y \<le> 0" using Cons.prems(1) s z by auto
    then show False using opposite [of y z] by (simp add: sgn_if split: if_splits)
  qed
  with m z have "mset zs = mset ys" by simp
  moreover have "sort_by cmp zs = zs" using s z by (intro sort_by_sorted) simp
  ultimately have "zs = ys" using Cons.IH [of zs] Cons.prems(1) by simp
  with z \<open>z = y\<close> show ?case by simp
qed simp

end

section \<open>Strings in code unit order\<close>

definition compareNames :: "string \<Rightarrow> string \<Rightarrow> int" where
  "compareNames a b = (if a < b then -1 else if a > b then 1 else 0)"

interpretation names: js_compare compareNames
  by unfold_locales (auto simp: compareNames_def split: if_splits)

lemma compareNames_eq [simp]: "compareNames a b = 0 \<longleftrightarrow> a = b"
  by (auto simp: compareNames_def)

text \<open>Comparing through a key, and one comparator after another as in \<open>a || b\<close>.\<close>

lemma js_compare_key: "js_compare cmp \<Longrightarrow> js_compare (\<lambda>x y. cmp (f x) (f y))"
  unfolding js_compare_def by blast

definition then_compare :: "int \<Rightarrow> int \<Rightarrow> int" where
  "then_compare a b = (if a \<noteq> 0 then a else b)"

lemma js_compare_then:
  assumes "js_compare c" and "js_compare d"
  shows "js_compare (\<lambda>x y. then_compare (c x y) (d x y))"
proof
  fix x y z
  show "sgn (then_compare (c x y) (d x y)) = - sgn (then_compare (c y x) (d y x))"
    using js_compare.opposite [OF assms(1), of x y] js_compare.opposite [OF assms(2), of x y]
    by (auto simp: then_compare_def sgn_if split: if_splits)
  assume "then_compare (c x y) (d x y) \<le> 0" and "then_compare (c y z) (d y z) \<le> 0"
  then show "then_compare (c x z) (d x z) \<le> 0"
    using js_compare.transitive [OF assms(1), of x y z] js_compare.transitive [OF assms(2), of x y z]
      js_compare.lt_le_trans [OF assms(1), of x y z] js_compare.transitive [OF assms(1), of z x y]
      js_compare.opposite [OF assms(1), of x z] js_compare.opposite [OF assms(1), of y z]
    by (auto simp: then_compare_def sgn_if split: if_splits)
qed

text \<open>Sorting by a rank first is sorting each rank on its own.\<close>

lemma sorted_concat_ranks:
  assumes "sorted_wrt (\<lambda>x y. rank x \<le> (rank y :: nat)) xs"
  shows "concat (map (\<lambda>r. filter (\<lambda>x. rank x = r) xs) [0..<m]) = filter (\<lambda>x. rank x < m) xs"
proof (induction m)
  case (Suc m)
  have "filter (\<lambda>x. rank x < m) xs @ filter (\<lambda>x. rank x = m) xs = filter (\<lambda>x. rank x < Suc m) xs"
    using assms
  proof (induction xs)
    case (Cons x xs)
    then have "filter (\<lambda>y. rank y < m) xs = []" if "rank x = m"
      using that by (auto simp: filter_empty_conv)
    with Cons show ?case by auto
  qed simp
  with Suc show ?case by simp
qed simp

lemma js_compare_rank: "js_compare (\<lambda>x y. int (rank x) - int (rank y))"
  by unfold_locales (simp_all add: sgn_if)

lemma sort_by_ranks:
  assumes "js_compare cmp" and "\<And>x. x \<in> set xs \<Longrightarrow> rank x < n"
  shows "sort_by (\<lambda>x y. then_compare (int (rank x) - int (rank y)) (cmp x y)) xs =
    concat (map (\<lambda>r. sort_by cmp (filter (\<lambda>x. rank x = r) xs)) [0..<n])"
proof -
  let ?c = "\<lambda>x y. then_compare (int (rank x) - int (rank y)) (cmp x y)"
  have c: "js_compare ?c" by (rule js_compare_then [OF js_compare_rank assms(1)])
  have "sorted_wrt (\<lambda>x y. rank x \<le> rank y) (sort_by ?c xs)"
    by (rule sorted_wrt_mono_rel [OF _ js_compare.sorted_sort_by [OF c]]) (auto simp: then_compare_def split: if_splits)
  then have "concat (map (\<lambda>r. filter (\<lambda>x. rank x = r) (sort_by ?c xs)) [0..<n]) = sort_by ?c xs"
    using assms(2) by (simp add: sorted_concat_ranks)
  moreover have "filter (\<lambda>x. rank x = r) (sort_by ?c xs) = sort_by cmp (filter (\<lambda>x. rank x = r) xs)" for r
    unfolding js_compare.filter_sort_by [OF c] by (rule sort_by_cong) (simp add: then_compare_def)
  ultimately show ?thesis by simp
qed

end
