(* ===== verification/PaneTree.thy ===== *)
theory PaneTree
  imports JsPrelude
begin

text \<open>
  \<open>desktop/frontend/src/paneTree.ts\<close>: the tree of split panes of a project's terminal
  view. A leaf is a pane with its tabs; an inner node splits the screen in a row or a
  column at a ratio. The operations look panes up, navigate between them, and edit the
  tree; the lemmas say what each edit does to the panes in reading order.

  The source returns the very same node when an edit changes nothing (so that React can
  skip a render); values have no identity here, so such branches are comparisons of values.
\<close>

section \<open>Tabs\<close>

datatype split_direction = Row | Col

datatype title_source = Vendor | Manual

datatype agent_provider = Claude | Codex

record agent_session_ref =
  ref_provider :: agent_provider
  ref_session_id :: string

record terminal_memory_ref =
  memory_session :: "string option"

record tab_fork =
  fork_label :: string
  fork_at :: int

datatype tab_kind = KTerminal | KBrowser | KMemory | KToolkit | KFiles | KAutomations | KCommands

text \<open>An absent optional flag and \<open>false\<close> are read alike everywhere: both are \<^term>\<open>False\<close>.\<close>

record terminal_instance =
  t_id :: string
  t_label :: string
  sessionTitle :: "string option"
  sessionTitleId :: "string option"
  sessionTitleSource :: "title_source option"
  agentSession :: "agent_session_ref option"
  historyKey :: "string option"
  memory :: "terminal_memory_ref option"
  startCmd :: "string option"
  resumeCmd :: "string option"
  agentEnded :: bool
  actionName :: "string option"
  pinned :: bool
  emoji :: "string option"
  color :: "string option"
  peerAdopted :: bool
  fromHost :: bool
  restoreHere :: bool
  forkOf :: "tab_fork option"
  t_kind :: "tab_kind option"

definition bare_tab :: "string \<Rightarrow> string \<Rightarrow> terminal_instance" where
  "bare_tab i l = \<lparr>t_id = i, t_label = l, sessionTitle = None, sessionTitleId = None,
     sessionTitleSource = None, agentSession = None, historyKey = None, memory = None,
     startCmd = None, resumeCmd = None, agentEnded = False, actionName = None, pinned = False,
     emoji = None, color = None, peerAdopted = False, fromHost = False, restoreHere = False,
     forkOf = None, t_kind = None\<rparr>"

definition isTerminalTab :: "terminal_instance \<Rightarrow> bool" where
  "isTerminalTab t = (t_kind t = None \<or> t_kind t = Some KTerminal)"

text \<open>
  \<open>makeTerminal\<close> takes its options as a tab-shaped record (\<open>opts\<close>); an empty string is
  dropped like an absent one. The fresh history key \<open>crypto.randomUUID()\<close> is a parameter.
\<close>

definition makeTerminal :: "string \<Rightarrow> string \<Rightarrow> string \<Rightarrow> terminal_instance \<Rightarrow> terminal_instance" where
  "makeTerminal uuid i l opts = (bare_tab i l)\<lparr>
     sessionTitle := keep_truthy (sessionTitle opts),
     sessionTitleId := keep_truthy (sessionTitleId opts),
     sessionTitleSource := sessionTitleSource opts,
     agentSession := agentSession opts,
     historyKey := (case historyKey opts of None \<Rightarrow> Some uuid | Some k \<Rightarrow> Some k),
     memory := memory opts,
     startCmd := keep_truthy (startCmd opts),
     resumeCmd := keep_truthy (resumeCmd opts),
     agentEnded := agentEnded opts,
     actionName := keep_truthy (actionName opts),
     pinned := pinned opts,
     emoji := keep_truthy (emoji opts),
     color := keep_truthy (color opts),
     peerAdopted := peerAdopted opts,
     fromHost := fromHost opts,
     restoreHere := restoreHere opts,
     forkOf := forkOf opts\<rparr>"

definition FORK_SUFFIX :: string where
  "FORK_SUFFIX = '' '' @ [CHR 0xB7] @ '' fork''"

definition followsAgentTitle :: "terminal_instance \<Rightarrow> bool" where
  "followsAgentTitle t = (sessionTitleSource t \<noteq> Some Manual)"

definition terminalDisplayLabel :: "terminal_instance \<Rightarrow> string" where
  "terminalDisplayLabel t =
     (if \<not> followsAgentTitle t then t_label t
      else case keep_truthy (sessionTitle t) of
        None \<Rightarrow> t_label t
      | Some title \<Rightarrow> if forkOf t \<noteq> None then title @ FORK_SUFFIX else title)"

text \<open>The pattern \<open>/^( \d+)?$/\<close> of what may follow the suffix: nothing, or a number.\<close>

definition fork_count :: "string \<Rightarrow> bool" where
  "fork_count s = (case s of [] \<Rightarrow> True | c # ds \<Rightarrow> c = CHR '' '' \<and> ds \<noteq> [] \<and> list_all is_digit ds)"

definition withoutForkSuffix :: "string \<Rightarrow> string" where
  "withoutForkSuffix label =
     (let pos = lastIndexOf_sub FORK_SUFFIX label
      in if 0 \<le> pos \<and> fork_count (drop (nat pos + length FORK_SUFFIX) label)
         then take (nat pos) label else label)"

definition forkLabel :: "string \<Rightarrow> string" where
  "forkLabel label = withoutForkSuffix label @ FORK_SUFFIX"

definition terminalOriginLabel :: "terminal_instance \<Rightarrow> string option" where
  "terminalOriginLabel t =
     (case keep_truthy (actionName t) of
        None \<Rightarrow> None
      | Some action \<Rightarrow>
          let named = (if followsAgentTitle t then trim (withoutForkSuffix (t_label t)) else []);
              original = (if named \<noteq> [] then named else action)
          in if original \<noteq> terminalDisplayLabel t then Some original else None)"

definition applyManualTerminalRename ::
  "terminal_instance \<Rightarrow> string \<Rightarrow> string option \<Rightarrow> terminal_instance" where
  "applyManualTerminalRename terminal label new_emoji =
     (let patch = (\<lambda>t. case new_emoji of None \<Rightarrow> t | Some e \<Rightarrow> t\<lparr>emoji := keep_truthy (Some e)\<rparr>)
      in if label = terminalDisplayLabel terminal then patch terminal
         else patch (terminal\<lparr>t_label := label, sessionTitle := None, sessionTitleId := None,
                sessionTitleSource := Some Manual\<rparr>))"

definition clearManualTerminalTitle :: "terminal_instance \<Rightarrow> terminal_instance" where
  "clearManualTerminalTitle terminal =
     (if sessionTitleSource terminal \<noteq> Some Manual then terminal
      else terminal\<lparr>sessionTitleSource := None\<rparr>)"

definition makeBrowser :: "string \<Rightarrow> string \<Rightarrow> terminal_instance" where
  "makeBrowser i l = (bare_tab i l)\<lparr>t_kind := Some KBrowser\<rparr>"

definition makeMemory :: "string \<Rightarrow> string \<Rightarrow> terminal_instance" where
  "makeMemory i l = (bare_tab i l)\<lparr>t_kind := Some KMemory\<rparr>"

definition makeToolkit :: "string \<Rightarrow> string \<Rightarrow> terminal_instance" where
  "makeToolkit i l = (bare_tab i l)\<lparr>t_kind := Some KToolkit\<rparr>"

definition makeFiles :: "string \<Rightarrow> string \<Rightarrow> terminal_instance" where
  "makeFiles i l = (bare_tab i l)\<lparr>t_kind := Some KFiles\<rparr>"

definition makeAutomations :: "string \<Rightarrow> string \<Rightarrow> terminal_instance" where
  "makeAutomations i l = (bare_tab i l)\<lparr>t_kind := Some KAutomations\<rparr>"

definition makeCommands :: "string \<Rightarrow> string \<Rightarrow> terminal_instance" where
  "makeCommands i l = (bare_tab i l)\<lparr>t_kind := Some KCommands\<rparr>"

definition filesTabLabel :: "terminal_instance \<Rightarrow> bool \<Rightarrow> string" where
  "filesTabLabel t changesOnly =
     (if changesOnly \<and> followsAgentTitle t then ''Changes'' else terminalDisplayLabel t)"

section \<open>The tree\<close>

record pane_leaf =
  p_id :: string
  p_tabs :: "terminal_instance list"
  p_activeTabIdx :: int
  p_activeServiceName :: "string option"

datatype pane_node =
    Leaf pane_leaf
  | Split split_direction rat pane_node pane_node

definition makePaneLeaf :: "string \<Rightarrow> terminal_instance list \<Rightarrow> int \<Rightarrow> pane_leaf" where
  "makePaneLeaf i tabs active =
     \<lparr>p_id = i, p_tabs = tabs, p_activeTabIdx = active, p_activeServiceName = None\<rparr>"

text \<open>The visitor's effects are a state it threads; the panes come in reading order.\<close>

fun walkPanes :: "pane_node \<Rightarrow> (pane_leaf \<Rightarrow> 's \<Rightarrow> 's) \<Rightarrow> 's \<Rightarrow> 's" where
  "walkPanes (Leaf p) f s = f p s"
| "walkPanes (Split _ _ a b) f s = walkPanes b f (walkPanes a f s)"

definition collectPanes :: "pane_node \<Rightarrow> pane_leaf list" where
  "collectPanes node = walkPanes node (\<lambda>p out. out @ [p]) []"

definition collectTerminals :: "pane_node \<Rightarrow> terminal_instance list" where
  "collectTerminals node = walkPanes node (\<lambda>p out. out @ p_tabs p) []"

fun findPane :: "pane_node \<Rightarrow> string \<Rightarrow> pane_leaf option" where
  "findPane (Leaf p) paneId = (if p_id p = paneId then Some p else None)"
| "findPane (Split _ _ a b) paneId = or_else (findPane a paneId) (findPane b paneId)"

fun findTerminalLocation :: "pane_node \<Rightarrow> string \<Rightarrow> (string \<times> int) option" where
  "findTerminalLocation (Leaf p) terminalId =
     (let tabIdx = findIndex (\<lambda>t. t_id t = terminalId) (p_tabs p)
      in if tabIdx < 0 then None else Some (p_id p, tabIdx))"
| "findTerminalLocation (Split _ _ a b) terminalId =
     or_else (findTerminalLocation a terminalId) (findTerminalLocation b terminalId)"

fun firstPaneId :: "pane_node \<Rightarrow> string" where
  "firstPaneId (Leaf p) = p_id p"
| "firstPaneId (Split _ _ a b) = firstPaneId a"

fun lastPaneId :: "pane_node \<Rightarrow> string" where
  "lastPaneId (Leaf p) = p_id p"
| "lastPaneId (Split _ _ a b) = lastPaneId b"

text \<open>\<open>out\<close> is the array the recursion pushes to: deepest step first.\<close>

fun buildPanePath :: "pane_node \<Rightarrow> string \<Rightarrow> nat list \<Rightarrow> bool \<times> nat list" where
  "buildPanePath (Leaf p) paneId out = (p_id p = paneId, out)"
| "buildPanePath (Split _ _ a b) paneId out =
     (case buildPanePath a paneId out of
        (True, out) \<Rightarrow> (True, out @ [0])
      | (False, out) \<Rightarrow>
          (case buildPanePath b paneId out of
             (True, out) \<Rightarrow> (True, out @ [1])
           | (False, out) \<Rightarrow> (False, out)))"

definition panePath :: "pane_node \<Rightarrow> string \<Rightarrow> nat list option" where
  "panePath node paneId =
     (case buildPanePath node paneId [] of (True, out) \<Rightarrow> Some (rev out) | (False, _) \<Rightarrow> None)"

fun paneAtPath :: "pane_node \<Rightarrow> nat list \<Rightarrow> pane_leaf option" where
  "paneAtPath (Leaf p) [] = Some p"
| "paneAtPath (Leaf p) (_ # _) = None"
| "paneAtPath (Split _ _ a b) [] = None"
| "paneAtPath (Split _ _ a b) (step # path) =
     (if step = 0 then paneAtPath a path else if step = 1 then paneAtPath b path else None)"

fun is_leaf_with :: "pane_node \<Rightarrow> string \<Rightarrow> bool" where
  "is_leaf_with (Leaf p) paneId = (p_id p = paneId)"
| "is_leaf_with (Split _ _ _ _) paneId = False"

fun siblingPaneId :: "pane_node \<Rightarrow> string \<Rightarrow> string option" where
  "siblingPaneId (Leaf p) paneId = None"
| "siblingPaneId (Split _ _ a b) paneId =
     (if is_leaf_with a paneId then Some (firstPaneId b)
      else if is_leaf_with b paneId then Some (lastPaneId a)
      else or_else (siblingPaneId a paneId) (siblingPaneId b paneId))"

fun mapPane :: "pane_node \<Rightarrow> string \<Rightarrow> (pane_leaf \<Rightarrow> pane_leaf) \<Rightarrow> pane_node" where
  "mapPane (Leaf p) paneId f = (if p_id p = paneId then Leaf (f p) else Leaf p)"
| "mapPane (Split d r a b) paneId f =
     (let a' = mapPane a paneId f; b' = mapPane b paneId f
      in if a' = a \<and> b' = b then Split d r a b else Split d r a' b')"

fun replacePane :: "pane_node \<Rightarrow> string \<Rightarrow> pane_node \<Rightarrow> pane_node" where
  "replacePane (Leaf p) paneId replacement = (if p_id p = paneId then replacement else Leaf p)"
| "replacePane (Split d r a b) paneId replacement =
     (let a' = replacePane a paneId replacement; b' = replacePane b paneId replacement
      in if a' = a \<and> b' = b then Split d r a b else Split d r a' b')"

fun removePane :: "pane_node \<Rightarrow> string \<Rightarrow> pane_node option" where
  "removePane (Leaf p) paneId = (if p_id p = paneId then None else Some (Leaf p))"
| "removePane (Split d r a b) paneId =
     (if is_leaf_with a paneId then Some b
      else if is_leaf_with b paneId then Some a
      else case removePane a paneId of
        None \<Rightarrow> Some b
      | Some a' \<Rightarrow>
          (case removePane b paneId of
             None \<Rightarrow> Some a
           | Some b' \<Rightarrow> if a' = a \<and> b' = b then Some (Split d r a b) else Some (Split d r a' b')))"

definition clamp_ratio :: "rat \<Rightarrow> rat" where
  "clamp_ratio ratio = max (5 / 100) (min (95 / 100) ratio)"

fun setRatioAtPath :: "pane_node \<Rightarrow> nat list \<Rightarrow> rat \<Rightarrow> pane_node" where
  "setRatioAtPath (Leaf p) path ratio = Leaf p"
| "setRatioAtPath (Split d r a b) [] ratio =
     (let clamped = clamp_ratio ratio
      in if clamped = r then Split d r a b else Split d clamped a b)"
| "setRatioAtPath (Split d r a b) (head # rest) ratio =
     (if head = 0 then
        (let a' = setRatioAtPath a rest ratio in if a' = a then Split d r a b else Split d r a' b)
      else
        (let b' = setRatioAtPath b rest ratio in if b' = b then Split d r a b else Split d r a b'))"

definition splitAtPane :: "pane_node \<Rightarrow> string \<Rightarrow> split_direction \<Rightarrow> pane_leaf \<Rightarrow> pane_node" where
  "splitAtPane node paneId direction newPane =
     (case findPane node paneId of
        None \<Rightarrow> node
      | Some existing \<Rightarrow>
          replacePane node paneId (Split direction (1 / 2) (Leaf existing) (Leaf newPane)))"

definition isTabPinned :: "pane_leaf \<Rightarrow> int \<Rightarrow> bool" where
  "isTabPinned pane idx = (case at_index (p_tabs pane) idx of None \<Rightarrow> False | Some t \<Rightarrow> pinned t)"

definition clampIdx :: "'a::linordered_idom option \<Rightarrow> nat \<Rightarrow> 'a" where
  "clampIdx idx len =
     (case idx of None \<Rightarrow> 0
      | Some i \<Rightarrow> if len = 0 then 0 else max 0 (min i (of_nat len - 1)))"

section \<open>The header strip of a pane\<close>

definition ALL_SERVICES :: string where
  "ALL_SERVICES = ''__lpm_all__''"

datatype pane_header_item = HService string | HTab nat

definition paneHeaderItems :: "pane_leaf \<Rightarrow> string list \<Rightarrow> pane_header_item list" where
  "paneHeaderItems pane serviceNames =
     (if length serviceNames > 1 then [HService ALL_SERVICES] else []) @
     map HService serviceNames @
     map HTab [0..<length (p_tabs pane)]"

definition activeHeaderIndex :: "pane_header_item list \<Rightarrow> pane_leaf \<Rightarrow> int" where
  "activeHeaderIndex items pane =
     (let i = (case keep_truthy (p_activeServiceName pane) of
                 None \<Rightarrow> -1
               | Some name \<Rightarrow> findIndex (\<lambda>it. it = HService name) items)
      in if 0 \<le> i then i
         else if p_tabs pane = [] then -1
         else let idx = clampIdx (Some (p_activeTabIdx pane)) (length (p_tabs pane))
              in findIndex (\<lambda>it. it = HTab (nat idx)) items)"

text \<open>The remainder of JavaScript takes the sign of the dividend.\<close>

definition js_rem :: "int \<Rightarrow> int \<Rightarrow> int" where
  "js_rem a n = (if 0 \<le> a then a mod n else - ((- a) mod n))"

definition adjacentPaneHeaderItem ::
  "pane_leaf \<Rightarrow> string list \<Rightarrow> int \<Rightarrow> pane_header_item option" where
  "adjacentPaneHeaderItem pane serviceNames delta =
     (let items = paneHeaderItems pane serviceNames
      in if length items < 2 then None
         else let start = activeHeaderIndex items pane;
                  base = (if start < 0 then 0 else start)
              in at_index items (js_rem (base + delta + int (length items)) (int (length items))))"


section \<open>Reading order\<close>

abbreviation pane_ids :: "pane_node \<Rightarrow> string list" where
  "pane_ids node \<equiv> map p_id (collectPanes node)"

lemma walkPanes_snoc: "walkPanes node (\<lambda>p out. out @ g p) acc = acc @ walkPanes node (\<lambda>p out. out @ g p) []"
proof (induction node arbitrary: acc)
  case (Leaf p)
  then show ?case by simp
next
  case (Split d r a b)
  show ?case
    by (simp add: Split.IH(1) [of acc] Split.IH(2) [of "acc @ _"]
        Split.IH(2) [of "walkPanes a (\<lambda>p out. out @ g p) []"])
qed

lemma collectPanes_simps [simp]:
  "collectPanes (Leaf p) = [p]"
  "collectPanes (Split d r a b) = collectPanes a @ collectPanes b"
  by (simp_all add: collectPanes_def) (rule walkPanes_snoc)

lemma collectTerminals_simps [simp]:
  "collectTerminals (Leaf p) = p_tabs p"
  "collectTerminals (Split d r a b) = collectTerminals a @ collectTerminals b"
  by (simp_all add: collectTerminals_def) (rule walkPanes_snoc)

lemma collectTerminals_panes: "collectTerminals node = concat (map p_tabs (collectPanes node))"
  by (induction node) auto

lemma collectPanes_nonempty [simp]: "collectPanes node \<noteq> []"
  by (induction node) auto

lemma findPane_find: "findPane node i = find (\<lambda>p. p_id p = i) (collectPanes node)"
  by (induction node) (auto simp: or_else_def find_append_or split: option.splits)

lemma findPane_None: "findPane node i = None \<longleftrightarrow> i \<notin> set (pane_ids node)"
  by (induction node) (auto simp: or_else_def split: option.splits)

lemma findPane_Some: "findPane node i = Some p \<Longrightarrow> p \<in> set (collectPanes node) \<and> p_id p = i"
  by (induction node) (auto simp: or_else_def split: option.splits if_splits)

lemma findPane_distinct:
  "distinct (pane_ids node) \<Longrightarrow> p \<in> set (collectPanes node) \<Longrightarrow> findPane node (p_id p) = Some p"
proof -
  assume "distinct (pane_ids node)" and p: "p \<in> set (collectPanes node)"
  then have inj: "\<And>q. q \<in> set (collectPanes node) \<Longrightarrow> p_id q = p_id p \<Longrightarrow> q = p"
    by (auto simp: distinct_map inj_on_def)
  from p have "findPane node (p_id p) \<noteq> None" by (auto simp: findPane_None)
  then obtain q where "findPane node (p_id p) = Some q" by auto
  with inj findPane_Some [OF this] show ?thesis by auto
qed

lemma is_leaf_with_iff: "is_leaf_with node i \<longleftrightarrow> (\<exists>p. node = Leaf p \<and> p_id p = i)"
  by (cases node) auto

lemma firstPaneId_hd: "firstPaneId node = hd (pane_ids node)"
  by (induction node) (auto simp: hd_append)

lemma lastPaneId_last: "lastPaneId node = last (pane_ids node)"
  by (induction node) (auto simp: last_append)

lemma firstPaneId_in [simp]: "firstPaneId node \<in> p_id ` set (collectPanes node)"
  by (induction node) auto

lemma lastPaneId_in [simp]: "lastPaneId node \<in> p_id ` set (collectPanes node)"
  by (induction node) auto

section \<open>What the edits do\<close>

lemma collectPanes_mapPane:
  "collectPanes (mapPane node i f) = map (\<lambda>p. if p_id p = i then f p else p) (collectPanes node)"
  by (induction node) (auto simp: Let_def)

lemma collectPanes_replacePane:
  "collectPanes (replacePane node i r) =
     concat (map (\<lambda>p. if p_id p = i then collectPanes r else [p]) (collectPanes node))"
  by (induction node) (auto simp: Let_def)

lemma removePane_None_iff: "removePane node i = None \<longleftrightarrow> is_leaf_with node i"
  by (cases node) (auto split: option.splits)

lemma removePane_Split:
  assumes "removePane (Split d r a b) i = Some node'"
  shows "(is_leaf_with a i \<and> node' = b) \<or> (\<not> is_leaf_with a i \<and> is_leaf_with b i \<and> node' = a) \<or>
    (\<exists>a' b'. removePane a i = Some a' \<and> removePane b i = Some b' \<and> node' = Split d r a' b')"
proof (cases "is_leaf_with a i \<or> is_leaf_with b i")
  case True
  with assms show ?thesis by (auto split: if_splits)
next
  case False
  then obtain a' b' where "removePane a i = Some a'" "removePane b i = Some b'"
    using removePane_None_iff by (metis option.exhaust)
  with False assms show ?thesis by (auto split: if_splits)
qed

lemma filter_ids_absent: "i \<notin> set (pane_ids node) \<Longrightarrow>
   filter (\<lambda>p. p_id p \<noteq> i) (collectPanes node) = collectPanes node"
  by (auto simp: filter_id_conv)

lemma removePane_absent: "i \<notin> set (pane_ids node) \<Longrightarrow> removePane node i = Some node"
proof (induction node)
  case (Leaf p)
  then show ?case by simp
next
  case (Split d r a b)
  moreover from Split.prems have "\<not> is_leaf_with a i" "\<not> is_leaf_with b i"
    by (auto simp: is_leaf_with_iff)
  ultimately show ?case by simp
qed

lemma collectPanes_removePane:
  "distinct (pane_ids node) \<Longrightarrow> removePane node i = Some node' \<Longrightarrow>
   collectPanes node' = filter (\<lambda>p. p_id p \<noteq> i) (collectPanes node)"
proof (induction node arbitrary: node')
  case (Leaf p)
  then show ?case by (auto split: if_splits)
next
  case (Split d r a b)
  have da: "distinct (pane_ids a)" and db: "distinct (pane_ids b)"
    and disj: "set (pane_ids a) \<inter> set (pane_ids b) = {}"
    using Split.prems(1) by auto
  from removePane_Split [OF Split.prems(2)] consider
      (la) "is_leaf_with a i" "node' = b" | (lb) "is_leaf_with b i" "node' = a"
    | (deep) a' b' where "removePane a i = Some a'" "removePane b i = Some b'" "node' = Split d r a' b'"
    by blast
  then show ?case
  proof cases
    case la
    then obtain p where a: "a = Leaf p" "p_id p = i" by (auto simp: is_leaf_with_iff)
    with disj have "i \<notin> set (pane_ids b)" by auto
    with a la show ?thesis by (simp add: filter_ids_absent)
  next
    case lb
    then obtain p where b: "b = Leaf p" "p_id p = i" by (auto simp: is_leaf_with_iff)
    with disj have "i \<notin> set (pane_ids a)" by auto
    with b lb show ?thesis by (simp add: filter_ids_absent)
  next
    case deep
    with Split.IH(1) [OF da deep(1)] Split.IH(2) [OF db deep(2)] show ?thesis by simp
  qed
qed

text \<open>
  The invariant of the tree: pane ids are unique, and every split leaves each side at
  least a twentieth of the space.
\<close>

definition ratio_ok :: "rat \<Rightarrow> bool" where
  "ratio_ok r \<longleftrightarrow> 5 / 100 \<le> r \<and> r \<le> 95 / 100"

fun ratios_ok :: "pane_node \<Rightarrow> bool" where
  "ratios_ok (Leaf p) = True"
| "ratios_ok (Split d r a b) = (ratio_ok r \<and> ratios_ok a \<and> ratios_ok b)"

definition wf_tree :: "pane_node \<Rightarrow> bool" where
  "wf_tree node \<longleftrightarrow> distinct (pane_ids node) \<and> ratios_ok node"

lemma ratio_ok_clamp [simp]: "ratio_ok (clamp_ratio x)"
  by (simp add: ratio_ok_def clamp_ratio_def)

lemma ratio_ok_half [simp]: "ratio_ok (1 / 2)"
  by (simp add: ratio_ok_def)

lemma ratios_ok_mapPane: "ratios_ok node \<Longrightarrow> ratios_ok (mapPane node i f)"
  by (induction node) (auto simp: Let_def)

lemma ratios_ok_replacePane: "ratios_ok node \<Longrightarrow> ratios_ok r \<Longrightarrow> ratios_ok (replacePane node i r)"
  by (induction node) (auto simp: Let_def)

lemma ratios_ok_removePane: "ratios_ok node \<Longrightarrow> removePane node i = Some node' \<Longrightarrow> ratios_ok node'"
proof (induction node arbitrary: node')
  case (Leaf p)
  then show ?case by (auto split: if_splits)
next
  case (Split d r a b)
  have ok: "ratio_ok r" "ratios_ok a" "ratios_ok b" using Split.prems(1) by simp_all
  from removePane_Split [OF Split.prems(2)] show ?case
    using Split.IH(1) [OF ok(2)] Split.IH(2) [OF ok(3)] ok by (elim disjE exE conjE) simp_all
qed

lemma ratios_ok_setRatio: "ratios_ok node \<Longrightarrow> ratios_ok (setRatioAtPath node path ratio)"
  by (induction node path ratio rule: setRatioAtPath.induct)
    (simp_all add: Let_def)

lemma collectPanes_setRatio [simp]: "collectPanes (setRatioAtPath node path ratio) = collectPanes node"
  by (induction node path ratio rule: setRatioAtPath.induct) (auto simp: Let_def)

lemma splitAtPane_panes:
  assumes "distinct (pane_ids node)"
  shows "collectPanes (splitAtPane node i d new) =
    concat (map (\<lambda>p. if p_id p = i then [p, new] else [p]) (collectPanes node))"
proof (cases "findPane node i")
  case None
  then have "concat (map (\<lambda>p. if p_id p = i then [p, new] else [p]) (collectPanes node)) =
      collectPanes node"
    by (intro concat_map_id) (auto simp: findPane_None)
  with None show ?thesis by (simp add: splitAtPane_def)
next
  case (Some q)
  have "p = q" if "p \<in> set (collectPanes node)" "p_id p = i" for p
    using findPane_distinct [OF assms that(1)] that(2) Some by simp
  then have "concat (map (\<lambda>p. if p_id p = i then [q, new] else [p]) (collectPanes node)) =
      concat (map (\<lambda>p. if p_id p = i then [p, new] else [p]) (collectPanes node))"
    by (intro arg_cong [where f = concat] map_cong) auto
  moreover have "collectPanes (splitAtPane node i d new) =
      concat (map (\<lambda>p. if p_id p = i then [q, new] else [p]) (collectPanes node))"
    using Some by (simp add: splitAtPane_def collectPanes_replacePane cong: if_cong)
  ultimately show ?thesis by simp
qed

lemma split_ids_distinct:
  "distinct (map g ps) \<Longrightarrow> g new \<notin> g ` set ps \<Longrightarrow>
   distinct (map g (concat (map (\<lambda>p. if g p = i then [p, new] else [p]) ps)))"
proof (induction ps)
  case Nil
  then show ?case by simp
next
  case (Cons p ps)
  have sub: "g ` set (concat (map (\<lambda>p. if g p = i then [p, new] else [p]) qs)) \<subseteq> insert (g new) (g ` set qs)"
    for qs by (induction qs) auto
  have "g new \<notin> g ` set (concat (map (\<lambda>p. if g p = i then [p, new] else [p]) qs))"
    if "\<forall>q\<in>set qs. g q \<noteq> i \<and> g q \<noteq> g new" for qs
    using that by (induction qs) auto
  from this [of ps] Cons sub [of ps] show ?case by (auto 4 4 simp: image_iff)
qed

section \<open>Paths and neighbours\<close>

lemma buildPanePath_spec:
  "case buildPanePath node i out of
     (True, out') \<Rightarrow> findPane node i \<noteq> None \<and> (\<exists>p. out' = out @ rev p \<and> paneAtPath node p = findPane node i)
   | (False, out') \<Rightarrow> findPane node i = None \<and> out' = out"
proof (induction node arbitrary: out)
  case (Leaf p)
  show ?case by (cases "p_id p = i") (auto intro: exI [of _ "[]"])
next
  case (Split d r a b)
  obtain ok1 out1 where a: "buildPanePath a i out = (ok1, out1)" by fastforce
  show ?case
  proof (cases ok1)
    case True
    with Split.IH(1) [of out] a obtain p where
      "findPane a i \<noteq> None" "out1 = out @ rev p" "paneAtPath a p = findPane a i" by auto
    with a True show ?thesis by (auto intro!: exI [of _ "0 # p"])
  next
    case False
    with Split.IH(1) [of out] a have fa: "findPane a i = None" "out1 = out" by auto
    obtain ok2 out2 where b: "buildPanePath b i out = (ok2, out2)" by fastforce
    show ?thesis
    proof (cases ok2)
      case True
      with Split.IH(2) [of out] b obtain p where
        "findPane b i \<noteq> None" "out2 = out @ rev p" "paneAtPath b p = findPane b i" by auto
      with a b fa False True show ?thesis by (auto intro!: exI [of _ "1 # p"])
    next
      case f2: False
      with Split.IH(2) [of out] b have "findPane b i = None" "out2 = out" by auto
      with a b fa False f2 show ?thesis by auto
    qed
  qed
qed

lemma siblingPaneId_in: "siblingPaneId node i = Some s \<Longrightarrow> s \<in> set (pane_ids node)"
  by (induction node arbitrary: s) (auto simp: or_else_def split: if_splits option.splits)

lemma siblingPaneId_exists:
  "i \<in> set (pane_ids node) \<Longrightarrow> \<not> is_leaf_with node i \<Longrightarrow> siblingPaneId node i \<noteq> None"
proof (induction node)
  case (Leaf p)
  then show ?case by simp
next
  case (Split d r a b)
  then show ?case by (cases "siblingPaneId a i") auto
qed

lemma siblingPaneId_other:
  "distinct (pane_ids node) \<Longrightarrow> siblingPaneId node i = Some s \<Longrightarrow> s \<noteq> i"
proof (induction node arbitrary: s)
  case (Leaf p)
  then show ?case by simp
next
  case (Split d r a b)
  have d: "distinct (pane_ids a)" "distinct (pane_ids b)"
    "set (pane_ids a) \<inter> set (pane_ids b) = {}" using Split.prems(1) by auto
  have f: "firstPaneId b \<in> set (pane_ids b)" "lastPaneId a \<in> set (pane_ids a)" by simp_all
  show ?case
  proof (cases "is_leaf_with a i \<or> is_leaf_with b i")
    case True
    with Split.prems(2) d(3) show ?thesis
      using f unfolding is_leaf_with_iff by (metis (no_types, lifting) collectPanes_simps(1)
          disjoint_iff is_leaf_with_iff list.set_intros(1) list.simps(9) option.inject siblingPaneId.simps(2))
  next
    case False
    with Split.prems(2) have "or_else (siblingPaneId a i) (siblingPaneId b i) = Some s" by simp
    then show ?thesis using Split.IH(1) [OF d(1)] Split.IH(2) [OF d(2)]
      by (cases "siblingPaneId a i") auto
  qed
qed

section \<open>Labels and the header strip\<close>

lemma lastIndexOf_sub_absent: "c \<in> set p \<Longrightarrow> c \<notin> set s \<Longrightarrow> lastIndexOf_sub p s = -1"
proof (induction s)
  case Nil
  then show ?case by auto
next
  case (Cons x s)
  have "\<not> starts_with (x # s) p"
  proof
    assume "starts_with (x # s) p"
    then have "set p \<subseteq> set (x # s)" by (metis starts_with_def set_take_subset)
    with Cons.prems show False by auto
  qed
  with Cons show ?case by simp
qed

lemma lastIndexOf_fork_suffix: "CHR 0xB7 \<notin> set u \<Longrightarrow> lastIndexOf_sub FORK_SUFFIX (FORK_SUFFIX @ u) = 0"
proof -
  assume u: "CHR 0xB7 \<notin> set u"
  have "lastIndexOf_sub FORK_SUFFIX ('' fork'' @ u) = -1"
    using u by (intro lastIndexOf_sub_absent [of "CHR 0xB7"]) (auto simp: FORK_SUFFIX_def)
  then show ?thesis by (simp add: FORK_SUFFIX_def starts_with_def Let_def)
qed

lemma withoutForkSuffix_suffixed:
  assumes "fork_count u" and "CHR 0xB7 \<notin> set u"
  shows "withoutForkSuffix (w @ FORK_SUFFIX @ u) = w"
  using assms lastIndexOf_fork_suffix [OF assms(2)]
  by (simp add: withoutForkSuffix_def lastIndexOf_sub_append)

lemma digits_no_fork: "list_all is_digit ds \<Longrightarrow> CHR 0xB7 \<notin> set ds"
  by (induction ds) (auto simp: is_digit_def)

lemma js_rem_mod: "0 < n \<Longrightarrow> - n \<le> a \<Longrightarrow> js_rem (a + n) n = a mod n"
  by (simp add: js_rem_def)

lemma activeHeaderIndex_bounds:
  "-1 \<le> activeHeaderIndex items pane \<and> activeHeaderIndex items pane < int (length items)"
  using findIndex_bounds [of _ items] by (auto simp: activeHeaderIndex_def Let_def split: option.splits)

lemma clampIdx_bounds: "0 < n \<Longrightarrow> 0 \<le> clampIdx i n \<and> clampIdx i n < (of_nat n :: 'a::linordered_idom)"
  by (auto simp: clampIdx_def min_def max_def not_le split: option.splits intro: le_less_trans)

lemma replacePane_absent: "i \<notin> set (pane_ids node) \<Longrightarrow> replacePane node i r = node"
  by (induction node) (auto simp: Let_def)

lemma replacePane_not_leaf:
  "is_leaf_with (replacePane node i (Split d h x y)) j \<Longrightarrow> replacePane node i (Split d h x y) = node"
  by (cases node) (auto simp: Let_def split: if_splits)

lemma remove_replaced:
  assumes "distinct (pane_ids node)" and "p_id new \<notin> set (pane_ids node)"
    and "findPane node i = Some p"
  shows "removePane (replacePane node i (Split d h (Leaf p) (Leaf new))) (p_id new) = Some node"
  using assms
proof (induction node)
  case (Leaf q)
  then show ?case by (auto split: if_splits)
next
  case (Split d' r a b)
  let ?r = "Split d h (Leaf p) (Leaf new)"
  have fresh: "p_id new \<notin> set (pane_ids a)" "p_id new \<notin> set (pane_ids b)"
    and dist: "distinct (pane_ids a)" "distinct (pane_ids b)"
      "set (pane_ids a) \<inter> set (pane_ids b) = {}"
    using Split.prems by auto
  have shape: "replacePane (Split d' r a b) i ?r = Split d' r (replacePane a i ?r) (replacePane b i ?r)"
    by (simp add: Let_def)
  have nl: "\<not> is_leaf_with (replacePane c i ?r) (p_id new)" if "p_id new \<notin> set (pane_ids c)" for c
    using replacePane_not_leaf [of c i d h "Leaf p" "Leaf new" "p_id new"] that
    by (auto simp: is_leaf_with_iff)
  show ?case
  proof (cases "findPane a i")
    case None
    with Split.prems have "findPane b i = Some p" and a: "replacePane a i ?r = a"
      by (auto simp: findPane_None replacePane_absent)
    with Split.IH(2) dist fresh have "removePane (replacePane b i ?r) (p_id new) = Some b" by simp
    with a shape nl [OF fresh(1)] nl [OF fresh(2)] removePane_absent [OF fresh(1)]
    show ?thesis by simp
  next
    case (Some q)
    with Split.prems have fa: "findPane a i = Some p" by simp
    then have "i \<in> set (pane_ids a)" using findPane_None [of a i] by simp
    with dist have b: "replacePane b i ?r = b" by (intro replacePane_absent) auto
    from fa Split.IH(1) dist fresh have "removePane (replacePane a i ?r) (p_id new) = Some a" by simp
    with b shape nl [OF fresh(1)] nl [OF fresh(2)] removePane_absent [OF fresh(2)]
    show ?thesis by simp
  qed
qed

lemma wf_tree_splitAtPane:
  assumes "wf_tree node" and "p_id new \<notin> set (pane_ids node)"
  shows "wf_tree (splitAtPane node i d new)"
proof -
  have "distinct (pane_ids (splitAtPane node i d new))"
    using assms split_ids_distinct [of p_id "collectPanes node" new i]
    by (simp add: wf_tree_def splitAtPane_panes)
  moreover have "ratios_ok (splitAtPane node i d new)"
    using assms by (auto simp: splitAtPane_def wf_tree_def split: option.splits
        intro!: ratios_ok_replacePane)
  ultimately show ?thesis by (simp add: wf_tree_def)
qed

lemma wf_tree_removePane: "wf_tree node \<Longrightarrow> removePane node i = Some node' \<Longrightarrow> wf_tree node'"
  using distinct_map_filter [of p_id "collectPanes node" "\<lambda>p. p_id p \<noteq> i"]
  by (metis wf_tree_def collectPanes_removePane ratios_ok_removePane)

lemma wf_tree_mapPane:
  assumes "wf_tree node" and "\<And>p. p_id (f p) = p_id p"
  shows "wf_tree (mapPane node i f)"
proof -
  have "pane_ids (mapPane node i f) = pane_ids node"
    by (simp add: collectPanes_mapPane comp_def assms(2) if_distrib cong: if_cong)
  with assms show ?thesis by (simp add: wf_tree_def ratios_ok_mapPane)
qed

section \<open>Properties\<close>

definition demo_tree :: pane_node where
  "demo_tree = Split Row (1 / 2) (Leaf (makePaneLeaf ''a'' [] 0))
     (Split Col (1 / 4) (Leaf (makePaneLeaf ''b'' [bare_tab ''t1'' ''x'', bare_tab ''t2'' ''y''] 1))
        (Leaf (makePaneLeaf ''c'' [] 0)))"

lemma demo_tree_wf: "wf_tree demo_tree"
  by (simp add: demo_tree_def wf_tree_def makePaneLeaf_def ratio_ok_def)

text \<open>Closing a pane takes exactly that pane out of the reading order and
  leaves every other one in place; the tree disappears only with its last pane.\<close>

theorem removePane_correct:
  assumes "distinct (pane_ids node)"
  shows "(case removePane node i of None \<Rightarrow> [] | Some node' \<Rightarrow> collectPanes node') =
    filter (\<lambda>p. p_id p \<noteq> i) (collectPanes node)"
proof (cases "removePane node i")
  case None
  then show ?thesis by (auto simp: removePane_None_iff is_leaf_with_iff)
next
  case (Some node')
  with assms show ?thesis by (simp add: collectPanes_removePane)
qed

theorem removePane_correct_witness:
  "distinct (pane_ids demo_tree) \<and>
   (case removePane demo_tree ''b'' of None \<Rightarrow> [] | Some node' \<Rightarrow> collectPanes node') =
     filter (\<lambda>p. p_id p \<noteq> ''b'') (collectPanes demo_tree)"
proof -
  have d: "distinct (pane_ids demo_tree)" using demo_tree_wf by (simp add: wf_tree_def)
  show ?thesis using d removePane_correct [OF d, of "''b''"] by blast
qed

text \<open>Every edit keeps the tree well formed: pane ids stay unique and every
  divider stays between a twentieth and nineteen twentieths.\<close>

theorem pane_edits_keep_wf:
  assumes "wf_tree node"
  shows "wf_tree (setRatioAtPath node path ratio) \<and>
    (\<forall>i node'. removePane node i = Some node' \<longrightarrow> wf_tree node') \<and>
    (\<forall>i d new. p_id new \<notin> set (pane_ids node) \<longrightarrow> wf_tree (splitAtPane node i d new)) \<and>
    (\<forall>i f. (\<forall>p. p_id (f p) = p_id p) \<longrightarrow> wf_tree (mapPane node i f))"
proof (intro conjI allI impI)
  show "wf_tree (setRatioAtPath node path ratio)"
    using assms by (simp add: wf_tree_def ratios_ok_setRatio)
  show "wf_tree node'" if "removePane node i = Some node'" for i node'
    by (rule wf_tree_removePane [OF assms that])
  show "wf_tree (splitAtPane node i d new)" if "p_id new \<notin> set (pane_ids node)" for i d new
    by (rule wf_tree_splitAtPane [OF assms that])
  show "wf_tree (mapPane node i f)" if "\<forall>p. p_id (f p) = p_id p" for i f
    using that by (intro wf_tree_mapPane [OF assms]) simp
qed

theorem pane_edits_keep_wf_witness:
  "wf_tree (setRatioAtPath demo_tree [1] 2) \<and>
   (\<exists>node'. removePane demo_tree ''a'' = Some node' \<and> wf_tree node') \<and>
   wf_tree (splitAtPane demo_tree ''b'' Row (makePaneLeaf ''d'' [] 0)) \<and>
   wf_tree (mapPane demo_tree ''b'' (\<lambda>p. p\<lparr>p_tabs := []\<rparr>))"
proof -
  obtain n where rm: "removePane demo_tree ''a'' = Some n"
    by (simp add: demo_tree_def makePaneLeaf_def)
  have fresh: "p_id (makePaneLeaf ''d'' [] 0) \<notin> set (pane_ids demo_tree)"
    by (simp add: demo_tree_def makePaneLeaf_def)
  have keeps: "\<forall>p. p_id (p\<lparr>p_tabs := []\<rparr>) = p_id p" by simp
  note all = pane_edits_keep_wf [OF demo_tree_wf, of "[1]" 2]
  show ?thesis
    by (intro conjI exI [of _ n]) (use all rm fresh keeps in blast)+
qed

text \<open>Splitting a pane puts the new one right after it in reading order, and
  closing the new pane at once gives the tree back as it was.\<close>

theorem split_then_close:
  assumes "distinct (pane_ids node)" and "p_id new \<notin> set (pane_ids node)"
    and "i \<in> set (pane_ids node)"
  shows "collectPanes (splitAtPane node i d new) =
      concat (map (\<lambda>p. if p_id p = i then [p, new] else [p]) (collectPanes node)) \<and>
    removePane (splitAtPane node i d new) (p_id new) = Some node"
proof -
  obtain p where p: "findPane node i = Some p"
    using assms(3) findPane_None [of node i] by (cases "findPane node i") auto
  have "removePane (splitAtPane node i d new) (p_id new) = Some node"
    using remove_replaced [OF assms(1,2) p] by (simp add: splitAtPane_def p)
  then show ?thesis using splitAtPane_panes [OF assms(1)] by simp
qed

theorem split_then_close_witness:
  "removePane (splitAtPane demo_tree ''b'' Row (makePaneLeaf ''d'' [] 0)) ''d'' = Some demo_tree"
proof -
  have h: "distinct (pane_ids demo_tree)"
    "p_id (makePaneLeaf ''d'' [] 0) \<notin> set (pane_ids demo_tree)" "''b'' \<in> set (pane_ids demo_tree)"
    using demo_tree_wf by (simp_all add: wf_tree_def demo_tree_def makePaneLeaf_def)
  show ?thesis using split_then_close [OF h, of Row] by (simp add: makePaneLeaf_def)
qed

text \<open>A navigation path leads back to the pane it was taken for, and a pane has
  a path exactly when it is in the tree.\<close>

theorem panePath_roundtrip:
  "case panePath node i of
     None \<Rightarrow> findPane node i = None
   | Some path \<Rightarrow> findPane node i \<noteq> None \<and> paneAtPath node path = findPane node i"
proof (cases "buildPanePath node i []")
  case (Pair ok out)
  then show ?thesis using buildPanePath_spec [of node i "[]"]
    by (cases ok) (auto simp: panePath_def)
qed

text \<open>A pane that shares the screen has a neighbour to take its focus: another
  pane, still there once it is closed.\<close>

theorem sibling_survives:
  assumes "distinct (pane_ids node)" and "i \<in> set (pane_ids node)"
    and "removePane node i = Some node'"
  shows "\<exists>s. siblingPaneId node i = Some s \<and> s \<noteq> i \<and>
    findPane node' s \<noteq> None \<and> findPane node' s = findPane node s"
proof -
  have "\<not> is_leaf_with node i" using assms(3) removePane_None_iff [of node i] by simp
  then obtain s where s: "siblingPaneId node i = Some s"
    using siblingPaneId_exists [OF assms(2)] by auto
  have ne: "s \<noteq> i" by (rule siblingPaneId_other [OF assms(1) s])
  obtain p where p: "p \<in> set (collectPanes node)" "p_id p = s"
    using siblingPaneId_in [OF s] by auto
  have panes: "collectPanes node' = filter (\<lambda>p. p_id p \<noteq> i) (collectPanes node)"
    by (rule collectPanes_removePane [OF assms(1,3)])
  have "distinct (pane_ids node')"
    using assms(1) by (auto simp: panes distinct_map intro: inj_on_subset)
  moreover have "p \<in> set (collectPanes node')" using p ne panes by simp
  ultimately have "findPane node' s = Some p" using findPane_distinct p(2) by blast
  moreover have "findPane node s = Some p" using findPane_distinct [OF assms(1) p(1)] p(2) by simp
  ultimately show ?thesis using s ne by auto
qed

theorem sibling_survives_witness:
  "\<exists>node'. removePane demo_tree ''c'' = Some node' \<and>
     (\<exists>s. siblingPaneId demo_tree ''c'' = Some s \<and> s \<noteq> ''c'' \<and>
       findPane node' s \<noteq> None \<and> findPane node' s = findPane demo_tree s)"
proof -
  have h: "distinct (pane_ids demo_tree)" "''c'' \<in> set (pane_ids demo_tree)"
    using demo_tree_wf by (simp_all add: wf_tree_def demo_tree_def makePaneLeaf_def)
  obtain node' where r: "removePane demo_tree ''c'' = Some node'"
    by (simp add: demo_tree_def makePaneLeaf_def)
  show ?thesis using sibling_survives [OF h r] r by blast
qed

text \<open>A tab is marked as a fork once, however often it or its numbered copies
  are forked again.\<close>

theorem forkLabel_once:
  "forkLabel (forkLabel l) = forkLabel l \<and>
   forkLabel (forkLabel l @ '' '' @ nat_str n) = forkLabel l"
proof -
  have "withoutForkSuffix (withoutForkSuffix l @ FORK_SUFFIX @ []) = withoutForkSuffix l"
    by (rule withoutForkSuffix_suffixed) (simp_all add: fork_count_def)
  moreover have "withoutForkSuffix (withoutForkSuffix l @ FORK_SUFFIX @ '' '' @ nat_str n) =
      withoutForkSuffix l"
    using nat_str_digits [of n] digits_no_fork [of "nat_str n"]
    by (intro withoutForkSuffix_suffixed) (auto simp: fork_count_def)
  ultimately show ?thesis by (simp add: forkLabel_def)
qed

text \<open>Stepping along the header strip wraps around both ends and always lands on
  an entry of the strip.\<close>

theorem adjacentPaneHeaderItem_wraps:
  assumes "items = paneHeaderItems pane services" and "2 \<le> length items"
    and "\<bar>delta\<bar> \<le> int (length items)"
  shows "adjacentPaneHeaderItem pane services delta =
      Some (items ! nat ((max 0 (activeHeaderIndex items pane) + delta) mod int (length items))) \<and>
    the (adjacentPaneHeaderItem pane services delta) \<in> set items"
proof -
  let ?n = "int (length items)" and ?b = "max 0 (activeHeaderIndex items pane)"
  have rem: "js_rem (?b + delta + ?n) ?n = (?b + delta) mod ?n"
    using assms(2,3) by (intro js_rem_mod) auto
  have "0 \<le> (?b + delta) mod ?n" "(?b + delta) mod ?n < ?n"
    using assms(2) by (auto simp del: of_nat_0_less_iff intro!: pos_mod_sign pos_mod_bound)
  moreover have "adjacentPaneHeaderItem pane services delta =
      at_index items (js_rem (?b + delta + ?n) ?n)"
    using assms(1,2) by (simp add: adjacentPaneHeaderItem_def Let_def max_def)
  ultimately show ?thesis by (simp add: rem at_index_def nat_less_iff)
qed

theorem adjacentPaneHeaderItem_wraps_witness:
  "adjacentPaneHeaderItem (makePaneLeaf ''p'' [bare_tab ''t'' ''x''] 0) [''web''] 1 = Some (HService ''web'')"
proof -
  let ?p = "makePaneLeaf ''p'' [bare_tab ''t'' ''x''] 0"
  have items: "paneHeaderItems ?p [''web''] = [HService ''web'', HTab 0]"
    by (simp add: paneHeaderItems_def makePaneLeaf_def)
  have active: "activeHeaderIndex [HService ''web'', HTab 0] ?p = 1"
    by (simp add: activeHeaderIndex_def makePaneLeaf_def clampIdx_def)
  show ?thesis
    using adjacentPaneHeaderItem_wraps [OF items [symmetric], of 1] by (simp add: active)
qed

end
