(* ===== verification/PeerMarkers.thy ===== *)
theory PeerMarkers
  imports JsPrelude
begin

text \<open>
  \<open>desktop/frontend/src/peer/markers.ts\<close>: names, terminal ids and roots that belong to a
  paired machine carry that machine's slug in themselves, so a value is routed without a
  registry. The regular expressions are written out as functions on strings; the lemmas say
  that marking and reading a marker are inverse.
\<close>

section \<open>The patterns\<close>

definition is_hex :: "char \<Rightarrow> bool" where
  "is_hex c = (is_digit c \<or> (97 \<le> (of_char c :: nat) \<and> (of_char c :: nat) \<le> 102))"

text \<open>\<open>SLUG\<close>, matched at the head of a string: the slug and what follows.\<close>

definition take_slug :: "string \<Rightarrow> (string \<times> string) option" where
  "take_slug s = (if 8 \<le> length s \<and> list_all is_hex (take 8 s) then Some (take 8 s, drop 8 s) else None)"

definition is_slash :: "char \<Rightarrow> bool" where
  "is_slash c = (c = CHR ''/'' \<or> c = CHR 0x5C)"

definition isWindowsHostPath :: "string \<Rightarrow> bool" where
  "isWindowsHostPath path =
     ((case path of
         a # b # c # _ \<Rightarrow> is_letter a \<and> b = CHR '':'' \<and> is_slash c
       | _ \<Rightarrow> False) \<or>
      starts_with path [CHR 0x5C, CHR 0x5C])"

section \<open>Reading and writing markers\<close>

datatype marker_kind = NameMarker | RootMarker

record peer_marker =
  pm_slug :: string
  pm_raw :: string
  pm_kind :: marker_kind

definition match_name :: "string \<Rightarrow> (string \<times> string) option" where
  "match_name v =
     (if starts_with v ''peer-'' then
        (case take_slug (drop 5 v) of
           None \<Rightarrow> None
         | Some (slug, rest) \<Rightarrow>
             (case rest of c # raw \<Rightarrow> if c = CHR ''-'' then Some (slug, raw) else None | [] \<Rightarrow> None))
      else None)"

definition is_host_path :: "string \<Rightarrow> bool" where
  "is_host_path p = (starts_with p ''/'' \<or> starts_with p ''~/'' \<or> isWindowsHostPath p)"

definition match_root :: "string \<Rightarrow> (string \<times> string) option" where
  "match_root v =
     (if starts_with v ''/@peer-'' then
        (case take_slug (drop 7 v) of
           None \<Rightarrow> None
         | Some (slug, rest) \<Rightarrow> if is_host_path rest then Some (slug, rest) else None)
      else None)"

definition parsePeerMarker :: "string \<Rightarrow> peer_marker option" where
  "parsePeerMarker value =
     (case match_name value of
        Some (slug, raw) \<Rightarrow> Some \<lparr>pm_slug = slug, pm_raw = raw, pm_kind = NameMarker\<rparr>
      | None \<Rightarrow>
          (case match_root value of
             Some (slug, raw) \<Rightarrow> Some \<lparr>pm_slug = slug, pm_raw = raw, pm_kind = RootMarker\<rparr>
           | None \<Rightarrow> None))"

definition isPeerName :: "string \<Rightarrow> bool" where
  "isPeerName value = (match_name value \<noteq> None)"

definition isPeerRoot :: "string \<Rightarrow> bool" where
  "isPeerRoot value = (match_root value \<noteq> None)"

definition isPeerMarked :: "string \<Rightarrow> bool" where
  "isPeerMarked value = (parsePeerMarker value \<noteq> None)"

definition peerSlugOf :: "string \<Rightarrow> string option" where
  "peerSlugOf value = map_option pm_slug (parsePeerMarker value)"

definition prefixName :: "string \<Rightarrow> string \<Rightarrow> string" where
  "prefixName slug raw = ''peer-'' @ slug @ ''-'' @ raw"

definition prefixRoot :: "string \<Rightarrow> string \<Rightarrow> string" where
  "prefixRoot slug hostPath = ''/@peer-'' @ slug @ hostPath"

definition windowsRootMarker :: "string \<Rightarrow> string" where
  "windowsRootMarker value =
     (if starts_with value ''/@peer-'' then
        (case take_slug (drop 7 value) of
           None \<Rightarrow> []
         | Some (slug, rest) \<Rightarrow> if isWindowsHostPath rest then take 15 value else [])
      else [])"

definition stripMarker :: "string \<Rightarrow> string" where
  "stripMarker value = (case parsePeerMarker value of None \<Rightarrow> value | Some m \<Rightarrow> pm_raw m)"

definition peerRawName :: "string \<Rightarrow> string" where
  "peerRawName value =
     (case parsePeerMarker value of
        Some m \<Rightarrow> if pm_kind m = NameMarker then pm_raw m else value
      | None \<Rightarrow> value)"

section \<open>Marking and reading are inverse\<close>

definition is_slug :: "string \<Rightarrow> bool" where
  "is_slug s = (length s = 8 \<and> list_all is_hex s)"

lemma take_slug_append: "is_slug slug \<Longrightarrow> take_slug (slug @ rest) = Some (slug, rest)"
  by (simp add: take_slug_def is_slug_def)

lemma take_slug_Some: "take_slug s = Some (slug, rest) \<Longrightarrow> is_slug slug \<and> s = slug @ rest"
  by (auto simp: take_slug_def is_slug_def split: if_splits)

lemma match_name_prefix [simp]: "is_slug slug \<Longrightarrow> match_name (prefixName slug raw) = Some (slug, raw)"
  by (simp add: match_name_def prefixName_def starts_with_def take_slug_append)

lemma match_name_root [simp]: "match_name (CHR ''/'' # s) = None"
  by (simp add: match_name_def starts_with_def)

lemma match_root_prefix:
  "is_slug slug \<Longrightarrow> is_host_path p \<Longrightarrow> match_root (prefixRoot slug p) = Some (slug, p)"
  by (simp add: match_root_def prefixRoot_def starts_with_def take_slug_append)

lemma starts_peer: "starts_with v ''peer-'' \<Longrightarrow> v = ''peer-'' @ drop 5 v"
  and starts_peer_root: "starts_with v ''/@peer-'' \<Longrightarrow> v = ''/@peer-'' @ drop 7 v"
  using starts_with_split [of v "''peer-''"] starts_with_split [of v "''/@peer-''"]
  by (simp_all add: eval_nat_numeral)

lemma match_name_Some: "match_name v = Some (slug, raw) \<Longrightarrow> is_slug slug \<and> v = prefixName slug raw"
  by (auto simp: match_name_def prefixName_def split: if_splits option.splits list.splits
      dest!: take_slug_Some starts_peer)

lemma match_root_Some:
  "match_root v = Some (slug, p) \<Longrightarrow> is_slug slug \<and> is_host_path p \<and> v = prefixRoot slug p"
  by (auto simp: match_root_def prefixRoot_def split: if_splits option.splits
      dest!: take_slug_Some starts_peer_root)

lemma prefixRoot_slash [simp]: "prefixRoot slug p = CHR ''/'' # ''@peer-'' @ slug @ p"
  by (simp add: prefixRoot_def)

text \<open>A marked name, id or root gives back exactly the machine and the value it
  was marked with, and a marked value is one of these two forms and no other.\<close>

theorem parsePeerMarker_roundtrip:
  "(is_slug slug \<longrightarrow>
      parsePeerMarker (prefixName slug raw) = Some \<lparr>pm_slug = slug, pm_raw = raw, pm_kind = NameMarker\<rparr>) \<and>
   (is_slug slug \<and> is_host_path p \<longrightarrow>
      parsePeerMarker (prefixRoot slug p) = Some \<lparr>pm_slug = slug, pm_raw = p, pm_kind = RootMarker\<rparr>) \<and>
   (parsePeerMarker v = Some m \<longrightarrow>
      is_slug (pm_slug m) \<and>
      v = (if pm_kind m = NameMarker then prefixName (pm_slug m) (pm_raw m)
           else prefixRoot (pm_slug m) (pm_raw m)))"
proof (intro conjI impI)
  assume "is_slug slug"
  then show "parsePeerMarker (prefixName slug raw) =
      Some \<lparr>pm_slug = slug, pm_raw = raw, pm_kind = NameMarker\<rparr>"
    by (simp add: parsePeerMarker_def)
next
  assume h: "is_slug slug \<and> is_host_path p"
  have "match_root (prefixRoot slug p) = Some (slug, p)" using h match_root_prefix by blast
  moreover have "match_name (prefixRoot slug p) = None" by simp
  ultimately show "parsePeerMarker (prefixRoot slug p) =
      Some \<lparr>pm_slug = slug, pm_raw = p, pm_kind = RootMarker\<rparr>"
    by (simp add: parsePeerMarker_def del: prefixRoot_slash)
next
  assume m: "parsePeerMarker v = Some m"
  then show "is_slug (pm_slug m)"
    by (auto simp: parsePeerMarker_def dest: match_name_Some match_root_Some split: option.splits)
  from m show "v = (if pm_kind m = NameMarker then prefixName (pm_slug m) (pm_raw m)
      else prefixRoot (pm_slug m) (pm_raw m))"
    by (auto simp: parsePeerMarker_def simp del: prefixRoot_slash
        dest: match_name_Some match_root_Some split: option.splits)
qed

theorem parsePeerMarker_roundtrip_witness:
  "parsePeerMarker ''peer-00ff12ab-web'' =
     Some \<lparr>pm_slug = ''00ff12ab'', pm_raw = ''web'', pm_kind = NameMarker\<rparr> \<and>
   parsePeerMarker ''/@peer-00ff12ab/srv/app'' =
     Some \<lparr>pm_slug = ''00ff12ab'', pm_raw = ''/srv/app'', pm_kind = RootMarker\<rparr>"
proof -
  have s: "is_slug ''00ff12ab''" by (simp add: is_slug_def is_hex_def is_digit_def)
  have p: "is_host_path ''/srv/app''" by (simp add: is_host_path_def starts_with_def)
  show ?thesis
    using parsePeerMarker_roundtrip [of "''00ff12ab''" "''web''" "''/srv/app''" "[]"
        "\<lparr>pm_slug = [], pm_raw = [], pm_kind = NameMarker\<rparr>"] s p
    by (simp add: prefixName_def)
qed

end
