(* ===== verification/PathOps.thy ===== *)
theory PathOps
  imports PeerMarkers
begin

text \<open>
  \<open>desktop/frontend/src/path.ts\<close>: paths as text, with POSIX rules, Windows rules, and
  Windows rules behind a paired host's marker. \<open>win\<close> is the parameter the source gives each
  helper (by default whether this machine runs Windows). The regular expressions are written
  out. The lemmas show that normalising is stable and that making a path relative undoes
  joining it.
\<close>

section \<open>Roots and separators\<close>

definition bslash :: char where "bslash = CHR 0x5C"

definition fslash :: char where "fslash = CHR ''/''"

definition windowsRules :: "string \<Rightarrow> bool \<Rightarrow> bool" where
  "windowsRules p win = ((win \<and> \<not> starts_with p ''/'') \<or> windowsRootMarker p \<noteq> [])"

definition drive_prefix :: "string \<Rightarrow> string option" where
  "drive_prefix s =
     (case s of a # b # c # _ \<Rightarrow> if is_letter a \<and> b = CHR '':'' \<and> is_slash c then Some [a, b, c] else None
      | _ \<Rightarrow> None)"

definition unc_prefix :: "string \<Rightarrow> string option" where
  "unc_prefix s =
     (if \<not> starts_with s [bslash, bslash] then None
      else let rest = drop 2 s;
               server = takeWhile (\<lambda>c. \<not> is_slash c) rest
           in case dropWhile (\<lambda>c. \<not> is_slash c) rest of
                [] \<Rightarrow> None
              | sep # rest' \<Rightarrow>
                  let share = takeWhile (\<lambda>c. \<not> is_slash c) rest'
                  in if server = [] \<or> share = [] then None
                     else Some ([bslash, bslash] @ server @ [sep] @ share @
                            take 1 (dropWhile (\<lambda>c. \<not> is_slash c) rest')))"

definition winRoot :: "string \<Rightarrow> string" where
  "winRoot p =
     (let marker = windowsRootMarker p; rest = drop (length marker) p
      in marker @ (case or_else (drive_prefix rest) (unc_prefix rest) of None \<Rightarrow> [] | Some r \<Rightarrow> r))"

definition winSep :: "string \<Rightarrow> char" where
  "winSep p =
     (let rest = drop (length (windowsRootMarker p)) p
      in if fslash \<in> set rest \<and> bslash \<notin> set rest then fslash else bslash)"

definition isRootedPath :: "string \<Rightarrow> bool \<Rightarrow> bool" where
  "isRootedPath p win =
     (starts_with p ''/'' \<or> (win \<and> (drive_prefix p \<noteq> None \<or> starts_with p [bslash, bslash])))"

definition isAbsolutePath :: "string \<Rightarrow> bool \<Rightarrow> bool" where
  "isAbsolutePath p win =
     (if starts_with p ''/'' \<or> p = ''~'' \<or> starts_with p ''~/'' then True
      else win \<and> (drive_prefix p \<noteq> None \<or> starts_with p [bslash, bslash]
             \<or> starts_with p (CHR ''~'' # [bslash])))"

definition toSlash :: "string \<Rightarrow> bool \<Rightarrow> string" where
  "toSlash p win = (if win then map (\<lambda>c. if c = bslash then fslash else c) p else p)"

definition strip_end :: "(char \<Rightarrow> bool) \<Rightarrow> string \<Rightarrow> string" where
  "strip_end P s = rev (dropWhile P (rev s))"

definition with_sep :: "char \<Rightarrow> string \<Rightarrow> string" where
  "with_sep sep s = map (\<lambda>c. if is_slash c then sep else c) s"

section \<open>Joining\<close>

text \<open>The loop that drops leading \<open>./\<close> (and \<open>.\\<close> for Windows) segments.\<close>

fun strip_dot :: "(char \<Rightarrow> bool) \<Rightarrow> string \<Rightarrow> string" where
  "strip_dot P (a # b # s) = (if a = CHR ''.'' \<and> P b then strip_dot P s else a # b # s)"
| "strip_dot P s = s"

definition joinWin :: "string \<Rightarrow> string \<Rightarrow> string" where
  "joinWin base rel =
     (let cleaned = strip_dot is_slash rel
      in if base = [] then cleaned
         else if cleaned = [] then base
         else let sep = winSep base; cleaned = with_sep sep cleaned
              in if is_slash (last base) then base @ cleaned else base @ sep # cleaned)"

definition joinAbs :: "string \<Rightarrow> string \<Rightarrow> bool \<Rightarrow> string" where
  "joinAbs base rel win =
     (if starts_with rel ''/'' \<or> starts_with rel ''~/'' then
        (case peerSlugOf base of
           None \<Rightarrow> rel
         | Some slug \<Rightarrow> if \<not> isPeerRoot rel then prefixRoot slug rel else rel)
      else let marker = windowsRootMarker base
      in if marker \<noteq> [] \<and> isWindowsHostPath rel then marker @ rel
      else if rel = ''~'' then rel
      else if win \<and> isAbsolutePath rel True then rel
      else if windowsRules base win then joinWin base rel
      else let cleaned = strip_dot (\<lambda>c. c = fslash) rel
      in if base = [] then cleaned
         else if cleaned = [] then base
         else if ends_with base ''/'' then base @ cleaned else base @ ''/'' @ cleaned)"

definition joinPath :: "string \<Rightarrow> string \<Rightarrow> bool \<Rightarrow> string" where
  "joinPath dir name win =
     (if \<not> windowsRules dir win then strip_end (\<lambda>c. c = fslash) dir @ ''/'' @ name
      else let sep = winSep dir in strip_end is_slash dir @ sep # with_sep sep name)"

definition relTo :: "string \<Rightarrow> string \<Rightarrow> bool \<Rightarrow> string" where
  "relTo absPath rootp win =
     (if rootp = [] then absPath
      else if windowsRules rootp win then
        (let fold_path = (\<lambda>s. to_lower (toSlash s True));
             prefix = (if is_slash (last rootp) then rootp else rootp @ ''/'')
         in if fold_path (take (length prefix) absPath) \<noteq> fold_path prefix then absPath
            else toSlash (drop (length prefix) absPath) True)
      else
        (let prefix = (if ends_with rootp ''/'' then rootp else rootp @ ''/'')
         in if starts_with absPath prefix then drop (length prefix) absPath else absPath))"

section \<open>Normalising\<close>

definition fold_segment :: "bool \<Rightarrow> string list \<Rightarrow> string \<Rightarrow> string list" where
  "fold_segment absolute out seg =
     (if seg = [] \<or> seg = ''.'' then out
      else if seg \<noteq> ''..'' then out @ [seg]
      else if out \<noteq> [] \<and> last out \<noteq> ''..'' \<and> last out \<noteq> ''~''
          \<and> \<not> (absolute \<and> length out = 1 \<and> starts_with (last out) ''@peer-'') then butlast out
      else if \<not> absolute \<or> out \<noteq> [] then out @ [seg]
      else out)"

definition fold_win_segment :: "string \<Rightarrow> string list \<Rightarrow> string \<Rightarrow> string list" where
  "fold_win_segment rootp out seg =
     (if seg = [] \<or> seg = ''.'' then out
      else if seg \<noteq> ''..'' then out @ [seg]
      else if out \<noteq> [] \<and> last out \<noteq> ''..'' \<and> last out \<noteq> ''~'' then butlast out
      else if rootp = [] \<or> out \<noteq> [] then out @ [seg]
      else out)"

function normalizeWin :: "string \<Rightarrow> string" where
  "normalizeWin p =
     (let marker = windowsRootMarker p
      in if marker \<noteq> [] then marker @ normalizeWin (drop (length marker) p)
         else let rootp = winRoot p; sep = winSep p;
                  out = foldl (fold_win_segment rootp) [] (split_by is_slash (drop (length rootp) p));
                  head = (if rootp \<noteq> [] then with_sep sep (strip_end is_slash rootp) @ [sep] else [])
              in head @ join [sep] out)"
  by pat_completeness auto
termination
proof (relation "measure length")
  fix p x assume "x = windowsRootMarker p" "x \<noteq> []"
  then have "p \<noteq> []" by (auto simp: windowsRootMarker_def starts_with_def)
  with \<open>x \<noteq> []\<close> show "(drop (length x) p, p) \<in> measure length" by simp
qed simp

declare normalizeWin.simps [simp del]

definition normalizePath :: "string \<Rightarrow> bool \<Rightarrow> string" where
  "normalizePath p win =
     (if windowsRules p win then normalizeWin p
      else let absolute = starts_with p ''/'';
               out = foldl (fold_segment absolute) [] (split_on fslash p)
           in (if absolute then ''/'' else []) @ join [fslash] out)"

section \<open>Parts of a path\<close>

definition path_parts :: "string \<Rightarrow> bool \<Rightarrow> string list" where
  "path_parts p win = (if windowsRules p win then split_by is_slash p else split_on fslash p)"

definition basename :: "string \<Rightarrow> bool \<Rightarrow> string" where
  "basename p win = last (path_parts p win)"

definition folderName :: "string \<Rightarrow> bool \<Rightarrow> string" where
  "folderName p win =
     (let parts = filter (\<lambda>w. w \<noteq> []) (path_parts p win) in if parts = [] then [] else last parts)"

definition lastIndexOf_char :: "char \<Rightarrow> string \<Rightarrow> int" where
  "lastIndexOf_char c s = lastIndexOf_sub [c] s"

definition dirname :: "string \<Rightarrow> bool \<Rightarrow> string" where
  "dirname p win =
     (if \<not> windowsRules p win then
        (let cut = lastIndexOf_char fslash p in if 0 < cut then take (nat cut) p else ''/'')
      else
        (let rootp = winRoot p; cut = max (lastIndexOf_char fslash p) (lastIndexOf_char bslash p)
         in if rootp \<noteq> [] \<and> cut < int (length rootp) then rootp
            else if 0 < cut then take (nat cut) p
            else if rootp \<noteq> [] then rootp else ''/''))"

definition splitRoot :: "string \<Rightarrow> bool \<Rightarrow> string \<times> string" where
  "splitRoot p win =
     (if windowsRules p win \<and> winRoot p \<noteq> [] then (winRoot p, toSlash (drop (length (winRoot p)) p) True)
      else (''/'', relTo p ''/'' False))"

definition underWin :: "string \<Rightarrow> string \<Rightarrow> string" where
  "underWin base rest =
     (let tail = map (\<lambda>c. if c = fslash then bslash else c) (dropWhile (\<lambda>c. c = fslash) rest);
          head = strip_end is_slash base
      in if tail \<noteq> [] \<or> (case head of [a, b] \<Rightarrow> is_letter a \<and> b = CHR '':'' | _ \<Rightarrow> False)
         then head @ bslash # tail else head)"

text \<open>\<open>/^\/([A-Za-z])(?=\/|$)/\<close> and \<open>/^\/(tmp|bin|lib)(?=\/|$)/\<close>.\<close>

definition at_segment_end :: "string \<Rightarrow> bool" where
  "at_segment_end s = (s = [] \<or> hd s = fslash)"

definition msys_drive :: "string \<Rightarrow> char option" where
  "msys_drive p =
     (case p of a # b # rest \<Rightarrow> if a = fslash \<and> is_letter b \<and> at_segment_end rest then Some b else None
      | _ \<Rightarrow> None)"

definition msys_mount :: "string \<Rightarrow> string option" where
  "msys_mount p =
     (if starts_with p ''/'' \<and> take 3 (drop 1 p) \<in> {''tmp'', ''bin'', ''lib''} \<and> at_segment_end (drop 4 p)
      then Some (take 3 (drop 1 p)) else None)"

text \<open>\<open>mounts\<close> is Git Bash's own tree and its \<open>/tmp\<close>, when known.\<close>

definition fromMsysPath :: "string \<Rightarrow> (string \<times> string) option \<Rightarrow> string" where
  "fromMsysPath p mounts =
     (case msys_drive p of
        Some d \<Rightarrow> underWin ([upper_letter d, CHR '':'', bslash]) (drop 2 p)
      | None \<Rightarrow>
          if starts_with p ''//'' then
            map (\<lambda>c. if c = fslash then bslash else c) ([bslash, bslash] @ dropWhile (\<lambda>c. c = fslash) p)
          else (case mounts of
             None \<Rightarrow> p
           | Some (rootp, tmp) \<Rightarrow>
               if \<not> starts_with p ''/'' \<or> isPeerRoot p then p
               else (case msys_mount p of
                  None \<Rightarrow> underWin rootp p
                | Some m \<Rightarrow>
                    let rest = drop 4 p
                    in if m = ''tmp'' then underWin tmp rest else underWin rootp (''/usr/'' @ m @ rest))))"

definition uriPath :: "string \<Rightarrow> bool \<Rightarrow> string" where
  "uriPath absPath win =
     (if \<not> windowsRules absPath win then absPath
      else let slashed = toSlash absPath True
           in if drive_prefix absPath \<noteq> None then ''/'' @ slashed else slashed)"

definition strip_program_ext :: "string \<Rightarrow> string" where
  "strip_program_ext s =
     (if to_lower (drop (length s - 4) s) \<in> {''.exe'', ''.cmd'', ''.bat''} then take (length s - 4) s else s)"

definition commandName :: "string \<Rightarrow> bool \<Rightarrow> string" where
  "commandName token win =
     (if \<not> win then last (split_on fslash token) else strip_program_ext (basename token True))"

section \<open>Files that run when opened\<close>

datatype opened_kind = Binary | Script

definition WIN_RUNS_BINARY_RE :: "string list" where
  "WIN_RUNS_BINARY_RE =
     [''.exe'', ''.com'', ''.scr'', ''.pif'', ''.cpl'', ''.msi'', ''.msp'', ''.mst'', ''.lnk'',
      ''.chm'', ''.jar'', ''.appx'', ''.appxbundle'', ''.msix'', ''.msixbundle'', ''.diagcab'']"

definition WIN_RUNS_SCRIPT_RE :: "string list" where
  "WIN_RUNS_SCRIPT_RE =
     [''.bat'', ''.cmd'', ''.ps1'', ''.psm1'', ''.vbs'', ''.vbe'', ''.js'', ''.jse'', ''.wsf'', ''.wsh'', ''.hta'', ''.reg'',
      ''.msc'', ''.scf'', ''.url'', ''.sh'', ''.bash'', ''.py'', ''.pyw'', ''.pyz'', ''.pl'', ''.rb'']"

definition runsWhenOpened :: "string \<Rightarrow> bool \<Rightarrow> opened_kind option" where
  "runsWhenOpened p win =
     (if \<not> win then None
      else if list_ex (ends_with (to_lower p)) WIN_RUNS_BINARY_RE then Some Binary
      else if list_ex (ends_with (to_lower p)) WIN_RUNS_SCRIPT_RE then Some Script else None)"

section \<open>Normalising is stable\<close>

text \<open>A list of segments the folding leaves alone.\<close>

definition settled :: "bool \<Rightarrow> string list \<Rightarrow> bool" where
  "settled absolute out \<longleftrightarrow> foldl (fold_segment absolute) [] out = out \<and>
     (\<forall>seg\<in>set out. seg \<noteq> [] \<and> seg \<noteq> ''.'' \<and> fslash \<notin> set seg) \<and>
     (absolute \<and> out \<noteq> [] \<longrightarrow> hd out \<noteq> ''..'')"

lemma settled_Nil [simp]: "settled absolute []"
  by (simp add: settled_def)

lemma settled_prefix: "settled absolute (out @ [seg]) \<Longrightarrow> seg \<noteq> ''..'' \<Longrightarrow> settled absolute out"
proof -
  assume s: "settled absolute (out @ [seg])" and ne: "seg \<noteq> ''..''"
  let ?x = "foldl (fold_segment absolute) [] out"
  have "fold_segment absolute ?x seg = out @ [seg]" "seg \<noteq> []" "seg \<noteq> ''.''"
    using s by (simp_all add: settled_def)
  then have "?x = out" using ne by (simp add: fold_segment_def)
  with s show ?thesis by (cases out) (simp_all add: settled_def)
qed

lemma fold_segment_cases:
  "fold_segment absolute out seg = out \<or> fold_segment absolute out seg = out @ [seg] \<or>
   (fold_segment absolute out seg = butlast out \<and> out \<noteq> [] \<and> last out \<noteq> ''..'')"
  unfolding fold_segment_def by (simp split: if_split)

lemma settled_snoc:
  assumes "settled absolute out" and "fold_segment absolute out seg = out @ [seg]"
    and "fslash \<notin> set seg"
  shows "settled absolute (out @ [seg])"
proof -
  have "seg \<noteq> []" "seg \<noteq> ''.''" "absolute \<and> out = [] \<longrightarrow> seg \<noteq> ''..''"
    using assms(2) by (auto simp: fold_segment_def split: if_splits)
  with assms show ?thesis by (cases out) (simp_all add: settled_def)
qed

lemma settled_fold_segment:
  assumes "settled absolute out" and "fslash \<notin> set seg"
  shows "settled absolute (fold_segment absolute out seg)"
proof -
  consider "fold_segment absolute out seg = out" | "fold_segment absolute out seg = out @ [seg]"
    | "fold_segment absolute out seg = butlast out" "out \<noteq> []" "last out \<noteq> ''..''"
    using fold_segment_cases by blast
  then show ?thesis
  proof cases
    case 3
    then show ?thesis using assms(1) settled_prefix [of absolute "butlast out" "last out"] by simp
  qed (use assms settled_snoc in auto)
qed

lemma settled_foldl:
  "settled absolute out \<Longrightarrow> \<forall>seg\<in>set segs. fslash \<notin> set seg \<Longrightarrow>
   settled absolute (foldl (fold_segment absolute) out segs)"
  by (induction segs arbitrary: out) (auto intro: settled_fold_segment)

lemma fold_segment_empty [simp]: "fold_segment absolute out [] = out"
  by (simp add: fold_segment_def)

text \<open>Reading a settled path back gives the same segments.\<close>

lemma refold:
  assumes "settled absolute out" and "p = (if absolute then ''/'' else []) @ join [fslash] out"
  shows "starts_with p ''/'' = absolute \<and> foldl (fold_segment absolute) [] (split_on fslash p) = out"
proof -
  have words: "out \<noteq> [] \<Longrightarrow> split_on fslash (join [fslash] out) = out"
    using assms(1) by (intro split_on_join) (auto simp: settled_def)
  have split: "foldl (fold_segment absolute) [] (split_on fslash (join [fslash] out)) = out"
    using words assms(1) by (cases "out = []") (auto simp: settled_def split_on_def)
  show ?thesis
  proof (cases absolute)
    case True
    then have "split_on fslash p = [] # split_on fslash (join [fslash] out)"
      by (simp add: assms(2) split_on_def fslash_def)
    with True split assms(2) show ?thesis by (simp add: starts_with_def)
  next
    case False
    then have "p = join [fslash] out" using assms(2) by simp
    moreover have "\<not> starts_with (join [fslash] out) ''/''"
    proof (cases out)
      case Nil
      then show ?thesis by (simp add: starts_with_def)
    next
      case (Cons seg segs)
      then have "seg \<noteq> []" "fslash \<notin> set seg" using assms(1) by (auto simp: settled_def)
      then show ?thesis
        using Cons by (cases seg; cases segs) (auto simp: starts_with_def fslash_def)
    qed
    ultimately show ?thesis using split False by simp
  qed
qed

section \<open>Properties\<close>

text \<open>Normalising a path twice is normalising it once, and an absolute path
  never climbs above its root: the result does not start with \<open>/..\<close>.\<close>

theorem normalizePath_stable:
  assumes "\<not> windowsRules p win" and "\<not> windowsRules (normalizePath p win) win"
  shows "normalizePath (normalizePath p win) win = normalizePath p win \<and>
    (starts_with p ''/'' \<longrightarrow> hd (split_on fslash (drop 1 (normalizePath p win))) \<noteq> ''..'')"
proof -
  let ?abs = "starts_with p ''/''"
  define out where "out = foldl (fold_segment ?abs) [] (split_on fslash p)"
  have s: "settled ?abs out"
    unfolding out_def by (intro settled_foldl) (auto dest: split_on_words)
  have p': "normalizePath p win = (if ?abs then ''/'' else []) @ join [fslash] out"
    using assms(1) by (simp add: normalizePath_def out_def)
  note r = refold [OF s p']
  have "normalizePath (normalizePath p win) win =
      (if ?abs then ''/'' else []) @ join [fslash] out"
    using assms(2) r by (simp add: normalizePath_def [of "normalizePath p win"])
  moreover have "hd (split_on fslash (drop 1 (normalizePath p win))) \<noteq> ''..''" if "?abs"
  proof (cases "out = []")
    case True
    with that show ?thesis by (simp add: p' split_on_def)
  next
    case False
    then have "split_on fslash (join [fslash] out) = out"
      using s by (intro split_on_join) (auto simp: settled_def)
    with False that s show ?thesis by (simp add: p' settled_def)
  qed
  ultimately show ?thesis using p' by simp
qed

theorem normalizePath_stable_witness:
  "normalizePath ''/a/../../b/./c'' False = ''/b/c'' \<and>
   normalizePath (normalizePath ''/a/../../b/./c'' False) False = normalizePath ''/a/../../b/./c'' False"
proof -
  have w: "\<not> windowsRules ''/a/../../b/./c'' False"
    by (simp add: windowsRules_def windowsRootMarker_def starts_with_def)
  have v: "normalizePath ''/a/../../b/./c'' False = ''/b/c''"
    using w by (simp add: normalizePath_def starts_with_def split_on_def fslash_def fold_segment_def)
  have "\<not> windowsRules (normalizePath ''/a/../../b/./c'' False) False"
    unfolding v by (simp add: windowsRules_def windowsRootMarker_def starts_with_def)
  from normalizePath_stable [OF w this] v show ?thesis by blast
qed

lemma ends_with_slash: "ends_with s ''/'' \<longleftrightarrow> s \<noteq> [] \<and> last s = fslash"
  by (cases s rule: rev_cases) (auto simp: ends_with_def starts_with_def fslash_def)

text \<open>Under POSIX rules, making a joined path relative to its base gives back the
  relative path.\<close>

theorem relTo_joinAbs:
  assumes "\<not> windowsRules base win" and "base \<noteq> []" and "rel \<noteq> []"
    and "\<not> isAbsolutePath rel win" and "strip_dot (\<lambda>c. c = fslash) rel = rel"
  shows "relTo (joinAbs base rel win) base win = rel"
proof -
  have m: "windowsRootMarker base = []" using assms(1) by (simp add: windowsRules_def)
  have a: "\<not> starts_with rel ''/''" "\<not> starts_with rel ''~/''" "rel \<noteq> ''~''"
    using assms(4) by (auto simp: isAbsolutePath_def)
  have w: "\<not> (win \<and> isAbsolutePath rel True)" using assms(4) by auto
  have "joinAbs base rel win = (if ends_with base ''/'' then base @ rel else base @ ''/'' @ rel)"
    using a w m assms by (simp add: joinAbs_def)
  then show ?thesis
    using assms(1,2) by (simp add: relTo_def starts_with_def)
qed

theorem relTo_joinAbs_witness:
  "relTo (joinAbs ''/srv/app'' ''src/main.ts'' False) ''/srv/app'' False = ''src/main.ts''"
  by (rule relTo_joinAbs)
    (simp_all add: windowsRules_def windowsRootMarker_def starts_with_def isAbsolutePath_def)

end
