(* ===== verification/AgentCommands.thy ===== *)
theory AgentCommands
  imports PaneTree PathOps
begin

text \<open>
  \<open>desktop/frontend/src/agentSession.ts\<close> and the command recognition of
  \<open>slashCommands.ts\<close>: which agent a launch command runs, which conversation it continues,
  and the command that continues a given one. \<open>win\<close> is whether this machine runs Windows.
\<close>

section \<open>Which CLI a command runs\<close>

datatype ai_cli = CliClaude | CliCodex | CliGemini | CliOpencode

definition isAICLI :: "string \<Rightarrow> ai_cli option" where
  "isAICLI v =
     (if v = ''claude'' then Some CliClaude
      else if v = ''codex'' then Some CliCodex
      else if v = ''gemini'' then Some CliGemini
      else if v = ''opencode'' then Some CliOpencode
      else None)"

text \<open>The matches of \<open>/[^\s;&|]+/g\<close> with their positions.\<close>

definition is_shell_sep :: "char \<Rightarrow> bool" where
  "is_shell_sep c = (is_space c \<or> c = CHR '';'' \<or> c = CHR 0x26 \<or> c = CHR ''|'')"

fun with_offsets :: "nat \<Rightarrow> string list \<Rightarrow> (nat \<times> string) list" where
  "with_offsets i [] = []"
| "with_offsets i (w # ws) = (if w = [] then [] else [(i, w)]) @ with_offsets (i + length w + 1) ws"

fun first_cli :: "bool \<Rightarrow> (nat \<times> string) list \<Rightarrow> (ai_cli \<times> nat) option" where
  "first_cli win [] = None"
| "first_cli win ((i, w) # ws) =
     (case isAICLI (commandName w win) of
        Some hit \<Rightarrow> Some (hit, i + length w)
      | None \<Rightarrow> first_cli win ws)"

definition findAICLI :: "bool \<Rightarrow> string option \<Rightarrow> (ai_cli \<times> nat) option" where
  "findAICLI win cmd =
     (case keep_truthy cmd of
        None \<Rightarrow> None
      | Some c \<Rightarrow> first_cli win (with_offsets 0 (split_by is_shell_sep c)))"

definition detectAICLI :: "bool \<Rightarrow> string option \<Rightarrow> ai_cli option" where
  "detectAICLI win cmd = map_option fst (findAICLI win cmd)"

section \<open>Which conversation a command continues\<close>

definition is_word_char :: "char \<Rightarrow> bool" where
  "is_word_char c = (is_letter c \<or> is_digit c \<or> c = CHR ''_'')"

text \<open>\<open>ENV_ASSIGNMENT\<close> and \<open>SESSION_ID\<close>.\<close>

definition env_assignment :: "string \<Rightarrow> bool" where
  "env_assignment token =
     (case token of [] \<Rightarrow> False
      | c # cs \<Rightarrow> (is_letter c \<or> c = CHR ''_'') \<and>
          (case dropWhile is_word_char cs of [] \<Rightarrow> False | d # _ \<Rightarrow> d = CHR ''=''))"

definition isValidAgentSessionId :: "string \<Rightarrow> bool" where
  "isValidAgentSessionId sessionId =
     (1 \<le> length sessionId \<and> length sessionId \<le> 128 \<and>
      list_all (\<lambda>c. is_word_char c \<or> c = CHR ''-'') sessionId)"

record parsed_command =
  pc_tokens :: "string list"
  pc_programIdx :: nat
  pc_program :: string

definition words :: "string \<Rightarrow> string list" where
  "words s = filter (\<lambda>w. w \<noteq> []) (split_by is_space (trim s))"

definition parseAgentCommand :: "bool \<Rightarrow> string option \<Rightarrow> parsed_command option" where
  "parseAgentCommand win command =
     (let tokens = words (case command of None \<Rightarrow> [] | Some c \<Rightarrow> c);
          programIdx = findIndex (\<lambda>token. \<not> env_assignment token) tokens
      in if programIdx = -1 then None
         else Some \<lparr>pc_tokens = tokens, pc_programIdx = nat programIdx,
                pc_program = commandName (tokens ! nat programIdx) win\<rparr>)"

definition agentProviderOfCommand :: "bool \<Rightarrow> string option \<Rightarrow> agent_provider option" where
  "agentProviderOfCommand win command =
     (case parseAgentCommand win command of
        None \<Rightarrow> None
      | Some p \<Rightarrow>
          if pc_program p = ''claude'' then Some Claude
          else if pc_program p = ''codex'' then Some Codex
          else None)"

definition validRef :: "agent_provider \<Rightarrow> string option \<Rightarrow> agent_session_ref option" where
  "validRef provider sessionId =
     (case sessionId of
        None \<Rightarrow> None
      | Some i \<Rightarrow> if i \<noteq> [] \<and> isValidAgentSessionId i
                    then Some \<lparr>ref_provider = provider, ref_session_id = i\<rparr> else None)"

definition token_at :: "string list \<Rightarrow> nat \<Rightarrow> string option" where
  "token_at tokens i = (if i < length tokens then Some (tokens ! i) else None)"

text \<open>\<open>tokens.indexOf(x, from)\<close>.\<close>

definition indexOf_from :: "'a \<Rightarrow> 'a list \<Rightarrow> nat \<Rightarrow> int" where
  "indexOf_from x xs from =
     (let i = indexOf x (drop from xs) in if i < 0 then -1 else i + int from)"

definition agentSessionRefOf :: "bool \<Rightarrow> string option \<Rightarrow> agent_session_ref option" where
  "agentSessionRefOf win cmd =
     (case parseAgentCommand win cmd of
        None \<Rightarrow> None
      | Some p \<Rightarrow>
          let tokens = pc_tokens p; programIdx = pc_programIdx p; program = pc_program p
          in if program = ''codex'' \<and> token_at tokens (programIdx + 1) = Some ''resume''
             then validRef Codex (token_at tokens (programIdx + 2))
             else if program \<noteq> ''claude'' then None
             else let resumeFlagIdx = indexOf_from ''--resume'' tokens (programIdx + 1)
             in if resumeFlagIdx \<noteq> -1 then validRef Claude (token_at tokens (nat resumeFlagIdx + 1))
             else if token_at tokens (programIdx + 1) = Some ''resume''
             then validRef Claude (token_at tokens (programIdx + 2))
             else None)"

definition claudeResumeSessionId :: "bool \<Rightarrow> string option \<Rightarrow> string option" where
  "claudeResumeSessionId win command =
     (if (case parseAgentCommand win command of
            None \<Rightarrow> False | Some p \<Rightarrow> ''--fork-session'' \<in> set (pc_tokens p)) then None
      else (case agentSessionRefOf win command of
              Some r \<Rightarrow> if ref_provider r = Claude then Some (ref_session_id r) else None
            | None \<Rightarrow> None))"

definition agentSessionOf :: "bool \<Rightarrow> terminal_instance \<Rightarrow> agent_session_ref option" where
  "agentSessionOf win tab = or_else (agentSession tab) (agentSessionRefOf win (resumeCmd tab))"

definition buildClaudeResumeCmd :: "bool \<Rightarrow> string option \<Rightarrow> string \<Rightarrow> string" where
  "buildClaudeResumeCmd win currentCmd sessionId =
     (case parseAgentCommand win currentCmd of
        None \<Rightarrow> ''claude --resume '' @ sessionId
      | Some p \<Rightarrow>
          if pc_program p \<noteq> ''claude'' then ''claude --resume '' @ sessionId
          else let tokens = pc_tokens p; programIdx = pc_programIdx p;
                   resumeFlagIdx = indexOf_from ''--resume'' tokens (programIdx + 1)
          in if resumeFlagIdx \<noteq> -1 \<and> nat resumeFlagIdx + 1 < length tokens
             then join '' '' (tokens[nat resumeFlagIdx + 1 := sessionId])
             else if token_at tokens (programIdx + 1) = Some ''resume'' \<and> programIdx + 2 < length tokens
             then join '' '' (tokens[programIdx + 2 := sessionId])
             else join '' '' (take (programIdx + 1) tokens @ [''--resume'', sessionId]))"

section \<open>Tokens survive joining and parsing\<close>

definition clean_tokens :: "string list \<Rightarrow> bool" where
  "clean_tokens tokens \<longleftrightarrow> (\<forall>t\<in>set tokens. t \<noteq> [] \<and> (\<forall>c\<in>set t. \<not> is_space c))"

lemma clean_words: "clean_tokens (words s)"
  by (auto simp: clean_tokens_def words_def dest: split_by_words)

lemma split_by_join_space:
  "ws \<noteq> [] \<Longrightarrow> clean_tokens ws \<Longrightarrow> split_by is_space (join '' '' ws) = ws"
proof (induction ws rule: induct_list012)
  case 1
  then show ?case by simp
next
  case (2 w)
  then show ?case by (auto simp: clean_tokens_def intro: split_by_plain)
next
  case (3 w v ws)
  have "split_by is_space (join '' '' (w # v # ws)) = split_by is_space (w @ CHR '' '' # join '' '' (v # ws))"
    by simp
  also have "\<dots> = w # split_by is_space (join '' '' (v # ws))"
    using "3.prems" by (subst split_by_append) (auto simp: clean_tokens_def is_space_def)
  finally show ?case using "3.IH"(2) "3.prems" by (simp add: clean_tokens_def)
qed

lemma join_space_ends:
  "ws \<noteq> [] \<Longrightarrow> clean_tokens ws \<Longrightarrow>
   join '' '' ws \<noteq> [] \<and> hd (join '' '' ws) = hd (hd ws) \<and> last (join '' '' ws) = last (last ws)"
proof (induction ws rule: induct_list012)
  case (3 w v ws)
  then show ?case by (auto simp: clean_tokens_def hd_append)
qed (auto simp: clean_tokens_def)

lemma words_join: "clean_tokens ws \<Longrightarrow> words (join '' '' ws) = ws"
proof (cases "ws = []")
  case True
  then show ?thesis by (simp add: words_def trim_def)
next
  case False
  assume c: "clean_tokens ws"
  have "hd ws \<in> set ws" "last ws \<in> set ws" using False by simp_all
  then have "\<not> is_space (hd (hd ws))" "\<not> is_space (last (last ws))"
    using c by (auto simp: clean_tokens_def)
  then have "trim (join '' '' ws) = join '' '' ws"
    using join_space_ends [OF False c] by (intro trim_id) auto
  moreover have "filter (\<lambda>w. w \<noteq> []) ws = ws"
    using c by (auto simp: clean_tokens_def filter_id_conv)
  ultimately show ?thesis using split_by_join_space [OF False c] by (simp add: words_def)
qed

lemma valid_id_clean: "isValidAgentSessionId i \<Longrightarrow> i \<noteq> [] \<and> (\<forall>c\<in>set i. \<not> is_space c)"
proof -
  assume v: "isValidAgentSessionId i"
  have "\<not> (is_word_char c \<or> c = CHR ''-'')" if "is_space c" for c
    using that unfolding is_space_def
    by (elim disjE) (simp_all add: is_word_char_def is_letter_def is_digit_def)
  then show ?thesis using v unfolding isValidAgentSessionId_def list_all_iff
    by (metis list.size(3) not_one_le_zero)
qed

lemma clean_update: "clean_tokens ws \<Longrightarrow> i \<noteq> [] \<and> (\<forall>c\<in>set i. \<not> is_space c) \<Longrightarrow> clean_tokens (ws[k := i])"
  using set_update_subset_insert [of ws k i] unfolding clean_tokens_def by blast

text \<open>Parsing depends on the tokens up to the program only.\<close>

lemma parse_tokens:
  assumes "parseAgentCommand win cmd = Some p" and "clean_tokens ws"
    and "take (pc_programIdx p + 1) ws = take (pc_programIdx p + 1) (pc_tokens p)"
    and "pc_programIdx p < length ws"
  shows "parseAgentCommand win (Some (join '' '' ws)) = Some (p\<lparr>pc_tokens := ws\<rparr>)"
proof -
  let ?E = "\<lambda>token. \<not> env_assignment token"
  define ts where "ts = words (case cmd of None \<Rightarrow> [] | Some c \<Rightarrow> c)"
  define k where "k = pc_programIdx p"
  have ge: "findIndex ?E ts \<noteq> -1" and p: "pc_tokens p = ts" "k = nat (findIndex ?E ts)"
    "pc_program p = commandName (ts ! k) win"
    using assms(1) by (auto simp: parseAgentCommand_def ts_def k_def Let_def split: if_splits)
  have k0: "0 \<le> findIndex ?E ts" using ge findIndex_bounds [of ?E ts] by linarith
  then have k: "k < length ts" "?E (ts ! k)" using findIndex_nth [of ?E ts] p(2) by auto
  have eq: "ws ! j = ts ! j" if "j \<le> k" for j
    using assms(3) that by (metis k_def less_Suc_eq_le nth_take p(1) Suc_eq_plus1)
  have kw: "k < length ws" using assms(4) k_def by simp
  have "findIndex ?E ws = int k"
  proof -
    have "?E (ws ! k)" using k(2) eq by simp
    then have nn: "0 \<le> findIndex ?E ws"
      using kw findIndex_neg [of ?E ws] nth_mem [OF kw] by force
    have "\<not> k < nat (findIndex ?E ws)" using \<open>?E (ws ! k)\<close> findIndex_first by blast
    moreover have "\<not> nat (findIndex ?E ws) < k"
    proof
      assume l: "nat (findIndex ?E ws) < k"
      then have "?E (ts ! nat (findIndex ?E ws))" using findIndex_nth [OF nn] eq by simp
      with l show False using findIndex_first [of "nat (findIndex ?E ws)" ?E ts] p(2) by simp
    qed
    ultimately show ?thesis using nn by linarith
  qed
  then have "parseAgentCommand win (Some (join '' '' ws)) =
      Some \<lparr>pc_tokens = ws, pc_programIdx = k, pc_program = commandName (ws ! k) win\<rparr>"
    using words_join [OF assms(2)] by (simp add: parseAgentCommand_def Let_def)
  then show ?thesis using p(3) eq [of k] by (cases p) (simp add: k_def)
qed

lemma indexOf_from_bounds:
  "indexOf_from x xs n \<noteq> -1 \<Longrightarrow> int n \<le> indexOf_from x xs n \<and>
   indexOf_from x xs n < int (length xs) \<and> xs ! nat (indexOf_from x xs n) = x"
  using indexOf_less [of x "drop n xs"] indexOf_nonneg [of x "drop n xs"] indexOf_nth [of x "drop n xs"]
  by (auto simp: indexOf_from_def Let_def nat_add_distrib add.commute split: if_splits)

lemma findIndex_cong_prefix:
  "take k xs = take k ys \<Longrightarrow> k \<le> length xs \<Longrightarrow> k \<le> length ys \<Longrightarrow>
   0 \<le> findIndex P xs \<Longrightarrow> findIndex P xs < int k \<Longrightarrow> findIndex P ys = findIndex P xs"
proof (induction xs arbitrary: k ys)
  case Nil
  then show ?case by simp
next
  case (Cons x xs)
  then obtain k' where k: "k = Suc k'" by (cases k) auto
  with Cons.prems obtain ys' where ys: "ys = x # ys'" "take k' xs = take k' ys'" "k' \<le> length ys'"
    by (cases ys) auto
  show ?case
  proof (cases "P x")
    case True
    then show ?thesis by (simp add: ys)
  next
    case False
    with Cons.prems k have "0 \<le> findIndex P xs" "findIndex P xs < int k'" "k' \<le> length xs"
      by (auto simp: Let_def split: if_splits)
    with Cons.IH [of k' ys'] ys have "findIndex P ys' = findIndex P xs" by simp
    with False ys show ?thesis by simp
  qed
qed

lemma indexOf_from_update:
  assumes "indexOf_from x xs n = int k" and "k < j"
  shows "indexOf_from x (xs[j := y]) n = int k"
proof -
  let ?D = "drop n xs" and ?P = "\<lambda>y. y = x"
  have b: "n \<le> k" "k < length xs" using indexOf_from_bounds [of x xs n] assms(1) by auto
  have f: "findIndex ?P ?D = int (k - n)"
    using assms(1) b by (auto simp: indexOf_from_def indexOf_def Let_def split: if_splits)
  have d: "drop n (xs[j := y]) = ?D[j - n := y]" using b assms(2) by (simp add: drop_update_swap)
  have "findIndex ?P (?D[j - n := y]) = findIndex ?P ?D"
    using f b assms(2) by (intro findIndex_cong_prefix [where k = "Suc (k - n)"]) auto
  with f d b show ?thesis by (simp add: indexOf_from_def indexOf_def)
qed

section \<open>Reading a built command back\<close>

lemma parsed_tokens:
  assumes "parseAgentCommand win cmd = Some p"
  shows "clean_tokens (pc_tokens p) \<and> pc_programIdx p < length (pc_tokens p)"
proof -
  let ?E = "\<lambda>token. \<not> env_assignment token"
  define ts where "ts = words (case cmd of None \<Rightarrow> [] | Some c \<Rightarrow> c)"
  have p: "pc_tokens p = ts" "pc_programIdx p = nat (findIndex ?E ts)" "findIndex ?E ts \<noteq> -1"
    using assms by (auto simp: parseAgentCommand_def ts_def Let_def split: if_splits)
  then have "0 \<le> findIndex ?E ts" using findIndex_bounds [of ?E ts] by linarith
  then show ?thesis using p(1,2) findIndex_nth [of ?E ts] clean_words by (simp add: ts_def)
qed

lemma resume_read:
  assumes "parseAgentCommand win cmd = Some p" and "pc_program p = ''claude''"
    and "clean_tokens ws" and "k = pc_programIdx p" and "k < length ws"
    and "take (k + 1) ws = take (k + 1) (pc_tokens p)"
  shows "agentSessionRefOf win (Some (join '' '' ws)) =
    (let f = indexOf_from ''--resume'' ws (k + 1)
     in if f \<noteq> -1 then validRef Claude (token_at ws (nat f + 1))
        else if token_at ws (k + 1) = Some ''resume'' then validRef Claude (token_at ws (k + 2)) else None)"
proof -
  have "parseAgentCommand win (Some (join '' '' ws)) = Some (p\<lparr>pc_tokens := ws\<rparr>)"
    using assms by (intro parse_tokens) simp_all
  then show ?thesis using assms(2,4) by (simp add: agentSessionRefOf_def Let_def)
qed

lemma validRef_valid:
  "isValidAgentSessionId i \<Longrightarrow> validRef v (Some i) = Some \<lparr>ref_provider = v, ref_session_id = i\<rparr>"
  using valid_id_clean [of i] by (simp add: validRef_def)

lemma commandName_claude: "commandName ''claude'' win = ''claude''"
  by (cases win) (simp_all add: commandName_def basename_def path_parts_def split_on_def fslash_def
      is_slash_def strip_program_ext_def to_lower_def lower_char_def)

lemma resume_fresh:
  assumes "isValidAgentSessionId i"
  shows "agentSessionRefOf win (Some (''claude --resume '' @ i)) =
    Some \<lparr>ref_provider = Claude, ref_session_id = i\<rparr>"
proof -
  let ?ws = "[''claude'', ''--resume'', i]"
  have cl: "clean_tokens ?ws"
    using valid_id_clean [OF assms] by (auto simp: clean_tokens_def is_space_def)
  have w: "words (''claude --resume '' @ i) = ?ws" using words_join [OF cl] by simp
  have "findIndex (\<lambda>token. \<not> env_assignment token) ?ws = 0"
    by (simp add: env_assignment_def is_word_char_def is_letter_def is_digit_def)
  with w have "parseAgentCommand win (Some (''claude --resume '' @ i)) =
      Some \<lparr>pc_tokens = ?ws, pc_programIdx = 0, pc_program = ''claude''\<rparr>"
    by (simp only: parseAgentCommand_def option.case Let_def) (simp add: commandName_claude)
  then show ?thesis
    using validRef_valid [OF assms]
    by (simp add: agentSessionRefOf_def indexOf_from_def indexOf_def token_at_def)
qed

lemma resume_at_flag:
  assumes p: "parseAgentCommand win cmd = Some p" "pc_program p = ''claude''"
    and i: "isValidAgentSessionId i"
    and r: "r = indexOf_from ''--resume'' (pc_tokens p) (pc_programIdx p + 1)" "r \<noteq> -1"
    and room: "nat r + 1 < length (pc_tokens p)"
  shows "agentSessionRefOf win (Some (join '' '' ((pc_tokens p)[nat r + 1 := i]))) =
    Some \<lparr>ref_provider = Claude, ref_session_id = i\<rparr>"
proof -
  let ?ts = "pc_tokens p" and ?k = "pc_programIdx p"
  have b: "int (?k + 1) \<le> r"
    using indexOf_from_bounds [of "''--resume''" ?ts "?k + 1"] r by auto
  have f: "indexOf_from ''--resume'' (?ts[nat r + 1 := i]) (?k + 1) = r"
    using indexOf_from_update [of "''--resume''" ?ts "?k + 1" "nat r" "nat r + 1" i] b r(1) by simp
  have "clean_tokens (?ts[nat r + 1 := i])"
    using parsed_tokens [OF p(1)] valid_id_clean [OF i] by (intro clean_update) simp_all
  from resume_read [OF p this refl] parsed_tokens [OF p(1)] b f r(2) room
  show ?thesis using validRef_valid [OF i, of Claude] by (simp add: token_at_def Let_def)
qed

lemma resume_at_word:
  assumes p: "parseAgentCommand win cmd = Some p" "pc_program p = ''claude''"
    and i: "isValidAgentSessionId i" "i \<noteq> ''--resume''"
    and r: "indexOf_from ''--resume'' (pc_tokens p) (pc_programIdx p + 1) = -1"
    and w: "token_at (pc_tokens p) (pc_programIdx p + 1) = Some ''resume''"
    and room: "pc_programIdx p + 2 < length (pc_tokens p)"
  shows "agentSessionRefOf win (Some (join '' '' ((pc_tokens p)[pc_programIdx p + 2 := i]))) =
    Some \<lparr>ref_provider = Claude, ref_session_id = i\<rparr>"
proof -
  let ?ts = "pc_tokens p" and ?k = "pc_programIdx p"
  have "''--resume'' \<notin> set (drop (?k + 1) ?ts)"
    using r indexOf_nonneg [of "''--resume''" "drop (?k + 1) ?ts"]
    by (auto simp: indexOf_from_def Let_def split: if_splits)
  then have "''--resume'' \<notin> set ((drop (?k + 1) ?ts)[1 := i])"
    using i(2) set_update_subset_insert [of "drop (?k + 1) ?ts" 1 i] by auto
  moreover have "drop (?k + 1) (?ts[?k + 2 := i]) = (drop (?k + 1) ?ts)[1 := i]"
    by (simp add: drop_update_swap)
  ultimately have nf: "indexOf_from ''--resume'' (?ts[?k + 2 := i]) (?k + 1) = -1"
    using indexOf_neg [of "''--resume''" "drop (?k + 1) (?ts[?k + 2 := i])"]
    by (simp add: indexOf_from_def)
  have "clean_tokens (?ts[?k + 2 := i])"
    using parsed_tokens [OF p(1)] valid_id_clean [OF i(1)] by (intro clean_update) simp_all
  from resume_read [OF p this refl] parsed_tokens [OF p(1)] nf w room
  show ?thesis using validRef_valid [OF i(1), of Claude] by (simp add: token_at_def Let_def)
qed

lemma resume_appended:
  assumes p: "parseAgentCommand win cmd = Some p" "pc_program p = ''claude''"
    and i: "isValidAgentSessionId i"
  shows "agentSessionRefOf win (Some (join '' '' (take (pc_programIdx p + 1) (pc_tokens p) @ [''--resume'', i]))) =
    Some \<lparr>ref_provider = Claude, ref_session_id = i\<rparr>"
proof -
  let ?ts = "pc_tokens p" and ?k = "pc_programIdx p"
  let ?ws = "take (?k + 1) ?ts @ [''--resume'', i]"
  have len: "length (take (?k + 1) ?ts) = ?k + 1" using parsed_tokens [OF p(1)] by simp
  have "clean_tokens ?ws"
    using parsed_tokens [OF p(1)] valid_id_clean [OF i]
    by (auto simp: clean_tokens_def is_space_def dest: in_set_takeD)
  moreover have "indexOf_from ''--resume'' ?ws (?k + 1) = int (?k + 1)"
    using len by (simp add: indexOf_from_def indexOf_def)
  moreover have "token_at ?ws (nat (int (?k + 1)) + 1) = Some i"
    using len by (simp only: nat_int) (simp add: token_at_def nth_append)
  ultimately show ?thesis
    using resume_read [OF p _ refl, of ?ws] len validRef_valid [OF i, of Claude]
    by (simp add: Let_def del: of_nat_add of_nat_Suc)
qed

section \<open>Properties\<close>

text \<open>The command built to resume a conversation is read back as resuming exactly
  that conversation, whatever command the tab ran before (its environment prefix is kept).\<close>

theorem resume_command_roundtrip:
  assumes "isValidAgentSessionId i" and "i \<noteq> ''--resume''"
    and "\<forall>p. parseAgentCommand win cmd = Some p \<longrightarrow> last (pc_tokens p) \<noteq> ''--resume''"
  shows "agentSessionRefOf win (Some (buildClaudeResumeCmd win cmd i)) =
    Some \<lparr>ref_provider = Claude, ref_session_id = i\<rparr>"
proof (cases "\<exists>p. parseAgentCommand win cmd = Some p \<and> pc_program p = ''claude''")
  case False
  then have "buildClaudeResumeCmd win cmd i = ''claude --resume '' @ i"
    by (auto simp: buildClaudeResumeCmd_def split: option.splits)
  then show ?thesis using resume_fresh [OF assms(1)] by simp
next
  case True
  then obtain p where p: "parseAgentCommand win cmd = Some p" "pc_program p = ''claude''" by blast
  let ?r = "indexOf_from ''--resume'' (pc_tokens p) (pc_programIdx p + 1)"
  have room: "nat ?r + 1 < length (pc_tokens p)" if "?r \<noteq> -1"
  proof (rule ccontr)
    assume "\<not> nat ?r + 1 < length (pc_tokens p)"
    then have "nat ?r = length (pc_tokens p) - 1" and "pc_tokens p \<noteq> []"
      using indexOf_from_bounds [OF that] by auto
    then have "last (pc_tokens p) = ''--resume''"
      using indexOf_from_bounds [OF that] by (simp add: last_conv_nth)
    with assms(3) p(1) show False by blast
  qed
  consider (flag) "?r \<noteq> -1"
    | (word) "?r = -1" "token_at (pc_tokens p) (pc_programIdx p + 1) = Some ''resume''"
        "pc_programIdx p + 2 < length (pc_tokens p)"
    | (new) "?r = -1" "\<not> (token_at (pc_tokens p) (pc_programIdx p + 1) = Some ''resume''
        \<and> pc_programIdx p + 2 < length (pc_tokens p))"
    by blast
  then show ?thesis
  proof cases
    case flag
    with p room show ?thesis using resume_at_flag [OF p assms(1) refl flag room [OF flag]]
      by (simp add: buildClaudeResumeCmd_def Let_def)
  next
    case word
    with p show ?thesis using resume_at_word [OF p assms(1,2) word]
      by (simp add: buildClaudeResumeCmd_def Let_def)
  next
    case new
    then have "buildClaudeResumeCmd win cmd i =
        join '' '' (take (pc_programIdx p + 1) (pc_tokens p) @ [''--resume'', i])"
      by (simp only: buildClaudeResumeCmd_def p Let_def option.case) auto
    then show ?thesis using resume_appended [OF p assms(1)] by simp
  qed
qed

theorem resume_command_roundtrip_witness:
  "agentSessionRefOf False (Some (buildClaudeResumeCmd False None ''abc-1'')) =
     Some \<lparr>ref_provider = Claude, ref_session_id = ''abc-1''\<rparr>"
proof (rule resume_command_roundtrip)
  show "isValidAgentSessionId ''abc-1''"
    by (simp add: isValidAgentSessionId_def is_word_char_def is_letter_def is_digit_def Let_def)
  show "\<forall>p. parseAgentCommand False None = Some p \<longrightarrow> last (pc_tokens p) \<noteq> ''--resume''"
    by (simp add: parseAgentCommand_def words_def trim_def)
qed simp

end
