(* ===== verification/TerminalLabels.thy ===== *)
theory TerminalLabels
  imports PaneTree
begin

text \<open>
  \<open>desktop/frontend/src/terminalLabels.ts\<close>: names for new tabs that no open tab has. The
  search loops are \<^const>\<open>first_free\<close>, which is total.
\<close>

definition disambiguateLabelAgainst :: "string \<Rightarrow> string list \<Rightarrow> string" where
  "disambiguateLabelAgainst base used =
     (if base \<notin> set used then base else base @ '' '' @ nat_str (first_free (base @ '' '') used 2))"

definition nextTerminalLabel :: "string list \<Rightarrow> string" where
  "nextTerminalLabel used = ''Terminal '' @ nat_str (first_free ''Terminal '' used 1)"

definition pickTerminalLabel :: "pane_node option \<Rightarrow> string" where
  "pickTerminalLabel node =
     nextTerminalLabel (case node of None \<Rightarrow> [] | Some n \<Rightarrow> to_set (map terminalDisplayLabel (collectTerminals n)))"

definition disambiguateLabel :: "pane_node option \<Rightarrow> string \<Rightarrow> string" where
  "disambiguateLabel node base =
     disambiguateLabelAgainst base
       (case node of None \<Rightarrow> [] | Some n \<Rightarrow> map terminalDisplayLabel (collectTerminals n))"

lemma disambiguateLabelAgainst_free [simp]: "disambiguateLabelAgainst base used \<notin> set used"
  using first_free_free [of "base @ '' ''" used 2] by (simp add: disambiguateLabelAgainst_def)

lemma nextTerminalLabel_free [simp]: "nextTerminalLabel used \<notin> set used"
  using first_free_free [of "''Terminal ''" used 1] by (simp add: nextTerminalLabel_def)

lemma disambiguate_least:
  "disambiguateLabelAgainst base used = base @ '' '' @ nat_str n \<Longrightarrow> 2 \<le> k \<Longrightarrow> k < n \<Longrightarrow>
   base @ '' '' @ nat_str k \<in> set used"
  using first_free_least [of 2 k "base @ '' ''" used]
  by (auto simp: disambiguateLabelAgainst_def split: if_splits)

text \<open>A new tab's name is on no open tab; the plain name is kept when it is free,
  and otherwise the smallest free number is the one used.\<close>

theorem disambiguateLabel_fresh:
  "disambiguateLabel (Some node) base \<notin> terminalDisplayLabel ` set (collectTerminals node) \<and>
   pickTerminalLabel (Some node) \<notin> terminalDisplayLabel ` set (collectTerminals node) \<and>
   (disambiguateLabel (Some node) base = base \<or>
     (\<exists>n\<ge>2. disambiguateLabel (Some node) base = base @ '' '' @ nat_str n \<and>
       base \<in> terminalDisplayLabel ` set (collectTerminals node) \<and>
       (\<forall>k. 2 \<le> k \<and> k < n \<longrightarrow> base @ '' '' @ nat_str k \<in> terminalDisplayLabel ` set (collectTerminals node))))"
proof -
  let ?used = "map terminalDisplayLabel (collectTerminals node)"
  let ?n = "first_free (base @ '' '') ?used 2"
  have "disambiguateLabelAgainst base ?used \<notin> set ?used" "nextTerminalLabel (to_set ?used) \<notin> set (to_set ?used)"
    by (rule disambiguateLabelAgainst_free, rule nextTerminalLabel_free)
  then have free: "disambiguateLabel (Some node) base \<notin> terminalDisplayLabel ` set (collectTerminals node)"
    "pickTerminalLabel (Some node) \<notin> terminalDisplayLabel ` set (collectTerminals node)"
    by (simp_all add: disambiguateLabel_def pickTerminalLabel_def)
  show ?thesis
  proof (cases "base \<in> set ?used")
    case False
    then have "disambiguateLabel (Some node) base = base"
      by (simp add: disambiguateLabel_def disambiguateLabelAgainst_def)
    with free show ?thesis by simp
  next
    case True
    then have lbl: "disambiguateLabel (Some node) base = base @ '' '' @ nat_str ?n"
      by (simp add: disambiguateLabel_def disambiguateLabelAgainst_def)
    have "base @ '' '' @ nat_str k \<in> terminalDisplayLabel ` set (collectTerminals node)"
      if "2 \<le> k" "k < ?n" for k
      using first_free_least [OF that] by simp
    with lbl True free first_free_ge [of 2 "base @ '' ''" ?used] show ?thesis by auto
  qed
qed

theorem disambiguateLabel_fresh_witness:
  "disambiguateLabel (Some (Leaf (makePaneLeaf ''p'' [bare_tab ''1'' ''Ultracode''] 0))) ''Ultracode'' \<noteq> ''Ultracode''"
  using disambiguateLabel_fresh [of "Leaf (makePaneLeaf ''p'' [bare_tab ''1'' ''Ultracode''] 0)" "''Ultracode''"]
  by (auto simp: makePaneLeaf_def bare_tab_def terminalDisplayLabel_def followsAgentTitle_def)

end
