(* ===== verification/SavedLayouts.thy ===== *)
theory SavedLayouts
  imports AgentCommands TerminalLabels
begin

text \<open>
  \<open>desktop/frontend/src/savedLayouts.ts\<close>: a saved arrangement of panes, captured from the
  panes on screen, prepared for opening, merged with the tabs already open, kept per project
  in the settings, and read back from disk with anything malformed left out.

  A settings value read from disk is a \<open>json\<close> value: numbers are rationals, and an object is
  the list of its entries in enumeration order.
\<close>

section \<open>Values read from disk\<close>

datatype json =
    JNull
  | JBool bool
  | JNum rat
  | JStr string
  | JArr "json list"
  | JObj "(string \<times> json) list"

fun isRecord :: "json \<Rightarrow> bool" where
  "isRecord (JObj _) = True"
| "isRecord _ = False"

text \<open>\<open>raw.key\<close> of an object; \<open>undefined\<close> is \<^term>\<open>None\<close>.\<close>

fun jfield :: "json \<Rightarrow> string \<Rightarrow> json option" where
  "jfield (JObj fs) k = map_of fs k"
| "jfield _ k = None"

definition optString :: "json option \<Rightarrow> string option" where
  "optString v = (case v of Some (JStr s) \<Rightarrow> if s \<noteq> [] then Some s else None | _ \<Rightarrow> None)"

section \<open>Layouts\<close>

record saved_layout_tab =
  sl_label :: string
  sl_actionName :: "string option"
  sl_agent :: "ai_cli option"
  sl_emoji :: "string option"
  sl_color :: "string option"

datatype saved_layout_node =
    SLeaf "saved_layout_tab list" rat
  | SSplit split_direction rat saved_layout_node saved_layout_node

record saved_layout =
  lay_id :: string
  lay_name :: string
  lay_root :: saved_layout_node

record project_layouts =
  pl_layouts :: "saved_layout list"
  pl_defaultId :: "string option"

type_synonym saved_layouts_config = "(string \<times> project_layouts) list"

definition layoutOwner :: "string \<Rightarrow> string option \<Rightarrow> string" where
  "layoutOwner name parentName = (case keep_truthy parentName of None \<Rightarrow> name | Some p \<Rightarrow> p)"

text \<open>\<open>SHELL_LABEL\<close>: \<open>/^Terminal(?: \d+)?$/\<close>.\<close>

definition shell_label :: "string \<Rightarrow> bool" where
  "shell_label l = (starts_with l ''Terminal'' \<and> fork_count (drop 8 l))"

definition provider_cli :: "agent_provider \<Rightarrow> ai_cli" where
  "provider_cli p = (case p of Claude \<Rightarrow> CliClaude | Codex \<Rightarrow> CliCodex)"

definition savedTab :: "bool \<Rightarrow> terminal_instance \<Rightarrow> saved_layout_tab option" where
  "savedTab win t =
     (if \<not> isTerminalTab t then None
      else
        let agent = (if agentEnded t then None
              else or_else (detectAICLI win (case startCmd t of None \<Rightarrow> resumeCmd t | Some c \<Rightarrow> Some c))
                     (map_option (\<lambda>r. provider_cli (ref_provider r)) (agentSession t)));
            action = keep_truthy (actionName t)
        in Some \<lparr>
          sl_label = (if action = None \<and> agent = None \<and> shell_label (t_label t) then ''Terminal'' else t_label t),
          sl_actionName = action,
          sl_agent = (if action = None then agent else None),
          sl_emoji = keep_truthy (emoji t),
          sl_color = keep_truthy (color t)\<rparr>)"

text \<open>The loop over a pane's tabs: \<open>i\<close> counts them, \<open>kept\<close> and \<open>active\<close> are its locals.\<close>

fun capture_tabs :: "bool \<Rightarrow> int \<Rightarrow> nat \<Rightarrow> terminal_instance list \<Rightarrow> saved_layout_tab list \<Rightarrow> nat
    \<Rightarrow> saved_layout_tab list \<times> nat" where
  "capture_tabs win activeTabIdx i [] kept active = (kept, active)"
| "capture_tabs win activeTabIdx i (t # ts) kept active =
     (case savedTab win t of
        None \<Rightarrow> capture_tabs win activeTabIdx (i + 1) ts kept active
      | Some tab \<Rightarrow>
          capture_tabs win activeTabIdx (i + 1) ts (kept @ [tab])
            (if int i \<le> activeTabIdx then length kept else active))"

fun captureLayout :: "bool \<Rightarrow> pane_node \<Rightarrow> saved_layout_node" where
  "captureLayout win (Leaf p) =
     (case capture_tabs win (p_activeTabIdx p) 0 (p_tabs p) [] 0 of
        (kept, active) \<Rightarrow> SLeaf kept (of_nat active))"
| "captureLayout win (Split d r a b) = SSplit d r (captureLayout win a) (captureLayout win b)"

fun countLayoutTabs :: "saved_layout_node \<Rightarrow> nat" where
  "countLayoutTabs (SLeaf tabs _) = length tabs"
| "countLayoutTabs (SSplit _ _ a b) = countLayoutTabs a + countLayoutTabs b"

fun countLayoutPanes :: "saved_layout_node \<Rightarrow> nat" where
  "countLayoutPanes (SLeaf _ _) = 1"
| "countLayoutPanes (SSplit _ _ a b) = countLayoutPanes a + countLayoutPanes b"

definition isShell :: "saved_layout_tab \<Rightarrow> bool" where
  "isShell tab = (\<not> truthy (sl_actionName tab) \<and> sl_agent tab = None \<and> sl_label tab = ''Terminal'')"

definition shell_tab :: saved_layout_tab where
  "shell_tab = \<lparr>sl_label = ''Terminal'', sl_actionName = None, sl_agent = None, sl_emoji = None, sl_color = None\<rparr>"

text \<open>The set \<open>used\<close> and the flag \<open>first\<close> are the state the visit threads.\<close>

fun prepare_tabs :: "saved_layout_tab list \<Rightarrow> string list \<Rightarrow> saved_layout_tab list \<times> string list" where
  "prepare_tabs [] used = ([], used)"
| "prepare_tabs (tab # tabs) used =
     (let label = (if isShell tab then nextTerminalLabel used else disambiguateLabelAgainst (sl_label tab) used);
          used = set_add label used
      in case prepare_tabs tabs used of (rest, used) \<Rightarrow> (tab\<lparr>sl_label := label\<rparr> # rest, used))"

fun prepare_visit :: "bool \<Rightarrow> saved_layout_node \<Rightarrow> string list \<times> bool \<Rightarrow> saved_layout_node \<times> string list \<times> bool" where
  "prepare_visit firstMayBeEmpty (SSplit d r a b) s =
     (case prepare_visit firstMayBeEmpty a s of (a', s) \<Rightarrow>
        (case prepare_visit firstMayBeEmpty b s of (b', s) \<Rightarrow> (SSplit d r a' b', s)))"
| "prepare_visit firstMayBeEmpty (SLeaf tabs active) (used, first) =
     (let tabs = (if tabs = [] \<and> \<not> (first \<and> firstMayBeEmpty) then [shell_tab] else tabs)
      in case prepare_tabs tabs used of (tabs, used) \<Rightarrow> (SLeaf tabs active, used, False))"

definition prepareLayout :: "saved_layout_node \<Rightarrow> string list \<Rightarrow> bool \<Rightarrow> saved_layout_node" where
  "prepareLayout rt usedLabels firstMayBeEmpty =
     fst (prepare_visit firstMayBeEmpty rt (to_set usedLabels, True))"

definition mergeOpenTabs :: "pane_node option \<Rightarrow> pane_node \<Rightarrow> pane_node" where
  "mergeOpenTabs current built =
     (case current of
        None \<Rightarrow> built
      | Some cur \<Rightarrow>
          let panes = collectPanes cur;
              open_tabs = concat (map p_tabs panes);
              service = (case panes of [] \<Rightarrow> None | p # _ \<Rightarrow> p_activeServiceName p)
          in mapPane built (firstPaneId built) (\<lambda>p. p\<lparr>
               p_tabs := open_tabs @ p_tabs p,
               p_activeTabIdx := (if p_tabs p \<noteq> []
                  then int (length open_tabs) + clampIdx (Some (p_activeTabIdx p)) (length (p_tabs p)) else 0),
               p_activeServiceName := (if p_tabs p \<noteq> [] then None else service)\<rparr>))"

section \<open>The settings\<close>

definition updateProject ::
  "saved_layouts_config option \<Rightarrow> string \<Rightarrow> (project_layouts \<Rightarrow> project_layouts) \<Rightarrow> saved_layouts_config option" where
  "updateProject config owner f =
     (let next = (case config of None \<Rightarrow> [] | Some c \<Rightarrow> c);
          updated = f (case map_of next owner of None \<Rightarrow> \<lparr>pl_layouts = [], pl_defaultId = None\<rparr> | Some p \<Rightarrow> p);
          next = (if pl_layouts updated = [] then AList.delete owner next else AList.update owner updated next)
      in if next \<noteq> [] then Some next else None)"

definition withSavedLayout ::
  "saved_layouts_config option \<Rightarrow> string \<Rightarrow> saved_layout \<Rightarrow> saved_layouts_config option" where
  "withSavedLayout config owner lay = updateProject config owner (\<lambda>p. p\<lparr>pl_layouts :=
     (if \<exists>l\<in>set (pl_layouts p). lay_id l = lay_id lay
      then map (\<lambda>l. if lay_id l = lay_id lay then lay else l) (pl_layouts p)
      else pl_layouts p @ [lay])\<rparr>)"

definition withoutSavedLayout ::
  "saved_layouts_config option \<Rightarrow> string \<Rightarrow> string \<Rightarrow> saved_layouts_config option" where
  "withoutSavedLayout config owner i = updateProject config owner (\<lambda>p. \<lparr>
     pl_layouts = filter (\<lambda>l. lay_id l \<noteq> i) (pl_layouts p),
     pl_defaultId = (if pl_defaultId p = Some i then None else pl_defaultId p)\<rparr>)"

definition withDefaultLayout ::
  "saved_layouts_config option \<Rightarrow> string \<Rightarrow> string option \<Rightarrow> saved_layouts_config option" where
  "withDefaultLayout config owner i = updateProject config owner (\<lambda>p. p\<lparr>pl_defaultId := i\<rparr>)"

section \<open>Reading the setting\<close>

definition normalizeTab :: "bool \<Rightarrow> json \<Rightarrow> saved_layout_tab option" where
  "normalizeTab win raw =
     (case jfield raw ''label'' of
        Some (JStr label) \<Rightarrow> Some \<lparr>
          sl_label = label,
          sl_actionName = optString (jfield raw ''actionName''),
          sl_agent = (case jfield raw ''agent'' of Some (JStr a) \<Rightarrow> detectAICLI win (Some a) | _ \<Rightarrow> None),
          sl_emoji = optString (jfield raw ''emoji''),
          sl_color = optString (jfield raw ''color'')\<rparr>
      | _ \<Rightarrow> None)"

lemma map_of_size: "map_of fs k = Some v \<Longrightarrow> size v < Suc (size_list (size_prod (\<lambda>_. 0) size) fs)"
  by (induction fs) (auto split: if_splits)

lemma jfield_size: "jfield raw k = Some v \<Longrightarrow> size v < size raw"
  by (cases raw) (auto dest: map_of_size)

text \<open>\<open>Math.min(0.95, Math.max(0.05, ratio))\<close>.\<close>

definition saved_ratio :: "json option \<Rightarrow> rat" where
  "saved_ratio v = (case v of Some (JNum r) \<Rightarrow> min (95 / 100) (max (5 / 100) r) | _ \<Rightarrow> 1 / 2)"

definition saved_direction :: "json option \<Rightarrow> split_direction" where
  "saved_direction v = (if v = Some (JStr ''col'') then Col else Row)"

function normalizeNode :: "bool \<Rightarrow> json \<Rightarrow> saved_layout_node option" where
  "normalizeNode win raw =
     (if jfield raw ''kind'' = Some (JStr ''leaf'') then
        (let tabs = (case jfield raw ''tabs'' of
                       Some (JArr rs) \<Rightarrow> List.map_filter (normalizeTab win) rs | _ \<Rightarrow> []);
             idx = (case jfield raw ''activeTabIdx'' of Some (JNum n) \<Rightarrow> n | _ \<Rightarrow> 0)
         in Some (SLeaf tabs (clampIdx (Some idx) (length tabs))))
      else if jfield raw ''kind'' \<noteq> Some (JStr ''split'') then None
      else
        let a = (case jfield raw ''a'' of None \<Rightarrow> None | Some v \<Rightarrow> normalizeNode win v);
            b = (case jfield raw ''b'' of None \<Rightarrow> None | Some v \<Rightarrow> normalizeNode win v)
        in case (a, b) of
             (Some a, Some b) \<Rightarrow>
               Some (SSplit (saved_direction (jfield raw ''direction'')) (saved_ratio (jfield raw ''ratio'')) a b)
           | _ \<Rightarrow> or_else a b)"
  by pat_completeness auto
termination
  by (relation "measure (\<lambda>(win, raw). size raw)") (auto dest: jfield_size)

declare normalizeNode.simps [simp del]

definition normalize_layout :: "bool \<Rightarrow> json \<Rightarrow> saved_layout option" where
  "normalize_layout win l =
     (case (jfield l ''id'', jfield l ''name'') of
        (Some (JStr i), Some (JStr name)) \<Rightarrow>
          (case jfield l ''root'' of
             None \<Rightarrow> None
           | Some r \<Rightarrow> map_option (\<lambda>r. \<lparr>lay_id = i, lay_name = name, lay_root = r\<rparr>) (normalizeNode win r))
      | _ \<Rightarrow> None)"

definition normalize_owner :: "bool \<Rightarrow> json \<Rightarrow> project_layouts option" where
  "normalize_owner win value =
     (case jfield value ''layouts'' of
        Some (JArr ls) \<Rightarrow>
          (let layouts = List.map_filter (normalize_layout win) ls
           in if layouts = [] then None
              else Some \<lparr>pl_layouts = layouts,
                pl_defaultId = (case jfield value ''defaultId'' of
                   Some (JStr d) \<Rightarrow> if (\<exists>l\<in>set layouts. lay_id l = d) \<and> d \<noteq> [] then Some d else None
                 | _ \<Rightarrow> None)\<rparr>)
      | _ \<Rightarrow> None)"

definition normalizeSavedLayouts :: "bool \<Rightarrow> json \<Rightarrow> saved_layouts_config option" where
  "normalizeSavedLayouts win raw =
     (case raw of
        JObj entries \<Rightarrow>
          (let out = List.map_filter (\<lambda>(owner, value). map_option (Pair owner) (normalize_owner win value)) entries
           in if out \<noteq> [] then Some out else None)
      | _ \<Rightarrow> None)"

section \<open>Capturing and preparing\<close>

fun layout_panes :: "saved_layout_node \<Rightarrow> saved_layout_tab list list" where
  "layout_panes (SLeaf tabs _) = [tabs]"
| "layout_panes (SSplit _ _ a b) = layout_panes a @ layout_panes b"

abbreviation layout_labels :: "saved_layout_node \<Rightarrow> string list" where
  "layout_labels node \<equiv> map sl_label (concat (layout_panes node))"

lemma layout_panes_nonempty [simp]: "layout_panes node \<noteq> []"
  by (induction node) auto

lemma countLayout_panes:
  "countLayoutPanes node = length (layout_panes node)"
  "countLayoutTabs node = length (concat (layout_panes node))"
  by (induction node) auto

lemma savedTab_terminal: "savedTab win t = None \<longleftrightarrow> \<not> isTerminalTab t"
  by (simp add: savedTab_def Let_def)

lemma capture_tabs_spec:
  "capture_tabs win act i ts kept active = (kept', active') \<Longrightarrow>
   kept' = kept @ List.map_filter (savedTab win) ts \<and>
   (active < length kept \<or> (kept = [] \<and> active = 0) \<longrightarrow> active' < length kept' \<or> (kept' = [] \<and> active' = 0))"
proof (induction ts arbitrary: i kept active)
  case Nil
  then show ?case by (simp add: map_filter_simps)
next
  case (Cons t ts)
  show ?case
  proof (cases "savedTab win t")
    case None
    with Cons show ?thesis by (simp add: map_filter_simps)
  next
    case (Some tab)
    with Cons.prems Cons.IH [of "i + 1" "kept @ [tab]" "if int i \<le> act then length kept else active"]
    show ?thesis by (auto simp: map_filter_simps split: if_splits)
  qed
qed

lemma length_map_filter_savedTab:
  "length (List.map_filter (savedTab win) ts) = length (filter isTerminalTab ts)"
proof (induction ts)
  case (Cons t ts)
  then show ?case by (cases "savedTab win t") (use savedTab_terminal [of win t] in \<open>auto simp: map_filter_simps\<close>)
qed (simp add: map_filter_simps)

text \<open>An active index points at a kept tab, or is 0 in a pane that kept none.\<close>

fun saved_ok :: "saved_layout_node \<Rightarrow> bool" where
  "saved_ok (SLeaf tabs active) = (0 \<le> active \<and> (active < of_nat (length tabs) \<or> (tabs = [] \<and> active = 0)))"
| "saved_ok (SSplit d r a b) = (ratio_ok r \<and> saved_ok a \<and> saved_ok b)"

lemma captureLayout_counts:
  "countLayoutPanes (captureLayout win node) = length (collectPanes node) \<and>
   countLayoutTabs (captureLayout win node) = length (filter isTerminalTab (collectTerminals node)) \<and>
   (ratios_ok node \<longrightarrow> saved_ok (captureLayout win node))"
proof (induction node)
  case (Leaf p)
  obtain kept active where c: "capture_tabs win (p_activeTabIdx p) 0 (p_tabs p) [] 0 = (kept, active)"
    by fastforce
  from capture_tabs_spec [OF c] show ?case by (auto simp: c length_map_filter_savedTab)
qed auto

lemma prepare_tabs_spec:
  "prepare_tabs tabs used = (tabs', used') \<Longrightarrow>
   length tabs' = length tabs \<and> set used' = set used \<union> set (map sl_label tabs') \<and>
   distinct (map sl_label tabs') \<and> set used \<inter> set (map sl_label tabs') = {}"
proof (induction tabs arbitrary: used tabs' used')
  case Nil
  then show ?case by simp
next
  case (Cons tab tabs)
  define label where
    "label = (if isShell tab then nextTerminalLabel used else disambiguateLabelAgainst (sl_label tab) used)"
  obtain rest used'' where r: "prepare_tabs tabs (set_add label used) = (rest, used'')" by fastforce
  have "label \<notin> set used" by (simp add: label_def)
  moreover from Cons.prems r have "tabs' = tab\<lparr>sl_label := label\<rparr> # rest" "used' = used''"
    by (auto simp: label_def [symmetric] Let_def)
  moreover note Cons.IH [OF r]
  ultimately show ?case by simp
qed

lemma prepare_visit_spec:
  "prepare_visit e node (used, first) = (node', used', first') \<Longrightarrow>
   \<not> first' \<and> length (layout_panes node') = length (layout_panes node) \<and>
   set used' = set used \<union> set (layout_labels node') \<and>
   distinct (layout_labels node') \<and> set used \<inter> set (layout_labels node') = {} \<and>
   (\<forall>p\<in>set (if first \<and> e then tl (layout_panes node') else layout_panes node'). p \<noteq> [])"
proof (induction e node "(used, first)" arbitrary: used first node' used' first' rule: prepare_visit.induct)
  case (1 e d r a b)
  obtain a' u1 f1 where a: "prepare_visit e a (used, first) = (a', u1, f1)"
    by (metis prod_cases3)
  obtain b' u2 f2 where b: "prepare_visit e b (u1, f1) = (b', u2, f2)"
    by (metis prod_cases3)
  from 1(3) a b have res: "node' = SSplit d r a' b'" "used' = u2" "first' = f2" by auto
  have "(a', u1, f1) = prepare_visit e a (used, first)" "(u1, f1) = (u1, f1)" by (simp_all add: a)
  note A = 1(1) [OF a] and B = 1(2) [OF this(1) b]
  have tl_app: "set (tl (xs @ ys)) = set (tl xs) \<union> set ys" if "xs \<noteq> []" for xs ys :: "saved_layout_tab list list"
    using that by (cases xs) auto
  have all: "\<forall>p\<in>set (if first \<and> e then tl (layout_panes node') else layout_panes node'). p \<noteq> []"
  proof (cases "first \<and> e")
    case True
    then show ?thesis using A B by (simp add: res tl_app ball_Un)
  next
    case False
    then show ?thesis using A B unfolding if_not_P [OF False] by (simp add: res ball_Un)
  qed
  have "set used \<inter> set (layout_labels a') = {}" "distinct (layout_labels a')"
    "set u1 = set used \<union> set (layout_labels a')" using A by blast+
  moreover have "set u1 \<inter> set (layout_labels b') = {}" "distinct (layout_labels b')"
    "set u2 = set u1 \<union> set (layout_labels b')" using B by blast+
  moreover have "layout_labels node' = layout_labels a' @ layout_labels b'" by (simp add: res)
  ultimately have "distinct (layout_labels node')" "set used \<inter> set (layout_labels node') = {}"
    "set used' = set used \<union> set (layout_labels node')"
    unfolding res(2) by (simp_all only: distinct_append set_append Int_Un_distrib Int_Un_distrib2) blast+
  then show ?case using A B all by (simp add: res)
next
  case (2 e tabs active used first)
  define ts where "ts = (if tabs = [] \<and> \<not> (first \<and> e) then [shell_tab] else tabs)"
  obtain ts' u1 where t: "prepare_tabs ts used = (ts', u1)" by fastforce
  from 2 t have res: "node' = SLeaf ts' active" "used' = u1" "\<not> first'"
    by (auto simp: ts_def Let_def)
  have "ts' \<noteq> []" if "\<not> (first \<and> e)"
    using prepare_tabs_spec [OF t] that by (cases ts) (auto simp: ts_def split: if_splits)
  then show ?case using prepare_tabs_spec [OF t] by (auto simp: res)
qed

lemma mapPane_first:
  "distinct (pane_ids built) \<Longrightarrow>
   collectPanes (mapPane built (firstPaneId built) f) = f (hd (collectPanes built)) # tl (collectPanes built)"
proof -
  assume d: "distinct (pane_ids built)"
  obtain q qs where q: "collectPanes built = q # qs" by (cases "collectPanes built") auto
  have "firstPaneId built = p_id q" by (simp add: firstPaneId_hd q)
  moreover have "p_id p \<noteq> p_id q" if "p \<in> set qs" for p
  proof -
    have "p_id q \<notin> p_id ` set qs" using d by (simp add: q)
    moreover have "p_id p \<in> p_id ` set qs" using that by simp
    ultimately show ?thesis by metis
  qed
  then have "map (\<lambda>p. if p_id p = p_id q then f p else p) qs = qs" by (simp add: map_idI)
  ultimately show ?thesis by (simp add: collectPanes_mapPane q)
qed

section \<open>Settings\<close>

definition config_ok :: "saved_layouts_config option \<Rightarrow> bool" where
  "config_ok config \<longleftrightarrow> (case config of None \<Rightarrow> True
     | Some c \<Rightarrow> c \<noteq> [] \<and> distinct (map fst c) \<and> (\<forall>(owner, p)\<in>set c. pl_layouts p \<noteq> []))"

definition layouts_of :: "saved_layouts_config option \<Rightarrow> string \<Rightarrow> saved_layout list" where
  "layouts_of config owner =
     (case config of None \<Rightarrow> []
      | Some c \<Rightarrow> (case map_of c owner of None \<Rightarrow> [] | Some p \<Rightarrow> pl_layouts p))"

lemma updateProject_ok: "config_ok config \<Longrightarrow> config_ok (updateProject config owner f)"
proof -
  assume ok: "config_ok config"
  define next' where "next' = (case config of None \<Rightarrow> [] | Some c \<Rightarrow> c)"
  have d: "distinct (map fst next')" and ne: "\<forall>(o', p)\<in>set next'. pl_layouts p \<noteq> []"
    using ok by (auto simp: config_ok_def next'_def split: option.splits)
  have "set (AList.update owner u next') \<subseteq> insert (owner, u) (set next')" for u
    by (induction next') auto
  then have up: "\<forall>(o', p)\<in>set (AList.update owner u next'). pl_layouts p \<noteq> []"
    if "pl_layouts u \<noteq> []" for u using ne that by fastforce
  have "config_ok (if m \<noteq> [] then Some m else None)"
    if "m = (if pl_layouts u = [] then AList.delete owner next' else AList.update owner u next')" for m u
    using that d ne up [of u]
    by (auto simp: config_ok_def distinct_update AList.delete_eq distinct_map_filter)
  then show ?thesis by (simp add: updateProject_def Let_def next'_def [symmetric])
qed

lemma layouts_of_updateProject:
  "layouts_of (updateProject config owner f) other =
   (if other = owner
    then pl_layouts (f (case (case config of None \<Rightarrow> None | Some c \<Rightarrow> map_of c owner) of
        None \<Rightarrow> \<lparr>pl_layouts = [], pl_defaultId = None\<rparr> | Some p \<Rightarrow> p))
    else layouts_of config other)"
proof -
  define next' where "next' = (case config of None \<Rightarrow> [] | Some c \<Rightarrow> c)"
  define u where "u = f (case map_of next' owner of None \<Rightarrow> \<lparr>pl_layouts = [], pl_defaultId = None\<rparr> | Some p \<Rightarrow> p)"
  define m where "m = (if pl_layouts u = [] then AList.delete owner next' else AList.update owner u next')"
  have u: "u = f (case (case config of None \<Rightarrow> None | Some c \<Rightarrow> map_of c owner) of
      None \<Rightarrow> \<lparr>pl_layouts = [], pl_defaultId = None\<rparr> | Some p \<Rightarrow> p)"
    by (simp add: u_def next'_def split: option.splits)
  have "updateProject config owner f = (if m \<noteq> [] then Some m else None)"
    by (simp add: updateProject_def Let_def next'_def [symmetric] u_def [symmetric] m_def)
  then have "layouts_of (updateProject config owner f) other =
      (case map_of m other of None \<Rightarrow> [] | Some p \<Rightarrow> pl_layouts p)"
    by (simp add: layouts_of_def)
  moreover have "map_of m = (map_of next')(owner := if pl_layouts u = [] then None else Some u)"
    by (simp add: m_def jm.get_put jm.get_del)
  moreover have "layouts_of config other = (case map_of next' other of None \<Rightarrow> [] | Some p \<Rightarrow> pl_layouts p)"
    by (simp add: layouts_of_def next'_def split: option.splits)
  ultimately show ?thesis by (simp add: u [symmetric])
qed

section \<open>Properties\<close>

text \<open>Capturing keeps every pane, keeps exactly the terminal tabs, and the index it
  stores selects a kept tab.\<close>

theorem captureLayout_faithful:
  "countLayoutPanes (captureLayout win node) = length (collectPanes node) \<and>
   countLayoutTabs (captureLayout win node) = length (filter isTerminalTab (collectTerminals node)) \<and>
   (ratios_ok node \<longrightarrow> saved_ok (captureLayout win node))"
  by (rule captureLayout_counts)

theorem captureLayout_faithful_witness:
  "ratios_ok demo_tree \<and> saved_ok (captureLayout False demo_tree)"
  using captureLayout_faithful [of False demo_tree] demo_tree_wf by (simp add: wf_tree_def)

text \<open>A prepared layout has the same panes, every label in it is new and used once,
  and no pane is left empty, except the first when open tabs are about to move into it.\<close>

theorem prepareLayout_labels:
  "length (layout_panes (prepareLayout rt used e)) = length (layout_panes rt) \<and>
   distinct (layout_labels (prepareLayout rt used e)) \<and>
   set used \<inter> set (layout_labels (prepareLayout rt used e)) = {} \<and>
   (\<forall>p\<in>set (if e then tl (layout_panes (prepareLayout rt used e)) else layout_panes (prepareLayout rt used e)). p \<noteq> [])"
proof -
  obtain n u f where p: "prepare_visit e rt (to_set used, True) = (n, u, f)" by (metis prod_cases3)
  then have n: "prepareLayout rt used e = n" by (simp add: prepareLayout_def)
  show ?thesis unfolding n using prepare_visit_spec [OF p] by simp
qed

theorem prepareLayout_labels_witness:
  "layout_panes (prepareLayout (SLeaf [] 0) [''Terminal 1''] False) \<noteq> [[]]"
  using prepareLayout_labels [of "SLeaf [] 0" "[''Terminal 1'']" False] by fastforce

text \<open>Opening a layout closes nothing: the tabs already open come first, in order,
  followed by the layout's own.\<close>

theorem mergeOpenTabs_keeps_all:
  assumes "distinct (pane_ids built)"
  shows "collectTerminals (mergeOpenTabs (Some cur) built) = collectTerminals cur @ collectTerminals built"
proof -
  obtain q qs where q: "collectPanes built = q # qs" by (cases "collectPanes built") auto
  have "concat (map p_tabs (collectPanes cur)) = collectTerminals cur"
    by (simp add: collectTerminals_panes)
  then show ?thesis
    by (simp add: mergeOpenTabs_def Let_def collectTerminals_panes [of "mapPane _ _ _"]
        mapPane_first [OF assms] q collectTerminals_panes [of built])
qed

theorem mergeOpenTabs_keeps_all_witness:
  "collectTerminals (mergeOpenTabs (Some demo_tree) demo_tree) =
     collectTerminals demo_tree @ collectTerminals demo_tree"
  using mergeOpenTabs_keeps_all [of demo_tree demo_tree] demo_tree_wf by (simp add: wf_tree_def)

lemma clampIdx_saved: "saved_ok (SLeaf tabs (clampIdx (Some idx) (length tabs)))"
proof (cases "tabs = []")
  case False
  then show ?thesis using clampIdx_bounds [of "length tabs" "Some idx"] by simp
qed (simp add: clampIdx_def)

text \<open>Whatever is on disk, a layout read from the settings is well formed: ratios in
  bounds and every active index inside its pane.\<close>

theorem normalizeNode_ok:
  "case normalizeNode win raw of None \<Rightarrow> True | Some node \<Rightarrow> saved_ok node"
proof (induction win raw rule: normalizeNode.induct)
  case (1 win raw)
  show ?case
  proof (cases "jfield raw ''kind'' = Some (JStr ''split'')")
    case True
    have r: "ratio_ok (saved_ratio v)" for v
      by (auto simp: saved_ratio_def ratio_ok_def split: option.splits json.splits)
    define a where "a = (case jfield raw ''a'' of None \<Rightarrow> None | Some v \<Rightarrow> normalizeNode win v)"
    define b where "b = (case jfield raw ''b'' of None \<Rightarrow> None | Some v \<Rightarrow> normalizeNode win v)"
    have "case a of None \<Rightarrow> True | Some node \<Rightarrow> saved_ok node"
      using 1(1) True by (cases "jfield raw ''a''") (auto simp: a_def)
    moreover have "case b of None \<Rightarrow> True | Some node \<Rightarrow> saved_ok node"
      using 1(2) True by (cases "jfield raw ''b''") (auto simp: b_def)
    moreover have "normalizeNode win raw = (case (a, b) of (Some a, Some b) \<Rightarrow>
        Some (SSplit (saved_direction (jfield raw ''direction'')) (saved_ratio (jfield raw ''ratio'')) a b)
      | _ \<Rightarrow> or_else a b)"
      unfolding a_def b_def using True by (subst normalizeNode.simps) (simp only: Let_def, simp)
    ultimately show ?thesis using r by (cases a; cases b) simp_all
  next
    case False
    then show ?thesis
      using clampIdx_saved by (subst normalizeNode.simps) (simp add: Let_def del: saved_ok.simps)
  qed
qed

text \<open>The settings never hold a project without layouts, a saved layout is found
  under its project, removing it takes exactly it away, and other projects are untouched.\<close>

theorem saved_layouts_settings:
  assumes "config_ok config"
  shows "config_ok (withSavedLayout config owner lay) \<and> config_ok (withoutSavedLayout config owner i) \<and>
    config_ok (withDefaultLayout config owner d) \<and>
    lay \<in> set (layouts_of (withSavedLayout config owner lay) owner) \<and>
    layouts_of (withoutSavedLayout config owner i) owner = filter (\<lambda>l. lay_id l \<noteq> i) (layouts_of config owner) \<and>
    (\<forall>other. other \<noteq> owner \<longrightarrow>
       layouts_of (withSavedLayout config owner lay) other = layouts_of config other \<and>
       layouts_of (withoutSavedLayout config owner i) other = layouts_of config other)"
proof -
  have "layouts_of config owner = pl_layouts (case (case config of None \<Rightarrow> None | Some c \<Rightarrow> map_of c owner) of
      None \<Rightarrow> \<lparr>pl_layouts = [], pl_defaultId = None\<rparr> | Some p \<Rightarrow> p)"
    by (simp add: layouts_of_def split: option.splits)
  then show ?thesis
    using assms updateProject_ok
    by (auto simp: withSavedLayout_def withoutSavedLayout_def withDefaultLayout_def layouts_of_updateProject)
qed

theorem saved_layouts_settings_witness:
  "config_ok (withoutSavedLayout (Some [(''app'', \<lparr>pl_layouts = [\<lparr>lay_id = ''1'', lay_name = ''n'', lay_root = SLeaf [] 0\<rparr>],
     pl_defaultId = None\<rparr>)]) ''app'' ''1'')"
  by (rule saved_layouts_settings [THEN conjunct2, THEN conjunct1]) (simp add: config_ok_def)

end
