(* ===== verification/PersistedTree.thy ===== *)
theory PersistedTree
  imports SavedLayouts PeerMarkers "HOL-Library.Sublist"
begin

text \<open>
  What is written to disk of a project's panes, and how it comes back:
  \<open>desktop/frontend/src/terminals.ts\<close> (the persisted tree, tabs parked in it, the resume
  history) and \<open>desktop/frontend/src/hooks/terminals/persistedTree.ts\<close> (a tree with live
  terminals turned into a persisted one, and launched again from it).

  The bridge to the backend is a parameter, the record \<open>restore_env\<close>: what it answers when
  asked for a terminal and what it returns for each launch, by the launch's number, so that
  equal tabs may get different terminals. Launches run in parallel; a leaf files its results in
  one pass once all of them have settled, so only the order of the leaves' blocks in the shared
  lists depends on timing. The model files them in reading order.
\<close>

section \<open>The persisted tree\<close>

record persisted_tab =
  pt_label :: string
  pt_sessionTitle :: "string option"
  pt_sessionTitleId :: "string option"
  pt_sessionTitleSource :: "title_source option"
  pt_historyKey :: "string option"
  pt_memory :: "terminal_memory_ref option"
  pt_startCmd :: "string option"
  pt_resumeCmd :: "string option"
  pt_agentEnded :: bool
  pt_actionName :: "string option"
  pt_pinned :: bool
  pt_emoji :: "string option"
  pt_color :: "string option"
  pt_id :: "string option"
  pt_fromHost :: bool
  pt_restoreHere :: bool
  pt_forkOf :: "tab_fork option"

text \<open>\<open>tabs\<close>, \<open>activeTabIdx\<close> and \<open>activeServiceName\<close> of a leaf; \<open>direction\<close>, \<open>ratio\<close>,
  \<open>a\<close> and \<open>b\<close> of a split.\<close>

datatype persisted_node =
    PLeaf "persisted_tab list option" "int option" "string option"
  | PSplit "string option" "rat option" "persisted_node option" "persisted_node option"

record persisted_history_entry =
  h_label :: string
  h_sessionTitle :: "string option"
  h_sessionTitleId :: "string option"
  h_sessionTitleSource :: "title_source option"
  h_startCmd :: "string option"
  h_resumeCmd :: string
  h_actionName :: "string option"
  h_closedAt :: int

record persisted_terminal_entry =
  e_label :: string
  e_startCmd :: "string option"
  e_resumeCmd :: "string option"

record project_terminal_state =
  ps_detailView :: string
  ps_activeTab :: "string option"
  ps_panes :: "persisted_node option"
  ps_focusedPanePath :: "nat list option"
  ps_terminals :: "persisted_terminal_entry list option"
  ps_history :: "persisted_history_entry list option"
  ps_hiddenSessions :: "string list option"

definition TERMINAL_HISTORY_CAP :: nat where "TERMINAL_HISTORY_CAP = 20"
definition HIDDEN_SESSIONS_CAP :: nat where "HIDDEN_SESSIONS_CAP = 500"

text \<open>The module's \<open>cached.projects\<close>, in entry order.\<close>

type_synonym terminals_config = "(string \<times> project_terminal_state) list"

definition default_terminals :: project_terminal_state where
  "default_terminals = \<lparr>ps_detailView = ''terminal'', ps_activeTab = None, ps_panes = None,
     ps_focusedPanePath = None, ps_terminals = None, ps_history = None, ps_hiddenSessions = None\<rparr>"

definition getProjectTerminals :: "terminals_config \<Rightarrow> string \<Rightarrow> project_terminal_state" where
  "getProjectTerminals cached projectName =
     (case map_of cached projectName of None \<Rightarrow> default_terminals | Some s \<Rightarrow> s)"

fun countPersistedTabs :: "persisted_node option \<Rightarrow> nat" where
  "countPersistedTabs None = 0"
| "countPersistedTabs (Some (PLeaf tabs _ _)) = (case tabs of None \<Rightarrow> 0 | Some ts \<Rightarrow> length ts)"
| "countPersistedTabs (Some (PSplit _ _ a b)) = countPersistedTabs a + countPersistedTabs b"

fun collectPersistedTabs :: "persisted_node option \<Rightarrow> persisted_tab list" where
  "collectPersistedTabs None = []"
| "collectPersistedTabs (Some (PLeaf tabs _ _)) = (case tabs of None \<Rightarrow> [] | Some ts \<Rightarrow> ts)"
| "collectPersistedTabs (Some (PSplit _ _ a b)) = collectPersistedTabs a @ collectPersistedTabs b"

text \<open>\<open>saveProjectTerminals\<close> and \<open>updateProjectTerminalsCache\<close>: the change of the cache.\<close>

definition updateProjectTerminalsCache ::
  "terminals_config \<Rightarrow> string \<Rightarrow> project_terminal_state \<Rightarrow> terminals_config" where
  "updateProjectTerminalsCache cached projectName state = AList.update projectName state cached"

definition forgetProjectTerminals :: "terminals_config \<Rightarrow> string \<Rightarrow> terminals_config" where
  "forgetProjectTerminals cached projectName = AList.delete projectName cached"

fun appendTabToPersistedTree :: "persisted_node option \<Rightarrow> persisted_tab \<Rightarrow> persisted_node" where
  "appendTabToPersistedTree None tab = PLeaf (Some [tab]) (Some 0) None"
| "appendTabToPersistedTree (Some (PLeaf tabs active service)) tab =
     PLeaf (Some ((case tabs of None \<Rightarrow> [] | Some ts \<Rightarrow> ts) @ [tab])) active service"
| "appendTabToPersistedTree (Some (PSplit d r a b)) tab =
     PSplit d r (Some (appendTabToPersistedTree a tab)) b"

text \<open>The number of a generic label: the group of \<open>/^Terminal (\d+)$/\<close>.\<close>

definition terminal_number :: "string \<Rightarrow> nat option" where
  "terminal_number l =
     (let ds = drop 9 l
      in if starts_with l ''Terminal '' \<and> ds \<noteq> [] \<and> list_all is_digit ds then Some (str_nat ds) else None)"

function least_unused :: "nat list \<Rightarrow> nat \<Rightarrow> nat" where
  "least_unused used n = (if n \<in> set used then least_unused used (Suc n) else n)"
  by pat_completeness auto
termination
proof (relation "measure (\<lambda>(used, n). card {k \<in> set used. n \<le> k})")
  fix used :: "nat list" and n
  assume "n \<in> set used"
  then have "n \<in> {k \<in> set used. n \<le> k}" "n \<notin> {k \<in> set used. Suc n \<le> k}" by simp_all
  moreover have "{k \<in> set used. Suc n \<le> k} \<subseteq> {k \<in> set used. n \<le> k}" by auto
  ultimately have "{k \<in> set used. Suc n \<le> k} \<subset> {k \<in> set used. n \<le> k}" by blast
  then have "card {k \<in> set used. Suc n \<le> k} < card {k \<in> set used. n \<le> k}"
    by (intro psubset_card_mono) simp_all
  then show "((used, Suc n), used, n) \<in> measure (\<lambda>(used, n). card {k \<in> set used. n \<le> k})"
    by simp
qed simp

declare least_unused.simps [simp del]

definition pickParkedTerminalLabel :: "persisted_tab list \<Rightarrow> string" where
  "pickParkedTerminalLabel tabs =
     ''Terminal '' @ nat_str (least_unused (List.map_filter (\<lambda>t. terminal_number (pt_label t)) tabs) 1)"

definition appendPersistedTab :: "terminals_config \<Rightarrow> string \<Rightarrow> persisted_tab \<Rightarrow> terminals_config" where
  "appendPersistedTab cached projectName tab =
     (let state = getProjectTerminals cached projectName;
          existing = collectPersistedTabs (ps_panes state);
          label = (if pt_label tab \<noteq> [] then disambiguateLabelAgainst (pt_label tab) (map pt_label existing)
                   else pickParkedTerminalLabel existing);
          panes = appendTabToPersistedTree (ps_panes state) (tab\<lparr>pt_label := label\<rparr>)
      in updateProjectTerminalsCache cached projectName (state\<lparr>ps_panes := Some panes, ps_terminals := None\<rparr>))"

definition remove_nth :: "nat \<Rightarrow> 'a list \<Rightarrow> 'a list" where
  "remove_nth n xs = take n xs @ drop (Suc n) xs"

fun removeTabByIdFromTree :: "persisted_node \<Rightarrow> string \<Rightarrow> persisted_node option \<times> bool" where
  "removeTabByIdFromTree (PLeaf tabs0 active service) i =
     (let tabs = (case tabs0 of None \<Rightarrow> [] | Some ts \<Rightarrow> ts);
          idx = findIndex (\<lambda>t. pt_id t = Some i) tabs
      in if idx = -1 then (Some (PLeaf tabs0 active service), False)
         else let nextTabs = remove_nth (nat idx) tabs
              in if nextTabs = [] \<and> \<not> truthy service then (None, True)
                 else (Some (PLeaf (Some nextTabs)
                   (Some (max 0 (min (case active of None \<Rightarrow> 0 | Some x \<Rightarrow> x) (int (length nextTabs) - 1)))) service), True))"
| "removeTabByIdFromTree (PSplit d r a b) i =
     (case (case a of Some n \<Rightarrow> removeTabByIdFromTree n i | None \<Rightarrow> (None, False)) of
        (na, True) \<Rightarrow> ((case na of Some n \<Rightarrow> Some (PSplit d r (Some n) b) | None \<Rightarrow> b), True)
      | (_, False) \<Rightarrow>
          (case (case b of Some n \<Rightarrow> removeTabByIdFromTree n i | None \<Rightarrow> (None, False)) of
             (nb, True) \<Rightarrow> ((case nb of Some n \<Rightarrow> Some (PSplit d r a (Some n)) | None \<Rightarrow> a), True)
           | (_, False) \<Rightarrow> (Some (PSplit d r a b), False)))"

text \<open>The loop over \<open>Object.entries(cached.projects)\<close>.\<close>

fun remove_in_projects ::
  "terminals_config \<Rightarrow> terminals_config \<Rightarrow> string \<Rightarrow> terminals_config \<times> bool" where
  "remove_in_projects cached [] i = (cached, False)"
| "remove_in_projects cached ((projectName, state) # rest) i =
     (case ps_panes state of
        None \<Rightarrow> remove_in_projects cached rest i
      | Some panes \<Rightarrow>
          (case removeTabByIdFromTree panes i of
             (node, True) \<Rightarrow> (updateProjectTerminalsCache cached projectName
               (state\<lparr>ps_panes := node, ps_terminals := None\<rparr>), True)
           | (_, False) \<Rightarrow> remove_in_projects cached rest i))"

definition removePersistedTabById :: "terminals_config \<Rightarrow> string \<Rightarrow> terminals_config \<times> bool" where
  "removePersistedTabById cached i = remove_in_projects cached cached i"

definition appendHistoryEntry ::
  "project_terminal_state \<Rightarrow> persisted_history_entry \<Rightarrow> project_terminal_state" where
  "appendHistoryEntry state entry =
     (let existing = (case ps_history state of None \<Rightarrow> [] | Some hs \<Rightarrow> hs);
          filtered = filter (\<lambda>h. h_resumeCmd h \<noteq> h_resumeCmd entry) existing
      in state\<lparr>ps_history := Some (take TERMINAL_HISTORY_CAP (entry # filtered))\<rparr>)"

definition removeHistoryEntry :: "project_terminal_state \<Rightarrow> string \<Rightarrow> project_terminal_state" where
  "removeHistoryEntry state cmd =
     (let existing = (case ps_history state of None \<Rightarrow> [] | Some hs \<Rightarrow> hs);
          next = filter (\<lambda>h. h_resumeCmd h \<noteq> cmd) existing
      in if length next = length existing then state else state\<lparr>ps_history := Some next\<rparr>)"

definition hideSession :: "project_terminal_state \<Rightarrow> string \<Rightarrow> project_terminal_state" where
  "hideSession state key =
     (let existing = (case ps_hiddenSessions state of None \<Rightarrow> [] | Some ks \<Rightarrow> ks);
          filtered = filter (\<lambda>k. k \<noteq> key) existing
      in state\<lparr>ps_hiddenSessions := Some (take HIDDEN_SESSIONS_CAP (key # filtered))\<rparr>)"

definition clearHiddenSessions :: "project_terminal_state \<Rightarrow> project_terminal_state" where
  "clearHiddenSessions state =
     (if (case ps_hiddenSessions state of None \<Rightarrow> [] | Some ks \<Rightarrow> ks) = [] then state
      else state\<lparr>ps_hiddenSessions := Some []\<rparr>)"

definition lost_entry :: "int \<Rightarrow> persisted_tab \<Rightarrow> persisted_history_entry" where
  "lost_entry closedAt t = \<lparr>h_label = pt_label t, h_sessionTitle = pt_sessionTitle t,
     h_sessionTitleId = pt_sessionTitleId t, h_sessionTitleSource = pt_sessionTitleSource t,
     h_startCmd = pt_startCmd t, h_resumeCmd = the (pt_resumeCmd t), h_actionName = pt_actionName t,
     h_closedAt = closedAt\<rparr>"

definition rememberLostSessions ::
  "terminals_config \<Rightarrow> int \<Rightarrow> string \<Rightarrow> persisted_tab list \<Rightarrow> terminals_config" where
  "rememberLostSessions cached closedAt projectName tabs =
     (let resumable = filter (\<lambda>t. truthy (pt_resumeCmd t)) tabs
      in if resumable = [] then cached
         else updateProjectTerminalsCache cached projectName
           (fold (\<lambda>t state. appendHistoryEntry state (lost_entry closedAt t)) resumable
             (getProjectTerminals cached projectName)))"

section \<open>Restoring\<close>

definition PEER_CHECK_WINDOW_MS :: int where "PEER_CHECK_WINDOW_MS = 8000"
definition PEER_CHECK_RETRY_MS :: int where "PEER_CHECK_RETRY_MS = 500"

text \<open>
  One call's retries: the clock at each attempt that could not be asked, and the answer of the
  attempt that could. A call that returns makes only finitely many attempts.
\<close>

fun adopt_loop :: "int \<Rightarrow> int list \<Rightarrow> bool \<Rightarrow> bool" where
  "adopt_loop deadline [] answer = answer"
| "adopt_loop deadline (now # failures) answer =
     (if deadline \<le> now then True else adopt_loop deadline failures answer)"

definition shouldAdoptPeerTerminal :: "int \<Rightarrow> int list \<Rightarrow> bool \<Rightarrow> bool" where
  "shouldAdoptPeerTerminal now failures answer = adopt_loop (now + PEER_CHECK_WINDOW_MS) failures answer"

datatype launch =
    LaunchAction string string "string option"
  | LaunchShell string "string option"

record restore_env =
  env_windows :: bool
  env_now :: int
  env_failures :: "string \<Rightarrow> int list"
  env_answer :: "string \<Rightarrow> bool"
  env_exists :: "string \<Rightarrow> bool option"
  env_follows :: "string \<Rightarrow> bool"
  env_start :: "nat \<Rightarrow> launch \<Rightarrow> string option"
  env_uuid :: "nat \<Rightarrow> string"
  env_pane_id :: "nat \<Rightarrow> string"

text \<open>
  What a tab's promise settles to: a rejection (the launch failed), \<open>null\<close> (nothing to back it),
  or the terminal with its flags \<open>adopted\<close> and \<open>replacedPeer\<close>.
\<close>

datatype tab_outcome = Rejected | Gone | Backed string bool bool

definition startFresh :: "restore_env \<Rightarrow> nat \<Rightarrow> persisted_tab \<Rightarrow> string \<Rightarrow> string option" where
  "startFresh env k t projectName =
     (let sessionId = (if pt_agentEnded t then None else claudeResumeSessionId (env_windows env) (pt_resumeCmd t))
      in env_start env k (case keep_truthy (pt_actionName t) of
           Some action \<Rightarrow> LaunchAction projectName action sessionId
         | None \<Rightarrow> LaunchShell projectName sessionId))"

definition fresh_outcome :: "restore_env \<Rightarrow> nat \<Rightarrow> persisted_tab \<Rightarrow> string \<Rightarrow> bool \<Rightarrow> tab_outcome" where
  "fresh_outcome env k t projectName replaced =
     (case startFresh env k t projectName of None \<Rightarrow> Rejected | Some i \<Rightarrow> Backed i False replaced)"

definition reifyTab :: "restore_env \<Rightarrow> nat \<Rightarrow> persisted_tab \<Rightarrow> string \<Rightarrow> tab_outcome" where
  "reifyTab env k t projectName =
     (case keep_truthy (pt_id t) of
        None \<Rightarrow> fresh_outcome env k t projectName False
      | Some i \<Rightarrow>
          if isPeerMarked i then
            if shouldAdoptPeerTerminal (env_now env) (env_failures env i) (env_answer env i) then Backed i True False
            else if pt_fromHost t \<or> env_follows env projectName then Gone
            else fresh_outcome env k t projectName True
          else if env_exists env i = Some True then Backed i True False
          else if \<not> pt_restoreHere t then Gone
          else fresh_outcome env k t projectName False)"

text \<open>The lists the caller passes in, and the numbers of the next launch and the next pane.\<close>

record restore_state =
  rs_launches :: nat
  rs_panes :: nat
  rs_startedIds :: "string list"
  rs_dropped :: "persisted_tab list"
  rs_discarded :: "persisted_tab list"
  rs_replacedIds :: "string list"

definition empty_restore :: restore_state where
  "empty_restore = \<lparr>rs_launches = 0, rs_panes = 0, rs_startedIds = [], rs_dropped = [],
     rs_discarded = [], rs_replacedIds = []\<rparr>"

definition restored_terminal :: "string \<Rightarrow> persisted_tab \<Rightarrow> string \<Rightarrow> bool \<Rightarrow> terminal_instance" where
  "restored_terminal uuid t i adopted = makeTerminal uuid i (pt_label t) ((bare_tab i (pt_label t))\<lparr>
     sessionTitle := pt_sessionTitle t,
     sessionTitleId := pt_sessionTitleId t,
     sessionTitleSource := pt_sessionTitleSource t,
     historyKey := pt_historyKey t,
     memory := pt_memory t,
     startCmd := pt_startCmd t,
     resumeCmd := pt_resumeCmd t,
     agentEnded := pt_agentEnded t,
     actionName := pt_actionName t,
     pinned := pt_pinned t,
     emoji := pt_emoji t,
     color := pt_color t,
     peerAdopted := (adopted \<and> \<not> isPeerMarked i),
     fromHost := pt_fromHost t,
     restoreHere := (adopted \<and> pt_restoreHere t),
     forkOf := pt_forkOf t\<rparr>)"

text \<open>\<open>results.forEach\<close>: \<open>tabs\<close> and \<open>newIdx\<close> are its locals.\<close>

fun file_results :: "restore_env \<Rightarrow> string \<Rightarrow> persisted_tab list
    \<Rightarrow> restore_state \<times> terminal_instance list \<times> int list
    \<Rightarrow> restore_state \<times> terminal_instance list \<times> int list" where
  "file_results env projectName [] s = s"
| "file_results env projectName (t # ts) (s, tabs, newIdx) =
     (let k = rs_launches s; s = s\<lparr>rs_launches := Suc k\<rparr>
      in case reifyTab env k t projectName of
        Rejected \<Rightarrow> file_results env projectName ts (s\<lparr>rs_dropped := rs_dropped s @ [t]\<rparr>, tabs, newIdx @ [-1])
      | Gone \<Rightarrow> file_results env projectName ts (s\<lparr>rs_discarded := rs_discarded s @ [t]\<rparr>, tabs, newIdx @ [-1])
      | Backed i adopted replacedPeer \<Rightarrow>
          file_results env projectName ts
            (s\<lparr>rs_startedIds := (if adopted then rs_startedIds s else rs_startedIds s @ [i]),
               rs_replacedIds := (if replacedPeer then rs_replacedIds s @ [i] else rs_replacedIds s)\<rparr>,
             tabs @ [restored_terminal (env_uuid env k) t i adopted], newIdx @ [int (length tabs)]))"

definition reify_leaf :: "restore_env \<Rightarrow> string \<Rightarrow> persisted_tab list option \<Rightarrow> int option \<Rightarrow> string option
    \<Rightarrow> restore_state \<Rightarrow> pane_leaf option \<times> restore_state" where
  "reify_leaf env projectName tabs0 active service s =
     (let persistedTabs = (case tabs0 of None \<Rightarrow> [] | Some ts \<Rightarrow> ts)
      in if persistedTabs = [] \<and> \<not> truthy service then (None, s)
         else case file_results env projectName persistedTabs (s, [], []) of
           (s, tabs, newIdx) \<Rightarrow>
             if tabs = [] \<and> \<not> truthy service then (None, s)
             else let savedActive = (case at_index newIdx (clampIdx active (length persistedTabs)) of
                        None \<Rightarrow> -1 | Some i \<Rightarrow> i);
                      activeTabIdx = (if 0 \<le> savedActive then savedActive else clampIdx active (length tabs));
                      pane = makePaneLeaf (env_pane_id env (rs_panes s)) tabs activeTabIdx
                  in (Some (pane\<lparr>p_activeServiceName := keep_truthy service\<rparr>), s\<lparr>rs_panes := Suc (rs_panes s)\<rparr>))"

fun reifyTree :: "restore_env \<Rightarrow> string \<Rightarrow> persisted_node \<Rightarrow> restore_state
    \<Rightarrow> pane_node option \<times> restore_state" where
  "reifyTree env projectName (PLeaf tabs active service) s =
     (case reify_leaf env projectName tabs active service s of (pane, s) \<Rightarrow> (map_option Leaf pane, s))"
| "reifyTree env projectName (PSplit d r (Some na) (Some nb)) s =
     (case reifyTree env projectName na s of (a, s) \<Rightarrow>
        (case reifyTree env projectName nb s of (b, s) \<Rightarrow>
           (case (a, b) of
              (Some a, Some b) \<Rightarrow>
                Some (Split (if d = Some ''col'' then Col else Row) (case r of Some x \<Rightarrow> x | None \<Rightarrow> 1 / 2) a b)
            | _ \<Rightarrow> or_else a b, s)))"
| "reifyTree env projectName (PSplit d r _ _) s = (None, s)"

definition movableTitle :: "terminal_instance \<Rightarrow> bool" where
  "movableTitle tab = (truthy (sessionTitle tab) \<and> followsAgentTitle tab)"

fun retitle_tabs :: "terminal_instance list \<Rightarrow> string list \<Rightarrow> terminal_instance list \<times> string list" where
  "retitle_tabs [] used = ([], used)"
| "retitle_tabs (tab # tabs) used =
     (if \<not> movableTitle tab then (case retitle_tabs tabs used of (rest, used) \<Rightarrow> (tab # rest, used))
      else
        let title = disambiguateLabelAgainst (the (sessionTitle tab)) used
        in case retitle_tabs tabs (used @ [title]) of (rest, used) \<Rightarrow>
             ((if Some title = sessionTitle tab then tab else tab\<lparr>sessionTitle := Some title\<rparr>) # rest, used))"

fun retitle_visit :: "pane_node \<Rightarrow> string list \<Rightarrow> pane_node \<times> string list" where
  "retitle_visit (Split d r a b) used =
     (case retitle_visit a used of (a, used) \<Rightarrow>
        (case retitle_visit b used of (b, used) \<Rightarrow> (Split d r a b, used)))"
| "retitle_visit (Leaf p) used =
     (case retitle_tabs (p_tabs p) used of (tabs, used) \<Rightarrow> (Leaf (p\<lparr>p_tabs := tabs\<rparr>), used))"

definition disambiguateRestoredSessionTitles :: "pane_node \<Rightarrow> pane_node" where
  "disambiguateRestoredSessionTitles node =
     fst (retitle_visit node
       (map terminalDisplayLabel (filter (\<lambda>tab. \<not> movableTitle tab) (collectTerminals node))))"

definition reifyTreeWithFreshPtys ::
  "restore_env \<Rightarrow> string \<Rightarrow> persisted_node \<Rightarrow> pane_node option \<times> restore_state" where
  "reifyTreeWithFreshPtys env projectName node =
     (case reifyTree env projectName node empty_restore of (restored, s) \<Rightarrow>
        (map_option disambiguateRestoredSessionTitles restored, s))"

section \<open>Persisting\<close>

definition tab_to_persisted :: "terminal_instance \<Rightarrow> persisted_tab" where
  "tab_to_persisted t = \<lparr>
     pt_label = t_label t,
     pt_sessionTitle = keep_truthy (sessionTitle t),
     pt_sessionTitleId = keep_truthy (sessionTitleId t),
     pt_sessionTitleSource = sessionTitleSource t,
     pt_historyKey = keep_truthy (historyKey t),
     pt_memory = memory t,
     pt_startCmd = keep_truthy (startCmd t),
     pt_resumeCmd = keep_truthy (resumeCmd t),
     pt_agentEnded = agentEnded t,
     pt_actionName = keep_truthy (actionName t),
     pt_pinned = pinned t,
     pt_emoji = keep_truthy (emoji t),
     pt_color = keep_truthy (color t),
     pt_id = (if isPeerMarked (t_id t) \<or> peerAdopted t then Some (t_id t) else None),
     pt_fromHost = fromHost t,
     pt_restoreHere = (peerAdopted t \<and> restoreHere t),
     pt_forkOf = forkOf t\<rparr>"

definition direction_name :: "split_direction \<Rightarrow> string" where
  "direction_name d = (case d of Row \<Rightarrow> ''row'' | Col \<Rightarrow> ''col'')"

fun treeToPersisted :: "pane_node \<Rightarrow> persisted_node" where
  "treeToPersisted (Leaf p) =
     PLeaf (Some (map tab_to_persisted (filter isTerminalTab (p_tabs p)))) (Some (p_activeTabIdx p))
       (keep_truthy (p_activeServiceName p))"
| "treeToPersisted (Split d r a b) =
     PSplit (Some (direction_name d)) (Some r) (Some (treeToPersisted a)) (Some (treeToPersisted b))"

definition bare_persisted :: "string \<Rightarrow> persisted_tab" where
  "bare_persisted l = \<lparr>pt_label = l, pt_sessionTitle = None, pt_sessionTitleId = None,
     pt_sessionTitleSource = None, pt_historyKey = None, pt_memory = None, pt_startCmd = None,
     pt_resumeCmd = None, pt_agentEnded = False, pt_actionName = None, pt_pinned = False,
     pt_emoji = None, pt_color = None, pt_id = None, pt_fromHost = False, pt_restoreHere = False,
     pt_forkOf = None\<rparr>"

definition legacyEntriesToTree :: "persisted_terminal_entry list option \<Rightarrow> persisted_node option" where
  "legacyEntriesToTree entries =
     (case entries of None \<Rightarrow> None | Some es \<Rightarrow>
        if es = [] then None
        else Some (PLeaf (Some (map (\<lambda>e. (bare_persisted (e_label e))\<lparr>
          pt_startCmd := keep_truthy (e_startCmd e), pt_resumeCmd := keep_truthy (e_resumeCmd e)\<rparr>) es)) (Some 0) None))"

section \<open>Accounting for every tab\<close>

text \<open>
  What of a tab is meant to survive a restart, read off a live and off a persisted tab: its label, commands
  and marks, the conversation it belongs to, its memory and where it came from. Apart are the title of its
  conversation, which may be told from that of another tab by a number, and its key in the message history, which
  a tab without one is given.
\<close>

definition tab_key where
  "tab_key t = (t_label t, keep_truthy (startCmd t), keep_truthy (resumeCmd t), keep_truthy (actionName t),
     keep_truthy (emoji t), keep_truthy (color t), pinned t, agentEnded t, forkOf t,
     keep_truthy (sessionTitleId t), sessionTitleSource t, memory t, fromHost t)"

definition pt_key where
  "pt_key t = (pt_label t, keep_truthy (pt_startCmd t), keep_truthy (pt_resumeCmd t), keep_truthy (pt_actionName t),
     keep_truthy (pt_emoji t), keep_truthy (pt_color t), pt_pinned t, pt_agentEnded t, pt_forkOf t,
     keep_truthy (pt_sessionTitleId t), pt_sessionTitleSource t, pt_memory t, pt_fromHost t)"

definition came_from :: "persisted_tab \<Rightarrow> terminal_instance \<Rightarrow> bool" where
  "came_from p t \<longleftrightarrow> tab_key t = pt_key p \<and> keep_truthy (sessionTitle t) = keep_truthy (pt_sessionTitle p) \<and>
     (\<forall>k. keep_truthy (pt_historyKey p) = Some k \<longrightarrow> historyKey t = Some k)"

lemma tab_key_restored [simp]: "tab_key (restored_terminal uuid t i adopted) = pt_key t"
  by (simp add: tab_key_def pt_key_def restored_terminal_def makeTerminal_def bare_tab_def)

lemma restored_came_from [simp]: "came_from t (restored_terminal uuid t i adopted)"
  by (auto simp: came_from_def restored_terminal_def makeTerminal_def bare_tab_def tab_key_def pt_key_def keep_truthy_def
      split: option.split if_splits)

lemma pt_key_to_persisted [simp]: "pt_key (tab_to_persisted t) = tab_key t"
  by (simp add: tab_key_def pt_key_def tab_to_persisted_def)

lemma tab_key_retitled [simp]: "tab_key (t\<lparr>sessionTitle := x\<rparr>) = tab_key t"
  by (simp add: tab_key_def)

lemma t_id_restored [simp]: "t_id (restored_terminal uuid t i adopted) = i"
  by (simp add: restored_terminal_def makeTerminal_def bare_tab_def)

definition launched :: "restore_env \<Rightarrow> string \<Rightarrow> bool" where
  "launched env i \<longleftrightarrow> (\<exists>k c. env_start env k c = Some i)"

text \<open>
  \<open>restores env ts new s s'\<close>: going from \<open>s\<close> to \<open>s'\<close>, every persisted tab of \<open>ts\<close> either
  became a terminal of \<open>new\<close>, in order, or was filed as dropped or discarded, and the terminals
  filed as started are launched ones of \<open>new\<close>.
\<close>

definition restores ::
  "restore_env \<Rightarrow> persisted_tab list \<Rightarrow> terminal_instance list \<Rightarrow> restore_state \<Rightarrow> restore_state \<Rightarrow> bool" where
  "restores env ts new s s' \<longleftrightarrow> (\<exists>lost gone started.
     rs_dropped s' = rs_dropped s @ lost \<and> rs_discarded s' = rs_discarded s @ gone \<and>
     rs_startedIds s' = rs_startedIds s @ started \<and>
     mset (map pt_key ts) = mset (map tab_key new) + mset (map pt_key (lost @ gone)) \<and>
     subseq (map tab_key new) (map pt_key ts) \<and>
     (\<exists>kept. subseq kept ts \<and> list_all2 came_from kept new) \<and>
     (\<forall>i\<in>set started. launched env i \<and> i \<in> t_id ` set new))"

lemma restores_refl [simp]: "restores env [] [] s s"
  by (simp add: restores_def)

lemma restores_trans:
  assumes "restores env ts1 new1 s s1" and "restores env ts2 new2 s1 s2"
  shows "restores env (ts1 @ ts2) (new1 @ new2) s s2"
proof -
  obtain l1 g1 st1 where 1: "rs_dropped s1 = rs_dropped s @ l1" "rs_discarded s1 = rs_discarded s @ g1"
    "rs_startedIds s1 = rs_startedIds s @ st1"
    "mset (map pt_key ts1) = mset (map tab_key new1) + mset (map pt_key (l1 @ g1))"
    "subseq (map tab_key new1) (map pt_key ts1)" "\<forall>i\<in>set st1. launched env i \<and> i \<in> t_id ` set new1"
    "\<exists>kept. subseq kept ts1 \<and> list_all2 came_from kept new1"
    using assms(1) unfolding restores_def by blast
  obtain l2 g2 st2 where 2: "rs_dropped s2 = rs_dropped s1 @ l2" "rs_discarded s2 = rs_discarded s1 @ g2"
    "rs_startedIds s2 = rs_startedIds s1 @ st2"
    "mset (map pt_key ts2) = mset (map tab_key new2) + mset (map pt_key (l2 @ g2))"
    "subseq (map tab_key new2) (map pt_key ts2)" "\<forall>i\<in>set st2. launched env i \<and> i \<in> t_id ` set new2"
    "\<exists>kept. subseq kept ts2 \<and> list_all2 came_from kept new2"
    using assms(2) unfolding restores_def by blast
  have kept: "\<exists>kept. subseq kept (ts1 @ ts2) \<and> list_all2 came_from kept (new1 @ new2)"
    using 1(7) 2(7) by (meson list_emb_append_mono list_all2_appendI)
  show ?thesis unfolding restores_def
    by (rule exI [of _ "l1 @ l2"], rule exI [of _ "g1 @ g2"], rule exI [of _ "st1 @ st2"])
      (use 1(1-6) 2(1-6) kept in \<open>auto simp: list_emb_append_mono\<close>)
qed

lemma fresh_outcome_launched:
  "fresh_outcome env k t pn r = Backed i adopted r' \<Longrightarrow> launched env i \<and> \<not> adopted"
  by (auto simp: fresh_outcome_def startFresh_def launched_def Let_def split: option.splits)

lemma reifyTab_launched: "reifyTab env k t pn = Backed i False r \<Longrightarrow> launched env i"
  by (auto simp: reifyTab_def dest: fresh_outcome_launched split: option.splits if_splits)

text \<open>The pass over a leaf's results, one tab: its outcome and the state after it.\<close>

lemma file_results_Cons:
  "file_results env pn (t # ts) (s, tabs, newIdx) =
   (let (s1, new, idx) = file_results env pn [t] (s, [], [])
    in file_results env pn ts (s1, tabs @ new, newIdx @ (if new = [] then [-1] else [int (length tabs)])))"
  by (auto simp: Let_def split: tab_outcome.splits)

lemma kept_one: "came_from t u \<Longrightarrow> \<exists>kept. subseq kept [t] \<and> list_all2 came_from kept [u]"
  and kept_none: "\<exists>kept. subseq kept [t] \<and> list_all2 came_from kept []"
  by (rule exI [of _ "[t]"], simp) (rule exI [of _ "[]"], simp)

lemma file_results_one:
  "file_results env pn [t] (s, [], []) = (s1, new, idx) \<Longrightarrow> restores env [t] new s s1"
proof (cases "reifyTab env (rs_launches s) t pn")
  case (Backed i adopted r)
  moreover assume "file_results env pn [t] (s, [], []) = (s1, new, idx)"
  ultimately show ?thesis
    using reifyTab_launched [of env "rs_launches s" t pn i r] kept_one [OF restored_came_from]
    by (cases adopted) (auto simp: restores_def Let_def)
qed (use kept_none [of t] in \<open>auto simp: restores_def Let_def\<close>)

lemma file_results_restores:
  "file_results env pn ts (s, tabs, newIdx) = (s', tabs', newIdx') \<Longrightarrow>
   \<exists>new. tabs' = tabs @ new \<and> restores env ts new s s'"
proof (induction ts arbitrary: s tabs newIdx)
  case Nil
  then show ?case by simp
next
  case (Cons t ts)
  obtain s1 new1 idx1 where one: "file_results env pn [t] (s, [], []) = (s1, new1, idx1)"
    by (metis prod_cases3)
  from Cons.prems one have
    "file_results env pn ts (s1, tabs @ new1, newIdx @ (if new1 = [] then [-1] else [int (length tabs)])) = (s', tabs', newIdx')"
    by (simp only: file_results_Cons [of env pn t ts] Let_def split)
  from Cons.IH [OF this] obtain new where "tabs' = (tabs @ new1) @ new" "restores env ts new s1 s'" by blast
  with restores_trans [OF file_results_one [OF one]] show ?case by (intro exI [of _ "new1 @ new"]) auto
qed

abbreviation restored_tabs :: "pane_node option \<Rightarrow> terminal_instance list" where
  "restored_tabs r \<equiv> (case r of None \<Rightarrow> [] | Some n \<Rightarrow> collectTerminals n)"

text \<open>A persisted tree as \<open>treeToPersisted\<close> writes it: no split misses a side.\<close>

fun complete :: "persisted_node \<Rightarrow> bool" where
  "complete (PLeaf _ _ _) = True"
| "complete (PSplit _ _ a b) =
     ((case a of None \<Rightarrow> False | Some n \<Rightarrow> complete n) \<and> (case b of None \<Rightarrow> False | Some n \<Rightarrow> complete n))"

lemma restores_panes [simp]: "restores env ts new s (s'\<lparr>rs_panes := k\<rparr>) = restores env ts new s s'"
  by (simp add: restores_def)

lemma reify_leaf_restores:
  "reify_leaf env pn tabs active service s = (pane, s') \<Longrightarrow>
   restores env (case tabs of None \<Rightarrow> [] | Some ts \<Rightarrow> ts) (case pane of None \<Rightarrow> [] | Some p \<Rightarrow> p_tabs p) s s'"
proof -
  assume r: "reify_leaf env pn tabs active service s = (pane, s')"
  define ts where "ts = (case tabs of None \<Rightarrow> [] | Some ts \<Rightarrow> ts)"
  obtain s1 new idx where f: "file_results env pn ts (s, [], []) = (s1, new, idx)" by (metis prod_cases3)
  with file_results_restores [OF f] have "restores env ts new s s1" by simp
  with r f show ?thesis
    by (auto simp: reify_leaf_def ts_def [symmetric] Let_def makePaneLeaf_def split: if_splits)
qed

lemma reifyTree_restores:
  "complete node \<Longrightarrow> reifyTree env pn node s = (r, s') \<Longrightarrow>
   restores env (collectPersistedTabs (Some node)) (restored_tabs r) s s'"
proof (induction env pn node s arbitrary: r s' rule: reifyTree.induct)
  case (1 env pn tabs active service s)
  then obtain pane where "reify_leaf env pn tabs active service s = (pane, s')" "r = map_option Leaf pane"
    by (auto split: prod.splits)
  with reify_leaf_restores [OF this(1)] show ?case by (cases pane) (auto split: option.splits)
next
  case (2 env pn d r0 na nb s)
  obtain a s1 where a: "reifyTree env pn na s = (a, s1)" by fastforce
  obtain b s2 where b: "reifyTree env pn nb s1 = (b, s2)" by fastforce
  have "restores env (collectPersistedTabs (Some na)) (restored_tabs a) s s1"
    using 2(1) [OF _ a] 2(3) by simp
  moreover have "restores env (collectPersistedTabs (Some nb)) (restored_tabs b) s1 s2"
    using 2(2) [OF a [symmetric] _ b] 2(3) by simp
  ultimately have "restores env (collectPersistedTabs (Some (PSplit d r0 (Some na) (Some nb))))
      (restored_tabs a @ restored_tabs b) s s2"
    by (simp add: restores_trans)
  moreover have "s' = s2" "restored_tabs r = restored_tabs a @ restored_tabs b"
    using 2(4) a b by (auto split: option.splits)
  ultimately show ?case by simp
qed auto

text \<open>What telling titles apart may change: a title that follows the agent gets a number behind it.\<close>

definition same_title :: "terminal_instance \<Rightarrow> terminal_instance \<Rightarrow> bool" where
  "same_title t t' \<longleftrightarrow> keep_truthy (sessionTitle t') = keep_truthy (sessionTitle t) \<or>
     (sessionTitleSource t \<noteq> Some Manual \<and>
      (\<exists>title n. keep_truthy (sessionTitle t) = Some title \<and> sessionTitle t' = Some (title @ '' '' @ nat_str n)))"

text \<open>A tab with a number behind its title at most.\<close>

definition retitled :: "terminal_instance \<Rightarrow> terminal_instance \<Rightarrow> bool" where
  "retitled t t' \<longleftrightarrow> tab_key t' = tab_key t \<and> t_id t' = t_id t \<and> historyKey t' = historyKey t \<and> same_title t t'"

lemma retitled_refl [simp]: "retitled t t"
  by (simp add: retitled_def same_title_def)

lemma movable_renamed:
  assumes "movableTitle t"
  shows "retitled t (t\<lparr>sessionTitle := Some (disambiguateLabelAgainst (the (sessionTitle t)) used)\<rparr>)"
proof -
  obtain title where t: "sessionTitle t = Some title" "title \<noteq> []" "sessionTitleSource t \<noteq> Some Manual"
    using assms by (cases "sessionTitle t") (auto simp: movableTitle_def followsAgentTitle_def)
  then have k: "keep_truthy (sessionTitle t) = Some title" by (cases title) simp_all
  show ?thesis
    unfolding retitled_def same_title_def using t k by (auto simp: disambiguateLabelAgainst_def)
qed

lemma retitle_tabs_same: "retitle_tabs tabs used = (tabs', used') \<Longrightarrow> list_all2 retitled tabs tabs'"
proof (induction tabs arbitrary: used tabs' used')
  case (Cons tab tabs)
  show ?case
  proof (cases "movableTitle tab")
    case False
    then show ?thesis using Cons by (auto split: prod.splits)
  next
    case True
    define title where "title = disambiguateLabelAgainst (the (sessionTitle tab)) used"
    obtain rest used1 where rest: "retitle_tabs tabs (used @ [title]) = (rest, used1)" by fastforce
    have "tabs' = (if Some title = sessionTitle tab then tab else tab\<lparr>sessionTitle := Some title\<rparr>) # rest"
      using Cons.prems True rest by (simp add: Let_def title_def [symmetric] split del: if_split)
    then show ?thesis using Cons.IH [OF rest] movable_renamed [OF True, of used] by (simp add: title_def)
  qed
qed simp

lemma retitle_visit_same:
  "retitle_visit node used = (node', used') \<Longrightarrow> list_all2 retitled (collectTerminals node) (collectTerminals node')"
proof (induction node used arbitrary: node' used' rule: retitle_visit.induct)
  case (1 d r a b used)
  obtain a' used1 where a: "retitle_visit a used = (a', used1)" by fastforce
  obtain b' used2 where b: "retitle_visit b used1 = (b', used2)" by fastforce
  have "node' = Split d r a' b'" using "1.prems" a b by simp
  then show ?case using "1.IH"(1) [OF a] "1.IH"(2) [OF a [symmetric] b] by (simp add: list_all2_appendI)
next
  case (2 p used)
  then show ?case using retitle_tabs_same by (auto split: prod.splits)
qed

lemma restored_same: "list_all2 retitled (collectTerminals node) (collectTerminals (disambiguateRestoredSessionTitles node))"
  unfolding disambiguateRestoredSessionTitles_def
  by (metis prod.collapse retitle_visit_same)

lemma retitled_keys: "list_all2 retitled ts ts' \<Longrightarrow> map tab_key ts' = map tab_key ts \<and> map t_id ts' = map t_id ts"
  by (induction rule: list_all2_induct) (auto simp: retitled_def)

lemma disambiguateRestored_same:
  "map tab_key (collectTerminals (disambiguateRestoredSessionTitles node)) = map tab_key (collectTerminals node)"
  "map t_id (collectTerminals (disambiguateRestoredSessionTitles node)) = map t_id (collectTerminals node)"
  using retitled_keys [OF restored_same] by blast+

section \<open>The active tab\<close>

text \<open>Where the tab with launch number \<open>k\<close> went, by the index recorded for it.\<close>

definition lands ::
  "restore_env \<Rightarrow> string \<Rightarrow> nat \<Rightarrow> persisted_tab \<Rightarrow> terminal_instance list \<Rightarrow> int \<Rightarrow> bool" where
  "lands env pn k t tabs x = (case reifyTab env k t pn of
      Backed i adopted r \<Rightarrow> at_index tabs x = Some (restored_terminal (env_uuid env k) t i adopted)
    | _ \<Rightarrow> x = -1)"

lemma file_results_at:
  "file_results env pn ts (s, tabs, newIdx) = (s', tabs', newIdx') \<Longrightarrow>
   length newIdx' = length newIdx + length ts \<and> take (length newIdx) newIdx' = newIdx \<and>
   take (length tabs) tabs' = tabs \<and> length tabs \<le> length tabs' \<and>
   (\<forall>j<length ts. lands env pn (rs_launches s + j) (ts ! j) tabs' (newIdx' ! (length newIdx + j)))"
proof (induction ts arbitrary: s tabs newIdx)
  case Nil
  then show ?case by simp
next
  case (Cons t ts)
  let ?o = "reifyTab env (rs_launches s) t pn"
  obtain s1 new x where step: "file_results env pn ts (s1, tabs @ new, newIdx @ [x]) = (s', tabs', newIdx')"
    and k: "rs_launches s1 = Suc (rs_launches s)"
    and x: "case ?o of Backed i adopted r \<Rightarrow>
        x = int (length tabs) \<and> new = [restored_terminal (env_uuid env (rs_launches s)) t i adopted] | _ \<Rightarrow> x = -1"
  proof (cases ?o)
    case (Backed i adopted rp)
    show ?thesis
      by (rule that [of "s\<lparr>rs_launches := Suc (rs_launches s),
           rs_startedIds := (if adopted then rs_startedIds s else rs_startedIds s @ [i]),
           rs_replacedIds := (if rp then rs_replacedIds s @ [i] else rs_replacedIds s)\<rparr>"
          "[restored_terminal (env_uuid env (rs_launches s)) t i adopted]" "int (length tabs)"])
        (use Cons.prems Backed in \<open>cases adopted; cases rp; simp add: Let_def\<close>)+
  next
    case Rejected
    show ?thesis
      by (rule that [of "s\<lparr>rs_launches := Suc (rs_launches s), rs_dropped := rs_dropped s @ [t]\<rparr>" "[]" "-1"])
        (use Cons.prems Rejected in \<open>simp_all add: Let_def\<close>)
  next
    case Gone
    show ?thesis
      by (rule that [of "s\<lparr>rs_launches := Suc (rs_launches s), rs_discarded := rs_discarded s @ [t]\<rparr>" "[]" "-1"])
        (use Cons.prems Gone in \<open>simp_all add: Let_def\<close>)
  qed
  note IH = Cons.IH [OF step]
  have pre: "take (Suc (length newIdx)) newIdx' = newIdx @ [x]" "length newIdx' = Suc (length newIdx + length ts)"
    "take (length (tabs @ new)) tabs' = tabs @ new" "length (tabs @ new) \<le> length tabs'"
    using IH by simp_all
  have nx: "newIdx' ! length newIdx = x"
    by (metis pre(1) lessI nth_append_length nth_take)
  have tk: "take (length newIdx) newIdx' = newIdx"
    by (metis append_eq_conv_conj append_take_drop_id append.assoc pre(1) length_append_singleton)
  have tt: "take (length tabs) tabs' = tabs"
    by (metis append_eq_conv_conj append_take_drop_id append.assoc pre(3))
  have at0: "tabs' ! length tabs = u" if "new = [u]" for u
    using pre(3,4) that by (metis add_Suc_right length_append_singleton lessI nth_append_length nth_take)
  have "lands env pn (rs_launches s) t tabs' (newIdx' ! length newIdx)"
    using x at0 pre(4) by (cases ?o) (auto simp: nx at_index_def lands_def)
  moreover have "lands env pn (rs_launches s + Suc j) (ts ! j) tabs' (newIdx' ! (length newIdx + Suc j))"
    if "j < length ts" for j
  proof -
    have "lands env pn (rs_launches s1 + j) (ts ! j) tabs' (newIdx' ! (length (newIdx @ [x]) + j))"
      using IH that by blast
    then show ?thesis by (simp add: k)
  qed
  ultimately show ?case using pre tk tt by (auto simp: less_Suc_eq_0_disj)
qed

lemma clampIdx_int_bounds: "0 < n \<Longrightarrow> 0 \<le> clampIdx i n \<and> clampIdx i n < int n"
  by (cases i) (auto simp: clampIdx_def)

lemma reify_leaf_active:
  assumes r: "reify_leaf env pn (Some ts) active service s = (Some pane, s')"
    and j: "j = nat (clampIdx active (length ts))" "j < length ts"
  shows "case reifyTab env (rs_launches s + j) (ts ! j) pn of
      Backed i adopted rp \<Rightarrow> at_index (p_tabs pane) (p_activeTabIdx pane) =
        Some (restored_terminal (env_uuid env (rs_launches s + j)) (ts ! j) i adopted)
    | _ \<Rightarrow> p_tabs pane \<noteq> [] \<longrightarrow> at_index (p_tabs pane) (p_activeTabIdx pane) \<noteq> None"
proof -
  obtain s1 tabs idx where f: "file_results env pn ts (s, [], []) = (s1, tabs, idx)" by (metis prod_cases3)
  note at = file_results_at [OF f, simplified]
  have c: "clampIdx active (length ts) = int j"
  proof -
    have "0 < length ts" using j(2) by linarith
    from clampIdx_int_bounds [OF this] j(1) show ?thesis by simp
  qed
  have ix: "at_index idx (int j) = Some (idx ! j)" using at j(2) by (simp add: at_index_def)
  have pane: "p_tabs pane = tabs" "p_activeTabIdx pane =
      (if 0 \<le> idx ! j then idx ! j else clampIdx active (length tabs))"
    using r f ix by (auto simp: reify_leaf_def Let_def makePaneLeaf_def c split: if_splits)
  have cl: "at_index tabs (clampIdx active (length tabs)) \<noteq> None" if "tabs \<noteq> []"
    using clampIdx_int_bounds [of "length tabs" active] that by (simp add: at_index_def)
  have atj: "lands env pn (rs_launches s + j) (ts ! j) tabs (idx ! j)" using at j(2) by simp
  show ?thesis
  proof (cases "reifyTab env (rs_launches s + j) (ts ! j) pn")
    case (Backed i adopted rp)
    with atj have a: "at_index tabs (idx ! j) =
        Some (restored_terminal (env_uuid env (rs_launches s + j)) (ts ! j) i adopted)" by (simp add: lands_def)
    then have "0 \<le> idx ! j" by (metis at_index_Some)
    with a Backed show ?thesis by (simp add: pane)
  next
    case Rejected
    with atj have "idx ! j = -1" by (simp add: lands_def)
    then show ?thesis using cl Rejected by (simp add: pane)
  next
    case Gone
    with atj have "idx ! j = -1" by (simp add: lands_def)
    then show ?thesis using cl Gone by (simp add: pane)
  qed
qed

section \<open>Waiting for a peer\<close>

lemma adopt_loop_late:
  "\<exists>now\<in>set failures. deadline \<le> now \<Longrightarrow> adopt_loop deadline failures answer"
  by (induction failures) auto

lemma adopt_loop_answer:
  "\<forall>now\<in>set failures. now < deadline \<Longrightarrow> adopt_loop deadline failures answer = answer"
  by (induction failures) auto

section \<open>Parked tabs\<close>

lemma least_unused_free: "least_unused used n \<notin> set used \<and> n \<le> least_unused used n"
proof (induction used n rule: least_unused.induct)
  case (1 used n)
  then show ?case by (subst (1 2) least_unused.simps) auto
qed

lemma terminal_number_nat: "terminal_number (''Terminal '' @ nat_str n) = Some n"
  by (simp add: terminal_number_def Let_def nat_str_digits starts_with_def)

lemma pickParked_free: "pickParkedTerminalLabel tabs \<notin> pt_label ` set tabs"
proof
  let ?used = "List.map_filter (\<lambda>t. terminal_number (pt_label t)) tabs"
  let ?n = "least_unused ?used 1"
  assume "pickParkedTerminalLabel tabs \<in> pt_label ` set tabs"
  then obtain t where t: "t \<in> set tabs" "pt_label t = ''Terminal '' @ nat_str ?n"
    by (auto simp: pickParkedTerminalLabel_def)
  then have "?n \<in> set ?used"
    using terminal_number_nat [of ?n] by (force simp: List.map_filter_def)
  then show False using least_unused_free by blast
qed

text \<open>The list without its first element satisfying \<open>P\<close>.\<close>

fun drop_first :: "('a \<Rightarrow> bool) \<Rightarrow> 'a list \<Rightarrow> 'a list" where
  "drop_first P [] = []"
| "drop_first P (x # xs) = (if P x then xs else x # drop_first P xs)"

lemma remove_nth_findIndex:
  "findIndex P xs \<noteq> -1 \<Longrightarrow> remove_nth (nat (findIndex P xs)) xs = drop_first P xs"
  by (induction xs) (auto simp: remove_nth_def Let_def nat_add_distrib split: if_splits)

lemma drop_first_absent [simp]: "\<forall>x\<in>set xs. \<not> P x \<Longrightarrow> drop_first P xs = xs"
  by (induction xs) auto

lemma drop_first_append:
  "drop_first P (xs @ ys) = (if \<exists>x\<in>set xs. P x then drop_first P xs @ ys else xs @ drop_first P ys)"
  by (induction xs) auto

lemma append_collect: "collectPersistedTabs (Some (appendTabToPersistedTree n tab)) =
    (case n of Some (PSplit d r a b) \<Rightarrow>
       collectPersistedTabs (Some (appendTabToPersistedTree a tab)) @ collectPersistedTabs b
     | _ \<Rightarrow> collectPersistedTabs n @ [tab])"
  by (cases n rule: collectPersistedTabs.cases) auto

lemma mset_append_collect: "mset (collectPersistedTabs (Some (appendTabToPersistedTree n tab))) =
    add_mset tab (mset (collectPersistedTabs n))"
  by (induction n tab rule: appendTabToPersistedTree.induct) (auto split: option.splits)

lemma drop_first_append_collect:
  "\<forall>t\<in>set (collectPersistedTabs n). \<not> P t \<Longrightarrow> P tab \<Longrightarrow>
   drop_first P (collectPersistedTabs (Some (appendTabToPersistedTree n tab))) = collectPersistedTabs n"
proof (induction n tab rule: appendTabToPersistedTree.induct)
  case (3 d r a b tab)
  have "tab \<in> set (collectPersistedTabs (Some (appendTabToPersistedTree a tab)))"
    using mset_append_collect [of a tab] by (metis insert_iff set_mset_add_mset_insert set_mset_mset)
  with 3 show ?case by (auto simp: drop_first_append)
qed (auto simp: drop_first_append split: option.splits)

lemma removeTab_spec:
  "removeTabByIdFromTree n i = (n', removed) \<Longrightarrow>
   removed = (\<exists>t\<in>set (collectPersistedTabs (Some n)). pt_id t = Some i) \<and>
   collectPersistedTabs n' = drop_first (\<lambda>t. pt_id t = Some i) (collectPersistedTabs (Some n))"
proof (induction n i arbitrary: n' removed rule: removeTabByIdFromTree.induct)
  case (1 tabs0 active service i)
  define ts where "ts = (case tabs0 of None \<Rightarrow> [] | Some ts \<Rightarrow> ts)"
  have c: "collectPersistedTabs (Some (PLeaf tabs0 active service)) = ts" by (simp add: ts_def)
  have d: "drop_first (\<lambda>t. pt_id t = Some i) ts = []"
    if "findIndex (\<lambda>t. pt_id t = Some i) ts \<noteq> -1" "remove_nth (nat (findIndex (\<lambda>t. pt_id t = Some i) ts)) ts = []"
    using remove_nth_findIndex that by metis
  show ?case
  proof (cases "findIndex (\<lambda>t. pt_id t = Some i) ts = -1")
    case True
    then have "\<forall>t\<in>set ts. pt_id t \<noteq> Some i" by (simp add: findIndex_minus_one)
    moreover have "n' = Some (PLeaf tabs0 active service)" "\<not> removed"
      using 1 True by (simp_all add: ts_def [symmetric] Let_def)
    ultimately show ?thesis using c by simp
  next
    case False
    then have "\<exists>t\<in>set ts. pt_id t = Some i" by (simp add: findIndex_minus_one)
    with 1 False show ?thesis unfolding c using remove_nth_findIndex [OF False]
      by (auto simp: ts_def [symmetric] Let_def split: if_splits)
  qed
next
  case (2 d r a b i)
  define ra where "ra = (case a of Some n \<Rightarrow> removeTabByIdFromTree n i | None \<Rightarrow> (None, False))"
  define rb where "rb = (case b of Some n \<Rightarrow> removeTabByIdFromTree n i | None \<Rightarrow> (None, False))"
  have A: "snd ra = (\<exists>t\<in>set (collectPersistedTabs a). pt_id t = Some i) \<and>
      collectPersistedTabs (fst ra) = drop_first (\<lambda>t. pt_id t = Some i) (collectPersistedTabs a)"
    using 2(1) [OF _ prod.collapse [symmetric]] by (cases a) (simp_all add: ra_def)
  have B: "snd rb = (\<exists>t\<in>set (collectPersistedTabs b). pt_id t = Some i) \<and>
      collectPersistedTabs (fst rb) = drop_first (\<lambda>t. pt_id t = Some i) (collectPersistedTabs b)"
    if "\<not> snd ra"
  proof -
    have e: "(fst ra, False) = ra" using that by (cases ra) auto
    show ?thesis using 2(2) [of "fst ra" "snd ra", OF _ _ _ prod.collapse [symmetric]] that
      by (cases b) (simp_all add: rb_def ra_def [symmetric] e)
  qed
  have res: "(n', removed) =
     (if snd ra then ((case fst ra of Some n \<Rightarrow> Some (PSplit d r (Some n) b) | None \<Rightarrow> b), True)
      else if snd rb then ((case fst rb of Some n \<Rightarrow> Some (PSplit d r a (Some n)) | None \<Rightarrow> a), True)
      else (Some (PSplit d r a b), False))"
    using 2(3) by (auto simp: ra_def [symmetric] rb_def [symmetric] split: prod.splits bool.splits)
  show ?case
  proof (cases "snd ra")
    case True
    with A res show ?thesis by (cases "fst ra") (auto simp: drop_first_append)
  next
    case False
    with A B res show ?thesis by (cases "fst rb") (auto simp: drop_first_append split: if_splits)
  qed
qed

section \<open>The resume history\<close>

abbreviation history_of :: "project_terminal_state \<Rightarrow> persisted_history_entry list" where
  "history_of state \<equiv> (case ps_history state of None \<Rightarrow> [] | Some hs \<Rightarrow> hs)"

definition history_ok :: "project_terminal_state \<Rightarrow> bool" where
  "history_ok state \<longleftrightarrow>
     length (history_of state) \<le> TERMINAL_HISTORY_CAP \<and> distinct (map h_resumeCmd (history_of state))"

lemma history_append: "history_of (appendHistoryEntry state entry) =
    take TERMINAL_HISTORY_CAP (entry # filter (\<lambda>h. h_resumeCmd h \<noteq> h_resumeCmd entry) (history_of state))"
  by (simp add: appendHistoryEntry_def Let_def)

lemma history_remove: "history_of (removeHistoryEntry state cmd) =
    filter (\<lambda>h. h_resumeCmd h \<noteq> cmd) (history_of state)"
proof -
  let ?f = "filter (\<lambda>h. h_resumeCmd h \<noteq> cmd) (history_of state)"
  have "?f = history_of state" if "length ?f = length (history_of state)"
    using that by (metis filter_True length_filter_less less_irrefl)
  then show ?thesis
    by (cases "length ?f = length (history_of state)") (simp_all add: removeHistoryEntry_def Let_def)
qed

lemma history_ok_append: "history_ok state \<Longrightarrow> history_ok (appendHistoryEntry state entry)"
proof -
  let ?f = "filter (\<lambda>h. h_resumeCmd h \<noteq> h_resumeCmd entry) (history_of state)"
  assume "history_ok state"
  then have "distinct (map h_resumeCmd (entry # ?f))"
    by (auto simp: history_ok_def distinct_map_filter)
  then have "distinct (map h_resumeCmd (take TERMINAL_HISTORY_CAP (entry # ?f)))"
    by (metis distinct_take take_map)
  then show ?thesis unfolding history_ok_def history_append by simp
qed

lemma history_ok_fold: "history_ok state \<Longrightarrow> history_ok (fold (\<lambda>t s. appendHistoryEntry s (e t)) ts state)"
  by (induction ts arbitrary: state) (simp_all add: history_ok_append)

text \<open>The newest entries are a prefix: as long as they fit, none of them is pushed out.\<close>

lemma history_prefix_fold:
  "length ts \<le> TERMINAL_HISTORY_CAP \<Longrightarrow>
   \<exists>n \<le> length ts. h_resumeCmd ` e ` set ts \<subseteq> h_resumeCmd ` set (take n (history_of (fold (\<lambda>t s. appendHistoryEntry s (e t)) ts state)))"
proof (induction ts rule: rev_induct)
  case Nil
  then show ?case by simp
next
  case (snoc t ts)
  define hs where "hs = history_of (fold (\<lambda>t s. appendHistoryEntry s (e t)) ts state)"
  obtain n where n: "n \<le> length ts" "h_resumeCmd ` e ` set ts \<subseteq> h_resumeCmd ` set (take n hs)"
    using snoc by (auto simp: hs_def)
  let ?P = "\<lambda>h. h_resumeCmd h \<noteq> h_resumeCmd (e t)"
  define m where "m = length (filter ?P (take n hs))"
  have "filter ?P hs = filter ?P (take n hs) @ filter ?P (drop n hs)"
    by (metis append_take_drop_id filter_append)
  then have tk: "take m (filter ?P hs) = filter ?P (take n hs)" by (simp add: m_def)
  have m: "m \<le> length ts" using n(1) length_filter_le [of ?P "take n hs"] by (simp add: m_def)
  have H: "history_of (fold (\<lambda>t s. appendHistoryEntry s (e t)) (ts @ [t]) state) =
      take TERMINAL_HISTORY_CAP (e t # filter ?P hs)"
    by (simp only: fold_append fold.simps o_apply id_apply history_append hs_def)
  have "take (Suc m) (take TERMINAL_HISTORY_CAP (e t # filter ?P hs)) = e t # take m (filter ?P hs)"
    using m snoc.prems by (simp add: take_Cons' min_def TERMINAL_HISTORY_CAP_def)
  then have eq: "take (Suc m) (history_of (fold (\<lambda>t s. appendHistoryEntry s (e t)) (ts @ [t]) state)) =
      e t # filter ?P (take n hs)" unfolding H tk by simp
  have cmds: "h_resumeCmd ` e ` set (ts @ [t]) \<subseteq> h_resumeCmd ` set (e t # filter ?P (take n hs))"
  proof
    fix c assume "c \<in> h_resumeCmd ` e ` set (ts @ [t])"
    then consider "c = h_resumeCmd (e t)" | "c \<noteq> h_resumeCmd (e t)" "c \<in> h_resumeCmd ` set (take n hs)"
      using n(2) by auto
    then show "c \<in> h_resumeCmd ` set (e t # filter ?P (take n hs))" by cases auto
  qed
  then have "h_resumeCmd ` e ` set (ts @ [t]) \<subseteq>
      h_resumeCmd ` set (take (Suc m) (history_of (fold (\<lambda>t s. appendHistoryEntry s (e t)) (ts @ [t]) state)))"
    unfolding eq .
  then show ?case using m by (intro exI [of _ "Suc m"]) simp
qed

section \<open>Properties\<close>

text \<open>Property C1: a restore loses no tab silently. Each persisted tab comes back as a terminal
  with the same label, commands and marks, or is reported as dropped or discarded; those that
  come back keep their order; and only terminals this restore launched itself, and that are in
  the tree, are listed as started (the caller may kill those).\<close>

theorem restore_accounts_for_every_tab:
  assumes "complete node" and "reifyTreeWithFreshPtys env pn node = (r, s)"
  shows "mset (map pt_key (collectPersistedTabs (Some node))) =
      mset (map tab_key (restored_tabs r)) + mset (map pt_key (rs_dropped s @ rs_discarded s)) \<and>
    subseq (map tab_key (restored_tabs r)) (map pt_key (collectPersistedTabs (Some node))) \<and>
    (\<forall>i\<in>set (rs_startedIds s). launched env i \<and> i \<in> t_id ` set (restored_tabs r))"
proof -
  obtain r0 where r0: "reifyTree env pn node empty_restore = (r0, s)"
    and r: "r = map_option disambiguateRestoredSessionTitles r0"
    using assms(2) by (auto simp: reifyTreeWithFreshPtys_def split: prod.splits)
  have keys: "map tab_key (restored_tabs r) = map tab_key (restored_tabs r0)"
    and ids: "map t_id (restored_tabs r) = map t_id (restored_tabs r0)"
    by (cases r0; simp add: r disambiguateRestored_same)+
  from ids have "t_id ` set (restored_tabs r) = t_id ` set (restored_tabs r0)" by (metis list.set_map)
  with reifyTree_restores [OF assms(1) r0] show ?thesis
    by (auto simp: restores_def keys empty_restore_def)
qed

definition demo_env :: restore_env where
  "demo_env = \<lparr>env_windows = False, env_now = 0, env_failures = (\<lambda>i. []), env_answer = (\<lambda>i. False),
     env_exists = (\<lambda>i. None), env_follows = (\<lambda>p. False),
     env_start = (\<lambda>k c. if k = 1 then None else Some (''t'' @ nat_str k)),
     env_uuid = (\<lambda>k. ''u'' @ nat_str k), env_pane_id = (\<lambda>k. ''p'' @ nat_str k)\<rparr>"

theorem restore_accounts_for_every_tab_witness:
  "length (restored_tabs (fst (reifyTreeWithFreshPtys demo_env ''app''
       (PLeaf (Some [bare_persisted ''a'', bare_persisted ''b'']) (Some 1) None)))) +
   length (rs_dropped (snd (reifyTreeWithFreshPtys demo_env ''app''
       (PLeaf (Some [bare_persisted ''a'', bare_persisted ''b'']) (Some 1) None))) @
     rs_discarded (snd (reifyTreeWithFreshPtys demo_env ''app''
       (PLeaf (Some [bare_persisted ''a'', bare_persisted ''b'']) (Some 1) None)))) = 2"
proof -
  let ?n = "PLeaf (Some [bare_persisted ''a'', bare_persisted ''b'']) (Some 1) None"
  let ?r = "reifyTreeWithFreshPtys demo_env ''app'' ?n"
  have "mset (map pt_key (collectPersistedTabs (Some ?n))) =
      mset (map tab_key (restored_tabs (fst ?r))) + mset (map pt_key (rs_dropped (snd ?r) @ rs_discarded (snd ?r)))"
    using restore_accounts_for_every_tab [of ?n demo_env "''app''" "fst ?r" "snd ?r"] by simp
  then have "size (mset (map pt_key (collectPersistedTabs (Some ?n)))) =
      size (mset (map tab_key (restored_tabs (fst ?r)))) +
      size (mset (map pt_key (rs_dropped (snd ?r) @ rs_discarded (snd ?r))))" by (metis size_union)
  then show ?thesis by simp
qed

text \<open>Property C15: what is saved is what comes back. Of a tree saved and restored with nothing
  dropped or discarded, exactly the terminal tabs return, in order, each with its label, commands, pin,
  emoji, colour, fork mark, memory, origin and conversation, with its key in the message history when it has
  one, and with the title of its conversation, behind which a number may stand when the agent named it. No
  identifier is saved except that of a terminal another machine owns, and that it is to be started here only for
  such a one; whether the terminal itself is kept or started anew is decided on restore.\<close>

theorem save_restore_roundtrip:
  assumes "reifyTreeWithFreshPtys env pn (treeToPersisted node) = (r, s)"
    and "rs_dropped s = []" and "rs_discarded s = []"
  shows "list_all2 (\<lambda>t t'. tab_key t' = tab_key t \<and> same_title t t' \<and>
        (\<forall>k. keep_truthy (historyKey t) = Some k \<longrightarrow> historyKey t' = Some k))
      (filter isTerminalTab (collectTerminals node)) (restored_tabs r) \<and>
    (\<forall>t\<in>set (collectTerminals node). pt_id (tab_to_persisted t) =
       (if isPeerMarked (t_id t) \<or> peerAdopted t then Some (t_id t) else None) \<and>
       pt_restoreHere (tab_to_persisted t) = (peerAdopted t \<and> restoreHere t))"
proof -
  let ?tabs = "filter isTerminalTab (collectTerminals node)"
  have c: "complete (treeToPersisted node)" by (induction node) auto
  have col: "collectPersistedTabs (Some (treeToPersisted node)) = map tab_to_persisted ?tabs"
    by (induction node) simp_all
  obtain r0 where r0: "reifyTree env pn (treeToPersisted node) empty_restore = (r0, s)"
    and r: "r = map_option disambiguateRestoredSessionTitles r0"
    using assms(1) by (auto simp: reifyTreeWithFreshPtys_def split: prod.splits)
  obtain kept where m: "mset (map tab_key ?tabs) = mset (map tab_key (restored_tabs r0))"
    and kept: "subseq kept (map tab_to_persisted ?tabs)" "list_all2 came_from kept (restored_tabs r0)"
    using reifyTree_restores [OF c r0] assms(2,3) unfolding restores_def col by (auto simp: comp_def)
  have "length kept = length (map tab_to_persisted ?tabs)"
    using mset_eq_length [OF m] list_all2_lengthD [OF kept(2)] by simp
  then have "kept = map tab_to_persisted ?tabs" using kept(1) by (simp add: subseq_same_length)
  then have before: "list_all2 (\<lambda>t u. came_from (tab_to_persisted t) u) ?tabs (restored_tabs r0)"
    using kept(2) by (simp add: list_all2_map1)
  have after: "list_all2 retitled (restored_tabs r0) (restored_tabs r)"
    using restored_same by (cases r0) (simp_all add: r)
  have "tab_key t' = tab_key t \<and> same_title t t' \<and> (\<forall>k. keep_truthy (historyKey t) = Some k \<longrightarrow> historyKey t' = Some k)"
    if f: "came_from (tab_to_persisted t) u" and l: "retitled u t'" for t u t'
  proof -
    have u: "tab_key u = tab_key t" "keep_truthy (sessionTitle u) = keep_truthy (sessionTitle t)"
      "\<forall>k. keep_truthy (historyKey t) = Some k \<longrightarrow> historyKey u = Some k"
      using f by (simp_all add: came_from_def) (simp_all add: tab_to_persisted_def)
    then have "sessionTitleSource u = sessionTitleSource t" by (simp add: tab_key_def)
    with u l show ?thesis by (simp add: retitled_def same_title_def)
  qed
  from list_all2_trans [OF this before after] show ?thesis by (simp add: tab_to_persisted_def)
qed

definition happy_env :: restore_env where
  "happy_env = demo_env\<lparr>env_start := (\<lambda>k c. Some (''t'' @ nat_str k))\<rparr>"

theorem save_restore_roundtrip_witness:
  "length (restored_tabs (fst (reifyTreeWithFreshPtys happy_env ''app''
      (treeToPersisted (Leaf (makePaneLeaf ''p'' [bare_tab ''1'' ''shell''] 0)))))) = 1"
proof -
  let ?n = "Leaf (makePaneLeaf ''p'' [bare_tab ''1'' ''shell''] 0)"
  let ?r = "reifyTreeWithFreshPtys happy_env ''app'' (treeToPersisted ?n)"
  have "isPeerMarked ''1'' = False" by code_simp
  then have "rs_dropped (snd ?r) = []" "rs_discarded (snd ?r) = []"
    by (simp_all add: reifyTreeWithFreshPtys_def makePaneLeaf_def bare_tab_def isTerminalTab_def reify_leaf_def
        tab_to_persisted_def reifyTab_def fresh_outcome_def startFresh_def happy_env_def empty_restore_def Let_def)
  with save_restore_roundtrip [of happy_env "''app''" ?n "fst ?r" "snd ?r"]
  show ?thesis by (auto simp: isTerminalTab_def makePaneLeaf_def bare_tab_def dest: list_all2_lengthD)
qed

text \<open>The tab that was in view stays in view. When the selected tab of a pane got a
  terminal, the restored pane selects that very terminal, however many tabs before it were lost;
  otherwise a pane with tabs still selects one of them.\<close>

theorem restore_keeps_active_tab:
  assumes "reify_leaf env pn (Some ts) active service s = (Some pane, s')"
    and "j = nat (clampIdx active (length ts))" and "j < length ts"
  shows "case reifyTab env (rs_launches s + j) (ts ! j) pn of
      Backed i adopted rp \<Rightarrow> at_index (p_tabs pane) (p_activeTabIdx pane) =
        Some (restored_terminal (env_uuid env (rs_launches s + j)) (ts ! j) i adopted)
    | _ \<Rightarrow> p_tabs pane \<noteq> [] \<longrightarrow> at_index (p_tabs pane) (p_activeTabIdx pane) \<noteq> None"
  using assms by (rule reify_leaf_active)

theorem restore_keeps_active_tab_witness:
  "\<exists>pane s'. reify_leaf demo_env ''app'' (Some [bare_persisted ''a'', bare_persisted ''b'', bare_persisted ''c''])
       (Some 2) None empty_restore = (Some pane, s') \<and>
     map_option t_label (at_index (p_tabs pane) (p_activeTabIdx pane)) = Some ''c''"
proof -
  let ?ts = "[bare_persisted ''a'', bare_persisted ''b'', bare_persisted ''c'']"
  let ?r = "reify_leaf demo_env ''app'' (Some ?ts) (Some 2) None empty_restore"
  have out: "reifyTab demo_env k (bare_persisted l) ''app'' = (if k = 1 then Rejected else Backed (''t'' @ nat_str k) False False)"
    for k l by (simp add: reifyTab_def bare_persisted_def fresh_outcome_def startFresh_def demo_env_def)
  have "fst ?r \<noteq> None" by (simp add: reify_leaf_def Let_def out empty_restore_def)
  then obtain pane s' where r: "?r = (Some pane, s')" by (metis option.exhaust prod.collapse)
  from restore_keeps_active_tab [OF r, of 2]
  have "at_index (p_tabs pane) (p_activeTabIdx pane) =
      Some (restored_terminal (env_uuid demo_env 2) (bare_persisted ''c'') (''t'' @ nat_str 2) False)"
    by (simp add: clampIdx_def out empty_restore_def numeral_2_eq_2)
  with r show ?thesis by (simp add: restored_terminal_def makeTerminal_def bare_tab_def bare_persisted_def)
qed

text \<open>Asking a peer about a terminal takes at most 17 attempts half a second apart,
  after which the terminal is adopted; an answer that comes in time is the answer used.\<close>

theorem peer_check_bounded:
  assumes "\<forall>k<length failures. now + PEER_CHECK_RETRY_MS * int k \<le> failures ! k"
  shows "(17 \<le> length failures \<longrightarrow> shouldAdoptPeerTerminal now failures answer) \<and>
    ((\<forall>t\<in>set failures. t < now + PEER_CHECK_WINDOW_MS) \<longrightarrow>
       shouldAdoptPeerTerminal now failures answer = answer \<and> length failures \<le> 16)"
proof -
  have late: "now + PEER_CHECK_WINDOW_MS \<le> failures ! 16" if "17 \<le> length failures"
    using assms [rule_format, of 16] that by (simp add: PEER_CHECK_WINDOW_MS_def PEER_CHECK_RETRY_MS_def)
  have mem: "failures ! 16 \<in> set failures" if "17 \<le> length failures" using that by simp
  have few: "length failures \<le> 16" if "\<forall>t\<in>set failures. t < now + PEER_CHECK_WINDOW_MS"
  proof (rule ccontr)
    assume "\<not> length failures \<le> 16"
    then have n: "17 \<le> length failures" by simp
    with mem that have "failures ! 16 < now + PEER_CHECK_WINDOW_MS" by blast
    with late [OF n] show False by simp
  qed
  have "shouldAdoptPeerTerminal now failures answer" if n: "17 \<le> length failures"
    unfolding shouldAdoptPeerTerminal_def using late [OF n] mem [OF n] by (intro adopt_loop_late) blast
  with few show ?thesis by (simp add: shouldAdoptPeerTerminal_def adopt_loop_answer)
qed

theorem peer_check_bounded_witness:
  "shouldAdoptPeerTerminal 0 (map (\<lambda>k. 500 * int k) [0..<17]) False"
  using peer_check_bounded [of "map (\<lambda>k. 500 * int k) [0..<17]" 0 False]
  by (simp add: PEER_CHECK_RETRY_MS_def nth_append)

text \<open>Parking a tab in a project that is not open gives it a label no parked tab
  has and keeps every other tab, and closing it again by its identifier restores the tabs that
  were there.\<close>

theorem park_unpark:
  assumes "\<forall>t\<in>set (collectPersistedTabs n). pt_id t \<noteq> Some i" and "pt_id tab = Some i"
  shows "mset (collectPersistedTabs (Some (appendTabToPersistedTree n tab))) = add_mset tab (mset (collectPersistedTabs n)) \<and>
    snd (removeTabByIdFromTree (appendTabToPersistedTree n tab) i) \<and>
    collectPersistedTabs (fst (removeTabByIdFromTree (appendTabToPersistedTree n tab) i)) = collectPersistedTabs n \<and>
    pickParkedTerminalLabel (collectPersistedTabs n) \<notin> pt_label ` set (collectPersistedTabs n)"
proof -
  let ?n = "appendTabToPersistedTree n tab"
  obtain n' rem where rm: "removeTabByIdFromTree ?n i = (n', rem)" by fastforce
  have "tab \<in> set (collectPersistedTabs (Some ?n))"
    using mset_append_collect [of n tab] by (metis insert_iff set_mset_add_mset_insert set_mset_mset)
  then have "\<exists>t\<in>set (collectPersistedTabs (Some ?n)). pt_id t = Some i" using assms(2) by blast
  with removeTab_spec [OF rm] drop_first_append_collect [of n "\<lambda>t. pt_id t = Some i" tab] assms
  show ?thesis by (simp add: rm mset_append_collect pickParked_free)
qed

theorem park_unpark_witness:
  "collectPersistedTabs (fst (removeTabByIdFromTree (appendTabToPersistedTree
     (Some (PSplit None None None None)) ((bare_persisted ''a'')\<lparr>pt_id := Some ''x''\<rparr>)) ''x'')) = []"
  using park_unpark [of "Some (PSplit None None None None)" "''x''" "(bare_persisted ''a'')\<lparr>pt_id := Some ''x''\<rparr>"]
  by simp

text \<open>The resume history holds at most 20 sessions, one entry for each command,
  newest first; removing one removes exactly it; and up to 20 sessions lost in a restore are all
  in it afterwards.\<close>

theorem resume_history:
  assumes "history_ok state"
  shows "history_ok (appendHistoryEntry state entry) \<and> hd (history_of (appendHistoryEntry state entry)) = entry \<and>
    history_ok (removeHistoryEntry state cmd) \<and>
    set (history_of (removeHistoryEntry state cmd)) = {h \<in> set (history_of state). h_resumeCmd h \<noteq> cmd} \<and>
    (length lost \<le> TERMINAL_HISTORY_CAP \<longrightarrow>
       h_resumeCmd ` lost_entry now ` set lost \<subseteq>
         h_resumeCmd ` set (history_of (fold (\<lambda>t s. appendHistoryEntry s (lost_entry now t)) lost state)))"
proof -
  have "history_ok (removeHistoryEntry state cmd)"
    using assms unfolding history_ok_def history_remove
    by (auto simp: distinct_map_filter intro: order_trans [OF length_filter_le])
  moreover have "hd (history_of (appendHistoryEntry state entry)) = entry"
    unfolding history_append by (simp add: TERMINAL_HISTORY_CAP_def)
  moreover have "h_resumeCmd ` lost_entry now ` set lost \<subseteq>
      h_resumeCmd ` set (history_of (fold (\<lambda>t s. appendHistoryEntry s (lost_entry now t)) lost state))"
    if l: "length lost \<le> TERMINAL_HISTORY_CAP"
  proof -
    let ?hs = "history_of (fold (\<lambda>t s. appendHistoryEntry s (lost_entry now t)) lost state)"
    obtain n where "h_resumeCmd ` lost_entry now ` set lost \<subseteq> h_resumeCmd ` set (take n ?hs)"
      using history_prefix_fold [OF l, of "lost_entry now" state] by blast
    also have "\<dots> \<subseteq> h_resumeCmd ` set ?hs" by (rule image_mono [OF set_take_subset])
    finally show ?thesis .
  qed
  moreover have "set (history_of (removeHistoryEntry state cmd)) = {h \<in> set (history_of state). h_resumeCmd h \<noteq> cmd}"
    unfolding history_remove by simp
  ultimately show ?thesis using history_ok_append [OF assms] by blast
qed

theorem resume_history_witness:
  "history_ok (appendHistoryEntry default_terminals (lost_entry 0 ((bare_persisted ''a'')\<lparr>pt_resumeCmd := Some ''claude''\<rparr>)))"
  using resume_history [of default_terminals] by (simp add: history_ok_def default_terminals_def)

end
