(* ===== verification/SidebarLayout.thy ===== *)
theory SidebarLayout
  imports JsPrelude
begin

text \<open>
  \<open>desktop/frontend/src/components/sidebarLayout.ts\<close>: the sidebar's list of projects,
  folders and paired machines, and every move of its drag and drop. With
  \<open>ProjectGroup\<close> and \<open>isDuplicate\<close> of \<open>desktop/frontend/src/types.ts\<close>.

  A top-level token is a project name, \<open>group:<id>\<close> or \<open>peer:<slug>\<close>. The invariant
  \<open>layout_ok\<close> is what the rest of the sidebar relies on; the locale \<open>layout_move\<close> is the
  contract every move is held to: it keeps the invariant and neither loses nor repeats a project.
\<close>

section \<open>The layout\<close>

record project_group =
  g_id :: string
  g_name :: string
  g_collapsed :: bool
  g_members :: "string list"

record project_info =
  pr_name :: string
  pr_parentName :: "string option"

record sidebar_layout =
  so_order :: "string list"
  so_groups :: "project_group list"

definition isDuplicate :: "project_info \<Rightarrow> string list \<Rightarrow> bool" where
  "isDuplicate project present =
     (truthy (pr_parentName project) \<and> the (pr_parentName project) \<in> set present)"

definition GROUP_PREFIX :: string where "GROUP_PREFIX = ''group:''"
definition PEER_PREFIX :: string where "PEER_PREFIX = ''peer:''"
definition FOLDER_NEST_PREFIX :: string where "FOLDER_NEST_PREFIX = ''folder-nest:''"
definition FOLDER_BODY_PREFIX :: string where "FOLDER_BODY_PREFIX = ''folder-body:''"

definition groupToken :: "string \<Rightarrow> string" where
  "groupToken i = GROUP_PREFIX @ i"

definition groupIdOf :: "string \<Rightarrow> string option" where
  "groupIdOf token = (if starts_with token GROUP_PREFIX then Some (drop (length GROUP_PREFIX) token) else None)"

definition peerToken :: "string \<Rightarrow> string" where
  "peerToken slug = PEER_PREFIX @ slug"

definition peerSlugOfToken :: "string \<Rightarrow> string option" where
  "peerSlugOfToken token = (if starts_with token PEER_PREFIX then Some (drop (length PEER_PREFIX) token) else None)"

definition isPeerToken :: "string \<Rightarrow> bool" where
  "isPeerToken token = starts_with token PEER_PREFIX"

definition syncPeerTokens :: "string list \<Rightarrow> string list \<Rightarrow> string list" where
  "syncPeerTokens order slugs =
     (let kept = filter (\<lambda>t. case peerSlugOfToken t of None \<Rightarrow> True | Some slug \<Rightarrow> slug \<in> set slugs) order;
          missing = filter (\<lambda>t. t \<notin> set kept) (map peerToken slugs)
      in if missing = [] then (if length kept = length order then order else kept) else kept @ missing)"

definition folderNestId :: "string \<Rightarrow> string" where
  "folderNestId i = FOLDER_NEST_PREFIX @ i"

definition folderBodyId :: "string \<Rightarrow> string" where
  "folderBodyId i = FOLDER_BODY_PREFIX @ i"

definition dropFolderTarget :: "string \<Rightarrow> string option" where
  "dropFolderTarget i =
     (if starts_with i FOLDER_NEST_PREFIX then Some (drop (length FOLDER_NEST_PREFIX) i)
      else if starts_with i FOLDER_BODY_PREFIX then Some (drop (length FOLDER_BODY_PREFIX) i)
      else None)"

definition groupById :: "project_group list \<Rightarrow> string \<Rightarrow> project_group option" where
  "groupById groups i = List.find (\<lambda>g. g_id g = i) groups"

definition groupByName :: "project_group list \<Rightarrow> string \<Rightarrow> project_group option" where
  "groupByName groups name =
     (let wanted = trim name
      in or_else (List.find (\<lambda>g. trim (g_name g) = wanted) groups)
           (List.find (\<lambda>g. to_lower (trim (g_name g)) = to_lower wanted) groups))"

definition membershipMap :: "project_group list \<Rightarrow> (string \<times> string) list" where
  "membershipMap groups =
     fold (\<lambda>(name, gid). AList.update name gid) (concat (map (\<lambda>g. map (\<lambda>m. (m, g_id g)) (g_members g)) groups)) []"

section \<open>Moves\<close>

definition detach :: "sidebar_layout \<Rightarrow> string \<Rightarrow> sidebar_layout" where
  "detach l name = \<lparr>
     so_order = filter (\<lambda>t. t \<noteq> name) (so_order l),
     so_groups = map (\<lambda>g. if name \<in> set (g_members g)
        then g\<lparr>g_members := filter (\<lambda>m. m \<noteq> name) (g_members g)\<rparr> else g) (so_groups l)\<rparr>"

definition splice_in :: "int \<Rightarrow> 'a \<Rightarrow> 'a list \<Rightarrow> 'a list" where
  "splice_in i x xs = insert_at (clamp_int i 0 (int (length xs))) x xs"

definition moveTopLevel :: "sidebar_layout \<Rightarrow> string \<Rightarrow> int \<Rightarrow> sidebar_layout" where
  "moveTopLevel l token toIndex =
     l\<lparr>so_order := splice_in toIndex token (filter (\<lambda>t. t \<noteq> token) (so_order l))\<rparr>"

definition moveIntoGroup :: "sidebar_layout \<Rightarrow> string \<Rightarrow> string \<Rightarrow> int option \<Rightarrow> sidebar_layout" where
  "moveIntoGroup l name groupId toIndex =
     (let base = detach l name
      in \<lparr>so_order = so_order base,
          so_groups = map (\<lambda>g. if g_id g \<noteq> groupId then g
            else g\<lparr>g_members := splice_in (case toIndex of None \<Rightarrow> int (length (g_members g)) | Some i \<Rightarrow> i) name (g_members g)\<rparr>)
            (so_groups base)\<rparr>)"

definition moveOutOfGroup :: "sidebar_layout \<Rightarrow> string \<Rightarrow> int \<Rightarrow> sidebar_layout" where
  "moveOutOfGroup l name toOrderIndex =
     (let base = detach l name
      in \<lparr>so_order = splice_in toOrderIndex name (so_order base), so_groups = so_groups base\<rparr>)"

definition reorderWithinGroup :: "sidebar_layout \<Rightarrow> string \<Rightarrow> string \<Rightarrow> int \<Rightarrow> sidebar_layout" where
  "reorderWithinGroup l groupId name toIndex =
     l\<lparr>so_groups := map (\<lambda>g. if g_id g \<noteq> groupId then g
        else g\<lparr>g_members := splice_in toIndex name (filter (\<lambda>m. m \<noteq> name) (g_members g))\<rparr>) (so_groups l)\<rparr>"

definition addGroup :: "sidebar_layout \<Rightarrow> project_group \<Rightarrow> int option \<Rightarrow> sidebar_layout" where
  "addGroup l grp atIndex = \<lparr>
     so_order = splice_in (case atIndex of None \<Rightarrow> int (length (so_order l)) | Some i \<Rightarrow> i)
       (groupToken (g_id grp)) (so_order l),
     so_groups = so_groups l @ [grp]\<rparr>"

definition removeGroup :: "sidebar_layout \<Rightarrow> string \<Rightarrow> sidebar_layout" where
  "removeGroup l groupId =
     (case groupById (so_groups l) groupId of
        None \<Rightarrow> l
      | Some g \<Rightarrow>
          let pos = indexOf (groupToken groupId) (so_order l)
          in \<lparr>so_order = (if 0 \<le> pos
                then take (nat pos) (so_order l) @ g_members g @ drop (Suc (nat pos)) (so_order l)
                else so_order l @ g_members g),
              so_groups = filter (\<lambda>x. g_id x \<noteq> groupId) (so_groups l)\<rparr>)"

definition renameGroup :: "sidebar_layout \<Rightarrow> string \<Rightarrow> string \<Rightarrow> sidebar_layout" where
  "renameGroup l groupId name =
     l\<lparr>so_groups := map (\<lambda>g. if g_id g = groupId then g\<lparr>g_name := name\<rparr> else g) (so_groups l)\<rparr>"

definition setGroupCollapsed :: "sidebar_layout \<Rightarrow> string \<Rightarrow> bool \<Rightarrow> sidebar_layout" where
  "setGroupCollapsed l groupId collapsed =
     l\<lparr>so_groups := map (\<lambda>g. if g_id g = groupId then g\<lparr>g_collapsed := collapsed\<rparr> else g) (so_groups l)\<rparr>"

section \<open>Lookups\<close>

text \<open>\<open>byName\<close> is the \<open>Map\<close> of the projects by name.\<close>

definition by_name :: "project_info list \<Rightarrow> string \<Rightarrow> project_info option" where
  "by_name projects name = map_of (rev (map (\<lambda>p. (pr_name p, p)) projects)) name"

fun removal_names :: "project_info list \<Rightarrow> (string \<Rightarrow> project_info option) \<Rightarrow> string list \<Rightarrow> string list \<Rightarrow> string list" where
  "removal_names projects byName [] names = names"
| "removal_names projects byName (seed # seeds) names =
     (case byName seed of
        None \<Rightarrow> removal_names projects byName seeds names
      | Some p \<Rightarrow>
          let names = set_add seed names;
              copies = (if truthy (pr_parentName p) then []
                        else map pr_name (filter (\<lambda>q. pr_parentName q = Some seed) projects))
          in removal_names projects byName seeds (fold set_add copies names))"

definition expandRemovalSet ::
  "project_info list \<Rightarrow> (string \<Rightarrow> project_info option) \<Rightarrow> string list \<Rightarrow> project_info list" where
  "expandRemovalSet projects byName seeds =
     filter (\<lambda>p. pr_name p \<in> set (removal_names projects byName seeds [])) projects"

definition topLevelIndexOfProject :: "sidebar_layout \<Rightarrow> string \<Rightarrow> int" where
  "topLevelIndexOfProject l name =
     (let direct = indexOf name (so_order l)
      in if 0 \<le> direct then direct
         else case keep_truthy (map_of (membershipMap (so_groups l)) name) of
           None \<Rightarrow> int (length (so_order l))
         | Some gid \<Rightarrow>
             let ti = indexOf (groupToken gid) (so_order l)
             in if 0 \<le> ti then ti else int (length (so_order l)))"

definition projectAnchorIndex :: "sidebar_layout \<Rightarrow> (string \<Rightarrow> project_info option) \<Rightarrow> string \<Rightarrow> int" where
  "projectAnchorIndex l byName name =
     (let direct = topLevelIndexOfProject l name
      in if direct \<noteq> int (length (so_order l)) then direct
         else case (case byName name of None \<Rightarrow> None | Some p \<Rightarrow> keep_truthy (pr_parentName p)) of
           None \<Rightarrow> direct
         | Some parent \<Rightarrow> topLevelIndexOfProject l parent)"

text \<open>The loop \<open>while (i < members.length && ...) i++\<close>.\<close>

definition dupInsertIndex ::
  "sidebar_layout \<Rightarrow> (string \<Rightarrow> project_info option) \<Rightarrow> string \<Rightarrow> string \<Rightarrow> int option" where
  "dupInsertIndex l byName name groupId =
     (case (case byName name of None \<Rightarrow> None | Some p \<Rightarrow> keep_truthy (pr_parentName p)) of
        None \<Rightarrow> None
      | Some parentName \<Rightarrow>
          (case groupById (so_groups l) groupId of
             None \<Rightarrow> None
           | Some g \<Rightarrow>
               let parentIdx = indexOf parentName (g_members g)
               in if parentIdx < 0 then None
                  else Some (parentIdx + 1 + int (length (takeWhile
                    (\<lambda>m. case byName m of None \<Rightarrow> False | Some p \<Rightarrow> pr_parentName p = Some parentName)
                    (drop (nat parentIdx + 1) (g_members g)))))))"

text \<open>The \<open>Map\<close> from parents to their nested duplicates, in insertion order.\<close>

definition nestedDuplicates :: "project_group list \<Rightarrow> project_info list \<Rightarrow> (string \<times> string list) list" where
  "nestedDuplicates groups projects =
     (let names = map pr_name projects; claimed = map fst (membershipMap groups)
      in fold (\<lambda>p out.
           if \<not> isDuplicate p names \<or> pr_name p \<in> set claimed then out
           else AList.update (the (pr_parentName p))
             ((case map_of out (the (pr_parentName p)) of None \<Rightarrow> [] | Some ns \<Rightarrow> ns) @ [pr_name p]) out) projects [])"

definition nested_of :: "(string \<times> string list) list \<Rightarrow> string \<Rightarrow> string list" where
  "nested_of nested name = (case map_of nested name of None \<Rightarrow> [] | Some ns \<Rightarrow> ns)"

definition resolveDuplicateDrop ::
  "(string \<times> string list) list \<Rightarrow> string \<Rightarrow> string \<Rightarrow> string \<Rightarrow> string option" where
  "resolveDuplicateDrop nested parentName activeId overId =
     (let siblings = nested_of nested parentName;
          over = (if overId = parentName then (case siblings of [] \<Rightarrow> None | s # _ \<Rightarrow> Some s) else Some overId)
      in case over of
           None \<Rightarrow> None
         | Some o' \<Rightarrow> if o' \<noteq> activeId \<and> o' \<in> set siblings then Some o' else None)"

definition flattenForProjectOrder :: "sidebar_layout \<Rightarrow> project_info list \<Rightarrow> string list" where
  "flattenForProjectOrder l projects =
     (let nested = nestedDuplicates (so_groups l) projects;
          push = (\<lambda>name out. out @ name # nested_of nested name)
      in fold (\<lambda>token out.
           case keep_truthy (groupIdOf token) of
             Some gid \<Rightarrow>
               (case map_of (rev (map (\<lambda>g. (g_id g, g)) (so_groups l))) gid of
                  None \<Rightarrow> out | Some g \<Rightarrow> fold push (g_members g) out)
           | None \<Rightarrow> if \<not> isPeerToken token then push token out else out) (so_order l) [])"

section \<open>Reconciling\<close>

fun claim_members :: "project_group list \<Rightarrow> string list \<Rightarrow> project_group list \<times> string list" where
  "claim_members [] claimed = ([], claimed)"
| "claim_members (g # gs) claimed =
     (let members = filter (\<lambda>m. m \<notin> set claimed) (g_members g)
      in case claim_members gs (fold set_add members claimed) of
           (rest, claimed) \<Rightarrow> (g\<lparr>g_members := members\<rparr> # rest, claimed))"

text \<open>The array \<open>order\<close> and the set \<open>seen\<close> grow together: \<open>set_add\<close> on one list.\<close>

definition reconcile :: "sidebar_layout \<Rightarrow> string list \<Rightarrow> string list \<Rightarrow> sidebar_layout" where
  "reconcile l topLevelNames memberNames =
     (case claim_members (so_groups l) [] of (groups, claimed) \<Rightarrow>
        let looseOk = (\<lambda>name. name \<in> set topLevelNames \<or> name \<notin> set memberNames);
            keep = (\<lambda>token. case keep_truthy (groupIdOf token) of
                Some gid \<Rightarrow> gid \<in> g_id ` set groups
              | None \<Rightarrow> isPeerToken token \<or> (looseOk token \<and> token \<notin> set claimed));
            order = fold (\<lambda>token out. if keep token then set_add token out else out) (so_order l) [];
            order = fold (\<lambda>g out. set_add (groupToken (g_id g)) out) groups order;
            order = fold (\<lambda>name out. if name \<notin> set claimed then set_add name out else out) topLevelNames order
        in \<lparr>so_order = order, so_groups = groups\<rparr>)"

definition forgetProjects :: "sidebar_layout \<Rightarrow> string list \<Rightarrow> sidebar_layout" where
  "forgetProjects l gone =
     (if gone = [] then l
      else \<lparr>
        so_order = filter (\<lambda>t. groupIdOf t \<noteq> None \<or> t \<notin> set gone) (so_order l),
        so_groups = map (\<lambda>g. if \<exists>m\<in>set (g_members g). m \<in> set gone
          then g\<lparr>g_members := filter (\<lambda>m. m \<notin> set gone) (g_members g)\<rparr> else g) (so_groups l)\<rparr>)"

section \<open>Dragging\<close>

datatype sidebar_node = NGroup string | NPeer string | NLoose string | NMember string string

fun isSection :: "sidebar_node \<Rightarrow> bool" where
  "isSection (NGroup _) = True"
| "isSection (NPeer _) = True"
| "isSection _ = False"

definition classify :: "sidebar_layout \<Rightarrow> string \<Rightarrow> sidebar_node option" where
  "classify l i =
     (case keep_truthy (groupIdOf i) of
        Some gid \<Rightarrow> if groupById (so_groups l) gid \<noteq> None then Some (NGroup gid) else None
      | None \<Rightarrow>
          (case keep_truthy (peerSlugOfToken i) of
             Some slug \<Rightarrow> if i \<in> set (so_order l) then Some (NPeer slug) else None
           | None \<Rightarrow>
               (case List.find (\<lambda>g. i \<in> set (g_members g)) (so_groups l) of
                  Some owner \<Rightarrow> Some (NMember i (g_id owner))
                | None \<Rightarrow> if i \<in> set (so_order l) then Some (NLoose i) else None)))"

fun node_name :: "sidebar_node \<Rightarrow> string" where
  "node_name (NLoose name) = name"
| "node_name (NMember name _) = name"
| "node_name (NGroup i) = i"
| "node_name (NPeer slug) = slug"

fun in_group :: "sidebar_node \<Rightarrow> string \<Rightarrow> bool" where
  "in_group (NMember _ gid) i = (gid = i)"
| "in_group _ i = False"

definition resolveSidebarDrop :: "sidebar_layout \<Rightarrow> string \<Rightarrow> string \<Rightarrow> sidebar_layout option" where
  "resolveSidebarDrop l activeId overId =
     (if activeId = overId then None
      else case classify l activeId of
        None \<Rightarrow> None
      | Some a \<Rightarrow>
          (case dropFolderTarget overId of
             Some folder \<Rightarrow>
               if isSection a then None
               else if in_group a folder then None
               else Some (moveIntoGroup l (node_name a) folder None)
           | None \<Rightarrow>
               (case classify l overId of
                  None \<Rightarrow> None
                | Some (NMember oname ogid) \<Rightarrow>
                    if isSection a then None
                    else (case groupById (so_groups l) ogid of
                       None \<Rightarrow> None
                     | Some g \<Rightarrow>
                         let overIdx = indexOf oname (g_members g)
                         in if in_group a ogid then Some (reorderWithinGroup l ogid (node_name a) overIdx)
                            else Some (moveIntoGroup l (node_name a) ogid (Some overIdx)))
                | Some _ \<Rightarrow>
                    let toIndex = indexOf overId (so_order l)
                    in (case a of
                          NMember name _ \<Rightarrow> Some (moveOutOfGroup l name toIndex)
                        | _ \<Rightarrow> Some (moveTopLevel l activeId toIndex)))))"

definition rangeBetween :: "string list \<Rightarrow> string \<Rightarrow> string \<Rightarrow> string list" where
  "rangeBetween order a b =
     (let i = indexOf a order; j = indexOf b order
      in if i = -1 \<or> j = -1 then []
         else case (if i \<le> j then (i, j) else (j, i)) of
           (lo, hi) \<Rightarrow> take (nat (hi + 1) - nat lo) (drop (nat lo) order))"

definition layoutsEqual :: "sidebar_layout \<Rightarrow> sidebar_layout \<Rightarrow> bool" where
  "layoutsEqual a b =
     (so_order a = so_order b \<and> length (so_groups a) = length (so_groups b) \<and>
      list_all (\<lambda>(ga, gb). g_id ga = g_id gb \<and> g_name ga = g_name gb \<and>
        g_collapsed ga = g_collapsed gb \<and> g_members ga = g_members gb) (zip (so_groups a) (so_groups b)))"

section \<open>The invariant\<close>

abbreviation members_of :: "sidebar_layout \<Rightarrow> string list" where
  "members_of l \<equiv> concat (map g_members (so_groups l))"

abbreviation group_ids :: "sidebar_layout \<Rightarrow> string list" where
  "group_ids l \<equiv> map g_id (so_groups l)"

text \<open>Everything a layout places: its slots and its folders' members.\<close>

definition placed :: "sidebar_layout \<Rightarrow> string list" where
  "placed l = so_order l @ members_of l"

definition plain :: "string \<Rightarrow> bool" where
  "plain t \<longleftrightarrow> \<not> truthy (groupIdOf t) \<and> \<not> isPeerToken t"

text \<open>The names of the projects a layout places.\<close>

definition names_of :: "sidebar_layout \<Rightarrow> string list" where
  "names_of l = filter plain (placed l)"

text \<open>
  Nothing is placed twice; folders have identifiers of their own; the folders' slots are exactly
  the \<open>group:\<close> tokens; and members are project names.
\<close>

definition layout_ok :: "sidebar_layout \<Rightarrow> bool" where
  "layout_ok l \<longleftrightarrow>
     distinct (placed l) \<and> distinct (group_ids l) \<and> [] \<notin> set (group_ids l) \<and>
     (\<forall>i. i \<noteq> [] \<longrightarrow> (groupToken i \<in> set (so_order l) \<longleftrightarrow> i \<in> set (group_ids l))) \<and>
     (\<forall>m\<in>set (members_of l). plain m) \<and> ''peer:'' \<notin> set (so_order l)"

lemma groupIdOf_token [simp]: "groupIdOf (groupToken i) = Some i"
  by (simp add: groupIdOf_def groupToken_def)

lemma groupIdOf_Some: "groupIdOf t = Some i \<longleftrightarrow> t = groupToken i"
proof
  assume t: "groupIdOf t = Some i"
  then have "starts_with t GROUP_PREFIX" "i = drop (length GROUP_PREFIX) t"
    by (auto simp: groupIdOf_def split: if_splits)
  with starts_with_split [of t GROUP_PREFIX] show "t = groupToken i" by (simp add: groupToken_def)
qed simp

lemma groupToken_inject [simp]: "groupToken i = groupToken j \<longleftrightarrow> i = j"
  by (simp add: groupToken_def)

lemma isPeerToken_groupToken [simp]: "\<not> isPeerToken (groupToken i)"
  by (simp add: isPeerToken_def groupToken_def starts_with_def GROUP_PREFIX_def PEER_PREFIX_def)

lemma groupToken_not_peer [simp]: "groupToken i \<noteq> ''peer:''" "''peer:'' \<noteq> groupToken i"
  by (simp_all add: groupToken_def GROUP_PREFIX_def)

lemma not_plain_groupToken [simp]: "i \<noteq> [] \<Longrightarrow> \<not> plain (groupToken i)"
  by (cases i) (simp_all add: plain_def)

lemma not_plain: "\<not> plain t \<longleftrightarrow> (\<exists>i. i \<noteq> [] \<and> t = groupToken i) \<or> isPeerToken t"
proof (cases "groupIdOf t")
  case None
  then show ?thesis using groupIdOf_Some by (auto simp: plain_def)
next
  case (Some i)
  then have "t = groupToken i" by (simp add: groupIdOf_Some)
  then show ?thesis by (cases i) (auto simp: plain_def)
qed

lemma not_plain_peer [simp]: "\<not> plain ''peer:''"
  by (simp add: plain_def isPeerToken_def PEER_PREFIX_def starts_with_def)

text \<open>A rearrangement that keeps the folders and what is placed keeps the invariant.\<close>

lemma layout_ok_rearranged:
  assumes ok: "layout_ok l" and m: "mset (placed l') = mset (placed l)"
    and ids: "group_ids l' = group_ids l" and p: "\<forall>m\<in>set (members_of l'). plain m"
  shows "layout_ok l' \<and> mset (names_of l') = mset (names_of l)"
proof -
  have slots: "t \<in> set (so_order l') \<longleftrightarrow> t \<in> set (so_order l)" if "\<not> plain t" for t
  proof -
    have "set (placed l') = set (placed l)" using m by (metis set_mset_mset)
    moreover have "t \<notin> set (members_of l')" "t \<notin> set (members_of l)"
      using that p ok unfolding layout_ok_def by blast+
    ultimately show ?thesis by (auto simp: placed_def)
  qed
  have "distinct (placed l')" using ok mset_eq_imp_distinct_iff [OF m] by (simp add: layout_ok_def)
  moreover have "mset (names_of l') = mset (names_of l)" using m by (simp add: names_of_def)
  ultimately show ?thesis using ok slots p unfolding layout_ok_def ids by simp
qed

text \<open>
  What every move of the sidebar promises. The client of the contract may chain moves in any
  order: the projects stay the ones there were.
\<close>

locale layout_move =
  fixes move :: "'a \<Rightarrow> sidebar_layout \<Rightarrow> sidebar_layout"
    and can :: "'a \<Rightarrow> sidebar_layout \<Rightarrow> bool"
  assumes keeps_ok: "layout_ok l \<Longrightarrow> can a l \<Longrightarrow> layout_ok (move a l)"
    and keeps_names: "layout_ok l \<Longrightarrow> can a l \<Longrightarrow> mset (names_of (move a l)) = mset (names_of l)"
begin

lemma keeps: "layout_ok l \<Longrightarrow> can a l \<Longrightarrow> layout_ok (move a l) \<and> mset (names_of (move a l)) = mset (names_of l)"
  by (simp add: keeps_ok keeps_names)

lemma keeps_set: "layout_ok l \<Longrightarrow> can a l \<Longrightarrow> set (names_of (move a l)) = set (names_of l)"
  by (metis keeps_names set_mset_mset)

end

lemma mset_splice_in [simp]: "mset (splice_in i x xs) = add_mset x (mset xs)"
  by (simp add: splice_in_def)

lemma set_splice_in [simp]: "set (splice_in i x xs) = insert x (set xs)"
  by (simp add: splice_in_def)

lemma mset_concat_filter: "mset (concat (map (\<lambda>g. filter P (f g)) gs)) = filter_mset P (mset (concat (map f gs)))"
  by (induction gs) simp_all

lemma mset_remove_once: "distinct xs \<Longrightarrow> x \<in> set xs \<Longrightarrow> add_mset x (filter_mset (\<lambda>y. y \<noteq> x) (mset xs)) = mset xs"
proof (induction xs)
  case (Cons y ys)
  show ?case
  proof (cases "y = x")
    case True
    with Cons.prems have "filter_mset (\<lambda>z. z \<noteq> x) (mset ys) = mset ys" by (auto intro: filter_mset_cong [of _ _ _ "\<lambda>_. True", simplified])
    with True show ?thesis by simp
  next
    case False
    with Cons show ?thesis by (simp add: add_mset_commute)
  qed
qed simp

lemma filter_neq_absent: "x \<notin> set xs \<Longrightarrow> filter (\<lambda>m. m \<noteq> x) xs = xs"
  by (induction xs) auto

lemma not_image: "x \<notin> f ` S \<Longrightarrow> y \<in> S \<Longrightarrow> f y \<noteq> x"
  by (metis image_eqI)

lemma detach_members [simp]:
  "g_members (if x \<in> set (g_members g) then g\<lparr>g_members := filter (\<lambda>m. m \<noteq> x) (g_members g)\<rparr> else g) =
   filter (\<lambda>m. m \<noteq> x) (g_members g)"
  "g_id (if x \<in> set (g_members g) then g\<lparr>g_members := filter (\<lambda>m. m \<noteq> x) (g_members g)\<rparr> else g) = g_id g"
  by (simp_all add: filter_neq_absent)

lemma members_detach: "map g_members (so_groups (detach l x)) = map (\<lambda>g. filter (\<lambda>m. m \<noteq> x) (g_members g)) (so_groups l)"
  and ids_detach [simp]: "group_ids (detach l x) = group_ids l"
  by (simp_all add: detach_def o_def)

lemma placed_detach:
  "layout_ok l \<Longrightarrow> x \<in> set (placed l) \<Longrightarrow> add_mset x (mset (placed (detach l x))) = mset (placed l)"
proof -
  assume ok: "layout_ok l" and x: "x \<in> set (placed l)"
  have "mset (placed (detach l x)) = filter_mset (\<lambda>y. y \<noteq> x) (mset (placed l))"
    by (simp add: placed_def members_detach mset_concat_filter [where f = g_members]) (simp add: detach_def)
  then show ?thesis using mset_remove_once [of "placed l" x] ok x by (simp add: layout_ok_def)
qed

lemma mset_into_group:
  "distinct (map g_id gs) \<Longrightarrow> gid \<in> set (map g_id gs) \<Longrightarrow>
   (\<And>g. mset (g_members (u g)) = add_mset x (mset (g_members g))) \<Longrightarrow>
   mset (concat (map g_members (map (\<lambda>g. if g_id g \<noteq> gid then g else u g) gs))) =
     add_mset x (mset (concat (map g_members gs)))"
proof (induction gs)
  case (Cons g gs)
  show ?case
  proof (cases "g_id g = gid")
    case True
    with Cons.prems(1) have "\<And>h. h \<in> set gs \<Longrightarrow> g_id h \<noteq> gid" using not_image [of gid g_id "set gs"] by auto
    then have "map (\<lambda>g. if g_id g \<noteq> gid then g else u g) gs = gs" by (auto intro: map_idI)
    with True Cons.prems(3) [of g] show ?thesis by simp
  next
    case False
    with Cons show ?thesis by simp
  qed
qed simp

lemma ids_update: "(\<And>g. g_id (u g) = g_id g) \<Longrightarrow> map g_id (map (\<lambda>g. if g_id g \<noteq> gid then g else u g) gs) = map g_id gs"
  by (induction gs) auto

definition has_group :: "sidebar_layout \<Rightarrow> string \<Rightarrow> bool" where
  "has_group l gid \<longleftrightarrow> gid \<in> set (group_ids l)"

lemma moveIntoGroup_keeps:
  assumes ok: "layout_ok l" and x: "x \<in> set (names_of l)" and g: "has_group l gid"
  shows "layout_ok (moveIntoGroup l x gid i) \<and> mset (names_of (moveIntoGroup l x gid i)) = mset (names_of l)"
proof (rule layout_ok_rearranged [OF ok])
  let ?u = "\<lambda>g. g\<lparr>g_members := splice_in (case i of None \<Rightarrow> int (length (g_members g)) | Some i \<Rightarrow> i) x (g_members g)\<rparr>"
  let ?gs = "so_groups (detach l x)"
  have gs: "so_groups (moveIntoGroup l x gid i) = map (\<lambda>g. if g_id g \<noteq> gid then g else ?u g) ?gs"
    by (simp add: moveIntoGroup_def Let_def)
  have d: "distinct (map g_id ?gs)" "gid \<in> set (map g_id ?gs)"
    using ok g by (simp_all add: layout_ok_def has_group_def)
  have m: "mset (members_of (moveIntoGroup l x gid i)) = add_mset x (mset (concat (map g_members ?gs)))"
    unfolding gs by (rule mset_into_group [OF d]) simp
  have "so_order (moveIntoGroup l x gid i) = so_order (detach l x)" by (simp add: moveIntoGroup_def Let_def)
  with m have "mset (placed (moveIntoGroup l x gid i)) = add_mset x (mset (placed (detach l x)))"
    by (simp add: placed_def)
  then show "mset (placed (moveIntoGroup l x gid i)) = mset (placed l)"
    using placed_detach [OF ok, of x] x by (simp add: names_of_def)
  show "group_ids (moveIntoGroup l x gid i) = group_ids l" unfolding gs by (subst ids_update) simp_all
  have "set (members_of (moveIntoGroup l x gid i)) = insert x (set (concat (map g_members ?gs)))"
    using m by (metis set_mset_add_mset_insert set_mset_mset)
  then show "\<forall>m\<in>set (members_of (moveIntoGroup l x gid i)). plain m"
    using ok x by (auto simp: members_detach layout_ok_def names_of_def)
qed

lemma moveOutOfGroup_keeps:
  assumes ok: "layout_ok l" and x: "x \<in> set (names_of l)"
  shows "layout_ok (moveOutOfGroup l x i) \<and> mset (names_of (moveOutOfGroup l x i)) = mset (names_of l)"
proof (rule layout_ok_rearranged [OF ok])
  have "mset (placed (moveOutOfGroup l x i)) = add_mset x (mset (placed (detach l x)))"
    by (simp add: moveOutOfGroup_def Let_def placed_def)
  then show "mset (placed (moveOutOfGroup l x i)) = mset (placed l)"
    using placed_detach [OF ok, of x] x by (simp add: names_of_def)
  show "group_ids (moveOutOfGroup l x i) = group_ids l" by (simp add: moveOutOfGroup_def Let_def)
  show "\<forall>m\<in>set (members_of (moveOutOfGroup l x i)). plain m"
    using ok by (auto simp: moveOutOfGroup_def Let_def members_detach layout_ok_def)
qed

lemma moveTopLevel_keeps:
  assumes ok: "layout_ok l" and x: "x \<in> set (so_order l)"
  shows "layout_ok (moveTopLevel l x i) \<and> mset (names_of (moveTopLevel l x i)) = mset (names_of l)"
proof (rule layout_ok_rearranged [OF ok])
  have "distinct (so_order l)" using ok by (simp add: layout_ok_def placed_def)
  then show "mset (placed (moveTopLevel l x i)) = mset (placed l)"
    using mset_remove_once [of "so_order l" x] x by (simp add: moveTopLevel_def placed_def)
qed (use ok in \<open>auto simp: moveTopLevel_def layout_ok_def\<close>)

definition member_of :: "sidebar_layout \<Rightarrow> string \<Rightarrow> string \<Rightarrow> bool" where
  "member_of l gid x \<longleftrightarrow> (\<exists>g\<in>set (so_groups l). g_id g = gid \<and> x \<in> set (g_members g))"

lemma member_names: "layout_ok l \<Longrightarrow> member_of l gid x \<Longrightarrow> x \<in> set (names_of l) \<and> has_group l gid"
  by (auto simp: member_of_def names_of_def placed_def layout_ok_def has_group_def)

lemma distinct_concat_members:
  "distinct (concat (map g_members gs)) \<Longrightarrow> g \<in> set gs \<Longrightarrow> h \<in> set gs \<Longrightarrow> x \<in> set (g_members g) \<Longrightarrow>
   x \<in> set (g_members h) \<Longrightarrow> g = h"
  by (induction gs) auto

lemma reorder_is_move:
  assumes ok: "layout_ok l" and m: "member_of l gid x"
  shows "reorderWithinGroup l gid x i = moveIntoGroup l x gid (Some i)"
proof -
  have "x \<notin> set (so_order l)" using ok m by (auto simp: layout_ok_def placed_def member_of_def)
  then have o: "filter (\<lambda>t. t \<noteq> x) (so_order l) = so_order l" by (auto simp: filter_id_conv)
  have other: "x \<notin> set (g_members g)" if "g \<in> set (so_groups l)" "g_id g \<noteq> gid" for g
  proof
    assume x: "x \<in> set (g_members g)"
    from m obtain h where h: "h \<in> set (so_groups l)" "g_id h = gid" "x \<in> set (g_members h)"
      by (auto simp: member_of_def)
    have "distinct (members_of l)" using ok by (simp add: layout_ok_def placed_def)
    from distinct_concat_members [OF this that(1) h(1) x h(3)] that(2) h(2) show False by simp
  qed
  show ?thesis using o other
    by (auto simp: reorderWithinGroup_def moveIntoGroup_def detach_def Let_def filter_id_conv)
qed

lemma reorder_keeps:
  assumes ok: "layout_ok l" and m: "member_of l gid x"
  shows "layout_ok (reorderWithinGroup l gid x i) \<and> mset (names_of (reorderWithinGroup l gid x i)) = mset (names_of l)"
  using moveIntoGroup_keeps [OF ok] member_names [OF ok m] by (simp add: reorder_is_move [OF ok m])

lemma groupById_Some: "groupById gs i = Some g \<Longrightarrow> g \<in> set gs \<and> g_id g = i"
  by (auto simp: groupById_def find_Some_iff)

lemma groupById_None: "groupById gs i = None \<longleftrightarrow> i \<notin> g_id ` set gs"
  by (auto simp: groupById_def find_None_iff)

lemma mset_members_split:
  "distinct (map g_id gs) \<Longrightarrow> g \<in> set gs \<Longrightarrow>
   mset (concat (map g_members gs)) =
     mset (g_members g) + mset (concat (map g_members (filter (\<lambda>x. g_id x \<noteq> g_id g) gs)))"
proof (induction gs)
  case (Cons h gs)
  show ?case
  proof (cases "h = g")
    case True
    with Cons.prems have "\<And>x. x \<in> set gs \<Longrightarrow> g_id x \<noteq> g_id g" using not_image [of "g_id g" g_id "set gs"] by auto
    then have "filter (\<lambda>x. g_id x \<noteq> g_id g) gs = gs" by (simp add: filter_id_conv)
    with True show ?thesis by simp
  next
    case False
    with Cons.prems have "g_id h \<noteq> g_id g" by force
    with False Cons show ?thesis by simp
  qed
qed simp

lemma order_split:
  assumes "t \<in> set xs" shows "xs = take (nat (indexOf t xs)) xs @ t # drop (Suc (nat (indexOf t xs))) xs"
proof -
  have "nat (indexOf t xs) < length xs" "xs ! nat (indexOf t xs) = t"
    using indexOf_nth [OF assms] indexOf_less [of t xs] indexOf_nonneg [of t xs] assms by auto
  then show ?thesis by (metis id_take_nth_drop)
qed

lemma removeGroup_keeps:
  assumes ok: "layout_ok l"
  shows "layout_ok (removeGroup l gid) \<and> mset (names_of (removeGroup l gid)) = mset (names_of l)"
proof (cases "groupById (so_groups l) gid")
  case None
  then show ?thesis using ok by (simp add: removeGroup_def)
next
  case (Some g)
  note g = groupById_Some [OF Some]
  let ?t = "groupToken gid" and ?l = "removeGroup l gid"
  have gid: "gid \<noteq> []" using ok g unfolding layout_ok_def by (metis image_eqI list.set_map)
  have t: "?t \<in> set (so_order l)" using ok g gid unfolding layout_ok_def by auto
  note split = order_split [OF t]
  have ord: "so_order ?l = take (nat (indexOf ?t (so_order l))) (so_order l) @ g_members g @
      drop (Suc (nat (indexOf ?t (so_order l)))) (so_order l)"
    using t by (simp add: removeGroup_def Some Let_def indexOf_nonneg)
  have gs: "so_groups ?l = filter (\<lambda>x. g_id x \<noteq> gid) (so_groups l)"
    by (simp add: removeGroup_def Some Let_def)
  have mo: "add_mset ?t (mset (so_order ?l)) = mset (so_order l) + mset (g_members g)"
  proof -
    have "mset (so_order l) = mset (take (nat (indexOf ?t (so_order l))) (so_order l)) +
        add_mset ?t (mset (drop (Suc (nat (indexOf ?t (so_order l)))) (so_order l)))"
      by (metis split mset.simps(2) mset_append)
    then show ?thesis by (simp add: ord)
  qed
  have "mset (members_of l) = mset (g_members g) + mset (members_of ?l)"
    using mset_members_split [of "so_groups l" g] ok g gs by (simp add: layout_ok_def)
  with mo have m: "mset (placed l) = add_mset ?t (mset (placed ?l))" by (simp add: placed_def ac_simps)
  have dist: "distinct (?t # placed ?l)"
    using ok mset_eq_imp_distinct_iff [of "?t # placed ?l" "placed l"] m by (simp add: layout_ok_def)
  have set_ord: "insert ?t (set (so_order ?l)) = set (so_order l) \<union> set (g_members g)"
    using mo by (metis set_mset_add_mset_insert set_mset_mset set_mset_union)
  have pl: "plain m" if "m \<in> set (g_members g)" for m using ok g that unfolding layout_ok_def by auto
  have slot: "groupToken i \<in> set (so_order ?l) \<longleftrightarrow> i \<in> set (group_ids ?l)" if i: "i \<noteq> []" for i
  proof (cases "i = gid")
    case True
    then show ?thesis using dist gs by (auto simp: placed_def)
  next
    case False
    have "groupToken i \<notin> set (g_members g)" using pl i by (metis not_plain_groupToken)
    then have "groupToken i \<in> set (so_order ?l) \<longleftrightarrow> groupToken i \<in> set (so_order l)"
      using set_ord False by (metis UnE UnI1 groupToken_inject insertE insertI2)
    also have "\<dots> \<longleftrightarrow> i \<in> set (group_ids l)" using ok i by (simp add: layout_ok_def)
    also have "\<dots> \<longleftrightarrow> i \<in> set (group_ids ?l)" using False gs by auto
    finally show ?thesis .
  qed
  have "''peer:'' \<notin> set (so_order ?l)"
    using set_ord pl ok by (metis UnE insertI2 layout_ok_def not_plain_peer)
  then have "layout_ok ?l" using dist slot ok gs
    unfolding layout_ok_def by (auto simp: distinct_map_filter)
  moreover have "mset (names_of ?l) = mset (names_of l)" using m gid by (simp add: names_of_def)
  ultimately show ?thesis by simp
qed

lemma addGroup_keeps:
  assumes ok: "layout_ok l" and n: "g_id g \<noteq> []" "\<not> has_group l (g_id g)" "g_members g = []"
  shows "layout_ok (addGroup l g i) \<and> mset (names_of (addGroup l g i)) = mset (names_of l)"
proof -
  let ?t = "groupToken (g_id g)" and ?l = "addGroup l g i"
  have t: "?t \<notin> set (so_order l)" using ok n by (simp add: layout_ok_def has_group_def)
  have m: "mset (placed ?l) = add_mset ?t (mset (placed l))" using n by (simp add: addGroup_def placed_def)
  have "?t \<notin> set (members_of l)" using ok n not_plain_groupToken unfolding layout_ok_def by blast
  with t have "distinct (?t # placed l)" using ok by (simp add: layout_ok_def placed_def)
  then have d: "distinct (placed ?l)" using mset_eq_imp_distinct_iff [of "?t # placed l" "placed ?l"] m by simp
  have "layout_ok ?l" unfolding layout_ok_def
  proof (intro conjI)
    show "\<forall>j. j \<noteq> [] \<longrightarrow> (groupToken j \<in> set (so_order ?l) \<longleftrightarrow> j \<in> set (group_ids ?l))"
      using ok by (auto simp: addGroup_def layout_ok_def)
    show "''peer:'' \<notin> set (so_order ?l)" using ok
      by (simp add: addGroup_def layout_ok_def)
  qed (use ok n d in \<open>auto simp: addGroup_def layout_ok_def has_group_def\<close>)
  moreover have "mset (names_of ?l) = mset (names_of l)" using m n by (simp add: names_of_def)
  ultimately show ?thesis by simp
qed

lemma forget_placed:
  "gone \<noteq> [] \<Longrightarrow> members_of (forgetProjects l gone) = filter (\<lambda>m. m \<notin> set gone) (members_of l) \<and>
   group_ids (forgetProjects l gone) = group_ids l"
proof -
  assume gone: "gone \<noteq> []"
  have "g_members (if \<exists>m\<in>set (g_members g). m \<in> set gone
      then g\<lparr>g_members := filter (\<lambda>m. m \<notin> set gone) (g_members g)\<rparr> else g) =
      filter (\<lambda>m. m \<notin> set gone) (g_members g)" for g
  proof (cases "\<exists>m\<in>set (g_members g). m \<in> set gone")
    case False
    then have "filter (\<lambda>m. m \<notin> set gone) (g_members g) = g_members g" by (auto simp: filter_id_conv)
    with False show ?thesis by simp
  qed simp
  then have "map g_members (so_groups (forgetProjects l gone)) =
      map (\<lambda>g. filter (\<lambda>m. m \<notin> set gone) (g_members g)) (so_groups l)"
    using gone by (simp add: forgetProjects_def)
  moreover have "group_ids (forgetProjects l gone) = group_ids l" using gone by (simp add: forgetProjects_def)
  ultimately show ?thesis by (simp add: filter_concat o_def)
qed

section \<open>The moves keep the contract\<close>

interpretation into_group: layout_move "\<lambda>(x, gid, i) l. moveIntoGroup l x gid i"
    "\<lambda>(x, gid, i) l. x \<in> set (names_of l) \<and> has_group l gid"
  by unfold_locales (auto simp: moveIntoGroup_keeps)

interpretation out_of_group: layout_move "\<lambda>(x, i) l. moveOutOfGroup l x i" "\<lambda>(x, i) l. x \<in> set (names_of l)"
  by unfold_locales (auto simp: moveOutOfGroup_keeps)

interpretation top_level: layout_move "\<lambda>(x, i) l. moveTopLevel l x i" "\<lambda>(x, i) l. x \<in> set (so_order l)"
  by unfold_locales (auto simp: moveTopLevel_keeps)

interpretation within_group: layout_move "\<lambda>(gid, x, i) l. reorderWithinGroup l gid x i"
    "\<lambda>(gid, x, i) l. member_of l gid x"
  by unfold_locales (auto simp: reorder_keeps)

interpretation new_group: layout_move "\<lambda>(g, i) l. addGroup l g i"
    "\<lambda>(g, i) l. g_id g \<noteq> [] \<and> \<not> has_group l (g_id g) \<and> g_members g = []"
  by unfold_locales (auto simp: addGroup_keeps)

interpretation drop_group: layout_move "\<lambda>gid l. removeGroup l gid" "\<lambda>gid l. True"
  by unfold_locales (auto simp: removeGroup_keeps)

section \<open>Reconciling, proved\<close>

lemma fold_set_add_if:
  "fold (\<lambda>t out. if P t then set_add (f t) out else out) xs acc = fold set_add (map f (filter P xs)) acc"
  by (induction xs arbitrary: acc) auto

lemma fold_set_add_absorb: "set xs \<subseteq> set acc \<Longrightarrow> fold set_add xs acc = acc"
  by (induction xs) (auto simp: set_add_def)

lemma fold_set_add_distinct: "distinct (acc @ xs) \<Longrightarrow> fold set_add xs acc = acc @ xs"
  by (induction xs arbitrary: acc) (auto simp: set_add_def)

lemma claim_members_spec:
  "claim_members gs claimed = (gs', claimed') \<Longrightarrow>
   map g_id gs' = map g_id gs \<and>
   set (concat (map g_members gs')) = set (concat (map g_members gs)) - set claimed \<and>
   set claimed' = set claimed \<union> set (concat (map g_members gs)) \<and>
   ((\<forall>g\<in>set gs. distinct (g_members g)) \<longrightarrow> distinct (concat (map g_members gs')))"
proof (induction gs arbitrary: claimed gs' claimed')
  case Nil
  then show ?case by simp
next
  case (Cons g gs)
  let ?m = "filter (\<lambda>m. m \<notin> set claimed) (g_members g)"
  obtain rest c where rc: "claim_members gs (fold set_add ?m claimed) = (rest, c)" by fastforce
  from Cons.prems rc have e: "gs' = g\<lparr>g_members := ?m\<rparr> # rest" "claimed' = c" by (simp_all add: Let_def)
  from Cons.IH [OF rc] show ?case by (auto simp: e)
qed

lemma claim_members_id:
  "distinct (concat (map g_members gs)) \<Longrightarrow> set (concat (map g_members gs)) \<inter> set claimed = {} \<Longrightarrow>
   fst (claim_members gs claimed) = gs"
proof (induction gs arbitrary: claimed)
  case (Cons g gs)
  have m: "filter (\<lambda>m. m \<notin> set claimed) (g_members g) = g_members g"
    using Cons.prems(2) by (auto simp: filter_id_conv)
  obtain rest c where rc: "claim_members gs (fold set_add (g_members g) claimed) = (rest, c)" by fastforce
  have "fst (claim_members gs (fold set_add (g_members g) claimed)) = gs"
    using Cons.prems by (intro Cons.IH) auto
  with rc show ?case by (simp add: Let_def m)
qed simp

text \<open>What a layout read from disk must satisfy for \<open>reconcile\<close> to heal it.\<close>

definition reconcilable :: "sidebar_layout \<Rightarrow> string list \<Rightarrow> bool" where
  "reconcilable l topLevelNames \<longleftrightarrow>
     distinct (group_ids l) \<and> [] \<notin> set (group_ids l) \<and>
     (\<forall>g\<in>set (so_groups l). distinct (g_members g) \<and> (\<forall>m\<in>set (g_members g). plain m)) \<and>
     ''peer:'' \<notin> set (so_order l) \<and> (\<forall>n\<in>set topLevelNames. plain n)"

definition slot_kept :: "sidebar_layout \<Rightarrow> string list \<Rightarrow> string list \<Rightarrow> string \<Rightarrow> bool" where
  "slot_kept l tops mem token = (case keep_truthy (groupIdOf token) of
      Some gid \<Rightarrow> gid \<in> set (group_ids l)
    | None \<Rightarrow> isPeerToken token \<or> ((token \<in> set tops \<or> token \<notin> set mem) \<and> token \<notin> set (members_of l)))"

lemma reconcile_eq:
  assumes c: "claim_members (so_groups l) [] = (gs, claimed)"
  shows "reconcile l tops mem =
    \<lparr>so_order = fold set_add (filter (\<lambda>n. n \<notin> set (members_of l)) tops)
        (fold set_add (map (\<lambda>g. groupToken (g_id g)) gs) (fold set_add (filter (slot_kept l tops mem) (so_order l)) [])),
     so_groups = gs\<rparr>"
proof -
  note spec = claim_members_spec [OF c]
  have cl: "set claimed = set (members_of l)" and ids: "g_id ` set gs = set (group_ids l)"
    using spec by (simp, metis list.set_map)
  have "filter (\<lambda>token. case keep_truthy (groupIdOf token) of
                Some gid \<Rightarrow> gid \<in> g_id ` set gs
              | None \<Rightarrow> isPeerToken token \<or> ((token \<in> set tops \<or> token \<notin> set mem) \<and> token \<notin> set (members_of l))) (so_order l) =
      filter (slot_kept l tops mem) (so_order l)"
    by (rule filter_cong) (simp_all only: slot_kept_def ids)
  then show ?thesis
    unfolding reconcile_def c split Let_def
    by (simp only: fold_set_add_if [of _ "\<lambda>x. x"] list.map_ident cl fold_map o_def)
qed

lemma reconcile_spec:
  assumes r: "reconcilable l tops"
  shows "layout_ok (reconcile l tops mem) \<and>
    set (so_order (reconcile l tops mem)) = {t \<in> set (so_order l). slot_kept l tops mem t} \<union>
      groupToken ` set (group_ids l) \<union> {n \<in> set tops. n \<notin> set (members_of l)} \<and>
    set (members_of (reconcile l tops mem)) = set (members_of l) \<and>
    group_ids (reconcile l tops mem) = group_ids l"
proof -
  obtain gs claimed where c: "claim_members (so_groups l) [] = (gs, claimed)" by fastforce
  note spec = claim_members_spec [OF c] and eq = reconcile_eq [OF c, of tops mem]
  have ids: "map g_id gs = group_ids l" and mem: "set (concat (map g_members gs)) = set (members_of l)"
    and dm: "distinct (concat (map g_members gs))"
    using spec r by (simp_all add: reconcilable_def)
  have toks: "(\<lambda>g. groupToken (g_id g)) ` set gs = groupToken ` set (group_ids l)"
    by (metis ids image_image list.set_map)
  have so: "set (so_order (reconcile l tops mem)) = {t \<in> set (so_order l). slot_kept l tops mem t} \<union>
      groupToken ` set (group_ids l) \<union> {n \<in> set tops. n \<notin> set (members_of l)}"
    using toks by (auto simp: eq)
  have plain_m: "plain m" if "m \<in> set (members_of l)" for m using r that by (auto simp: reconcilable_def)
  have disj: "t \<notin> set (members_of l)" if "t \<in> set (so_order (reconcile l tops mem))" for t
  proof
    assume t: "t \<in> set (members_of l)"
    have "\<not> truthy (groupIdOf t)" "\<not> isPeerToken t" using plain_m [OF t] by (simp_all add: plain_def)
    then have "\<not> slot_kept l tops mem t" using t by (simp add: slot_kept_def keep_truthy_def)
    moreover have "t \<notin> groupToken ` set (group_ids l)"
    proof
      assume "t \<in> groupToken ` set (group_ids l)"
      then obtain i where "t = groupToken i" "i \<in> set (group_ids l)" by blast
      moreover from this r have "i \<noteq> []" unfolding reconcilable_def by metis
      ultimately show False using plain_m [OF t] not_plain_groupToken by blast
    qed
    ultimately show False using that t unfolding so by blast
  qed
  have slot: "groupToken i \<in> set (so_order (reconcile l tops mem)) \<longleftrightarrow> i \<in> set (group_ids l)" if "i \<noteq> []" for i
  proof -
    have "slot_kept l tops mem (groupToken i) \<longleftrightarrow> i \<in> set (group_ids l)"
      using that by (cases i) (simp_all add: slot_kept_def)
    moreover have "groupToken i \<notin> set tops"
      using r not_plain_groupToken [OF that] unfolding reconcilable_def by blast
    ultimately show ?thesis unfolding so by auto
  qed
  have peer: "''peer:'' \<notin> set (so_order (reconcile l tops mem))"
  proof -
    have "''peer:'' \<notin> groupToken ` set (group_ids l)" by auto
    moreover have "''peer:'' \<notin> set tops" "''peer:'' \<notin> set (so_order l)"
      using r not_plain_peer unfolding reconcilable_def by blast+
    ultimately show ?thesis unfolding so by blast
  qed
  have dp: "distinct (placed (reconcile l tops mem))"
    using disj dm mem by (auto simp: placed_def eq)
  have "layout_ok (reconcile l tops mem)"
    unfolding layout_ok_def using dp slot peer plain_m r ids mem
    by (simp add: eq reconcilable_def)
  then show ?thesis using so mem ids by (simp add: eq)
qed

lemma slot_kept_reconciled:
  assumes r: "reconcilable l tops" and t: "t \<in> set (so_order (reconcile l tops mem))"
  shows "slot_kept l tops mem t"
proof -
  consider "slot_kept l tops mem t" | i where "t = groupToken i" "i \<in> set (group_ids l)"
    | "t \<in> set tops" "t \<notin> set (members_of l)"
    using t reconcile_spec [OF r, of mem] by blast
  then show ?thesis
  proof cases
    case 2
    then have "i \<noteq> []" using r unfolding reconcilable_def by metis
    with 2 show ?thesis by (cases i) (simp_all add: slot_kept_def)
  next
    case 3
    then have "\<not> truthy (groupIdOf t)" using r by (simp add: reconcilable_def plain_def)
    with 3 show ?thesis by (simp add: slot_kept_def keep_truthy_def)
  qed
qed

lemma reconcile_id:
  assumes r: "reconcilable l tops"
  shows "reconcile (reconcile l tops mem) tops mem = reconcile l tops mem"
proof -
  let ?r = "reconcile l tops mem"
  note spec = reconcile_spec [OF r, of mem]
  have ok: "layout_ok ?r" using spec by simp
  obtain gs claimed where c: "claim_members (so_groups ?r) [] = (gs, claimed)" by fastforce
  have "fst (claim_members (so_groups ?r) []) = so_groups ?r"
    by (rule claim_members_id) (use ok in \<open>simp_all add: layout_ok_def placed_def\<close>)
  with c have gs: "gs = so_groups ?r" by simp
  have ms: "set (members_of ?r) = set (members_of l)" "group_ids ?r = group_ids l" using spec by simp_all
  have "slot_kept ?r tops mem = slot_kept l tops mem" by (rule ext) (simp only: slot_kept_def ms)
  then have "filter (slot_kept ?r tops mem) (so_order ?r) = so_order ?r"
    using slot_kept_reconciled [OF r, of _ mem] by (simp add: filter_id_conv)
  moreover have "fold set_add (so_order ?r) [] = so_order ?r"
    using fold_set_add_distinct [of "[]" "so_order ?r"] ok by (simp add: layout_ok_def placed_def)
  moreover have "fold set_add (map (\<lambda>g. groupToken (g_id g)) (so_groups ?r)) (so_order ?r) = so_order ?r"
  proof (rule fold_set_add_absorb)
    have "set (map (\<lambda>g. groupToken (g_id g)) (so_groups ?r)) = groupToken ` set (group_ids ?r)" by auto
    then show "set (map (\<lambda>g. groupToken (g_id g)) (so_groups ?r)) \<subseteq> set (so_order ?r)" using spec by auto
  qed
  moreover have "fold set_add (filter (\<lambda>n. n \<notin> set (members_of ?r)) tops) (so_order ?r) = so_order ?r"
    by (rule fold_set_add_absorb) (use spec in auto)
  ultimately show ?thesis using reconcile_eq [OF c, of tops mem] by (simp only: gs) simp
qed

section \<open>Dragging, proved\<close>

lemma peer_slug: "peerSlugOfToken t = Some slug \<longleftrightarrow> t = peerToken slug"
proof
  assume t: "peerSlugOfToken t = Some slug"
  then have "starts_with t PEER_PREFIX" "slug = drop (length PEER_PREFIX) t"
    by (auto simp: peerSlugOfToken_def split: if_splits)
  with starts_with_split [of t PEER_PREFIX] show "t = peerToken slug" by (simp add: peerToken_def)
qed (simp add: peerSlugOfToken_def peerToken_def)

lemma keep_truthy_None: "keep_truthy x = None \<longleftrightarrow> \<not> truthy x"
  and keep_truthy_Some: "keep_truthy x = Some y \<longleftrightarrow> x = Some y \<and> y \<noteq> []"
  by (cases x; auto simp: keep_truthy_def)+

lemma plain_slot:
  assumes "layout_ok l" and "t \<in> set (so_order l)" and "\<not> truthy (groupIdOf t)" and "\<not> truthy (peerSlugOfToken t)"
  shows "plain t"
proof -
  have "\<not> isPeerToken t"
  proof
    assume "isPeerToken t"
    then obtain slug where s: "peerSlugOfToken t = Some slug"
      by (auto simp: isPeerToken_def peerSlugOfToken_def)
    with assms(4) have "slug = []" by simp
    with s have "t = ''peer:''" by (simp add: peer_slug peerToken_def PEER_PREFIX_def)
    with assms show False by (simp add: layout_ok_def)
  qed
  with assms show ?thesis by (simp add: plain_def)
qed

fun node_ok :: "sidebar_layout \<Rightarrow> string \<Rightarrow> sidebar_node \<Rightarrow> bool" where
  "node_ok l i (NGroup gid) = (i \<in> set (so_order l))"
| "node_ok l i (NPeer slug) = (i \<in> set (so_order l))"
| "node_ok l i (NLoose x) = (x = i \<and> i \<in> set (so_order l) \<and> plain i)"
| "node_ok l i (NMember x gid) = (x = i \<and> member_of l gid i)"

lemma classify_ok: "layout_ok l \<Longrightarrow> classify l i = Some n \<Longrightarrow> node_ok l i n"
proof -
  assume ok: "layout_ok l" and c: "classify l i = Some n"
  show ?thesis
  proof (cases "keep_truthy (groupIdOf i)")
    case (Some gid)
    then have i: "i = groupToken gid" "gid \<noteq> []" by (simp_all add: keep_truthy_Some groupIdOf_Some)
    with c Some have "n = NGroup gid" "groupById (so_groups l) gid \<noteq> None"
      by (auto simp: classify_def split: if_splits)
    with i ok show ?thesis by (auto simp: groupById_None layout_ok_def)
  next
    case None
    show ?thesis
    proof (cases "keep_truthy (peerSlugOfToken i)")
      case (Some slug)
      with None c show ?thesis by (auto simp: classify_def split: if_splits)
    next
      case n2: None
      show ?thesis
      proof (cases "List.find (\<lambda>g. i \<in> set (g_members g)) (so_groups l)")
        case (Some g)
        then have "g \<in> set (so_groups l)" "i \<in> set (g_members g)" by (auto simp: find_Some_iff)
        with Some None n2 c show ?thesis by (auto simp: classify_def member_of_def)
      next
        case n3: None
        with None n2 c have "n = NLoose i" "i \<in> set (so_order l)" by (auto simp: classify_def split: if_splits)
        then show ?thesis using plain_slot [OF ok] None n2 by (simp add: keep_truthy_None)
      qed
    qed
  qed
qed

lemma node_ok_name: "layout_ok l \<Longrightarrow> node_ok l i a \<Longrightarrow> \<not> isSection a \<Longrightarrow> node_name a = i \<and> i \<in> set (names_of l)"
  by (cases a) (auto simp: names_of_def placed_def dest: member_names)

lemma node_ok_slot: "node_ok l i a \<Longrightarrow> (\<forall>x gid. a \<noteq> NMember x gid) \<Longrightarrow> i \<in> set (so_order l)"
  by (cases a) auto

lemma in_group_member: "node_ok l i a \<Longrightarrow> in_group a gid \<Longrightarrow> member_of l gid i \<and> node_name a = i \<and> \<not> isSection a"
  by (cases a) auto

lemma resolve_keeps:
  assumes ok: "layout_ok l" and folder: "\<And>t. dropFolderTarget overId = Some t \<Longrightarrow> has_group l t"
    and r: "resolveSidebarDrop l activeId overId = Some l'"
  shows "layout_ok l' \<and> mset (names_of l') = mset (names_of l)"
proof -
  obtain a where a: "classify l activeId = Some a" using r
    by (auto simp: resolveSidebarDrop_def split: if_splits option.splits)
  note an = classify_ok [OF ok a]
  have ne: "activeId \<noteq> overId" using r by (auto simp: resolveSidebarDrop_def)
  show ?thesis
  proof (cases "dropFolderTarget overId")
    case (Some t)
    then have "l' = moveIntoGroup l (node_name a) t None" "\<not> isSection a"
      using r a ne by (auto simp: resolveSidebarDrop_def split: if_splits)
    then show ?thesis using into_group.keeps [of l "(activeId, t, None)"] node_ok_name [OF ok an] ok folder [OF Some]
      by simp
  next
    case None
    then obtain b where b: "classify l overId = Some b"
      using r a ne by (auto simp: resolveSidebarDrop_def split: option.splits)
    show ?thesis
    proof (cases b)
      case (NMember oname ogid)
      obtain g where g: "groupById (so_groups l) ogid = Some g" and na: "\<not> isSection a"
        and l': "l' = (if in_group a ogid then reorderWithinGroup l ogid (node_name a) (indexOf oname (g_members g))
           else moveIntoGroup l (node_name a) ogid (Some (indexOf oname (g_members g))))"
        using r a ne None b NMember
        by (auto simp: resolveSidebarDrop_def Let_def split: if_splits option.splits)
      have hg: "has_group l ogid" using groupById_Some [OF g] by (auto simp: has_group_def)
      note nm = node_ok_name [OF ok an na]
      show ?thesis
      proof (cases "in_group a ogid")
        case True
        then show ?thesis using within_group.keeps [of l "(ogid, activeId, indexOf oname (g_members g))"]
            in_group_member [OF an] ok l' by simp
      next
        case False
        then show ?thesis using into_group.keeps [of l "(activeId, ogid, Some (indexOf oname (g_members g)))"] nm hg ok l'
          by simp
      qed
    next
      case (NGroup x)
      then show ?thesis using r a ne None b an ok top_level.keeps [of l "(activeId, indexOf overId (so_order l))"]
          out_of_group.keeps [of l "(activeId, indexOf overId (so_order l))"] node_ok_name [OF ok an]
        by (cases a) (auto simp: resolveSidebarDrop_def Let_def)
    next
      case (NPeer x)
      then show ?thesis using r a ne None b an ok top_level.keeps [of l "(activeId, indexOf overId (so_order l))"]
          out_of_group.keeps [of l "(activeId, indexOf overId (so_order l))"] node_ok_name [OF ok an]
        by (cases a) (auto simp: resolveSidebarDrop_def Let_def)
    next
      case (NLoose x)
      then show ?thesis using r a ne None b an ok top_level.keeps [of l "(activeId, indexOf overId (so_order l))"]
          out_of_group.keeps [of l "(activeId, indexOf overId (so_order l))"] node_ok_name [OF ok an]
        by (cases a) (auto simp: resolveSidebarDrop_def Let_def)
    qed
  qed
qed

section \<open>The order written for the backend\<close>

lemma fst_membershipMap: "fst ` set (membershipMap gs) = set (concat (map g_members gs))"
proof -
  let ?kvs = "concat (map (\<lambda>g. map (\<lambda>m. (m, g_id g)) (g_members g)) gs)"
  have "fst ` set (membershipMap gs) = fst ` set ?kvs"
    using jm.keys_put_all [of ?kvs "[]"] by (simp add: membershipMap_def)
  then show ?thesis by force
qed

definition nests :: "project_group list \<Rightarrow> project_info list \<Rightarrow> string \<Rightarrow> project_info \<Rightarrow> bool" where
  "nests gs projects n p \<longleftrightarrow> isDuplicate p (map pr_name projects) \<and>
     pr_name p \<notin> set (concat (map g_members gs)) \<and> pr_parentName p = Some n"

lemma nested_of_duplicates:
  "nested_of (nestedDuplicates gs projects) n = map pr_name (filter (nests gs projects n) projects)"
proof -
  let ?names = "map pr_name projects" and ?claimed = "map fst (membershipMap gs)"
  let ?step = "\<lambda>p out. if \<not> isDuplicate p ?names \<or> pr_name p \<in> set ?claimed then out
      else AList.update (the (pr_parentName p))
        ((case map_of out (the (pr_parentName p)) of None \<Rightarrow> [] | Some ns \<Rightarrow> ns) @ [pr_name p]) out"
  have cl: "set ?claimed = set (concat (map g_members gs))" using fst_membershipMap by simp
  have par: "isDuplicate p ?names \<Longrightarrow> pr_parentName p = Some (the (pr_parentName p))" for p
    by (cases "pr_parentName p") (simp_all add: isDuplicate_def)
  have "nested_of (fold ?step ps out) n = nested_of out n @ map pr_name (filter (nests gs projects n) ps)" for ps out
  proof (induction ps arbitrary: out)
    case (Cons p ps)
    show ?case
    proof (cases "\<not> isDuplicate p ?names \<or> pr_name p \<in> set ?claimed")
      case True
      then have "\<not> nests gs projects n p" unfolding nests_def cl by blast
      with True Cons.IH show ?thesis by simp
    next
      case False
      then have "nests gs projects n p \<longleftrightarrow> the (pr_parentName p) = n"
        unfolding nests_def cl using par by force
      with False Cons.IH show ?thesis by (simp add: nested_of_def update_conv')
    qed
  qed simp
  then show ?thesis by (simp add: nestedDuplicates_def Let_def nested_of_def)
qed

lemma fold_push: "fold (\<lambda>x out. out @ f x) xs out = out @ concat (map f xs)"
  by (induction xs arbitrary: out) simp_all

definition token_names :: "sidebar_layout \<Rightarrow> string \<Rightarrow> string list" where
  "token_names l t = (case keep_truthy (groupIdOf t) of
      Some gid \<Rightarrow> (case map_of (rev (map (\<lambda>g. (g_id g, g)) (so_groups l))) gid of None \<Rightarrow> [] | Some g \<Rightarrow> g_members g)
    | None \<Rightarrow> if isPeerToken t then [] else [t])"

lemma concat_map_twice: "concat (map (\<lambda>t. concat (map f (h t))) xs) = concat (map f (concat (map h xs)))"
  by (induction xs) simp_all

lemma flatten_eq:
  "flattenForProjectOrder l projects =
   concat (map (\<lambda>n. n # nested_of (nestedDuplicates (so_groups l) projects) n) (concat (map (token_names l) (so_order l))))"
proof -
  let ?f = "\<lambda>n. n # nested_of (nestedDuplicates (so_groups l) projects) n"
  have "flattenForProjectOrder l projects =
      fold (\<lambda>t out. out @ concat (map ?f (token_names l t))) (so_order l) []"
    unfolding flattenForProjectOrder_def Let_def
    by (rule fold_cong) (auto simp: token_names_def fold_push [of ?f] split: option.splits intro!: ext)
  also have "\<dots> = concat (map (\<lambda>t. concat (map ?f (token_names l t))) (so_order l))" by (simp add: fold_push)
  also have "\<dots> = concat (map ?f (concat (map (token_names l) (so_order l))))"
    by (rule concat_map_twice)
  finally show ?thesis .
qed

lemma groups_by_id:
  assumes "distinct (map g_id gs)"
  shows "map_of (rev (map (\<lambda>g. (g_id g, g)) gs)) i = Some g \<longleftrightarrow> g \<in> set gs \<and> g_id g = i"
proof -
  have "distinct (map fst (rev (map (\<lambda>g. (g_id g, g)) gs)))"
    using assms by (simp add: rev_map [symmetric] o_def)
  then have "map_of (rev (map (\<lambda>g. (g_id g, g)) gs)) i = Some g \<longleftrightarrow> (i, g) \<in> set (rev (map (\<lambda>g. (g_id g, g)) gs))"
    by (rule map_of_eq_Some_iff)
  then show ?thesis by auto
qed

lemma distinct_concat_map:
  "distinct xs \<Longrightarrow> (\<And>x. x \<in> set xs \<Longrightarrow> distinct (f x)) \<Longrightarrow>
   (\<And>x y. x \<in> set xs \<Longrightarrow> y \<in> set xs \<Longrightarrow> x \<noteq> y \<Longrightarrow> set (f x) \<inter> set (f y) = {}) \<Longrightarrow>
   distinct (concat (map f xs))"
proof (induction xs)
  case (Cons x xs)
  have "set (f x) \<inter> set (f y) = {}" if "y \<in> set xs" for y
    using Cons.prems(1,3) that by auto
  then have "set (f x) \<inter> set (concat (map f xs)) = {}" by auto
  with Cons show ?case by simp
qed simp

lemma token_names_cases:
  assumes ok: "layout_ok l" and t: "t \<in> set (so_order l)" and x: "x \<in> set (token_names l t)"
  shows "(plain t \<and> x = t) \<or> (\<exists>g\<in>set (so_groups l). t = groupToken (g_id g) \<and> x \<in> set (g_members g))"
proof (cases "keep_truthy (groupIdOf t)")
  case (Some gid)
  then have tk: "t = groupToken gid" by (simp add: keep_truthy_Some groupIdOf_Some)
  obtain g where "map_of (rev (map (\<lambda>g. (g_id g, g)) (so_groups l))) gid = Some g" "x \<in> set (g_members g)"
    using x Some by (cases "map_of (rev (map (\<lambda>g. (g_id g, g)) (so_groups l))) gid") (auto simp: token_names_def)
  then show ?thesis using groups_by_id [of "so_groups l" gid g] ok tk by (auto simp: layout_ok_def)
next
  case None
  then have "\<not> isPeerToken t" "x = t" using x by (cases "isPeerToken t"; simp add: token_names_def)+
  with None show ?thesis by (simp add: plain_def keep_truthy_None)
qed

lemma walk_names:
  assumes ok: "layout_ok l"
  shows "distinct (concat (map (token_names l) (so_order l))) \<and>
    set (concat (map (token_names l) (so_order l))) = set (names_of l)"
proof
  have dm: "distinct (members_of l)" and dord: "distinct (so_order l)"
    and disj: "set (so_order l) \<inter> set (members_of l) = {}"
    and ids: "distinct (group_ids l)"
    using ok by (auto simp: layout_ok_def placed_def)
  show "distinct (concat (map (token_names l) (so_order l)))"
  proof (rule distinct_concat_map [OF dord])
    fix t assume "t \<in> set (so_order l)"
    show "distinct (token_names l t)"
    proof (cases "keep_truthy (groupIdOf t)")
      case (Some gid)
      show ?thesis
      proof (cases "map_of (rev (map (\<lambda>g. (g_id g, g)) (so_groups l))) gid")
        case n: None
        with Some show ?thesis by (simp add: token_names_def)
      next
        case g: (Some g)
        then have "g \<in> set (so_groups l)" using groups_by_id [OF ids, of gid g] by simp
        then have "distinct (g_members g)" using dm by (auto simp: distinct_concat_iff)
        with g Some show ?thesis by (simp add: token_names_def)
      qed
    qed (simp add: token_names_def)
  next
    fix t u assume t: "t \<in> set (so_order l)" and u: "u \<in> set (so_order l)" and tu: "t \<noteq> u"
    show "set (token_names l t) \<inter> set (token_names l u) = {}"
    proof (rule ccontr)
      assume "set (token_names l t) \<inter> set (token_names l u) \<noteq> {}"
      then obtain x where x: "x \<in> set (token_names l t)" "x \<in> set (token_names l u)" by blast
      have mem: "x \<in> set (members_of l)" if "\<exists>g\<in>set (so_groups l). P g \<and> x \<in> set (g_members g)" for P
        using that by auto
      from token_names_cases [OF ok t x(1)] token_names_cases [OF ok u x(2)] tu t u disj mem
      obtain g h where "g \<in> set (so_groups l)" "t = groupToken (g_id g)" "x \<in> set (g_members g)"
        "h \<in> set (so_groups l)" "u = groupToken (g_id h)" "x \<in> set (g_members h)" by blast
      with distinct_concat_members [OF dm, of g h x] tu show False by simp
    qed
  qed
  show "set (concat (map (token_names l) (so_order l))) = set (names_of l)"
  proof
    show "set (concat (map (token_names l) (so_order l))) \<subseteq> set (names_of l)"
    proof
      fix x assume "x \<in> set (concat (map (token_names l) (so_order l)))"
      then obtain t where "t \<in> set (so_order l)" "x \<in> set (token_names l t)" by auto
      with token_names_cases [OF ok this] ok show "x \<in> set (names_of l)"
        by (auto simp: names_of_def placed_def layout_ok_def)
    qed
    show "set (names_of l) \<subseteq> set (concat (map (token_names l) (so_order l)))"
    proof
      fix x assume x: "x \<in> set (names_of l)"
      then consider "x \<in> set (so_order l)" "plain x" | g where "g \<in> set (so_groups l)" "x \<in> set (g_members g)"
        by (auto simp: names_of_def placed_def)
      then show "x \<in> set (concat (map (token_names l) (so_order l)))"
      proof cases
        case 1
        then have "x \<in> set (token_names l x)" by (simp add: token_names_def plain_def keep_truthy_def)
        with 1 show ?thesis by auto
      next
        case 2
        then have gid: "g_id g \<noteq> []" and ix: "g_id g \<in> set (group_ids l)" using ok unfolding layout_ok_def
          by (metis image_eqI list.set_map, simp)
        then have t: "groupToken (g_id g) \<in> set (so_order l)" using ok by (simp add: layout_ok_def)
        have "map_of (rev (map (\<lambda>g. (g_id g, g)) (so_groups l))) (g_id g) = Some g"
          using groups_by_id [OF ids] 2 by simp
        with gid 2 have "x \<in> set (token_names l (groupToken (g_id g)))"
          by (simp add: token_names_def keep_truthy_def)
        with t show ?thesis by auto
      qed
    qed
  qed
qed

section \<open>Properties\<close>

text \<open>Property C6: a drag and drop in the sidebar loses nothing: whatever is dropped on whatever
  row, the layout stays well formed and lists exactly the projects it listed, each once.\<close>

theorem drop_keeps_projects:
  assumes "layout_ok l" and "resolveSidebarDrop l activeId overId = Some l'"
    and "\<And>t. dropFolderTarget overId = Some t \<Longrightarrow> has_group l t"
  shows "layout_ok l' \<and> mset (names_of l') = mset (names_of l) \<and> distinct (names_of l')"
  using resolve_keeps [OF assms(1,3,2)] by (auto simp: layout_ok_def names_of_def)

definition demo_layout :: sidebar_layout where
  "demo_layout = \<lparr>so_order = [''app'', ''group:1'', ''peer:mac''],
     so_groups = [\<lparr>g_id = ''1'', g_name = ''Work'', g_collapsed = False, g_members = [''api'', ''web'']\<rparr>]\<rparr>"

lemma demo_layout_ok: "layout_ok demo_layout"
proof -
  have "groupToken i \<in> {''app'', ''group:1'', ''peer:mac''} \<longleftrightarrow> i = ''1''" for i
    by (simp add: groupToken_def GROUP_PREFIX_def)
  then show ?thesis
    by (auto simp: layout_ok_def demo_layout_def placed_def plain_def groupIdOf_def isPeerToken_def
        starts_with_def GROUP_PREFIX_def PEER_PREFIX_def)
qed

theorem drop_keeps_projects_witness:
  "\<exists>l'. resolveSidebarDrop demo_layout ''app'' ''folder-nest:1'' = Some l' \<and> layout_ok l'"
proof -
  have t: "dropFolderTarget ''folder-nest:1'' = Some ''1''" by code_simp
  obtain l' where r: "resolveSidebarDrop demo_layout ''app'' ''folder-nest:1'' = Some l'"
    using t by (simp add: resolveSidebarDrop_def classify_def demo_layout_def groupIdOf_def peerSlugOfToken_def
        starts_with_def GROUP_PREFIX_def PEER_PREFIX_def)
  have "has_group demo_layout ''1''" by (simp add: has_group_def demo_layout_def)
  with drop_keeps_projects [OF demo_layout_ok r] t r show ?thesis by auto
qed

text \<open>The moves behind the menus (into a folder, out of it, a new folder, a deleted
  folder) keep the layout well formed; a deleted folder's projects stay in the sidebar, and a
  project moved into a folder is in that folder.\<close>

theorem group_moves_keep_projects:
  assumes "layout_ok l" and "x \<in> set (names_of l)" and "has_group l gid"
  shows "layout_ok (moveIntoGroup l x gid i) \<and> member_of (moveIntoGroup l x gid i) gid x \<and>
    layout_ok (removeGroup (moveIntoGroup l x gid i) gid) \<and>
    x \<in> set (names_of (removeGroup (moveIntoGroup l x gid i) gid)) \<and>
    \<not> has_group (removeGroup (moveIntoGroup l x gid i) gid) gid"
proof -
  let ?m = "moveIntoGroup l x gid i"
  have m: "layout_ok ?m" "mset (names_of ?m) = mset (names_of l)"
    using into_group.keeps [of l "(x, gid, i)"] assms by simp_all
  have d: "layout_ok (removeGroup ?m gid)" "mset (names_of (removeGroup ?m gid)) = mset (names_of ?m)"
    using drop_group.keeps [of ?m gid] m(1) by simp_all
  have ns: "set (names_of (removeGroup ?m gid)) = set (names_of l)" using d(2) m(2) by (metis set_mset_mset)
  have "\<exists>g\<in>set (so_groups (detach l x)). g_id g = gid"
    using assms(3) ids_detach [of l x] unfolding has_group_def by (metis imageE list.set_map)
  then obtain g where g: "g \<in> set (so_groups (detach l x))" "g_id g = gid" by blast
  let ?g = "g\<lparr>g_members := splice_in (case i of None \<Rightarrow> int (length (g_members g)) | Some i \<Rightarrow> i) x (g_members g)\<rparr>"
  have "?g \<in> set (so_groups ?m)" using g by (auto simp: moveIntoGroup_def Let_def image_iff intro!: bexI [of _ g])
  moreover have "g_id ?g = gid" "x \<in> set (g_members ?g)" using g by simp_all
  ultimately have "member_of ?m gid x" unfolding member_of_def by blast
  moreover have "\<not> has_group (removeGroup ?m gid) gid"
  proof (cases "groupById (so_groups ?m) gid")
    case None
    then have "removeGroup ?m gid = ?m" by (simp add: removeGroup_def)
    with None show ?thesis by (simp add: has_group_def groupById_None)
  qed (auto simp: removeGroup_def has_group_def Let_def)
  ultimately show ?thesis using m(1) d(1) assms(2) ns by simp
qed

theorem group_moves_keep_projects_witness:
  "member_of (moveIntoGroup demo_layout ''app'' ''1'' (Some 0)) ''1'' ''app''"
  using group_moves_keep_projects [OF demo_layout_ok, of "''app''" "''1''" "Some 0"]
  by (simp add: names_of_def placed_def demo_layout_def plain_def groupIdOf_def isPeerToken_def starts_with_def
      GROUP_PREFIX_def PEER_PREFIX_def has_group_def)



text \<open>The sidebar names of a reconciled layout, and the duplicates nested under each.\<close>

definition walked :: "sidebar_layout \<Rightarrow> string list" where
  "walked r = concat (map (token_names r) (so_order r))"

definition nested_names :: "sidebar_layout \<Rightarrow> project_info list \<Rightarrow> string \<Rightarrow> string list" where
  "nested_names r projects = nested_of (nestedDuplicates (so_groups r) projects)"

lemma nested_names_iff:
  "x \<in> set (nested_names r projects n) \<longleftrightarrow> (\<exists>p\<in>set projects. pr_name p = x \<and> nests (so_groups r) projects n p)"
  by (auto simp: nested_names_def nested_of_duplicates)

lemma nested_not_walked:
  assumes names: "distinct (map pr_name projects)"
    and tops: "tops = map pr_name (filter (\<lambda>p. \<not> isDuplicate p (map pr_name projects)) projects)"
    and rec: "reconcilable l tops" and r: "r = reconcile l tops (map pr_name projects)"
    and x: "x \<in> set (nested_names r projects n)"
  shows "x \<notin> set (walked r)"
proof
  assume "x \<in> set (walked r)"
  moreover have "layout_ok r" unfolding r using reconcile_spec [OF rec] by simp
  ultimately have "x \<in> set (names_of r)" using walk_names unfolding walked_def by blast
  moreover obtain p where p: "p \<in> set projects" "pr_name p = x" "isDuplicate p (map pr_name projects)"
    "x \<notin> set (members_of r)" using x unfolding nested_names_iff nests_def by blast
  ultimately have o: "x \<in> set (so_order r)" "plain x" by (auto simp: names_of_def placed_def)
  have "slot_kept l tops (map pr_name projects) x" using slot_kept_reconciled [OF rec] o(1) unfolding r by simp
  then have "x \<in> set tops \<or> x \<notin> set (map pr_name projects)"
    using o(2) by (simp add: slot_kept_def plain_def keep_truthy_def)
  then obtain q where "q \<in> set projects" "pr_name q = x" "\<not> isDuplicate q (map pr_name projects)"
    using p(1,2) unfolding tops by auto
  moreover from this have "q = p" using names p(1,2) by (auto simp: distinct_map inj_on_def)
  ultimately show False using p(3) by simp
qed

lemma flattened_distinct:
  assumes names: "distinct (map pr_name projects)" and ok: "layout_ok r"
    and unwalked: "\<And>x n. x \<in> set (nested_names r projects n) \<Longrightarrow> x \<notin> set (walked r)"
  shows "distinct (concat (map (\<lambda>n. n # nested_names r projects n) (walked r)))"
proof (rule distinct_concat_map)
  show "distinct (walked r)" using walk_names [OF ok] by (simp add: walked_def)
  fix n assume n: "n \<in> set (walked r)"
  have "distinct (nested_names r projects n)" using names by (simp add: nested_names_def nested_of_duplicates distinct_map_filter)
  with unwalked [of n n] n show "distinct (n # nested_names r projects n)" by auto
  fix m assume m: "m \<in> set (walked r)" and ne: "n \<noteq> m"
  have "set (nested_names r projects n) \<inter> set (nested_names r projects m) = {}"
  proof (rule ccontr)
    assume "set (nested_names r projects n) \<inter> set (nested_names r projects m) \<noteq> {}"
    then obtain p q where pq: "p \<in> set projects" "q \<in> set projects" "pr_name p = pr_name q"
      "nests (so_groups r) projects n p" "nests (so_groups r) projects m q" using nested_names_iff by (metis disjoint_iff)
    then have "p = q" using names by (auto simp: distinct_map inj_on_def)
    with pq ne show False by (simp add: nests_def)
  qed
  with unwalked [of n m] unwalked [of m n] n m ne
  show "set (n # nested_names r projects n) \<inter> set (m # nested_names r projects m) = {}" by auto
qed

lemma top_walked:
  assumes tops: "tops = map pr_name (filter (\<lambda>p. \<not> isDuplicate p mem) projects)"
    and rec: "reconcilable l tops" and r: "r = reconcile l tops mem"
    and q: "q \<in> set projects" "\<not> isDuplicate q mem"
  shows "pr_name q \<in> set (walked r)"
proof -
  note spec = reconcile_spec [OF rec, of mem, folded r]
  have "pr_name q \<in> set tops" using q tops by auto
  then show ?thesis
    using spec rec walk_names [of r] unfolding walked_def by (auto simp: names_of_def placed_def reconcilable_def)
qed

lemma member_walked:
  assumes ok: "layout_ok r" and "x \<in> set (members_of r)"
  shows "x \<in> set (walked r)"
proof -
  have "plain x" using assms unfolding layout_ok_def by blast
  then have "x \<in> set (names_of r)" using assms(2) unfolding names_of_def placed_def by simp
  then show ?thesis using walk_names [OF ok] unfolding walked_def by blast
qed

text \<open>The project order handed to the backend lists every project exactly once: the
  placed ones in sidebar order, each followed by its nested duplicates.\<close>

theorem project_order_complete:
  assumes names: "distinct (map pr_name projects)" and all: "mem = map pr_name projects"
    and tops: "tops = map pr_name (filter (\<lambda>p. \<not> isDuplicate p mem) projects)"
    and flat: "\<forall>p\<in>set projects. \<forall>q\<in>set projects. isDuplicate p mem \<and> pr_parentName p = Some (pr_name q) \<longrightarrow> \<not> isDuplicate q mem"
    and rec: "reconcilable l tops"
  shows "distinct (flattenForProjectOrder (reconcile l tops mem) projects) \<and>
    set mem \<subseteq> set (flattenForProjectOrder (reconcile l tops mem) projects)"
proof -
  define r where "r = reconcile l tops mem"
  have r: "r = reconcile l tops (map pr_name projects)" by (simp add: r_def all)
  have ok: "layout_ok r" unfolding r_def using reconcile_spec [OF rec] by simp
  note tops' = tops [unfolded all] and top = top_walked [OF tops rec r_def]
  have "distinct (concat (map (\<lambda>n. n # nested_names r projects n) (walked r)))"
    by (rule flattened_distinct [OF names ok nested_not_walked [OF names tops' rec r]])
  moreover have "x \<in> set (concat (map (\<lambda>n. n # nested_names r projects n) (walked r)))" if xm: "x \<in> set mem" for x
  proof -
    obtain p where p: "p \<in> set projects" "pr_name p = x" using xm unfolding all by auto
    show ?thesis
    proof (cases "x \<in> set (walked r)")
      case False
      then have d: "isDuplicate p mem" "x \<notin> set (members_of r)" using top [OF p(1)] p(2) member_walked [OF ok] by auto
      then obtain q where q: "q \<in> set projects" "pr_parentName p = Some (pr_name q)"
        unfolding isDuplicate_def all by (cases "pr_parentName p") auto
      then have "pr_name q \<in> set (walked r)" using top flat p(1) d(1) by blast
      moreover have "x \<in> set (nested_names r projects (pr_name q))"
        using nested_names_iff p q d by (auto simp: nests_def all)
      ultimately show ?thesis by auto
    qed auto
  qed
  ultimately show ?thesis unfolding r_def [symmetric] flatten_eq walked_def nested_names_def by blast
qed

theorem project_order_complete_witness:
  "set [''app'', ''app-2''] \<subseteq> set (flattenForProjectOrder
     (reconcile \<lparr>so_order = [], so_groups = []\<rparr> [''app''] [''app'', ''app-2''])
     [\<lparr>pr_name = ''app'', pr_parentName = None\<rparr>, \<lparr>pr_name = ''app-2'', pr_parentName = Some ''app''\<rparr>])"
proof (rule project_order_complete [THEN conjunct2])
  show "reconcilable \<lparr>so_order = [], so_groups = []\<rparr> [''app'']"
    by (simp add: reconcilable_def plain_def groupIdOf_def isPeerToken_def starts_with_def GROUP_PREFIX_def PEER_PREFIX_def)
qed (simp_all add: isDuplicate_def)

end
