(* ===== verification/SidebarMerge.thy ===== *)
theory SidebarMerge
  imports SidebarLayout
begin

text \<open>
  \<open>desktop/frontend/src/components/sidebarMerge.ts\<close>: saving the sidebar is a three-way merge of
  our layout, the layout we started from and the one on disk. A placement is a folder's
  identifier, or \<^term>\<open>None\<close> for a slot of its own.
\<close>

type_synonym placement = "string option"

definition loose_slot :: "string \<Rightarrow> bool" where
  "loose_slot token = (groupIdOf token = None \<and> \<not> isPeerToken token)"

definition placements :: "sidebar_layout \<Rightarrow> (string \<times> placement) list" where
  "placements l =
     fold (\<lambda>(name, p). AList.update name p)
       (map (\<lambda>token. (token, None)) (filter loose_slot (so_order l)) @
        concat (map (\<lambda>g. map (\<lambda>name. (name, Some (g_id g))) (g_members g)) (so_groups l))) []"

definition adopted_groups :: "sidebar_layout \<Rightarrow> sidebar_layout \<Rightarrow> sidebar_layout \<Rightarrow> project_group list" where
  "adopted_groups ours base disk =
     filter (\<lambda>g. g_id g \<notin> g_id ` set (so_groups ours) \<and> g_id g \<notin> g_id ` set (so_groups base)) (so_groups disk)"

text \<open>The loop that fills \<open>final\<close>: every name is set at most once, so the map is its list.\<close>

definition final_placements ::
  "sidebar_layout \<Rightarrow> sidebar_layout \<Rightarrow> sidebar_layout \<Rightarrow> string set \<Rightarrow> (string \<times> placement) list" where
  "final_placements ours base disk known =
     (let ourP = placements ours; baseP = placements base; diskP = placements disk;
          live = g_id ` set (so_groups ours) \<union> g_id ` set (adopted_groups ours base disk)
      in List.map_filter (\<lambda>name.
           let mine = map_of ourP name;
               touched = (mine \<noteq> map_of baseP name);
               winner = (if touched \<or> name \<notin> known then mine else map_of diskP name)
           in case winner of
                None \<Rightarrow> None
              | Some p \<Rightarrow> Some (name, (case p of None \<Rightarrow> None | Some gid \<Rightarrow> if gid \<in> live then Some gid else None)))
           (to_set (map fst ourP @ map fst diskP)))"

definition merged_members ::
  "(string \<times> placement) list \<Rightarrow> sidebar_layout \<Rightarrow> project_group \<Rightarrow> string list \<Rightarrow> string list" where
  "merged_members final disk g seed =
     (let keep = filter (\<lambda>m. map_of final m = Some (Some (g_id g))) seed;
          add = filter (\<lambda>m. m \<notin> set keep \<and> map_of final m = Some (Some (g_id g)))
            (case List.find (\<lambda>d. g_id d = g_id g) (so_groups disk) of None \<Rightarrow> [] | Some d \<Rightarrow> g_members d);
          have' = set keep \<union> set add;
          rest = map fst (filter (\<lambda>(m, p). p = Some (g_id g) \<and> m \<notin> have') final)
      in keep @ add @ rest)"

definition mergeWithDisk ::
  "sidebar_layout \<Rightarrow> sidebar_layout \<Rightarrow> sidebar_layout \<Rightarrow> string set \<Rightarrow> sidebar_layout" where
  "mergeWithDisk ours base disk known =
     (let adopted = adopted_groups ours base disk;
          live = g_id ` set (so_groups ours) \<union> g_id ` set adopted;
          final = final_placements ours base disk known;
          groups = map (\<lambda>g. g\<lparr>g_members := merged_members final disk g (g_members g)\<rparr>) (so_groups ours @ adopted);
          looseToken = (\<lambda>token. map_of final token = Some None);
          unpaired = filter (\<lambda>t. isPeerToken t \<and> t \<notin> set (so_order ours)) (so_order base);
          order = fold (\<lambda>token out. if (case groupIdOf token of
              Some gid \<Rightarrow> gid \<in> live
            | None \<Rightarrow> isPeerToken token \<or> looseToken token) then set_add token out else out) (so_order ours) [];
          order = fold (\<lambda>token out. if (case groupIdOf token of
              Some gid \<Rightarrow> gid \<in> g_id ` set adopted
            | None \<Rightarrow> if isPeerToken token then token \<notin> set unpaired else looseToken token)
            then set_add token out else out) (so_order disk) order;
          order = fold (\<lambda>g out. set_add (groupToken (g_id g)) out) groups order;
          order = fold (\<lambda>e out. if snd e = None then set_add (fst e) out else out) final order
      in \<lparr>so_order = order, so_groups = groups\<rparr>)"

section \<open>Placements\<close>

lemma map_of_updates_mem:
  assumes "distinct (map fst kvs)"
  shows "map_of (fold (\<lambda>(k, v). AList.update k v) kvs []) n = Some v \<longleftrightarrow> (n, v) \<in> set kvs"
proof -
  have "map_of (fold (\<lambda>(k, v). AList.update k v) kvs []) = map_of (rev kvs)"
    using jm.get_put_all [of kvs "[]"] by simp
  moreover have "distinct (map fst (rev kvs))" using assms by (simp only: rev_map [symmetric] distinct_rev)
  ultimately show ?thesis using map_of_eq_Some_iff [of "rev kvs" n v] by simp
qed

lemma placements_of:
  assumes "distinct (placed l)"
  shows "map_of (placements l) n =
    (if n \<in> set (so_order l) \<and> loose_slot n then Some None
     else case List.find (\<lambda>g. n \<in> set (g_members g)) (so_groups l) of None \<Rightarrow> None | Some g \<Rightarrow> Some (Some (g_id g)))"
proof -
  let ?loose = "map (\<lambda>token. (token, None)) (filter loose_slot (so_order l))"
  let ?mem = "concat (map (\<lambda>g. map (\<lambda>name. (name, Some (g_id g))) (g_members g)) (so_groups l))"
  have ks: "map fst ?mem = members_of l" by (simp add: map_concat o_def)
  have d: "distinct (map fst (?loose @ ?mem))"
    unfolding map_append ks using assms by (auto simp: placed_def o_def)
  have "map_of (placements l) n = Some v \<longleftrightarrow> (n, v) \<in> set (?loose @ ?mem)" for v
    unfolding placements_def by (rule map_of_updates_mem [OF d])
  moreover have "(n, v) \<in> set (?loose @ ?mem) \<longleftrightarrow>
    (if n \<in> set (so_order l) \<and> loose_slot n then Some None
     else case List.find (\<lambda>g. n \<in> set (g_members g)) (so_groups l) of None \<Rightarrow> None | Some g \<Rightarrow> Some (Some (g_id g))) = Some v"
    for v
  proof (cases "List.find (\<lambda>g. n \<in> set (g_members g)) (so_groups l)")
    case None
    then have "\<forall>g\<in>set (so_groups l). n \<notin> set (g_members g)" by (simp add: find_None_iff)
    with None show ?thesis by auto
  next
    case (Some g)
    then have g: "g \<in> set (so_groups l)" "n \<in> set (g_members g)" by (auto simp: find_Some_iff)
    have uniq: "h = g" if "h \<in> set (so_groups l)" "n \<in> set (g_members h)" for h
      using distinct_concat_members [of "so_groups l" h g n] assms that g by (simp add: placed_def)
    have no: "n \<notin> set (so_order l)" using assms g by (auto simp: placed_def)
    have "(n, v) \<in> set ?mem \<longleftrightarrow> v = Some (g_id g)"
    proof
      assume "(n, v) \<in> set ?mem"
      then obtain h where "h \<in> set (so_groups l)" "n \<in> set (g_members h)" "v = Some (g_id h)" by auto
      with uniq show "v = Some (g_id g)" by simp
    next
      assume "v = Some (g_id g)"
      with g show "(n, v) \<in> set ?mem" by force
    qed
    moreover have "(n, v) \<notin> set ?loose" using no by auto
    ultimately show ?thesis unfolding set_append using no Some by auto
  qed
  ultimately show ?thesis by (metis (no_types, lifting) not_None_eq)
qed

text \<open>
  The merge as it is meant: the placement we changed, or of a name that is no known project, is
  ours; every other one is the disk's; a folder that is gone means a slot of its own.
\<close>

definition resolved ::
  "sidebar_layout \<Rightarrow> sidebar_layout \<Rightarrow> sidebar_layout \<Rightarrow> string set \<Rightarrow> string \<Rightarrow> placement option" where
  "resolved ours base disk known n =
     (let mine = map_of (placements ours) n
      in map_option (\<lambda>p. case p of None \<Rightarrow> None | Some gid \<Rightarrow>
             if gid \<in> g_id ` set (so_groups ours @ adopted_groups ours base disk) then Some gid else None)
           (if mine \<noteq> map_of (placements base) n \<or> n \<notin> known then mine else map_of (placements disk) n))"

lemma map_of_map_filter:
  assumes "distinct xs"
  shows "map_of (List.map_filter (\<lambda>x. map_option (Pair x) (f x)) xs) n = (if n \<in> set xs then f n else None)"
proof -
  have absent: "map_of (List.map_filter (\<lambda>x. map_option (Pair x) (f x)) ys) n = None" if "n \<notin> set ys" for ys
    using that by (induction ys) (auto simp: map_filter_simps split: option.splits)
  show ?thesis using assms
  proof (induction xs)
    case (Cons x xs)
    then show ?case using absent [of xs] by (cases "f x") (auto simp: map_filter_simps)
  qed (simp add: map_filter_simps)
qed

lemma final_resolved: "map_of (final_placements ours base disk known) n = resolved ours base disk known n"
  and final_distinct: "distinct (map fst (final_placements ours base disk known))"
proof -
  let ?xs = "to_set (map fst (placements ours) @ map fst (placements disk))"
  have live: "g_id ` set (so_groups ours) \<union> g_id ` set (adopted_groups ours base disk) =
      g_id ` set (so_groups ours @ adopted_groups ours base disk)" by auto
  have eq: "final_placements ours base disk known =
      List.map_filter (\<lambda>x. map_option (Pair x) (resolved ours base disk known x)) ?xs"
    unfolding final_placements_def resolved_def Let_def live
    by (rule arg_cong2 [where f = List.map_filter]) (auto intro!: ext split: option.splits)
  have "resolved ours base disk known n = None" if "n \<notin> set ?xs"
  proof -
    have "map_of (placements ours) n = None" "map_of (placements disk) n = None"
      using that by (auto simp: map_of_eq_None_iff)
    then show ?thesis by (simp add: resolved_def)
  qed
  then show "map_of (final_placements ours base disk known) n = resolved ours base disk known n"
    by (simp add: eq map_of_map_filter)
  have "distinct (map fst (List.map_filter (\<lambda>x. map_option (Pair x) (f x)) xs))" if "distinct xs"
    for f :: "string \<Rightarrow> placement option" and xs
  proof -
    have "set (map fst (List.map_filter (\<lambda>x. map_option (Pair x) (f x)) ys)) \<subseteq> set ys" for ys
      by (induction ys) (auto simp: map_filter_simps split: option.splits)
    then show ?thesis using that
      by (induction xs) (auto simp: map_filter_simps split: option.splits)
  qed
  then show "distinct (map fst (final_placements ours base disk known))" by (simp add: eq)
qed

lemma merged_members_spec:
  assumes d: "distinct (map fst final)" and s: "distinct seed"
    and disk: "\<And>g. g \<in> set (so_groups disk) \<Longrightarrow> distinct (g_members g)"
  shows "distinct (merged_members final disk g seed) \<and>
    set (merged_members final disk g seed) = {m. map_of final m = Some (Some (g_id g))}"
proof -
  define keep where "keep = filter (\<lambda>m. map_of final m = Some (Some (g_id g))) seed"
  define add where "add = filter (\<lambda>m. m \<notin> set keep \<and> map_of final m = Some (Some (g_id g)))
      (case List.find (\<lambda>d. g_id d = g_id g) (so_groups disk) of None \<Rightarrow> [] | Some d \<Rightarrow> g_members d)"
  define rest where "rest = map fst (filter (\<lambda>(m, p). p = Some (g_id g) \<and> m \<notin> set keep \<union> set add) final)"
  have m: "merged_members final disk g seed = keep @ add @ rest"
    by (simp add: merged_members_def Let_def keep_def add_def rest_def)
  have "distinct add"
    using disk by (auto simp: add_def find_Some_iff split: option.splits)
  moreover have "distinct keep" using s by (simp add: keep_def)
  moreover have "distinct rest" using d by (simp add: rest_def distinct_map_filter)
  moreover have "set keep \<inter> set add = {}" "set rest \<inter> (set keep \<union> set add) = {}"
    by (auto simp: add_def rest_def)
  moreover have "set keep \<union> set add \<subseteq> {m. map_of final m = Some (Some (g_id g))}"
    by (auto simp: keep_def add_def)
  moreover have "set rest = {m. map_of final m = Some (Some (g_id g))} - (set keep \<union> set add)"
    using map_of_eq_Some_iff [OF d] by (force simp: rest_def)
  ultimately show ?thesis unfolding m by auto
qed

lemma resolved_plain:
  assumes "layout_ok ours" and "layout_ok disk" and "resolved ours base disk known n = Some p"
  shows "plain n"
proof -
  have "map_of (placements ours) n \<noteq> None \<or> map_of (placements disk) n \<noteq> None"
  proof (rule ccontr)
    assume "\<not> ?thesis"
    then have "resolved ours base disk known n = None" by (simp add: resolved_def)
    with assms(3) show False by simp
  qed
  moreover have "plain n" if "layout_ok l" "map_of (placements l) n \<noteq> None" for l
  proof (cases "n \<in> set (so_order l) \<and> loose_slot n")
    case True
    then show ?thesis by (simp add: loose_slot_def plain_def)
  next
    case False
    have "distinct (placed l)" using that by (simp add: layout_ok_def)
    from placements_of [OF this, of n] False that(2) obtain g
      where "List.find (\<lambda>g. n \<in> set (g_members g)) (so_groups l) = Some g" by (auto split: option.splits)
    then have "n \<in> set (members_of l)" by (auto simp: find_Some_iff)
    with that show ?thesis unfolding layout_ok_def by blast
  qed
  ultimately show ?thesis using assms(1,2) by blast
qed

section \<open>The merge\<close>

lemma merge_groups:
  fixes ours base disk :: sidebar_layout and known :: "string set"
  assumes "layout_ok ours" and "layout_ok disk"
  defines "m \<equiv> mergeWithDisk ours base disk known"
  shows "group_ids m = group_ids ours @ map g_id (adopted_groups ours base disk)"
    and "distinct (group_ids m)" and "[] \<notin> set (group_ids m)"
    and "g \<in> set (so_groups m) \<Longrightarrow> distinct (g_members g) \<and>
      set (g_members g) = {n. resolved ours base disk known n = Some (Some (g_id g))}"
proof -
  let ?ad = "adopted_groups ours base disk" and ?f = "final_placements ours base disk known"
  have gs: "so_groups m = map (\<lambda>g. g\<lparr>g_members := merged_members ?f disk g (g_members g)\<rparr>) (so_groups ours @ ?ad)"
    by (simp add: m_def mergeWithDisk_def Let_def)
  show ids: "group_ids m = group_ids ours @ map g_id ?ad" by (simp add: gs o_def)
  have "distinct (map g_id ?ad)" using assms(2) by (simp add: adopted_groups_def layout_ok_def distinct_map_filter)
  moreover have "set (map g_id ?ad) \<inter> set (group_ids ours) = {}"
    unfolding adopted_groups_def by auto
  ultimately show "distinct (group_ids m)" unfolding ids using assms(1)
    by (simp add: layout_ok_def Int_commute)
  show "[] \<notin> set (group_ids m)" unfolding ids using assms(1,2)
    by (auto simp: layout_ok_def adopted_groups_def)
  have dm: "distinct (g_members h)" if "h \<in> set (so_groups ours) \<union> set (so_groups disk)" for h
    using that assms(1,2) by (auto simp: layout_ok_def placed_def distinct_concat_iff)
  show "distinct (g_members g) \<and> set (g_members g) = {n. resolved ours base disk known n = Some (Some (g_id g))}"
    if g: "g \<in> set (so_groups m)"
  proof -
    obtain h where h: "h \<in> set (so_groups ours @ ?ad)" "g = h\<lparr>g_members := merged_members ?f disk h (g_members h)\<rparr>"
      using g gs by auto
    then have "h \<in> set (so_groups ours) \<union> set (so_groups disk)" by (auto simp: adopted_groups_def)
    from merged_members_spec [OF final_distinct dm [OF this], of disk] dm h(2) show ?thesis
      by (simp add: final_resolved)
  qed
qed

lemma merge_order:
  fixes ours base disk :: sidebar_layout and known :: "string set"
  assumes "layout_ok ours" and "layout_ok disk"
  defines "m \<equiv> mergeWithDisk ours base disk known"
  shows "distinct (so_order m)"
    and "i \<noteq> [] \<Longrightarrow> groupToken i \<in> set (so_order m) \<longleftrightarrow> i \<in> set (group_ids m)"
    and "loose_slot n \<Longrightarrow> n \<in> set (so_order m) \<longleftrightarrow> resolved ours base disk known n = Some None"
    and "''peer:'' \<notin> set (so_order m)"
    and "groupToken [] \<in> set (so_order m) \<Longrightarrow> resolved ours base disk known (groupToken []) = Some None"
proof -
  let ?ad = "adopted_groups ours base disk" and ?f = "final_placements ours base disk known"
  let ?R = "resolved ours base disk known"
  let ?unp = "filter (\<lambda>t. isPeerToken t \<and> t \<notin> set (so_order ours)) (so_order base)"
  let ?A = "{t \<in> set (so_order ours). case groupIdOf t of
      Some gid \<Rightarrow> gid \<in> g_id ` set (so_groups ours) \<union> g_id ` set ?ad | None \<Rightarrow> isPeerToken t \<or> ?R t = Some None}"
  let ?B = "{t \<in> set (so_order disk). case groupIdOf t of
      Some gid \<Rightarrow> gid \<in> g_id ` set ?ad | None \<Rightarrow> if isPeerToken t then t \<notin> set ?unp else ?R t = Some None}"
  note g = merge_groups [OF assms(1,2), where base = base and known = known, folded m_def]
  have so: "so_order m = fold set_add (map fst (filter (\<lambda>e. snd e = None) ?f))
      (fold set_add (map (\<lambda>g. groupToken (g_id g)) (so_groups m))
        (fold set_add (filter (\<lambda>t. t \<in> ?B) (so_order disk)) (fold set_add (filter (\<lambda>t. t \<in> ?A) (so_order ours)) [])))"
  proof -
    have fA: "fold (\<lambda>t out. if P t then set_add t out else out) (so_order ours) acc =
        fold set_add (filter (\<lambda>t. t \<in> ?A) (so_order ours)) acc"
      if "\<And>t. P t = (case groupIdOf t of Some gid \<Rightarrow> gid \<in> g_id ` set (so_groups ours) \<union> g_id ` set ?ad
        | None \<Rightarrow> isPeerToken t \<or> ?R t = Some None)" for P acc
      using fold_set_add_if [of P "\<lambda>x. x"] that by (simp cong: filter_cong)
    have fB: "fold (\<lambda>t out. if P t then set_add t out else out) (so_order disk) acc =
        fold set_add (filter (\<lambda>t. t \<in> ?B) (so_order disk)) acc"
      if "\<And>t. P t = (case groupIdOf t of Some gid \<Rightarrow> gid \<in> g_id ` set ?ad
        | None \<Rightarrow> if isPeerToken t then t \<notin> set ?unp else ?R t = Some None)" for P acc
      using fold_set_add_if [of P "\<lambda>x. x"] that by (simp cong: filter_cong)
    show ?thesis
      unfolding m_def mergeWithDisk_def Let_def final_resolved
      by (subst fA, rule refl, subst fB, rule refl)
        (simp add: fold_set_add_if fold_map o_def)
  qed
  have fin: "set (map fst (filter (\<lambda>e. snd e = None) ?f)) = {n. ?R n = Some None}"
    using map_of_eq_Some_iff [OF final_distinct [of ours base disk known]]
    by (force simp: final_resolved [symmetric])
  have toks: "set (map (\<lambda>g. groupToken (g_id g)) (so_groups m)) = groupToken ` set (group_ids m)" by auto
  have S: "set (so_order m) = ?A \<union> ?B \<union> groupToken ` set (group_ids m) \<union> {n. ?R n = Some None}"
    unfolding so set_fold_set_add fin toks by auto
  show "distinct (so_order m)" unfolding so by simp
  show "''peer:'' \<notin> set (so_order m)"
  proof -
    have "?R ''peer:'' \<noteq> Some None" using resolved_plain [OF assms(1,2)] not_plain_peer by blast
    then show ?thesis using assms(1,2) unfolding S by (auto simp: layout_ok_def)
  qed
  show "groupToken i \<in> set (so_order m) \<longleftrightarrow> i \<in> set (group_ids m)" if i: "i \<noteq> []"
  proof -
    have "?R (groupToken i) \<noteq> Some None"
      using resolved_plain [OF assms(1,2)] not_plain_groupToken [OF i] by blast
    then show ?thesis unfolding S g(1) by auto
  qed
  show "n \<in> set (so_order m) \<longleftrightarrow> ?R n = Some None" if "loose_slot n"
    using that unfolding S by (auto simp: loose_slot_def)
  show "?R (groupToken []) = Some None" if "groupToken [] \<in> set (so_order m)"
    using that g(3) assms(1,2) unfolding S by (auto simp: layout_ok_def adopted_groups_def)
qed

lemma merged_member_iff:
  fixes ours base disk :: sidebar_layout and known :: "string set"
  assumes "layout_ok ours" and "layout_ok disk"
  defines "m \<equiv> mergeWithDisk ours base disk known"
  shows "n \<in> set (members_of m) \<longleftrightarrow> (\<exists>gid\<in>set (group_ids m). resolved ours base disk known n = Some (Some gid))"
  unfolding m_def using merge_groups(4) [OF assms(1,2), where base = base and known = known] by auto

lemma merged_members_distinct:
  assumes "layout_ok ours" and "layout_ok disk"
  shows "distinct (members_of (mergeWithDisk ours base disk known))"
proof (rule distinct_concat_map)
  let ?m = "mergeWithDisk ours base disk known"
  note g = merge_groups [OF assms, where base = base and known = known]
  show "distinct (so_groups ?m)" using g(2) by (simp add: distinct_map)
  show "distinct (g_members x)" if "x \<in> set (so_groups ?m)" for x using g(4) [OF that] by simp
  show "set (g_members x) \<inter> set (g_members y) = {}"
    if "x \<in> set (so_groups ?m)" "y \<in> set (so_groups ?m)" "x \<noteq> y" for x y
  proof -
    have "g_id x \<noteq> g_id y" using g(2) that by (auto simp: distinct_map inj_on_def)
    with g(4) [OF that(1)] g(4) [OF that(2)] show ?thesis by auto
  qed
qed

lemma merged_ok:
  assumes "layout_ok ours" and "layout_ok disk"
  shows "layout_ok (mergeWithDisk ours base disk known)"
proof -
  let ?m = "mergeWithDisk ours base disk known" and ?R = "resolved ours base disk known"
  note mem = merged_member_iff [OF assms, where base = base and known = known]
  note o' = merge_order [OF assms, where base = base and known = known]
  have pl: "plain n" if "n \<in> set (members_of ?m)" for n
    using that mem resolved_plain [OF assms] by blast
  have disj: "n \<notin> set (members_of ?m)" if n: "n \<in> set (so_order ?m)" for n
  proof
    assume m: "n \<in> set (members_of ?m)"
    then obtain gid where r: "?R n = Some (Some gid)" using mem by blast
    show False
    proof (cases "groupIdOf n")
      case None
      then have "loose_slot n" using pl [OF m] by (simp add: loose_slot_def plain_def)
      with o'(3) n r show False by simp
    next
      case (Some i)
      then have "n = groupToken []" using pl [OF m] by (cases i) (auto simp: groupIdOf_Some)
      with o'(5) n r show False by simp
    qed
  qed
  then show ?thesis
    unfolding layout_ok_def placed_def
    using o' pl merged_members_distinct [OF assms, where base = base and known = known]
      merge_groups(2,3) [OF assms, where base = base and known = known] by (auto simp: distinct_append)
qed

lemma merged_placement:
  assumes "layout_ok ours" and "layout_ok disk" and n: "groupIdOf n = None"
  shows "map_of (placements (mergeWithDisk ours base disk known)) n = resolved ours base disk known n"
proof -
  let ?m = "mergeWithDisk ours base disk known" and ?R = "resolved ours base disk known"
  let ?find = "List.find (\<lambda>g. n \<in> set (g_members g)) (so_groups ?m)"
  note g = merge_groups [OF assms(1,2), where base = base and known = known]
  note o' = merge_order [OF assms(1,2), where base = base and known = known]
  note mem = merged_member_iff [OF assms(1,2), where base = base and known = known]
  have d: "distinct (placed ?m)"
    using merged_ok [OF assms(1,2), where base = base and known = known] by (simp add: layout_ok_def)
  have l: "loose_slot n" if "?R n = Some p" for p
    using resolved_plain [OF assms(1,2) that] n by (simp add: loose_slot_def plain_def)
  consider "?R n = None" | "?R n = Some None" | gid where "?R n = Some (Some gid)" by (metis not_Some_eq)
  then show ?thesis
  proof cases
    case 1
    then have "n \<notin> set (members_of ?m)" using mem by simp
    then have "?find = None" by (auto simp: find_None_iff)
    with 1 o'(3) [of n] show ?thesis by (auto simp: placements_of [OF d])
  next
    case 2
    with l o'(3) show ?thesis by (simp add: placements_of [OF d])
  next
    case 3
    have "gid \<in> set (group_ids ?m)"
      using 3 unfolding resolved_def g(1) Let_def by (auto split: option.splits if_splits)
    with 3 have "n \<in> set (members_of ?m)" using mem by blast
    then obtain h where h: "?find = Some h" by (cases ?find) (auto simp: find_None_iff)
    then have "h \<in> set (so_groups ?m)" "n \<in> set (g_members h)" by (auto simp: find_Some_iff)
    with g(4) [OF this(1)] 3 have "g_id h = gid" by simp
    with h 3 o'(3) [OF l [OF 3]] show ?thesis by (simp add: placements_of [OF d])
  qed
qed

section \<open>The merge as a rule on layouts\<close>

text \<open>
  What the merge is meant to do, said of the layouts themselves and of none of the code's maps.
  Where a name sits: in the last folder that has it, else in a slot of its own when it has one.
  The folders after the merge: ours as they stand, then the ones the disk has that neither we nor
  the layout we started from have. The rule: a name we moved since we started, or that is no known
  project, stays where we have it, every other one goes where the disk has it, and a folder that
  is no longer there means a slot of its own.
\<close>

definition where_is :: "sidebar_layout \<Rightarrow> string \<Rightarrow> placement option" where
  "where_is l n =
     (case List.find (\<lambda>g. n \<in> set (g_members g)) (rev (so_groups l)) of
        Some g \<Rightarrow> Some (Some (g_id g))
      | None \<Rightarrow> if n \<in> set (so_order l) \<and> groupIdOf n = None \<and> \<not> isPeerToken n then Some None else None)"

definition folders_after :: "sidebar_layout \<Rightarrow> sidebar_layout \<Rightarrow> sidebar_layout \<Rightarrow> project_group list" where
  "folders_after ours base disk =
     so_groups ours @ [g \<leftarrow> so_groups disk. g_id g \<notin> set (group_ids ours @ group_ids base)]"

definition three_way :: "sidebar_layout \<Rightarrow> sidebar_layout \<Rightarrow> sidebar_layout \<Rightarrow> string set \<Rightarrow> string \<Rightarrow> placement option" where
  "three_way ours base disk known n =
     (case (if where_is ours n \<noteq> where_is base n \<or> n \<notin> known then where_is ours n else where_is disk n) of
        Some (Some gid) \<Rightarrow> if gid \<in> g_id ` set (folders_after ours base disk) then Some (Some gid) else Some None
      | p \<Rightarrow> p)"

lemma map_of_members:
  "map_of (rev (concat (map (\<lambda>g. map (\<lambda>name. (name, Some (g_id g))) (g_members g)) gs))) n =
    (case List.find (\<lambda>g. n \<in> set (g_members g)) (rev gs) of None \<Rightarrow> None | Some g \<Rightarrow> Some (Some (g_id g)))"
proof (induction gs rule: rev_induct)
  case (snoc g gs)
  have "map_of (rev (map (\<lambda>name. (name, p)) ms)) n = (if n \<in> set ms then Some p else None)"
    for ms and p :: placement
    by (induction ms) (auto simp: map_add_def split: option.splits)
  with snoc show ?case by (simp add: map_add_def)
qed simp

lemma placements_where: "map_of (placements l) n = where_is l n"
proof -
  have "map_of (placements l) n =
      map_of (rev (map (\<lambda>token. (token, None)) (filter loose_slot (so_order l)) @
        concat (map (\<lambda>g. map (\<lambda>name. (name, Some (g_id g))) (g_members g)) (so_groups l)))) n"
    unfolding placements_def
    by (subst jm.get_put_all) simp
  moreover have "map_of (rev (map (\<lambda>token. (token, None :: placement)) ts)) n =
      (if n \<in> set ts then Some None else None)" for ts
    by (induction ts) (auto simp: map_add_def split: option.splits)
  ultimately show ?thesis
    by (simp add: where_is_def map_of_members map_add_def loose_slot_def split: option.splits)
qed

lemma adopted_folders: "so_groups ours @ adopted_groups ours base disk = folders_after ours base disk"
  by (simp add: adopted_groups_def folders_after_def)

lemma resolved_three_way: "resolved ours base disk known n = three_way ours base disk known n"
  unfolding resolved_def three_way_def Let_def placements_where adopted_folders
  by (auto split: option.splits)

lemma merged_folders:
  "map (\<lambda>g. g\<lparr>g_members := []\<rparr>) (so_groups (mergeWithDisk ours base disk known)) =
   map (\<lambda>g. g\<lparr>g_members := []\<rparr>) (folders_after ours base disk)"
  by (simp add: mergeWithDisk_def Let_def adopted_folders [symmetric])

text \<open>Property C5: saving the sidebar never clobbers what someone else saved. The merged layout is
  well formed. Its folders are ours, under our names, followed by the folders on disk that are new
  to us and to the layout we started from. Every project sits where the three-way rule puts it:
  where we have it when we moved it or when it is no known project, else where the disk has it,
  and in a slot of its own when the folder it was to be in is gone.\<close>

theorem merge_three_way:
  assumes "layout_ok ours" and "layout_ok disk"
  shows "layout_ok (mergeWithDisk ours base disk known) \<and>
    (\<forall>n. groupIdOf n = None \<longrightarrow>
       where_is (mergeWithDisk ours base disk known) n = three_way ours base disk known n) \<and>
    map (\<lambda>g. g\<lparr>g_members := []\<rparr>) (so_groups (mergeWithDisk ours base disk known)) =
    map (\<lambda>g. g\<lparr>g_members := []\<rparr>) (folders_after ours base disk)"
  using merged_ok [OF assms] merged_placement [OF assms] merged_folders
  by (simp add: placements_where resolved_three_way)

theorem merge_three_way_witness:
  "layout_ok (mergeWithDisk demo_layout demo_layout demo_layout {''app''})"
  using merge_three_way [OF demo_layout_ok demo_layout_ok, of demo_layout "{''app''}"] by blast

end
