(* ===== verification/RelayRoom.thy ===== *)
theory RelayRoom
  imports SavedLayouts "HOL-Library.Word"
begin

text \<open>
  \<open>relay/src/room.ts\<close>, \<open>relay/src/claim.ts\<close> and the routing of \<open>relay/src/index.ts\<close>: the
  relay between the machine that shares a terminal tab (the host) and the browsers that joined
  it (its guests). It carries ciphertext; its own work is who may host a room, how many guests
  it holds, and the 8-byte identifier that says which guest a message is from or for.

  SHA-256 is a parameter, \<open>digest\<close>. A socket the runtime gave a room stays listed after
  \<open>close()\<close>, no longer open, until its close event was handled. Storage calls hold back other
  events, so each handler is one step of the room.
\<close>

section \<open>Text of bytes\<close>

type_synonym bytes = "8 word list"

definition hex_digit :: "nat \<Rightarrow> char" where
  "hex_digit n = (if n < 10 then char_of (48 + n) else char_of (87 + n))"

definition hex_value :: "char \<Rightarrow> nat" where
  "hex_value c = (let n = (of_char c :: nat) in if n < 58 then n - 48 else n - 87)"

definition toHex :: "bytes \<Rightarrow> string" where
  "toHex bs = concat (map (\<lambda>b. [hex_digit (unat b div 16), hex_digit (unat b mod 16)]) bs)"

fun fromHex :: "string \<Rightarrow> bytes" where
  "fromHex (h # l # rest) = word_of_nat (16 * hex_value h + hex_value l) # fromHex rest"
| "fromHex _ = []"

definition b64_alphabet :: string where
  "b64_alphabet = ''ABCDEFGHIJKLMNOPQRSTUVWXYZabcdefghijklmnopqrstuvwxyz0123456789+/''"

definition b64_char :: "nat \<Rightarrow> char" where
  "b64_char n = b64_alphabet ! (n mod 64)"

fun btoa :: "bytes \<Rightarrow> string" where
  "btoa [] = []"
| "btoa [a] = [b64_char (unat a div 4), b64_char (unat a mod 4 * 16), CHR ''='', CHR ''='']"
| "btoa [a, b] = [b64_char (unat a div 4), b64_char (unat a mod 4 * 16 + unat b div 16),
     b64_char (unat b mod 16 * 4), CHR ''='']"
| "btoa (a # b # c # rest) =
     b64_char (unat a div 4) # b64_char (unat a mod 4 * 16 + unat b div 16) #
     b64_char (unat b mod 16 * 4 + unat c div 64) # b64_char (unat c mod 64) # btoa rest"

definition url_safe :: "char \<Rightarrow> char" where
  "url_safe c = (if c = CHR ''+'' then CHR ''-'' else if c = CHR ''/'' then CHR ''_'' else c)"

definition roomOf :: "(string \<Rightarrow> bytes) \<Rightarrow> string \<Rightarrow> string" where
  "roomOf digest token =
     rev (dropWhile (\<lambda>c. c = CHR ''='') (rev (map url_safe (btoa (take 16 (digest token))))))"

definition sha256 :: "(string \<Rightarrow> bytes) \<Rightarrow> string \<Rightarrow> string" where
  "sha256 digest t = toHex (digest t)"

section \<open>The worker's routing\<close>

definition room_char :: "char \<Rightarrow> bool" where
  "room_char c = (is_letter c \<or> is_digit c \<or> c = CHR ''_'' \<or> c = CHR ''-'')"

text \<open>\<open>ROOM_PATH\<close>: \<open>/^\/room\/([A-Za-z0-9_-]{22})\/(host|guest)$/\<close>.\<close>

definition room_path :: "string \<Rightarrow> (string \<times> string) option" where
  "room_path path =
     (let name = take 22 (drop 6 path); role = drop 29 path
      in if starts_with path ''/room/'' \<and> length name = 22 \<and> list_all room_char name \<and>
            take 1 (drop 28 path) = ''/'' \<and> (role = ''host'' \<or> role = ''guest'')
         then Some (name, role) else None)"

datatype worker_answer = Assets | Status nat | ToRoom string

definition worker_fetch ::
  "string \<Rightarrow> string \<Rightarrow> string option \<Rightarrow> string option \<Rightarrow> bool option \<Rightarrow> worker_answer" where
  "worker_fetch path origin upgrade request_origin limit_ok =
     (case room_path path of
        None \<Rightarrow> Assets
      | Some (name, role) \<Rightarrow>
          if map_option to_lower upgrade \<noteq> Some ''websocket'' then Status 426
          else if role = ''guest'' \<and> request_origin \<noteq> Some origin then Status 403
          else if limit_ok = Some False then Status 429
          else ToRoom name)"

section \<open>A room\<close>

definition ID_BYTES :: nat where "ID_BYTES = 8"
definition MAX_GUESTS :: nat where "MAX_GUESTS = 16"
definition MAX_NOISE :: nat where "MAX_NOISE = 65535"
definition FORGET_AFTER_MS :: int where "FORGET_AFTER_MS = 24 * 60 * 60 * 1000"

datatype close_code = Replaced | HostLeft | ClosedByHost | Offline | Ended | Full | TooBig | Bye

definition code_number :: "close_code \<Rightarrow> nat" where
  "code_number c = (case c of Replaced \<Rightarrow> 4000 | HostLeft \<Rightarrow> 4001 | ClosedByHost \<Rightarrow> 4003 | Offline \<Rightarrow> 4004
     | Ended \<Rightarrow> 4010 | Full \<Rightarrow> 4029 | TooBig \<Rightarrow> 1009 | Bye \<Rightarrow> 1000)"

datatype attachment = HostRole | GuestRole string

record socket =
  sk_id :: nat
  sk_role :: attachment
  sk_open :: bool

record room =
  rm_sockets :: "socket list"
  rm_next :: nat
  rm_host :: "string option"
  rm_ended :: bool
  rm_alarm :: "int option"

definition empty_room :: room where
  "empty_room = \<lparr>rm_sockets = [], rm_next = 0, rm_host = None, rm_ended = False, rm_alarm = None\<rparr>"

text \<open>A message as it arrives; of a text, what \<open>JSON.parse\<close> makes of it (\<^term>\<open>None\<close>: it throws).\<close>

datatype message = MText "json option" | MBytes bytes

datatype frame = FOpen string | FClose string | FBytes bytes

datatype effect = SendTo nat frame | CloseIt nat close_code

datatype answer = Upgraded | Refused close_code | Http nat

text \<open>\<open>int\<close> arguments are \<open>Date.now()\<close>; the bytes are what \<open>crypto.getRandomValues\<close> filled in.\<close>

datatype room_event =
    HostRequest string "string option"
  | GuestRequest bytes
  | Message nat message int
  | Closed nat int
  | Errored nat int
  | AlarmFired

definition is_host :: "socket \<Rightarrow> bool" where "is_host ws = (sk_role ws = HostRole)"
definition is_guest :: "socket \<Rightarrow> bool" where "is_guest ws = (\<not> is_host ws)"

definition openHost :: "room \<Rightarrow> socket option" where
  "openHost r = List.find (\<lambda>ws. is_host ws \<and> sk_open ws) (rm_sockets r)"

definition tagged :: "room \<Rightarrow> string \<Rightarrow> socket list" where
  "tagged r i = filter (\<lambda>ws. sk_role ws = GuestRole i) (rm_sockets r)"

text \<open>\<open>close(ws, code, reason)\<close> over the sockets that satisfy \<open>P\<close>.\<close>

definition shut :: "(socket \<Rightarrow> bool) \<Rightarrow> socket \<Rightarrow> socket" where
  "shut P ws = (if P ws then ws\<lparr>sk_open := False\<rparr> else ws)"

definition close_where :: "(socket \<Rightarrow> bool) \<Rightarrow> room \<Rightarrow> room" where
  "close_where P r = r\<lparr>rm_sockets := map (shut P) (rm_sockets r)\<rparr>"

definition closing :: "(socket \<Rightarrow> bool) \<Rightarrow> close_code \<Rightarrow> room \<Rightarrow> effect list" where
  "closing P c r = map (\<lambda>ws. CloseIt (sk_id ws) c) (filter P (rm_sockets r))"

definition accept :: "attachment \<Rightarrow> room \<Rightarrow> room" where
  "accept role r = r\<lparr>rm_sockets := rm_sockets r @ [\<lparr>sk_id = rm_next r, sk_role = role, sk_open = True\<rparr>],
     rm_next := Suc (rm_next r)\<rparr>"

text \<open>\<open>/^Bearer (\S+)$/\<close>.\<close>

definition bearer :: "string option \<Rightarrow> string option" where
  "bearer auth = (case auth of None \<Rightarrow> None | Some h \<Rightarrow>
     let t = drop 7 h
     in if starts_with h ''Bearer '' \<and> t \<noteq> [] \<and> list_all (\<lambda>c. \<not> is_space c) t then Some t else None)"

definition host :: "(string \<Rightarrow> bytes) \<Rightarrow> room \<Rightarrow> string \<Rightarrow> string option \<Rightarrow> room \<times> answer \<times> effect list" where
  "host digest r path auth =
     (case bearer auth of
        None \<Rightarrow> (r, Http 401, [])
      | Some token \<Rightarrow>
          let hash = sha256 digest token;
              owner = (path = ''/room/'' @ roomOf digest token @ ''/host'')
          in if \<not> owner \<and> rm_ended r then (r, Refused Ended, [])
             else if \<not> owner \<and> (case keep_truthy (rm_host r) of None \<Rightarrow> False | Some claimed \<Rightarrow> claimed \<noteq> hash)
             then (r, Http 403, [])
             else
               let r = (if owner then r\<lparr>rm_ended := False\<rparr> else r);
                   r = r\<lparr>rm_host := Some hash, rm_alarm := None\<rparr>;
                   out = closing is_host Replaced r @ closing is_guest HostLeft r;
                   r = close_where (\<lambda>ws. True) r
               in (accept HostRole r, Upgraded, out))"

definition guest :: "room \<Rightarrow> bytes \<Rightarrow> room \<times> answer \<times> effect list" where
  "guest r random =
     (case openHost r of
        None \<Rightarrow> (r, Refused Offline, [])
      | Some h \<Rightarrow>
          if MAX_GUESTS \<le> length (filter is_guest (rm_sockets r)) then (r, Refused Full, [])
          else let i = toHex random in (accept (GuestRole i) r, Upgraded, [SendTo (sk_id h) (FOpen i)]))"

text \<open>\<open>fetch\<close>: a path that ends in \<open>/host\<close>, or a guest's.\<close>

definition fetch_guest :: "room \<Rightarrow> bytes \<Rightarrow> room \<times> answer \<times> effect list" where
  "fetch_guest r random = (if rm_ended r then (r, Refused Ended, []) else guest r random)"

definition toGuest :: "room \<Rightarrow> bytes \<Rightarrow> effect list" where
  "toGuest r m =
     (if length m \<le> ID_BYTES then []
      else map (\<lambda>ws. SendTo (sk_id ws) (FBytes (drop ID_BYTES m))) (tagged r (toHex (take ID_BYTES m))))"

definition command :: "room \<Rightarrow> json option \<Rightarrow> int \<Rightarrow> room \<times> effect list" where
  "command r parsed now =
     (case parsed of
        None \<Rightarrow> (r, [])
      | Some v \<Rightarrow>
          (case (jfield v ''t'', jfield v ''c'') of
             (Some (JStr t), Some (JStr c)) \<Rightarrow>
               if t = ''close''
               then (close_where (\<lambda>ws. sk_role ws = GuestRole c) r, closing (\<lambda>ws. sk_role ws = GuestRole c) ClosedByHost r)
               else if t = ''end''
               then ((close_where (\<lambda>ws. True) r)\<lparr>rm_host := None, rm_ended := True, rm_alarm := Some (now + FORGET_AFTER_MS)\<rparr>,
                 closing (\<lambda>ws. True) Ended r)
               else (r, [])
           | (Some (JStr t), _) \<Rightarrow>
               if t = ''end''
               then ((close_where (\<lambda>ws. True) r)\<lparr>rm_host := None, rm_ended := True, rm_alarm := Some (now + FORGET_AFTER_MS)\<rparr>,
                 closing (\<lambda>ws. True) Ended r)
               else (r, [])
           | _ \<Rightarrow> (r, [])))"

definition message_length :: "message \<Rightarrow> nat" where
  "message_length m = (case m of MText _ \<Rightarrow> 0 | MBytes b \<Rightarrow> length b)"

definition webSocketMessage :: "room \<Rightarrow> socket \<Rightarrow> message \<Rightarrow> int \<Rightarrow> room \<times> effect list" where
  "webSocketMessage r ws m now =
     (let limit = (if is_host ws then MAX_NOISE + ID_BYTES else MAX_NOISE)
      in if limit < message_length m
         then (close_where (\<lambda>s. sk_id s = sk_id ws) r, [CloseIt (sk_id ws) TooBig])
         else case sk_role ws of
           HostRole \<Rightarrow> (case m of MText parsed \<Rightarrow> command r parsed now | MBytes b \<Rightarrow> (r, toGuest r b))
         | GuestRole i \<Rightarrow>
             (case m of
                MText _ \<Rightarrow> (r, [])
              | MBytes b \<Rightarrow>
                  (case openHost r of
                     None \<Rightarrow> (close_where (\<lambda>s. sk_id s = sk_id ws) r, [CloseIt (sk_id ws) Offline])
                   | Some h \<Rightarrow> (r, [SendTo (sk_id h) (FBytes (fromHex i @ b))]))))"

text \<open>\<open>left\<close>, of a socket that is no longer open; afterwards the runtime drops it.\<close>

definition left :: "room \<Rightarrow> socket \<Rightarrow> int \<Rightarrow> room \<times> effect list" where
  "left r ws now =
     (case sk_role ws of
        GuestRole i \<Rightarrow> (r, case openHost r of None \<Rightarrow> [] | Some h \<Rightarrow> [SendTo (sk_id h) (FClose i)])
      | HostRole \<Rightarrow>
          if \<exists>h\<in>set (rm_sockets r). is_host h \<and> sk_id h \<noteq> sk_id ws \<and> sk_open h then (r, [])
          else ((close_where is_guest r)\<lparr>rm_alarm :=
                 (if truthy (rm_host r) then Some (now + FORGET_AFTER_MS) else rm_alarm r)\<rparr>,
               closing is_guest Offline r))"

definition gone :: "room \<Rightarrow> nat \<Rightarrow> int \<Rightarrow> room \<times> effect list" where
  "gone r i now =
     (case List.find (\<lambda>ws. sk_id ws = i) (rm_sockets r) of
        None \<Rightarrow> (r, [])
      | Some ws \<Rightarrow>
          (case left (close_where (\<lambda>s. sk_id s = i) r) ws now of
             (r, out) \<Rightarrow> (r\<lparr>rm_sockets := filter (\<lambda>s. sk_id s \<noteq> i) (rm_sockets r)\<rparr>, out)))"

definition alarm :: "room \<Rightarrow> room" where
  "alarm r = (if openHost r = None then r\<lparr>rm_host := None, rm_ended := False, rm_alarm := None\<rparr>
              else r\<lparr>rm_alarm := None\<rparr>)"

definition room_step :: "(string \<Rightarrow> bytes) \<Rightarrow> room \<Rightarrow> room_event \<Rightarrow> room \<times> answer option \<times> effect list" where
  "room_step digest r e =
     (case e of
        HostRequest path auth \<Rightarrow> (case host digest r path auth of (r, a, out) \<Rightarrow> (r, Some a, out))
      | GuestRequest random \<Rightarrow> (case fetch_guest r random of (r, a, out) \<Rightarrow> (r, Some a, out))
      | Message i m now \<Rightarrow>
          (case List.find (\<lambda>ws. sk_id ws = i \<and> sk_open ws) (rm_sockets r) of
             None \<Rightarrow> (r, None, [])
           | Some ws \<Rightarrow> (case webSocketMessage r ws m now of (r, out) \<Rightarrow> (r, None, out)))
      | Closed i now \<Rightarrow> (case gone r i now of (r, out) \<Rightarrow> (r, None, CloseIt i Bye # out))
      | Errored i now \<Rightarrow> (case gone r i now of (r, out) \<Rightarrow> (r, None, out))
      | AlarmFired \<Rightarrow> (alarm r, None, []))"

section \<open>The invariant of a room\<close>

definition open_hosts :: "room \<Rightarrow> socket list" where
  "open_hosts r = filter (\<lambda>ws. is_host ws \<and> sk_open ws) (rm_sockets r)"

text \<open>
  At most 16 guests and one open host; no two sockets are confused; and a guest is never left
  connected without a host that is there or just being closed.
\<close>

definition room_ok :: "room \<Rightarrow> bool" where
  "room_ok r \<longleftrightarrow>
     length (filter is_guest (rm_sockets r)) \<le> MAX_GUESTS \<and> length (open_hosts r) \<le> 1 \<and>
     distinct (map sk_id (rm_sockets r)) \<and> (\<forall>ws\<in>set (rm_sockets r). sk_id ws < rm_next r) \<and>
     ((\<exists>ws\<in>set (rm_sockets r). is_guest ws \<and> sk_open ws) \<longrightarrow> (\<exists>ws\<in>set (rm_sockets r). is_host ws))"

lemma shut_simps [simp]:
  "is_host (shut P ws) = is_host ws" "is_guest (shut P ws) = is_guest ws"
  "sk_id (shut P ws) = sk_id ws" "sk_role (shut P ws) = sk_role ws"
  "sk_open (shut P ws) = (sk_open ws \<and> \<not> P ws)"
  by (simp_all add: shut_def is_host_def is_guest_def)

lemma shut_id [simp]: "\<not> P ws \<Longrightarrow> shut P ws = ws"
  by (simp add: shut_def)

lemma close_where_simps [simp]:
  "map sk_id (rm_sockets (close_where P r)) = map sk_id (rm_sockets r)"
  "rm_next (close_where P r) = rm_next r"
  "length (filter is_guest (rm_sockets (close_where P r))) = length (filter is_guest (rm_sockets r))"
  by (simp_all add: close_where_def o_def filter_map)

lemma close_where_host:
  "(\<exists>ws\<in>set (rm_sockets (close_where P r)). is_host ws) \<longleftrightarrow> (\<exists>ws\<in>set (rm_sockets r). is_host ws)"
  by (simp add: close_where_def)

lemma open_hosts_close: "open_hosts (close_where P r) = filter (\<lambda>ws. \<not> P ws) (open_hosts r)"
proof -
  have "filter (\<lambda>ws. is_host ws \<and> sk_open ws) (map (shut P) xs) =
      filter (\<lambda>ws. \<not> P ws) (filter (\<lambda>ws. is_host ws \<and> sk_open ws) xs)" for xs
    by (induction xs) auto
  then show ?thesis by (simp add: open_hosts_def close_where_def del: filter_filter)
qed

lemma close_keeps_ok: "room_ok r \<Longrightarrow> room_ok (close_where P r)"
proof -
  assume ok: "room_ok r"
  have "length (open_hosts (close_where P r)) \<le> 1"
    using ok unfolding open_hosts_close room_ok_def by (meson le_trans length_filter_le)
  with ok show ?thesis
    unfolding room_ok_def close_where_host by (simp only: close_where_simps) (auto simp: close_where_def)
qed

lemma room_ok_fields [simp]:
  "room_ok (r\<lparr>rm_host := h\<rparr>) = room_ok r" "room_ok (r\<lparr>rm_ended := e\<rparr>) = room_ok r"
  "room_ok (r\<lparr>rm_alarm := a\<rparr>) = room_ok r"
  by (simp_all add: room_ok_def open_hosts_def)

lemma accept_host_ok: "room_ok r \<Longrightarrow> open_hosts r = [] \<Longrightarrow> room_ok (accept HostRole r)"
  by (auto simp: room_ok_def accept_def open_hosts_def is_host_def is_guest_def)

lemma accept_guest_ok:
  "room_ok r \<Longrightarrow> length (filter is_guest (rm_sockets r)) < MAX_GUESTS \<Longrightarrow> openHost r \<noteq> None \<Longrightarrow>
   room_ok (accept (GuestRole i) r)"
  by (auto simp: room_ok_def accept_def open_hosts_def is_host_def is_guest_def openHost_def find_None_iff)

lemma host_ok: "room_ok r \<Longrightarrow> room_ok (fst (host digest r path auth))"
proof -
  assume ok: "room_ok r"
  have "room_ok (accept HostRole (close_where (\<lambda>ws. True) r'))" if "room_ok r'" for r'
    using close_keeps_ok [OF that] by (intro accept_host_ok) (simp_all add: open_hosts_close)
  then show ?thesis using ok by (simp add: host_def Let_def split: option.splits)
qed

lemma guest_ok: "room_ok r \<Longrightarrow> room_ok (fst (fetch_guest r random))"
  by (auto simp: fetch_guest_def guest_def Let_def accept_guest_ok split: option.splits)

lemma message_ok: "room_ok r \<Longrightarrow> room_ok (fst (webSocketMessage r ws m now))"
proof -
  assume ok: "room_ok r"
  have "room_ok (fst (command r parsed now))" for parsed
    unfolding command_def using ok close_keeps_ok
    by (auto split: option.splits json.splits)
  with ok close_keeps_ok show ?thesis
    by (auto simp: webSocketMessage_def Let_def split: attachment.splits message.splits option.splits)
qed

lemma remove_ok:
  assumes ok: "room_ok r" and h: "(\<exists>ws\<in>set (rm_sockets r). is_guest ws \<and> sk_open ws \<and> sk_id ws \<noteq> i) \<Longrightarrow>
    (\<exists>ws\<in>set (rm_sockets r). is_host ws \<and> sk_id ws \<noteq> i)"
  shows "room_ok (r\<lparr>rm_sockets := filter (\<lambda>s. sk_id s \<noteq> i) (rm_sockets r)\<rparr>)"
proof -
  have len: "length (filter P (filter Q xs)) \<le> length (filter P xs)" for P Q and xs :: "socket list"
    by (induction xs) auto
  have "length (filter is_guest (filter (\<lambda>s. sk_id s \<noteq> i) (rm_sockets r))) \<le> MAX_GUESTS"
    using ok len le_trans unfolding room_ok_def by metis
  moreover have "length (filter (\<lambda>ws. is_host ws \<and> sk_open ws) (filter (\<lambda>s. sk_id s \<noteq> i) (rm_sockets r))) \<le> 1"
    using ok len le_trans unfolding room_ok_def open_hosts_def by metis
  ultimately show ?thesis using ok h by (auto simp: room_ok_def open_hosts_def distinct_map_filter simp del: filter_filter)
qed

lemma same_socket: "room_ok r \<Longrightarrow> a \<in> set (rm_sockets r) \<Longrightarrow> b \<in> set (rm_sockets r) \<Longrightarrow> sk_id a = sk_id b \<Longrightarrow> a = b"
  by (auto simp: room_ok_def distinct_map inj_on_def)

lemma gone_ok: "room_ok r \<Longrightarrow> room_ok (fst (gone r i now))"
proof -
  assume ok: "room_ok r"
  show ?thesis
  proof (cases "List.find (\<lambda>ws. sk_id ws = i) (rm_sockets r)")
    case None
    then show ?thesis using ok by (simp add: gone_def)
  next
    case (Some ws)
    then have ws: "ws \<in> set (rm_sockets r)" "sk_id ws = i" by (auto simp: find_Some_iff)
    let ?c = "close_where (\<lambda>s. sk_id s = i) r"
    have c: "room_ok ?c" by (rule close_keeps_ok [OF ok])
    show ?thesis
    proof (cases "is_host ws")
      case False
      then obtain g where g: "sk_role ws = GuestRole g" by (cases "sk_role ws") (auto simp: is_host_def)
      have "\<exists>h\<in>set (rm_sockets ?c). is_host h \<and> sk_id h \<noteq> i"
        if open_guest: "\<exists>w\<in>set (rm_sockets ?c). is_guest w \<and> sk_open w \<and> sk_id w \<noteq> i"
      proof -
        obtain h where h: "h \<in> set (rm_sockets r)" "is_host h"
          using open_guest c close_where_host [of "\<lambda>s. sk_id s = i" r] unfolding room_ok_def by auto
        then have "sk_id h \<noteq> i" using same_socket [OF ok h(1) ws(1)] ws(2) False by auto
        with h show ?thesis by (force simp: close_where_def)
      qed
      then have "room_ok (?c\<lparr>rm_sockets := filter (\<lambda>s. sk_id s \<noteq> i) (rm_sockets ?c)\<rparr>)" by (rule remove_ok [OF c])
      then show ?thesis using Some g by (simp add: gone_def left_def)
    next
      case True
      then have role: "sk_role ws = HostRole" by (simp add: is_host_def)
      show ?thesis
      proof (cases "\<exists>h\<in>set (rm_sockets ?c). is_host h \<and> sk_id h \<noteq> sk_id ws \<and> sk_open h")
        case T: True
        then have "room_ok (?c\<lparr>rm_sockets := filter (\<lambda>s. sk_id s \<noteq> i) (rm_sockets ?c)\<rparr>)"
          using ws(2) by (intro remove_ok [OF c]) blast
        then show ?thesis using Some role T by (simp add: gone_def left_def)
      next
        case F: False
        let ?d = "(close_where is_guest ?c)\<lparr>rm_alarm := (if truthy (rm_host ?c) then Some (now + FORGET_AFTER_MS) else rm_alarm ?c)\<rparr>"
        have "room_ok ?d" using close_keeps_ok [OF c] by simp
        moreover have "\<not> (\<exists>w\<in>set (rm_sockets ?d). is_guest w \<and> sk_open w \<and> sk_id w \<noteq> i)"
          by (auto simp: close_where_def)
        ultimately have "room_ok (?d\<lparr>rm_sockets := filter (\<lambda>s. sk_id s \<noteq> i) (rm_sockets ?d)\<rparr>)"
          by (intro remove_ok) blast+
        moreover have "left ?c ws now = (?d, closing is_guest Offline ?c)"
          by (simp only: left_def role attachment.case if_not_P [OF F])
        ultimately show ?thesis using Some by (simp add: gone_def)
      qed
    qed
  qed
qed

lemma room_step_ok: "room_ok r \<Longrightarrow> room_ok (fst (room_step digest r e))"
proof (cases e)
  case (HostRequest path auth)
  assume "room_ok r" then show ?thesis using host_ok [of r digest path auth] HostRequest
    by (simp add: room_step_def case_prod_beta)
next
  case (GuestRequest random)
  assume "room_ok r" then show ?thesis using guest_ok [of r random] GuestRequest
    by (simp add: room_step_def case_prod_beta)
next
  case (Message i m now)
  assume "room_ok r" then show ?thesis using message_ok [of r _ m now] Message
    by (simp add: room_step_def case_prod_beta split: option.splits)
next
  case (Closed i now)
  assume "room_ok r" then show ?thesis using gone_ok [of r i now] Closed
    by (simp add: room_step_def case_prod_beta)
next
  case (Errored i now)
  assume "room_ok r" then show ?thesis using gone_ok [of r i now] Errored
    by (simp add: room_step_def case_prod_beta)
next
  case AlarmFired
  assume "room_ok r" then show ?thesis using AlarmFired by (simp add: room_step_def alarm_def)
qed

definition room_next :: "(string \<Rightarrow> bytes) \<Rightarrow> room \<Rightarrow> room_event \<Rightarrow> room" where
  "room_next digest r e = fst (room_step digest r e)"

lemma empty_room_ok: "room_ok empty_room"
  by (simp add: room_ok_def empty_room_def open_hosts_def)

interpretation room: machine empty_room "room_next digest" room_ok for digest
  by unfold_locales (simp_all add: empty_room_ok room_next_def room_step_ok)

section \<open>The identifier of a guest\<close>

lemma hex_digit_value: "n < 16 \<Longrightarrow> hex_value (hex_digit n) = n"
  by (simp add: hex_value_def hex_digit_def Let_def)

lemma fromHex_toHex [simp]: "fromHex (toHex bs) = bs"
proof (induction bs)
  case (Cons b bs)
  have "unat b < 2 ^ LENGTH(8)" by (rule unsigned_less)
  then have "unat b div 16 < 16" by (simp add: less_mult_imp_div_less)
  then have "word_of_nat (16 * hex_value (hex_digit (unat b div 16)) + hex_value (hex_digit (unat b mod 16))) = b"
    by (simp add: hex_digit_value mult_div_mod_eq [of 16, symmetric])
  with Cons show ?case by (simp add: toHex_def)
qed (simp add: toHex_def)

lemma toHex_inject: "toHex a = toHex b \<longleftrightarrow> a = b"
  by (metis fromHex_toHex)

lemma b64_char_safe: "room_char (url_safe (b64_char n))"
proof -
  have "list_all (\<lambda>c. room_char (url_safe c)) b64_alphabet" by code_simp
  moreover have "n mod 64 < length b64_alphabet" by (simp add: b64_alphabet_def)
  ultimately show ?thesis by (simp add: b64_char_def list_all_length)
qed

lemma b64_char_pad: "url_safe (b64_char n) \<noteq> CHR ''=''"
proof
  assume "url_safe (b64_char n) = CHR ''=''"
  then have "room_char (CHR ''='')" using b64_char_safe [of n] by simp
  moreover have "\<not> room_char (CHR ''='')" by code_simp
  ultimately show False by simp
qed

lemma roomOf_shape:
  assumes "16 \<le> length (digest token)"
  shows "length (roomOf digest token) = 22 \<and> list_all room_char (roomOf digest token)"
proof -
  have "\<exists>a xs. take 16 (digest token) = xs @ [a] \<and> length xs = 15"
  proof (intro exI conjI)
    have "take 16 (digest token) \<noteq> []" using assms by auto
    then show "take 16 (digest token) = butlast (take 16 (digest token)) @ [last (take 16 (digest token))]" by simp
    show "length (butlast (take 16 (digest token))) = 15" using assms by simp
  qed
  then obtain a xs where x: "take 16 (digest token) = xs @ [a]" "length xs = 15" by blast
  have groups: "\<exists>us. map url_safe (btoa (ys @ [a])) = us @ map url_safe (btoa [a]) \<and> length us = 4 * k \<and>
      list_all room_char us" if "length ys = 3 * k" for k ys using that
  proof (induction k arbitrary: ys)
    case (Suc k)
    then obtain p q r zs where ys: "ys = p # q # r # zs" "length zs = 3 * k"
      by (cases ys; cases "tl ys"; cases "tl (tl ys)") auto
    from Suc.IH [OF ys(2)] obtain us where us: "map url_safe (btoa (zs @ [a])) = us @ map url_safe (btoa [a])"
      "length us = 4 * k" "list_all room_char us" by blast
    let ?q = "[url_safe (b64_char (unat p div 4)), url_safe (b64_char (unat p mod 4 * 16 + unat q div 16)),
         url_safe (b64_char (unat q mod 16 * 4 + unat r div 64)), url_safe (b64_char (unat r mod 64))]"
    have "map url_safe (btoa (ys @ [a])) = ?q @ us @ map url_safe (btoa [a])"
      using us(1) by (simp add: ys(1) del: btoa.simps(2))
    with us(2,3) show ?case by (intro exI [of _ "?q @ us"]) (simp add: b64_char_safe)
  qed simp
  from groups [of xs 5] x(2) obtain us where us: "map url_safe (btoa (xs @ [a])) = us @ map url_safe (btoa [a])"
    "length us = 20" "list_all room_char us" by auto
  have "map url_safe (btoa [a]) = [url_safe (b64_char (unat a div 4)), url_safe (b64_char (unat a mod 4 * 16)),
      CHR ''='', CHR ''='']" by (simp add: url_safe_def)
  then have "roomOf digest token = us @ [url_safe (b64_char (unat a div 4)), url_safe (b64_char (unat a mod 4 * 16))]"
    using us(1) by (simp add: roomOf_def x(1) b64_char_pad)
  with us(2,3) show ?thesis by (simp add: b64_char_safe)
qed

section \<open>Properties\<close>

text \<open>Property C2: however a room is used, it never holds more than 16 guests or two open hosts,
  and a connected guest always has a host that is there or just being closed.\<close>

theorem room_always_ok:
  "room_ok (foldl (room_next digest) empty_room events)"
  by (rule room.run_inv)

text \<open>Property C17: who may host. A request is let in exactly when it carries a token, and either
  the room is the one that token names, or sharing has not ended and no other token claimed the
  room; then the room is that token's, and it has one open host. Anyone else changes nothing.\<close>

theorem host_claim:
  "(fst (snd (host digest r path auth)) = Upgraded \<longleftrightarrow>
      (\<exists>token. bearer auth = Some token \<and>
        (path = ''/room/'' @ roomOf digest token @ ''/host'' \<or>
         (\<not> rm_ended r \<and> (truthy (rm_host r) \<longrightarrow> rm_host r = Some (sha256 digest token)))))) \<and>
   (fst (snd (host digest r path auth)) = Upgraded \<longrightarrow>
      rm_host (fst (host digest r path auth)) = map_option (sha256 digest) (bearer auth) \<and>
      length (open_hosts (fst (host digest r path auth))) = 1 \<and>
      (\<forall>ws\<in>set (rm_sockets (fst (host digest r path auth))). is_guest ws \<longrightarrow> \<not> sk_open ws)) \<and>
   (fst (snd (host digest r path auth)) \<noteq> Upgraded \<longrightarrow> fst (host digest r path auth) = r)"
proof (cases "bearer auth")
  case None
  then show ?thesis by (simp add: host_def)
next
  case (Some token)
  let ?owner = "path = ''/room/'' @ roomOf digest token @ ''/host''"
  let ?other = "case keep_truthy (rm_host r) of None \<Rightarrow> False | Some claimed \<Rightarrow> claimed \<noteq> sha256 digest token"
  have other: "?other \<longleftrightarrow> truthy (rm_host r) \<and> rm_host r \<noteq> Some (sha256 digest token)"
    by (cases "rm_host r") (auto simp: keep_truthy_def)
  define r' where "r' = (if ?owner then r\<lparr>rm_ended := False\<rparr> else r)\<lparr>rm_host := Some (sha256 digest token), rm_alarm := None\<rparr>"
  have h: "host digest r path auth =
    (if \<not> ?owner \<and> rm_ended r then (r, Refused Ended, [])
     else if \<not> ?owner \<and> ?other then (r, Http 403, [])
     else (accept HostRole (close_where (\<lambda>ws. True) r'), Upgraded, closing is_host Replaced r' @ closing is_guest HostLeft r'))"
    unfolding host_def Some Let_def r'_def by simp
  have a: "length (open_hosts (accept HostRole (close_where (\<lambda>ws. True) r'))) = 1"
    "rm_host (accept HostRole (close_where (\<lambda>ws. True) r')) = Some (sha256 digest token)"
    using open_hosts_close [of "\<lambda>ws. True" r']
    by (simp_all add: accept_def open_hosts_def is_host_def close_where_def r'_def)
  have g: "\<not> sk_open ws" if "ws \<in> set (rm_sockets (accept HostRole (close_where (\<lambda>ws. True) r')))" "is_guest ws" for ws
    using that by (auto simp: accept_def close_where_def is_guest_def is_host_def)
  show ?thesis
    unfolding h other Some using a g by auto
qed

theorem host_claim_witness:
  "fst (snd (host (\<lambda>t. replicate 32 0) (empty_room\<lparr>rm_host := Some ''aa''\<rparr>) ''/room/x/host'' (Some ''Bearer t''))) \<noteq> Upgraded"
proof -
  have "bearer (Some ''Bearer t'') = Some ''t''" by code_simp
  moreover have "''/room/x/host'' \<noteq> ''/room/'' @ roomOf (\<lambda>t. replicate 32 0) ''t'' @ ''/host''" by code_simp
  moreover have "sha256 (\<lambda>t. replicate 32 0) ''t'' \<noteq> ''aa''" by code_simp
  ultimately show ?thesis
    using host_claim [of "\<lambda>t. replicate 32 0" "empty_room\<lparr>rm_host := Some ''aa''\<rparr>" "''/room/x/host''" "Some ''Bearer t''"]
    by auto
qed

text \<open>What the relay carries it carries whole and to the right end. A guest's message
  reaches the host, and nobody else, as the guest's 8 bytes followed by the message; a host's
  message reaches exactly the sockets of the guest its first 8 bytes name, without them; and a
  message over the limit is not carried at all.\<close>

theorem relay_routes:
  assumes "length gid = ID_BYTES" and "sk_role g = GuestRole (toHex gid)" and "openHost r = Some h"
    and "length b \<le> MAX_NOISE"
  shows "webSocketMessage r g (MBytes b) now = (r, [SendTo (sk_id h) (FBytes (gid @ b))]) \<and>
    (b \<noteq> [] \<longrightarrow> webSocketMessage r h (MBytes (gid @ b)) now =
       (r, map (\<lambda>ws. SendTo (sk_id ws) (FBytes b)) (filter (\<lambda>ws. sk_role ws = GuestRole (toHex gid)) (rm_sockets r)))) \<and>
    (MAX_NOISE < length b' \<longrightarrow>
       webSocketMessage r g (MBytes b') now = (close_where (\<lambda>s. sk_id s = sk_id g) r, [CloseIt (sk_id g) TooBig]))"
proof -
  have h: "sk_role h = HostRole" "is_host h" using assms(3) by (auto simp: openHost_def find_Some_iff is_host_def)
  have g: "\<not> is_host g" using assms(2) by (simp add: is_host_def)
  from assms h g show ?thesis
    by (simp add: webSocketMessage_def message_length_def toGuest_def tagged_def)
qed

definition demo_room :: room where
  "demo_room = \<lparr>rm_sockets = [\<lparr>sk_id = 0, sk_role = HostRole, sk_open = True\<rparr>,
     \<lparr>sk_id = 1, sk_role = GuestRole (toHex [1, 2, 3, 4, 5, 6, 7, 8]), sk_open = True\<rparr>],
     rm_next = 2, rm_host = Some ''aa'', rm_ended = False, rm_alarm = None\<rparr>"

theorem relay_routes_witness:
  "webSocketMessage demo_room (rm_sockets demo_room ! 1) (MBytes [9]) 0 =
     (demo_room, [SendTo 0 (FBytes ([1, 2, 3, 4, 5, 6, 7, 8] @ [9]))])"
  using relay_routes [of "[1, 2, 3, 4, 5, 6, 7, 8]" "rm_sockets demo_room ! 1" demo_room "rm_sockets demo_room ! 0" "[9]" 0 "[]"]
  by (simp add: demo_room_def ID_BYTES_def MAX_NOISE_def openHost_def is_host_def)

text \<open>The room a token names is a name the worker routes: 22 characters of the URL-safe
  alphabet, so its host path reaches that room.\<close>

theorem room_name_routed:
  assumes "16 \<le> length (digest token)"
  shows "room_path (''/room/'' @ roomOf digest token @ ''/host'') = Some (roomOf digest token, ''host'') \<and>
    worker_fetch (''/room/'' @ roomOf digest token @ ''/host'') origin (Some ''websocket'') o' None = ToRoom (roomOf digest token)"
proof -
  note shape = roomOf_shape [of digest token, OF assms]
  have "room_path (''/room/'' @ roomOf digest token @ ''/host'') = Some (roomOf digest token, ''host'')"
    using shape by (simp add: room_path_def Let_def starts_with_def)
  moreover have "to_lower ''websocket'' = ''websocket''" by code_simp
  ultimately show ?thesis by (simp add: worker_fetch_def)
qed

theorem room_name_routed_witness:
  "room_path (''/room/'' @ roomOf (\<lambda>t. replicate 32 7) ''t'' @ ''/host'') = Some (roomOf (\<lambda>t. replicate 32 7) ''t'', ''host'')"
  using room_name_routed [of "\<lambda>t. replicate 32 7" "''t''"] by simp

end
