(* ===== verification/RetainedSessions.thy ===== *)
theory RetainedSessions
  imports PeerMarkers
begin

text \<open>
  \<open>desktop/frontend/src/peer/retainedSessions.ts\<close>: terminal emulators that outlive a drop of
  their peer's link. The module's maps are the state; a timer is the time it is due, a callback
  \<open>dispose\<close> a number, and \<open>rt_disposed\<close> the callbacks run so far, in order.
\<close>

definition RECLAIM_WINDOW_MS :: int where "RECLAIM_WINDOW_MS = 60000"
definition MAX_RETAIN_MS :: int where "MAX_RETAIN_MS = 5 * 60000"
definition MAX_RETAINED :: nat where "MAX_RETAINED = 32"

record retained_session =
  re_slug :: string
  re_dispose :: nat
  re_hard :: int
  re_reclaim :: "int option"

record retained_state =
  rt_retained :: "(string \<times> retained_session) list"
  rt_peers :: "(string \<times> bool) list"
  rt_disposed :: "nat list"

definition no_sessions :: retained_state where
  "no_sessions = \<lparr>rt_retained = [], rt_peers = [], rt_disposed = []\<rparr>"

text \<open>\<open>release\<close>: the entry's timers go with it.\<close>

definition release :: "string \<Rightarrow> retained_state \<Rightarrow> retained_state" where
  "release terminalId s =
     (case map_of (rt_retained s) terminalId of
        None \<Rightarrow> s
      | Some entry \<Rightarrow> s\<lparr>rt_retained := AList.delete terminalId (rt_retained s),
          rt_disposed := rt_disposed s @ [re_dispose entry]\<rparr>)"

definition armReclaim :: "int \<Rightarrow> retained_session \<Rightarrow> retained_session" where
  "armReclaim now entry =
     (if re_reclaim entry \<noteq> None then entry else entry\<lparr>re_reclaim := Some (now + RECLAIM_WINDOW_MS)\<rparr>)"

definition disarmReclaim :: "retained_session \<Rightarrow> retained_session" where
  "disarmReclaim entry = (if re_reclaim entry = None then entry else entry\<lparr>re_reclaim := None\<rparr>)"

definition cap_victim :: "(string \<times> retained_session) list \<Rightarrow> string option" where
  "cap_victim es = (case List.find (\<lambda>(k, e). re_reclaim e \<noteq> None) es of
     Some (k, e) \<Rightarrow> Some k
   | None \<Rightarrow> (case es of [] \<Rightarrow> None | (k, e) # _ \<Rightarrow> Some k))"

lemma cap_victim_in: "cap_victim es = Some k \<Longrightarrow> k \<in> fst ` set es"
proof (cases "List.find (\<lambda>(k, e). re_reclaim e \<noteq> None) es")
  case (Some x)
  moreover assume "cap_victim es = Some k"
  ultimately have "k = fst x" by (simp add: cap_victim_def split: prod.splits)
  moreover have "x \<in> set es" using Some by (metis find_Some_iff nth_mem)
  ultimately show ?thesis by simp
next
  case None
  moreover assume "cap_victim es = Some k"
  ultimately show ?thesis by (cases es) (auto simp: cap_victim_def split: prod.splits)
qed

lemma cap_victim_exists: "es \<noteq> [] \<Longrightarrow> \<exists>k. cap_victim es = Some k"
proof (cases "List.find (\<lambda>(k, e). re_reclaim e \<noteq> None) es")
  case None
  moreover assume "es \<noteq> []"
  ultimately show ?thesis by (cases es) (auto simp: cap_victim_def)
qed (auto simp: cap_victim_def split: prod.splits)

lemma delete_filter: "AList.delete k es = filter (\<lambda>x. fst x \<noteq> k) es"
  by (induction es) auto

lemma length_delete_less: "k \<in> fst ` set es \<Longrightarrow> length (AList.delete k es) < length es"
proof -
  assume "k \<in> fst ` set es"
  then obtain x where "x \<in> set es" "\<not> fst x \<noteq> k" by auto
  then show ?thesis unfolding delete_filter by (rule length_filter_less)
qed

function enforceCap :: "retained_state \<Rightarrow> retained_state" where
  "enforceCap s =
     (if length (rt_retained s) \<le> MAX_RETAINED then s
      else case cap_victim (rt_retained s) of None \<Rightarrow> s | Some victim \<Rightarrow> enforceCap (release victim s))"
  by pat_completeness auto
termination
proof (relation "measure (\<lambda>s. length (rt_retained s))")
  fix s :: retained_state and k assume v: "cap_victim (rt_retained s) = Some k"
  then have k: "k \<in> fst ` set (rt_retained s)" by (rule cap_victim_in)
  then obtain e where "map_of (rt_retained s) k = Some e" by (metis map_of_eq_None_iff option.exhaust)
  then show "(release k s, s) \<in> measure (\<lambda>s. length (rt_retained s))"
    using length_delete_less [OF k] by (simp add: release_def)
qed simp

declare enforceCap.simps [simp del]

text \<open>The loop over the retained entries; it visits each of them once.\<close>

definition publish_entry :: "int \<Rightarrow> string \<Rightarrow> retained_state \<Rightarrow> retained_state" where
  "publish_entry now terminalId s =
     (case map_of (rt_retained s) terminalId of
        None \<Rightarrow> s
      | Some entry \<Rightarrow>
          (case map_of (rt_peers s) (re_slug entry) of
             None \<Rightarrow> release terminalId s
           | Some conn \<Rightarrow> s\<lparr>rt_retained := AList.update terminalId
               (if conn then armReclaim now entry else disarmReclaim entry) (rt_retained s)\<rparr>))"

definition publishPeerSnapshot :: "int \<Rightarrow> (string \<times> bool) list \<Rightarrow> retained_state \<Rightarrow> retained_state" where
  "publishPeerSnapshot now snapshot s =
     (let s = s\<lparr>rt_peers := fold (\<lambda>(slug, c). AList.update slug c) snapshot []\<rparr>
      in fold (publish_entry now) (map fst (rt_retained s)) s)"

definition retainPeerSession :: "int \<Rightarrow> string \<Rightarrow> nat \<Rightarrow> retained_state \<Rightarrow> retained_state \<times> bool" where
  "retainPeerSession now terminalId dispose s =
     (if map_of (rt_retained s) terminalId \<noteq> None then (s, True)
      else if \<not> isPeerName terminalId then (s, False)
      else case keep_truthy (peerSlugOf terminalId) of
        None \<Rightarrow> (s, False)
      | Some slug \<Rightarrow>
          (case map_of (rt_peers s) slug of
             None \<Rightarrow> (s, False)
           | Some conn \<Rightarrow>
               let entry = \<lparr>re_slug = slug, re_dispose = dispose, re_hard = now + MAX_RETAIN_MS, re_reclaim = None\<rparr>;
                   entry = (if conn then armReclaim now entry else entry)
               in (enforceCap (s\<lparr>rt_retained := AList.update terminalId entry (rt_retained s)\<rparr>), True)))"

definition reclaimPeerSession :: "string \<Rightarrow> retained_state \<Rightarrow> retained_state" where
  "reclaimPeerSession terminalId s = s\<lparr>rt_retained := AList.delete terminalId (rt_retained s)\<rparr>"

definition isPeerSessionRetained :: "string \<Rightarrow> retained_state \<Rightarrow> bool" where
  "isPeerSessionRetained terminalId s = (map_of (rt_retained s) terminalId \<noteq> None)"

text \<open>The timers due by now fire; each releases its terminal.\<close>

definition due :: "int \<Rightarrow> retained_session \<Rightarrow> bool" where
  "due now e = (re_hard e \<le> now \<or> (case re_reclaim e of None \<Rightarrow> False | Some t \<Rightarrow> t \<le> now))"

definition fire_timers :: "int \<Rightarrow> retained_state \<Rightarrow> retained_state" where
  "fire_timers now s = fold release (map fst (filter (\<lambda>(k, e). due now e) (rt_retained s))) s"

datatype retain_event =
    Publish int "(string \<times> bool) list"
  | Retain int string nat
  | Reclaim string
  | Timers int

definition retain_step :: "retained_state \<Rightarrow> retain_event \<Rightarrow> retained_state" where
  "retain_step s e =
     (case e of
        Publish now snapshot \<Rightarrow> publishPeerSnapshot now snapshot s
      | Retain now i dispose \<Rightarrow> fst (retainPeerSession now i dispose s)
      | Reclaim i \<Rightarrow> reclaimPeerSession i s
      | Timers now \<Rightarrow> fire_timers now s)"

section \<open>The invariant\<close>

text \<open>
  At most 32 sessions, one for each terminal, each of a paired peer; and its reclaim timer runs
  exactly while that peer is connected.
\<close>

definition entry_ok :: "(string \<times> bool) list \<Rightarrow> retained_session \<Rightarrow> bool" where
  "entry_ok peers e \<longleftrightarrow> map_of peers (re_slug e) = Some (re_reclaim e \<noteq> None)"

definition sessions_ok :: "retained_state \<Rightarrow> bool" where
  "sessions_ok s \<longleftrightarrow> length (rt_retained s) \<le> MAX_RETAINED \<and> distinct (map fst (rt_retained s)) \<and>
     (\<forall>(k, e)\<in>set (rt_retained s). entry_ok (rt_peers s) e)"

definition keyed :: "retained_state \<Rightarrow> bool" where
  "keyed s \<longleftrightarrow> distinct (map fst (rt_retained s))"

lemma set_delete: "set (AList.delete k es) = {x \<in> set es. fst x \<noteq> k}"
  by (auto simp: delete_filter)

lemma release_retained: "rt_retained (release i s) = AList.delete i (rt_retained s)"
proof (cases "map_of (rt_retained s) i")
  case None
  then have "i \<notin> fst ` set (rt_retained s)" by (simp add: map_of_eq_None_iff)
  then have "AList.delete i (rt_retained s) = rt_retained s" by (rule delete_id)
  with None show ?thesis by (simp add: release_def)
qed (simp add: release_def)

lemma release_peers [simp]: "rt_peers (release i s) = rt_peers s"
  by (simp add: release_def split: option.splits)

lemma release_ok: "sessions_ok s \<Longrightarrow> sessions_ok (release i s)"
  by (auto simp: sessions_ok_def release_retained set_delete distinct_delete intro: order_trans [OF length_delete_le])

lemma enforceCap_props:
  "length (rt_retained (enforceCap s)) \<le> MAX_RETAINED \<and> rt_peers (enforceCap s) = rt_peers s \<and>
   set (rt_retained (enforceCap s)) \<subseteq> set (rt_retained s) \<and>
   (distinct (map fst (rt_retained s)) \<longrightarrow> distinct (map fst (rt_retained (enforceCap s))))"
proof (induction s rule: enforceCap.induct)
  case (1 s)
  show ?case
  proof (cases "length (rt_retained s) \<le> MAX_RETAINED")
    case True
    then show ?thesis by (simp add: enforceCap.simps)
  next
    case False
    then obtain k where k: "cap_victim (rt_retained s) = Some k"
      using cap_victim_exists [of "rt_retained s"] by fastforce
    have "enforceCap s = enforceCap (release k s)" using False k by (subst enforceCap.simps) simp
    with 1 [OF False k] show ?thesis
      by (auto simp: release_retained set_delete distinct_delete)
  qed
qed

lemma map_of_update_mem:
  "distinct (map fst es) \<Longrightarrow> set (AList.update k v es) = insert (k, v) {x \<in> set es. fst x \<noteq> k}"
  by (induction es) (auto simp: image_iff)

lemma retain_ok: "sessions_ok s \<Longrightarrow> sessions_ok (fst (retainPeerSession now i dispose s))"
proof -
  assume ok: "sessions_ok s"
  show ?thesis
  proof (cases "map_of (rt_retained s) i \<noteq> None \<or> \<not> isPeerName i \<or> keep_truthy (peerSlugOf i) = None \<or>
      map_of (rt_peers s) (the (keep_truthy (peerSlugOf i))) = None")
    case True
    then show ?thesis using ok by (auto simp: retainPeerSession_def split: option.splits)
  next
    case False
    then obtain slug c where sl: "keep_truthy (peerSlugOf i) = Some slug" "map_of (rt_peers s) slug = Some c"
      and new: "map_of (rt_retained s) i = None" "isPeerName i" by auto
    define entry where "entry = \<lparr>re_slug = slug, re_dispose = dispose, re_hard = now + MAX_RETAIN_MS,
      re_reclaim = (if c then Some (now + RECLAIM_WINDOW_MS) else None)\<rparr>"
    let ?s = "s\<lparr>rt_retained := AList.update i entry (rt_retained s)\<rparr>"
    have r: "fst (retainPeerSession now i dispose s) = enforceCap ?s"
      using sl new by (cases c) (simp_all add: retainPeerSession_def armReclaim_def Let_def entry_def)
    have e: "entry_ok (rt_peers s) entry" using sl by (simp add: entry_ok_def entry_def)
    have d: "distinct (map fst (rt_retained s))" using ok by (simp add: sessions_ok_def)
    have "\<forall>(k, e)\<in>set (rt_retained ?s). entry_ok (rt_peers s) e"
      using ok e by (auto simp: map_of_update_mem [OF d] sessions_ok_def)
    with enforceCap_props [of ?s] d show ?thesis
      unfolding r sessions_ok_def by (auto simp: distinct_update)
  qed
qed

lemma length_update_mem: "k \<in> fst ` set es \<Longrightarrow> length (AList.update k v es) = length es"
  by (induction es) auto

lemma publish_entry_spec:
  assumes d: "distinct (map fst (rt_retained s))"
  shows "rt_peers (publish_entry now i s) = rt_peers s \<and> distinct (map fst (rt_retained (publish_entry now i s))) \<and>
    length (rt_retained (publish_entry now i s)) \<le> length (rt_retained s) \<and>
    (\<forall>(k, e)\<in>set (rt_retained (publish_entry now i s)).
       if k = i then entry_ok (rt_peers s) e else (k, e) \<in> set (rt_retained s))"
proof (cases "map_of (rt_retained s) i")
  case None
  then have "publish_entry now i s = s" by (simp add: publish_entry_def)
  moreover have "k \<noteq> i" if "(k, e) \<in> set (rt_retained s)" for k e
    using None that by (force simp: map_of_eq_None_iff)
  ultimately show ?thesis using d by auto
next
  case (Some entry)
  then have mem: "i \<in> fst ` set (rt_retained s)" by (metis map_of_eq_None_iff option.distinct(1))
  show ?thesis
  proof (cases "map_of (rt_peers s) (re_slug entry)")
    case None
    with Some d length_delete_le show ?thesis
      by (auto simp: publish_entry_def release_retained set_delete distinct_delete)
  next
    case (Some c)
    define e where "e = (if c then armReclaim now entry else disarmReclaim entry)"
    have p: "publish_entry now i s = s\<lparr>rt_retained := AList.update i e (rt_retained s)\<rparr>"
      using Some \<open>map_of (rt_retained s) i = Some entry\<close> by (simp add: publish_entry_def e_def)
    have "entry_ok (rt_peers s) e"
      using Some by (cases c) (auto simp: e_def entry_ok_def armReclaim_def disarmReclaim_def)
    then show ?thesis using d length_update_mem [OF mem] unfolding p
      by (auto simp: map_of_update_mem distinct_update)
  qed
qed

lemma publish_fold:
  "distinct (map fst (rt_retained s)) \<Longrightarrow>
   rt_peers (fold (publish_entry now) ks s) = rt_peers s \<and> distinct (map fst (rt_retained (fold (publish_entry now) ks s))) \<and>
   length (rt_retained (fold (publish_entry now) ks s)) \<le> length (rt_retained s) \<and>
   (\<forall>(k, e)\<in>set (rt_retained (fold (publish_entry now) ks s)).
      (k \<in> set ks \<longrightarrow> entry_ok (rt_peers s) e) \<and> (k \<notin> set ks \<longrightarrow> (k, e) \<in> set (rt_retained s)))"
proof (induction ks rule: rev_induct)
  case Nil
  then show ?case by auto
next
  case (snoc k ks)
  let ?t = "fold (publish_entry now) ks s"
  have IH: "rt_peers ?t = rt_peers s" "distinct (map fst (rt_retained ?t))" "length (rt_retained ?t) \<le> length (rt_retained s)"
    "\<forall>(j, e)\<in>set (rt_retained ?t). (j \<in> set ks \<longrightarrow> entry_ok (rt_peers s) e) \<and> (j \<notin> set ks \<longrightarrow> (j, e) \<in> set (rt_retained s))"
    using snoc by blast+
  note P = publish_entry_spec [OF IH(2), of now k]
  have "(j \<in> set (ks @ [k]) \<longrightarrow> entry_ok (rt_peers s) e) \<and> (j \<notin> set (ks @ [k]) \<longrightarrow> (j, e) \<in> set (rt_retained s))"
    if "(j, e) \<in> set (rt_retained (publish_entry now k ?t))" for j e
  proof -
    have "if j = k then entry_ok (rt_peers s) e else (j, e) \<in> set (rt_retained ?t)"
      using P that IH(1) by auto
    with IH(4) show ?thesis by (cases "j = k") auto
  qed
  moreover have "length (rt_retained (publish_entry now k ?t)) \<le> length (rt_retained s)"
    using P IH(3) by linarith
  ultimately show ?case using P IH(1) by auto
qed

lemma publish_ok: "sessions_ok s \<Longrightarrow> sessions_ok (publishPeerSnapshot now snapshot s)"
proof -
  assume ok: "sessions_ok s"
  define s' where "s' = s\<lparr>rt_peers := fold (\<lambda>(slug, c). AList.update slug c) snapshot []\<rparr>"
  have d: "distinct (map fst (rt_retained s'))" and l: "length (rt_retained s') \<le> MAX_RETAINED"
    using ok by (simp_all add: s'_def sessions_ok_def)
  let ?r = "fold (publish_entry now) (map fst (rt_retained s')) s'"
  have r: "publishPeerSnapshot now snapshot s = ?r" by (simp add: publishPeerSnapshot_def s'_def Let_def)
  note f = publish_fold [OF d, of now "map fst (rt_retained s')"]
  have "entry_ok (rt_peers ?r) e" if "(k, e) \<in> set (rt_retained ?r)" for k e
  proof (cases "k \<in> set (map fst (rt_retained s'))")
    case True
    with f that show ?thesis by fastforce
  next
    case False
    with f that have "(k, e) \<in> set (rt_retained s')" by blast
    with False show ?thesis by force
  qed
  with f l show ?thesis unfolding r sessions_ok_def by auto
qed

lemma release_all:
  "rt_retained (fold release ks s) = filter (\<lambda>x. fst x \<notin> set ks) (rt_retained s) \<and> rt_peers (fold release ks s) = rt_peers s"
proof (induction ks arbitrary: s)
  case (Cons k ks)
  have "filter (\<lambda>x. fst x \<notin> set ks) (AList.delete k (rt_retained s)) = filter (\<lambda>x. fst x \<notin> set (k # ks)) (rt_retained s)"
    by (auto simp: delete_filter intro: filter_cong)
  with Cons [of "release k s"] show ?case by (simp add: release_retained)
qed simp

lemma fire_retained:
  "distinct (map fst (rt_retained s)) \<Longrightarrow>
   set (rt_retained (fire_timers now s)) = {(k, e) \<in> set (rt_retained s). \<not> due now e}"
proof -
  assume d: "distinct (map fst (rt_retained s))"
  have "k \<in> fst ` {x \<in> set (rt_retained s). due now (snd x)} \<longleftrightarrow> due now e" if m: "(k, e) \<in> set (rt_retained s)" for k e
  proof
    assume "k \<in> fst ` {x \<in> set (rt_retained s). due now (snd x)}"
    then obtain e' where "(k, e') \<in> set (rt_retained s)" "due now e'" by auto
    with eq_key_imp_eq_value [OF d m this(1)] show "due now e" by simp
  qed (use m in force)
  moreover have "(k, e) \<in> set (rt_retained (fire_timers now s)) \<longleftrightarrow>
      (k, e) \<in> set (rt_retained s) \<and> k \<notin> fst ` {x \<in> set (rt_retained s). due now (snd x)}" for k e
    by (simp add: fire_timers_def release_all case_prod_beta)
  ultimately show ?thesis by auto
qed

lemma step_ok: "sessions_ok s \<Longrightarrow> sessions_ok (retain_step s e)"
proof (cases e)
  case (Reclaim i)
  assume "sessions_ok s" then show ?thesis using Reclaim
    by (auto simp: retain_step_def reclaimPeerSession_def sessions_ok_def set_delete distinct_delete
        intro: order_trans [OF length_delete_le])
next
  case (Timers now)
  have "sessions_ok (fold release ks s)" if "sessions_ok s" for ks using that
    by (induction ks arbitrary: s) (simp_all add: release_ok)
  moreover assume "sessions_ok s"
  ultimately show ?thesis using Timers by (simp add: retain_step_def fire_timers_def)
qed (simp_all add: retain_step_def publish_ok retain_ok)

interpretation sessions: machine no_sessions retain_step sessions_ok
  by unfold_locales (simp_all add: step_ok, simp add: sessions_ok_def no_sessions_def)

text \<open>Property C20: however peers come and go, at most 32 sessions are retained, one for each
  terminal and all of paired peers, and the reclaim clock of each runs exactly while its peer is
  connected; once the timers of a moment have fired, nothing due by then is left.\<close>

theorem retained_sessions_bounded:
  "sessions_ok (foldl retain_step no_sessions events) \<and>
   (\<forall>(k, e)\<in>set (rt_retained (retain_step (foldl retain_step no_sessions events) (Timers now))). \<not> due now e)"
proof -
  have ok: "sessions_ok (foldl retain_step no_sessions events)" by (rule sessions.run_inv)
  then show ?thesis using fire_retained [of "foldl retain_step no_sessions events" now]
    by (auto simp: retain_step_def sessions_ok_def)
qed

theorem retained_sessions_bounded_witness:
  "length (rt_retained (foldl retain_step no_sessions
     [Publish 0 [(''0123abcd'', True)], Retain 1 ''peer-0123abcd-t1'' 7, Timers 100])) \<le> 32"
  using retained_sessions_bounded [of "[Publish 0 [(''0123abcd'', True)], Retain 1 ''peer-0123abcd-t1'' 7, Timers 100]"]
  by (simp add: sessions_ok_def MAX_RETAINED_def)

end
