(* ===== verification/ZoneLayers.thy ===== *)
theory ZoneLayers
  imports JsPrelude
begin

text \<open>
  The zones of a project's action rows and their layers: \<open>zoneLayers.ts\<close>, the keys made from
  labels (\<open>slugify.ts\<close>, \<open>uniqueKey.ts\<close>) and the types \<open>ZoneInfo\<close>, \<open>LayerInfo\<close> and
  \<open>ActionsLayout\<close> of \<open>types.ts\<close>. The record of a layout is an association list in the order
  of its keys (the order \<open>Object.keys\<close> gives when no key looks like an array index).
\<close>

section \<open>Types\<close>

record layer_info =
  li_name :: string
  li_label :: "string option"
  li_position :: "int option"

record zone_info =
  zi_name :: string
  zi_label :: string
  zi_rows :: nat
  zi_display :: "string option"
  zi_position :: "int option"
  zi_layers :: "layer_info list option"
  zi_collapsed :: "bool option"

record actions_layout =
  al_header :: "string list"
  al_footer :: "string list"
  al_zones :: "(string \<times> string list) list"

definition zoneDisplayOf :: "zone_info \<Rightarrow> string" where
  "zoneDisplayOf zone = (if zi_display zone = Some ''footer'' then ''footer'' else ''header'')"

section \<open>List keys\<close>

definition LAYER_SEPARATOR :: char where
  "LAYER_SEPARATOR = CHR ''/''"

definition zoneListKey :: "string \<Rightarrow> string option \<Rightarrow> string" where
  "zoneListKey zone layer = (if truthy layer then zone @ [LAYER_SEPARATOR] @ the layer else zone)"

definition zoneOfListKey :: "string \<Rightarrow> string" where
  "zoneOfListKey key =
     (let pos = indexOf LAYER_SEPARATOR key in if pos = -1 then key else take (nat pos) key)"

definition layerOfListKey :: "string \<Rightarrow> string option" where
  "layerOfListKey key =
     (let pos = indexOf LAYER_SEPARATOR key in if pos = -1 then None else Some (drop (nat pos + 1) key))"

definition layersOf :: "zone_info \<Rightarrow> layer_info list" where
  "layersOf zone = (case zi_layers zone of None \<Rightarrow> [] | Some ls \<Rightarrow> ls)"

definition layerName :: "string option \<Rightarrow> nat \<Rightarrow> string" where
  "layerName label index = (if truthy label then the label else ''Layer '' @ nat_str (index + 1))"

definition listKeysOfZone :: "zone_info \<Rightarrow> string list" where
  "listKeysOfZone zone =
     (let layers = layersOf zone
      in if layers = [] then [zi_name zone]
         else map (\<lambda>layer. zoneListKey (zi_name zone) (Some (li_name layer))) layers)"

definition listKeyForAction :: "zone_info \<Rightarrow> string option \<Rightarrow> string" where
  "listKeyForAction zone layer =
     (case layersOf zone of
        [] \<Rightarrow> zi_name zone
      | first # rest \<Rightarrow>
          let found = (case List.find (\<lambda>candidate. Some (li_name candidate) = layer) (first # rest) of
                None \<Rightarrow> first | Some l \<Rightarrow> l)
          in zoneListKey (zi_name zone) (Some (li_name found)))"

definition listKeysInLayout :: "actions_layout \<Rightarrow> string \<Rightarrow> string list" where
  "listKeysInLayout lay zone = filter (\<lambda>key. zoneOfListKey key = zone) (map fst (al_zones lay))"

definition layoutHasZone :: "actions_layout \<Rightarrow> string \<Rightarrow> bool" where
  "layoutHasZone lay zone = (listKeysInLayout lay zone \<noteq> [])"

lemma indexOf_append: "c \<notin> set u \<Longrightarrow> indexOf c (u @ c # v) = int (length u)"
  by (induction u) (auto simp: indexOf_def Let_def)

lemma list_key_parts:
  assumes "LAYER_SEPARATOR \<notin> set zone"
  shows "zoneOfListKey (zoneListKey zone layer) = zone"
    and "layerOfListKey (zoneListKey zone layer) = keep_truthy layer"
proof -
  have plain: "indexOf LAYER_SEPARATOR zone = -1"
    using assms findIndex_minus_one [of "\<lambda>y. y = LAYER_SEPARATOR" zone] by (auto simp: indexOf_def)
  show "zoneOfListKey (zoneListKey zone layer) = zone"
    and "layerOfListKey (zoneListKey zone layer) = keep_truthy layer"
    using assms plain
    by (cases layer; auto simp: zoneListKey_def zoneOfListKey_def layerOfListKey_def indexOf_append keep_truthy_def)+
qed

lemma zoneOf_plain: "LAYER_SEPARATOR \<notin> set zone \<Longrightarrow> zoneOfListKey zone = zone"
  using list_key_parts(1) [of zone None] by (simp add: zoneListKey_def)

lemma layerOf_plain: "LAYER_SEPARATOR \<notin> set zone \<Longrightarrow> layerOfListKey zone = None"
  using list_key_parts(2) [of zone None] by (simp add: zoneListKey_def)

lemma find_member: "List.find P xs = Some x \<Longrightarrow> x \<in> set xs \<and> P x"
  by (induction xs) (auto split: if_splits)

lemma listKeyForAction_in: "listKeyForAction zone layer \<in> set (listKeysOfZone zone)"
proof (cases "layersOf zone")
  case (Cons first rest)
  have "(case List.find (\<lambda>candidate. Some (li_name candidate) = layer) (first # rest) of
      None \<Rightarrow> first | Some l \<Rightarrow> l) \<in> set (first # rest)"
    using find_member by (force split: option.splits simp del: find.simps)
  then obtain l where "l \<in> set (first # rest)"
    and "listKeyForAction zone layer = zoneListKey (zi_name zone) (Some (li_name l))"
    unfolding listKeyForAction_def Cons Let_def list.case by blast
  then show ?thesis by (auto simp: listKeysOfZone_def Cons)
qed (simp add: listKeyForAction_def listKeysOfZone_def)

text \<open>The menus' names; the sign between zone and layer stands in its UTF-8 bytes.\<close>

record zone_placement =
  zp_zone :: zone_info
  zp_listKey :: string
  zp_label :: string

definition layer_placement :: "zone_info \<Rightarrow> nat \<times> layer_info \<Rightarrow> zone_placement" where
  "layer_placement zone entry =
     (case entry of (index, layer) \<Rightarrow>
        \<lparr>zp_zone = zone, zp_listKey = zoneListKey (zi_name zone) (Some (li_name layer)),
         zp_label = zi_label zone @ [CHR 0x20, CHR 0xE2, CHR 0x80, CHR 0xBA, CHR 0x20] @ layerName (li_label layer) index\<rparr>)"

definition zone_places :: "zone_info \<Rightarrow> zone_placement list" where
  "zone_places zone =
     (let layers = layersOf zone
      in if length layers = 0 then [\<lparr>zp_zone = zone, zp_listKey = zi_name zone, zp_label = zi_label zone\<rparr>]
         else map (layer_placement zone) (enumerate 0 layers))"

definition zonePlacements :: "zone_info list \<Rightarrow> zone_placement list" where
  "zonePlacements zones = concat (map zone_places zones)"

text \<open>The menus offer every list of the zones, in their order.\<close>

lemma zone_places_keys: "map zp_listKey (zone_places zone) = listKeysOfZone zone"
proof -
  have "map (zp_listKey \<circ> layer_placement zone) (enumerate n ls) = map (\<lambda>layer. zoneListKey (zi_name zone) (Some (li_name layer))) ls" for n ls
    by (induction ls arbitrary: n) (simp_all add: layer_placement_def)
  then show ?thesis by (simp add: zone_places_def listKeysOfZone_def Let_def)
qed

lemma placements_list_keys: "map zp_listKey (zonePlacements zones) = concat (map listKeysOfZone zones)"
  by (simp add: zonePlacements_def map_concat zone_places_keys comp_def)

section \<open>Keys from labels\<close>

text \<open>A replacement of every run of characters of a class by one dash.\<close>

fun dash_runs :: "(char \<Rightarrow> bool) \<Rightarrow> string \<Rightarrow> string" where
  "dash_runs P [] = []"
| "dash_runs P [c] = (if P c then ''-'' else [c])"
| "dash_runs P (c # d # s) =
     (if P c then (if P d then dash_runs P (d # s) else CHR ''-'' # dash_runs P (d # s))
      else c # dash_runs P (d # s))"

definition slug_char :: "bool \<Rightarrow> char \<Rightarrow> bool" where
  "slug_char allowSlash c =
     (let n = (of_char c :: nat)
      in (97 \<le> n \<and> n \<le> 122) \<or> is_digit c \<or> c = CHR ''_'' \<or> c = CHR ''.'' \<or> c = CHR ''-''
         \<or> (allowSlash \<and> c = CHR ''/''))"

definition is_dash :: "char \<Rightarrow> bool" where
  "is_dash c = (c = CHR ''-'')"

definition slugify :: "string \<Rightarrow> bool \<Rightarrow> string" where
  "slugify s allowSlash =
     (let s = dash_runs (\<lambda>c. \<not> slug_char allowSlash c) (to_lower (trim s));
          s = dash_runs is_dash s
      in rev (dropWhile is_dash (rev (dropWhile is_dash s))))"

definition uniqueKey :: "string \<Rightarrow> string list \<Rightarrow> string" where
  "uniqueKey pre existing =
     (if pre \<notin> set existing then pre
      else pre @ ''-'' @ nat_str (first_free (pre @ ''-'') existing 2))"

definition layerKeyFor :: "string \<Rightarrow> string list \<Rightarrow> string" where
  "layerKeyFor label taken =
     (let slug = slugify label False
      in if slug \<noteq> [] then uniqueKey slug taken
         else ''layer-'' @ nat_str (first_free ''layer-'' taken (length taken + 1)))"

lemma uniqueKey_fresh: "uniqueKey pre existing \<notin> set existing"
  using first_free_free [of "pre @ ''-''" existing 2] by (simp add: uniqueKey_def)

lemma dash_runs_set: "c \<in> set (dash_runs P s) \<Longrightarrow> c = CHR ''-'' \<or> (c \<in> set s \<and> \<not> P c)"
  by (induction P s rule: dash_runs.induct) (auto split: if_splits)

lemma dash_runs_plain: "\<forall>c\<in>set s. \<not> P c \<Longrightarrow> dash_runs P s = s"
  by (induction P s rule: dash_runs.induct) auto

text \<open>No two dashes in a row.\<close>

fun single_dashes :: "string \<Rightarrow> bool" where
  "single_dashes (c # d # s) = (\<not> (is_dash c \<and> is_dash d) \<and> single_dashes (d # s))"
| "single_dashes s = True"

lemma dash_runs_hd: "s \<noteq> [] \<Longrightarrow> \<not> is_dash (hd s) \<Longrightarrow> \<exists>t. dash_runs is_dash s = hd s # t"
  by (cases s; cases "tl s") auto

lemma single_dashes_Cons: "single_dashes t \<Longrightarrow> \<not> is_dash c \<Longrightarrow> single_dashes (c # t)"
  by (cases t) auto

lemma dash_runs_single: "single_dashes (dash_runs is_dash s)"
proof (induction is_dash s rule: dash_runs.induct)
  case (3 c d s)
  show ?case
  proof (cases "is_dash c")
    case True
    show ?thesis
    proof (cases "is_dash d")
      case False
      then obtain t where "dash_runs is_dash (d # s) = d # t" using dash_runs_hd [of "d # s"] by auto
      with 3 True False show ?thesis by (simp add: is_dash_def)
    qed (use 3 True in simp)
  next
    case False
    then show ?thesis using 3 by (simp add: single_dashes_Cons)
  qed
qed simp_all

lemma single_dashes_id: "single_dashes s \<Longrightarrow> dash_runs is_dash s = s"
  by (induction s rule: single_dashes.induct) (auto simp: is_dash_def)

lemma single_dashes_append: "single_dashes (u @ v) \<Longrightarrow> single_dashes u \<and> single_dashes v"
  by (induction u rule: single_dashes.induct; cases v; auto)

lemma drop_last_While: "\<exists>v. s = rev (dropWhile P (rev s)) @ v"
  by (metis rev_append rev_rev_ident takeWhile_dropWhile_id)

lemma slugify_facts:
  "single_dashes (slugify s a)" "\<forall>c\<in>set (slugify s a). slug_char a c"
  "slugify s a \<noteq> [] \<Longrightarrow> \<not> is_dash (hd (slugify s a)) \<and> \<not> is_dash (last (slugify s a))"
proof -
  define t where "t = dash_runs is_dash (dash_runs (\<lambda>c. \<not> slug_char a c) (to_lower (trim s)))"
  define u where "u = dropWhile is_dash t"
  have s: "slugify s a = rev (dropWhile is_dash (rev u))" by (simp add: slugify_def t_def u_def)
  obtain v where v: "u = slugify s a @ v" using drop_last_While [of u is_dash] unfolding s by blast
  have t: "t = takeWhile is_dash t @ u" by (simp add: u_def)
  have "single_dashes t" by (simp add: t_def dash_runs_single)
  then have "single_dashes u" using single_dashes_append t by metis
  then show "single_dashes (slugify s a)" using single_dashes_append v by metis
  have "set (slugify s a) \<subseteq> set t" using v t by (metis Un_iff set_append subsetI)
  moreover have "slug_char a c" if "c \<in> set t" for c
  proof -
    have "slug_char a CHR ''-''" by (simp add: slug_char_def)
    then show ?thesis
      using that dash_runs_set [of c is_dash] dash_runs_set [of c "\<lambda>c. \<not> slug_char a c"]
      unfolding t_def by blast
  qed
  ultimately show "\<forall>c\<in>set (slugify s a). slug_char a c" by blast
  show "\<not> is_dash (hd (slugify s a)) \<and> \<not> is_dash (last (slugify s a))" if ne: "slugify s a \<noteq> []"
  proof
    have "hd u = hd (slugify s a)" using ne v by (metis hd_append2)
    moreover have "u \<noteq> []" using ne v by auto
    ultimately show "\<not> is_dash (hd (slugify s a))" using hd_dropWhile [of is_dash t] by (simp add: u_def)
    show "\<not> is_dash (last (slugify s a))"
      using ne hd_dropWhile [of is_dash "rev u"] unfolding s by (simp add: last_rev)
  qed
qed

lemma slug_char_plain: "slug_char a c \<Longrightarrow> lower_char c = c \<and> \<not> is_space c"
  by (auto simp: slug_char_def lower_char_def is_space_def is_digit_def Let_def)

lemma dropWhile_none: "\<forall>c\<in>set s. \<not> P c \<Longrightarrow> dropWhile P s = s"
  by (cases s) auto

lemma dropWhile_hd: "s \<noteq> [] \<Longrightarrow> \<not> P (hd s) \<Longrightarrow> dropWhile P s = s"
  by (cases s) auto

lemma slugify_idem: "slugify (slugify s a) a = slugify s a"
proof (cases "slugify s a = []")
  case True
  moreover have "slugify [] a = []" by (simp add: slugify_def trim_def to_lower_def)
  ultimately show ?thesis by simp
next
  case False
  note f = slugify_facts [of s a] and g = slugify_facts(3) [OF False]
  have "trim (slugify s a) = slugify s a"
  proof -
    have plain: "\<forall>c\<in>set (slugify s a). \<not> is_space c" using f(2) slug_char_plain by blast
    then have "dropWhile is_space (slugify s a) = slugify s a" by (rule dropWhile_none)
    moreover have "dropWhile is_space (rev (slugify s a)) = rev (slugify s a)"
      using plain by (intro dropWhile_none) simp
    ultimately show ?thesis by (simp add: trim_def)
  qed
  moreover have "to_lower (slugify s a) = slugify s a"
  proof -
    have "\<forall>c\<in>set (slugify s a). lower_char c = c" using f(2) slug_char_plain by blast
    then show ?thesis by (simp add: to_lower_def map_idI)
  qed
  ultimately have "slugify (slugify s a) a =
      rev (dropWhile is_dash (rev (dropWhile is_dash (slugify s a))))"
    using f(1,2) by (simp add: slugify_def [of "slugify s a" a] dash_runs_plain single_dashes_id)
  also have "\<dots> = slugify s a"
    using g False by (simp add: dropWhile_hd hd_rev)
  finally show ?thesis .
qed

lemma nat_str_no_slash: "CHR ''/'' \<notin> set (nat_str n)"
  using nat_str_digits [of n] by (auto simp: list_all_iff is_digit_def)

lemma layerKeyFor_plain: "LAYER_SEPARATOR \<notin> set (layerKeyFor label taken)"
proof -
  have "CHR ''/'' \<notin> set (slugify label False)"
    using slugify_facts(2) [of label False] by (auto simp: slug_char_def is_digit_def)
  then show ?thesis
    by (auto simp: layerKeyFor_def uniqueKey_def LAYER_SEPARATOR_def nat_str_no_slash Let_def)
qed

lemma layerKeyFor_nonempty: "layerKeyFor label taken \<noteq> []"
  by (simp add: layerKeyFor_def uniqueKey_def Let_def)

lemma layerKeyFor_fresh: "layerKeyFor label taken \<notin> set taken"
  using first_free_free [of "''layer-''" taken "length taken + 1"]
  by (simp add: layerKeyFor_def uniqueKey_fresh Let_def)

text \<open>A layer added under any label gets a key of its own: not one already taken,
  made of slug characters, and the list key it forms with its zone is read back as that zone and
  that layer. Slugs are their own slugs.\<close>

theorem layer_key_roundtrip:
  assumes "LAYER_SEPARATOR \<notin> set zone"
  shows "layerKeyFor label taken \<notin> set taken \<and>
    zoneOfListKey (zoneListKey zone (Some (layerKeyFor label taken))) = zone \<and>
    layerOfListKey (zoneListKey zone (Some (layerKeyFor label taken))) = Some (layerKeyFor label taken) \<and>
    slugify (slugify label a) a = slugify label a \<and> (\<forall>c\<in>set (slugify label a). slug_char a c)"
proof -
  have "keep_truthy (Some (layerKeyFor label taken)) = Some (layerKeyFor label taken)"
    using layerKeyFor_nonempty by (simp add: keep_truthy_def)
  then show ?thesis
    using layerKeyFor_fresh list_key_parts [OF assms] slugify_idem slugify_facts(2) by metis
qed

theorem layer_key_roundtrip_witness:
  "layerKeyFor ''My Tools!'' [''my-tools''] \<notin> set [''my-tools''] \<and>
   zoneOfListKey (zoneListKey ''ops'' (Some (layerKeyFor ''My Tools!'' [''my-tools'']))) = ''ops''"
  using layer_key_roundtrip [of "''ops''" "''My Tools!''" "[''my-tools'']" False]
  by (simp add: LAYER_SEPARATOR_def)

lemma layerKeyFor_example: "layerKeyFor ''My Tools!'' [''my-tools''] = ''my-tools-2''"
  by code_simp

end
