(* ===== verification/ActionsLayout.thy ===== *)
theory ActionsLayout
  imports ZoneLayers
begin

text \<open>
  Dragging the buttons of a project's action rows: \<open>components/actionsDndLayout.ts\<close>. A group
  is a string, \<open>header\<close>, \<open>footer\<close> or \<open>zone:\<close> and a list key; the ids a drop can name
  (drop areas, dots, folds, nests, crumbs) are prefixed strings too.
\<close>

section \<open>Ids\<close>

definition ZONE_GROUP_PREFIX :: string where "ZONE_GROUP_PREFIX = ''zone:''"
definition ZONE_ITEM_PREFIX :: string where "ZONE_ITEM_PREFIX = ''@zone/''"
definition GROUP_DROP_PREFIX :: string where "GROUP_DROP_PREFIX = ''actions-group:''"
definition ZONE_DOTS_PREFIX :: string where "ZONE_DOTS_PREFIX = ''zone-dots:''"
definition ZONE_FOLD_PREFIX :: string where "ZONE_FOLD_PREFIX = ''zone-fold:''"
definition NEST_ID_PREFIX :: string where "NEST_ID_PREFIX = ''nest:''"
definition CRUMB_ID_PREFIX :: string where "CRUMB_ID_PREFIX = ''crumb:''"

definition zoneGroup :: "string \<Rightarrow> string" where
  "zoneGroup listKey = ZONE_GROUP_PREFIX @ listKey"

definition isZoneGroup :: "string \<Rightarrow> bool" where
  "isZoneGroup grp = starts_with grp ZONE_GROUP_PREFIX"

definition listKeyOfGroup :: "string \<Rightarrow> string" where
  "listKeyOfGroup grp = drop (length ZONE_GROUP_PREFIX) grp"

definition zoneOfGroup :: "string \<Rightarrow> string" where
  "zoneOfGroup grp = zoneOfListKey (listKeyOfGroup grp)"

definition zoneItemId :: "string \<Rightarrow> string" where
  "zoneItemId name = ZONE_ITEM_PREFIX @ name"

definition isZoneItemId :: "string \<Rightarrow> bool" where
  "isZoneItemId i = starts_with i ZONE_ITEM_PREFIX"

definition zoneNameOfItem :: "string \<Rightarrow> string" where
  "zoneNameOfItem i = drop (length ZONE_ITEM_PREFIX) i"

definition groupDropId :: "string \<Rightarrow> string" where
  "groupDropId grp = GROUP_DROP_PREFIX @ grp"

definition isGroupDropId :: "string \<Rightarrow> bool" where
  "isGroupDropId i = starts_with i GROUP_DROP_PREFIX"

definition groupOfDropId :: "string \<Rightarrow> string" where
  "groupOfDropId i = drop (length GROUP_DROP_PREFIX) i"

definition groupAcceptsDrag :: "string \<Rightarrow> string option \<Rightarrow> bool" where
  "groupAcceptsDrag grp activeId =
     (activeId = None \<or> \<not> isZoneItemId (the activeId) \<or> \<not> isZoneGroup grp)"

definition zoneDotsId :: "string \<Rightarrow> string" where
  "zoneDotsId name = ZONE_DOTS_PREFIX @ name"

definition zoneFoldId :: "string \<Rightarrow> string" where
  "zoneFoldId name = ZONE_FOLD_PREFIX @ name"

definition isZoneFoldId :: "string \<Rightarrow> bool" where
  "isZoneFoldId i = starts_with i ZONE_FOLD_PREFIX"

definition isZoneAppendId :: "string \<Rightarrow> bool" where
  "isZoneAppendId i = (starts_with i ZONE_DOTS_PREFIX \<or> isZoneFoldId i)"

definition zoneOfAppendId :: "string \<Rightarrow> string" where
  "zoneOfAppendId i = drop (length (if isZoneFoldId i then ZONE_FOLD_PREFIX else ZONE_DOTS_PREFIX)) i"

definition nestId :: "string \<Rightarrow> string" where "nestId name = NEST_ID_PREFIX @ name"
definition isNestId :: "string \<Rightarrow> bool" where "isNestId i = starts_with i NEST_ID_PREFIX"
definition nestTargetOf :: "string \<Rightarrow> string" where "nestTargetOf i = drop (length NEST_ID_PREFIX) i"
definition crumbId :: "string \<Rightarrow> string" where "crumbId path = CRUMB_ID_PREFIX @ path"
definition isCrumbId :: "string \<Rightarrow> bool" where "isCrumbId i = starts_with i CRUMB_ID_PREFIX"
definition crumbTargetOf :: "string \<Rightarrow> string" where "crumbTargetOf i = drop (length CRUMB_ID_PREFIX) i"

lemma group_ids_simps [simp]:
  "listKeyOfGroup (zoneGroup k) = k" "isZoneGroup (zoneGroup k)"
  "zoneNameOfItem (zoneItemId n) = n" "isZoneItemId (zoneItemId n)"
  "groupOfDropId (groupDropId g) = g" "isGroupDropId (groupDropId g)"
  "\<not> isZoneGroup ''header''" "\<not> isZoneGroup ''footer''"
  "zoneGroup k \<noteq> ''header''" "zoneGroup k \<noteq> ''footer''"
  "''header'' \<noteq> zoneGroup k" "''footer'' \<noteq> zoneGroup k"
  "zoneGroup k = zoneGroup k' \<longleftrightarrow> k = k'" "zoneItemId n = zoneItemId n' \<longleftrightarrow> n = n'"
  by (auto simp: listKeyOfGroup_def zoneGroup_def isZoneGroup_def zoneNameOfItem_def zoneItemId_def
      isZoneItemId_def groupOfDropId_def groupDropId_def isGroupDropId_def ZONE_GROUP_PREFIX_def
      starts_with_def ZONE_ITEM_PREFIX_def GROUP_DROP_PREFIX_def)

lemma isZoneItemId_eq: "isZoneItemId i \<Longrightarrow> i = zoneItemId (zoneNameOfItem i)"
  by (simp add: isZoneItemId_def zoneItemId_def zoneNameOfItem_def starts_with_split [symmetric])

lemma append_id_roundtrip [simp]:
  "zoneOfAppendId (zoneDotsId n) = n" "zoneOfAppendId (zoneFoldId n) = n"
  "isZoneAppendId (zoneDotsId n)" "isZoneAppendId (zoneFoldId n)"
  by (auto simp: zoneOfAppendId_def zoneDotsId_def zoneFoldId_def isZoneAppendId_def isZoneFoldId_def
      ZONE_DOTS_PREFIX_def ZONE_FOLD_PREFIX_def starts_with_def)

section \<open>Lists and groups\<close>

definition listOf :: "actions_layout \<Rightarrow> string \<Rightarrow> string list" where
  "listOf lay grp =
     (if grp = ''header'' then al_header lay
      else if grp = ''footer'' then al_footer lay
      else case map_of (al_zones lay) (listKeyOfGroup grp) of None \<Rightarrow> [] | Some ids \<Rightarrow> ids)"

definition groupsOf :: "actions_layout \<Rightarrow> string list" where
  "groupsOf lay = ''header'' # ''footer'' # map (zoneGroup \<circ> fst) (al_zones lay)"

definition groupOf :: "actions_layout \<Rightarrow> string \<Rightarrow> string option" where
  "groupOf lay i = List.find (\<lambda>grp. i \<in> set (listOf lay grp)) (groupsOf lay)"

definition zoneOfButton :: "actions_layout \<Rightarrow> zone_info list \<Rightarrow> string \<Rightarrow> zone_info option" where
  "zoneOfButton lay zones i =
     (case groupOf lay i of
        None \<Rightarrow> None
      | Some grp \<Rightarrow> if \<not> isZoneGroup grp then None
                   else List.find (\<lambda>zone. zi_name zone = zoneOfGroup grp) zones)"

definition zoneUnderPointer :: "string list \<Rightarrow> string option" where
  "zoneUnderPointer ids = map_option zoneNameOfItem (List.find isZoneItemId ids)"

definition rowOfZone :: "actions_layout \<Rightarrow> string \<Rightarrow> string option" where
  "rowOfZone lay name =
     (if zoneItemId name \<in> set (al_header lay) then Some ''header''
      else if zoneItemId name \<in> set (al_footer lay) then Some ''footer'' else None)"

definition movedByZoneResize :: "actions_layout \<Rightarrow> string \<Rightarrow> string list" where
  "movedByZoneResize lay row =
     (let items = (if row = ''header'' then al_header lay else al_footer lay)
      in items @ concat (map (\<lambda>name. [zoneDotsId name, zoneFoldId name] @
           concat (map (\<lambda>key. groupDropId (zoneGroup key) # the (map_of (al_zones lay) key))
             (listKeysInLayout lay name)))
         (map zoneNameOfItem (filter isZoneItemId items))))"

definition newline :: string where "newline = [CHR 0x0A]"

definition headerWrapKey :: "actions_layout \<Rightarrow> zone_info list \<Rightarrow> string" where
  "headerWrapKey lay zones =
     (let shape = join ''|'' (map (\<lambda>z. zi_name z @ '':'' @ nat_str (zi_rows z) @ '':'' @
            (if zi_collapsed z = Some True then ''1'' else ''0'')) zones)
      in join newline (movedByZoneResize lay ''header'') @ newline @ shape)"

section \<open>Moves\<close>

record drop_target =
  dt_group :: string
  dt_index :: int

definition resolveTarget :: "string \<Rightarrow> actions_layout \<Rightarrow> drop_target option" where
  "resolveTarget overId lay =
     (if isGroupDropId overId then
        (let grp = groupOfDropId overId
         in if grp \<notin> set (groupsOf lay) then None
            else Some \<lparr>dt_group = grp, dt_index = int (length (listOf lay grp))\<rparr>)
      else case groupOf lay overId of
        None \<Rightarrow> None
      | Some grp \<Rightarrow> Some \<lparr>dt_group = grp, dt_index = indexOf overId (listOf lay grp)\<rparr>)"

definition splice_into :: "int \<Rightarrow> string \<Rightarrow> string list \<Rightarrow> string list" where
  "splice_into index i xs = insert_at (max 0 (min index (int (length xs)))) i xs"

definition applyMove :: "actions_layout \<Rightarrow> string \<Rightarrow> drop_target \<Rightarrow> actions_layout" where
  "applyMove lay draggedId target =
     (if dt_group target \<notin> set (groupsOf lay) then lay
      else if isZoneItemId draggedId \<and> isZoneGroup (dt_group target) then lay
      else let without = filter (\<lambda>i. i \<noteq> draggedId);
               next = \<lparr>al_header = without (al_header lay), al_footer = without (al_footer lay),
                 al_zones = map (\<lambda>(name, ids). (name, without ids)) (al_zones lay)\<rparr>;
               put = splice_into (dt_index target) draggedId
           in if isZoneGroup (dt_group target)
              then next\<lparr>al_zones := AList.map_entry (listKeyOfGroup (dt_group target)) put (al_zones next)\<rparr>
              else if dt_group target = ''header'' then next\<lparr>al_header := put (al_header next)\<rparr>
              else next\<lparr>al_footer := put (al_footer next)\<rparr>)"

definition layoutWithoutZone :: "actions_layout \<Rightarrow> string \<Rightarrow> actions_layout" where
  "layoutWithoutZone lay name =
     (let keys = listKeysInLayout lay name;
          inside = concat (map (\<lambda>key. the (map_of (al_zones lay) key)) keys);
          zones = fold AList.delete keys (al_zones lay);
          unwrap = (\<lambda>ids. concat (map (\<lambda>i. if i = zoneItemId name then inside else [i]) ids))
      in \<lparr>al_header = unwrap (al_header lay), al_footer = unwrap (al_footer lay), al_zones = zones\<rparr>)"

fun arrayEq :: "string list \<Rightarrow> string list \<Rightarrow> bool" where
  "arrayEq [] [] = True"
| "arrayEq (a # as) (b # bs) = (a = b \<and> arrayEq as bs)"
| "arrayEq _ _ = False"

definition sameLayout :: "actions_layout \<Rightarrow> actions_layout \<Rightarrow> bool" where
  "sameLayout a b =
     (if \<not> arrayEq (al_header a) (al_header b) \<or> \<not> arrayEq (al_footer a) (al_footer b) then False
      else let names = map fst (al_zones a)
           in length names = length (al_zones b) \<and>
              (\<forall>name\<in>set names. case map_of (al_zones b) name of None \<Rightarrow> False
                 | Some ids \<Rightarrow> arrayEq (the (map_of (al_zones a) name)) ids))"

lemma arrayEq_iff [simp]: "arrayEq a b \<longleftrightarrow> a = b"
  by (induction a b rule: arrayEq.induct) auto

section \<open>What a layout holds\<close>

definition zone_items :: "actions_layout \<Rightarrow> string list" where
  "zone_items lay = concat (map snd (al_zones lay))"

definition layout_items :: "actions_layout \<Rightarrow> string list" where
  "layout_items lay = al_header lay @ al_footer lay @ zone_items lay"

text \<open>Well formed: distinct list keys, every item in one place, and no zone inside a zone.\<close>

definition layout_wf :: "actions_layout \<Rightarrow> bool" where
  "layout_wf lay \<longleftrightarrow> distinct (map fst (al_zones lay)) \<and> distinct (layout_items lay) \<and>
     (\<forall>i\<in>set (zone_items lay). \<not> isZoneItemId i)"

lemma listOf_zone: "distinct (map fst (al_zones lay)) \<Longrightarrow> (k, ids) \<in> set (al_zones lay) \<Longrightarrow>
    listOf lay (zoneGroup k) = ids"
  by (simp add: listOf_def)

lemma groupsOf_cases:
  assumes "g \<in> set (groupsOf lay)"
  obtains "g = ''header''" | "g = ''footer''" | k where "g = zoneGroup k" "k \<in> fst ` set (al_zones lay)"
  using assms by (auto simp: groupsOf_def)

text \<open>An element of a distinct concatenation is in one of its parts only.\<close>

lemma distinct_concat_part:
  "distinct (concat (map f xs)) \<Longrightarrow> x \<in> set xs \<Longrightarrow> y \<in> set xs \<Longrightarrow> i \<in> set (f x) \<Longrightarrow> i \<in> set (f y) \<Longrightarrow>
   distinct xs \<Longrightarrow> x = y"
  by (induction xs) fastforce+

text \<open>The layout is the concatenation of its groups' lists; both views are used below.\<close>

lemma listOf_zones:
  assumes "distinct (map fst (al_zones lay))"
  shows "map (\<lambda>z. listOf lay (zoneGroup (fst z))) (al_zones lay) = map snd (al_zones lay)"
  by (rule map_cong [OF refl]) (use assms listOf_zone in force)

lemma layout_items_groups:
  assumes "distinct (map fst (al_zones lay))"
  shows "layout_items lay = concat (map (listOf lay) (groupsOf lay))"
  by (simp add: listOf_zones [OF assms] layout_items_def groupsOf_def zone_items_def listOf_def [of lay "''header''"]
      listOf_def [of lay "''footer''"] comp_def)

lemma distinct_groups: "distinct (map fst (al_zones lay)) \<Longrightarrow> distinct (groupsOf lay)"
  by (auto simp: groupsOf_def distinct_map inj_on_def)

lemma groupOf_iff:
  assumes "layout_wf lay"
  shows "groupOf lay i = Some g \<longleftrightarrow> g \<in> set (groupsOf lay) \<and> i \<in> set (listOf lay g)"
proof
  assume "groupOf lay i = Some g"
  then show "g \<in> set (groupsOf lay) \<and> i \<in> set (listOf lay g)"
    unfolding groupOf_def by (rule find_member)
next
  assume g: "g \<in> set (groupsOf lay) \<and> i \<in> set (listOf lay g)"
  have d: "distinct (concat (map (listOf lay) (groupsOf lay)))" "distinct (groupsOf lay)"
    using assms layout_items_groups [of lay] distinct_groups [of lay] by (simp_all add: layout_wf_def)
  obtain g' where g': "groupOf lay i = Some g'"
    using g unfolding groupOf_def by (metis find_None_iff not_Some_eq)
  then have "g' \<in> set (groupsOf lay) \<and> i \<in> set (listOf lay g')"
    unfolding groupOf_def by (rule find_member)
  then have "g' = g" using distinct_concat_part [OF d(1)] g d(2) by blast
  with g' show "groupOf lay i = Some g" by simp
qed

section \<open>Moving a button or a zone\<close>

definition move_ok :: "actions_layout \<Rightarrow> string \<Rightarrow> drop_target \<Rightarrow> bool" where
  "move_ok lay i target \<longleftrightarrow>
     dt_group target \<in> set (groupsOf lay) \<and> \<not> (isZoneItemId i \<and> isZoneGroup (dt_group target))"

lemma applyMove_refused: "\<not> move_ok lay i target \<Longrightarrow> applyMove lay i target = lay"
  by (auto simp: move_ok_def applyMove_def)

lemma map_of_map_snd: "map_of (map (\<lambda>(k, v). (k, f v)) zs) k = map_option f (map_of zs k)"
  by (induction zs) auto

lemma map_of_map_entry: "map_of (AList.map_entry k f zs) k' =
    (if k' = k then map_option f (map_of zs k') else map_of zs k')"
  by (induction zs) auto

lemma map_entry_keys [simp]: "map fst (AList.map_entry k f zs) = map fst zs"
  by (induction zs) auto

lemma map_snd_keys [simp]: "map fst (map (\<lambda>(k, v). (k, f v)) zs) = map fst zs"
  by (induction zs) auto

lemma applyMove_groups [simp]: "groupsOf (applyMove lay i target) = groupsOf lay"
proof -
  have "map fst (al_zones (applyMove lay i target)) = map fst (al_zones lay)"
    by (simp add: applyMove_def Let_def comp_def split_def)
  then have "map (zoneGroup \<circ> fst) (al_zones (applyMove lay i target)) = map (zoneGroup \<circ> fst) (al_zones lay)"
    by (metis map_map)
  then show ?thesis by (simp add: groupsOf_def)
qed

text \<open>Each list after the move, in terms of the list before it.\<close>

lemma applyMove_listOf:
  assumes ok: "move_ok lay i target" and g: "g \<in> set (groupsOf lay)"
  shows "listOf (applyMove lay i target) g =
    (let rest = filter (\<lambda>x. x \<noteq> i) (listOf lay g)
     in if g = dt_group target then splice_into (dt_index target) i rest else rest)"
proof -
  have t: "dt_group target \<in> set (groupsOf lay)" and z: "\<not> (isZoneItemId i \<and> isZoneGroup (dt_group target))"
    using ok by (auto simp: move_ok_def)
  from t show ?thesis
  proof (cases rule: groupsOf_cases)
    case 1
    from g show ?thesis
      using t z 1 by (cases rule: groupsOf_cases) (auto simp: applyMove_def listOf_def map_of_map_snd Let_def split: option.splits)
  next
    case 2
    from g show ?thesis
      using t z 2 by (cases rule: groupsOf_cases) (auto simp: applyMove_def listOf_def map_of_map_snd Let_def split: option.splits)
  next
    case (3 k)
    from g show ?thesis
    proof (cases rule: groupsOf_cases)
      case (3 k')
      then obtain ids where "map_of (al_zones lay) k' = Some ids" by (metis domD dom_map_of_conv_image_fst)
      then show ?thesis
        using t z \<open>dt_group target = zoneGroup k\<close> 3
        by (cases "k' = k") (auto simp: applyMove_def listOf_def map_of_map_snd map_of_map_entry Let_def)
    qed (use t z 3 in \<open>simp_all add: applyMove_def listOf_def Let_def\<close>)
  qed
qed

lemma splice_into_mset [simp]: "mset (splice_into n i xs) = add_mset i (mset xs)"
  by (simp add: splice_into_def)

lemma splice_into_rest: "i \<notin> set xs \<Longrightarrow> filter (\<lambda>x. x \<noteq> i) (splice_into n i xs) = xs"
  by (simp add: splice_into_def)

lemma splice_into_nth: "splice_into n i xs ! nat (max 0 (min n (int (length xs)))) = i"
  unfolding splice_into_def by (rule nth_insert_at) simp_all

lemma mset_filter_neq: "distinct xs \<Longrightarrow> i \<in> set xs \<Longrightarrow> add_mset i (mset (filter (\<lambda>x. x \<noteq> i) xs)) = mset xs"
proof (induction xs)
  case (Cons x xs)
  show ?case
  proof (cases "x = i")
    case True
    with Cons.prems have "filter (\<lambda>x. x \<noteq> i) xs = xs" by (auto simp: filter_id_conv)
    with True show ?thesis by simp
  qed (use Cons in auto)
qed simp

lemma applyMove_items:
  assumes wf: "layout_wf lay" and ok: "move_ok lay i target" and i: "i \<in> set (layout_items lay)"
  shows "mset (layout_items (applyMove lay i target)) = mset (layout_items lay)"
proof -
  define F where "F g = filter (\<lambda>x. x \<noteq> i) (listOf lay g)" for g
  define N where "N = listOf (applyMove lay i target)"
  have keys: "distinct (map fst (al_zones lay))" using wf by (simp add: layout_wf_def)
  have keys': "distinct (map fst (al_zones (applyMove lay i target)))"
    using keys by (simp add: applyMove_def Let_def split_def comp_def)
  obtain us vs where gs: "groupsOf lay = us @ dt_group target # vs"
    using ok split_list unfolding move_ok_def by metis
  then have out: "dt_group target \<notin> set us" "dt_group target \<notin> set vs"
    using distinct_groups [OF keys] by auto
  have N: "N g = (if g = dt_group target then splice_into (dt_index target) i (F g) else F g)"
    if "g \<in> set (groupsOf lay)" for g
    using applyMove_listOf [OF ok that] by (simp add: N_def F_def)
  have m: "map N us = map F us" "map N vs = map F vs" using N out by (auto simp: gs)
  have cs: "concat (map N us) = concat (map F us)" "concat (map N vs) = concat (map F vs)"
    by (rule arg_cong [OF m(1)], rule arg_cong [OF m(2)])
  have "N (dt_group target) = splice_into (dt_index target) i (F (dt_group target))"
    using N by (simp add: gs)
  then have "mset (concat (map N (groupsOf lay))) = add_mset i (mset (concat (map F (groupsOf lay))))"
    by (simp add: gs cs)
  moreover have "concat (map F (groupsOf lay)) = filter (\<lambda>x. x \<noteq> i) (layout_items lay)"
    by (simp add: layout_items_groups [OF keys] filter_concat F_def [abs_def] comp_def)
  moreover have "layout_items (applyMove lay i target) = concat (map N (groupsOf lay))"
    using layout_items_groups [OF keys'] by (simp add: N_def)
  ultimately show ?thesis
    using mset_filter_neq [OF _ i] wf by (simp add: layout_wf_def)
qed

lemma in_zone_items:
  assumes "distinct (map fst (al_zones lay))"
  shows "x \<in> set (zone_items lay) \<longleftrightarrow> (\<exists>g\<in>set (groupsOf lay). isZoneGroup g \<and> x \<in> set (listOf lay g))"
proof -
  have "zone_items lay = concat (map (\<lambda>z. listOf lay (zoneGroup (fst z))) (al_zones lay))"
    by (simp add: listOf_zones [OF assms] zone_items_def)
  then show ?thesis by (auto simp: groupsOf_def)
qed

lemma applyMove_wf:
  assumes wf: "layout_wf lay" and i: "i \<in> set (layout_items lay)"
  shows "layout_wf (applyMove lay i target)"
proof (cases "move_ok lay i target")
  case ok: True
  have keys: "distinct (map fst (al_zones lay))" using wf by (simp add: layout_wf_def)
  have keys': "distinct (map fst (al_zones (applyMove lay i target)))"
    using keys by (simp add: applyMove_def Let_def split_def comp_def)
  have "distinct (layout_items (applyMove lay i target))"
    using applyMove_items [OF wf ok i] wf mset_eq_imp_distinct_iff by (metis layout_wf_def)
  moreover have "\<not> isZoneItemId x" if x: "x \<in> set (zone_items (applyMove lay i target))" for x
  proof -
    obtain g where g: "g \<in> set (groupsOf lay)" "isZoneGroup g" "x \<in> set (listOf (applyMove lay i target) g)"
      using x in_zone_items [OF keys'] by auto
    then have "x \<in> set (listOf lay g) \<or> (x = i \<and> g = dt_group target)"
      using applyMove_listOf [OF ok g(1)] by (auto simp: splice_into_def Let_def split: if_splits)
    then show ?thesis
      using g in_zone_items [OF keys] wf ok by (auto simp: layout_wf_def move_ok_def)
  qed
  ultimately show ?thesis using keys' by (simp add: layout_wf_def)
qed (use wf in \<open>simp add: applyMove_refused\<close>)

text \<open>A drop moves one thing. A button or zone dropped on a list of the layout ends
  up in that list, at the index asked for (clamped into the list); every other button keeps its
  list and its order; nothing is lost or doubled. A zone dropped into a zone, and a drop on a list
  that is not there, change nothing.\<close>

theorem applyMove_correct:
  assumes "layout_wf lay" and "i \<in> set (layout_items lay)" and "lay' = applyMove lay i target"
  shows "layout_wf lay' \<and> mset (layout_items lay') = mset (layout_items lay) \<and>
    (move_ok lay i target \<longrightarrow> groupOf lay' i = Some (dt_group target) \<and>
       listOf lay' (dt_group target) !
         nat (max 0 (min (dt_index target) (int (length (filter (\<lambda>x. x \<noteq> i) (listOf lay (dt_group target))))))) = i) \<and>
    (\<forall>g\<in>set (groupsOf lay). filter (\<lambda>x. x \<noteq> i) (listOf lay' g) = filter (\<lambda>x. x \<noteq> i) (listOf lay g)) \<and>
    (\<not> move_ok lay i target \<longrightarrow> lay' = lay)"
proof -
  have wf': "layout_wf lay'" using assms applyMove_wf by simp
  have L: "listOf lay' g = (let rest = filter (\<lambda>x. x \<noteq> i) (listOf lay g)
      in if g = dt_group target then splice_into (dt_index target) i rest else rest)"
    if "move_ok lay i target" "g \<in> set (groupsOf lay)" for g
    using applyMove_listOf [OF that] assms(3) by simp
  have items: "mset (layout_items lay') = mset (layout_items lay)"
    using assms applyMove_items applyMove_refused by (cases "move_ok lay i target") auto
  have at_target: "groupOf lay' i = Some (dt_group target) \<and> listOf lay' (dt_group target) !
      nat (max 0 (min (dt_index target) (int (length (filter (\<lambda>x. x \<noteq> i) (listOf lay (dt_group target))))))) = i"
    if ok: "move_ok lay i target"
  proof -
    have t: "dt_group target \<in> set (groupsOf lay)" using ok by (simp add: move_ok_def)
    have l: "listOf lay' (dt_group target) =
        splice_into (dt_index target) i (filter (\<lambda>x. x \<noteq> i) (listOf lay (dt_group target)))"
      using L [OF ok t] by (simp add: Let_def)
    then have "groupOf lay' i = Some (dt_group target)"
      using groupOf_iff [OF wf'] t assms(3) by (simp add: splice_into_def)
    then show ?thesis using l splice_into_nth by simp
  qed
  have rest: "filter (\<lambda>x. x \<noteq> i) (listOf lay' g) = filter (\<lambda>x. x \<noteq> i) (listOf lay g)"
    if g: "g \<in> set (groupsOf lay)" for g
    using L [OF _ g] splice_into_rest [of i] applyMove_refused assms(3)
    by (cases "move_ok lay i target") (auto simp: Let_def)
  show ?thesis using wf' items at_target rest applyMove_refused assms(3) by blast
qed

definition layout_example :: actions_layout where
  "layout_example = \<lparr>al_header = [''build'', ''@zone/ops''], al_footer = [''test''],
     al_zones = [(''ops'', [''logs'', ''ssh''])]\<rparr>"

lemma layout_example_wf: "layout_wf layout_example"
  by code_simp

theorem applyMove_correct_witness:
  "layout_wf (applyMove layout_example ''test'' \<lparr>dt_group = ''zone:ops'', dt_index = 1\<rparr>) \<and>
   applyMove layout_example ''test'' \<lparr>dt_group = ''zone:ops'', dt_index = 1\<rparr> =
     \<lparr>al_header = [''build'', ''@zone/ops''], al_footer = [], al_zones = [(''ops'', [''logs'', ''test'', ''ssh''])]\<rparr>"
proof -
  have "''test'' \<in> set (layout_items layout_example)" by code_simp
  moreover have "applyMove layout_example ''test'' \<lparr>dt_group = ''zone:ops'', dt_index = 1\<rparr> =
     \<lparr>al_header = [''build'', ''@zone/ops''], al_footer = [], al_zones = [(''ops'', [''logs'', ''test'', ''ssh''])]\<rparr>"
    by code_simp
  ultimately show ?thesis using applyMove_correct [OF layout_example_wf _ refl] by blast
qed

section \<open>Removing a zone\<close>

lemma fold_delete: "fold AList.delete ks zs = filter (\<lambda>(k, v). k \<notin> set ks) zs"
  by (induction ks arbitrary: zs) (auto simp: AList.delete_eq split_def intro!: filter_cong)

lemma map_of_filtered:
  assumes "distinct (map fst zs)"
  shows "map (\<lambda>k. the (map_of zs k)) (filter P (map fst zs)) = map snd (filter (\<lambda>z. P (fst z)) zs)"
proof -
  have "map (\<lambda>k. the (map_of zs k)) (filter P (map fst zs)) =
      map (\<lambda>z. the (map_of zs (fst z))) (filter (\<lambda>z. P (fst z)) zs)"
    by (simp add: filter_map comp_def)
  also have "\<dots> = map snd (filter (\<lambda>z. P (fst z)) zs)"
    by (rule map_cong [OF refl]) (use assms in auto)
  finally show ?thesis .
qed

lemma mset_filter_split: "mset (concat (map snd zs)) =
    mset (concat (map snd (filter (\<lambda>z. P (fst z)) zs))) + mset (concat (map snd (filter (\<lambda>z. \<not> P (fst z)) zs)))"
  by (induction zs) auto

text \<open>A list with one occurrence of an item replaced by a block.\<close>

lemma mset_unwrap:
  assumes "distinct ids" and "z \<in> set ids"
  shows "add_mset z (mset (concat (map (\<lambda>i. if i = z then block else [i]) ids))) = mset ids + mset block"
proof -
  obtain us vs where ids: "ids = us @ z # vs" using split_list [OF assms(2)] by blast
  have "concat (map (\<lambda>i. if i = z then block else [i]) us) = us"
    and "concat (map (\<lambda>i. if i = z then block else [i]) vs) = vs"
    by (rule concat_map_id, use assms(1) ids in auto)+
  then show ?thesis by (simp add: ids)
qed

lemma unwrap_none: "z \<notin> set ids \<Longrightarrow> concat (map (\<lambda>i. if i = z then block else [i]) ids) = ids"
  by (rule concat_map_id) auto

text \<open>What removing a zone does to the lists: its item is replaced by the buttons of its lists.\<close>

definition zone_buttons :: "actions_layout \<Rightarrow> string \<Rightarrow> string list" where
  "zone_buttons lay name = concat (map (\<lambda>key. the (map_of (al_zones lay) key)) (listKeysInLayout lay name))"

definition unwrap :: "string \<Rightarrow> string list \<Rightarrow> string list \<Rightarrow> string list" where
  "unwrap name inside ids = concat (map (\<lambda>i. if i = zoneItemId name then inside else [i]) ids)"

lemma unwrap_absent: "zoneItemId name \<notin> set ids \<Longrightarrow> unwrap name inside ids = ids"
  by (simp add: unwrap_def unwrap_none)

lemma layoutWithoutZone_lists:
  "al_header (layoutWithoutZone lay name) = unwrap name (zone_buttons lay name) (al_header lay)"
  "al_footer (layoutWithoutZone lay name) = unwrap name (zone_buttons lay name) (al_footer lay)"
  "al_zones (layoutWithoutZone lay name) = filter (\<lambda>z. zoneOfListKey (fst z) \<noteq> name) (al_zones lay)"
proof -
  have "filter (\<lambda>(k, v). k \<notin> set (listKeysInLayout lay name)) (al_zones lay) =
      filter (\<lambda>z. zoneOfListKey (fst z) \<noteq> name) (al_zones lay)"
    by (rule filter_cong [OF refl]) (auto simp: listKeysInLayout_def image_iff)
  then show "al_header (layoutWithoutZone lay name) = unwrap name (zone_buttons lay name) (al_header lay)"
    "al_footer (layoutWithoutZone lay name) = unwrap name (zone_buttons lay name) (al_footer lay)"
    "al_zones (layoutWithoutZone lay name) = filter (\<lambda>z. zoneOfListKey (fst z) \<noteq> name) (al_zones lay)"
    unfolding layoutWithoutZone_def Let_def fold_delete unwrap_def zone_buttons_def by simp_all
qed

lemma zone_buttons_parts:
  assumes "distinct (map fst (al_zones lay))"
  shows "mset (zone_items lay) = mset (zone_buttons lay name) + mset (zone_items (layoutWithoutZone lay name))"
proof -
  have "zone_buttons lay name = concat (map snd (filter (\<lambda>z. zoneOfListKey (fst z) = name) (al_zones lay)))"
    unfolding zone_buttons_def listKeysInLayout_def map_of_filtered [OF assms] by (rule refl)
  then show ?thesis
    using mset_filter_split [of "al_zones lay" "\<lambda>key. zoneOfListKey key = name"]
    by (simp add: zone_items_def layoutWithoutZone_lists)
qed

lemma layoutWithoutZone_items:
  assumes wf: "layout_wf lay" and row: "rowOfZone lay name \<noteq> None"
  shows "add_mset (zoneItemId name) (mset (layout_items (layoutWithoutZone lay name))) = mset (layout_items lay)"
proof -
  have keys: "distinct (map fst (al_zones lay))" and d: "distinct (layout_items lay)"
    using wf by (auto simp: layout_wf_def)
  have dd: "distinct (al_header lay)" "distinct (al_footer lay)" "set (al_header lay) \<inter> set (al_footer lay) = {}"
    using d by (auto simp: layout_items_def)
  note parts = zone_buttons_parts [OF keys, of name]
  show ?thesis
  proof (cases "zoneItemId name \<in> set (al_header lay)")
    case True
    then have "zoneItemId name \<notin> set (al_footer lay)" using dd by blast
    then show ?thesis
      using mset_unwrap [OF dd(1) True, of "zone_buttons lay name"] parts
      by (simp add: layout_items_def layoutWithoutZone_lists unwrap_absent) (simp add: unwrap_def)
  next
    case False
    then have f: "zoneItemId name \<in> set (al_footer lay)" using row by (simp add: rowOfZone_def split: if_splits)
    then show ?thesis
      using mset_unwrap [OF dd(2) f, of "zone_buttons lay name"] parts False
      by (simp add: layout_items_def layoutWithoutZone_lists unwrap_absent) (simp add: unwrap_def)
  qed
qed

lemma layoutWithoutZone_wf:
  assumes wf: "layout_wf lay" and row: "rowOfZone lay name \<noteq> None"
  shows "layout_wf (layoutWithoutZone lay name)"
proof -
  have "distinct (zoneItemId name # layout_items (layoutWithoutZone lay name))"
    using layoutWithoutZone_items [OF assms] wf
    by (metis layout_wf_def mset.simps(2) mset_eq_imp_distinct_iff)
  moreover have keys: "distinct (map fst (al_zones lay))" using wf by (simp add: layout_wf_def)
  then have "distinct (map fst (al_zones (layoutWithoutZone lay name)))"
    by (simp add: layoutWithoutZone_lists distinct_map_filter)
  moreover have "set (zone_items (layoutWithoutZone lay name)) \<subseteq> set (zone_items lay)"
    using zone_buttons_parts [OF keys, of name] by (metis mset_subset_eq_add_right set_mset_mono set_mset_mset)
  ultimately show ?thesis using wf by (auto simp: layout_wf_def)
qed

text \<open>Removing a zone gives back its buttons. They take the zone's place in its row,
  in order; every other button stays where it is, nothing is lost or doubled, and no list of the
  zone is left.\<close>

theorem layoutWithoutZone_keeps_buttons:
  assumes "layout_wf lay" and "rowOfZone lay name \<noteq> None" and "lay' = layoutWithoutZone lay name"
  shows "layout_wf lay' \<and> \<not> layoutHasZone lay' name \<and>
    add_mset (zoneItemId name) (mset (layout_items lay')) = mset (layout_items lay) \<and>
    (\<forall>us vs. rowOfZone lay name = Some ''header'' \<and> al_header lay = us @ zoneItemId name # vs \<longrightarrow>
       al_header lay' = us @ concat (map (listOf lay \<circ> zoneGroup) (listKeysInLayout lay name)) @ vs \<and>
       al_footer lay' = al_footer lay)"
proof -
  have gone: "\<not> layoutHasZone lay' name"
    by (auto simp: layoutHasZone_def listKeysInLayout_def assms(3) layoutWithoutZone_lists filter_empty_conv)
  have place: "al_header lay' = us @ concat (map (listOf lay \<circ> zoneGroup) (listKeysInLayout lay name)) @ vs \<and>
      al_footer lay' = al_footer lay"
    if "al_header lay = us @ zoneItemId name # vs" for us vs
  proof -
    have keys: "distinct (map fst (al_zones lay))" and d: "distinct (layout_items lay)"
      using assms(1) by (auto simp: layout_wf_def)
    have "map (listOf lay \<circ> zoneGroup) (listKeysInLayout lay name) =
        map (\<lambda>key. the (map_of (al_zones lay) key)) (listKeysInLayout lay name)"
      by (rule map_cong [OF refl]) (use keys in \<open>auto simp: listKeysInLayout_def listOf_def\<close>)
    then have inside: "concat (map (listOf lay \<circ> zoneGroup) (listKeysInLayout lay name)) = zone_buttons lay name"
      unfolding zone_buttons_def by (rule arg_cong)
    have "zoneItemId name \<notin> set us" "zoneItemId name \<notin> set vs" "zoneItemId name \<notin> set (al_footer lay)"
      using d that by (auto simp: layout_items_def)
    moreover from this have "unwrap name inside (us @ zoneItemId name # vs) = us @ inside @ vs" for inside
      using unwrap_absent [of name us inside] unwrap_absent [of name vs inside] by (simp add: unwrap_def)
    ultimately show ?thesis
      unfolding inside by (simp add: assms(3) layoutWithoutZone_lists that unwrap_absent)
  qed
  show ?thesis
    using layoutWithoutZone_wf [OF assms(1,2)] layoutWithoutZone_items [OF assms(1,2)] gone place
    unfolding assms(3) by blast
qed

theorem layoutWithoutZone_keeps_buttons_witness:
  "layoutWithoutZone layout_example ''ops'' =
     \<lparr>al_header = [''build'', ''logs'', ''ssh''], al_footer = [''test''], al_zones = []\<rparr> \<and>
   layout_wf (layoutWithoutZone layout_example ''ops'')"
proof -
  have "rowOfZone layout_example ''ops'' \<noteq> None" by code_simp
  from layoutWithoutZone_keeps_buttons [OF layout_example_wf this refl]
  have "layout_wf (layoutWithoutZone layout_example ''ops'')" by blast
  moreover have "layoutWithoutZone layout_example ''ops'' =
     \<lparr>al_header = [''build'', ''logs'', ''ssh''], al_footer = [''test''], al_zones = []\<rparr>"
    by code_simp
  ultimately show ?thesis by blast
qed

section \<open>Comparing layouts\<close>

lemma same_layout_maps:
  assumes "distinct (map fst (al_zones a))" and "distinct (map fst (al_zones b))"
  shows "sameLayout a b \<longleftrightarrow>
    al_header a = al_header b \<and> al_footer a = al_footer b \<and> map_of (al_zones a) = map_of (al_zones b)"
proof -
  define ka kb where "ka = map fst (al_zones a)" and "kb = map fst (al_zones b)"
  have ka: "x \<in> set ka \<longleftrightarrow> map_of (al_zones a) x \<noteq> None" and kb: "x \<in> set kb \<longleftrightarrow> map_of (al_zones b) x \<noteq> None" for x
    by (auto simp: ka_def kb_def map_of_eq_None_iff)
  have "(length ka = length kb \<and> (\<forall>x\<in>set ka. map_of (al_zones b) x \<noteq> None \<and>
      the (map_of (al_zones a) x) = the (map_of (al_zones b) x))) \<longleftrightarrow> map_of (al_zones a) = map_of (al_zones b)"
    (is "?L \<longleftrightarrow> ?R")
  proof
    assume L: ?L
    then have sub: "set ka \<subseteq> set kb" using kb by blast
    moreover have "card (set ka) = card (set kb)"
      using L distinct_card [of ka] distinct_card [of kb] assms ka_def kb_def by metis
    ultimately have "set ka = set kb" by (simp add: card_subset_eq)
    show ?R
    proof
      fix x
      show "map_of (al_zones a) x = map_of (al_zones b) x"
        using L ka [of x] kb [of x] \<open>set ka = set kb\<close> by (cases "x \<in> set ka") auto
    qed
  next
    assume R: ?R
    then have "set ka = set kb" using ka kb by auto
    then have "length ka = length kb" using assms by (metis distinct_card ka_def kb_def)
    then show ?L using R ka by auto
  qed
  moreover have "sameLayout a b \<longleftrightarrow> al_header a = al_header b \<and> al_footer a = al_footer b \<and>
      length ka = length kb \<and> (\<forall>x\<in>set ka. map_of (al_zones b) x \<noteq> None \<and>
        the (map_of (al_zones a) x) = the (map_of (al_zones b) x))"
    by (auto simp: sameLayout_def ka_def kb_def split: option.splits)
  ultimately show ?thesis by blast
qed

lemma same_layoutI:
  "al_header a = al_header b \<Longrightarrow> al_footer a = al_footer b \<Longrightarrow> map_of (al_zones a) = map_of (al_zones b) \<Longrightarrow>
   distinct (map fst (al_zones a)) \<Longrightarrow> distinct (map fst (al_zones b)) \<Longrightarrow> sameLayout a b"
  by (simp add: same_layout_maps)

text \<open>Two layouts compare as the same exactly when every group lists the same
  buttons in both, whatever the order in which the zones were declared.\<close>

theorem sameLayout_iff:
  assumes "distinct (map fst (al_zones a))" and "distinct (map fst (al_zones b))"
  shows "sameLayout a b \<longleftrightarrow>
    al_header a = al_header b \<and> al_footer a = al_footer b \<and> map_of (al_zones a) = map_of (al_zones b)"
  by (rule same_layout_maps [OF assms])

theorem sameLayout_iff_witness:
  "sameLayout \<lparr>al_header = [], al_footer = [], al_zones = [(''a'', [''x'']), (''b'', [])]\<rparr>
     \<lparr>al_header = [], al_footer = [], al_zones = [(''b'', []), (''a'', [''x''])]\<rparr>"
  by (subst sameLayout_iff) (auto simp: fun_upd_twist)

end
