(* ===== verification/ActionsModel.thy ===== *)
theory ActionsModel
  imports ActionsLayout JsSort
begin

text \<open>
  From the configured actions and zones to the rows on screen, and from an arrangement back to the
  positions and places written: \<open>actionsLayoutModel.ts\<close>, \<open>actionsLayoutUpdates.ts\<close> (all but
  \<open>patchLayoutDoc\<close>, which edits a YAML document of a library) and the optimistic update of
  \<open>store/app.ts\<close>. Of \<open>ActionInfo\<close> the fields these functions read are kept; a position is an
  integer. The central result is that what an update makes of the actions and zones is displayed
  as the very layout it was made from.
\<close>

section \<open>Data\<close>

record action_info =
  ac_name :: string
  ac_label :: string
  ac_cmd :: string
  ac_display :: string
  ac_layer :: "string option"
  ac_position :: "int option"
  ac_type :: "string option"

record zone_layer_view =
  zv_key :: string
  zv_layer :: "layer_info option"
  zv_ids :: "string list"
  zv_actions :: "action_info list"

datatype row_item =
    ActionItem string action_info
  | ZoneItem string zone_info "action_info list" "zone_layer_view list"

fun item_id :: "row_item \<Rightarrow> string" where
  "item_id (ActionItem i a) = i"
| "item_id (ZoneItem i z as ls) = i"

record actions_model =
  am_headerItems :: "row_item list"
  am_footerItems :: "row_item list"
  am_layout :: actions_layout
  am_nextHeaderPosition :: int
  am_nextFooterPosition :: int

definition isHeaderDisplay :: "string \<Rightarrow> bool" where
  "isHeaderDisplay d = (d = [] \<or> d = ''header'' \<or> d = ''button'')"

definition isFooterDisplay :: "string \<Rightarrow> bool" where
  "isFooterDisplay d = (d = ''footer'')"

section \<open>Ordering\<close>

text \<open>A \<open>Positioned\<close> entry, by its name and its position.\<close>

fun comparePosition :: "string \<times> int option \<Rightarrow> string \<times> int option \<Rightarrow> int" where
  "comparePosition (a, Some ap) (b, Some bp) = then_compare (ap - bp) (compareNames a b)"
| "comparePosition (a, Some ap) (b, None) = -1"
| "comparePosition (a, None) (b, Some bp) = 1"
| "comparePosition (a, None) (b, None) = compareNames a b"

interpretation positions: js_compare comparePosition
proof
  fix x y z :: "string \<times> int option"
  show "sgn (comparePosition x y) = - sgn (comparePosition y x)"
    by (cases "(x, y)" rule: comparePosition.cases)
      (auto simp: then_compare_def compareNames_def sgn_if)
  assume "comparePosition x y \<le> 0" and "comparePosition y z \<le> 0"
  then show "comparePosition x z \<le> 0"
    by (cases x; cases y; cases z; cases "snd x"; cases "snd y"; cases "snd z")
      (auto simp: then_compare_def compareNames_def split: if_splits)
qed

definition sortByPosition :: "('a \<Rightarrow> string \<times> int option) \<Rightarrow> 'a list \<Rightarrow> 'a list" where
  "sortByPosition key items = sort_by (\<lambda>a b. comparePosition (key a) (key b)) items"

definition action_key :: "action_info \<Rightarrow> string \<times> int option" where
  "action_key a = (ac_name a, ac_position a)"

definition zone_key :: "zone_info \<Rightarrow> string \<times> int option" where
  "zone_key z = (zi_name z, zi_position z)"

lemma keyed: "js_compare (\<lambda>a b. comparePosition (key a) (key b))"
  by (rule js_compare_key) (rule positions.js_compare_axioms)

section \<open>The rows\<close>

definition zoneLayerViews :: "zone_info \<Rightarrow> (string \<times> action_info list) list \<Rightarrow> zone_layer_view list" where
  "zoneLayerViews zone inZone =
     (let layers = layersOf zone
      in map (\<lambda>(index, key).
           let actions = (case map_of inZone key of None \<Rightarrow> [] | Some as \<Rightarrow> as)
           in \<lparr>zv_key = key, zv_layer = at_index layers (int index), zv_ids = map ac_name actions,
               zv_actions = actions\<rparr>)
         (enumerate 0 (listKeysOfZone zone)))"

definition action_entry :: "action_info \<Rightarrow> (string \<times> int option) \<times> row_item" where
  "action_entry action = (action_key action, ActionItem (ac_name action) action)"

definition zone_entry :: "(string \<times> action_info list) list \<Rightarrow> zone_info \<Rightarrow> (string \<times> int option) \<times> row_item" where
  "zone_entry inZone zone =
     (let layers = zoneLayerViews zone inZone;
          actions = concat (map zv_actions layers)
      in (zone_key zone, ZoneItem (zoneItemId (zi_name zone)) zone actions layers))"

definition rowItems :: "string \<Rightarrow> action_info list \<Rightarrow> zone_info list
    \<Rightarrow> (string \<times> action_info list) list \<Rightarrow> row_item list" where
  "rowItems row actions zones inZone =
     map snd (sortByPosition fst
       (map action_entry actions @ map (zone_entry inZone) (filter (\<lambda>zone. zoneDisplayOf zone = row) zones)))"

definition nextPosition :: "row_item list \<Rightarrow> int" where
  "nextPosition items =
     foldl (\<lambda>m (index, item).
       let position = (case item of ZoneItem i zone as ls \<Rightarrow> zi_position zone | ActionItem i action \<Rightarrow> ac_position action)
       in max m (case position of None \<Rightarrow> int index + 1 | Some p \<Rightarrow> p)) 0 (enumerate 0 items) + 1"

definition nextActionPosition :: "action_info list \<Rightarrow> int" where
  "nextActionPosition actions =
     foldl (\<lambda>m action. max m (case ac_position action of None \<Rightarrow> 0 | Some p \<Rightarrow> p)) 0 actions + 1"

text \<open>The state of the loop of \<open>buildActionsModel\<close>: the zones' lists, the header, the footer.\<close>

type_synonym lists = "(string \<times> action_info list) list \<times> action_info list \<times> action_info list"

definition file_action :: "(string \<times> zone_info) list \<Rightarrow> lists \<Rightarrow> action_info \<Rightarrow> lists" where
  "file_action zoneByName s action =
     (case s of (inZone, header, footer) \<Rightarrow>
       let zone = (if isHeaderDisplay (ac_display action) then None else map_of zoneByName (ac_display action));
           zoneActions = (case zone of None \<Rightarrow> None
             | Some z \<Rightarrow> let key = listKeyForAction z (ac_layer action)
                        in if map_of inZone key = None then None else Some key)
       in if isFooterDisplay (ac_display action) then (inZone, header, footer @ [action])
          else if ac_display action = ''menu'' then (inZone, header, footer)
          else case zoneActions of
              Some key \<Rightarrow> (AList.map_entry key (\<lambda>as. as @ [action]) inZone, header, footer)
            | None \<Rightarrow> (inZone, header @ [action], footer))"

definition put_all :: "('k \<times> 'v) list \<Rightarrow> ('k \<times> 'v) list" where
  "put_all kvs = fold (\<lambda>(k, v). AList.update k v) kvs []"

definition buildActionsModel :: "action_info list \<Rightarrow> zone_info list \<Rightarrow> actions_model" where
  "buildActionsModel actions zones =
     (let zoneByName = put_all (map (\<lambda>zone. (zi_name zone, zone)) zones);
          listKeys = concat (map listKeysOfZone zones);
          inZone = put_all (map (\<lambda>key. (key, [])) listKeys)
      in case foldl (file_action zoneByName) (inZone, [], []) actions of
           (inZone, header, footer) \<Rightarrow>
             let headerItems = rowItems ''header'' header zones inZone;
                 footerItems = rowItems ''footer'' footer zones inZone;
                 lay = \<lparr>al_header = map item_id headerItems, al_footer = map item_id footerItems,
                   al_zones = put_all (map (\<lambda>key. (key, map ac_name (case map_of inZone key of
                     None \<Rightarrow> [] | Some as \<Rightarrow> as))) listKeys)\<rparr>
             in \<lparr>am_headerItems = headerItems, am_footerItems = footerItems, am_layout = lay,
                 am_nextHeaderPosition = nextPosition headerItems,
                 am_nextFooterPosition = nextPosition footerItems\<rparr>)"

section \<open>Where an action goes\<close>

text \<open>The list \<open>buildActionsModel\<close> files an action in; \<open>None\<close> for a menu action.\<close>

definition place :: "zone_info list \<Rightarrow> action_info \<Rightarrow> string option" where
  "place zones action =
     (if isFooterDisplay (ac_display action) then Some ''footer''
      else if ac_display action = ''menu'' then None
      else if isHeaderDisplay (ac_display action) then Some ''header''
      else case map_of (rev (map (\<lambda>zone. (zi_name zone, zone)) zones)) (ac_display action) of
          None \<Rightarrow> Some ''header''
        | Some z \<Rightarrow> Some (zoneGroup (listKeyForAction z (ac_layer action))))"

lemma map_of_put_all: "map_of (put_all kvs) = map_of (rev kvs)"
  using jm.get_put_all [of kvs "[]"] by (simp add: put_all_def)

lemma put_all_keys [simp]: "fst ` set (put_all kvs) = fst ` set kvs" "distinct (map fst (put_all kvs))"
  using jm.keys_put_all [of kvs "[]"] jm.distinct_keys_put_all [of "[]" kvs] by (simp_all add: put_all_def)

lemma map_of_put_all_const: "map_of (put_all (map (\<lambda>k. (k, f k)) ks)) k = (if k \<in> set ks then Some (f k) else None)"
  by (induction ks rule: rev_induct) (auto simp: map_of_put_all)

definition in_list :: "zone_info list \<Rightarrow> string \<Rightarrow> action_info list \<Rightarrow> action_info list" where
  "in_list zones g actions = filter (\<lambda>a. place zones a = Some g) actions"

lemma in_list_simps [simp]: "in_list zones g [] = []"
  "in_list zones g (as @ [a]) = in_list zones g as @ (if place zones a = Some g then [a] else [])"
  by (simp_all add: in_list_def)

lemma map_of_zone_in:
  assumes "map_of (rev (map (\<lambda>zone. (zi_name zone, zone)) zones)) d = Some z"
  shows "z \<in> set zones \<and> zi_name z = d"
  using map_of_SomeD [OF assms] by auto

lemma place_zone_key:
  assumes "place zones a = Some (zoneGroup k)"
  shows "k \<in> set (concat (map listKeysOfZone zones))"
proof -
  obtain z where "map_of (rev (map (\<lambda>zone. (zi_name zone, zone)) zones)) (ac_display a) = Some z"
    and k: "k = listKeyForAction z (ac_layer a)"
    using assms by (auto simp: place_def split: if_splits option.splits)
  then have "z \<in> set zones" using map_of_zone_in by blast
  then show ?thesis using listKeyForAction_in [of z "ac_layer a"] k by auto
qed

lemma place_cases:
  obtains "place zones a = None" | "place zones a = Some ''header''" | "place zones a = Some ''footer''"
    | k where "place zones a = Some (zoneGroup k)"
proof (cases "map_of (rev (map (\<lambda>zone. (zi_name zone, zone)) zones)) (ac_display a)")
  case None
  then have "place zones a \<in> {None, Some ''header'', Some ''footer''}" by (simp add: place_def)
  then show ?thesis using that(1,2,3) by blast
next
  case (Some z)
  then have "place zones a \<in> {None, Some ''header'', Some ''footer'', Some (zoneGroup (listKeyForAction z (ac_layer a)))}"
    by (simp add: place_def)
  then show ?thesis using that by blast
qed

lemma file_action_fold:
  fixes zones actions
  defines "zbn \<equiv> put_all (map (\<lambda>zone. (zi_name zone, zone)) zones)"
    and "ks \<equiv> concat (map listKeysOfZone zones)"
  assumes "foldl (file_action zbn) (put_all (map (\<lambda>key. (key, [])) ks), [], []) actions = (inZone, header, footer)"
  shows "map_of inZone = (\<lambda>k. if k \<in> set ks then Some (in_list zones (zoneGroup k) actions) else None) \<and>
    header = in_list zones ''header'' actions \<and> footer = in_list zones ''footer'' actions"
  using assms(3)
proof (induction actions arbitrary: inZone header footer rule: rev_induct)
  case Nil
  then show ?case by (auto simp: map_of_put_all_const)
next
  case (snoc a as)
  obtain inZ h f where s: "foldl (file_action zbn) (put_all (map (\<lambda>key. (key, [])) ks), [], []) as = (inZ, h, f)"
    by (metis prod_cases3)
  note IH = snoc.IH [OF s]
  have step: "file_action zbn (inZ, h, f) a = (inZone, header, footer)"
    using snoc.prems s by simp
  consider "place zones a = None" | "place zones a = Some ''header''" | "place zones a = Some ''footer''"
    | k where "place zones a = Some (zoneGroup k)"
    by (rule place_cases)
  then show ?case
  proof cases
    case 1
    with step IH show ?thesis
      by (auto simp: file_action_def place_def isFooterDisplay_def split: if_splits option.splits)
  next
    case 2
    with step IH show ?thesis
      by (auto simp: file_action_def place_def isFooterDisplay_def zbn_def map_of_put_all
          split: if_splits option.splits)
  next
    case 3
    with step IH show ?thesis
      by (auto simp: file_action_def place_def isFooterDisplay_def split: if_splits option.splits)
  next
    case (4 k)
    have k: "k \<in> set ks" using place_zone_key [OF 4] by (simp add: ks_def)
    from 4 have "(inZone, header, footer) = (AList.map_entry k (\<lambda>as. as @ [a]) inZ, h, f)"
      using step IH k
      by (auto simp: file_action_def place_def zbn_def map_of_put_all isFooterDisplay_def Let_def
          split: if_splits option.splits)
    with IH 4 k show ?thesis by (auto simp: map_of_map_entry fun_eq_iff)
  qed
qed

text \<open>The layout of the model, list by list.\<close>

definition row_entries :: "action_info list \<Rightarrow> zone_info list \<Rightarrow> string \<Rightarrow> ((string \<times> int option) \<times> string) list" where
  "row_entries actions zones row =
     map (\<lambda>a. (action_key a, ac_name a)) (in_list zones row actions) @
     map (\<lambda>z. (zone_key z, zoneItemId (zi_name z))) (filter (\<lambda>zone. zoneDisplayOf zone = row) zones)"

lemma rowItems_ids:
  "map item_id (rowItems row as zones inZone) = map snd (sortByPosition fst
     (map (\<lambda>a. (action_key a, ac_name a)) as @
      map (\<lambda>z. (zone_key z, zoneItemId (zi_name z))) (filter (\<lambda>zone. zoneDisplayOf zone = row) zones)))"
proof -
  define es where "es = map action_entry as @ map (zone_entry inZone) (filter (\<lambda>zone. zoneDisplayOf zone = row) zones)"
  define h where "h = (\<lambda>e :: (string \<times> int option) \<times> row_item. (fst e, item_id (snd e)))"
  have "map item_id (rowItems row as zones inZone) = map snd (map h (sortByPosition fst es))"
    by (simp add: rowItems_def es_def h_def comp_def)
  also have "map h (sortByPosition fst es) = sortByPosition fst (map h es)"
    by (simp add: sortByPosition_def sort_by_map h_def)
  also have "map h es = map (\<lambda>a. (action_key a, ac_name a)) as @
      map (\<lambda>z. (zone_key z, zoneItemId (zi_name z))) (filter (\<lambda>zone. zoneDisplayOf zone = row) zones)"
    by (simp add: es_def h_def action_entry_def zone_entry_def Let_def)
  finally show ?thesis .
qed

lemma build_layout:
  fixes actions zones
  defines "lay \<equiv> am_layout (buildActionsModel actions zones)"
    and "ks \<equiv> concat (map listKeysOfZone zones)"
  shows "al_header lay = map snd (sortByPosition fst (row_entries actions zones ''header''))"
    and "al_footer lay = map snd (sortByPosition fst (row_entries actions zones ''footer''))"
    and "al_zones lay = put_all (map (\<lambda>k. (k, map ac_name (in_list zones (zoneGroup k) actions))) ks)"
proof -
  define zbn where "zbn = put_all (map (\<lambda>zone. (zi_name zone, zone)) zones)"
  obtain inZone header footer where
    s: "foldl (file_action zbn) (put_all (map (\<lambda>key. (key, [])) ks), [], []) actions = (inZone, header, footer)"
    by (metis prod_cases3)
  have f: "map_of inZone = (\<lambda>k. if k \<in> set ks then Some (in_list zones (zoneGroup k) actions) else None)"
    "header = in_list zones ''header'' actions" "footer = in_list zones ''footer'' actions"
    using file_action_fold [of zones actions inZone header footer] s by (simp_all add: zbn_def ks_def)
  have l: "lay = \<lparr>al_header = map item_id (rowItems ''header'' header zones inZone),
      al_footer = map item_id (rowItems ''footer'' footer zones inZone),
      al_zones = put_all (map (\<lambda>key. (key, map ac_name (case map_of inZone key of
        None \<Rightarrow> [] | Some as \<Rightarrow> as))) ks)\<rparr>"
    using s by (simp add: lay_def buildActionsModel_def Let_def zbn_def ks_def)
  have "map (\<lambda>key. (key, map ac_name (case map_of inZone key of None \<Rightarrow> [] | Some as \<Rightarrow> as))) ks =
      map (\<lambda>k. (k, map ac_name (in_list zones (zoneGroup k) actions))) ks"
    by (rule map_cong [OF refl]) (simp add: f)
  then show "al_zones lay = put_all (map (\<lambda>k. (k, map ac_name (in_list zones (zoneGroup k) actions))) ks)"
    by (simp only: l actions_layout.simps)
  show "al_header lay = map snd (sortByPosition fst (row_entries actions zones ''header''))"
    and "al_footer lay = map snd (sortByPosition fst (row_entries actions zones ''footer''))"
    by (simp_all add: l f rowItems_ids row_entries_def)
qed

lemma put_all_const:
  "put_all (map (\<lambda>k. (k, f k)) ks) = map (\<lambda>k. (k, f k)) (map fst (put_all (map (\<lambda>k. (k, f k)) ks)))"
proof -
  have "snd kv = f (fst kv)" if "kv \<in> set (put_all (map (\<lambda>k. (k, f k)) ks))" for kv
  proof -
    have "map_of (put_all (map (\<lambda>k. (k, f k)) ks)) (fst kv) = Some (snd kv)" using that by simp
    then show ?thesis by (simp add: map_of_put_all_const split: if_splits)
  qed
  then have "map (\<lambda>kv. (fst kv, f (fst kv))) (put_all (map (\<lambda>k. (k, f k)) ks)) = put_all (map (\<lambda>k. (k, f k)) ks)"
    by (intro map_idI) (auto simp: prod_eq_iff)
  then show ?thesis by (simp add: comp_def)
qed

lemma mset_spread:
  "distinct ks \<Longrightarrow> mset (concat (map (\<lambda>k. F k @ (if g = Some (h k) then [x] else [])) ks)) =
    mset (concat (map F ks)) + (if g \<in> (Some \<circ> h) ` set ks then {#x#} else {#})" if "inj h"
  using that by (induction ks) (auto simp: inj_def)

lemma lists_cover:
  assumes "distinct ks" and "set (concat (map listKeysOfZone zones)) \<subseteq> set ks"
  shows "mset (map ac_name (in_list zones ''header'' actions)) + mset (map ac_name (in_list zones ''footer'' actions)) +
      mset (concat (map (\<lambda>k. map ac_name (in_list zones (zoneGroup k) actions)) ks)) =
    mset (map ac_name (filter (\<lambda>a. place zones a \<noteq> None) actions))"
proof (induction actions rule: rev_induct)
  case Nil
  show ?case by simp
next
  case (snoc a as)
  have inj: "inj zoneGroup" by (simp add: inj_def)
  have "mset (concat (map (\<lambda>k. map ac_name (in_list zones (zoneGroup k) (as @ [a]))) ks)) =
      mset (concat (map (\<lambda>k. map ac_name (in_list zones (zoneGroup k) as) @
        (if place zones a = Some (zoneGroup k) then [ac_name a] else [])) ks))"
    by (intro arg_cong [where f = mset] arg_cong [where f = concat] map_cong refl) simp
  also have "\<dots> = mset (concat (map (\<lambda>k. map ac_name (in_list zones (zoneGroup k) as)) ks)) +
      (if place zones a \<in> (Some \<circ> zoneGroup) ` set ks then {#ac_name a#} else {#})"
    by (rule mset_spread [OF inj assms(1)])
  finally have step: "mset (concat (map (\<lambda>k. map ac_name (in_list zones (zoneGroup k) (as @ [a]))) ks)) = \<dots>" .
  show ?case
  proof (rule place_cases [of zones a])
    fix k assume k: "place zones a = Some (zoneGroup k)"
    then have "k \<in> set ks" using place_zone_key assms(2) by blast
    with k have "place zones a \<in> (Some \<circ> zoneGroup) ` set ks" by simp
    with snoc show ?case unfolding step by (simp add: k)
  qed (use snoc in \<open>simp add: step image_iff; fail\<close>)+
qed

lemma place_None: "place zones a = None \<longleftrightarrow> ac_display a = ''menu''"
  by (auto simp: place_def isFooterDisplay_def isHeaderDisplay_def split: option.splits)

lemma row_split: "mset (map f (filter (\<lambda>z. zoneDisplayOf z = ''header'') zs)) +
    mset (map f (filter (\<lambda>z. zoneDisplayOf z = ''footer'') zs)) = mset (map f zs)"
  by (induction zs) (auto simp: zoneDisplayOf_def)

lemma row_ids_mset: "mset (map snd (sortByPosition fst (row_entries actions zones row))) =
    mset (map ac_name (in_list zones row actions)) +
    mset (map (zoneItemId \<circ> zi_name) (filter (\<lambda>zone. zoneDisplayOf zone = row) zones))"
proof -
  have "mset (map snd (sortByPosition fst (row_entries actions zones row))) =
      mset (map snd (row_entries actions zones row))"
    unfolding mset_map by (simp add: sortByPosition_def)
  then show ?thesis by (simp add: row_entries_def comp_def)
qed

definition in_position_order :: "((string \<times> int option) \<times> string) list \<Rightarrow> string list \<Rightarrow> bool" where
  "in_position_order entries ids \<longleftrightarrow> (\<exists>items. ids = map snd items \<and> mset items = mset entries \<and>
     sorted_wrt (\<lambda>a b. comparePosition (fst a) (fst b) \<le> 0) items)"

lemma sorted_in_order: "in_position_order entries (map snd (sortByPosition fst entries))"
  unfolding in_position_order_def sortByPosition_def
  by (intro exI [of _ "sort_by (\<lambda>a b. comparePosition (fst a) (fst b)) entries"] conjI)
    (simp_all add: js_compare.sorted_sort_by [OF keyed])

text \<open>The rows show everything once. Whatever the configuration says, every action
  that is not in the menu and every zone appears exactly once in the layout (an action whose
  display names no zone in the header), each zone list holds its actions in the given order, and
  each row holds its actions and zones in order of position.\<close>

theorem model_shows_everything:
  "mset (layout_items (am_layout (buildActionsModel actions zones))) =
     mset (map ac_name (filter (\<lambda>a. ac_display a \<noteq> ''menu'') actions)) + mset (map (zoneItemId \<circ> zi_name) zones) \<and>
   (\<forall>k ids. map_of (al_zones (am_layout (buildActionsModel actions zones))) k = Some ids \<longrightarrow>
     ids = map ac_name (filter (\<lambda>a. place zones a = Some (zoneGroup k)) actions)) \<and>
   in_position_order (row_entries actions zones ''header'') (al_header (am_layout (buildActionsModel actions zones))) \<and>
   in_position_order (row_entries actions zones ''footer'') (al_footer (am_layout (buildActionsModel actions zones)))"
proof -
  define lay where "lay = am_layout (buildActionsModel actions zones)"
  define ks where "ks = concat (map listKeysOfZone zones)"
  define f where "f = (\<lambda>k. map ac_name (in_list zones (zoneGroup k) actions))"
  define ks' where "ks' = map fst (put_all (map (\<lambda>k. (k, f k)) ks))"
  have z: "al_zones lay = put_all (map (\<lambda>k. (k, f k)) ks)"
    using build_layout(3) [of actions zones] by (simp add: lay_def ks_def f_def)
  then have z': "al_zones lay = map (\<lambda>k. (k, f k)) ks'"
    using put_all_const [of f ks] by (simp add: ks'_def)
  have "set ks' = set ks" by (simp add: ks'_def image_image)
  then have "mset (map ac_name (in_list zones ''header'' actions)) + mset (map ac_name (in_list zones ''footer'' actions)) +
      mset (concat (map f ks')) = mset (map ac_name (filter (\<lambda>a. place zones a \<noteq> None) actions))"
    using lists_cover [of ks' zones actions] unfolding f_def by (simp add: ks'_def ks_def)
  moreover have zi: "zone_items lay = concat (map f ks')" by (simp add: zone_items_def z' comp_def)
  have h: "mset (al_header lay) = mset (map ac_name (in_list zones ''header'' actions)) +
      mset (map (zoneItemId \<circ> zi_name) (filter (\<lambda>zone. zoneDisplayOf zone = ''header'') zones))"
    and fo: "mset (al_footer lay) = mset (map ac_name (in_list zones ''footer'' actions)) +
      mset (map (zoneItemId \<circ> zi_name) (filter (\<lambda>zone. zoneDisplayOf zone = ''footer'') zones))"
    unfolding lay_def build_layout row_ids_mset by (rule refl)+
  have "mset (layout_items lay) = mset (al_header lay) + (mset (al_footer lay) + mset (zone_items lay))"
    by (simp add: layout_items_def)
  ultimately have items: "mset (layout_items lay) =
      mset (map ac_name (filter (\<lambda>a. ac_display a \<noteq> ''menu'') actions)) + mset (map (zoneItemId \<circ> zi_name) zones)"
    using row_split [of "zoneItemId \<circ> zi_name" zones]
    unfolding h fo zi place_None by (simp add: ac_simps)
  have "ids = f k" if "map_of (al_zones lay) k = Some ids" for k ids
    using that unfolding z by (simp add: map_of_put_all_const split: if_splits)
  then have lists: "\<forall>k ids. map_of (al_zones lay) k = Some ids \<longrightarrow>
      ids = map ac_name (filter (\<lambda>a. place zones a = Some (zoneGroup k)) actions)"
    by (simp add: f_def in_list_def)
  have "in_position_order (row_entries actions zones ''header'') (al_header lay)"
    "in_position_order (row_entries actions zones ''footer'') (al_footer lay)"
    unfolding lay_def build_layout(1) build_layout(2) by (rule sorted_in_order)+
  with items lists show ?thesis by (simp only: lay_def)
qed

section \<open>Example\<close>

definition example_zones :: "zone_info list" where
  "example_zones = [\<lparr>zi_name = ''ops'', zi_label = ''Ops'', zi_rows = 1, zi_display = None,
     zi_position = Some 5, zi_layers = Some [\<lparr>li_name = ''a'', li_label = None, li_position = None\<rparr>,
       \<lparr>li_name = ''b'', li_label = None, li_position = None\<rparr>], zi_collapsed = None\<rparr>]"

definition example_action :: "string \<Rightarrow> string \<Rightarrow> string option \<Rightarrow> int option \<Rightarrow> action_info" where
  "example_action name display layer position = \<lparr>ac_name = name, ac_label = name, ac_cmd = name,
     ac_display = display, ac_layer = layer, ac_position = position, ac_type = None\<rparr>"

definition example_actions :: "action_info list" where
  "example_actions = [example_action ''build'' [] None (Some 1), example_action ''logs'' ''ops'' (Some ''b'') (Some 1),
     example_action ''test'' ''footer'' None None, example_action ''more'' ''menu'' None None]"

theorem model_shows_everything_witness:
  "map_of (al_zones (am_layout (buildActionsModel example_actions example_zones))) ''ops/b'' = Some [''logs''] \<and>
   [''logs''] = map ac_name (filter (\<lambda>a. place example_zones a = Some (zoneGroup ''ops/b'')) example_actions)"
proof -
  have "map_of (al_zones (am_layout (buildActionsModel example_actions example_zones))) ''ops/b'' = Some [''logs'']"
    by code_simp
  then show ?thesis using model_shows_everything [of example_actions example_zones] by blast
qed

end
