(* ===== verification/ActionsUpdates.thy ===== *)
theory ActionsUpdates
  imports ActionsModel
begin

text \<open>
  What an arrangement of the action rows writes: \<open>actionsLayoutUpdates.ts\<close> (all but
  \<open>patchLayoutDoc\<close>, which edits a document of the YAML library) and the optimistic update
  \<open>applyActionsLayoutToStore\<close> of \<open>store/app.ts\<close>. An update's \<open>layer\<close> is \<open>undefined\<close>
  (\<open>None\<close>), \<open>null\<close> (\<open>Some None\<close>) or a name.
\<close>

section \<open>Updates\<close>

record action_update =
  au_position :: int
  au_display :: "string option"
  au_layer :: "string option option"
  au_section :: string

record zone_update =
  zu_position :: int
  zu_display :: "string option"

record layout_updates =
  lu_actions :: "(string \<times> action_update) list"
  lu_zones :: "(string \<times> zone_update) list"

definition groupOfAction :: "action_info \<Rightarrow> zone_info list \<Rightarrow> actions_layout \<Rightarrow> string option" where
  "groupOfAction action zones lay =
     (let display = ac_display action
      in if isHeaderDisplay display then Some ''header''
         else if isFooterDisplay display then Some ''footer''
         else if display = ''menu'' then None
         else case List.find (\<lambda>candidate. zi_name candidate = display) zones of
             Some zone \<Rightarrow> Some (zoneGroup (listKeyForAction zone (ac_layer action)))
           | None \<Rightarrow>
               (case listKeysInLayout lay display of
                  [] \<Rightarrow> Some ''header''
                | first # rest \<Rightarrow>
                    Some (zoneGroup (case List.find (\<lambda>key. layerOfListKey key = ac_layer action) (first # rest) of
                      None \<Rightarrow> first | Some key \<Rightarrow> key))))"

definition isLayerGroup :: "string option \<Rightarrow> bool" where
  "isLayerGroup grp = (case grp of None \<Rightarrow> False
     | Some g \<Rightarrow> isZoneGroup g \<and> layerOfListKey (listKeyOfGroup g) \<noteq> None)"

text \<open>The first loop: per action where it was, whether it had a layer, and its section.\<close>

record action_facts =
  af_previous :: "string option"
  af_hadLayer :: bool
  af_section :: string

definition action_facts_of :: "zone_info list \<Rightarrow> actions_layout \<Rightarrow> actions_layout option
    \<Rightarrow> action_info \<Rightarrow> action_facts" where
  "action_facts_of zones lay before action =
     (let startGroup = (case before of None \<Rightarrow> None | Some b \<Rightarrow> groupOf b (ac_name action));
          start = or_else startGroup (groupOfAction action zones lay)
      in \<lparr>af_previous = start,
          af_hadLayer = (ac_layer action \<noteq> None \<or> isLayerGroup start),
          af_section = (if ac_type action = Some ''terminal'' then ''terminals'' else ''actions'')\<rparr>)"

definition untouched :: "string list \<Rightarrow> string list option \<Rightarrow> bool" where
  "untouched keys start = (case start of None \<Rightarrow> False | Some s \<Rightarrow> arrayEq keys s)"

definition row_of :: "actions_layout \<Rightarrow> string \<Rightarrow> string list" where
  "row_of lay row = (if row = ''header'' then al_header lay else al_footer lay)"

definition zone_row_puts :: "zone_info list \<Rightarrow> actions_layout option \<Rightarrow> actions_layout \<Rightarrow> string
    \<Rightarrow> (string \<times> zone_update) list" where
  "zone_row_puts zones before lay row =
     (if (case before of None \<Rightarrow> False | Some b \<Rightarrow> untouched (row_of lay row) (Some (row_of b row))) then []
      else map (\<lambda>(index, key).
          let name = zoneNameOfItem key;
              start = or_else (case before of None \<Rightarrow> None | Some b \<Rightarrow> rowOfZone b name)
                (map_of (put_all (map (\<lambda>zone. (zi_name zone, zoneDisplayOf zone)) zones)) name)
          in (name, \<lparr>zu_position = int index + 1,
                zu_display = (if start = None \<or> start = Some row then None else Some row)\<rparr>))
        (filter (\<lambda>(index, key). isZoneItemId key) (enumerate 0 (row_of lay row))))"

definition start_list :: "actions_layout option \<Rightarrow> string \<Rightarrow> string list option" where
  "start_list before placement = (case before of None \<Rightarrow> None
     | Some b \<Rightarrow> if isZoneGroup placement then map_of (al_zones b) (listKeyOfGroup placement)
                 else Some (row_of b placement))"

definition action_update_for :: "action_facts \<Rightarrow> string \<Rightarrow> string \<Rightarrow> string option \<Rightarrow> nat \<Rightarrow> action_update" where
  "action_update_for known placement display layer index =
     (let update = \<lparr>au_position = int index + 1, au_display = None, au_layer = None, au_section = af_section known\<rparr>
      in if af_previous known \<noteq> Some placement
         then update\<lparr>au_display := Some display,
           au_layer := (if layer \<noteq> None then Some layer else if af_hadLayer known then Some None else None)\<rparr>
         else update)"

definition visit :: "(string \<times> action_facts) list \<Rightarrow> actions_layout option \<Rightarrow> string list \<Rightarrow> string
    \<Rightarrow> string \<Rightarrow> string option \<Rightarrow> (string \<times> action_update) list" where
  "visit facts before keys placement display layer =
     (if untouched keys (start_list before placement) then []
      else map (\<lambda>(index, key). (key, action_update_for (the (map_of facts key)) placement display layer index))
        (filter (\<lambda>(index, key). \<not> isZoneItemId key \<and> map_of facts key \<noteq> None) (enumerate 0 keys)))"

definition buildLayoutUpdates :: "action_info list \<Rightarrow> actions_layout \<Rightarrow> actions_layout option
    \<Rightarrow> zone_info list \<Rightarrow> layout_updates" where
  "buildLayoutUpdates current lay before zones =
     (let facts = put_all (map (\<lambda>action. (ac_name action, action_facts_of zones lay before action)) current)
      in \<lparr>lu_actions = put_all
            (visit facts before (al_header lay) ''header'' ''header'' None @
             visit facts before (al_footer lay) ''footer'' ''footer'' None @
             concat (map (\<lambda>(listKey, keys). visit facts before keys (zoneGroup listKey)
               (zoneOfListKey listKey) (layerOfListKey listKey)) (al_zones lay))),
          lu_zones = put_all
            (zone_row_puts zones before lay ''header'' @ zone_row_puts zones before lay ''footer'')\<rparr>)"

definition apply_action_update :: "action_info \<Rightarrow> action_update \<Rightarrow> action_info" where
  "apply_action_update action update =
     (let next = action\<lparr>ac_position := Some (au_position update)\<rparr>;
          next = (case au_display update of None \<Rightarrow> next | Some d \<Rightarrow> next\<lparr>ac_display := d\<rparr>)
      in case au_layer update of None \<Rightarrow> next | Some l \<Rightarrow> next\<lparr>ac_layer := l\<rparr>)"

definition applyActionUpdates :: "action_info list \<Rightarrow> (string \<times> action_update) list \<Rightarrow> action_info list" where
  "applyActionUpdates actions updates =
     map (\<lambda>action. case map_of updates (ac_name action) of None \<Rightarrow> action
       | Some update \<Rightarrow> apply_action_update action update) actions"

definition apply_zone_update :: "zone_info \<Rightarrow> zone_update \<Rightarrow> zone_info" where
  "apply_zone_update zone update =
     (let next = zone\<lparr>zi_position := Some (zu_position update)\<rparr>
      in case zu_display update of None \<Rightarrow> next | Some d \<Rightarrow> next\<lparr>zi_display := Some d\<rparr>)"

definition applyZoneUpdates :: "zone_info list \<Rightarrow> (string \<times> zone_update) list \<Rightarrow> zone_info list" where
  "applyZoneUpdates zones updates =
     map (\<lambda>zone. case map_of updates (zi_name zone) of None \<Rightarrow> zone
       | Some update \<Rightarrow> apply_zone_update zone update) zones"

text \<open>What the store holds after the update, as it shows it before the files are written.\<close>

definition applyActionsLayoutToStore :: "action_info list \<Rightarrow> zone_info list \<Rightarrow> actions_layout
    \<Rightarrow> actions_layout option \<Rightarrow> action_info list \<times> zone_info list" where
  "applyActionsLayoutToStore actions zones lay before =
     (let updates = buildLayoutUpdates actions lay before zones
      in (sortByPosition action_key (applyActionUpdates actions (lu_actions updates)),
          if lu_zones updates = [] then zones
          else sortByPosition zone_key (applyZoneUpdates zones (lu_zones updates))))"

section \<open>Configurations and layouts that fit\<close>

definition zone_ok :: "zone_info \<Rightarrow> bool" where
  "zone_ok z \<longleftrightarrow> zi_name z \<notin> {[], ''header'', ''button'', ''footer'', ''menu''} \<and>
     LAYER_SEPARATOR \<notin> set (zi_name z) \<and> distinct (map li_name (layersOf z)) \<and>
     [] \<notin> li_name ` set (layersOf z)"

definition config_fits :: "action_info list \<Rightarrow> zone_info list \<Rightarrow> bool" where
  "config_fits actions zones \<longleftrightarrow> distinct (map ac_name actions) \<and> distinct (map zi_name zones) \<and>
     (\<forall>z\<in>set zones. zone_ok z) \<and> (\<forall>a\<in>set actions. \<not> isZoneItemId (ac_name a))"

text \<open>A layout of this configuration: the same items, arranged in its lists in any way.\<close>

definition layout_fits :: "action_info list \<Rightarrow> zone_info list \<Rightarrow> actions_layout \<Rightarrow> bool" where
  "layout_fits actions zones lay \<longleftrightarrow> layout_wf lay \<and>
     set (map fst (al_zones lay)) = set (concat (map listKeysOfZone zones)) \<and>
     set (layout_items lay) = ac_name ` {a \<in> set actions. ac_display a \<noteq> ''menu''} \<union> (zoneItemId \<circ> zi_name) ` set zones"

text \<open>A list key belongs to one zone, and the layer it names leads back to it.\<close>

lemma listKeys_zone:
  assumes "zone_ok z" and "k \<in> set (listKeysOfZone z)"
  shows "zoneOfListKey k = zi_name z \<and> listKeyForAction z (layerOfListKey k) = k"
proof (cases "layersOf z = []")
  case True
  then have "k = zi_name z" using assms(2) by (simp add: listKeysOfZone_def)
  then show ?thesis using True assms(1) by (simp add: listKeyForAction_def zone_ok_def zoneOf_plain)
next
  case False
  then obtain l where l: "l \<in> set (layersOf z)" and k: "k = zoneListKey (zi_name z) (Some (li_name l))"
    using assms(2) by (auto simp: listKeysOfZone_def)
  have sep: "LAYER_SEPARATOR \<notin> set (zi_name z)" using assms(1) by (simp add: zone_ok_def)
  have "li_name l \<noteq> []" using assms(1) l unfolding zone_ok_def by (metis image_eqI)
  then have layer: "layerOfListKey k = Some (li_name l)"
    using list_key_parts(2) [OF sep, of "Some (li_name l)"] by (simp add: k keep_truthy_def)
  have "List.find (\<lambda>candidate. Some (li_name candidate) = Some (li_name l)) (layersOf z) \<noteq> None"
    using l by (auto simp: find_None_iff)
  then obtain l' where l': "List.find (\<lambda>candidate. Some (li_name candidate) = Some (li_name l)) (layersOf z) = Some l'"
    by auto
  then have "li_name l' = li_name l" using find_member [OF l'] by simp
  have "listKeyForAction z (Some (li_name l)) = zoneListKey (zi_name z) (Some (li_name l'))"
    using l' False by (cases "layersOf z") (simp_all add: listKeyForAction_def Let_def del: find.simps)
  then have "listKeyForAction z (layerOfListKey k) = k" using layer k \<open>li_name l' = li_name l\<close> by simp
  then show ?thesis using list_key_parts(1) [OF sep] by (simp add: k)
qed

lemma find_map_of: "distinct (map zi_name zones) \<Longrightarrow>
    List.find (\<lambda>c. zi_name c = d) zones = map_of (rev (map (\<lambda>zone. (zi_name zone, zone)) zones)) d"
proof -
  assume d: "distinct (map zi_name zones)"
  have "map_of (rev (map (\<lambda>zone. (zi_name zone, zone)) zones)) = map_of (map (\<lambda>zone. (zi_name zone, zone)) zones)"
    using d by (subst map_of_inject_set) (simp_all add: comp_def rev_map [symmetric])
  moreover have "map_of (map (\<lambda>zone. (zi_name zone, zone)) zones) d = List.find (\<lambda>c. zi_name c = d) zones"
    by (induction zones) auto
  ultimately show ?thesis by simp
qed

lemma groupOfAction_place:
  assumes "config_fits actions zones" and "layout_fits actions zones lay"
  shows "groupOfAction a zones lay = place zones a"
proof (cases "List.find (\<lambda>c. zi_name c = ac_display a) zones")
  case None
  have "listKeysInLayout lay (ac_display a) = []"
  proof -
    have "zoneOfListKey k \<noteq> ac_display a" if k: "k \<in> set (map fst (al_zones lay))" for k
    proof -
      obtain z where z: "z \<in> set zones" "k \<in> set (listKeysOfZone z)"
        using k assms(2) by (auto simp: layout_fits_def)
      then have "zoneOfListKey k = zi_name z" using listKeys_zone assms(1) by (auto simp: config_fits_def)
      then show ?thesis using None z(1) by (auto simp: find_None_iff)
    qed
    then show ?thesis by (auto simp: listKeysInLayout_def filter_empty_conv)
  qed
  then show ?thesis
    using None assms(1) find_map_of [of zones "ac_display a"]
    by (auto simp: groupOfAction_def place_def config_fits_def isHeaderDisplay_def isFooterDisplay_def Let_def)
next
  case (Some z)
  moreover have "map_of (rev (map (\<lambda>zone. (zi_name zone, zone)) zones)) (ac_display a) = Some z"
    using Some assms(1) find_map_of [of zones "ac_display a"] by (simp add: config_fits_def)
  ultimately show ?thesis
    by (auto simp: groupOfAction_def place_def config_fits_def isHeaderDisplay_def isFooterDisplay_def Let_def)
qed

section \<open>The updates, item by item\<close>

definition display_of :: "string \<Rightarrow> string" where
  "display_of g = (if isZoneGroup g then zoneOfListKey (listKeyOfGroup g) else g)"

definition layer_of :: "string \<Rightarrow> string option" where
  "layer_of g = (if isZoneGroup g then layerOfListKey (listKeyOfGroup g) else None)"

definition facts_of :: "action_info list \<Rightarrow> zone_info list \<Rightarrow> actions_layout
    \<Rightarrow> actions_layout option \<Rightarrow> (string \<times> action_facts) list" where
  "facts_of actions zones lay before = put_all (map (\<lambda>action. (ac_name action, action_facts_of zones lay before action)) actions)"

lemma row_listOf: "row_of lay ''header'' = listOf lay ''header''" "row_of lay ''footer'' = listOf lay ''footer''"
  by (simp_all add: row_of_def listOf_def)

lemma filter_enumerate: "map snd (filter (\<lambda>(index, key). P key) (enumerate n keys)) = filter P keys"
  by (induction keys arbitrary: n) auto

lemma visit_keys: "map fst (visit facts None keys g d l) = filter (\<lambda>key. \<not> isZoneItemId key \<and> map_of facts key \<noteq> None) keys"
  using filter_enumerate [of "\<lambda>key. \<not> isZoneItemId key \<and> map_of facts key \<noteq> None" 0 keys]
  by (simp add: visit_def untouched_def start_list_def comp_def split_def)

lemma visit_mem:
  assumes "j < length keys" and "\<not> isZoneItemId (keys ! j)" and "map_of facts (keys ! j) = Some known"
  shows "(keys ! j, action_update_for known g d l j) \<in> set (visit facts None keys g d l)"
proof -
  have "(j, keys ! j) \<in> set (enumerate 0 keys)" using assms(1) by (simp add: in_set_enumerate_eq)
  then have "(j, keys ! j) \<in> set (filter (\<lambda>(index, key). \<not> isZoneItemId key \<and> map_of facts key \<noteq> None) (enumerate 0 keys))"
    using assms by simp
  then show ?thesis
    using assms(3) by (force simp: visit_def untouched_def start_list_def)
qed

definition all_puts :: "action_info list \<Rightarrow> zone_info list \<Rightarrow> actions_layout
    \<Rightarrow> actions_layout option \<Rightarrow> (string \<times> action_update) list" where
  "all_puts actions zones lay before = concat (map (\<lambda>g. visit (facts_of actions zones lay before) before (listOf lay g) g
     (display_of g) (layer_of g)) (groupsOf lay))"

lemma lu_actions_puts:
  assumes "distinct (map fst (al_zones lay))"
  shows "lu_actions (buildLayoutUpdates actions lay before zones) = put_all (all_puts actions zones lay before)"
proof -
  have eq: "map (\<lambda>(listKey, keys). visit f before keys (zoneGroup listKey) (zoneOfListKey listKey) (layerOfListKey listKey)) (al_zones lay) =
      map (\<lambda>z. visit f before (listOf lay (zoneGroup (fst z))) (zoneGroup (fst z)) (zoneOfListKey (fst z)) (layerOfListKey (fst z))) (al_zones lay)" for f
    by (rule map_cong [OF refl]) (use listOf_zone [OF assms] in auto)
  show ?thesis
    by (simp add: eq buildLayoutUpdates_def all_puts_def facts_of_def groupsOf_def display_of_def layer_of_def
        listOf_def [of lay "''header''"] listOf_def [of lay "''footer''"] comp_def Let_def)
qed

lemma all_puts_keys:
  assumes "distinct (map fst (al_zones lay))"
  shows "map fst (all_puts actions zones lay None) =
    filter (\<lambda>key. \<not> isZoneItemId key \<and> map_of (facts_of actions zones lay None) key \<noteq> None) (layout_items lay)"
  by (simp add: all_puts_def layout_items_groups [OF assms] filter_concat map_concat visit_keys comp_def)

lemma map_of_rev_distinct: "distinct (map fst kvs) \<Longrightarrow> map_of (rev kvs) = map_of kvs"
  by (subst map_of_inject_set) (simp_all add: rev_map [symmetric])

lemma facts_of_action:
  assumes "config_fits actions zones" and "a \<in> set actions"
  shows "map_of (facts_of actions zones lay None) (ac_name a) = Some (action_facts_of zones lay None a)"
proof -
  define kvs where "kvs = map (\<lambda>action. (ac_name action, action_facts_of zones lay None action)) actions"
  have d: "distinct (map fst kvs)" using assms(1) by (simp add: kvs_def config_fits_def comp_def)
  moreover have "(ac_name a, action_facts_of zones lay None a) \<in> set kvs" using assms(2) by (simp add: kvs_def)
  ultimately show ?thesis by (simp add: facts_of_def kvs_def [symmetric] map_of_put_all map_of_rev_distinct)
qed

lemma lu_actions_of:
  assumes "config_fits actions zones" and "layout_fits actions zones lay" and "a \<in> set actions"
  shows "g \<in> set (groupsOf lay) \<Longrightarrow> j < length (listOf lay g) \<Longrightarrow> listOf lay g ! j = ac_name a \<Longrightarrow>
      map_of (lu_actions (buildLayoutUpdates actions lay None zones)) (ac_name a) =
        Some (action_update_for (action_facts_of zones lay None a) g (display_of g) (layer_of g) j)"
    and "ac_name a \<notin> set (layout_items lay) \<Longrightarrow>
      map_of (lu_actions (buildLayoutUpdates actions lay None zones)) (ac_name a) = None"
proof -
  have keys: "distinct (map fst (al_zones lay))" and items: "distinct (layout_items lay)"
    using assms(2) by (auto simp: layout_fits_def layout_wf_def)
  have d: "distinct (map fst (all_puts actions zones lay None))" using items by (simp add: all_puts_keys [OF keys])
  note lu = lu_actions_puts [OF keys, of actions None zones] and f = facts_of_action [OF assms(1,3), of lay]
  have nz: "\<not> isZoneItemId (ac_name a)" using assms(1,3) by (simp add: config_fits_def)
  show "map_of (lu_actions (buildLayoutUpdates actions lay None zones)) (ac_name a) =
      Some (action_update_for (action_facts_of zones lay None a) g (display_of g) (layer_of g) j)"
    if g: "g \<in> set (groupsOf lay)" "j < length (listOf lay g)" "listOf lay g ! j = ac_name a"
  proof -
    have "(ac_name a, action_update_for (action_facts_of zones lay None a) g (display_of g) (layer_of g) j) \<in> set (all_puts actions zones lay None)"
      using visit_mem [of j "listOf lay g" "facts_of actions zones lay None" "action_facts_of zones lay None a" g] g f nz
      by (auto simp: all_puts_def)
    then show ?thesis using d by (simp add: lu map_of_put_all map_of_rev_distinct)
  qed
  show "map_of (lu_actions (buildLayoutUpdates actions lay None zones)) (ac_name a) = None"
    if "ac_name a \<notin> set (layout_items lay)"
  proof -
    have "ac_name a \<notin> fst ` set (all_puts actions zones lay None)"
      using that arg_cong [OF all_puts_keys [OF keys, of actions zones], of set] by auto
    then show ?thesis by (simp add: lu map_of_put_all map_of_eq_None_iff)
  qed
qed

definition action_after :: "action_info list \<Rightarrow> zone_info list \<Rightarrow> actions_layout \<Rightarrow> action_info \<Rightarrow> action_info" where
  "action_after actions zones lay a =
     (case map_of (lu_actions (buildLayoutUpdates actions lay None zones)) (ac_name a) of
        None \<Rightarrow> a | Some update \<Rightarrow> apply_action_update a update)"

lemma apply_update_fields [simp]:
  "ac_name (apply_action_update a u) = ac_name a" "ac_position (apply_action_update a u) = Some (au_position u)"
  "ac_display (apply_action_update a u) = (case au_display u of None \<Rightarrow> ac_display a | Some d \<Rightarrow> d)"
  "ac_layer (apply_action_update a u) = (case au_layer u of None \<Rightarrow> ac_layer a | Some l \<Rightarrow> l)"
  by (auto simp: apply_action_update_def Let_def split: option.splits)

text \<open>Moving an action to a list gives it the display and layer of that list.\<close>

lemma place_after:
  assumes cf: "config_fits actions zones" and lf: "layout_fits actions zones lay" and g: "g \<in> set (groupsOf lay)"
  shows "place zones (apply_action_update a
    (action_update_for (action_facts_of zones lay None a) g (display_of g) (layer_of g) j)) = Some g"
    (is "place zones ?a' = _")
proof (cases "place zones a = Some g")
  case True
  have "af_previous (action_facts_of zones lay None a) = Some g"
    using True groupOfAction_place [OF cf lf, of a] by (simp add: action_facts_of_def Let_def)
  then have same: "ac_display ?a' = ac_display a" "ac_layer ?a' = ac_layer a"
    by (simp_all add: action_update_for_def Let_def)
  have "place zones ?a' = place zones a" unfolding place_def same by (rule refl)
  then show ?thesis using True by simp
next
  case False
  have prev: "af_previous (action_facts_of zones lay None a) \<noteq> Some g"
    using False groupOfAction_place [OF cf lf, of a] by (simp add: action_facts_of_def Let_def)
  then have d: "ac_display ?a' = display_of g" by (simp add: action_update_for_def Let_def)
  have l: "ac_layer ?a' = layer_of g"
  proof (cases "layer_of g")
    case None
    then show ?thesis using prev
      by (cases "ac_layer a = None") (auto simp: action_update_for_def action_facts_of_def Let_def)
  qed (use prev in \<open>simp add: action_update_for_def Let_def\<close>)
  from g show ?thesis
  proof (cases rule: groupsOf_cases)
    case (3 k)
    then have "k \<in> set (concat (map listKeysOfZone zones))" using lf by (auto simp: layout_fits_def)
    then obtain z where z: "z \<in> set zones" "k \<in> set (listKeysOfZone z)" by auto
    have zo: "zone_ok z" using cf z(1) by (simp add: config_fits_def)
    note lk = listKeys_zone [OF zo z(2)]
    have dz: "distinct (map fst (map (\<lambda>zone. (zi_name zone, zone)) zones))" using cf by (simp add: config_fits_def comp_def)
    have "map_of (rev (map (\<lambda>zone. (zi_name zone, zone)) zones)) (zi_name z) = Some z"
      unfolding map_of_rev_distinct [OF dz] using dz z(1) by simp
    moreover have "display_of g = zi_name z" "layer_of g = layerOfListKey k" using 3 lk by (simp_all add: display_of_def layer_of_def)
    ultimately show ?thesis
      unfolding place_def d l using zo lk 3 by (simp add: zone_ok_def isFooterDisplay_def isHeaderDisplay_def)
  next
    case 1
    then have "ac_display ?a' = ''header''" using d by (simp add: display_of_def)
    then show ?thesis unfolding place_def using 1 by (simp only: isFooterDisplay_def isHeaderDisplay_def) simp
  next
    case 2
    then have "ac_display ?a' = ''footer''" using d by (simp add: display_of_def)
    then show ?thesis unfolding place_def using 2 by (simp only: isFooterDisplay_def isHeaderDisplay_def) simp
  qed
qed

lemma action_after_facts:
  assumes "config_fits actions zones" and "layout_fits actions zones lay" and "a \<in> set actions"
  shows "ac_name (action_after actions zones lay a) = ac_name a"
    and "g \<in> set (groupsOf lay) \<Longrightarrow> j < length (listOf lay g) \<Longrightarrow> listOf lay g ! j = ac_name a \<Longrightarrow>
      place zones (action_after actions zones lay a) = Some g \<and>
      ac_position (action_after actions zones lay a) = Some (int j + 1)"
    and "ac_name a \<notin> set (layout_items lay) \<Longrightarrow> action_after actions zones lay a = a"
proof -
  show "ac_name (action_after actions zones lay a) = ac_name a"
    by (simp add: action_after_def split: option.splits)
  show "place zones (action_after actions zones lay a) = Some g \<and>
      ac_position (action_after actions zones lay a) = Some (int j + 1)"
    if "g \<in> set (groupsOf lay)" "j < length (listOf lay g)" "listOf lay g ! j = ac_name a"
    using lu_actions_of(1) [OF assms that] place_after [OF assms(1,2) that(1)]
    by (simp add: action_after_def action_update_for_def Let_def)
  show "action_after actions zones lay a = a" if "ac_name a \<notin> set (layout_items lay)"
    using lu_actions_of(2) [OF assms that] by (simp add: action_after_def)
qed

lemma zone_row_puts_keys: "map fst (zone_row_puts zones None lay row) = map zoneNameOfItem (filter isZoneItemId (row_of lay row))"
proof -
  have "map fst (zone_row_puts zones None lay row) =
      map zoneNameOfItem (map snd (filter (\<lambda>(index, key). isZoneItemId key) (enumerate 0 (row_of lay row))))"
    by (simp add: zone_row_puts_def comp_def split_def Let_def)
  then show ?thesis by (simp only: filter_enumerate)
qed

definition zone_update_for :: "zone_info \<Rightarrow> string \<Rightarrow> nat \<Rightarrow> zone_update" where
  "zone_update_for z row j =
     \<lparr>zu_position = int j + 1, zu_display = (if zoneDisplayOf z = row then None else Some row)\<rparr>"

lemma lu_zones_of:
  assumes cf: "config_fits actions zones" and lf: "layout_fits actions zones lay" and z: "z \<in> set zones"
    and row: "row \<in> {''header'', ''footer''}" and j: "j < length (row_of lay row)"
    and at: "row_of lay row ! j = zoneItemId (zi_name z)"
  shows "map_of (lu_zones (buildLayoutUpdates actions lay None zones)) (zi_name z) = Some (zone_update_for z row j)"
proof -
  define puts where "puts = zone_row_puts zones None lay ''header'' @ zone_row_puts zones None lay ''footer''"
  have items: "distinct (layout_items lay)" using lf by (auto simp: layout_fits_def layout_wf_def)
  have "map fst puts = map zoneNameOfItem (filter isZoneItemId (al_header lay @ al_footer lay))"
    by (simp add: puts_def zone_row_puts_keys row_of_def)
  moreover have "inj_on zoneNameOfItem (set (filter isZoneItemId (al_header lay @ al_footer lay)))"
    by (rule inj_onI) (metis isZoneItemId_eq mem_Collect_eq set_filter)
  moreover have "distinct (al_header lay @ al_footer lay)" using items by (auto simp: layout_items_def)
  ultimately have d: "distinct (map fst puts)"
    by (simp only: distinct_map) (simp only: distinct_filter)
  have dz: "distinct (map fst (map (\<lambda>zone. (zi_name zone, zoneDisplayOf zone)) zones))"
    using cf by (simp add: config_fits_def comp_def)
  have disp: "map_of (put_all (map (\<lambda>zone. (zi_name zone, zoneDisplayOf zone)) zones)) (zi_name z) = Some (zoneDisplayOf z)"
    unfolding map_of_put_all map_of_rev_distinct [OF dz] using dz z by simp
  have "(j, row_of lay row ! j) \<in> set (enumerate 0 (row_of lay row))" using j by (simp add: in_set_enumerate_eq)
  then have "(j, zoneItemId (zi_name z)) \<in> set (filter (\<lambda>(index, key). isZoneItemId key) (enumerate 0 (row_of lay row)))"
    by (simp add: at)
  moreover define Z where "Z = put_all (map (\<lambda>zone. (zi_name zone, zoneDisplayOf zone)) zones)"
  have "zone_row_puts zones None lay row = map (\<lambda>(index, key). (zoneNameOfItem key,
      \<lparr>zu_position = int index + 1, zu_display = (if map_of Z (zoneNameOfItem key) = None \<or>
        map_of Z (zoneNameOfItem key) = Some row then None else Some row)\<rparr>))
      (filter (\<lambda>(index, key). isZoneItemId key) (enumerate 0 (row_of lay row)))"
    by (simp add: zone_row_puts_def Let_def Z_def)
  ultimately have "(zi_name z, zone_update_for z row j) \<in> set (zone_row_puts zones None lay row)"
    using disp by (simp only: set_map) (rule image_eqI [rotated], assumption,
      simp add: zone_update_for_def Z_def del: map_of_eq_Some_iff Some_eq_map_of_iff)
  then have "(zi_name z, zone_update_for z row j) \<in> set puts" using row by (auto simp: puts_def)
  then show ?thesis
    using d by (simp add: buildLayoutUpdates_def Let_def puts_def [symmetric] map_of_put_all map_of_rev_distinct)
qed

definition zone_after :: "action_info list \<Rightarrow> zone_info list \<Rightarrow> actions_layout \<Rightarrow> zone_info \<Rightarrow> zone_info" where
  "zone_after actions zones lay z =
     (case map_of (lu_zones (buildLayoutUpdates actions lay None zones)) (zi_name z) of
        None \<Rightarrow> z | Some update \<Rightarrow> apply_zone_update z update)"

lemma zone_after_same [simp]:
  "zi_name (zone_after actions zones lay z) = zi_name z" "layersOf (zone_after actions zones lay z) = layersOf z"
  by (auto simp: zone_after_def apply_zone_update_def Let_def layersOf_def split: option.splits)

lemma zone_after_facts:
  assumes "config_fits actions zones" and "layout_fits actions zones lay" and "z \<in> set zones"
    and "row \<in> {''header'', ''footer''}" and "j < length (row_of lay row)"
    and "row_of lay row ! j = zoneItemId (zi_name z)"
  shows "zoneDisplayOf (zone_after actions zones lay z) = row \<and> zi_position (zone_after actions zones lay z) = Some (int j + 1)"
  using lu_zones_of [OF assms] assms(4)
  by (auto simp: zone_after_def apply_zone_update_def zone_update_for_def zoneDisplayOf_def Let_def split: if_splits)

section \<open>What is displayed afterwards\<close>

lemma store_actions: "fst (applyActionsLayoutToStore actions zones lay None) =
    sortByPosition action_key (map (action_after actions zones lay) actions)"
  by (simp add: applyActionsLayoutToStore_def applyActionUpdates_def action_after_def [abs_def] Let_def)

lemma zone_row:
  assumes "layout_fits actions zones lay" and "z \<in> set zones"
  obtains row j where "row \<in> {''header'', ''footer''}" "j < length (row_of lay row)"
    "row_of lay row ! j = zoneItemId (zi_name z)"
proof -
  have "zoneItemId (zi_name z) \<in> set (layout_items lay)" "zoneItemId (zi_name z) \<notin> set (zone_items lay)"
    using assms by (auto simp: layout_fits_def layout_wf_def)
  then have "\<exists>row\<in>{''header'', ''footer''}. zoneItemId (zi_name z) \<in> set (row_of lay row)"
    by (auto simp: layout_items_def row_of_def)
  then show ?thesis using that by (metis in_set_conv_nth)
qed

lemma store_zones:
  assumes cf: "config_fits actions zones" and lf: "layout_fits actions zones lay"
  shows "snd (applyActionsLayoutToStore actions zones lay None) =
    sortByPosition zone_key (map (zone_after actions zones lay) zones)"
proof (cases "lu_zones (buildLayoutUpdates actions lay None zones) = []")
  case True
  have "zones = []"
  proof (rule ccontr)
    assume "zones \<noteq> []"
    then obtain z where z: "z \<in> set zones" by (cases zones) auto
    obtain row j where "row \<in> {''header'', ''footer''}" "j < length (row_of lay row)"
      "row_of lay row ! j = zoneItemId (zi_name z)" by (rule zone_row [OF lf z])
    from lu_zones_of [OF cf lf z this] True show False by simp
  qed
  with True show ?thesis by (simp add: applyActionsLayoutToStore_def Let_def sortByPosition_def)
next
  case False
  then show ?thesis
    by (simp add: applyActionsLayoutToStore_def applyZoneUpdates_def zone_after_def [abs_def] Let_def)
qed

lemma place_zones_after:
  assumes "distinct (map zi_name zones)" and "set zones' = f ` set zones" and "distinct (map zi_name zones')"
    and "\<And>z. zi_name (f z) = zi_name z" and "\<And>z. layersOf (f z) = layersOf z"
  shows "place zones' a = place zones a"
proof -
  define m where "m zs = map_of (rev (map (\<lambda>zone :: zone_info. (zi_name zone, zone)) zs))" for zs
  have look: "m zs d = Some z \<longleftrightarrow> z \<in> set zs \<and> zi_name z = d" if "distinct (map zi_name zs)" for zs d z
  proof -
    have "distinct (map fst (map (\<lambda>zone :: zone_info. (zi_name zone, zone)) zs))" using that by (simp add: comp_def)
    then show ?thesis by (auto simp: m_def map_of_rev_distinct)
  qed
  have "m zones' d = map_option f (m zones d)" for d
  proof (cases "m zones d")
    case None
    then have "zi_name z \<noteq> d" if "z \<in> set zones" for z using that look [OF assms(1)] by (metis option.distinct(1))
    then have "m zones' d = None" using look [OF assms(3)] assms(2,4) by (metis (no_types, lifting) imageE not_Some_eq)
    then show ?thesis using None by simp
  next
    case (Some z)
    then have "f z \<in> set zones'" "zi_name (f z) = d" using look [OF assms(1)] assms(2,4) by auto
    then have "m zones' d = Some (f z)" using look [OF assms(3)] by blast
    then show ?thesis using Some by simp
  qed
  moreover have "listKeyForAction (f z) l = listKeyForAction z l" for z l
    unfolding listKeyForAction_def assms(4,5) by (rule refl)
  ultimately show ?thesis
    unfolding place_def m_def [symmetric] by (simp add: option.case_eq_if map_option_is_None option.map_sel)
qed

lemma distinct_mapI: "distinct (map f xs) \<Longrightarrow> distinct xs"
  by (simp add: distinct_map)

lemma increasing_positions:
  "sorted_wrt (\<lambda>x y. comparePosition (fst x) (fst y) < 0)
    (map (\<lambda>(j, i). ((nm i, Some (int j + 1)), i)) (enumerate n L))"
proof (induction L arbitrary: n)
  case (Cons i L)
  have "\<forall>y\<in>set (enumerate (Suc n) L). Suc n \<le> fst y" by (auto simp: in_set_enumerate_eq)
  with Cons [of "Suc n"] show ?case by (auto simp: then_compare_def)
qed simp

text \<open>The items of one list, after the update, sort into that list.\<close>

lemma entries_after:
  fixes actions zones lay
  defines "acts' \<equiv> fst (applyActionsLayoutToStore actions zones lay None)"
    and "zones' \<equiv> snd (applyActionsLayoutToStore actions zones lay None)"
  assumes cf: "config_fits actions zones" and lf: "layout_fits actions zones lay" and g: "g \<in> set (groupsOf lay)"
  shows "map snd (sortByPosition fst (row_entries acts' zones' g)) = listOf lay g"
proof -
  define nm where "nm i = (if isZoneItemId i then zoneNameOfItem i else i)" for i
  define L where "L = listOf lay g"
  define ys where "ys = map (\<lambda>(j, i). ((nm i, Some (int j + 1)), i)) (enumerate 0 L)"
  have wf: "layout_wf lay" and keys: "distinct (map fst (al_zones lay))" and items: "distinct (layout_items lay)"
    and nz: "\<forall>i\<in>set (zone_items lay). \<not> isZoneItemId i"
    using lf by (auto simp: layout_fits_def layout_wf_def)
  have all: "set (layout_items lay) = ac_name ` {a \<in> set actions. ac_display a \<noteq> ''menu''} \<union> (zoneItemId \<circ> zi_name) ` set zones"
    using lf by (simp add: layout_fits_def)
  have an: "\<not> isZoneItemId (ac_name a)" if "a \<in> set actions" for a using cf that by (simp add: config_fits_def)
  have A: "set acts' = action_after actions zones lay ` set actions"
    by (simp add: acts'_def store_actions sortByPosition_def)
  have Z: "set zones' = zone_after actions zones lay ` set zones"
    by (simp add: zones'_def store_zones [OF cf lf] sortByPosition_def)
  have dzones: "distinct (map zi_name zones)" using cf by (simp add: config_fits_def)
  have "mset (map zi_name zones') = mset (map zi_name zones)"
    unfolding mset_map by (simp add: zones'_def store_zones [OF cf lf] sortByPosition_def image_mset.compositionality comp_def)
  then have dz': "distinct (map zi_name zones')" using dzones mset_eq_imp_distinct_iff by blast
  have "mset (map ac_name acts') = mset (map ac_name (map (action_after actions zones lay) actions))"
    unfolding mset_map by (simp add: acts'_def store_actions sortByPosition_def)
  also have "map ac_name (map (action_after actions zones lay) actions) = map ac_name actions"
    using action_after_facts(1) [OF cf lf] by simp
  finally have da': "distinct (map ac_name acts')" using cf mset_eq_imp_distinct_iff unfolding config_fits_def by blast
  have pl: "place zones' a = place zones a" for a
    by (rule place_zones_after [OF dzones Z dz']) simp_all
  have itemsL: "set L \<subseteq> set (layout_items lay)"
    using g by (auto simp: layout_items_groups [OF keys] L_def)
  have ysI: "((nm (L ! j), Some (int j + 1)), L ! j) \<in> set ys" if "j < length L" for j
  proof -
    have "(j, L ! j) \<in> set (enumerate 0 L)" using that by (simp add: in_set_enumerate_eq)
    then show ?thesis unfolding ys_def set_map by (rule image_eqI [rotated]) simp
  qed
  have sub1: "e \<in> set ys" if "e \<in> set (row_entries acts' zones' g)" for e
  proof -
    from that consider a where "a \<in> set actions" "place zones' (action_after actions zones lay a) = Some g"
        "e = (action_key (action_after actions zones lay a), ac_name (action_after actions zones lay a))"
      | z where "z \<in> set zones" "zoneDisplayOf (zone_after actions zones lay z) = g"
        "e = (zone_key (zone_after actions zones lay z), zoneItemId (zi_name z))"
      by (auto simp: row_entries_def in_list_def A Z)
    then show ?thesis
    proof cases
      case (1 a)
      have "ac_name a \<in> set (layout_items lay)"
      proof (rule ccontr)
        assume out: "ac_name a \<notin> set (layout_items lay)"
        then have "action_after actions zones lay a = a" by (rule action_after_facts(3) [OF cf lf 1(1)])
        moreover have "ac_display a = ''menu''" using out all 1(1) by auto
        ultimately show False using 1(2) by (metis option.distinct(1) place_None)
      qed
      then obtain g' where g': "g' \<in> set (groupsOf lay)" "ac_name a \<in> set (listOf lay g')"
        by (auto simp: layout_items_groups [OF keys])
      then obtain j where j: "j < length (listOf lay g')" "listOf lay g' ! j = ac_name a" by (metis in_set_conv_nth)
      note after = action_after_facts(2) [OF cf lf 1(1) g'(1) j]
      have "g' = g" using after 1(2) pl by simp
      then have jL: "j < length L" "L ! j = ac_name a" using j by (simp_all add: L_def)
      have "e = ((nm (L ! j), Some (int j + 1)), L ! j)"
        using after 1(3) an [OF 1(1)] action_after_facts(1) [OF cf lf 1(1)] jL(2)
        by (simp add: action_key_def nm_def)
      then show ?thesis using ysI [OF jL(1)] by simp
    next
      case (2 z)
      obtain row j where row: "row \<in> {''header'', ''footer''}" "j < length (row_of lay row)"
        "row_of lay row ! j = zoneItemId (zi_name z)" by (rule zone_row [OF lf 2(1)])
      note after = zone_after_facts [OF cf lf 2(1) row]
      have "row = g" using after 2(2) by simp
      then have "row_of lay row = L" using row(1) row_listOf by (auto simp: L_def)
      then have jL: "j < length L" "L ! j = zoneItemId (zi_name z)" using row by simp_all
      have "e = ((nm (L ! j), Some (int j + 1)), L ! j)"
        using after 2(3) jL(2) by (simp add: zone_key_def nm_def)
      then show ?thesis using ysI [OF jL(1)] by simp
    qed
  qed
  have sub2: "e \<in> set (row_entries acts' zones' g)" if "e \<in> set ys" for e
  proof -
    have "e \<in> set ys" by (rule that)
    then obtain j i where p: "(j, i) \<in> set (enumerate 0 L)" and ep: "e = ((nm i, Some (int j + 1)), i)"
      by (auto simp: ys_def)
    have j: "j < length L" and e: "e = ((nm (L ! j), Some (int j + 1)), L ! j)"
      using p ep by (simp_all add: in_set_enumerate_eq)
    have "L ! j \<in> set (layout_items lay)" using j itemsL nth_mem by blast
    then consider a where "a \<in> set actions" "L ! j = ac_name a" | z where "z \<in> set zones" "L ! j = zoneItemId (zi_name z)"
      using all by auto
    then show ?thesis
    proof cases
      case (1 a)
      have "listOf lay g ! j = ac_name a" using 1(2) by (simp add: L_def)
      note after = action_after_facts(2) [OF cf lf 1(1) g j [unfolded L_def] this]
      have "e = (action_key (action_after actions zones lay a), ac_name (action_after actions zones lay a))"
        using e 1 after an [OF 1(1)] action_after_facts(1) [OF cf lf 1(1)] by (simp add: action_key_def nm_def)
      then show ?thesis using after 1(1) by (auto simp: row_entries_def in_list_def A pl)
    next
      case (2 z)
      have "\<not> isZoneGroup g"
      proof
        assume "isZoneGroup g"
        then have "zoneItemId (zi_name z) \<in> set (zone_items lay)"
          using in_zone_items [OF keys, of "zoneItemId (zi_name z)"] g j 2(2) nth_mem [OF j] by (auto simp: L_def)
        then show False using nz by auto
      qed
      then have row: "g \<in> {''header'', ''footer''}" using g by (auto elim: groupsOf_cases)
      then have "row_of lay g = L" using row_listOf by (auto simp: L_def)
      then have "j < length (row_of lay g)" "row_of lay g ! j = zoneItemId (zi_name z)" using j 2(2) by simp_all
      note after = zone_after_facts [OF cf lf 2(1) row this]
      have "e = (zone_key (zone_after actions zones lay z), zoneItemId (zi_name z))"
        using e 2 after by (simp add: zone_key_def nm_def)
      then show ?thesis using after 2(1) by (auto simp: row_entries_def Z image_iff)
    qed
  qed
  have dL: "distinct L"
    using items g by (auto simp: layout_items_groups [OF keys] L_def distinct_concat_iff)
  have snd_ys: "map snd ys = L"
    by (simp add: ys_def comp_def split_def)
  have "distinct ys" using dL by (metis distinct_mapI snd_ys)
  moreover have "distinct (row_entries acts' zones' g)"
  proof -
    have "distinct (map ac_name (in_list zones' g acts'))" using da' by (simp add: in_list_def distinct_map_filter)
    moreover have "distinct (map (\<lambda>z. zoneItemId (zi_name z)) (filter (\<lambda>zone. zoneDisplayOf zone = g) zones'))"
      using dz' by (simp add: distinct_map_filter distinct_map inj_on_def)
    moreover have "isZoneItemId (zoneItemId n)" for n by simp
    moreover have "\<not> isZoneItemId (ac_name a)" if "a \<in> set acts'" for a
      using that an action_after_facts(1) [OF cf lf] by (auto simp: A)
    ultimately have "distinct (map snd (row_entries acts' zones' g))"
      by (fastforce simp: row_entries_def comp_def in_list_def)
    then show ?thesis by (rule distinct_mapI)
  qed
  moreover have "set (row_entries acts' zones' g) = set ys" using sub1 sub2 by blast
  ultimately have "mset (row_entries acts' zones' g) = mset ys" by (simp add: set_eq_iff_mset_eq_distinct)
  moreover have "sorted_wrt (\<lambda>x y. comparePosition (fst x) (fst y) < 0) ys"
    unfolding ys_def by (rule increasing_positions)
  ultimately have "sortByPosition fst (row_entries acts' zones' g) = ys"
    unfolding sortByPosition_def by (intro js_compare.sort_by_unique [OF keyed])
  then show ?thesis using snd_ys by (simp add: L_def)
qed

lemma layout_after:
  fixes actions zones lay
  defines "acts' \<equiv> fst (applyActionsLayoutToStore actions zones lay None)"
    and "zones' \<equiv> snd (applyActionsLayoutToStore actions zones lay None)"
  assumes cf: "config_fits actions zones" and lf: "layout_fits actions zones lay"
  shows "sameLayout (am_layout (buildActionsModel acts' zones')) lay"
proof -
  define new where "new = am_layout (buildActionsModel acts' zones')"
  have wf: "layout_wf lay" and keys: "distinct (map fst (al_zones lay))"
    and ks: "set (map fst (al_zones lay)) = set (concat (map listKeysOfZone zones))"
    using lf by (auto simp: layout_fits_def layout_wf_def)
  note entries = entries_after [OF cf lf, folded acts'_def zones'_def]
  have h: "al_header new = al_header lay" and f: "al_footer new = al_footer lay"
    using entries [of "''header''"] entries [of "''footer''"]
    by (simp_all add: new_def build_layout groupsOf_def listOf_def)
  have keysame: "listKeysOfZone (zone_after actions zones lay z) = listKeysOfZone z" for z
    unfolding listKeysOfZone_def zone_after_same by (rule refl)
  have ks': "set (concat (map listKeysOfZone zones')) = set (concat (map listKeysOfZone zones))"
    by (simp add: zones'_def store_zones [OF cf lf] sortByPosition_def keysame)
  have inl: "map ac_name (in_list zones' (zoneGroup k) acts') = listOf lay (zoneGroup k)"
    if k: "k \<in> set (map fst (al_zones lay))" for k
  proof -
    have g: "zoneGroup k \<in> set (groupsOf lay)" using k by (auto simp: groupsOf_def)
    have "filter (\<lambda>zone. zoneDisplayOf zone = zoneGroup k) zones' = []"
      by (auto simp: filter_empty_conv zoneDisplayOf_def)
    then have "map snd (sortByPosition fst (row_entries acts' zones' (zoneGroup k))) =
        map ac_name (sort_by (\<lambda>a b. comparePosition (action_key a) (action_key b)) (in_list zones' (zoneGroup k) acts'))"
      by (simp add: row_entries_def sortByPosition_def sort_by_map comp_def)
    also have "sort_by (\<lambda>a b. comparePosition (action_key a) (action_key b)) (in_list zones' (zoneGroup k) acts') =
        in_list zones' (zoneGroup k) acts'"
      unfolding acts'_def store_actions sortByPosition_def in_list_def js_compare.filter_sort_by [OF keyed]
      by (rule js_compare.sort_by_idem [OF keyed])
    finally show ?thesis using entries [OF g] by simp
  qed
  have z: "al_zones new = put_all (map (\<lambda>k. (k, map ac_name (in_list zones' (zoneGroup k) acts'))) (concat (map listKeysOfZone zones')))"
    by (simp only: new_def build_layout)
  have "map_of (al_zones new) k = map_of (al_zones lay) k" for k
  proof (cases "k \<in> set (map fst (al_zones lay))")
    case True
    then have "map_of (al_zones new) k = Some (listOf lay (zoneGroup k))"
      using ks ks' inl [OF True] by (simp only: z map_of_put_all_const) simp
    moreover obtain ids where "map_of (al_zones lay) k = Some ids" using True by (metis map_of_eq_None_iff not_Some_eq set_map)
    ultimately show ?thesis by (simp add: listOf_def)
  next
    case False
    then have "map_of (al_zones new) k = None" using ks ks' by (simp only: z map_of_put_all_const) simp
    then show ?thesis using False by (simp add: map_of_eq_None_iff [THEN iffD2])
  qed
  then have maps: "map_of (al_zones new) = map_of (al_zones lay)" by (rule ext)
  have "distinct (map fst (al_zones new))" by (simp only: z put_all_keys)
  from same_layoutI [OF h f maps this keys] show ?thesis by (simp only: new_def)
qed


section \<open>What is left alone\<close>

lemma visit_touched:
  assumes "(n, u) \<in> set (visit facts before keys g d l)"
  shows "\<exists>j<length keys. keys ! j = n \<and> au_position u = int j + 1 \<and> map_of facts n \<noteq> None \<and>
    \<not> untouched keys (start_list before g)"
proof -
  have t: "\<not> untouched keys (start_list before g)" using assms by (auto simp: visit_def)
  with assms obtain j where "(j, n) \<in> set (enumerate 0 keys)" "map_of facts n \<noteq> None"
    and u: "u = action_update_for (the (map_of facts n)) g d l j"
    by (auto simp: visit_def)
  then have "j < length keys" "keys ! j = n" by (simp_all add: in_set_enumerate_eq)
  moreover have "au_position u = int j + 1" by (simp add: u action_update_for_def Let_def)
  ultimately show ?thesis using t \<open>map_of facts n \<noteq> None\<close> by blast
qed

lemma start_list_self:
  assumes "g \<in> set (groupsOf lay)"
  shows "start_list (Some lay) g = Some (listOf lay g)"
  using assms
proof (cases rule: groupsOf_cases)
  case (3 k)
  then obtain ids where "map_of (al_zones lay) k = Some ids" by (metis map_of_eq_None_iff not_Some_eq)
  with 3 show ?thesis by (simp add: start_list_def listOf_def)
qed (simp_all add: start_list_def row_of_def listOf_def)

text \<open>Saving a drag writes only what it changed. With the layout the drag started
  from, every action written is one of the configuration, at its place in a list the drag changed,
  and a drag that changed nothing writes nothing.\<close>

theorem drag_writes_changes:
  assumes "layout_wf lay"
  shows "(map_of (lu_actions (buildLayoutUpdates actions lay (Some start) zones)) n = Some u \<longrightarrow>
      (\<exists>g\<in>set (groupsOf lay). \<exists>j<length (listOf lay g). listOf lay g ! j = n \<and> au_position u = int j + 1 \<and>
        start_list (Some start) g \<noteq> Some (listOf lay g) \<and> n \<in> ac_name ` set actions)) \<and>
    lu_actions (buildLayoutUpdates actions lay (Some lay) zones) = [] \<and>
    lu_zones (buildLayoutUpdates actions lay (Some lay) zones) = []"
proof -
  have keys: "distinct (map fst (al_zones lay))" using assms by (simp add: layout_wf_def)
  have written: "\<exists>g\<in>set (groupsOf lay). \<exists>j<length (listOf lay g). listOf lay g ! j = m \<and> au_position v = int j + 1 \<and>
      start_list (Some b) g \<noteq> Some (listOf lay g) \<and> m \<in> ac_name ` set actions"
    if mv: "map_of (lu_actions (buildLayoutUpdates actions lay (Some b) zones)) m = Some v" for b m v
  proof -
    have "(m, v) \<in> set (all_puts actions zones lay (Some b))"
      using mv map_of_SomeD [of "rev (all_puts actions zones lay (Some b))" m v]
      by (simp add: lu_actions_puts [OF keys] map_of_put_all)
    then obtain g where g: "g \<in> set (groupsOf lay)"
      "(m, v) \<in> set (visit (facts_of actions zones lay (Some b)) (Some b) (listOf lay g) g (display_of g) (layer_of g))"
      by (auto simp: all_puts_def)
    from visit_touched [OF g(2)] obtain j where j: "j < length (listOf lay g)" "listOf lay g ! j = m"
      "au_position v = int j + 1" "map_of (facts_of actions zones lay (Some b)) m \<noteq> None"
      "\<not> untouched (listOf lay g) (start_list (Some b) g)" by blast
    have "m \<in> ac_name ` set actions"
      using j(4) by (auto simp: facts_of_def map_of_put_all map_of_eq_None_iff)
    then show ?thesis using g(1) j by (auto simp: untouched_def)
  qed
  have "lu_actions (buildLayoutUpdates actions lay (Some lay) zones) = []"
  proof (cases "lu_actions (buildLayoutUpdates actions lay (Some lay) zones)")
    case (Cons kv kvs)
    obtain k v where "kv = (k, v)" by (cases kv)
    then have "map_of (lu_actions (buildLayoutUpdates actions lay (Some lay) zones)) k = Some v" by (simp add: Cons)
    from written [OF this] start_list_self show ?thesis by blast
  qed
  moreover have "lu_zones (buildLayoutUpdates actions lay (Some lay) zones) = []"
    by (simp add: buildLayoutUpdates_def zone_row_puts_def untouched_def put_all_def Let_def)
  ultimately show ?thesis using written by blast
qed

section \<open>An example\<close>

definition example_layout :: actions_layout where
  "example_layout = \<lparr>al_header = [''@zone/ops''], al_footer = [''logs'', ''test''],
     al_zones = [(''ops/a'', []), (''ops/b'', [''build''])]\<rparr>"

lemma example_fits: "config_fits example_actions example_zones" "layout_fits example_actions example_zones example_layout"
  by code_simp+


theorem drag_writes_changes_witness:
  "lu_actions (buildLayoutUpdates example_actions example_layout (Some example_layout) example_zones) = []"
proof -
  have "layout_wf example_layout" by code_simp
  from drag_writes_changes [OF this] show ?thesis by blast
qed

end
