(* ===== verification/LocalClock.thy ===== *)
theory LocalClock
  imports JsPrelude
begin

text \<open>
  What the schedule code uses of JavaScript's \<open>Date\<close>: the proleptic Gregorian calendar of the
  language's specification, and the local time zone as a parameter, a pair of functions between
  epoch seconds and local seconds. A \<open>Date\<close> is its time in whole seconds, since the code only
  builds dates of whole minutes. \<open>clock_ok\<close> is what the code relies on: every local day exists
  and a time the zone skips is moved within its day, the local day never goes back, and a day opens with its
  midnight.
\<close>

section \<open>The calendar\<close>

definition leap :: "int \<Rightarrow> bool" where
  "leap y = (y mod 4 = 0 \<and> (y mod 100 \<noteq> 0 \<or> y mod 400 = 0))"

text \<open>The day number of 1 January, counted from 1 January 1970.\<close>

definition year_start :: "int \<Rightarrow> int" where
  "year_start y = 365 * (y - 1970) + (y - 1969) div 4 - (y - 1901) div 100 + (y - 1601) div 400"

definition year_of :: "int \<Rightarrow> int" where
  "year_of day =
     (let y = 1970 + (400 * day) div 146097
      in if day < year_start y then y - 1 else if year_start (y + 1) \<le> day then y + 1 else y)"

definition month_lengths :: "bool \<Rightarrow> int list" where
  "month_lengths lp = [31, if lp then 29 else 28, 31, 30, 31, 30, 31, 31, 30, 31, 30, 31]"

definition month_start :: "bool \<Rightarrow> nat \<Rightarrow> int" where
  "month_start lp m = sum_list (take m (month_lengths lp))"

text \<open>Month (from 0) and date of a day of the year (from 0).\<close>

fun split_months :: "int list \<Rightarrow> nat \<Rightarrow> int \<Rightarrow> nat \<times> int" where
  "split_months [] m n = (m, n + 1)"
| "split_months (l # ls) m n = (if n < l then (m, n + 1) else split_months ls (Suc m) (n - l))"

definition month_and_date :: "int \<Rightarrow> nat \<times> int" where
  "month_and_date day =
     (let y = year_of day in split_months (month_lengths (leap y)) 0 (day - year_start y))"

definition month_of :: "int \<Rightarrow> nat" where "month_of day = fst (month_and_date day)"
definition date_of :: "int \<Rightarrow> int" where "date_of day = snd (month_and_date day)"
definition weekday_of_day :: "int \<Rightarrow> int" where "weekday_of_day day = (day + 4) mod 7"

text \<open>The day of a year, a month (from 0, any integer) and a date (any integer).\<close>

definition make_day :: "int \<Rightarrow> int \<Rightarrow> int \<Rightarrow> int" where
  "make_day y m d =
     (let y' = y + m div 12 in year_start y' + month_start (leap y') (nat (m mod 12)) + d - 1)"

lemma div_step: "0 < n \<Longrightarrow> (a + 1) div n = a div n + (if (a + 1) mod n = 0 then 1 else 0)" for a n :: int
proof -
  assume n: "0 < n"
  have a: "a = n * (a div n) + a mod n" "0 \<le> a mod n" "a mod n < n" using n by simp_all
  show ?thesis
  proof (cases "a mod n = n - 1")
    case True
    have "a + 1 = n * (a div n + 1)" unfolding distrib_left using a(1) True by linarith
    then have "(a + 1) div n = a div n + 1" "(a + 1) mod n = 0" using n by simp_all
    then show ?thesis by simp
  next
    case False
    have "a + 1 = n * (a div n) + (a mod n + 1)" using a(1) by linarith
    moreover have "0 \<le> a mod n + 1" "a mod n + 1 < n" using a False by linarith+
    ultimately have "(a + 1) div n = a div n" "(a + 1) mod n = a mod n + 1"
      by (rule int_div_pos_eq, rule int_mod_pos_eq)
    then show ?thesis using a(2) by simp
  qed
qed

lemma year_start_step: "year_start (y + 1) = year_start y + (if leap y then 366 else 365)"
proof -
  have "y - 1969 + 1 = y + (- 492) * 4" "y - 1901 + 1 = y + (- 19) * 100" "y - 1601 + 1 = y + (- 4) * 400"
    by simp_all
  then have m: "(y - 1969 + 1) mod 4 = 0 \<longleftrightarrow> y mod 4 = 0" "(y - 1901 + 1) mod 100 = 0 \<longleftrightarrow> y mod 100 = 0"
    "(y - 1601 + 1) mod 400 = 0 \<longleftrightarrow> y mod 400 = 0" by (simp_all only: mod_mult_self1)
  have e4: "(y - 1969 + 1) div 4 = (y - 1969) div 4 + (if y mod 4 = 0 then 1 else 0)"
    using div_step [of 4 "y - 1969"] unfolding m by linarith
  have e100: "(y - 1901 + 1) div 100 = (y - 1901) div 100 + (if y mod 100 = 0 then 1 else 0)"
    using div_step [of 100 "y - 1901"] unfolding m by linarith
  have e400: "(y - 1601 + 1) div 400 = (y - 1601) div 400 + (if y mod 400 = 0 then 1 else 0)"
    using div_step [of 400 "y - 1601"] unfolding m by linarith
  have s: "y + 1 - 1969 = y - 1969 + 1" "y + 1 - 1901 = y - 1901 + 1" "y + 1 - 1601 = y - 1601 + 1" by linarith+
  have "y mod 400 mod 100 = y mod 100" "y mod 100 mod 4 = y mod 4"
    by (rule mod_mod_cancel, simp)+
  then have d: "y mod 400 = 0 \<longrightarrow> y mod 100 = 0" "y mod 100 = 0 \<longrightarrow> y mod 4 = 0"
    by (metis mod_0)+
  have arith: "Y + 365 + (A + (if p then 1 else 0)) - (B + (if q then 1 else 0)) + (C + (if r then 1 else 0)) =
      Y + A - B + C + (if p \<and> (\<not> q \<or> r) then 366 else 365)"
    if "r \<longrightarrow> q" "q \<longrightarrow> p" for Y A B C :: int and p q r
    using that by (cases p; cases q; cases r) simp_all
  have y: "365 * (y + 1 - 1970) = 365 * (y - 1970) + 365" by presburger
  show ?thesis
    unfolding year_start_def leap_def s e4 e100 e400 y by (rule arith [OF d])
qed

lemma year_start_less: "y < z \<Longrightarrow> year_start y + 365 \<le> year_start z"
proof (induction "nat (z - y - 1)" arbitrary: z)
  case 0
  then have "z = y + 1" by simp
  then show ?case by (simp add: year_start_step)
next
  case (Suc n)
  then have "year_start y + 365 \<le> year_start (z - 1)" by simp
  then show ?case using year_start_step [of "z - 1"] by (simp split: if_splits)
qed

lemma year_start_mono: "y \<le> z \<Longrightarrow> year_start y \<le> year_start z"
  using year_start_less [of y z] by (cases "y = z") simp_all

lemma year_start_bounds:
  "146097 * y - 287811596 \<le> 400 * year_start y" "400 * year_start y \<le> 146097 * y - 287810501"
proof -
  define A B C where "A = (y - 1969) div 4" and "B = (y - 1901) div 100" and "C = (y - 1601) div 400"
  have "4 * A + (y - 1969) mod 4 = y - 1969" "100 * B + (y - 1901) mod 100 = y - 1901"
    "400 * C + (y - 1601) mod 400 = y - 1601" unfolding A_def B_def C_def by (rule mult_div_mod_eq)+
  moreover have "0 \<le> (y - 1969) mod 4" "(y - 1969) mod 4 < 4" "0 \<le> (y - 1901) mod 100"
    "(y - 1901) mod 100 < 100" "0 \<le> (y - 1601) mod 400" "(y - 1601) mod 400 < 400"
    by (rule pos_mod_sign pos_mod_bound, simp)+
  moreover have "400 * year_start y = 146000 * y - 287620000 + 400 * A - 400 * B + 400 * C"
    unfolding year_start_def A_def [symmetric] B_def [symmetric] C_def [symmetric] by simp
  ultimately show "146097 * y - 287811596 \<le> 400 * year_start y"
    "400 * year_start y \<le> 146097 * y - 287810501" by linarith+
qed

lemma year_of_bounds: "year_start (year_of day) \<le> day \<and> day < year_start (year_of day + 1)"
proof -
  define k where "k = (400 * day) div 146097"
  define y where "y = 1970 + k"
  have "146097 * k + (400 * day) mod 146097 = 400 * day" unfolding k_def by (rule mult_div_mod_eq)
  moreover have "0 \<le> (400 * day) mod 146097" "(400 * day) mod 146097 < 146097"
    by (rule pos_mod_sign pos_mod_bound, simp)+
  ultimately have k: "146097 * k \<le> 400 * day" "400 * day < 146097 * k + 146097" by linarith+
  have low: "year_start (y - 1) \<le> day"
  proof -
    have "400 * year_start (y - 1) \<le> 146097 * k - 145508"
      using year_start_bounds(2) [of "y - 1"] unfolding y_def by (simp add: algebra_simps)
    then show ?thesis using k(1) by linarith
  qed
  have high: "day < year_start (y + 2)"
  proof -
    have "146097 * k + 291688 \<le> 400 * year_start (y + 2)"
      using year_start_bounds(1) [of "y + 2"] unfolding y_def by (simp add: algebra_simps)
    then show ?thesis using k(2) by linarith
  qed
  have eq: "year_of day = (if day < year_start y then y - 1 else if year_start (y + 1) \<le> day then y + 1 else y)"
    unfolding year_of_def Let_def y_def k_def by (rule refl)
  consider "day < year_start y" | "year_start y \<le> day" "year_start (y + 1) \<le> day"
    | "year_start y \<le> day" "day < year_start (y + 1)" by linarith
  then show ?thesis
    by cases (use low high in \<open>simp_all add: eq add.assoc\<close>)
qed

lemma year_of_unique:
  assumes "year_start y \<le> day" and "day < year_start (y + 1)"
  shows "year_of day = y"
proof (rule antisym)
  show "year_of day \<le> y"
  proof (rule ccontr)
    assume "\<not> year_of day \<le> y"
    then have "year_start (y + 1) \<le> year_start (year_of day)" by (intro year_start_mono) simp
    then show False using assms year_of_bounds [of day] by linarith
  qed
  show "y \<le> year_of day"
  proof (rule ccontr)
    assume "\<not> y \<le> year_of day"
    then have "year_start (year_of day + 1) \<le> year_start y" by (intro year_start_mono) simp
    then show False using assms year_of_bounds [of day] by linarith
  qed
qed

lemma year_of_mono: "a \<le> b \<Longrightarrow> year_of a \<le> year_of b"
proof (rule ccontr)
  assume "a \<le> b" and "\<not> year_of a \<le> year_of b"
  then have "year_start (year_of b + 1) \<le> year_start (year_of a)" by (intro year_start_mono) simp
  then show False using year_of_bounds [of a] year_of_bounds [of b] \<open>a \<le> b\<close> by linarith
qed

section \<open>Months\<close>

lemma split_months_spec:
  assumes "0 \<le> n" and "n < sum_list ls" and "split_months ls m n = (m', d)"
  shows "\<exists>i<length ls. m' = m + i \<and> n = sum_list (take i ls) + d - 1 \<and> 1 \<le> d \<and> d \<le> ls ! i"
  using assms
proof (induction ls arbitrary: m n)
  case (Cons l ls)
  show ?case
  proof (cases "n < l")
    case True
    with Cons.prems have "m' = m" "d = n + 1" by auto
    with True Cons.prems show ?thesis by (intro exI [of _ 0]) auto
  next
    case False
    with Cons.prems have "0 \<le> n - l" "n - l < sum_list ls" "split_months ls (Suc m) (n - l) = (m', d)" by auto
    from Cons.IH [OF this] obtain i where "i < length ls" "m' = Suc m + i" "n - l = sum_list (take i ls) + d - 1"
      "1 \<le> d" "d \<le> ls ! i" by blast
    then show ?thesis by (intro exI [of _ "Suc i"]) auto
  qed
qed simp

lemma split_months_of:
  assumes "i < length ls" and "\<forall>l\<in>set ls. 0 \<le> l" and "1 \<le> d" and "d \<le> ls ! i"
  shows "split_months ls m (sum_list (take i ls) + d - 1) = (m + i, d)"
  using assms
proof (induction ls arbitrary: m i)
  case (Cons l ls)
  show ?case
  proof (cases i)
    case (Suc k)
    have "0 \<le> sum_list (take k ls)" using Cons.prems(2) by (intro sum_list_nonneg) (auto dest: in_set_takeD)
    moreover have "sum_list (take k ls) + d - 1 = l + sum_list (take k ls) + d - 1 - l" by simp
    ultimately show ?thesis using Suc Cons.IH [of k "Suc m"] Cons.prems by (simp add: add.assoc add_diff_eq)
  qed (use Cons.prems in simp)
qed simp

lemma month_lengths_facts [simp]:
  "length (month_lengths lp) = 12" "sum_list (month_lengths lp) = (if lp then 366 else 365)"
  "\<forall>l\<in>set (month_lengths lp). 0 \<le> l"
  by (simp_all add: month_lengths_def)

lemma month_start_bounds:
  assumes "m < 12"
  shows "0 \<le> month_start lp m \<and> month_start lp m + month_lengths lp ! m \<le> (if lp then 366 else 365)"
  using assms by (auto simp: month_start_def month_lengths_def numeral_eq_Suc less_Suc_eq)

text \<open>A valid date and the day it makes determine each other.\<close>

lemma month_and_date_make:
  assumes "m < 12" and "1 \<le> d" and "d \<le> month_lengths (leap y) ! m"
  shows "year_of (make_day y (int m) d) = y" and "month_of (make_day y (int m) d) = m"
    and "date_of (make_day y (int m) d) = d"
proof -
  have day: "make_day y (int m) d = year_start y + (month_start (leap y) m + d - 1)"
    using assms(1) by (simp add: make_day_def)
  note b = month_start_bounds [OF assms(1), of "leap y"]
  have y: "year_of (make_day y (int m) d) = y"
    by (rule year_of_unique) (use b assms(2,3) in \<open>auto simp: day year_start_step split: if_splits\<close>)
  then show "year_of (make_day y (int m) d) = y" .
  have "month_and_date (make_day y (int m) d) = (m, d)"
    using split_months_of [of m "month_lengths (leap y)" d 0] assms
    by (simp add: month_and_date_def y) (simp add: day month_start_def)
  then show "month_of (make_day y (int m) d) = m" "date_of (make_day y (int m) d) = d"
    by (simp_all add: month_of_def date_of_def)
qed

lemma month_and_date_day:
  "month_of day < 12" "1 \<le> date_of day" "date_of day \<le> month_lengths (leap (year_of day)) ! month_of day"
  "make_day (year_of day) (int (month_of day)) (date_of day) = day"
proof -
  define y where "y = year_of day"
  have n: "0 \<le> day - year_start y" "day - year_start y < sum_list (month_lengths (leap y))"
    using year_of_bounds [of day] year_start_step [of y] by (auto simp: y_def split: if_splits)
  have "split_months (month_lengths (leap y)) 0 (day - year_start y) = (month_of day, date_of day)"
    by (simp add: month_of_def date_of_def month_and_date_def y_def Let_def)
  from split_months_spec [OF n this] have *: "month_of day < 12"
    "day - year_start y = month_start (leap y) (month_of day) + date_of day - 1"
    "1 \<le> date_of day" "date_of day \<le> month_lengths (leap y) ! month_of day"
    by (auto simp: month_start_def)
  then show "month_of day < 12" "1 \<le> date_of day" "date_of day \<le> month_lengths (leap (year_of day)) ! month_of day"
    by (simp_all add: y_def)
  show "make_day (year_of day) (int (month_of day)) (date_of day) = day"
    using * by (simp add: make_day_def y_def Let_def)
qed

lemma make_day_shift: "make_day y m (d + n) = make_day y m d + n"
  by (simp add: make_day_def Let_def)

section \<open>The local clock\<close>

record clock =
  to_local :: "int \<Rightarrow> int"
  to_epoch :: "int \<Rightarrow> int"

definition local_day :: "clock \<Rightarrow> int \<Rightarrow> int" where
  "local_day c t = to_local c t div 86400"

definition getFullYear :: "clock \<Rightarrow> int \<Rightarrow> int" where "getFullYear c t = year_of (local_day c t)"
definition getMonth :: "clock \<Rightarrow> int \<Rightarrow> int" where "getMonth c t = int (month_of (local_day c t))"
definition getDate :: "clock \<Rightarrow> int \<Rightarrow> int" where "getDate c t = date_of (local_day c t)"
definition getDay :: "clock \<Rightarrow> int \<Rightarrow> int" where "getDay c t = weekday_of_day (local_day c t)"

text \<open>\<open>new Date(y, m, d, h, min)\<close>; a year below 100 means the twentieth century.\<close>

definition new_date :: "clock \<Rightarrow> int \<Rightarrow> int \<Rightarrow> int \<Rightarrow> int \<Rightarrow> int \<Rightarrow> int" where
  "new_date c y m d h mi =
     to_epoch c (make_day (if 0 \<le> y \<and> y \<le> 99 then 1900 + y else y) m d * 86400 + h * 3600 + mi * 60)"

definition clock_ok :: "clock \<Rightarrow> bool" where
  "clock_ok c \<longleftrightarrow> (\<forall>t. local_day c (to_epoch c t) = t div 86400) \<and>
     (\<forall>t u. t \<le> u \<longrightarrow> local_day c t \<le> local_day c u) \<and>
     (\<forall>t. to_epoch c (t div 86400 * 86400) \<le> to_epoch c t)"

definition utc :: clock where
  "utc = \<lparr>to_local = (\<lambda>t. t), to_epoch = (\<lambda>t. t)\<rparr>"

lemma utc_ok: "clock_ok utc"
proof -
  have "t div 86400 * 86400 \<le> t" for t :: int
    using mult_div_mod_eq [of 86400 t] pos_mod_sign [of 86400 t] by simp
  then show ?thesis by (simp add: clock_ok_def utc_def local_day_def zdiv_mono1)
qed

text \<open>The midnight that opens a day, and what it reads as.\<close>

definition day_open :: "clock \<Rightarrow> int \<Rightarrow> int" where
  "day_open c day = to_epoch c (day * 86400)"

lemma local_day_open [simp]: "clock_ok c \<Longrightarrow> local_day c (day_open c day) = day"
  by (simp add: clock_ok_def day_open_def)

lemma local_day_before: "clock_ok c \<Longrightarrow> local_day c t < day \<Longrightarrow> t < day_open c day"
  using local_day_open [of c day] unfolding clock_ok_def by (metis leD not_le_imp_less)

text \<open>\<open>new Date(t.getFullYear(), t.getMonth(), t.getDate() + n, h, min)\<close>.\<close>

lemma new_date_same_day:
  assumes "100 \<le> year_of (local_day c t)"
  shows "new_date c (getFullYear c t) (getMonth c t) (getDate c t + n) h mi =
    to_epoch c ((local_day c t + n) * 86400 + h * 3600 + mi * 60)"
  using assms month_and_date_day(4) [of "local_day c t"]
  by (simp add: new_date_def getFullYear_def getMonth_def getDate_def make_day_shift)

end
