(* ===== verification/CronExpr.thy ===== *)
theory CronExpr
  imports LocalClock JsSort
begin

text \<open>
  Reading the cron lines of scheduled jobs (\<open>cronExpr.ts\<close>): values, fields, whole lines and
  the edits of a field's text. A \<open>FieldError\<close> and an unsuccessful \<open>CronParse\<close> are values of
  \<^term>\<open>Inl\<close>, one constructor for each message; the wording of the messages is left out.
  \<open>Crash\<close> is the \<open>TypeError\<close> raised where the table of shorthands answers with a property every
  object inherits. The set of a field is a list in insertion order.
\<close>

section \<open>Fields\<close>

datatype cron_field = Minute | Hour | Dom | Month | Dow

definition CRON_FIELDS :: "cron_field list" where
  "CRON_FIELDS = [Minute, Hour, Dom, Month, Dow]"

definition MONTH_NAMES :: "string list" where
  "MONTH_NAMES = [''jan'', ''feb'', ''mar'', ''apr'', ''may'', ''jun'', ''jul'', ''aug'', ''sep'', ''oct'', ''nov'', ''dec'']"

definition DAY_NAMES :: "string list" where
  "DAY_NAMES = [''sun'', ''mon'', ''tue'', ''wed'', ''thu'', ''fri'', ''sat'']"

text \<open>\<open>CRON_FIELD_INFO\<close>: the bounds, and the names with the number of the first.\<close>

fun field_min :: "cron_field \<Rightarrow> int" where
  "field_min Minute = 0" | "field_min Hour = 0" | "field_min Dom = 1" | "field_min Month = 1" | "field_min Dow = 0"

fun field_max :: "cron_field \<Rightarrow> int" where
  "field_max Minute = 59" | "field_max Hour = 23" | "field_max Dom = 31" | "field_max Month = 12" | "field_max Dow = 7"

fun field_names :: "cron_field \<Rightarrow> string list" where
  "field_names Month = MONTH_NAMES" | "field_names Dow = DAY_NAMES" | "field_names f = []"

fun names_from :: "cron_field \<Rightarrow> int" where
  "names_from Month = 1" | "names_from f = 0"

datatype cron_error =
    NotAValue string cron_field
  | OutOfRange int cron_field
  | BadStep string cron_field
  | Backwards string cron_field
  | EmptyLine
  | UnknownShorthand string
  | NotFiveFields
  | NeverRuns
  | TooOften
  | Crash

section \<open>Lines and tokens\<close>

definition blank :: string where "blank = '' ''"

definition normalizeCron :: "string \<Rightarrow> string" where
  "normalizeCron expr = join blank (filter (\<lambda>w. w \<noteq> []) (split_by is_space (trim expr)))"

text \<open>\<open>MACROS[key]\<close>: a shorthand's line, nothing, or an inherited property, which is no string.\<close>

datatype shorthand = Line string | NoLine | Inherited

definition MACROS :: "string \<Rightarrow> shorthand" where
  "MACROS key =
     (if key = ''@yearly'' \<or> key = ''@annually'' then Line ''0 0 1 1 *''
      else if key = ''@monthly'' then Line ''0 0 1 * *''
      else if key = ''@weekly'' then Line ''0 0 * * 0''
      else if key = ''@daily'' \<or> key = ''@midnight'' then Line ''0 0 * * *''
      else if key = ''@hourly'' then Line ''0 * * * *''
      else if key = ''constructor'' \<or> key = ''__proto__'' then Inherited else NoLine)"

definition cronTokens :: "string \<Rightarrow> cron_error + string list option" where
  "cronTokens expr =
     (let source = normalizeCron expr;
          five = (\<lambda>line. let parts = split_on CHR '' '' line in if length parts = 5 then Some parts else None)
      in case MACROS (to_lower source) of
           Line line \<Rightarrow> Inr (five line)
         | NoLine \<Rightarrow> Inr (five source)
         | Inherited \<Rightarrow> Inl Crash)"

definition all_digits :: "string \<Rightarrow> bool" where
  "all_digits text = (text \<noteq> [] \<and> list_all is_digit text)"

definition cronValue :: "string \<Rightarrow> cron_field \<Rightarrow> cron_error + int" where
  "cronValue text field =
     (let value = (if all_digits text then Some (int (str_nat text))
            else let i = indexOf (to_lower text) (field_names field)
                 in if i < 0 then None else Some (i + names_from field))
      in case value of
           None \<Rightarrow> Inl (NotAValue text field)
         | Some n \<Rightarrow> if n < field_min field \<or> field_max field < n then Inl (OutOfRange n field) else Inr n)"

text \<open>\<open>for (v = lo; v <= hi; v += step)\<close>; the code has checked that the step is positive.\<close>

function range_step :: "int \<Rightarrow> int \<Rightarrow> int \<Rightarrow> int list" where
  "range_step lo hi step = (if hi < lo \<or> step \<le> 0 then [] else lo # range_step (lo + step) hi step)"
  by pat_completeness auto
termination by (relation "measure (\<lambda>(lo, hi, step). nat (hi + 1 - lo))") auto

declare range_step.simps [simp del]

definition item_range :: "string \<Rightarrow> int option \<Rightarrow> cron_field \<Rightarrow> cron_error + int \<times> int" where
  "item_range rng step field =
     (if rng = ''*'' then Inr (field_min field, field_max field)
      else let dash = indexOf CHR ''-'' rng
      in if dash \<noteq> -1 then
           (case cronValue (take (nat dash) rng) field of
              Inl e \<Rightarrow> Inl e
            | Inr lo \<Rightarrow> (case cronValue (drop (nat dash + 1) rng) field of Inl e \<Rightarrow> Inl e | Inr hi \<Rightarrow> Inr (lo, hi)))
         else (case cronValue rng field of
              Inl e \<Rightarrow> Inl e
            | Inr lo \<Rightarrow> Inr (lo, if step \<noteq> None then field_max field else lo)))"

definition item_values :: "string \<Rightarrow> cron_field \<Rightarrow> cron_error + int list" where
  "item_values item field =
     (let slash = indexOf CHR ''/'' item;
          rng = (if slash < 0 then item else take (nat slash) item);
          s = drop (nat slash + 1) item;
          step = (if slash < 0 then None else Some (if all_digits s then int (str_nat s) else 0))
      in if step \<noteq> None \<and> the step \<le> 0 then Inl (BadStep item field)
         else case item_range rng step field of
              Inl e \<Rightarrow> Inl e
            | Inr (lo, hi) \<Rightarrow> if hi < lo then Inl (Backwards rng field)
                else Inr (range_step lo hi (case step of None \<Rightarrow> 1 | Some n \<Rightarrow> n)))"

fun add_items :: "string list \<Rightarrow> cron_field \<Rightarrow> int list \<Rightarrow> cron_error + int list" where
  "add_items [] field out = Inr out"
| "add_items (item # items) field out =
     (case item_values item field of
        Inl e \<Rightarrow> Inl e
      | Inr vs \<Rightarrow> add_items items field (fold set_add vs out))"

definition fieldSet :: "string \<Rightarrow> cron_field \<Rightarrow> cron_error + int list" where
  "fieldSet text field =
     (case add_items (split_on CHR '','' text) field [] of
        Inl e \<Rightarrow> Inl e
      | Inr out \<Rightarrow> Inr (if field = Dow \<and> 7 \<in> set out then set_add 0 (filter (\<lambda>v. v \<noteq> 7) out) else out))"

section \<open>Whole lines\<close>

record cron_spec =
  cs_source :: string
  cs_tokens :: "string list"
  cs_minute :: "int list"
  cs_hour :: "int list"
  cs_dom :: "int list"
  cs_month :: "int list"
  cs_dow :: "int list"
  cs_domAny :: bool
  cs_dowAny :: bool

definition LONGEST :: "int list" where
  "LONGEST = [31, 29, 31, 30, 31, 30, 31, 31, 30, 31, 30, 31]"

definition hasADay :: "cron_spec \<Rightarrow> bool" where
  "hasADay spec =
     (\<not> cs_dowAny spec \<or> (\<exists>m\<in>set (cs_month spec). \<exists>d\<in>set (cs_dom spec). d \<le> LONGEST ! nat (m - 1)))"

definition compareNumbers :: "int \<Rightarrow> int \<Rightarrow> int" where
  "compareNumbers a b = a - b"

interpretation numbers: js_compare compareNumbers
  by unfold_locales (auto simp: compareNumbers_def sgn_if)

text \<open>The least gap of neighbours, \<open>None\<close> for the \<open>Infinity\<close> of none.\<close>

definition min_gap :: "int option \<Rightarrow> int \<Rightarrow> int option" where
  "min_gap gap n = (case gap of None \<Rightarrow> Some n | Some g \<Rightarrow> Some (min g n))"

fun neighbour_gap :: "int list \<Rightarrow> int option \<Rightarrow> int option" where
  "neighbour_gap (a # b # rest) gap = neighbour_gap (b # rest) (min_gap gap (b - a))"
| "neighbour_gap _ gap = gap"

definition minGapMinutes :: "cron_spec \<Rightarrow> int option" where
  "minGapMinutes spec =
     (let minutes = sort_by compareNumbers (cs_minute spec);
          gap = neighbour_gap minutes None;
          hours = cs_hour spec;
          backToBack = (\<exists>h\<in>set hours. (h + 1) mod 24 \<in> set hours)
      in if backToBack \<and> minutes \<noteq> [] then min_gap gap (60 - last minutes + hd minutes) else gap)"

definition MIN_GAP_SECS :: int where "MIN_GAP_SECS = 300"

definition parseCron :: "string \<Rightarrow> cron_error + cron_spec" where
  "parseCron expr =
     (let source = normalizeCron expr
      in if source = [] then Inl EmptyLine
         else if starts_with source ''@'' \<and> MACROS (to_lower source) = NoLine then Inl (UnknownShorthand source)
         else case cronTokens source of
           Inl e \<Rightarrow> Inl e
         | Inr None \<Rightarrow> Inl NotFiveFields
         | Inr (Some tokens) \<Rightarrow>
            (case fieldSet (tokens ! 0) Minute of Inl e \<Rightarrow> Inl e | Inr minute \<Rightarrow>
            (case fieldSet (tokens ! 1) Hour of Inl e \<Rightarrow> Inl e | Inr hour \<Rightarrow>
            (case fieldSet (tokens ! 2) Dom of Inl e \<Rightarrow> Inl e | Inr dates \<Rightarrow>
            (case fieldSet (tokens ! 3) Month of Inl e \<Rightarrow> Inl e | Inr month \<Rightarrow>
            (case fieldSet (tokens ! 4) Dow of Inl e \<Rightarrow> Inl e | Inr dow \<Rightarrow>
              let spec = \<lparr>cs_source = source, cs_tokens = tokens, cs_minute = minute, cs_hour = hour,
                    cs_dom = dates, cs_month = month, cs_dow = dow,
                    cs_domAny = starts_with (tokens ! 2) ''*'', cs_dowAny = starts_with (tokens ! 4) ''*''\<rparr>
              in if \<not> hasADay spec then Inl NeverRuns
                 else if (case minGapMinutes spec of None \<Rightarrow> False | Some gap \<Rightarrow> gap * 60 < MIN_GAP_SECS)
                 then Inl TooOften else Inr spec))))))"

section \<open>Editing a line\<close>

definition padTokens :: "string \<Rightarrow> string list" where
  "padTokens source =
     (let parts = (if source \<noteq> [] then take 5 (split_on CHR '' '' source) else [])
      in parts @ replicate (5 - length parts) ''*'')"

definition field_index :: "cron_field \<Rightarrow> nat" where
  "field_index field = nat (indexOf field CRON_FIELDS)"

definition withCronField :: "string \<Rightarrow> cron_field \<Rightarrow> string \<Rightarrow> cron_error + string" where
  "withCronField expr field text =
     (case cronTokens expr of
        Inl e \<Rightarrow> Inl e
      | Inr tokens \<Rightarrow>
          let tokens = (case tokens of None \<Rightarrow> padTokens (normalizeCron expr) | Some ts \<Rightarrow> ts)
          in Inr (join blank (tokens[field_index field := text])))"

text \<open>\<open>s.split(/\s+/)\<close>, and where the words of a line sit.\<close>

fun squeeze :: "string \<Rightarrow> string" where
  "squeeze (c # d # s) = (if is_space c \<and> is_space d then squeeze (d # s) else c # squeeze (d # s))"
| "squeeze s = s"

definition split_blanks :: "string \<Rightarrow> string list" where
  "split_blanks s = split_by is_space (squeeze s)"

definition cronFieldAt :: "string \<Rightarrow> nat \<Rightarrow> cron_field option" where
  "cronFieldAt expr caret =
     (if starts_with (normalizeCron expr) ''@'' then None
      else let index = length (split_blanks (dropWhile is_space (take caret expr))) - 1
           in Some (CRON_FIELDS ! min index 4))"

fun word_ranges :: "nat \<Rightarrow> string \<Rightarrow> (nat \<times> nat) list" where
  "word_ranges i [] = []"
| "word_ranges i (c # s) =
     (if is_space c then word_ranges (Suc i) s
      else case word_ranges (Suc i) s of
          [] \<Rightarrow> [(i, Suc i)]
        | (a, b) # rest \<Rightarrow> if a = Suc i then (i, b) # rest else (i, Suc i) # (a, b) # rest)"

definition cronTokenRange :: "string \<Rightarrow> cron_field \<Rightarrow> (nat \<times> nat) option" where
  "cronTokenRange expr field =
     (if starts_with (normalizeCron expr) ''@'' then None
      else at_index (word_ranges 0 expr) (indexOf field CRON_FIELDS))"

section \<open>What a read line promises\<close>

lemma cronValue_bounds: "cronValue text field = Inr n \<Longrightarrow> field_min field \<le> n \<and> n \<le> field_max field"
  by (auto simp: cronValue_def Let_def split: option.splits if_splits)

lemma range_step_bounds: "v \<in> set (range_step lo hi step) \<Longrightarrow> lo \<le> v \<and> v \<le> hi"
proof (induction lo hi step rule: range_step.induct)
  case (1 lo hi step)
  show ?case
  proof (cases "hi < lo \<or> step \<le> 0")
    case True
    with "1.prems" show ?thesis by (simp add: range_step.simps [of lo])
  next
    case False
    with "1.prems" have "v = lo \<or> v \<in> set (range_step (lo + step) hi step)"
      by (simp add: range_step.simps [of lo])
    with False "1.IH" show ?thesis by auto
  qed
qed

lemma range_step_first: "lo \<le> hi \<Longrightarrow> 0 < step \<Longrightarrow> lo \<in> set (range_step lo hi step)"
  by (simp add: range_step.simps [of lo])

lemma item_range_bounds:
  assumes "item_range rng step field = Inr (lo, hi)"
  shows "field_min field \<le> lo \<and> hi \<le> field_max field"
  using assms cronValue_bounds by (auto simp: item_range_def Let_def split: if_splits sum.splits)

lemma item_values_bounds:
  assumes "item_values item field = Inr vs"
  shows "vs \<noteq> [] \<and> (\<forall>v\<in>set vs. field_min field \<le> v \<and> v \<le> field_max field)"
proof -
  from assms obtain rng step lo hi where "item_range rng step field = Inr (lo, hi)" "lo \<le> hi"
    and n: "0 < (case step of None \<Rightarrow> 1 | Some n \<Rightarrow> n)"
    and vs: "vs = range_step lo hi (case step of None \<Rightarrow> 1 | Some n \<Rightarrow> n)"
    by (auto simp: item_values_def Let_def split: if_splits sum.splits)
  with item_range_bounds range_step_bounds range_step_first [OF \<open>lo \<le> hi\<close> n] show ?thesis by fastforce
qed

lemma add_items_bounds:
  assumes "add_items items field out = Inr vs" and "distinct out"
    and "\<forall>v\<in>set out. field_min field \<le> v \<and> v \<le> field_max field"
  shows "distinct vs \<and> (\<forall>v\<in>set vs. field_min field \<le> v \<and> v \<le> field_max field) \<and> set out \<subseteq> set vs \<and>
    (items \<noteq> [] \<longrightarrow> vs \<noteq> [])"
  using assms
proof (induction items arbitrary: out)
  case (Cons item items)
  obtain ws where ws: "item_values item field = Inr ws" and rest: "add_items items field (fold set_add ws out) = Inr vs"
    using Cons.prems(1) by (auto split: sum.splits)
  note b = item_values_bounds [OF ws]
  have "distinct (fold set_add ws out)" "\<forall>v\<in>set (fold set_add ws out). field_min field \<le> v \<and> v \<le> field_max field"
    using b Cons.prems by auto
  from Cons.IH [OF rest this] b show ?case by (cases ws) auto
qed simp

definition field_ok :: "cron_field \<Rightarrow> int list \<Rightarrow> bool" where
  "field_ok field vs \<longleftrightarrow> vs \<noteq> [] \<and> distinct vs \<and>
     (\<forall>v\<in>set vs. field_min field \<le> v \<and> v \<le> (if field = Dow then 6 else field_max field))"

lemma fieldSet_ok:
  assumes "fieldSet text field = Inr vs"
  shows "field_ok field vs"
proof -
  obtain out where out: "add_items (split_on CHR '','' text) field [] = Inr out"
    and vs: "vs = (if field = Dow \<and> 7 \<in> set out then set_add 0 (filter (\<lambda>v. v \<noteq> 7) out) else out)"
    using assms by (auto simp: fieldSet_def split: sum.splits)
  have o: "distinct out" "\<forall>v\<in>set out. field_min field \<le> v \<and> v \<le> field_max field" "out \<noteq> []"
    using add_items_bounds [OF out] by simp_all
  show ?thesis
  proof (cases "field = Dow")
    case False
    then show ?thesis using o vs by (simp add: field_ok_def)
  next
    case True
    have "v \<le> 6" if "v \<in> set vs" for v
    proof -
      have "v = 0 \<or> v \<in> set out \<and> v \<noteq> 7" using that vs True by (auto split: if_splits)
      then show ?thesis using o(2) True by force
    qed
    moreover have "0 \<le> v" if "v \<in> set vs" for v
      using that vs True o(2) by (auto split: if_splits)
    moreover have "0 \<in> set vs \<or> vs = out" using vs by auto
    then have "vs \<noteq> []" using o(3) by auto
    moreover have "distinct vs" using vs o(1) by simp
    ultimately show ?thesis using True by (simp add: field_ok_def)
  qed
qed

definition spec_fields_ok :: "cron_spec \<Rightarrow> bool" where
  "spec_fields_ok spec \<longleftrightarrow> field_ok Minute (cs_minute spec) \<and> field_ok Hour (cs_hour spec) \<and>
     field_ok Dom (cs_dom spec) \<and> field_ok Month (cs_month spec) \<and> field_ok Dow (cs_dow spec)"

lemma parse_steps:
  assumes "parseCron expr = Inr spec"
  shows "spec_fields_ok spec \<and> hasADay spec \<and>
    (\<forall>gap. minGapMinutes spec = Some gap \<longrightarrow> MIN_GAP_SECS \<le> gap * 60) \<and>
    cs_domAny spec = starts_with (cs_tokens spec ! 2) ''*'' \<and> cs_dowAny spec = starts_with (cs_tokens spec ! 4) ''*'' \<and>
    fieldSet (cs_tokens spec ! 2) Dom = Inr (cs_dom spec) \<and> fieldSet (cs_tokens spec ! 4) Dow = Inr (cs_dow spec)"
  using assms fieldSet_ok
  by (auto simp: parseCron_def Let_def spec_fields_ok_def not_less split: if_splits sum.splits option.splits)

lemma neighbour_gap_le:
  "neighbour_gap ms gap = Some g \<Longrightarrow> (\<forall>g'. gap = Some g' \<longrightarrow> g \<le> g') \<and>
     (\<forall>i. Suc i < length ms \<longrightarrow> g \<le> ms ! Suc i - ms ! i)"
proof (induction ms gap rule: neighbour_gap.induct)
  case (1 a b rest gap)
  then have IH: "\<forall>g'. min_gap gap (b - a) = Some g' \<longrightarrow> g \<le> g'"
    and steps: "\<forall>i. Suc i < length (b # rest) \<longrightarrow> g \<le> (b # rest) ! Suc i - (b # rest) ! i" by simp_all
  have "g \<le> b - a" "\<forall>g'. gap = Some g' \<longrightarrow> g \<le> g'"
    using IH by (auto simp: min_gap_def split: option.splits)
  moreover have "g \<le> (a # b # rest) ! Suc i - (a # b # rest) ! i" if "Suc i < length (a # b # rest)" for i
    using that steps \<open>g \<le> b - a\<close> by (cases i) auto
  ultimately show ?case by blast
qed auto

lemma neighbour_gap_None: "neighbour_gap ms gap = None \<Longrightarrow> length ms \<le> 1 \<and> gap = None"
  by (induction ms gap rule: neighbour_gap.induct) (auto simp: min_gap_def split: option.splits)

lemma neighbour_gap_mono: "sorted ms \<Longrightarrow> \<forall>i. Suc i < length ms \<longrightarrow> g \<le> ms ! Suc i - ms ! i \<Longrightarrow>
    i < j \<Longrightarrow> j < length ms \<Longrightarrow> g \<le> ms ! j - ms ! i" for g :: int
proof -
  assume s: "sorted ms" and g: "\<forall>i. Suc i < length ms \<longrightarrow> g \<le> ms ! Suc i - ms ! i" and ij: "i < j" "j < length ms"
  have "ms ! Suc i \<le> ms ! j" using s ij by (intro sorted_nth_mono) simp_all
  moreover have "g \<le> ms ! Suc i - ms ! i" using g ij by simp
  ultimately show ?thesis by simp
qed

lemma sorted_numbers: "sorted (sort_by compareNumbers xs)"
  using numbers.sorted_sort_by [of xs] by (simp add: sorted_wrt_iff_nth_less sorted_iff_nth_mono_less compareNumbers_def)

lemma sort_numbers_distinct: "distinct xs \<Longrightarrow> sorted_wrt (<) (sort_by compareNumbers xs)"
  by (simp add: strict_sorted_iff sorted_numbers)

text \<open>The runs of one day lie five minutes apart, also across midnight and whole hours.\<close>

definition minute_of_day :: "int \<Rightarrow> int \<Rightarrow> int" where
  "minute_of_day h m = h * 60 + m"

lemma five_minutes_same_hour:
  assumes "field_ok Minute (cs_minute spec)" and gap: "\<forall>gap. minGapMinutes spec = Some gap \<longrightarrow> 5 \<le> gap"
    and m: "m \<in> set (cs_minute spec)" "m' \<in> set (cs_minute spec)" "m < m'"
  shows "5 \<le> m' - m"
proof -
  define ms where "ms = sort_by compareNumbers (cs_minute spec)"
  have s: "sorted ms" by (simp add: ms_def sorted_numbers)
  obtain i j where ij: "i < length ms" "ms ! i = m" "j < length ms" "ms ! j = m'"
    using m by (metis in_set_conv_nth ms_def set_sort_by)
  have "i < j" using s ij m(3) by (metis leD not_le_imp_less sorted_nth_mono)
  then have "neighbour_gap ms None \<noteq> None" using neighbour_gap_None [of ms None] ij by auto
  then obtain g where g: "neighbour_gap ms None = Some g" by auto
  have "g \<le> m' - m"
    using neighbour_gap_mono [OF s _ \<open>i < j\<close> ij(3), of g] neighbour_gap_le [OF g] ij by auto
  moreover have "5 \<le> g"
  proof -
    have "\<exists>g'. minGapMinutes spec = Some g' \<and> g' \<le> g"
      unfolding minGapMinutes_def Let_def ms_def [symmetric] using g by (simp add: min_gap_def)
    then obtain g' where "minGapMinutes spec = Some g'" "g' \<le> g" by blast
    then show ?thesis using gap by force
  qed
  ultimately show ?thesis by simp
qed

lemma five_minutes_next_hour:
  assumes "field_ok Minute (cs_minute spec)" and gap: "\<forall>gap. minGapMinutes spec = Some gap \<longrightarrow> 5 \<le> gap"
    and m: "m \<in> set (cs_minute spec)" "m' \<in> set (cs_minute spec)"
    and h: "h \<in> set (cs_hour spec)" "(h + 1) mod 24 \<in> set (cs_hour spec)"
  shows "5 \<le> 60 - m + m'"
proof -
  define ms where "ms = sort_by compareNumbers (cs_minute spec)"
  have s: "sorted ms" and ne: "ms \<noteq> []" using assms(1) by (auto simp: ms_def sorted_numbers field_ok_def dest: arg_cong [of _ _ length])
  have "m \<le> last ms" "hd ms \<le> m'"
  proof -
    obtain i j where "i < length ms" "ms ! i = m" "j < length ms" "ms ! j = m'"
      using m by (metis in_set_conv_nth ms_def set_sort_by)
    then show "m \<le> last ms" "hd ms \<le> m'"
      using s ne sorted_nth_mono [of ms i "length ms - 1"] sorted_nth_mono [of ms 0 j]
      by (auto simp: last_conv_nth hd_conv_nth)
  qed
  moreover have "\<exists>g. minGapMinutes spec = Some g \<and> g \<le> 60 - last ms + hd ms"
  proof -
    have "(\<exists>h\<in>set (cs_hour spec). (h + 1) mod 24 \<in> set (cs_hour spec)) \<and> ms \<noteq> []" using h ne by blast
    then have "minGapMinutes spec = min_gap (neighbour_gap ms None) (60 - last ms + hd ms)"
      unfolding minGapMinutes_def Let_def ms_def [symmetric] by (rule if_P)
    then show ?thesis by (cases "neighbour_gap ms None") (simp_all add: min_gap_def)
  qed
  then obtain g where "minGapMinutes spec = Some g" "g \<le> 60 - last ms + hd ms" by blast
  ultimately show ?thesis using gap by force
qed

text \<open>Two times of day a number of hours apart, and the distance round the clock.\<close>

lemma hours_apart:
  assumes "0 \<le> h" "h \<le> 23" "0 \<le> h'" "h' \<le> (23 :: int)"
  shows "(h' - h) mod 24 = (if h \<le> h' then h' - h else h' - h + 24)"
proof (cases "h \<le> h'")
  case True
  then show ?thesis using assms by (simp add: mod_pos_pos_trivial)
next
  case False
  have "(h' - h) mod 24 = (h' - h + 24) mod 24" by simp
  also have "\<dots> = h' - h + 24" using assms False by (intro mod_pos_pos_trivial) linarith+
  finally show ?thesis using False by simp
qed

lemma clock_distance:
  "(minute_of_day h' m' - minute_of_day h m) mod 1440 = ((h' - h) mod 24 * 60 + (m' - m)) mod 1440"
proof -
  have "h' = h + (h' - h) mod 24 + 24 * ((h' - h) div 24)" by simp
  then have "h' * 60 = h * 60 + (h' - h) mod 24 * 60 + ((h' - h) div 24) * 1440" by linarith
  then have "minute_of_day h' m' - minute_of_day h m = (h' - h) mod 24 * 60 + (m' - m) + ((h' - h) div 24) * 1440"
    unfolding minute_of_day_def by linarith
  then show ?thesis by (simp only: mod_mult_self1)
qed

text \<open>Within one hour the distance the other way round is nearly a day.\<close>

lemma five_minutes_one_hour:
  assumes "field_ok Minute (cs_minute spec)" and "\<forall>gap. minGapMinutes spec = Some gap \<longrightarrow> 5 \<le> gap"
    and "m \<in> set (cs_minute spec)" "m' \<in> set (cs_minute spec)" and "m \<noteq> m'"
  shows "5 \<le> (m' - m) mod 1440"
proof -
  have b: "0 \<le> m" "m \<le> 59" "0 \<le> m'" "m' \<le> 59" using assms(1,3,4) by (auto simp: field_ok_def)
  show ?thesis
  proof (cases "m < m'")
    case True
    then show ?thesis using five_minutes_same_hour [OF assms(1-4)] b by simp
  next
    case False
    have "(m' - m) mod 1440 = (m' - m + 1440) mod 1440" by simp
    also have "\<dots> = m' - m + 1440" using b assms(5) False by (intro mod_pos_pos_trivial) linarith+
    finally show ?thesis using b by simp
  qed
qed

lemma five_minutes_apart:
  assumes mi: "field_ok Minute (cs_minute spec)" and ho: "field_ok Hour (cs_hour spec)"
    and gap: "\<forall>gap. minGapMinutes spec = Some gap \<longrightarrow> 5 \<le> gap"
    and h: "h \<in> set (cs_hour spec)" "h' \<in> set (cs_hour spec)"
    and m: "m \<in> set (cs_minute spec)" "m' \<in> set (cs_minute spec)" and ne: "(h, m) \<noteq> (h', m')"
  shows "5 \<le> (minute_of_day h' m' - minute_of_day h m) mod 1440"
proof -
  have b: "0 \<le> h" "h \<le> 23" "0 \<le> h'" "h' \<le> 23" "0 \<le> m" "m \<le> 59" "0 \<le> m'" "m' \<le> 59"
    using h m mi ho by (auto simp: field_ok_def)
  define d where "d = (h' - h) mod 24"
  have d': "d = (if h \<le> h' then h' - h else h' - h + 24)" unfolding d_def by (rule hours_apart [OF b(1-4)])
  then have d: "0 \<le> d" "d \<le> 23" using b by (auto split: if_splits)
  show ?thesis
  proof (cases "d = 0")
    case True
    then have "h = h'" using b d' by (auto split: if_splits)
    then have "5 \<le> (m' - m) mod 1440" using five_minutes_one_hour [OF mi gap m] ne by simp
    then show ?thesis unfolding clock_distance d_def [symmetric] True by simp
  next
    case False
    have "5 \<le> d * 60 + (m' - m)"
    proof (cases "d = 1")
      case True
      then have "h' = h + 1 \<or> (h = 23 \<and> h' = 0)" using b d' by (auto split: if_splits)
      then have "(h + 1) mod 24 = h'" using b by auto
      then show ?thesis using five_minutes_next_hour [OF mi gap m] h True by simp
    next
      case no: False
      then have "2 \<le> d" using d \<open>d \<noteq> 0\<close> by simp
      then show ?thesis using b by linarith
    qed
    moreover have "d * 60 + (m' - m) < 1440" using d b by linarith
    ultimately show ?thesis unfolding clock_distance d_def [symmetric] by simp
  qed
qed

text \<open>Property C23: a cron line that is accepted can be run. Every field has values, all inside
  its bounds (Sunday is 0), some date of some month exists for it, and two different runs of any
  two days are at least five minutes apart on the clock, also across whole hours and midnight.\<close>

theorem parsed_line_ok:
  assumes "parseCron expr = Inr spec"
  shows "spec_fields_ok spec \<and> hasADay spec \<and>
    (\<forall>h\<in>set (cs_hour spec). \<forall>h'\<in>set (cs_hour spec). \<forall>m\<in>set (cs_minute spec). \<forall>m'\<in>set (cs_minute spec).
       (h, m) \<noteq> (h', m') \<longrightarrow> 5 \<le> (minute_of_day h' m' - minute_of_day h m) mod 1440)"
proof -
  note p = parse_steps [OF assms]
  have f: "field_ok Minute (cs_minute spec)" "field_ok Hour (cs_hour spec)"
    using p by (simp_all add: spec_fields_ok_def)
  have "\<forall>gap. minGapMinutes spec = Some gap \<longrightarrow> 5 \<le> gap" using p by (simp add: MIN_GAP_SECS_def)
  with five_minutes_apart [OF f] p show ?thesis by blast
qed

theorem parsed_line_ok_witness:
  "\<exists>spec. parseCron ''*/20 9-17 * * mon-fri'' = Inr spec \<and> spec_fields_ok spec \<and> hasADay spec"
proof -
  have "case parseCron ''*/20 9-17 * * mon-fri'' of Inl e \<Rightarrow> False | Inr spec \<Rightarrow> True" by code_simp
  then obtain spec where "parseCron ''*/20 9-17 * * mon-fri'' = Inr spec" by (auto split: sum.splits)
  then show ?thesis using parsed_line_ok by blast
qed

text \<open>A line that names a property of every JavaScript object is no error message but a crash.\<close>

theorem parseCron_crashes: "parseCron ''constructor'' = Inl Crash"
  by code_simp

end
