(* ===== verification/CronRuns.thy ===== *)
theory CronRuns
  imports CronExpr
begin

text \<open>
  The runs of a cron line (\<open>cronExpr.ts\<close>, from \<open>cronDayMatches\<close> on). A date is its epoch second
  and the local zone a parameter. The loop over the days of a window, which ends for a clock that
  moves on, is a \<open>partial_function\<close>; the search for the next runs counts its days.
\<close>

section \<open>Days and their runs\<close>

definition cronDayMatches :: "clock \<Rightarrow> cron_spec \<Rightarrow> int \<Rightarrow> bool" where
  "cronDayMatches c spec day =
     (if getMonth c day + 1 \<notin> set (cs_month spec) then False
      else let dates = (getDate c day \<in> set (cs_dom spec));
               dow = (getDay c day \<in> set (cs_dow spec))
           in if cs_domAny spec \<or> cs_dowAny spec then dates \<and> dow else dates \<or> dow)"

definition push_new :: "int \<Rightarrow> int list \<Rightarrow> int list" where
  "push_new moment out = (if out \<noteq> [] \<and> last out = moment then out else out @ [moment])"

definition dayRuns :: "clock \<Rightarrow> cron_spec \<Rightarrow> int \<Rightarrow> int list" where
  "dayRuns c spec day =
     (let hours = sort_by compareNumbers (cs_hour spec);
          minutes = sort_by compareNumbers (cs_minute spec)
      in fold push_new
           (concat (map (\<lambda>h. map (\<lambda>m. new_date c (getFullYear c day) (getMonth c day) (getDate c day) h m) minutes) hours)) [])"

definition addDays :: "clock \<Rightarrow> int \<Rightarrow> int \<Rightarrow> int" where
  "addDays c day n = new_date c (getFullYear c day) (getMonth c day) (getDate c day + n) 0 0"

definition start_day :: "clock \<Rightarrow> int \<Rightarrow> int" where
  "start_day c t = new_date c (getFullYear c t) (getMonth c t) (getDate c t) 0 0"

fun take_runs :: "int \<Rightarrow> int \<Rightarrow> nat \<Rightarrow> int list \<Rightarrow> int list \<Rightarrow> int list \<times> bool" where
  "take_runs from_t to_t limit [] out = (out, False)"
| "take_runs from_t to_t limit (moment # rest) out =
     (if moment < from_t \<or> to_t < moment then take_runs from_t to_t limit rest out
      else if limit \<le> length (out @ [moment]) then (out @ [moment], True)
      else take_runs from_t to_t limit rest (out @ [moment]))"

partial_function (option) between_loop :: "clock \<Rightarrow> cron_spec \<Rightarrow> int \<Rightarrow> int \<Rightarrow> nat \<Rightarrow> int \<Rightarrow> int list \<Rightarrow> int list option" where
  "between_loop c spec from_t to_t limit day out =
     (if to_t < day then Some out
      else case (if cronDayMatches c spec day then take_runs from_t to_t limit (dayRuns c spec day) out else (out, False)) of
          (out', full) \<Rightarrow> if full then Some out'
            else between_loop c spec from_t to_t limit (addDays c day 1) out')"

definition cronRunsBetween :: "clock \<Rightarrow> cron_spec \<Rightarrow> int \<Rightarrow> int \<Rightarrow> nat \<Rightarrow> int list option" where
  "cronRunsBetween c spec from_t to_t limit = between_loop c spec from_t to_t limit (start_day c from_t) []"

definition SEARCH_DAYS :: nat where
  "SEARCH_DAYS = 366 * 8 + 2"

fun push_after :: "int \<Rightarrow> nat \<Rightarrow> int list \<Rightarrow> int list \<Rightarrow> int list" where
  "push_after after wanted [] out = out"
| "push_after after wanted (moment # rest) out =
     (let out' = (if after < moment then out @ [moment] else out)
      in if wanted \<le> length out' then out' else push_after after wanted rest out')"

fun next_loop :: "clock \<Rightarrow> cron_spec \<Rightarrow> int \<Rightarrow> nat \<Rightarrow> nat \<Rightarrow> int \<Rightarrow> int list \<Rightarrow> int list" where
  "next_loop c spec after wanted 0 day out = out"
| "next_loop c spec after wanted (Suc n) day out =
     (if wanted \<le> length out then out
      else next_loop c spec after wanted n (addDays c day 1)
        (if cronDayMatches c spec day then push_after after wanted (dayRuns c spec day) out else out))"

definition nextCronRuns :: "clock \<Rightarrow> cron_spec \<Rightarrow> int \<Rightarrow> nat \<Rightarrow> int list" where
  "nextCronRuns c spec after wanted = next_loop c spec after wanted SEARCH_DAYS (start_day c after) []"

section \<open>Reference: which local minutes a line names\<close>

definition day_matches :: "cron_spec \<Rightarrow> int \<Rightarrow> bool" where
  "day_matches spec day \<longleftrightarrow> int (month_of day) + 1 \<in> set (cs_month spec) \<and>
     (let dates = (date_of day \<in> set (cs_dom spec)); dow = (weekday_of_day day \<in> set (cs_dow spec))
      in if cs_domAny spec \<or> cs_dowAny spec then dates \<and> dow else dates \<or> dow)"

definition named_times :: "clock \<Rightarrow> cron_spec \<Rightarrow> int set" where
  "named_times c spec = {to_epoch c (day * 86400 + h * 3600 + m * 60) | day h m.
     day_matches spec day \<and> h \<in> set (cs_hour spec) \<and> m \<in> set (cs_minute spec)}"

lemma cronDayMatches_eq: "cronDayMatches c spec t = day_matches spec (local_day c t)"
  by (auto simp: cronDayMatches_def day_matches_def getMonth_def getDate_def getDay_def Let_def)

lemma fold_push_new_set: "set (fold push_new xs out) = set out \<union> set xs"
proof (induction xs arbitrary: out)
  case (Cons x xs)
  have "set (push_new x out) = insert x (set out)"
    by (auto simp: push_new_def)
  with Cons show ?case by simp
qed simp

lemma dayRuns_set:
  assumes "100 \<le> year_of (local_day c t)"
  shows "set (dayRuns c spec t) =
    {to_epoch c (local_day c t * 86400 + h * 3600 + m * 60) | h m. h \<in> set (cs_hour spec) \<and> m \<in> set (cs_minute spec)}"
  using new_date_same_day [OF assms, of 0]
  by (auto simp: dayRuns_def fold_push_new_set Let_def)

lemma start_day_open: "100 \<le> year_of (local_day c t) \<Longrightarrow> start_day c t = day_open c (local_day c t)"
  using new_date_same_day [of c t 0 0 0] by (simp add: start_day_def day_open_def)

lemma addDays_open:
  "clock_ok c \<Longrightarrow> 100 \<le> year_of day \<Longrightarrow> addDays c (day_open c day) n = day_open c (day + n)"
  using new_date_same_day [of c "day_open c day" n 0 0] by (simp add: addDays_def day_open_def [of c "day + n"])

section \<open>All runs of a window\<close>

definition runs_of_day :: "clock \<Rightarrow> cron_spec \<Rightarrow> int \<Rightarrow> int list" where
  "runs_of_day c spec day = (if day_matches spec day then dayRuns c spec (day_open c day) else [])"

definition all_runs :: "clock \<Rightarrow> cron_spec \<Rightarrow> int \<Rightarrow> int \<Rightarrow> int \<Rightarrow> int list" where
  "all_runs c spec day from_t to_t =
     filter (\<lambda>t. from_t \<le> t \<and> t \<le> to_t) (concat (map (runs_of_day c spec) [day..local_day c to_t]))"

lemma take_runs_eq:
  assumes "length out < limit"
  shows "take_runs from_t to_t limit ats out =
    (take limit (out @ filter (\<lambda>t. from_t \<le> t \<and> t \<le> to_t) ats),
     limit \<le> length (out @ filter (\<lambda>t. from_t \<le> t \<and> t \<le> to_t) ats))"
  using assms
proof (induction ats arbitrary: out)
  case (Cons a ats)
  show ?case
  proof (cases "a < from_t \<or> to_t < a")
    case True
    with Cons show ?thesis by auto
  next
    case False
    show ?thesis
    proof (cases "limit \<le> length (out @ [a])")
      case True
      with Cons.prems have "limit = length (out @ [a])" by simp
      with False True show ?thesis by simp
    next
      case no: False
      with Cons.IH [of "out @ [a]"] False show ?thesis by simp
    qed
  qed
qed simp

lemma later_day: "clock_ok c \<Longrightarrow> day_open c day \<le> t \<Longrightarrow> day \<le> local_day c t"
  using local_day_open [of c day] unfolding clock_ok_def by metis

lemma minute_in_day:
  assumes "spec_fields_ok spec" and "h \<in> set (cs_hour spec)" and "m \<in> set (cs_minute spec)"
  shows "(day * 86400 + h * 3600 + m * 60) div 86400 = day"
proof -
  have "0 \<le> h" "h \<le> 23" "0 \<le> m" "m \<le> 59"
    using assms by (auto simp: spec_fields_ok_def field_ok_def)
  then have "0 \<le> h * 3600 + m * 60" "h * 3600 + m * 60 < 86400" by linarith+
  moreover have "day * 86400 + h * 3600 + m * 60 = 86400 * day + (h * 3600 + m * 60)" by simp
  ultimately show ?thesis by (intro int_div_pos_eq) auto
qed

lemma runs_of_day_set:
  assumes "clock_ok c" and "100 \<le> year_of day"
  shows "set (runs_of_day c spec day) = (if day_matches spec day then
    {to_epoch c (day * 86400 + h * 3600 + m * 60) | h m. h \<in> set (cs_hour spec) \<and> m \<in> set (cs_minute spec)} else {})"
  using dayRuns_set [of c "day_open c day" spec] assms by (simp add: runs_of_day_def)

lemma run_in_day:
  assumes ok: "clock_ok c" and f: "spec_fields_ok spec" and y: "100 \<le> year_of day"
    and t: "t \<in> set (runs_of_day c spec day)"
  shows "local_day c t = day \<and> day_open c day \<le> t"
proof -
  obtain h m where hm: "h \<in> set (cs_hour spec)" "m \<in> set (cs_minute spec)"
    and t: "t = to_epoch c (day * 86400 + h * 3600 + m * 60)"
    using t runs_of_day_set [OF ok y] by (auto split: if_splits)
  note d = minute_in_day [OF f hm, of day]
  have "local_day c t = day" using ok d t by (simp add: clock_ok_def)
  moreover have "to_epoch c ((day * 86400 + h * 3600 + m * 60) div 86400 * 86400) \<le> t"
    using ok unfolding t clock_ok_def by blast
  ultimately show ?thesis using d by (simp add: day_open_def)
qed

lemma day_open_mono: "clock_ok c \<Longrightarrow> day \<le> day' \<Longrightarrow> day_open c day \<le> day_open c day'"
  using local_day_before [of c "day_open c day" day'] local_day_open [of c day] by (cases "day = day'") auto

text \<open>The loop returns, and what it returns is the start of the list of all runs.\<close>

lemma between_loop_eq:
  assumes ok: "clock_ok c" and f: "spec_fields_ok spec" and "100 \<le> year_of day" and "length out < limit"
  shows "between_loop c spec from_t to_t limit (day_open c day) out =
    Some (take limit (out @ all_runs c spec day from_t to_t))"
  using assms(3,4)
proof (induction "nat (local_day c to_t + 1 - day)" arbitrary: day out)
  case 0
  then have gone: "local_day c to_t < day" by simp
  then have "to_t < day_open c day" by (rule local_day_before [OF ok])
  then show ?case using gone 0(3) by (subst between_loop.simps) (simp add: all_runs_def)
next
  case (Suc n)
  then have d: "day \<le> local_day c to_t" by simp
  have y: "100 \<le> year_of e" if "day \<le> e" for e using Suc.prems(1) year_of_mono [OF that] by simp
  have next_day: "addDays c (day_open c day) 1 = day_open c (day + 1)" by (rule addDays_open [OF ok Suc.prems(1)])
  have IH: "between_loop c spec from_t to_t limit (day_open c (day + 1)) out' =
      Some (take limit (out' @ all_runs c spec (day + 1) from_t to_t))" if "length out' < limit" for out'
    using Suc.hyps(1) [of "day + 1" out'] Suc.hyps(2) y [of "day + 1"] that by simp
  show ?case
  proof (cases "to_t < day_open c day")
    case True
    have "to_t < t" if "e \<in> set [day..local_day c to_t]" "t \<in> set (runs_of_day c spec e)" for t e
      using run_in_day [OF ok f y that(2)] day_open_mono [OF ok, of day e] that(1) True by auto
    then have "all_runs c spec day from_t to_t = []"
      by (fastforce simp: all_runs_def filter_empty_conv)
    then show ?thesis using True Suc.prems(2) by (subst between_loop.simps) simp
  next
    case False
    define now where "now = filter (\<lambda>t. from_t \<le> t \<and> t \<le> to_t) (runs_of_day c spec day)"
    have all: "all_runs c spec day from_t to_t = now @ all_runs c spec (day + 1) from_t to_t"
      using upto_rec1 [OF d] by (simp add: all_runs_def now_def)
    have step: "(if cronDayMatches c spec (day_open c day)
        then take_runs from_t to_t limit (dayRuns c spec (day_open c day)) out else (out, False)) =
      (take limit (out @ now), limit \<le> length (out @ now))"
      using take_runs_eq [OF Suc.prems(2), of from_t to_t "dayRuns c spec (day_open c day)"] Suc.prems(2) ok
      by (simp add: cronDayMatches_eq runs_of_day_def now_def)
    show ?thesis
    proof (cases "limit \<le> length (out @ now)")
      case True
      then show ?thesis using False step all by (subst between_loop.simps) simp
    next
      case more: False
      then have "take limit (out @ now) = out @ now" by simp
      then show ?thesis
        using False more step all IH [of "out @ now"] next_day by (subst between_loop.simps) simp
    qed
  qed
qed

lemma all_runs_set:
  assumes ok: "clock_ok c" and f: "spec_fields_ok spec" and y: "100 \<le> year_of (local_day c from_t)"
  shows "set (all_runs c spec (local_day c from_t) from_t to_t) = {t \<in> named_times c spec. from_t \<le> t \<and> t \<le> to_t}"
proof -
  have ye: "100 \<le> year_of e" if "local_day c from_t \<le> e" for e using y year_of_mono [OF that] by simp
  have "(\<exists>day\<in>{local_day c from_t..local_day c to_t}. t \<in> set (runs_of_day c spec day)) \<longleftrightarrow> t \<in> named_times c spec"
    if t: "from_t \<le> t" "t \<le> to_t" for t
  proof
    assume "\<exists>day\<in>{local_day c from_t..local_day c to_t}. t \<in> set (runs_of_day c spec day)"
    then show "t \<in> named_times c spec"
      using runs_of_day_set [OF ok ye] by (auto simp: named_times_def split: if_splits)
  next
    assume "t \<in> named_times c spec"
    then obtain day h m where dm: "day_matches spec day" "h \<in> set (cs_hour spec)" "m \<in> set (cs_minute spec)"
      "t = to_epoch c (day * 86400 + h * 3600 + m * 60)" by (auto simp: named_times_def)
    have "local_day c t = day" using ok minute_in_day [OF f dm(2,3), of day] dm(4) by (simp add: clock_ok_def)
    then have range: "day \<in> {local_day c from_t..local_day c to_t}" using ok t unfolding clock_ok_def by auto
    then have "t \<in> set (runs_of_day c spec day)"
      using runs_of_day_set [OF ok ye [of day], of spec] dm by auto
    then show "\<exists>day\<in>{local_day c from_t..local_day c to_t}. t \<in> set (runs_of_day c spec day)" using range by blast
  qed
  then show ?thesis by (auto simp: all_runs_def)
qed

lemma cron_window_runs:
  assumes "clock_ok c" and "parseCron expr = Inr spec" and "100 \<le> year_of (local_day c from_t)" and "1 \<le> limit"
  shows "\<exists>rs. cronRunsBetween c spec from_t to_t limit = Some (take limit rs) \<and>
    set rs = {t \<in> named_times c spec. from_t \<le> t \<and> t \<le> to_t}"
proof -
  have f: "spec_fields_ok spec" using parse_steps [OF assms(2)] by simp
  define rs where "rs = all_runs c spec (local_day c from_t) from_t to_t"
  have "cronRunsBetween c spec from_t to_t limit = Some (take limit rs)"
    using between_loop_eq [OF assms(1) f assms(3), of "[]" limit from_t to_t] assms(4)
    by (simp add: cronRunsBetween_def start_day_open [OF assms(3)] rs_def)
  moreover have "set rs = {t \<in> named_times c spec. from_t \<le> t \<and> t \<le> to_t}"
    unfolding rs_def by (rule all_runs_set [OF assms(1) f assms(3)])
  ultimately show ?thesis by blast
qed

lemma cron_window:
  assumes "clock_ok c" and "parseCron expr = Inr spec" and "100 \<le> year_of (local_day c from_t)" and "1 \<le> limit"
  shows "\<exists>runs. cronRunsBetween c spec from_t to_t limit = Some runs \<and> length runs \<le> limit \<and>
    set runs \<subseteq> {t \<in> named_times c spec. from_t \<le> t \<and> t \<le> to_t} \<and>
    (length runs < limit \<longrightarrow> set runs = {t \<in> named_times c spec. from_t \<le> t \<and> t \<le> to_t})"
proof -
  obtain rs where rs: "cronRunsBetween c spec from_t to_t limit = Some (take limit rs)"
    "set rs = {t \<in> named_times c spec. from_t \<le> t \<and> t \<le> to_t}" using cron_window_runs [OF assms] by blast
  moreover have "length (take limit rs) < limit \<longrightarrow> take limit rs = rs" by simp
  ultimately show ?thesis by (intro exI [of _ "take limit rs"]) (auto dest: in_set_takeD)
qed

text \<open>Property C7: a window shows exactly the runs in it. For a line that was accepted and a limit
  of at least one, the loop over the days returns; it returns the moments inside the window that
  the line names in local time, all of them or, when there are more, as many as the limit allows.\<close>

theorem cron_window_exact:
  assumes "clock_ok c" and "parseCron expr = Inr spec" and "100 \<le> year_of (local_day c from_t)" and "1 \<le> limit"
  shows "\<exists>runs. cronRunsBetween c spec from_t to_t limit = Some runs \<and> length runs \<le> limit \<and>
    set runs \<subseteq> {t \<in> named_times c spec. from_t \<le> t \<and> t \<le> to_t} \<and>
    (length runs < limit \<longrightarrow> set runs = {t \<in> named_times c spec. from_t \<le> t \<and> t \<le> to_t})"
  by (rule cron_window [OF assms])

section \<open>The calendar reaches every date\<close>

lemma leap_within_eight: "\<exists>k. 0 \<le> k \<and> k \<le> 7 \<and> leap (y + k)"
proof -
  define k where "k = (- y) mod 4"
  have k: "0 \<le> k" "k \<le> 3" unfolding k_def by simp_all
  have four: "(y + k) mod 4 = 0" unfolding k_def by presburger
  show ?thesis
  proof (cases "(y + k) mod 100 = 0")
    case False
    then show ?thesis using k four by (intro exI [of _ k]) (simp add: leap_def)
  next
    case True
    have "(y + k + 4) mod 100 = ((y + k) mod 100 + 4) mod 100" by (simp only: mod_add_left_eq)
    then have "(y + k + 4) mod 100 = 4" using True by simp
    moreover have "(y + k + 4) mod 4 = 0" using four by simp
    ultimately have "leap (y + (k + 4))" by (simp add: leap_def add.assoc)
    then show ?thesis using k by (intro exI [of _ "k + 4"]) simp
  qed
qed

lemma year_start_span: "0 \<le> n \<Longrightarrow> 400 * (year_start (y + n) - year_start y) \<le> 146097 * n + 1095"
  using year_start_bounds(2) [of "y + n"] year_start_bounds(1) [of y] by (simp add: algebra_simps)

text \<open>Every date that some year has comes within 2929 days, a 29 February included.\<close>

lemma date_within:
  assumes m: "m < 12" and d: "1 \<le> d" "d \<le> month_lengths True ! m"
  shows "\<exists>e. day < e \<and> e \<le> day + 2929 \<and> month_of e = m \<and> date_of e = d"
proof -
  define y where "y = year_of day"
  have yb: "year_start y \<le> day" "day < year_start (y + 1)" using year_of_bounds [of day] by (simp_all add: y_def)
  show ?thesis
  proof (cases "d \<le> month_lengths False ! m")
    case True
    have len: "d \<le> month_lengths (leap (y + 1)) ! m" using True d(2) by (cases "leap (y + 1)") simp_all
    define e where "e = make_day (y + 1) (int m) d"
    have e: "e = year_start (y + 1) + (month_start (leap (y + 1)) m + d - 1)" using m by (simp add: e_def make_day_def Let_def)
    have "0 \<le> month_start (leap (y + 1)) m + d - 1" "month_start (leap (y + 1)) m + d - 1 \<le> 366"
      using month_start_bounds [OF m, of "leap (y + 1)"] len d(1) by (auto split: if_splits)
    then have "day < e" "e \<le> day + 2929" using yb year_start_step [of y] e by (auto split: if_splits)
    then show ?thesis using month_and_date_make(2,3) [OF m d(1) len] e_def by blast
  next
    case False
    have feb: "m = 1 \<and> d = 29"
      using False d m by (auto simp: month_lengths_def numeral_eq_Suc less_Suc_eq)
    have feb29: "make_day z 1 29 = year_start z + 59 \<and> month_of (make_day z 1 29) = 1 \<and> date_of (make_day z 1 29) = 29"
      if "leap z" for z
      using month_and_date_make(2,3) [of 1 29 z] that by (simp add: make_day_def Let_def month_start_def month_lengths_def)
    define start where "start = (if day < year_start y + 59 then y else y + 1)"
    obtain k where k: "0 \<le> k" "k \<le> 7" "leap (start + k)" using leap_within_eight by blast
    define e where "e = make_day (start + k) 1 29"
    have e: "e = year_start (start + k) + 59" using feb29 [OF k(3)] by (simp add: e_def)
    have "day < e \<and> e \<le> day + 2929"
    proof (cases "day < year_start y + 59")
      case True
      have "year_start y \<le> year_start (y + k)" using k(1) by (intro year_start_mono) simp
      moreover have "400 * (year_start (y + k) - year_start y) \<le> 146097 * k + 1095" by (rule year_start_span [OF k(1)])
      ultimately show ?thesis using e True yb k(2) by (simp add: start_def)
    next
      case False
      have "year_start (y + 1) \<le> year_start (y + 1 + k)" using k(1) by (intro year_start_mono) simp
      moreover have "400 * (year_start (y + (1 + k)) - year_start y) \<le> 146097 * (1 + k) + 1095"
        using k(1) by (intro year_start_span) simp
      ultimately show ?thesis using e False yb k(2) by (simp add: start_def add.assoc)
    qed
    then show ?thesis using feb29 [OF k(3)] feb e_def by auto
  qed
qed

text \<open>So does every weekday in every month.\<close>

lemma weekday_within:
  assumes m: "m < 12" and w: "0 \<le> w" "w \<le> 6"
  shows "\<exists>e. day < e \<and> e \<le> day + 2929 \<and> month_of e = m \<and> weekday_of_day e = w \<and> 1 \<le> date_of e \<and> date_of e \<le> 7"
proof -
  define y where "y = year_of day + 1"
  define j where "j = (w - weekday_of_day (make_day y (int m) 1)) mod 7"
  have j: "0 \<le> j" "j \<le> 6" by (simp_all add: j_def)
  define e where "e = make_day y (int m) (1 + j)"
  have len: "1 + j \<le> month_lengths (leap y) ! m"
    using m j(2) by (auto simp: month_lengths_def numeral_eq_Suc less_Suc_eq)
  have ei: "e = make_day y (int m) 1 + j" using make_day_shift [of y "int m" 1 j] by (simp add: e_def)
  have "weekday_of_day e = (weekday_of_day (make_day y (int m) 1) + j) mod 7"
    by (simp add: ei weekday_of_day_def mod_add_left_eq mod_add_right_eq algebra_simps)
  also have "\<dots> = w" unfolding j_def using w by (simp add: mod_add_right_eq)
  finally have wd: "weekday_of_day e = w" .
  have e: "e = year_start y + (month_start (leap y) m + (1 + j) - 1)" using m by (simp add: e_def make_day_def Let_def)
  have "0 \<le> month_start (leap y) m + (1 + j) - 1" "month_start (leap y) m + (1 + j) - 1 \<le> 366"
    using month_start_bounds [OF m, of "leap y"] len j(1) by (auto split: if_splits)
  then have "day < e \<and> e \<le> day + 2929"
    using year_of_bounds [of day] year_start_step [of "year_of day"] e by (auto simp: y_def split: if_splits)
  then show ?thesis using month_and_date_make(2,3) [OF m _ len] j wd e_def by auto
qed

section \<open>The search for the next runs\<close>

text \<open>The loops return the start of the list of all runs after the moment, day by day.\<close>

lemma push_after_eq:
  assumes "length out < wanted"
  shows "push_after after wanted ats out = take wanted (out @ filter (\<lambda>t. after < t) ats)"
  using assms
proof (induction ats arbitrary: out)
  case (Cons a ats)
  show ?case
  proof (cases "after < a")
    case True
    show ?thesis
    proof (cases "wanted \<le> length (out @ [a])")
      case full: True
      with Cons.prems have "wanted = length (out @ [a])" by simp
      with True full show ?thesis by simp
    next
      case False
      with Cons.IH [of "out @ [a]"] True show ?thesis by simp
    qed
  qed (use Cons in simp)
qed simp

lemma next_loop_eq:
  assumes ok: "clock_ok c"
  shows "100 \<le> year_of day \<Longrightarrow> length out \<le> wanted \<Longrightarrow>
    next_loop c spec after wanted n (day_open c day) out =
      take wanted (out @ filter (\<lambda>t. after < t) (concat (map (runs_of_day c spec) [day..day + int n - 1])))"
proof (induction n arbitrary: day out)
  case (Suc n)
  have days: "[day..day + int (Suc n) - 1] = day # [day + 1..day + 1 + int n - 1]"
    by (simp add: upto_rec1)
  show ?case
  proof (cases "wanted \<le> length out")
    case True
    then show ?thesis using Suc.prems(2) by simp
  next
    case False
    define now where "now = filter (\<lambda>t. after < t) (runs_of_day c spec day)"
    have y: "100 \<le> year_of (day + 1)" using Suc.prems(1) year_of_mono [of day "day + 1"] by simp
    have now: "(if cronDayMatches c spec (day_open c day) then push_after after wanted (dayRuns c spec (day_open c day)) out else out) =
        take wanted (out @ now)"
      using push_after_eq [of out wanted after] False ok by (simp add: now_def runs_of_day_def cronDayMatches_eq)
    have "next_loop c spec after wanted (Suc n) (day_open c day) out =
        take wanted (take wanted (out @ now) @ filter (\<lambda>t. after < t) (concat (map (runs_of_day c spec) [day + 1..day + 1 + int n - 1])))"
      using Suc.IH [OF y, of "take wanted (out @ now)"] False addDays_open [OF ok Suc.prems(1), of 1]
      by (simp only: next_loop.simps now if_False) simp
    also have "\<dots> = take wanted (out @ now @ filter (\<lambda>t. after < t) (concat (map (runs_of_day c spec) [day + 1..day + 1 + int n - 1])))"
      using False by (cases "length (out @ now) \<le> wanted") auto
    finally show ?thesis unfolding days by (simp add: now_def)
  qed
qed simp

definition upcoming :: "clock \<Rightarrow> cron_spec \<Rightarrow> int \<Rightarrow> int list" where
  "upcoming c spec after = filter (\<lambda>t. after < t)
     (concat (map (runs_of_day c spec) [local_day c after..local_day c after + int SEARCH_DAYS - 1]))"

lemma next_runs_eq:
  assumes "clock_ok c" and "100 \<le> year_of (local_day c after)"
  shows "nextCronRuns c spec after wanted = take wanted (upcoming c spec after)"
  using next_loop_eq [OF assms, of "[]" wanted spec after SEARCH_DAYS]
  by (simp add: nextCronRuns_def start_day_open [OF assms(2)] upcoming_def)

lemma upcoming_set:
  assumes ok: "clock_ok c" and f: "spec_fields_ok spec" and y: "100 \<le> year_of (local_day c after)"
  shows "set (upcoming c spec after) = {t \<in> named_times c spec. after < t \<and> local_day c t < local_day c after + int SEARCH_DAYS}"
proof -
  let ?d = "local_day c after"
  have ye: "100 \<le> year_of e" if "?d \<le> e" for e using y year_of_mono [OF that] by simp
  have "t \<in> named_times c spec \<and> local_day c t = e" if "t \<in> set (runs_of_day c spec e)" "?d \<le> e" for t e
    using run_in_day [OF ok f ye that(1)] runs_of_day_set [OF ok ye, of e spec] that
    by (auto simp: named_times_def split: if_splits)
  moreover have "t \<in> set (runs_of_day c spec (local_day c t)) \<and> ?d \<le> local_day c t"
    if t: "t \<in> named_times c spec" "after < t" for t
  proof -
    obtain day h m where dm: "day_matches spec day" "h \<in> set (cs_hour spec)" "m \<in> set (cs_minute spec)"
      "t = to_epoch c (day * 86400 + h * 3600 + m * 60)" using t(1) by (auto simp: named_times_def)
    have day: "local_day c t = day" using ok minute_in_day [OF f dm(2,3), of day] dm(4) by (simp add: clock_ok_def)
    have later: "?d \<le> day" using ok t(2) unfolding day [symmetric] clock_ok_def by simp
    then show ?thesis using runs_of_day_set [OF ok ye, of day spec] dm unfolding day by auto
  qed
  ultimately show ?thesis by (fastforce simp: upcoming_def)
qed

text \<open>The runs of a day follow one another, unless the zone turns its clock back over them.\<close>

lemma push_new_sorted:
  "sorted (out @ xs) \<Longrightarrow> sorted_wrt (<) out \<Longrightarrow> sorted_wrt (<) (fold push_new xs (out :: int list))"
proof (induction xs arbitrary: out)
  case (Cons x xs)
  have "out = [] \<or> (\<exists>ys y. out = ys @ [y])" by (metis rev_exhaust)
  then have "sorted (push_new x out @ xs) \<and> sorted_wrt (<) (push_new x out)"
    using Cons.prems by (auto simp: push_new_def sorted_append sorted_wrt_append split: if_splits) force+
  then show ?case using Cons.IH [of "push_new x out"] by simp
qed simp

lemma runs_of_day_sorted:
  assumes ok: "clock_ok c" and f: "spec_fields_ok spec" and y: "100 \<le> year_of day" and m: "mono (to_epoch c)"
  shows "sorted_wrt (<) (runs_of_day c spec day)"
proof -
  let ?T = "\<lambda>h mi. to_epoch c (day * 86400 + h * 3600 + mi * 60)"
  let ?ms = "sort_by compareNumbers (cs_minute spec)"
  have ms: "sorted ?ms" "\<forall>x\<in>set ?ms. 0 \<le> x \<and> x \<le> 59"
    using f sorted_numbers by (auto simp: spec_fields_ok_def field_ok_def)
  have one: "sorted (map (?T h) ?ms)" for h
    using ms(1) monoD [OF m] by (auto simp: sorted_map intro!: sorted_wrt_mono_rel [of ?ms "(\<le>)"])
  have "sorted (concat (map (\<lambda>h. map (?T h) ?ms) hs))" if "sorted_wrt (<) hs" for hs
    using that
  proof (induction hs)
    case (Cons h hs)
    have "?T h x \<le> ?T k z" if "k \<in> set hs" "x \<in> set ?ms" "z \<in> set ?ms" for k x z
    proof -
      have "h < k" using Cons.prems that(1) by simp
      moreover have "x \<le> 59" "0 \<le> z" using ms(2) that(2,3) by blast+
      ultimately have "h * 3600 + x * 60 \<le> k * 3600 + z * 60" by linarith
      then show ?thesis by (intro monoD [OF m]) simp
    qed
    then show ?case using Cons one by (auto simp: sorted_append)
  qed simp
  moreover have "sorted_wrt (<) (sort_by compareNumbers (cs_hour spec))"
    using f by (intro sort_numbers_distinct) (simp add: spec_fields_ok_def field_ok_def)
  ultimately have "sorted (concat (map (\<lambda>h. map (?T h) ?ms) (sort_by compareNumbers (cs_hour spec))))" by blast
  moreover have "dayRuns c spec (day_open c day) =
      fold push_new (concat (map (\<lambda>h. map (?T h) ?ms) (sort_by compareNumbers (cs_hour spec)))) []"
    using new_date_same_day [of c "day_open c day" 0] y ok by (simp add: dayRuns_def Let_def)
  ultimately show ?thesis using push_new_sorted [of "[]"] by (simp add: runs_of_day_def)
qed

lemma sorted_all: "(\<And>t u. t \<in> set xs \<Longrightarrow> u \<in> set xs \<Longrightarrow> P t u) \<Longrightarrow> sorted_wrt P xs"
  by (induction xs) auto

lemma days_sorted:
  assumes "\<And>e. e \<in> set days \<Longrightarrow> sorted_wrt P (f e)" and "sorted_wrt (<) days"
    and "\<And>d e t u. d \<in> set days \<Longrightarrow> e \<in> set days \<Longrightarrow> d < e \<Longrightarrow> t \<in> set (f d) \<Longrightarrow> u \<in> set (f e) \<Longrightarrow> P t u"
  shows "sorted_wrt P (concat (map f (days :: int list)))"
  using assms
proof (induction days)
  case (Cons d days)
  have "sorted_wrt P (concat (map f days))"
  proof (rule Cons.IH)
    show "sorted_wrt P (f e)" if "e \<in> set days" for e using Cons.prems(1) that by simp
    show "sorted_wrt (<) days" using Cons.prems(2) by simp
    show "P t u" if "d' \<in> set days" "e \<in> set days" "d' < e" "t \<in> set (f d')" "u \<in> set (f e)" for d' e t u
      using Cons.prems(3) [of d' e t u] that by simp
  qed
  moreover have "sorted_wrt P (f d)" using Cons.prems(1) by simp
  moreover have "P t u" if "t \<in> set (f d)" "e \<in> set days" "u \<in> set (f e)" for t u e
    using that Cons.prems(2) by (intro Cons.prems(3) [of d e]) auto
  ultimately show ?case by (auto simp: sorted_wrt_append)
qed simp

lemma upcoming_sorted:
  assumes ok: "clock_ok c" and f: "spec_fields_ok spec" and y: "100 \<le> year_of (local_day c after)"
  shows "sorted_wrt (\<lambda>t u. local_day c t \<le> local_day c u) (upcoming c spec after)"
    and "mono (to_epoch c) \<Longrightarrow> sorted_wrt (<) (upcoming c spec after)"
proof -
  let ?days = "[local_day c after..local_day c after + int SEARCH_DAYS - 1]"
  have ye: "100 \<le> year_of e" if "e \<in> set ?days" for e
    using y year_of_mono [of "local_day c after" e] that by simp
  have day: "local_day c t = e" if "e \<in> set ?days" "t \<in> set (runs_of_day c spec e)" for e t
    using run_in_day [OF ok f ye that(2)] that(1) by blast
  have days: "sorted_wrt (<) ?days" by (simp add: strict_sorted_iff)
  have "sorted_wrt (\<lambda>t u. local_day c t \<le> local_day c u) (concat (map (runs_of_day c spec) ?days))"
  proof (rule days_sorted [OF _ days])
    show "sorted_wrt (\<lambda>t u. local_day c t \<le> local_day c u) (runs_of_day c spec e)" if "e \<in> set ?days" for e
      using day [OF that] by (intro sorted_all) simp
    show "local_day c t \<le> local_day c u"
      if "d \<in> set ?days" "e \<in> set ?days" "d < e" "t \<in> set (runs_of_day c spec d)" "u \<in> set (runs_of_day c spec e)" for d e t u
      using day [OF that(1,4)] day [OF that(2,5)] that(3) by simp
  qed
  then show "sorted_wrt (\<lambda>t u. local_day c t \<le> local_day c u) (upcoming c spec after)"
    unfolding upcoming_def by (rule sorted_wrt_filter)
  assume m: "mono (to_epoch c)"
  have earlier: "t < u" if "local_day c t < local_day c u" for t u
    using that ok unfolding clock_ok_def by (meson not_le)
  have "sorted_wrt (<) (concat (map (runs_of_day c spec) ?days))"
  proof (intro days_sorted [OF _ days] runs_of_day_sorted [OF ok f ye m])
    show "t < u" if "d \<in> set ?days" "e \<in> set ?days" "d < e" "t \<in> set (runs_of_day c spec d)" "u \<in> set (runs_of_day c spec e)" for d e t u
      using day [OF that(1,4)] day [OF that(2,5)] that(3) earlier by simp
  qed
  then show "sorted_wrt (<) (upcoming c spec after)"
    unfolding upcoming_def by (rule sorted_wrt_filter)
qed

text \<open>A day field that counts as any is not a stepped wildcard.\<close>

definition plain_wildcards :: "cron_spec \<Rightarrow> bool" where
  "plain_wildcards spec \<longleftrightarrow> (cs_domAny spec \<longrightarrow> {1..31} \<subseteq> set (cs_dom spec)) \<and>
     (cs_dowAny spec \<longrightarrow> {0..6} \<subseteq> set (cs_dow spec))"

lemma some_day_matches:
  assumes f: "spec_fields_ok spec" and h: "hasADay spec" and p: "plain_wildcards spec"
  shows "\<exists>e. day < e \<and> e \<le> day + 2929 \<and> day_matches spec e"
proof (cases "cs_dowAny spec")
  case True
  then obtain mo d where mo: "mo \<in> set (cs_month spec)" "d \<in> set (cs_dom spec)" "d \<le> LONGEST ! nat (mo - 1)"
    using h by (auto simp: hasADay_def)
  define m where "m = nat (mo - 1)"
  have b: "1 \<le> mo" "mo \<le> 12" "1 \<le> d" using f mo by (auto simp: spec_fields_ok_def field_ok_def)
  then have m: "m < 12" "int m + 1 = mo" by (simp_all add: m_def)
  have "d \<le> month_lengths True ! m" using mo(3) by (simp add: m_def LONGEST_def month_lengths_def)
  from date_within [OF m(1) b(3) this, of day] obtain e where e: "day < e" "e \<le> day + 2929" "month_of e = m" "date_of e = d"
    by blast
  have "weekday_of_day e \<in> {0..6}" by (simp add: weekday_of_day_def)
  then have "weekday_of_day e \<in> set (cs_dow spec)" using p True unfolding plain_wildcards_def by blast
  then have "day_matches spec e" using e m mo True by (simp add: day_matches_def)
  then show ?thesis using e by blast
next
  case False
  obtain mo w where mo: "mo \<in> set (cs_month spec)" "w \<in> set (cs_dow spec)"
    using f by (metis field_ok_def hd_in_set spec_fields_ok_def)
  define m where "m = nat (mo - 1)"
  have b: "1 \<le> mo" "mo \<le> 12" "0 \<le> w" "w \<le> 6" using f mo by (auto simp: spec_fields_ok_def field_ok_def)
  then have m: "m < 12" "int m + 1 = mo" by (simp_all add: m_def)
  from weekday_within [OF m(1) b(3,4), of day] obtain e where e: "day < e" "e \<le> day + 2929" "month_of e = m"
    "weekday_of_day e = w" "1 \<le> date_of e" "date_of e \<le> 7" by blast
  have "date_of e \<in> set (cs_dom spec)" if "cs_domAny spec" using p that e(5,6) by (auto simp: plain_wildcards_def)
  then have "day_matches spec e" using e m mo False by (auto simp: day_matches_def Let_def)
  then show ?thesis using e by blast
qed


section \<open>Examples and limits\<close>

lemma parsed_example:
  assumes "case parseCron expr of Inl e \<Rightarrow> False | Inr spec \<Rightarrow> P spec"
  obtains spec where "parseCron expr = Inr spec" "P spec"
  using assms by (auto split: sum.splits)

theorem cron_window_exact_witness:
  "\<exists>spec runs. parseCron ''0 9 * * mon'' = Inr spec \<and> cronRunsBetween utc spec 0 604800 400 = Some runs \<and>
     length runs \<le> 400"
proof -
  have "case parseCron ''0 9 * * mon'' of Inl e \<Rightarrow> False | Inr spec \<Rightarrow> True" by code_simp
  then obtain spec where p: "parseCron ''0 9 * * mon'' = Inr spec" by (rule parsed_example)
  have "100 \<le> year_of (local_day utc 0)" by code_simp
  from cron_window_exact [OF utc_ok p this, of 400 604800] p show ?thesis by auto
qed


text \<open>A zone whose clock goes from 2:00 to 3:00 on the first day; a skipped time is read with
  the offset before the change, as \<open>Date\<close> does.\<close>

definition spring :: clock where
  "spring = \<lparr>to_local = (\<lambda>t. if t < 7200 then t else t + 3600),
     to_epoch = (\<lambda>t. if t < 10800 then t else t - 3600)\<rparr>"

lemma spring_ok: "clock_ok spring"
proof -
  have b: "t div 86400 * 86400 \<le> t" for t :: int
    using mult_div_mod_eq [of 86400 t] pos_mod_sign [of 86400 t] by simp
  have zero: "t div 86400 = 0" "(t + 3600) div 86400 = 0" if "7200 \<le> t" "t < 10800" for t :: int
    using that by (simp_all add: div_pos_pos_trivial)
  have far: "10800 \<le> t div 86400 * 86400 \<or> t div 86400 * 86400 \<le> 0" for t :: int
    by (cases "t div 86400 \<le> 0") auto
  have "local_day spring (to_epoch spring t) = t div 86400" for t
    using zero [of t] by (auto simp: spring_def local_day_def)
  moreover have "local_day spring t \<le> local_day spring u" if "t \<le> u" for t u
    using that by (auto simp: spring_def local_day_def intro!: zdiv_mono1)
  moreover have "to_epoch spring (t div 86400 * 86400) \<le> to_epoch spring t" for t
    using b [of t] far [of t] by (auto simp: spring_def)
  ultimately show ?thesis by (simp add: clock_ok_def)
qed

text \<open>There the runs of a window are neither in order nor distinct.\<close>

theorem skipped_hour_repeats:
  "\<exists>spec. parseCron ''0,30 2,3 * * *'' = Inr spec \<and>
     cronRunsBetween spring spec 0 80000 400 = Some [7200, 9000, 7200, 9000]"
proof -
  have "case parseCron ''0,30 2,3 * * *'' of Inl e \<Rightarrow> False | Inr spec \<Rightarrow>
      take 400 (all_runs spring spec (local_day spring 0) 0 80000) = [7200, 9000, 7200, 9000]" by code_simp
  then obtain spec where p: "parseCron ''0,30 2,3 * * *'' = Inr spec"
    "take 400 (all_runs spring spec (local_day spring 0) 0 80000) = [7200, 9000, 7200, 9000]" by (rule parsed_example)
  have y: "100 \<le> year_of (local_day spring 0)" by code_simp
  have f: "spec_fields_ok spec" using parse_steps [OF p(1)] by simp
  have "cronRunsBetween spring spec 0 80000 400 = Some (take 400 (all_runs spring spec (local_day spring 0) 0 80000))"
    using between_loop_eq [OF spring_ok f y, of "[]" 400 0 80000]
    by (simp add: cronRunsBetween_def start_day_open [OF y])
  with p show ?thesis by simp
qed

text \<open>And a stepped wildcard in a day field can outlast the search: on 1 March 2032 the next
  29 February that is a Sunday is 28 years away, and the preview of an accepted line is empty.\<close>

lemma next_loop_none:
  assumes ok: "clock_ok c"
  shows "100 \<le> year_of day \<Longrightarrow> \<forall>e. day \<le> e \<and> e < day + int n \<longrightarrow> \<not> day_matches spec e \<Longrightarrow>
    next_loop c spec after wanted n (day_open c day) out = out"
proof (induction n arbitrary: day)
  case (Suc n)
  have "\<not> day_matches spec day" using Suc.prems(2) by auto
  moreover have "100 \<le> year_of (day + 1)" using Suc.prems(1) year_of_mono [of day "day + 1"] by simp
  ultimately show ?case
    using Suc.IH [of "day + 1"] Suc.prems addDays_open [OF ok Suc.prems(1), of 1] ok by (simp add: cronDayMatches_eq)
qed simp

lemma leap_sunday:
  assumes "month_of e = 1" and "date_of e = 29" and "weekday_of_day e = 0" and "22705 \<le> e" and "e \<le> 22705 + 2929"
  shows False
proof -
  define y where "y = year_of e"
  have e: "e = make_day y 1 29" using month_and_date_day(4) [of e] assms(1,2) by (simp add: y_def)
  have "leap y" using month_and_date_day(3) [of e] assms(1,2) by (auto simp: y_def month_lengths_def split: if_splits)
  have "year_of 22705 \<le> y" "y \<le> year_of 25634" using assms(4,5) by (simp_all add: y_def year_of_mono)
  moreover have "year_of 22705 = 2032" "year_of 25634 = 2040" by code_simp+
  ultimately have "y = 2032 \<or> y = 2033 \<or> y = 2034 \<or> y = 2035 \<or> y = 2036 \<or> y = 2037 \<or> y = 2038 \<or> y = 2039 \<or> y = 2040"
    by arith
  then have "y = 2032 \<or> y = 2036 \<or> y = 2040" using \<open>leap y\<close> by (auto simp: leap_def)
  moreover have "make_day 2032 1 29 = 22704" "weekday_of_day (make_day 2036 1 29) \<noteq> 0" "weekday_of_day (make_day 2040 1 29) \<noteq> 0"
    by code_simp+
  ultimately show False using e assms(3,4) by auto
qed

theorem stepped_wildcard_unfound:
  "\<exists>spec. parseCron ''0 0 29 2 */7'' = Inr spec \<and> nextCronRuns utc spec 1961712000 1 = []"
proof -
  have "case parseCron ''0 0 29 2 */7'' of Inl e \<Rightarrow> False | Inr spec \<Rightarrow>
      cs_dom spec = [29] \<and> cs_month spec = [2] \<and> cs_dow spec = [0] \<and> cs_dowAny spec" by code_simp
  then obtain spec where p: "parseCron ''0 0 29 2 */7'' = Inr spec"
    "cs_dom spec = [29] \<and> cs_month spec = [2] \<and> cs_dow spec = [0] \<and> cs_dowAny spec" by (rule parsed_example)
  have y: "100 \<le> year_of (local_day utc 1961712000)" and d: "local_day utc 1961712000 = 22705" by code_simp+
  have "\<not> day_matches spec e" if "22705 \<le> e" "e < 22705 + int SEARCH_DAYS" for e
  proof
    assume "day_matches spec e"
    then have m: "month_of e = 1" "date_of e = 29" "weekday_of_day e = 0" using p(2) by (auto simp: day_matches_def Let_def)
    show False by (rule leap_sunday [OF m that(1)]) (use that(2) in \<open>simp add: SEARCH_DAYS_def\<close>)
  qed
  then have "next_loop utc spec 1961712000 1 SEARCH_DAYS (day_open utc 22705) [] = []"
    using y by (intro next_loop_none [OF utc_ok]) (simp_all add: d)
  then show ?thesis using p(1) y by (auto simp: nextCronRuns_def start_day_open d)
qed

end
