(* ===== verification/ScheduleRules.thy ===== *)
theory ScheduleRules
  imports CronExpr
begin

text \<open>
  The calendar vocabulary of scheduled jobs (\<open>jobsScheduleRules.ts\<close>): dates of the month, a
  position in the month and one-off dates; reading and writing the YAML value of \<open>days\<close>, and which
  days a rule matches. The phrases shown to the user (\<open>ordinal\<close>, \<open>joinWords\<close> and what is built
  from them with the browser's date formats) are left out. A YAML value has the shapes the code
  tells apart; numbers are integers.
\<close>

section \<open>Days values\<close>

definition WEEKDAYS :: "string list" where
  "WEEKDAYS = [''mon'', ''tue'', ''wed'', ''thu'', ''fri'', ''sat'', ''sun'']"

definition NTH_WORDS :: "string list" where
  "NTH_WORDS = [''first'', ''second'', ''third'', ''fourth'', ''last'']"

datatype days_value =
    Week "string list"
  | Dates "int list" bool
  | Nth string string
  | Once "string list"

record date_rule =
  dr_monthDays :: "int list option"
  dr_lastDay :: "bool option"
  dr_shortMonths :: "string option"
  dr_nth :: "string option"
  dr_nthOf :: "string option"
  dr_onDates :: "string list option"

datatype yaml = YUndefined | YNull | YString string | YNumber int | YList "yaml list"

text \<open>\<open>String(value)\<close>; inside a list, an absent item is the empty string.\<close>

definition int_str :: "int \<Rightarrow> string" where
  "int_str n = (if n < 0 then ''-'' @ nat_str (nat (- n)) else nat_str (nat n))"

fun yaml_string :: "yaml \<Rightarrow> string" where
  "yaml_string YUndefined = ''undefined''"
| "yaml_string YNull = ''null''"
| "yaml_string (YString s) = s"
| "yaml_string (YNumber n) = int_str n"
| "yaml_string (YList vs) = join '','' (map (\<lambda>v. if v = YUndefined \<or> v = YNull then [] else yaml_string v) vs)"

section \<open>Dates as text\<close>

text \<open>The three numbers of \<open>ISO_DATE\<close>.\<close>

definition iso_parts :: "string \<Rightarrow> (int \<times> int \<times> int) option" where
  "iso_parts s =
     (if length s = 10 \<and> list_all is_digit (take 4 s) \<and> s ! 4 = CHR ''-'' \<and> list_all is_digit (take 2 (drop 5 s)) \<and>
         s ! 7 = CHR ''-'' \<and> list_all is_digit (drop 8 s)
      then Some (int (str_nat (take 4 s)), int (str_nat (take 2 (drop 5 s))), int (str_nat (drop 8 s)))
      else None)"

definition parseIsoDate :: "clock \<Rightarrow> string \<Rightarrow> int option" where
  "parseIsoDate c text =
     (case iso_parts (trim text) of
        None \<Rightarrow> None
      | Some (y, m, d) \<Rightarrow> let t = new_date c y (m - 1) d 0 0 in if getMonth c t = m - 1 then Some t else None)"

definition p2 :: "int \<Rightarrow> string" where
  "p2 n = (let s = int_str n in replicate (2 - length s) CHR ''0'' @ s)"

definition isoDate :: "clock \<Rightarrow> int \<Rightarrow> string" where
  "isoDate c t = int_str (getFullYear c t) @ ''-'' @ p2 (getMonth c t + 1) @ ''-'' @ p2 (getDate c t)"

section \<open>Reading and writing\<close>

definition readNth :: "string \<Rightarrow> days_value option" where
  "readNth text =
     (let words = split_blanks (to_lower (trim text))
      in if 2 < length words \<or> words ! 0 \<notin> set NTH_WORDS then None
         else if length words < 2 then None
         else let w = words ! 1
              in if w = ''day'' \<or> w = ''weekday'' \<or> w \<in> set WEEKDAYS then Some (Nth (words ! 0) w) else None)"

text \<open>What the loop over the items has gathered: dates, calendar dates, other words, \<open>last\<close>.\<close>

type_synonym gathered = "int list \<times> string list \<times> string list \<times> bool"

definition read_item :: "clock \<Rightarrow> gathered \<Rightarrow> yaml \<Rightarrow> gathered" where
  "read_item c s item =
     (case s of (dates, once, week, last_day) \<Rightarrow>
       let t = to_lower (trim (yaml_string item))
       in if t = ''last'' then (dates, once, week, True)
          else if all_digits t \<and> length t \<le> 2 \<and> 1 \<le> str_nat t \<and> str_nat t \<le> 31
          then (dates @ [int (str_nat t)], once, week, last_day)
          else if parseIsoDate c t \<noteq> None then (dates, once @ [t], week, last_day)
          else (dates, once, set_add t week, last_day))"

definition readDaysValue :: "clock \<Rightarrow> yaml \<Rightarrow> days_value" where
  "readDaysValue c v =
     (let from_items = (\<lambda>items.
        (case foldl (read_item c) ([], [], [], False) items of (dates, once, week, last_day) \<Rightarrow>
          if once \<noteq> [] then Once (sort_by compareNames (to_set once))
          else if dates \<noteq> [] \<or> last_day then Dates (sort_by compareNumbers (to_set dates)) last_day
          else Week (filter (\<lambda>d. d \<in> set week) WEEKDAYS)))
      in case v of
           YString s \<Rightarrow>
             if \<exists>ch\<in>set (trim s). is_space ch
             then (case readNth s of None \<Rightarrow> Week [] | Some d \<Rightarrow> d) else from_items [v]
         | YList items \<Rightarrow> from_items items
         | YUndefined \<Rightarrow> from_items []
         | YNull \<Rightarrow> from_items []
         | YNumber n \<Rightarrow> from_items [v])"

fun writeDaysValue :: "days_value \<Rightarrow> yaml" where
  "writeDaysValue (Week days) =
     (if 0 < length days \<and> length days < 7
      then YList (map YString (filter (\<lambda>d. d \<in> set days) WEEKDAYS)) else YUndefined)"
| "writeDaysValue (Dates dates last_day) =
     YList (map YNumber (sort_by compareNumbers (to_set dates)) @ (if last_day then [YString ''last''] else []))"
| "writeDaysValue (Nth pos w) = YString (pos @ '' '' @ w)"
| "writeDaysValue (Once dates) = YList (map YString dates)"

section \<open>Matching days\<close>

definition isOnce :: "date_rule \<Rightarrow> bool" where
  "isOnce s = (case dr_onDates s of None \<Rightarrow> False | Some ds \<Rightarrow> 0 < length ds)"

definition hasDateRule :: "date_rule \<Rightarrow> bool" where
  "hasDateRule s =
     ((case dr_monthDays s of None \<Rightarrow> False | Some ds \<Rightarrow> 0 < length ds) \<or> dr_lastDay s = Some True \<or>
      dr_nth s \<noteq> None \<or> isOnce s)"

definition daysInMonth :: "clock \<Rightarrow> int \<Rightarrow> int" where
  "daysInMonth c day = getDate c (new_date c (getFullYear c day) (getMonth c day + 1) 0 0 0)"

definition isWorkday :: "clock \<Rightarrow> int \<Rightarrow> bool" where
  "isWorkday c d = (getDay c d \<noteq> 0 \<and> getDay c d \<noteq> 6)"

definition nthMatches :: "clock \<Rightarrow> int \<Rightarrow> string \<Rightarrow> string \<Rightarrow> bool" where
  "nthMatches c day pos w =
     (let dim = daysInMonth c day; date = getDate c day; index = indexOf pos NTH_WORDS + 1; isLast = (pos = ''last'')
      in if w = ''day'' then date = (if isLast then dim else index)
         else if w = ''weekday'' then
           (if \<not> isWorkday c day then False
            else let workdays = filter (\<lambda>n. isWorkday c (new_date c (getFullYear c day) (getMonth c day) n 0 0)) [1..dim]
                 in at_index workdays (if isLast then int (length workdays) - 1 else index - 1) = Some date)
         else if at_index WEEKDAYS ((getDay c day + 6) mod 7) \<noteq> Some w then False
         else if isLast then dim < date + 7 else (date - 1) div 7 + 1 = index)"

definition dateRuleMatches :: "clock \<Rightarrow> date_rule \<Rightarrow> int \<Rightarrow> bool" where
  "dateRuleMatches c s day =
     (if isOnce s then isoDate c day \<in> set (case dr_onDates s of None \<Rightarrow> [] | Some ds \<Rightarrow> ds)
      else if truthy (dr_nth s) \<and> truthy (dr_nthOf s) then nthMatches c day (the (dr_nth s)) (the (dr_nthOf s))
      else let dim = daysInMonth c day; date = getDate c day;
               dates = (case dr_monthDays s of None \<Rightarrow> [] | Some ds \<Rightarrow> ds)
           in if date \<in> set dates then True
              else if date \<noteq> dim then False
              else dr_lastDay s = Some True \<or> (dr_shortMonths s = Some ''last'' \<and> (\<exists>d\<in>set dates. dim < d)))"

section \<open>Phrases\<close>

definition DAY_LONG :: "(string \<times> string) list" where
  "DAY_LONG = [(''mon'', ''Monday''), (''tue'', ''Tuesday''), (''wed'', ''Wednesday''), (''thu'', ''Thursday''), (''fri'', ''Friday''), (''sat'', ''Saturday''), (''sun'', ''Sunday'')]"

definition ordinal :: "nat \<Rightarrow> string" where
  "ordinal n =
     (let t = n mod 100
      in nat_str n @ (if 11 \<le> t \<and> t \<le> 13 then ''th'' else if n mod 10 = 1 then ''st'' else if n mod 10 = 2 then ''nd'' else if n mod 10 = 3 then ''rd'' else ''th''))"

definition joinWords :: "string list \<Rightarrow> string" where
  "joinWords ws =
     (if length ws \<le> 1 then (case ws of [] \<Rightarrow> [] | w # _ \<Rightarrow> w) else join '', '' (butlast ws) @ '' and '' @ last ws)"

definition nthOfLabel :: "string \<Rightarrow> string" where
  "nthOfLabel w = (if w = ''day'' \<or> w = ''weekday'' then w else case map_of DAY_LONG w of Some l \<Rightarrow> l | None \<Rightarrow> ''undefined'')"

definition monthDatesPhrase :: "int list \<Rightarrow> bool \<Rightarrow> string" where
  "monthDatesPhrase dates last_day =
     (let ws = map (\<lambda>d. ordinal (nat d)) (sort_by (\<lambda>a b. a - b) dates)
      in ''the '' @ joinWords (if last_day then ws @ [''last day''] else ws))"

text \<open>\<open>format_date\<close> is \<open>toLocaleDateString\<close> of the runtime.\<close>

definition onDatePhrase :: "clock \<Rightarrow> (int \<Rightarrow> string) \<Rightarrow> string \<Rightarrow> string" where
  "onDatePhrase c format_date d = (case parseIsoDate c d of None \<Rightarrow> d | Some day \<Rightarrow> format_date day)"

definition dateRulePhrase :: "clock \<Rightarrow> (int \<Rightarrow> string) \<Rightarrow> date_rule \<Rightarrow> string" where
  "dateRulePhrase c format_date s =
     (if isOnce s then ''on '' @ joinWords (map (onDatePhrase c format_date) (case dr_onDates s of None \<Rightarrow> [] | Some ds \<Rightarrow> ds))
      else if truthy (dr_nth s) \<and> truthy (dr_nthOf s) then ''on the '' @ the (dr_nth s) @ '' '' @ nthOfLabel (the (dr_nthOf s)) @ '' of every month''
      else ''on '' @ monthDatesPhrase (case dr_monthDays s of None \<Rightarrow> [] | Some ds \<Rightarrow> ds) (dr_lastDay s = Some True) @ '' of every month'')"

section \<open>The days of a month\<close>

text \<open>The civil fields of the midnight that opens a day.\<close>

definition civil_day :: "clock \<Rightarrow> int \<Rightarrow> nat \<Rightarrow> int \<Rightarrow> int" where
  "civil_day c y m d = day_open c (make_day y (int m) d)"

lemma civil_fields:
  assumes "clock_ok c" and "m < 12" and "1 \<le> d" and "d \<le> month_lengths (leap y) ! m"
  shows "getFullYear c (civil_day c y m d) = y" "getMonth c (civil_day c y m d) = int m"
    "getDate c (civil_day c y m d) = d" "getDay c (civil_day c y m d) = (make_day y (int m) 1 + d + 3) mod 7"
proof -
  show "getFullYear c (civil_day c y m d) = y" "getMonth c (civil_day c y m d) = int m" "getDate c (civil_day c y m d) = d"
    using month_and_date_make [OF assms(2,3,4)] assms(1)
    by (simp_all add: getFullYear_def getMonth_def getDate_def civil_day_def)
  have "make_day y (int m) d + 4 = make_day y (int m) 1 + d + 3"
    using make_day_shift [of y "int m" 1 "d - 1"] by simp
  then have "weekday_of_day (make_day y (int m) d) = (make_day y (int m) 1 + d + 3) mod 7"
    unfolding weekday_of_day_def by (rule arg_cong)
  then show "getDay c (civil_day c y m d) = (make_day y (int m) 1 + d + 3) mod 7"
    using assms(1) by (simp add: getDay_def civil_day_def)
qed

lemma month_end:
  assumes "m < 12"
  shows "make_day y (int m + 1) 0 = make_day y (int m) (month_lengths (leap y) ! m)"
proof (cases "m = 11")
  case True
  have "year_start (y + 1) = year_start y + (if leap y then 366 else 365)" by (rule year_start_step)
  with True show ?thesis by (simp add: make_day_def Let_def month_start_def month_lengths_def)
next
  case False
  then have m: "m < 11" using assms by simp
  have "month_start (leap y) (Suc m) = month_start (leap y) m + month_lengths (leap y) ! m"
    using assms by (simp add: month_start_def take_Suc_conv_app_nth)
  moreover have "nat ((int m + 1) mod 12) = Suc m" "(int m + 1) div 12 = 0" using m by simp_all
  ultimately show ?thesis using m by (simp add: make_day_def Let_def)
qed

lemma daysInMonth_civil:
  assumes "clock_ok c" and "100 \<le> y" and "m < 12" and "1 \<le> d" and "d \<le> month_lengths (leap y) ! m"
  shows "daysInMonth c (civil_day c y m d) = month_lengths (leap y) ! m"
proof -
  have len: "1 \<le> month_lengths (leap y) ! m" using assms(4,5) by simp
  have "new_date c y (int m + 1) 0 0 0 = civil_day c y m (month_lengths (leap y) ! m)"
    using assms(2) month_end [OF assms(3), of y] by (simp add: new_date_def civil_day_def day_open_def)
  then show ?thesis
    using civil_fields [OF assms(1,3,4,5)] civil_fields(3) [OF assms(1,3) len order_refl]
    by (simp add: daysInMonth_def)
qed

lemma seven_days: "0 \<le> k \<Longrightarrow> k < 7 \<Longrightarrow> \<exists>!d. a \<le> d \<and> d \<le> a + 6 \<and> (r + d) mod 7 = k" for a r k :: int
proof (rule ex_ex1I)
  assume k: "0 \<le> k" "k < 7"
  define d where "d = a + (k - (r + a)) mod 7"
  have "r + d = (r + a) + (k - (r + a)) mod 7" by (simp add: d_def)
  then have "(r + d) mod 7 = (r + a + (k - (r + a))) mod 7" by (simp only: mod_add_right_eq)
  then have "(r + d) mod 7 = k" using k by (simp add: mod_pos_pos_trivial)
  moreover have "a \<le> d" "d \<le> a + 6" by (simp_all add: d_def)
  ultimately show "\<exists>d. a \<le> d \<and> d \<le> a + 6 \<and> (r + d) mod 7 = k" by blast
next
  fix d e assume de: "a \<le> d \<and> d \<le> a + 6 \<and> (r + d) mod 7 = k" "a \<le> e \<and> e \<le> a + 6 \<and> (r + e) mod 7 = k"
  then have "7 dvd (r + d) - (r + e)" by (simp only: mod_eq_dvd_iff [symmetric])
  then have "7 dvd d - e" by simp
  then have "d - e = 0 \<or> 7 \<le> \<bar>d - e\<bar>" using dvd_imp_le_int [of "d - e" 7] by auto
  then show "d = e" using de by linarith
qed

lemma workdays_of_week: "length (filter (\<lambda>n. (r + n) mod 7 \<noteq> 0 \<and> (r + n) mod 7 \<noteq> 6) [1..7]) = (5 :: nat)" for r :: int
proof -
  define q where "q = r mod 7"
  have e: "(r + n) mod 7 = (q + n) mod 7" for n unfolding q_def by (rule mod_add_left_eq [symmetric])
  have q: "0 \<le> q" "q < 7" by (simp_all add: q_def)
  have seven: "[1..7] = [1, 2, 3, 4, 5, 6, 7 :: int]" by code_simp
  have "q = 0 \<or> q = 1 \<or> q = 2 \<or> q = 3 \<or> q = 4 \<or> q = 5 \<or> q = 6" using q by arith
  then show ?thesis unfolding e seven by (elim disjE) simp_all
qed

lemma nth_word_index: "pos \<in> set NTH_WORDS \<Longrightarrow> pos \<noteq> ''last'' \<Longrightarrow>
    1 \<le> indexOf pos NTH_WORDS + 1 \<and> indexOf pos NTH_WORDS + 1 \<le> 4"
  by (auto simp: NTH_WORDS_def indexOf_def)

lemma weekday_index:
  assumes "w \<in> set WEEKDAYS"
  shows "\<exists>k. 0 \<le> k \<and> k < 7 \<and> (\<forall>i. 0 \<le> i \<and> i < 7 \<longrightarrow> (at_index WEEKDAYS i = Some w \<longleftrightarrow> i = k))"
proof -
  have d: "distinct WEEKDAYS" "length WEEKDAYS = 7" by code_simp+
  obtain j where j: "j < 7" "WEEKDAYS ! j = w" using assms d(2) by (metis in_set_conv_nth)
  have "at_index WEEKDAYS i = Some w \<longleftrightarrow> i = int j" if "0 \<le> i" "i < 7" for i
    using that j d nth_eq_iff_index_eq [OF d(1), of "nat i" j] by (auto simp: at_index_def)
  then show ?thesis using j(1) by (intro exI [of _ "int j"]) auto
qed

lemma unique_nth:
  assumes "distinct xs" and "i < length xs" and "set xs \<subseteq> A" and "\<And>d. P d \<longleftrightarrow> d \<in> set xs \<and> xs ! i = d"
  shows "\<exists>!d. d \<in> A \<and> P d"
  using assms(2,3) nth_mem [OF assms(2)] by (intro ex1I [of _ "xs ! i"]) (auto simp: assms(4))

text \<open>The fields of the days of a month: the weekday counts on from the day before the first.\<close>

definition week_base :: "int \<Rightarrow> nat \<Rightarrow> int" where
  "week_base y m = make_day y (int m) 1 + 3"

lemma civil_day_fields:
  assumes "clock_ok c" and "100 \<le> y" and "m < 12" and "1 \<le> d" and "d \<le> month_lengths (leap y) ! m"
  shows "getFullYear c (civil_day c y m d) = y" "getMonth c (civil_day c y m d) = int m"
    "getDate c (civil_day c y m d) = d" "getDay c (civil_day c y m d) = (week_base y m + d) mod 7"
    "daysInMonth c (civil_day c y m d) = month_lengths (leap y) ! m"
  using civil_fields [OF assms(1,3)] daysInMonth_civil [OF assms(1-3)] assms(4,5)
  by (simp_all add: week_base_def algebra_simps)

lemma month_length: "m < 12 \<Longrightarrow> 28 \<le> month_lengths leap_year ! m"
  by (auto simp: month_lengths_def numeral_eq_Suc less_Suc_eq)

lemma nth_day_once:
  assumes "clock_ok c" and "100 \<le> y" and "m < 12" and "pos \<in> set NTH_WORDS"
  shows "\<exists>!d. d \<in> {1..month_lengths (leap y) ! m} \<and> nthMatches c (civil_day c y m d) pos ''day''"
proof -
  have "d \<in> {1..month_lengths (leap y) ! m} \<and> nthMatches c (civil_day c y m d) pos ''day'' \<longleftrightarrow>
      d = (if pos = ''last'' then month_lengths (leap y) ! m else indexOf pos NTH_WORDS + 1)" for d
    using civil_day_fields [OF assms(1-3), of d] nth_word_index [OF assms(4)] month_length [OF assms(3), of "leap y"]
    by (auto simp: nthMatches_def)
  then show ?thesis by simp
qed

text \<open>The first week of a month has five working days, so each position names one.\<close>

lemma nth_workday_once:
  assumes ok: "clock_ok c" "100 \<le> y" "m < 12" and pos: "pos \<in> set NTH_WORDS"
  shows "\<exists>!d. d \<in> {1..month_lengths (leap y) ! m} \<and> nthMatches c (civil_day c y m d) pos ''weekday''"
proof -
  define dim where "dim = month_lengths (leap y) ! m"
  define index where "index = indexOf pos NTH_WORDS + 1"
  define ws where "ws = filter (\<lambda>n. (week_base y m + n) mod 7 \<noteq> 0 \<and> (week_base y m + n) mod 7 \<noteq> 6) [1..dim]"
  define i where "i = (if pos = ''last'' then length ws - 1 else nat (index - 1))"
  note fields = civil_day_fields [OF ok, folded dim_def]
  have date: "new_date c y (int m) d 0 0 = civil_day c y m d" for d
    using ok(2) by (simp add: new_date_def civil_day_def day_open_def)
  have wsf: "filter (\<lambda>n. isWorkday c (new_date c y (int m) n 0 0)) [1..dim] = ws"
    unfolding ws_def by (rule filter_cong [OF refl]) (simp add: isWorkday_def date fields)
  have idx: "1 \<le> index \<and> index \<le> 4" if "pos \<noteq> ''last''" using nth_word_index [OF pos that] by (simp add: index_def)
  have "28 \<le> dim" unfolding dim_def by (rule month_length [OF ok(3)])
  then have "[1..dim] = [1..7] @ [8..dim]" using upto_split2 [of 1 7 dim] by simp
  then have "5 \<le> length ws" using workdays_of_week [of "week_base y m"] by (simp add: ws_def)
  then have i: "i < length ws" using idx by (auto simp: i_def)
  then have at: "at_index ws (if pos = ''last'' then int (length ws) - 1 else index - 1) = Some (ws ! i)"
    using idx by (auto simp: at_index_def i_def nat_diff_distrib)
  have "d \<in> {1..dim} \<and> nthMatches c (civil_day c y m d) pos ''weekday'' \<longleftrightarrow> d \<in> {1..dim} \<and> d \<in> set ws \<and> ws ! i = d" for d
  proof (cases "1 \<le> d \<and> d \<le> dim")
    case True
    have "isWorkday c (civil_day c y m d) \<longleftrightarrow> d \<in> set ws"
      using True fields [of d] by (simp add: isWorkday_def ws_def)
    then have "nthMatches c (civil_day c y m d) pos ''weekday'' \<longleftrightarrow> d \<in> set ws \<and> ws ! i = d"
      using True fields [of d] at by (simp add: nthMatches_def Let_def index_def [symmetric] wsf)
    then show ?thesis by blast
  qed auto
  moreover have "\<exists>!d. d \<in> {1..dim} \<and> d \<in> set ws \<and> ws ! i = d"
    by (rule unique_nth [OF _ i _ refl]) (auto simp: ws_def)
  ultimately show ?thesis by (simp add: dim_def)
qed

text \<open>A position names seven days in a row, and each weekday is once among them.\<close>

lemma nth_weekday_once:
  assumes ok: "clock_ok c" "100 \<le> y" "m < 12" and pos: "pos \<in> set NTH_WORDS"
    and w: "w \<in> set WEEKDAYS" "w \<noteq> ''day''" "w \<noteq> ''weekday''"
  shows "\<exists>!d. d \<in> {1..month_lengths (leap y) ! m} \<and> nthMatches c (civil_day c y m d) pos w"
proof -
  define dim where "dim = month_lengths (leap y) ! m"
  define index where "index = indexOf pos NTH_WORDS + 1"
  define a where "a = (if pos = ''last'' then dim - 6 else 7 * (index - 1) + 1)"
  define r where "r = week_base y m"
  note fields = civil_day_fields [OF ok, folded dim_def r_def]
  have idx: "1 \<le> index \<and> index \<le> 4" if "pos \<noteq> ''last''" using nth_word_index [OF pos that] by (simp add: index_def)
  obtain k where k: "0 \<le> k" "k < 7" "\<forall>i. 0 \<le> i \<and> i < 7 \<longrightarrow> (at_index WEEKDAYS i = Some w \<longleftrightarrow> i = k)"
    using weekday_index [OF w(1)] by blast
  have day: "at_index WEEKDAYS (((r + d) mod 7 + 6) mod 7) = Some w \<longleftrightarrow> (r + 6 + d) mod 7 = k" for d
  proof -
    have "((r + d) mod 7 + 6) mod 7 = (r + d + 6) mod 7" by (rule mod_add_left_eq)
    also have "r + d + 6 = r + 6 + d" by simp
    finally have "((r + d) mod 7 + 6) mod 7 = (r + 6 + d) mod 7" .
    then show ?thesis using k(3) by simp
  qed
  have "d \<in> {1..dim} \<and> nthMatches c (civil_day c y m d) pos w \<longleftrightarrow> a \<le> d \<and> d \<le> a + 6 \<and> (r + 6 + d) mod 7 = k" for d
  proof (cases "1 \<le> d \<and> d \<le> dim")
    case True
    have "(if pos = ''last'' then dim < d + 7 else (d - 1) div 7 + 1 = index) \<longleftrightarrow> a \<le> d \<and> d \<le> a + 6"
      using True by (auto simp: a_def)
    then show ?thesis
      using True fields [of d] day w by (auto simp: nthMatches_def Let_def index_def [symmetric])
  next
    case False
    then have "\<not> (a \<le> d \<and> d \<le> a + 6)"
      using idx month_length [OF ok(3), of "leap y"] by (auto simp: a_def dim_def split: if_splits)
    then show ?thesis using False by auto
  qed
  then show ?thesis using seven_days [OF k(1,2), of a "r + 6"] by (simp add: dim_def)
qed

text \<open>A position in the month names one day of every month. Whatever the month, exactly
  one of its days is the first, second, third, fourth or last of the days, the working days or a
  weekday.\<close>

theorem nth_once_a_month:
  assumes ok: "clock_ok c" and y: "100 \<le> y" and m: "m < 12"
    and pos: "pos \<in> set NTH_WORDS" and w: "w \<in> {''day'', ''weekday''} \<union> set WEEKDAYS"
  shows "\<exists>!d. d \<in> {1..month_lengths (leap y) ! m} \<and> nthMatches c (civil_day c y m d) pos w"
proof -
  consider "w = ''day''" | "w = ''weekday''" | "w \<in> set WEEKDAYS" "w \<noteq> ''day''" "w \<noteq> ''weekday''"
    using w by blast
  then show ?thesis
  proof cases
    case 3
    then show ?thesis by (rule nth_weekday_once [OF ok y m pos])
  qed (simp_all only: nth_day_once [OF ok y m pos] nth_workday_once [OF ok y m pos])
qed

theorem nth_once_a_month_witness:
  "\<exists>!d. d \<in> {1..28} \<and> nthMatches utc (civil_day utc 2026 1 d) ''last'' ''weekday''"
proof -
  have "''last'' \<in> set NTH_WORDS" "month_lengths (leap 2026) ! 1 = 28" by code_simp+
  with nth_once_a_month [OF utc_ok, of 2026 1 "''last''" "''weekday''"] show ?thesis by simp
qed

section \<open>Round trip\<close>

definition days_ok :: "clock \<Rightarrow> days_value \<Rightarrow> bool" where
  "days_ok c v = (case v of
       Week days \<Rightarrow> days = filter (\<lambda>d. d \<in> set days) WEEKDAYS \<and> length days < 7
     | Dates dates last_day \<Rightarrow> sorted_wrt (<) dates \<and> (\<forall>d\<in>set dates. 1 \<le> d \<and> d \<le> 31) \<and> (dates \<noteq> [] \<or> last_day)
     | Nth pos w \<Rightarrow> pos \<in> set NTH_WORDS \<and> w \<in> {''day'', ''weekday''} \<union> set WEEKDAYS
     | Once dates \<Rightarrow> sorted_wrt (<) dates \<and> dates \<noteq> [] \<and> (\<forall>d\<in>set dates. iso_parts d \<noteq> None \<and> parseIsoDate c d \<noteq> None))"

lemma plain_text:
  assumes "\<forall>ch\<in>set s. ch = CHR ''-'' \<or> is_digit ch"
  shows "trim s = s" and "to_lower s = s"
proof -
  have "\<not> is_space ch \<and> lower_char ch = ch" if "ch = CHR ''-'' \<or> is_digit ch" for ch
    using that by (auto simp: is_space_def lower_char_def is_digit_def Let_def)
  with assms have a: "\<forall>ch\<in>set s. \<not> is_space ch" "\<forall>ch\<in>set s. lower_char ch = ch" by blast+
  have d: "dropWhile is_space t = t" if "\<forall>ch\<in>set t. \<not> is_space ch" for t using that by (cases t) auto
  show "trim s = s" using d [of s] d [of "rev s"] a(1) by (simp add: trim_def)
  show "to_lower s = s" using a(2) by (simp add: to_lower_def map_idI)
qed

lemma iso_text:
  assumes "iso_parts s \<noteq> None"
  shows "\<forall>ch\<in>set s. ch = CHR ''-'' \<or> is_digit ch" and "CHR ''-'' \<in> set s" and "length s = 10"
proof -
  have p: "length s = 10" "list_all is_digit (take 4 s)" "s ! 4 = CHR ''-''" "list_all is_digit (take 2 (drop 5 s))"
    "s ! 7 = CHR ''-''" "list_all is_digit (drop 8 s)"
    using assms by (auto simp: iso_parts_def split: if_splits)
  have "s = take 4 s @ s ! 4 # drop (Suc 4) s" using p(1) by (intro id_take_nth_drop) simp
  moreover have "drop 5 s = take 2 (drop 5 s) @ drop 5 s ! 2 # drop (Suc 2) (drop 5 s)"
    using p(1) by (intro id_take_nth_drop) simp
  ultimately have s: "s = take 4 s @ CHR ''-'' # take 2 (drop 5 s) @ CHR ''-'' # drop 8 s" using p by simp
  show "\<forall>ch\<in>set s. ch = CHR ''-'' \<or> is_digit ch"
    using p by (subst s) (auto simp: list_all_iff)
  show "CHR ''-'' \<in> set s" by (subst s) simp
  show "length s = 10" by (rule p(1))
qed

lemma read_weekdays:
  "set xs \<subseteq> set WEEKDAYS \<Longrightarrow> foldl (read_item c) ([], [], week, False) (map YString xs) = ([], [], fold set_add xs week, False)"
proof (induction xs arbitrary: week)
  case (Cons x xs)
  have "\<forall>w\<in>set WEEKDAYS. to_lower (trim w) = w \<and> w \<noteq> ''last'' \<and> \<not> all_digits w \<and> iso_parts (trim w) = None" by code_simp
  then have "read_item c ([], [], week, False) (YString x) = ([], [], set_add x week, False)"
    using Cons.prems by (simp add: read_item_def parseIsoDate_def Let_def)
  then show ?case using Cons by simp
qed simp

lemma read_number:
  assumes "1 \<le> n" and "n \<le> 31"
  shows "read_item c (dates, once, week, l) (YNumber n) = (dates @ [n], once, week, l)"
proof -
  have "nat n < 100" using assms by simp
  then have len: "length (nat_str (nat n)) \<le> 2"
    by (subst nat_str.simps, subst nat_str.simps) auto
  have digits: "list_all is_digit (nat_str (nat n))" by (rule nat_str_digits)
  then have "trim (nat_str (nat n)) = nat_str (nat n)" "to_lower (nat_str (nat n)) = nat_str (nat n)"
    using plain_text [of "nat_str (nat n)"] by (auto simp: list_all_iff)
  moreover have "nat_str (nat n) \<noteq> ''last''" using digits by (auto simp: is_digit_def)
  ultimately show ?thesis
    using assms len digits by (simp add: read_item_def int_str_def all_digits_def Let_def) linarith
qed

lemma read_numbers:
  "\<forall>d\<in>set ds. 1 \<le> d \<and> d \<le> 31 \<Longrightarrow>
   foldl (read_item c) (dates, once, week, l) (map YNumber ds) = (dates @ ds, once, week, l)"
  by (induction ds arbitrary: dates) (simp_all add: read_number)

lemma read_isos:
  "\<forall>d\<in>set ds. iso_parts d \<noteq> None \<and> parseIsoDate c d \<noteq> None \<Longrightarrow>
   foldl (read_item c) ([], once, [], False) (map YString ds) = ([], once @ ds, [], False)"
proof (induction ds arbitrary: once)
  case (Cons d ds)
  have d: "iso_parts d \<noteq> None" "parseIsoDate c d \<noteq> None" using Cons.prems by simp_all
  note t = iso_text [OF d(1)]
  have "\<not> is_digit CHR ''-''" by (simp add: is_digit_def)
  then have nd: "\<not> all_digits d" using t(2) by (auto simp: all_digits_def list_all_iff)
  moreover have "d \<noteq> ''last''" using t(3) by auto
  ultimately have "read_item c ([], once, [], False) (YString d) = ([], once @ [d], [], False)"
    using plain_text [OF t(1)] d(2) by (auto simp: read_item_def)
  then show ?case using Cons by simp
qed simp

lemma to_set_distinct: "distinct xs \<Longrightarrow> to_set xs = xs"
proof -
  have "distinct (acc @ xs) \<Longrightarrow> fold set_add xs acc = acc @ xs" for acc
    by (induction xs arbitrary: acc) (auto simp: set_add_def)
  from this [of "[]"] show "distinct xs \<Longrightarrow> to_set xs = xs" by (simp add: to_set_def)
qed

lemma sorted_numbers_kept: "sorted_wrt (<) ds \<Longrightarrow> sort_by compareNumbers (to_set ds) = ds"
proof -
  assume s: "sorted_wrt (<) ds"
  then have "sorted_wrt (\<lambda>x y. compareNumbers x y \<le> 0) ds"
    by (rule sorted_wrt_mono_rel [rotated]) (simp add: compareNumbers_def)
  then show ?thesis using s by (simp add: to_set_distinct strict_sorted_iff numbers.sort_by_sorted)
qed

lemma sorted_names_kept: "sorted_wrt (<) ds \<Longrightarrow> sort_by compareNames (to_set ds) = ds"
proof -
  assume s: "sorted_wrt (<) ds"
  then have "sorted_wrt (\<lambda>x y. compareNames x y \<le> 0) ds"
    by (rule sorted_wrt_mono_rel [rotated]) (simp add: compareNames_def)
  then show ?thesis using s by (simp add: to_set_distinct strict_sorted_iff names.sort_by_sorted)
qed

lemma squeeze_plain: "\<forall>ch\<in>set s. \<not> is_space ch \<Longrightarrow> squeeze s = s"
  by (induction s rule: squeeze.induct) auto

lemma squeeze_two: "a \<noteq> [] \<Longrightarrow> \<forall>ch\<in>set a. \<not> is_space ch \<Longrightarrow> b \<noteq> [] \<Longrightarrow> \<forall>ch\<in>set b. \<not> is_space ch \<Longrightarrow>
    squeeze (a @ CHR '' '' # b) = a @ CHR '' '' # b"
proof (induction a)
  case (Cons x a)
  show ?case
  proof (cases a)
    case Nil
    obtain y b' where b: "b = y # b'" using Cons.prems by (cases b) auto
    have "squeeze b = b" using Cons.prems(4) by (rule squeeze_plain)
    then show ?thesis using Cons.prems b Nil by (auto simp: is_space_def)
  next
    case (Cons z a')
    then show ?thesis using Cons.IH Cons.prems by simp
  qed
qed simp

lemma two_words:
  assumes "a \<noteq> []" and "\<forall>ch\<in>set a. \<not> is_space ch" and "b \<noteq> []" and "\<forall>ch\<in>set b. \<not> is_space ch"
  shows "split_blanks (a @ '' '' @ b) = [a, b]" and "trim (a @ '' '' @ b) = a @ '' '' @ b"
proof -
  have "split_by is_space b = [b]" using assms(4) by (rule split_by_plain)
  then have "split_by is_space (CHR '' '' # b) = [[], b]" by (simp add: is_space_def)
  then show "split_blanks (a @ '' '' @ b) = [a, b]"
    using squeeze_two [OF assms] split_by_append [OF assms(2), of "CHR '' '' # b"] by (simp add: split_blanks_def)
  have d: "dropWhile is_space (u @ v) = u @ v" if "u \<noteq> []" "\<forall>ch\<in>set u. \<not> is_space ch" for u v
    using that by (cases u) auto
  show "trim (a @ '' '' @ b) = a @ '' '' @ b"
    using d [of a "'' '' @ b"] d [of "rev b" "'' '' @ rev a"] assms by (simp add: trim_def)
qed

lemma week_roundtrip:
  assumes "days_ok c (Week days)"
  shows "readDaysValue c (writeDaysValue (Week days)) = Week days"
proof (cases "days = []")
  case True
  then show ?thesis by (simp add: readDaysValue_def Let_def)
next
  case False
  have d: "days = filter (\<lambda>d. d \<in> set days) WEEKDAYS" "length days < 7" using assms by (simp_all add: days_ok_def)
  have sub: "set days \<subseteq> set WEEKDAYS" using d(1) by (metis filter_is_subset)
  have "writeDaysValue (Week days) = YList (map YString days)" using False d by simp
  then show ?thesis using read_weekdays [OF sub, of c "[]"] d(1) by (simp add: readDaysValue_def Let_def)
qed

lemma dates_roundtrip:
  assumes "days_ok c (Dates dates last_day)"
  shows "readDaysValue c (writeDaysValue (Dates dates last_day)) = Dates dates last_day"
proof -
  have d: "sorted_wrt (<) dates" "\<forall>d\<in>set dates. 1 \<le> d \<and> d \<le> 31" "dates \<noteq> [] \<or> last_day"
    using assms by (simp_all add: days_ok_def)
  have "to_lower (trim ''last'') = ''last''" by code_simp
  then have last_item: "read_item c (dates, [], [], False) (YString ''last'') = (dates, [], [], True)"
    by (simp add: read_item_def)
  have "writeDaysValue (Dates dates last_day) = YList (map YNumber dates @ (if last_day then [YString ''last''] else []))"
    using d(1) by (simp add: sorted_numbers_kept)
  then show ?thesis
    using read_numbers [OF d(2), of c "[]" "[]" "[]" False] last_item d(1,3)
    by (auto simp: readDaysValue_def sorted_numbers_kept Let_def)
qed

lemma nth_roundtrip:
  assumes "days_ok c (Nth pos w)"
  shows "readDaysValue c (writeDaysValue (Nth pos w)) = Nth pos w"
proof -
  have pw: "pos \<in> set NTH_WORDS" "w \<in> set (''day'' # ''weekday'' # WEEKDAYS)"
    using assms by (auto simp: days_ok_def)
  have words: "\<forall>x\<in>set (NTH_WORDS @ ''day'' # ''weekday'' # WEEKDAYS). x \<noteq> [] \<and> list_all (\<lambda>ch. \<not> is_space ch) x \<and> to_lower x = x"
    by code_simp
  have p: "pos \<noteq> []" "\<forall>ch\<in>set pos. \<not> is_space ch" "to_lower pos = pos"
    and q: "w \<noteq> []" "\<forall>ch\<in>set w. \<not> is_space ch" "to_lower w = w"
    using bspec [OF words, of pos] bspec [OF words, of w] pw unfolding list_all_iff by auto
  note two = two_words [OF p(1,2) q(1,2)]
  have "to_lower (pos @ '' '' @ w) = pos @ '' '' @ w" using p(3) q(3) by (simp add: to_lower_def lower_char_def)
  then have "readNth (pos @ '' '' @ w) = Some (Nth pos w)" using two pw by (auto simp: readNth_def)
  moreover have "\<exists>ch\<in>set (trim (pos @ '' '' @ w)). is_space ch" unfolding two(2) by (simp add: is_space_def)
  ultimately show ?thesis by (simp add: readDaysValue_def)
qed

lemma once_roundtrip:
  assumes "days_ok c (Once dates)"
  shows "readDaysValue c (writeDaysValue (Once dates)) = Once dates"
proof -
  have d: "sorted_wrt (<) dates" "dates \<noteq> []" "\<forall>d\<in>set dates. iso_parts d \<noteq> None \<and> parseIsoDate c d \<noteq> None"
    using assms by (simp_all add: days_ok_def)
  show ?thesis
    using read_isos [OF d(3), of "[]"] d(1,2) by (simp add: readDaysValue_def sorted_names_kept Let_def)
qed

text \<open>What is written for a job's days is read back as those days: weekdays, dates of
  the month with or without the last, a position in the month, or calendar dates.\<close>

theorem days_value_roundtrip:
  assumes "days_ok c v"
  shows "readDaysValue c (writeDaysValue v) = v"
  using assms week_roundtrip dates_roundtrip nth_roundtrip once_roundtrip by (cases v) simp_all

theorem days_value_roundtrip_witness:
  "readDaysValue utc (writeDaysValue (Once [''2026-10-20'', ''2027-01-05''])) = Once [''2026-10-20'', ''2027-01-05'']"
proof -
  have "days_ok utc (Once [''2026-10-20'', ''2027-01-05''])" by code_simp
  then show ?thesis by (rule days_value_roundtrip)
qed

end
