(* ===== verification/Occurrences.thy ===== *)
theory Occurrences
  imports CronRuns ScheduleRules
begin

text \<open>
  The runs a job's schedule puts on a calendar (\<open>jobsOccurrences.ts\<close>, with the schedule type of
  \<open>jobsFormat.ts\<close>). Times are whole seconds; the loops over the days of a window are
  \<open>partial_function\<close>s, since that they end is a fact about the clock, and a result \<open>None\<close> is a
  loop that does not, or the exception of a cron line that crashes the parser. Of a job the fields the expansion reads are kept.
\<close>

section \<open>Types\<close>

record interval_schedule =
  is_everySecs :: int
  is_everyMaxSecs :: "int option"
  is_fromMinutes :: "int option"
  is_untilMinutes :: "int option"
  is_days :: "string list option"

record calendar_schedule =
  ca_atMinutes :: int
  ca_alsoAtMinutes :: "int list option"
  ca_days :: "string list"
  ca_untilMinutes :: "int option"
  ca_times :: "int option"
  ca_pickDays :: "int option"
  ca_rule :: date_rule

datatype job_schedule = Interval interval_schedule | Calendar calendar_schedule | Cron string | ManualRun

record job_info =
  jb_enabled :: bool
  jb_schedule :: "job_schedule option"
  jb_lastRunAt :: "int option"
  jb_lastResult :: "string option"
  jb_nextFireAt :: "int option"
  jb_running :: "bool option"
  jb_runningSince :: "int option"

datatype occurrence_state = Ran | Running | Due | Past | Paused

record raw_slot =
  rs_at :: int
  rs_untilAt :: "int option"
  rs_approximate :: bool
  rs_times :: int

record job_occurrence =
  oc_key :: string
  oc_at :: int
  oc_untilAt :: "int option"
  oc_state :: occurrence_state
  oc_approximate :: bool
  oc_times :: int
  oc_result :: "string option"

type_synonym expand_result = "raw_slot list \<times> bool"

definition MAX_SLOTS :: nat where "MAX_SLOTS = 400"

section \<open>Days\<close>

text \<open>\<open>setHours(0, 0, 0, 0)\<close>.\<close>

definition startOfDay :: "clock \<Rightarrow> int \<Rightarrow> int" where
  "startOfDay c t = day_open c (local_day c t)"

definition weekdayOf :: "clock \<Rightarrow> int \<Rightarrow> string" where
  "weekdayOf c t = WEEKDAYS ! nat ((getDay c t + 6) mod 7)"

definition runsOnDay :: "string list \<Rightarrow> string \<Rightarrow> bool" where
  "runsOnDay days day = (if length days = 0 \<or> length WEEKDAYS \<le> length days then True else day \<in> set days)"

definition next_day :: "clock \<Rightarrow> int \<Rightarrow> int" where
  "next_day c day = startOfDay c (day + 36 * 3600)"

section \<open>Calendar schedules\<close>

definition calendar_slots :: "clock \<Rightarrow> calendar_schedule \<Rightarrow> int \<Rightarrow> int \<Rightarrow> int \<Rightarrow> raw_slot list" where
  "calendar_slots c schedule from_t to_t day =
     (let approximate = (ca_untilMinutes schedule \<noteq> None \<or> 0 < (case ca_pickDays schedule of None \<Rightarrow> 0 | Some n \<Rightarrow> n));
          times = max 1 (case ca_times schedule of None \<Rightarrow> 1 | Some n \<Rightarrow> n);
          minutes = ca_atMinutes schedule # (case ca_alsoAtMinutes schedule of None \<Rightarrow> [] | Some ms \<Rightarrow> ms);
          until = (case ca_untilMinutes schedule of
              Some u \<Rightarrow> if ca_atMinutes schedule < u then Some (day + u * 60) else None
            | None \<Rightarrow> None)
      in List.map_filter (\<lambda>m.
           let moment = day + m * 60
           in if from_t \<le> (case until of None \<Rightarrow> moment | Some u \<Rightarrow> u) \<and> moment \<le> to_t
              then Some \<lparr>rs_at = moment, rs_untilAt = until, rs_approximate = approximate, rs_times = times\<rparr>
              else None)
         (if until = None then minutes else [ca_atMinutes schedule]))"

definition calendar_day :: "clock \<Rightarrow> calendar_schedule \<Rightarrow> int \<Rightarrow> bool" where
  "calendar_day c schedule day =
     (if hasDateRule (ca_rule schedule) then dateRuleMatches c (ca_rule schedule) day
      else runsOnDay (ca_days schedule) (weekdayOf c day))"

partial_function (option) calendar_loop :: "clock \<Rightarrow> calendar_schedule \<Rightarrow> int \<Rightarrow> int \<Rightarrow> int \<Rightarrow> raw_slot list \<Rightarrow> raw_slot list option" where
  "calendar_loop c schedule from_t to_t day slots =
     (if day \<le> to_t \<and> length slots < MAX_SLOTS
      then calendar_loop c schedule from_t to_t (next_day c day)
        (if calendar_day c schedule day then slots @ calendar_slots c schedule from_t to_t day else slots)
      else Some slots)"

definition expandCalendar :: "clock \<Rightarrow> calendar_schedule \<Rightarrow> int \<Rightarrow> int \<Rightarrow> expand_result option" where
  "expandCalendar c schedule from_t to_t =
     map_option (\<lambda>slots. (slots, MAX_SLOTS \<le> length slots))
       (calendar_loop c schedule from_t to_t (startOfDay c from_t) [])"

section \<open>Cron and interval schedules\<close>

definition expandCron :: "clock \<Rightarrow> string \<Rightarrow> int \<Rightarrow> int \<Rightarrow> expand_result option" where
  "expandCron c cron from_t to_t =
     (case parseCron cron of
        Inl e \<Rightarrow> if e = Crash then None else Some ([], False)
      | Inr spec \<Rightarrow> map_option (\<lambda>runs.
          (map (\<lambda>t. \<lparr>rs_at = t, rs_untilAt = None, rs_approximate = False, rs_times = 1\<rparr>) runs, MAX_SLOTS \<le> length runs))
          (cronRunsBetween c spec from_t to_t MAX_SLOTS))"

text \<open>The loop \<open>for (at = open; at <= close && slots.length < MAX_SLOTS; at += step)\<close>.\<close>

function cadence :: "int \<Rightarrow> int \<Rightarrow> int \<Rightarrow> int \<Rightarrow> int \<Rightarrow> bool \<Rightarrow> raw_slot list \<Rightarrow> raw_slot list" where
  "cadence from_t to_t step moment close approximate slots =
     (if close < moment \<or> MAX_SLOTS \<le> length slots \<or> step \<le> 0 then slots
      else cadence from_t to_t step (moment + step) close approximate
        (if from_t \<le> moment \<and> moment \<le> to_t
         then slots @ [\<lparr>rs_at = moment, rs_untilAt = None, rs_approximate = approximate, rs_times = 1\<rparr>] else slots))"
  by pat_completeness auto
termination
  by (relation "measure (\<lambda>(from_t, to_t, step, moment, close, approximate, slots). nat (close + 1 - moment))") auto

declare cadence.simps [simp del]

partial_function (option) limited_loop :: "clock \<Rightarrow> interval_schedule \<Rightarrow> int \<Rightarrow> int \<Rightarrow> int \<Rightarrow> bool \<Rightarrow> int \<Rightarrow> raw_slot list \<Rightarrow> raw_slot list option" where
  "limited_loop c schedule from_t to_t step approximate day slots =
     (if day \<le> to_t \<and> length slots < MAX_SLOTS
      then limited_loop c schedule from_t to_t step approximate (next_day c day)
        (if runsOnDay (case is_days schedule of None \<Rightarrow> [] | Some ds \<Rightarrow> ds) (weekdayOf c day)
         then cadence from_t to_t step
           (day + (case is_fromMinutes schedule of None \<Rightarrow> 0 | Some m \<Rightarrow> m) * 60)
           (day + (case is_untilMinutes schedule of None \<Rightarrow> 24 * 60 - 1 | Some m \<Rightarrow> m) * 60) approximate slots
         else slots)
      else Some slots)"

definition expandLimitedInterval :: "clock \<Rightarrow> interval_schedule \<Rightarrow> int \<Rightarrow> int \<Rightarrow> int \<Rightarrow> bool \<Rightarrow> expand_result option" where
  "expandLimitedInterval c schedule from_t to_t step approximate =
     map_option (\<lambda>slots. (slots, MAX_SLOTS \<le> length slots))
       (limited_loop c schedule from_t to_t step approximate (startOfDay c from_t) [])"

definition ceil_div :: "int \<Rightarrow> int \<Rightarrow> int" where
  "ceil_div a b = - ((- a) div b)"

definition expandInterval :: "clock \<Rightarrow> interval_schedule \<Rightarrow> int \<Rightarrow> int \<Rightarrow> int option \<Rightarrow> int option \<Rightarrow> expand_result option" where
  "expandInterval c schedule from_t to_t nextFireAt lastRunAt =
     (let step = max 60 (is_everySecs schedule);
          approximate = (case is_everyMaxSecs schedule of None \<Rightarrow> False | Some m \<Rightarrow> step < m)
      in if is_fromMinutes schedule \<noteq> None \<or> 0 < length (case is_days schedule of None \<Rightarrow> [] | Some ds \<Rightarrow> ds)
         then expandLimitedInterval c schedule from_t to_t step approximate
         else case or_else nextFireAt (map_option (\<lambda>t. t + step) lastRunAt) of
             None \<Rightarrow> Some ([], False)
           | Some anchor \<Rightarrow>
               let first = anchor - ceil_div (anchor - from_t) step * step;
                   slots = cadence from_t to_t step first to_t approximate []
               in Some (slots, MAX_SLOTS \<le> length slots))"

definition expandSchedule :: "clock \<Rightarrow> job_schedule option \<Rightarrow> int \<Rightarrow> int \<Rightarrow> int option \<Rightarrow> int option \<Rightarrow> expand_result option" where
  "expandSchedule c schedule from_t to_t nextFireAt lastRunAt =
     (case schedule of
        None \<Rightarrow> Some ([], False)
      | Some s \<Rightarrow>
          if s = ManualRun \<or> to_t \<le> from_t then Some ([], False)
          else (case s of
              Cron cron \<Rightarrow> expandCron c cron from_t to_t
            | Calendar ca \<Rightarrow> expandCalendar c ca from_t to_t
            | Interval iv \<Rightarrow> expandInterval c iv from_t to_t nextFireAt lastRunAt
            | ManualRun \<Rightarrow> Some ([], False)))"

section \<open>What happened\<close>

definition RUN_MATCH_SECS :: int where "RUN_MATCH_SECS = 30 * 60"

definition slotState :: "raw_slot \<Rightarrow> job_info \<Rightarrow> int \<Rightarrow> occurrence_state" where
  "slotState slot job now =
     (if \<not> jb_enabled job then Paused
      else if now \<le> (case rs_untilAt slot of None \<Rightarrow> rs_at slot | Some u \<Rightarrow> u) then Due else Past)"

definition slot_gap :: "job_occurrence \<Rightarrow> int \<Rightarrow> int" where
  "slot_gap occ moment =
     (if (case oc_untilAt occ of None \<Rightarrow> False | Some u \<Rightarrow> oc_at occ \<le> moment \<and> moment \<le> u) then 0
      else \<bar>oc_at occ - moment\<bar>)"

text \<open>\<open>nearestSlot\<close>: the index of the slot, since the code changes it in place.\<close>

definition nearest_step :: "int \<Rightarrow> (nat \<times> int) option \<Rightarrow> nat \<times> job_occurrence \<Rightarrow> (nat \<times> int) option" where
  "nearest_step moment best i_occ =
     (case i_occ of (i, occ) \<Rightarrow>
       if oc_state occ = Ran \<or> oc_state occ = Running then best
       else (case best of
           None \<Rightarrow> Some (i, slot_gap occ moment)
         | Some (j, g) \<Rightarrow> if slot_gap occ moment < g then Some (i, slot_gap occ moment) else best))"

definition nearestSlot :: "job_occurrence list \<Rightarrow> int \<Rightarrow> nat option" where
  "nearestSlot occurrences moment =
     (case foldl (nearest_step moment) None (enumerate 0 occurrences) of
        None \<Rightarrow> None
      | Some (i, g) \<Rightarrow> if g \<le> RUN_MATCH_SECS then Some i else None)"

definition fold_in :: "string \<Rightarrow> occurrence_state \<Rightarrow> string option \<Rightarrow> int \<Rightarrow> job_occurrence list \<Rightarrow> job_occurrence list" where
  "fold_in key state result moment occurrences =
     (case nearestSlot occurrences moment of
        Some i \<Rightarrow> occurrences[i := (occurrences ! i)\<lparr>oc_state := state, oc_result := result,
            oc_approximate := False, oc_at := moment\<rparr>]
      | None \<Rightarrow> occurrences @ [\<lparr>oc_key = key, oc_at = moment, oc_untilAt = None, oc_state = state,
            oc_approximate = False, oc_times = 1, oc_result = result\<rparr>])"

definition compareAt :: "job_occurrence \<Rightarrow> job_occurrence \<Rightarrow> int" where
  "compareAt a b = oc_at a - oc_at b"

interpretation occurrence_order: js_compare compareAt
  by unfold_locales (auto simp: compareAt_def sgn_if)

definition jobOccurrences :: "clock \<Rightarrow> job_info \<Rightarrow> int \<Rightarrow> int \<Rightarrow> int \<Rightarrow> string \<Rightarrow> (job_occurrence list \<times> bool) option" where
  "jobOccurrences c job from_t to_t now keyPrefix =
     (case expandSchedule c (jb_schedule job) from_t to_t (jb_nextFireAt job) (jb_lastRunAt job) of
        None \<Rightarrow> None
      | Some (slots, truncated) \<Rightarrow>
          let occurrences = map (\<lambda>slot. \<lparr>oc_key = keyPrefix @ ''@'' @ int_str (rs_at slot), oc_at = rs_at slot,
                oc_untilAt = rs_untilAt slot, oc_state = slotState slot job now,
                oc_approximate = rs_approximate slot, oc_times = rs_times slot, oc_result = None\<rparr>) slots;
              occurrences = (case jb_lastRunAt job of
                  Some t \<Rightarrow> if from_t \<le> t \<and> t \<le> to_t
                    then fold_in (keyPrefix @ ''@ran-'' @ int_str t) Ran (jb_lastResult job) t occurrences else occurrences
                | None \<Rightarrow> occurrences);
              occurrences = (case jb_runningSince job of
                  Some t \<Rightarrow> if jb_running job = Some True \<and> from_t \<le> t \<and> t \<le> to_t
                    then fold_in (keyPrefix @ ''@run-'' @ int_str t) Running None t occurrences else occurrences
                | None \<Rightarrow> occurrences)
          in Some (sort_by compareAt occurrences, truncated))"

section \<open>Walking the days\<close>

text \<open>A day and a half after a day opens it is the next day.\<close>

definition steady :: "clock \<Rightarrow> bool" where
  "steady c \<longleftrightarrow> clock_ok c \<and> (\<forall>day. local_day c (day_open c day + 36 * 3600) = day + 1)"

lemma utc_steady: "steady utc"
  unfolding steady_def using utc_ok by (simp add: utc_def local_day_def day_open_def)

lemma next_day_open: "steady c \<Longrightarrow> next_day c (day_open c day) = day_open c (day + 1)"
  by (simp add: next_day_def startOfDay_def steady_def)

text \<open>Both day loops have this shape: the body of a day only adds slots.\<close>

locale day_walk =
  fixes c :: clock
    and to_t :: int
    and walk :: "int \<Rightarrow> 'a list \<Rightarrow> 'a list option"
    and body :: "int \<Rightarrow> 'a list \<Rightarrow> 'a list"
  assumes walk_step: "walk day slots =
      (if day \<le> to_t \<and> length slots < MAX_SLOTS then walk (next_day c day) (body day slots) else Some slots)"
    and body_adds: "\<exists>more. body day slots = slots @ more"
begin

text \<open>When each day adds the slots planned for it, or, at the limit, the first of them, the walk
  returns the first slots of the plan of all its days, and the whole plan when the limit was not
  reached.\<close>

definition walk_plan :: "(int \<Rightarrow> 'a list) \<Rightarrow> int \<Rightarrow> 'a list" where
  "walk_plan plan day = concat (map plan (filter (\<lambda>e. day_open c e \<le> to_t) [day..local_day c to_t]))"

lemma walk_plan_step:
  assumes "clock_ok c" and "day_open c day \<le> to_t"
  shows "walk_plan plan day = plan day @ walk_plan plan (day + 1)"
proof -
  have "day \<le> local_day c to_t" using local_day_before [OF assms(1), of to_t day] assms(2) by linarith
  then show ?thesis using assms(2) by (simp add: walk_plan_def upto_rec1)
qed

lemma walk_plan_over:
  assumes "clock_ok c" and "to_t < day_open c day"
  shows "walk_plan plan day = []"
  using assms day_open_mono [OF assms(1), of day] by (fastforce simp: walk_plan_def filter_empty_conv)

lemma walk_follows_plan:
  assumes st: "steady c"
    and adds: "\<And>e sl. length sl < MAX_SLOTS \<Longrightarrow> \<exists>k. body (day_open c e) sl = sl @ take k (plan e) \<and>
      (length (body (day_open c e) sl) < MAX_SLOTS \<longrightarrow> take k (plan e) = plan e)"
  shows "\<exists>k. walk (day_open c day) slots = Some (slots @ take k (walk_plan plan day)) \<and>
    (length (slots @ take k (walk_plan plan day)) < MAX_SLOTS \<longrightarrow> take k (walk_plan plan day) = walk_plan plan day)"
proof (induction "nat (local_day c to_t + 1 - day)" arbitrary: day slots)
  case 0
  have ok: "clock_ok c" using st by (simp add: steady_def)
  have late: "to_t < day_open c day" using 0 by (intro local_day_before [OF ok]) simp
  then have "walk (day_open c day) slots = Some slots" by (subst walk_step) simp
  then show ?case using walk_plan_over [OF ok late, of plan] by simp
next
  case (Suc n)
  have ok: "clock_ok c" using st by (simp add: steady_def)
  show ?case
  proof (cases "day_open c day \<le> to_t \<and> length slots < MAX_SLOTS")
    case True
    then have all: "walk_plan plan day = plan day @ walk_plan plan (day + 1)" using walk_plan_step [OF ok] by blast
    obtain k where k: "body (day_open c day) slots = slots @ take k (plan day)"
      "length (slots @ take k (plan day)) < MAX_SLOTS \<longrightarrow> take k (plan day) = plan day" using adds True by metis
    have step: "walk (day_open c day) slots = walk (day_open c (day + 1)) (slots @ take k (plan day))"
      using True k(1) by (subst walk_step) (simp add: next_day_open [OF st])
    show ?thesis
    proof (cases "length (slots @ take k (plan day)) < MAX_SLOTS")
      case True
      have "n = nat (local_day c to_t + 1 - (day + 1))" using Suc.hyps(2) by simp
      from Suc.hyps(1) [OF this, of "slots @ plan day"] obtain j where
        "walk (day_open c (day + 1)) (slots @ plan day) = Some ((slots @ plan day) @ take j (walk_plan plan (day + 1)))"
        "length ((slots @ plan day) @ take j (walk_plan plan (day + 1))) < MAX_SLOTS \<longrightarrow>
          take j (walk_plan plan (day + 1)) = walk_plan plan (day + 1)" by blast
      then show ?thesis using step k(2) True unfolding all by (intro exI [of _ "length (plan day) + j"]) simp
    next
      case False
      then have "walk (day_open c (day + 1)) (slots @ take k (plan day)) = Some (slots @ take k (plan day))"
        by (subst walk_step) simp
      moreover have "take (min k (length (plan day))) (plan day) = take k (plan day)" by (simp add: min_def)
      ultimately show ?thesis using step False unfolding all by (intro exI [of _ "min k (length (plan day))"]) simp
    qed
  next
    case False
    then have stop: "walk (day_open c day) slots = Some slots" by (subst walk_step) auto
    show ?thesis
    proof (cases "day_open c day \<le> to_t")
      case True
      then show ?thesis using stop False by (intro exI [of _ 0]) simp
    next
      case False
      then show ?thesis using stop walk_plan_over [OF ok, of day plan] by simp
    qed
  qed
qed

end

definition calendar_body :: "clock \<Rightarrow> calendar_schedule \<Rightarrow> int \<Rightarrow> int \<Rightarrow> int \<Rightarrow> raw_slot list \<Rightarrow> raw_slot list" where
  "calendar_body c schedule from_t to_t day slots =
     (if calendar_day c schedule day then slots @ calendar_slots c schedule from_t to_t day else slots)"

interpretation calendar: day_walk c to_t "calendar_loop c schedule from_t to_t" "calendar_body c schedule from_t to_t"
  for c to_t schedule from_t
proof
  show "calendar_loop c schedule from_t to_t day slots =
      (if day \<le> to_t \<and> length slots < MAX_SLOTS
       then calendar_loop c schedule from_t to_t (next_day c day) (calendar_body c schedule from_t to_t day slots)
       else Some slots)" for day slots
    by (subst calendar_loop.simps) (simp add: calendar_body_def)
  show "\<exists>more. calendar_body c schedule from_t to_t day slots = slots @ more" for day slots
    by (simp add: calendar_body_def)
qed

section \<open>The cadence of an interval\<close>

definition interval_slot :: "bool \<Rightarrow> int \<Rightarrow> raw_slot" where
  "interval_slot approximate t = \<lparr>rs_at = t, rs_untilAt = None, rs_approximate = approximate, rs_times = 1\<rparr>"

lemma cadence_eq:
  assumes "0 < step" and "length slots \<le> MAX_SLOTS"
  shows "cadence from_t to_t step moment close approximate slots = slots @ map (interval_slot approximate)
    (take (MAX_SLOTS - length slots) (filter (\<lambda>t. from_t \<le> t \<and> t \<le> to_t) (range_step moment close step)))"
  using assms
proof (induction from_t to_t step moment close approximate slots rule: cadence.induct)
  case (1 from_t to_t step moment close approximate slots)
  show ?case
  proof (cases "close < moment \<or> MAX_SLOTS \<le> length slots")
    case True
    then show ?thesis
      using "1.prems" by (auto simp: cadence.simps [of from_t] range_step.simps [of moment])
  next
    case False
    define now where "now = (if from_t \<le> moment \<and> moment \<le> to_t then [interval_slot approximate moment] else [])"
    have step: "cadence from_t to_t step moment close approximate slots =
        cadence from_t to_t step (moment + step) close approximate (slots @ now)"
      using False "1.prems" by (subst cadence.simps) (simp add: now_def interval_slot_def)
    have len: "length (slots @ now) \<le> MAX_SLOTS" using False by (simp add: now_def)
    have cond: "\<not> (close < moment \<or> MAX_SLOTS \<le> length slots \<or> step \<le> 0)" using False "1.prems" by simp
    have arg: "(if from_t \<le> moment \<and> moment \<le> to_t
        then slots @ [\<lparr>rs_at = moment, rs_untilAt = None, rs_approximate = approximate, rs_times = 1\<rparr>] else slots) =
      slots @ now" by (simp add: now_def interval_slot_def)
    note IH = "1.IH" [OF cond, unfolded arg, OF "1.prems"(1) len]
    have "range_step moment close step = moment # range_step (moment + step) close step"
      using False "1.prems" by (simp add: range_step.simps [of moment])
    moreover obtain k where "MAX_SLOTS - length slots = Suc k" using False by (metis Suc_diff_Suc not_le)
    moreover have "MAX_SLOTS - Suc (length slots) = k" using \<open>MAX_SLOTS - length slots = Suc k\<close> by simp
    ultimately show ?thesis unfolding step IH by (simp add: now_def)
  qed
qed

lemma range_step_set:
  "0 < step \<Longrightarrow> set (range_step lo hi step) = {v. lo \<le> v \<and> v \<le> hi \<and> step dvd v - lo}"
proof (induction lo hi step rule: range_step.induct)
  case (1 lo hi step)
  show ?case
  proof (cases "hi < lo")
    case True
    then show ?thesis by (auto simp: range_step.simps [of lo])
  next
    case False
    have "v = lo \<or> (lo + step \<le> v \<and> step dvd v - (lo + step))" if "lo \<le> v" "step dvd v - lo" for v
    proof (cases "v = lo")
      case no: False
      then have "step \<le> v - lo" using that by (intro zdvd_imp_le) simp_all
      moreover have "step dvd (v - lo) - step" using that(2) by simp
      ultimately show ?thesis by (simp add: algebra_simps)
    qed simp
    moreover have "step dvd v - lo" if "step dvd v - (lo + step)" for v
    proof -
      have "v - lo = (v - (lo + step)) + step" by simp
      then show ?thesis using that by (metis dvd_add dvd_refl)
    qed
    ultimately show ?thesis using False 1 by (auto simp: range_step.simps [of lo])
  qed
qed

definition limited_body :: "clock \<Rightarrow> interval_schedule \<Rightarrow> int \<Rightarrow> int \<Rightarrow> int \<Rightarrow> bool \<Rightarrow> int \<Rightarrow> raw_slot list \<Rightarrow> raw_slot list" where
  "limited_body c schedule from_t to_t step approximate day slots =
     (if runsOnDay (case is_days schedule of None \<Rightarrow> [] | Some ds \<Rightarrow> ds) (weekdayOf c day)
      then cadence from_t to_t step
        (day + (case is_fromMinutes schedule of None \<Rightarrow> 0 | Some m \<Rightarrow> m) * 60)
        (day + (case is_untilMinutes schedule of None \<Rightarrow> 24 * 60 - 1 | Some m \<Rightarrow> m) * 60) approximate slots
      else slots)"

lemma cadence_adds: "\<exists>more. cadence from_t to_t step moment close approximate slots = slots @ more"
proof (induction from_t to_t step moment close approximate slots rule: cadence.induct)
  case (1 from_t to_t step moment close approximate slots)
  show ?case
  proof (cases "close < moment \<or> MAX_SLOTS \<le> length slots \<or> step \<le> 0")
    case True
    then show ?thesis by (simp add: cadence.simps [of from_t])
  next
    case False
    from "1.IH" [OF False] show ?thesis using False by (subst cadence.simps) (auto split: if_splits)
  qed
qed

interpretation limited: day_walk c to_t "limited_loop c schedule from_t to_t step approximate"
    "limited_body c schedule from_t to_t step approximate"
  for c to_t schedule from_t step approximate
proof
  show "limited_loop c schedule from_t to_t step approximate day slots =
      (if day \<le> to_t \<and> length slots < MAX_SLOTS
       then limited_loop c schedule from_t to_t step approximate (next_day c day)
         (limited_body c schedule from_t to_t step approximate day slots)
       else Some slots)" for day slots
    by (subst limited_loop.simps) (simp add: limited_body_def)
  show "\<exists>more. limited_body c schedule from_t to_t step approximate day slots = slots @ more" for day slots
    using cadence_adds by (simp add: limited_body_def)
qed

section \<open>Which slots they are\<close>

text \<open>What a schedule plans, written out: the name of a day of the week (day 0 is a Thursday), the
  days a weekday list admits, and, of a slot, that it has not ended before the window opens and
  starts before it closes.\<close>

definition in_window :: "int \<Rightarrow> int \<Rightarrow> raw_slot \<Rightarrow> bool" where
  "in_window from_t to_t slot \<longleftrightarrow>
     rs_at slot \<le> to_t \<and> from_t \<le> (case rs_untilAt slot of None \<Rightarrow> rs_at slot | Some u \<Rightarrow> u)"

definition day_of_week :: "int \<Rightarrow> string" where
  "day_of_week e = [''mon'', ''tue'', ''wed'', ''thu'', ''fri'', ''sat'', ''sun''] ! nat ((e + 3) mod 7)"

definition weekday_admits :: "string list \<Rightarrow> int \<Rightarrow> bool" where
  "weekday_admits days e \<longleftrightarrow> days = [] \<or> 7 \<le> length days \<or> day_of_week e \<in> set days"

definition calendar_admits :: "clock \<Rightarrow> calendar_schedule \<Rightarrow> int \<Rightarrow> bool" where
  "calendar_admits c ca e =
     (if hasDateRule (ca_rule ca) then dateRuleMatches c (ca_rule ca) (day_open c e) else weekday_admits (ca_days ca) e)"

text \<open>A day of a calendar: one slot from the first minute to the end of its range, or one slot for
  each of its minutes when it has no range (or one that ends before it begins).\<close>

definition calendar_slot :: "clock \<Rightarrow> calendar_schedule \<Rightarrow> int \<Rightarrow> int \<Rightarrow> int option \<Rightarrow> raw_slot" where
  "calendar_slot c ca e m until =
     \<lparr>rs_at = day_open c e + m * 60, rs_untilAt = map_option (\<lambda>u. day_open c e + u * 60) until,
      rs_approximate = (ca_untilMinutes ca \<noteq> None \<or> (\<exists>n. ca_pickDays ca = Some n \<and> 0 < n)),
      rs_times = (case ca_times ca of None \<Rightarrow> 1 | Some n \<Rightarrow> max 1 n)\<rparr>"

definition calendar_plan :: "clock \<Rightarrow> calendar_schedule \<Rightarrow> int \<Rightarrow> raw_slot list" where
  "calendar_plan c ca e =
     (if \<not> calendar_admits c ca e then []
      else case ca_untilMinutes ca of
          Some u \<Rightarrow> if ca_atMinutes ca < u then [calendar_slot c ca e (ca_atMinutes ca) (Some u)]
            else map (\<lambda>m. calendar_slot c ca e m None) (ca_atMinutes ca # (case ca_alsoAtMinutes ca of None \<Rightarrow> [] | Some ms \<Rightarrow> ms))
        | None \<Rightarrow> map (\<lambda>m. calendar_slot c ca e m None) (ca_atMinutes ca # (case ca_alsoAtMinutes ca of None \<Rightarrow> [] | Some ms \<Rightarrow> ms)))"

text \<open>An interval: the times between two moments that are a whole number of steps from an anchor,
  in order. Held to some hours and days it restarts when the hours of each day open.\<close>

definition times_between :: "int \<Rightarrow> int \<Rightarrow> int \<Rightarrow> int \<Rightarrow> int list" where
  "times_between a b step anchor = sorted_list_of_set {t. a \<le> t \<and> t \<le> b \<and> step dvd t - anchor}"

definition interval_step :: "interval_schedule \<Rightarrow> int" where
  "interval_step iv = max 60 (is_everySecs iv)"

definition interval_soft :: "interval_schedule \<Rightarrow> bool" where
  "interval_soft iv \<longleftrightarrow> (\<exists>m. is_everyMaxSecs iv = Some m \<and> interval_step iv < m)"

definition hours_plan :: "clock \<Rightarrow> interval_schedule \<Rightarrow> int \<Rightarrow> raw_slot list" where
  "hours_plan c iv e =
     (if weekday_admits (case is_days iv of None \<Rightarrow> [] | Some ds \<Rightarrow> ds) e
      then let opening = day_open c e + (case is_fromMinutes iv of None \<Rightarrow> 0 | Some m \<Rightarrow> m * 60);
               closing = day_open c e + (case is_untilMinutes iv of None \<Rightarrow> 1439 * 60 | Some m \<Rightarrow> m * 60)
           in map (interval_slot (interval_soft iv)) (times_between opening closing (interval_step iv) opening)
      else [])"

text \<open>The days that open in a window, and what is planned for a window: \<open>plan_for c schedule from_t
  to_t nextFireAt lastRunAt plan\<close>. A cron line plans the times it names (\<^const>\<open>named_times\<close>), a
  line that is not accepted nothing.\<close>

definition days_of :: "clock \<Rightarrow> int \<Rightarrow> int \<Rightarrow> int list" where
  "days_of c from_t to_t = filter (\<lambda>e. day_open c e \<le> to_t) [local_day c from_t..local_day c to_t]"

definition plan_for :: "clock \<Rightarrow> job_schedule option \<Rightarrow> int \<Rightarrow> int \<Rightarrow> int option \<Rightarrow> int option \<Rightarrow> raw_slot list \<Rightarrow> bool" where
  "plan_for c schedule from_t to_t nextFireAt lastRunAt plan \<longleftrightarrow>
     (if to_t \<le> from_t then plan = []
      else case schedule of
          None \<Rightarrow> plan = []
        | Some ManualRun \<Rightarrow> plan = []
        | Some (Cron line) \<Rightarrow> (case parseCron line of
              Inl e \<Rightarrow> plan = []
            | Inr spec \<Rightarrow> set plan = interval_slot False ` {t \<in> named_times c spec. from_t \<le> t \<and> t \<le> to_t})
        | Some (Calendar ca) \<Rightarrow>
            plan = concat (map (\<lambda>e. filter (in_window from_t to_t) (calendar_plan c ca e)) (days_of c from_t to_t))
        | Some (Interval iv) \<Rightarrow>
            if is_fromMinutes iv = None \<and> (is_days iv = None \<or> is_days iv = Some [])
            then (case (nextFireAt, lastRunAt) of
                (Some t, _) \<Rightarrow> plan = map (interval_slot (interval_soft iv)) (times_between from_t to_t (interval_step iv) t)
              | (None, Some t) \<Rightarrow>
                  plan = map (interval_slot (interval_soft iv)) (times_between from_t to_t (interval_step iv) (t + interval_step iv))
              | (None, None) \<Rightarrow> plan = [])
            else plan = concat (map (\<lambda>e. filter (in_window from_t to_t) (hours_plan c iv e)) (days_of c from_t to_t)))"

lemma weekday_admits_open: "clock_ok c \<Longrightarrow> runsOnDay days (weekdayOf c (day_open c e)) = weekday_admits days e"
proof -
  assume "clock_ok c"
  moreover have "((e + 4) mod 7 + 6) mod 7 = (e + 3) mod 7" by presburger
  ultimately have "weekdayOf c (day_open c e) = day_of_week e"
    by (simp add: weekdayOf_def getDay_def weekday_of_day_def day_of_week_def WEEKDAYS_def del: mod_add_left_eq)
  then show ?thesis by (simp add: runsOnDay_def weekday_admits_def WEEKDAYS_def)
qed

lemma map_filter_filter:
  "List.map_filter (\<lambda>x. if P (g x) then Some (g x) else None) xs = filter P (map g xs)"
  by (induction xs) (simp_all add: List.map_filter_simps)

lemma calendar_slots_plan:
  assumes "calendar_admits c ca e"
  shows "calendar_slots c ca from_t to_t (day_open c e) = filter (in_window from_t to_t) (calendar_plan c ca e)"
proof -
  define until where "until = (case ca_untilMinutes ca of None \<Rightarrow> None | Some u \<Rightarrow> if ca_atMinutes ca < u then Some u else None)"
  define minutes where "minutes = ca_atMinutes ca # (case ca_alsoAtMinutes ca of None \<Rightarrow> [] | Some ms \<Rightarrow> ms)"
  have plan: "calendar_plan c ca e =
      map (\<lambda>m. calendar_slot c ca e m until) (if until = None then minutes else [ca_atMinutes ca])"
    using assms by (simp add: calendar_plan_def until_def minutes_def split: option.splits)
  have w: "in_window from_t to_t (calendar_slot c ca e m until) \<longleftrightarrow>
      from_t \<le> (case map_option (\<lambda>u. day_open c e + u * 60) until of None \<Rightarrow> day_open c e + m * 60 | Some u \<Rightarrow> u) \<and>
      day_open c e + m * 60 \<le> to_t" for m
    by (auto simp: in_window_def calendar_slot_def split: option.splits)
  have u: "(case ca_untilMinutes ca of None \<Rightarrow> None
      | Some u \<Rightarrow> if ca_atMinutes ca < u then Some (day_open c e + u * 60) else None) = map_option (\<lambda>u. day_open c e + u * 60) until"
    by (simp add: until_def split: option.splits)
  have times: "max 1 (case ca_times ca of None \<Rightarrow> 1 | Some n \<Rightarrow> n) = (case ca_times ca of None \<Rightarrow> 1 | Some n \<Rightarrow> max 1 n)"
    "(0 < (case ca_pickDays ca of None \<Rightarrow> 0 | Some n \<Rightarrow> n)) = (\<exists>n. ca_pickDays ca = Some n \<and> 0 < n)"
    by (simp_all split: option.splits)
  have "calendar_slots c ca from_t to_t (day_open c e) =
      List.map_filter (\<lambda>m. if in_window from_t to_t (calendar_slot c ca e m until) then Some (calendar_slot c ca e m until) else None)
        (if until = None then minutes else [ca_atMinutes ca])"
    unfolding calendar_slots_def Let_def u times w minutes_def [symmetric] unfolding calendar_slot_def by (cases until) simp_all
  then show ?thesis unfolding plan using map_filter_filter [where P = "in_window from_t to_t"] by metis
qed


lemma range_step_sorted: "0 < step \<Longrightarrow> sorted_wrt (<) (range_step lo hi step)"
proof (induction lo hi step rule: range_step.induct)
  case (1 lo hi step)
  show ?case
  proof (cases "hi < lo")
    case True
    then show ?thesis by (simp add: range_step.simps [of lo])
  next
    case False
    then have "sorted_wrt (<) (range_step (lo + step) hi step)" using 1 by simp
    moreover have "\<forall>v\<in>set (range_step (lo + step) hi step). lo < v"
      using "1.prems" by (auto simp: range_step_set)
    ultimately show ?thesis using False "1.prems" by (simp add: range_step.simps [of lo])
  qed
qed

lemma strictly_sorted_list: "sorted_wrt (<) xs \<Longrightarrow> xs = sorted_list_of_set (set xs)" for xs :: "int list"
  by (simp add: sorted_list_of_set.idem_if_sorted_distinct strict_sorted_iff)

text \<open>The loop over a plain interval starts at the last time of the cadence up to the window.\<close>

lemma first_of_cadence:
  assumes "0 < step"
  shows "anchor - ceil_div (anchor - from_t) step * step \<le> from_t"
    and "step dvd t - (anchor - ceil_div (anchor - from_t) step * step) \<longleftrightarrow> step dvd t - anchor"
proof -
  have eq: "anchor - ceil_div (anchor - from_t) step * step = anchor + step * ((from_t - anchor) div step)"
    by (simp add: ceil_div_def)
  have "step * ((from_t - anchor) div step) \<le> from_t - anchor"
    using assms pos_mod_sign [of step "from_t - anchor"] mult_div_mod_eq [of step "from_t - anchor"] by linarith
  then show "anchor - ceil_div (anchor - from_t) step * step \<le> from_t" unfolding eq by simp
  have "t - anchor = t - (anchor + step * ((from_t - anchor) div step)) + step * ((from_t - anchor) div step)" by simp
  then show "step dvd t - (anchor - ceil_div (anchor - from_t) step * step) \<longleftrightarrow> step dvd t - anchor"
    unfolding eq by (metis dvd_add_left_iff dvd_triv_left)
qed

lemma times_between_cadence:
  assumes "0 < step" and "\<And>t. step dvd t - start \<longleftrightarrow> step dvd t - anchor"
  shows "filter (\<lambda>t. from_t \<le> t \<and> t \<le> to_t) (range_step start close step) =
    sorted_list_of_set {t. start \<le> t \<and> t \<le> close \<and> from_t \<le> t \<and> t \<le> to_t \<and> step dvd t - anchor}"
proof -
  have "sorted_wrt (<) (filter (\<lambda>t. from_t \<le> t \<and> t \<le> to_t) (range_step start close step))"
    by (rule sorted_wrt_filter [OF range_step_sorted [OF assms(1)]])
  moreover have "set (filter (\<lambda>t. from_t \<le> t \<and> t \<le> to_t) (range_step start close step)) =
    {t. start \<le> t \<and> t \<le> close \<and> from_t \<le> t \<and> t \<le> to_t \<and> step dvd t - anchor}"
    using assms(2) by (auto simp: range_step_set [OF assms(1)])
  ultimately show ?thesis using strictly_sorted_list by metis
qed

text \<open>The slots of a plain interval are the first of its cadence.\<close>

lemma interval_plan:
  assumes "0 < step"
  shows "cadence from_t to_t step (anchor - ceil_div (anchor - from_t) step * step) to_t approximate [] =
    take MAX_SLOTS (map (interval_slot approximate) (times_between from_t to_t step anchor))"
proof -
  let ?start = "anchor - ceil_div (anchor - from_t) step * step"
  have "{t. ?start \<le> t \<and> t \<le> to_t \<and> from_t \<le> t \<and> t \<le> to_t \<and> step dvd t - anchor} =
      {t. from_t \<le> t \<and> t \<le> to_t \<and> step dvd t - anchor}"
    using first_of_cadence(1) [OF assms, of anchor from_t] by auto
  then have "filter (\<lambda>t. from_t \<le> t \<and> t \<le> to_t) (range_step ?start to_t step) = times_between from_t to_t step anchor"
    using times_between_cadence [OF assms, where start = ?start and anchor = anchor and from_t = from_t and to_t = to_t and close = to_t] first_of_cadence(2) [OF assms]
    by (simp add: times_between_def)
  then show ?thesis using cadence_eq [OF assms, of "[]"] by (simp add: take_map)
qed

lemma filter_times_between:
  assumes "0 < step"
  shows "filter (\<lambda>t. from_t \<le> t \<and> t \<le> to_t) (range_step a b step) = filter (\<lambda>t. from_t \<le> t \<and> t \<le> to_t) (times_between a b step a)"
proof -
  have "range_step a b step = times_between a b step a"
    using strictly_sorted_list [OF range_step_sorted [OF assms]] by (simp add: range_step_set [OF assms] times_between_def)
  then show ?thesis by simp
qed

lemma limited_adds:
  assumes "clock_ok c" and "length sl < MAX_SLOTS"
  shows "\<exists>k. limited_body c iv from_t to_t (interval_step iv) (interval_soft iv) (day_open c e) sl =
      sl @ take k (filter (in_window from_t to_t) (hours_plan c iv e)) \<and>
    (length (limited_body c iv from_t to_t (interval_step iv) (interval_soft iv) (day_open c e) sl) < MAX_SLOTS \<longrightarrow>
      take k (filter (in_window from_t to_t) (hours_plan c iv e)) = filter (in_window from_t to_t) (hours_plan c iv e))"
proof (cases "weekday_admits (case is_days iv of None \<Rightarrow> [] | Some ds \<Rightarrow> ds) e")
  case False
  then show ?thesis by (simp add: limited_body_def weekday_admits_open [OF assms(1)] hours_plan_def)
next
  case True
  let ?a = "day_open c e + (case is_fromMinutes iv of None \<Rightarrow> 0 | Some m \<Rightarrow> m * 60)"
  let ?b = "day_open c e + (case is_untilMinutes iv of None \<Rightarrow> 1439 * 60 | Some m \<Rightarrow> m * 60)"
  let ?plan = "filter (in_window from_t to_t) (hours_plan c iv e)"
  have pos: "0 < interval_step iv" by (simp add: interval_step_def)
  have "day_open c e + (case is_fromMinutes iv of None \<Rightarrow> 0 | Some m \<Rightarrow> m) * 60 = ?a"
    "day_open c e + (case is_untilMinutes iv of None \<Rightarrow> 24 * 60 - 1 | Some m \<Rightarrow> m) * 60 = ?b" by (simp_all split: option.splits)
  then have b: "limited_body c iv from_t to_t (interval_step iv) (interval_soft iv) (day_open c e) sl =
      cadence from_t to_t (interval_step iv) ?a ?b (interval_soft iv) sl"
    using True by (simp add: limited_body_def weekday_admits_open [OF assms(1)])
  have w: "in_window from_t to_t (interval_slot soft t) \<longleftrightarrow> from_t \<le> t \<and> t \<le> to_t" for soft t
    by (auto simp: in_window_def interval_slot_def)
  have "?plan = map (interval_slot (interval_soft iv)) (filter (\<lambda>t. from_t \<le> t \<and> t \<le> to_t) (times_between ?a ?b (interval_step iv) ?a))"
    using True by (simp add: hours_plan_def Let_def filter_map o_def w)
  then have "cadence from_t to_t (interval_step iv) ?a ?b (interval_soft iv) sl = sl @ take (MAX_SLOTS - length sl) ?plan"
    using cadence_eq [OF pos, of sl from_t to_t ?a ?b "interval_soft iv"] assms(2)
    by (simp add: filter_times_between [OF pos] take_map)
  then show ?thesis unfolding b by (intro exI [of _ "MAX_SLOTS - length sl"]) auto
qed

lemma calendar_adds:
  assumes "clock_ok c"
  shows "calendar_body c ca from_t to_t (day_open c e) sl = sl @ filter (in_window from_t to_t) (calendar_plan c ca e)"
proof -
  have "calendar_day c ca (day_open c e) = calendar_admits c ca e"
    by (simp add: calendar_day_def calendar_admits_def weekday_admits_open [OF assms])
  then show ?thesis
    using calendar_slots_plan [of c ca e from_t to_t]
    by (cases "calendar_admits c ca e") (simp_all add: calendar_body_def calendar_plan_def)
qed

definition first_of :: "raw_slot list \<Rightarrow> expand_result \<Rightarrow> bool" where
  "first_of plan result \<longleftrightarrow> (\<exists>k. result = (take k plan, MAX_SLOTS \<le> length (take k plan)) \<and>
     (length (take k plan) < MAX_SLOTS \<longrightarrow> take k plan = plan))"

lemma calendar_expanded:
  assumes "steady c" and "from_t < to_t"
  shows "\<exists>plan result. plan_for c (Some (Calendar ca)) from_t to_t nextFireAt lastRunAt plan \<and>
    expandCalendar c ca from_t to_t = Some result \<and> first_of plan result"
proof -
  define day_plan where "day_plan e = filter (in_window from_t to_t) (calendar_plan c ca e)" for e
  have ok: "clock_ok c" using assms(1) by (simp add: steady_def)
  have "\<exists>k. calendar_body c ca from_t to_t (day_open c e) sl = sl @ take k (day_plan e) \<and>
      (length (calendar_body c ca from_t to_t (day_open c e) sl) < MAX_SLOTS \<longrightarrow> take k (day_plan e) = day_plan e)" for e sl
    unfolding calendar_adds [OF ok] day_plan_def [symmetric] by (intro exI [of _ "length (day_plan e)"]) simp
  from calendar.walk_follows_plan [OF assms(1) this, of "local_day c from_t" "[]"]
  obtain k where k: "calendar_loop c ca from_t to_t (startOfDay c from_t) [] =
      Some (take k (day_walk.walk_plan c to_t day_plan (local_day c from_t)))"
    "length (take k (day_walk.walk_plan c to_t day_plan (local_day c from_t))) < MAX_SLOTS \<longrightarrow>
      take k (day_walk.walk_plan c to_t day_plan (local_day c from_t)) = day_walk.walk_plan c to_t day_plan (local_day c from_t)"
    by (auto simp: startOfDay_def)
  have "day_walk.walk_plan c to_t day_plan (local_day c from_t) = concat (map day_plan (days_of c from_t to_t))"
    by (simp add: calendar.walk_plan_def days_of_def)
  then have "plan_for c (Some (Calendar ca)) from_t to_t nextFireAt lastRunAt (day_walk.walk_plan c to_t day_plan (local_day c from_t))"
    using assms(2) by (simp add: plan_for_def day_plan_def [abs_def])
  then show ?thesis using k
    by (intro exI conjI) (auto simp: expandCalendar_def first_of_def)
qed

lemma hours_expanded:
  assumes "steady c" and "from_t < to_t" and "\<not> (is_fromMinutes iv = None \<and> (is_days iv = None \<or> is_days iv = Some []))"
  shows "\<exists>plan result. plan_for c (Some (Interval iv)) from_t to_t nextFireAt lastRunAt plan \<and>
    expandLimitedInterval c iv from_t to_t (interval_step iv) (interval_soft iv) = Some result \<and> first_of plan result"
proof -
  define day_plan where "day_plan e = filter (in_window from_t to_t) (hours_plan c iv e)" for e
  have ok: "clock_ok c" using assms(1) by (simp add: steady_def)
  have "\<exists>k. limited_body c iv from_t to_t (interval_step iv) (interval_soft iv) (day_open c e) sl = sl @ take k (day_plan e) \<and>
      (length (limited_body c iv from_t to_t (interval_step iv) (interval_soft iv) (day_open c e) sl) < MAX_SLOTS \<longrightarrow>
        take k (day_plan e) = day_plan e)" if "length sl < MAX_SLOTS" for e sl
    unfolding day_plan_def by (rule limited_adds [OF ok that])
  from limited.walk_follows_plan [OF assms(1) this, where day = "local_day c from_t" and slots = "[]"]
  obtain k where k: "limited_loop c iv from_t to_t (interval_step iv) (interval_soft iv) (startOfDay c from_t) [] =
      Some (take k (day_walk.walk_plan c to_t day_plan (local_day c from_t)))"
    "length (take k (day_walk.walk_plan c to_t day_plan (local_day c from_t))) < MAX_SLOTS \<longrightarrow>
      take k (day_walk.walk_plan c to_t day_plan (local_day c from_t)) = day_walk.walk_plan c to_t day_plan (local_day c from_t)"
    by (auto simp: startOfDay_def)
  have "day_walk.walk_plan c to_t day_plan (local_day c from_t) = concat (map day_plan (days_of c from_t to_t))"
    by (simp add: limited.walk_plan_def days_of_def)
  then have "plan_for c (Some (Interval iv)) from_t to_t nextFireAt lastRunAt (day_walk.walk_plan c to_t day_plan (local_day c from_t))"
    using assms(2,3) by (auto simp: plan_for_def day_plan_def [abs_def])
  then show ?thesis using k
    by (intro exI conjI) (auto simp: expandLimitedInterval_def first_of_def)
qed

lemma interval_expanded:
  assumes "steady c" and "from_t < to_t"
  shows "\<exists>plan result. plan_for c (Some (Interval iv)) from_t to_t nextFireAt lastRunAt plan \<and>
    expandInterval c iv from_t to_t nextFireAt lastRunAt = Some result \<and> first_of plan result"
proof (cases "is_fromMinutes iv = None \<and> (is_days iv = None \<or> is_days iv = Some [])")
  case False
  have soft: "(case is_everyMaxSecs iv of None \<Rightarrow> False | Some m \<Rightarrow> max 60 (is_everySecs iv) < m) = interval_soft iv"
    by (simp add: interval_soft_def interval_step_def split: option.splits)
  have "expandInterval c iv from_t to_t nextFireAt lastRunAt =
      expandLimitedInterval c iv from_t to_t (interval_step iv) (interval_soft iv)"
    unfolding expandInterval_def Let_def soft using False by (auto simp: interval_step_def split: option.splits)
  with hours_expanded [OF assms False] show ?thesis by simp
next
  case True
  have pos: "0 < interval_step iv" by (simp add: interval_step_def)
  have soft: "(case is_everyMaxSecs iv of None \<Rightarrow> False | Some m \<Rightarrow> max 60 (is_everySecs iv) < m) = interval_soft iv"
    by (simp add: interval_soft_def interval_step_def split: option.splits)
  show ?thesis
  proof (cases "or_else nextFireAt (map_option (\<lambda>t. t + interval_step iv) lastRunAt)")
    case None
    then have "nextFireAt = None" "lastRunAt = None" by (cases nextFireAt; cases lastRunAt; simp)+
    then show ?thesis using True assms(2)
      by (auto simp: plan_for_def expandInterval_def first_of_def MAX_SLOTS_def interval_step_def Let_def)
  next
    case (Some anchor)
    define plan where "plan = map (interval_slot (interval_soft iv)) (times_between from_t to_t (interval_step iv) anchor)"
    have "expandInterval c iv from_t to_t nextFireAt lastRunAt = Some (take MAX_SLOTS plan, MAX_SLOTS \<le> length (take MAX_SLOTS plan))"
      unfolding plan_def interval_plan [OF pos, symmetric] unfolding expandInterval_def Let_def soft
      using True Some by (auto simp: interval_step_def)
    moreover have "first_of plan (take MAX_SLOTS plan, MAX_SLOTS \<le> length (take MAX_SLOTS plan))"
      unfolding first_of_def by (intro exI [of _ MAX_SLOTS]) simp
    moreover have "plan_for c (Some (Interval iv)) from_t to_t nextFireAt lastRunAt plan"
      using True Some assms(2) by (cases nextFireAt; cases lastRunAt) (simp_all add: plan_for_def plan_def)
    ultimately show ?thesis by blast
  qed
qed

lemma cron_expanded:
  assumes "clock_ok c" and "100 \<le> year_of (local_day c from_t)" and "parseCron line \<noteq> Inl Crash" and "from_t < to_t"
  shows "\<exists>plan result. plan_for c (Some (Cron line)) from_t to_t nextFireAt lastRunAt plan \<and>
    expandCron c line from_t to_t = Some result \<and> first_of plan result"
proof (cases "parseCron line")
  case (Inl e)
  then show ?thesis using assms(3,4) by (auto simp: expandCron_def plan_for_def first_of_def MAX_SLOTS_def)
next
  case (Inr spec)
  obtain rs where r: "cronRunsBetween c spec from_t to_t MAX_SLOTS = Some (take MAX_SLOTS rs)"
    "set rs = {t \<in> named_times c spec. from_t \<le> t \<and> t \<le> to_t}"
    using cron_window_runs [OF assms(1) Inr assms(2), of MAX_SLOTS to_t] by (auto simp: MAX_SLOTS_def)
  define plan where "plan = map (interval_slot False) rs"
  have "expandCron c line from_t to_t = Some (take MAX_SLOTS plan, MAX_SLOTS \<le> length (take MAX_SLOTS plan))"
    using Inr r(1) by (simp add: expandCron_def plan_def take_map interval_slot_def [abs_def])
  moreover have "first_of plan (take MAX_SLOTS plan, MAX_SLOTS \<le> length (take MAX_SLOTS plan))"
    unfolding first_of_def by (intro exI [of _ MAX_SLOTS]) simp
  moreover have "plan_for c (Some (Cron line)) from_t to_t nextFireAt lastRunAt plan"
    using Inr r(2) assms(4) by (simp add: plan_for_def plan_def)
  ultimately show ?thesis by blast
qed


section \<open>What happened takes over what was planned\<close>

definition planned :: "job_occurrence \<Rightarrow> bool" where
  "planned occ \<longleftrightarrow> oc_state occ \<noteq> Ran \<and> oc_state occ \<noteq> Running"

definition nearest_ok :: "int \<Rightarrow> job_occurrence list \<Rightarrow> (nat \<times> int) option \<Rightarrow> bool" where
  "nearest_ok moment occs best \<longleftrightarrow> (case best of
      None \<Rightarrow> \<forall>occ\<in>set occs. \<not> planned occ
    | Some (i, g) \<Rightarrow> i < length occs \<and> planned (occs ! i) \<and> g = slot_gap (occs ! i) moment \<and>
        (\<forall>occ\<in>set occs. planned occ \<longrightarrow> g \<le> slot_gap occ moment))"

lemma nearest_fold: "nearest_ok moment occs (foldl (nearest_step moment) None (enumerate 0 occs))"
proof (induction occs rule: rev_induct)
  case Nil
  then show ?case by (simp add: nearest_ok_def)
next
  case (snoc occ occs)
  obtain best where b: "best = foldl (nearest_step moment) None (enumerate 0 occs)" by simp
  have "nearest_ok moment (occs @ [occ]) (nearest_step moment best (length occs, occ))"
    using snoc [folded b]
    by (cases best) (auto simp: nearest_ok_def nearest_step_def planned_def nth_append split: prod.splits)
  then show ?case by (simp add: enumerate_append_eq b)
qed

lemma nearest_slot:
  "case nearestSlot occs moment of
     None \<Rightarrow> \<forall>occ\<in>set occs. planned occ \<longrightarrow> RUN_MATCH_SECS < slot_gap occ moment
   | Some i \<Rightarrow> i < length occs \<and> planned (occs ! i) \<and> slot_gap (occs ! i) moment \<le> RUN_MATCH_SECS \<and>
       (\<forall>occ\<in>set occs. planned occ \<longrightarrow> slot_gap (occs ! i) moment \<le> slot_gap occ moment)"
  using nearest_fold [of moment occs]
  by (fastforce simp: nearestSlot_def nearest_ok_def split: option.splits prod.splits if_splits)

lemma filter_update:
  assumes "i < length xs" and "\<not> P (xs ! i)"
  shows "filter P (xs[i := y]) = filter P (take i xs) @ (if P y then [y] else []) @ filter P (drop (Suc i) xs)"
    and "filter P xs = filter P (take i xs) @ filter P (drop (Suc i) xs)"
  using assms by (simp_all add: upd_conv_take_nth_drop id_take_nth_drop [OF assms(1), symmetric])
    (metis assms filter.simps(2) filter_append id_take_nth_drop)

text \<open>Folding a run in: it is the only entry of its state when there was none, entries of another
  state of a run stay as they are, and at most one entry is added.\<close>

lemma fold_in_run:
  assumes "state = Ran \<or> state = Running" and "\<forall>occ\<in>set occs. oc_state occ \<noteq> state"
  shows "map (\<lambda>occ. (oc_at occ, oc_result occ)) (filter (\<lambda>occ. oc_state occ = state) (fold_in key state result moment occs)) =
    [(moment, result)]"
proof -
  have none: "filter (\<lambda>occ. oc_state occ = state) occs = []" using assms(2) by (simp add: filter_empty_conv)
  show ?thesis
  proof (cases "nearestSlot occs moment")
    case None
    then show ?thesis using none by (simp add: fold_in_def)
  next
    case (Some i)
    have i: "i < length occs" using nearest_slot [of occs moment] Some by simp
    then have no: "\<not> oc_state (occs ! i) = state" using assms(2) by simp
    have e: "filter (\<lambda>occ. oc_state occ = state) (take i occs) = []" "filter (\<lambda>occ. oc_state occ = state) (drop (Suc i) occs) = []"
      using assms(2) by (auto simp: filter_empty_conv dest: in_set_takeD in_set_dropD)
    show ?thesis using Some filter_update(1) [where P = "\<lambda>occ. oc_state occ = state", OF i no] e by (simp add: fold_in_def)
  qed
qed

lemma fold_in_other:
  assumes "state' = Ran \<or> state' = Running" and "state \<noteq> state'"
  shows "filter (\<lambda>occ. oc_state occ = state') (fold_in key state result moment occs) = filter (\<lambda>occ. oc_state occ = state') occs"
proof (cases "nearestSlot occs moment")
  case None
  then show ?thesis using assms(2) by (simp add: fold_in_def)
next
  case (Some i)
  have i: "i < length occs" "planned (occs ! i)" using nearest_slot [of occs moment] Some by simp_all
  then have no: "\<not> oc_state (occs ! i) = state'" using assms(1) by (auto simp: planned_def)
  show ?thesis
    using Some assms(2) filter_update [where P = "\<lambda>occ. oc_state occ = state'", OF i(1) no] by (simp add: fold_in_def)
qed

definition runs_shown :: "occurrence_state \<Rightarrow> job_occurrence list \<Rightarrow> (int \<times> string option) list" where
  "runs_shown state occs = map (\<lambda>occ. (oc_at occ, oc_result occ)) (filter (\<lambda>occ. oc_state occ = state) occs)"

lemma runs_shown_sorted:
  assumes "runs_shown state occs = [x]"
  shows "runs_shown state (sort_by compareAt occs) = [x]"
proof -
  obtain occ where "filter (\<lambda>occ. oc_state occ = state) occs = [occ]"
    using assms by (auto simp: runs_shown_def map_eq_Cons_conv)
  then show ?thesis using assms by (simp add: runs_shown_def occurrence_order.filter_sort_by)
qed

lemma runs_shown_none: "runs_shown state occs = [] \<Longrightarrow> runs_shown state (sort_by compareAt occs) = []"
  by (simp add: runs_shown_def occurrence_order.filter_sort_by)

text \<open>The entry of a planned slot, how far a run is from it, and the two multisets of entries before
  and after a run is folded in: it takes over a planned entry that is nearest to it, if one is within
  half an hour (a run inside the range of a slot is at no distance), and is an entry of its own
  otherwise.\<close>

definition entry_of :: "string \<Rightarrow> bool \<Rightarrow> int \<Rightarrow> raw_slot \<Rightarrow> job_occurrence" where
  "entry_of keyPrefix enabled now slot =
     \<lparr>oc_key = keyPrefix @ ''@'' @ int_str (rs_at slot), oc_at = rs_at slot, oc_untilAt = rs_untilAt slot,
      oc_state = (if \<not> enabled then Paused
        else if (case rs_untilAt slot of None \<Rightarrow> rs_at slot | Some u \<Rightarrow> u) < now then Past else Due),
      oc_approximate = rs_approximate slot, oc_times = rs_times slot, oc_result = None\<rparr>"

definition how_far :: "job_occurrence \<Rightarrow> int \<Rightarrow> int" where
  "how_far occ t = (case oc_untilAt occ of
       Some u \<Rightarrow> if oc_at occ \<le> t \<and> t \<le> u then 0 else \<bar>oc_at occ - t\<bar>
     | None \<Rightarrow> \<bar>oc_at occ - t\<bar>)"

definition run_entered :: "string \<Rightarrow> occurrence_state \<Rightarrow> string option \<Rightarrow> int \<Rightarrow>
    job_occurrence multiset \<Rightarrow> job_occurrence multiset \<Rightarrow> bool" where
  "run_entered key state result t before after \<longleftrightarrow>
     (if \<exists>occ. occ \<in># before \<and> planned occ \<and> how_far occ t \<le> 1800
      then \<exists>occ. occ \<in># before \<and> planned occ \<and> (\<forall>o'. o' \<in># before \<longrightarrow> planned o' \<longrightarrow> how_far occ t \<le> how_far o' t) \<and>
        after = add_mset \<lparr>oc_key = oc_key occ, oc_at = t, oc_untilAt = oc_untilAt occ, oc_state = state,
          oc_approximate = False, oc_times = oc_times occ, oc_result = result\<rparr> (before - {#occ#})
      else after = add_mset \<lparr>oc_key = key, oc_at = t, oc_untilAt = None, oc_state = state,
          oc_approximate = False, oc_times = 1, oc_result = result\<rparr> before)"

lemma slot_gap_how_far: "slot_gap occ t = how_far occ t"
  by (auto simp: slot_gap_def how_far_def split: option.splits)

lemma fold_in_entered: "run_entered key state result t (mset occs) (mset (fold_in key state result t occs))"
proof (cases "nearestSlot occs t")
  case None
  then have "\<forall>occ\<in>set occs. planned occ \<longrightarrow> 1800 < how_far occ t"
    using nearest_slot [of occs t] by (simp add: slot_gap_how_far RUN_MATCH_SECS_def)
  then have "\<not> (\<exists>occ. occ \<in># mset occs \<and> planned occ \<and> how_far occ t \<le> 1800)" by fastforce
  then show ?thesis unfolding run_entered_def by (subst if_not_P) (assumption, simp add: fold_in_def None)
next
  case (Some i)
  then have i: "i < length occs" "planned (occs ! i)" "how_far (occs ! i) t \<le> 1800"
    "\<forall>occ\<in>set occs. planned occ \<longrightarrow> how_far (occs ! i) t \<le> how_far occ t"
    using nearest_slot [of occs t] by (simp_all add: slot_gap_how_far RUN_MATCH_SECS_def)
  then have mem: "occs ! i \<in># mset occs" by simp
  have "(occs ! i)\<lparr>oc_state := state, oc_result := result, oc_approximate := False, oc_at := t\<rparr> =
      \<lparr>oc_key = oc_key (occs ! i), oc_at = t, oc_untilAt = oc_untilAt (occs ! i), oc_state = state,
        oc_approximate = False, oc_times = oc_times (occs ! i), oc_result = result\<rparr>" by (cases "occs ! i") simp
  then have "mset (fold_in key state result t occs) =
      add_mset \<lparr>oc_key = oc_key (occs ! i), oc_at = t, oc_untilAt = oc_untilAt (occs ! i), oc_state = state,
        oc_approximate = False, oc_times = oc_times (occs ! i), oc_result = result\<rparr> (mset occs - {#occs ! i#})"
    using Some i(1) by (simp add: fold_in_def mset_update)
  then show ?thesis using mem i(2-4) unfolding run_entered_def by (auto intro!: exI [of _ "occs ! i"])
qed

text \<open>Property C22: the runs that happened and every planned slot are on the board. The occurrences
  are in order of time and are, as a multiset: one entry for each planned slot, with its own time,
  end, mark and count, paused for a job switched off and otherwise due or past by the time its end;
  into which first the last run and then the live run were entered, each when it lies in the
  window: in place of the planned entry nearest to it when one is within half an hour, at the run's
  own time with its outcome, and as an entry more otherwise. So no slot is lost or changed that no
  run took over; and the last run is shown exactly once, at its time with its result, as is the
  live one.\<close>

theorem occurrences_account:
  assumes "expandSchedule c (jb_schedule job) from_t to_t (jb_nextFireAt job) (jb_lastRunAt job) = Some (slots, truncated)"
  shows "\<exists>occs entered. jobOccurrences c job from_t to_t now keyPrefix = Some (occs, truncated) \<and>
    sorted_wrt (\<lambda>a b. oc_at a \<le> oc_at b) occs \<and>
    (case jb_lastRunAt job of
        Some t \<Rightarrow> if from_t \<le> t \<and> t \<le> to_t
          then run_entered (keyPrefix @ ''@ran-'' @ int_str t) Ran (jb_lastResult job) t
            (mset (map (entry_of keyPrefix (jb_enabled job) now) slots)) entered
          else entered = mset (map (entry_of keyPrefix (jb_enabled job) now) slots)
      | None \<Rightarrow> entered = mset (map (entry_of keyPrefix (jb_enabled job) now) slots)) \<and>
    (case jb_runningSince job of
        Some t \<Rightarrow> if jb_running job = Some True \<and> from_t \<le> t \<and> t \<le> to_t
          then run_entered (keyPrefix @ ''@run-'' @ int_str t) Running None t entered (mset occs)
          else mset occs = entered
      | None \<Rightarrow> mset occs = entered) \<and>
    runs_shown Ran occs = (case jb_lastRunAt job of
        Some t \<Rightarrow> if from_t \<le> t \<and> t \<le> to_t then [(t, jb_lastResult job)] else [] | None \<Rightarrow> []) \<and>
    runs_shown Running occs = (case jb_runningSince job of
        Some t \<Rightarrow> if jb_running job = Some True \<and> from_t \<le> t \<and> t \<le> to_t then [(t, None)] else [] | None \<Rightarrow> [])"
proof -
  define occs0 where "occs0 = map (entry_of keyPrefix (jb_enabled job) now) slots"
  define occs1 where "occs1 = (case jb_lastRunAt job of
      Some t \<Rightarrow> if from_t \<le> t \<and> t \<le> to_t
        then fold_in (keyPrefix @ ''@ran-'' @ int_str t) Ran (jb_lastResult job) t occs0 else occs0
    | None \<Rightarrow> occs0)"
  define occs2 where "occs2 = (case jb_runningSince job of
      Some t \<Rightarrow> if jb_running job = Some True \<and> from_t \<le> t \<and> t \<le> to_t
        then fold_in (keyPrefix @ ''@run-'' @ int_str t) Running None t occs1 else occs1
    | None \<Rightarrow> occs1)"
  have entries: "map (\<lambda>slot. \<lparr>oc_key = keyPrefix @ ''@'' @ int_str (rs_at slot), oc_at = rs_at slot,
      oc_untilAt = rs_untilAt slot, oc_state = slotState slot job now,
      oc_approximate = rs_approximate slot, oc_times = rs_times slot, oc_result = None\<rparr>) slots = occs0"
    by (simp add: occs0_def entry_of_def slotState_def not_le)
  have eq: "jobOccurrences c job from_t to_t now keyPrefix = Some (sort_by compareAt occs2, truncated)"
    unfolding jobOccurrences_def assms option.case prod.case Let_def entries occs2_def occs1_def ..
  have plan: "oc_state occ \<noteq> Ran \<and> oc_state occ \<noteq> Running" if "occ \<in> set occs0" for occ
    using that by (auto simp: occs0_def entry_of_def split: if_splits)
  have none: "runs_shown Ran occs0 = []" "runs_shown Running occs0 = []"
    using plan by (auto simp: runs_shown_def filter_empty_conv)
  have other: "runs_shown Running occs1 = []"
    using none fold_in_other [of Running Ran] by (simp add: occs1_def runs_shown_def split: option.splits)
  then have quiet: "\<forall>occ\<in>set occs1. oc_state occ \<noteq> Running" by (simp add: runs_shown_def filter_empty_conv)
  have ran: "runs_shown Ran occs1 = (case jb_lastRunAt job of
      Some t \<Rightarrow> if from_t \<le> t \<and> t \<le> to_t then [(t, jb_lastResult job)] else [] | None \<Rightarrow> [])"
    using none fold_in_run [of Ran occs0] plan by (simp add: occs1_def runs_shown_def split: option.splits)
  have ran2: "runs_shown Ran occs2 = runs_shown Ran occs1"
    using fold_in_other [of Ran Running] by (simp add: occs2_def runs_shown_def split: option.splits)
  have live: "runs_shown Running occs2 = (case jb_runningSince job of
      Some t \<Rightarrow> if jb_running job = Some True \<and> from_t \<le> t \<and> t \<le> to_t then [(t, None)] else [] | None \<Rightarrow> [])"
    using other fold_in_run [of Running occs1] quiet by (simp add: occs2_def runs_shown_def split: option.splits)
  have kept: "runs_shown state (sort_by compareAt occs2) = runs_shown state occs2"
    if "runs_shown state occs2 = [] \<or> (\<exists>x. runs_shown state occs2 = [x])" for state
    using that runs_shown_sorted runs_shown_none by metis
  have few: "runs_shown Ran occs2 = [] \<or> (\<exists>x. runs_shown Ran occs2 = [x])"
    "runs_shown Running occs2 = [] \<or> (\<exists>x. runs_shown Running occs2 = [x])"
    unfolding live ran2 ran by (simp_all split: option.splits)
  show ?thesis
  proof (rule exI [of _ "sort_by compareAt occs2"], rule exI [of _ "mset occs1"], intro conjI)
    show "jobOccurrences c job from_t to_t now keyPrefix = Some (sort_by compareAt occs2, truncated)" by (rule eq)
    show "sorted_wrt (\<lambda>a b. oc_at a \<le> oc_at b) (sort_by compareAt occs2)"
      using occurrence_order.sorted_sort_by [of occs2] by (simp add: compareAt_def)
    show "case jb_lastRunAt job of
        Some t \<Rightarrow> if from_t \<le> t \<and> t \<le> to_t
          then run_entered (keyPrefix @ ''@ran-'' @ int_str t) Ran (jb_lastResult job) t
            (mset (map (entry_of keyPrefix (jb_enabled job) now) slots)) (mset occs1)
          else mset occs1 = mset (map (entry_of keyPrefix (jb_enabled job) now) slots)
      | None \<Rightarrow> mset occs1 = mset (map (entry_of keyPrefix (jb_enabled job) now) slots)"
      unfolding occs0_def [symmetric] occs1_def using fold_in_entered by (simp split: option.split)
    show "case jb_runningSince job of
        Some t \<Rightarrow> if jb_running job = Some True \<and> from_t \<le> t \<and> t \<le> to_t
          then run_entered (keyPrefix @ ''@run-'' @ int_str t) Running None t (mset occs1) (mset (sort_by compareAt occs2))
          else mset (sort_by compareAt occs2) = mset occs1
      | None \<Rightarrow> mset (sort_by compareAt occs2) = mset occs1"
      unfolding occs2_def using fold_in_entered by (simp split: option.split)
  qed (use kept few ran ran2 live in simp_all)
qed

text \<open>A run takes over the planned slot nearest to it. The slot found is a planned one
  within half an hour of the run (or whose window holds it), no planned slot is nearer, and when
  none is found every planned slot is further away than that.\<close>

theorem nearest_slot_found:
  "case nearestSlot occs moment of
     None \<Rightarrow> (\<forall>occ\<in>set occs. planned occ \<longrightarrow> 30 * 60 < slot_gap occ moment)
   | Some i \<Rightarrow> i < length occs \<and> planned (occs ! i) \<and> slot_gap (occs ! i) moment \<le> 30 * 60 \<and>
       (\<forall>occ\<in>set occs. planned occ \<longrightarrow> slot_gap (occs ! i) moment \<le> slot_gap occ moment)"
  using nearest_slot [of occs moment] unfolding RUN_MATCH_SECS_def .

section \<open>Examples\<close>

definition hourly :: interval_schedule where
  "hourly = \<lparr>is_everySecs = 3600, is_everyMaxSecs = None, is_fromMinutes = None, is_untilMinutes = None, is_days = None\<rparr>"

definition office_hours :: interval_schedule where
  "office_hours = \<lparr>is_everySecs = 3600, is_everyMaxSecs = None, is_fromMinutes = Some 540, is_untilMinutes = Some 660,
     is_days = Some [''thu'']\<rparr>"

definition mornings :: calendar_schedule where
  "mornings = \<lparr>ca_atMinutes = 540, ca_alsoAtMinutes = Some [600], ca_days = [], ca_untilMinutes = None, ca_times = None,
     ca_pickDays = None, ca_rule = \<lparr>dr_monthDays = None, dr_lastDay = None, dr_shortMonths = None, dr_nth = None, dr_nthOf = None, dr_onDates = None\<rparr>\<rparr>"

definition hourly_job :: job_info where
  "hourly_job = \<lparr>jb_enabled = True, jb_schedule = Some (Interval hourly), jb_lastRunAt = Some 3605, jb_lastResult = Some ''ok'',
     jb_nextFireAt = Some 7200, jb_running = None, jb_runningSince = None\<rparr>"


theorem occurrences_account_witness:
  "\<exists>occs. jobOccurrences utc hourly_job 0 14400 5000 ''job'' = Some (occs, False) \<and> runs_shown Ran occs = [(3605, Some ''ok'')]"
proof -
  have "case expandSchedule utc (jb_schedule hourly_job) 0 14400 (jb_nextFireAt hourly_job) (jb_lastRunAt hourly_job) of
      None \<Rightarrow> False | Some (slots, truncated) \<Rightarrow> \<not> truncated" by code_simp
  then obtain slots where
    "expandSchedule utc (jb_schedule hourly_job) 0 14400 (jb_nextFireAt hourly_job) (jb_lastRunAt hourly_job) = Some (slots, False)"
    by (auto split: option.splits)
  from occurrences_account [OF this, of 5000 "''job''"] show ?thesis by (auto simp: hourly_job_def)
qed

theorem nearest_slot_found_witness:
  "nearestSlot [\<lparr>oc_key = ''a'', oc_at = 0, oc_untilAt = None, oc_state = Ran, oc_approximate = False, oc_times = 1, oc_result = None\<rparr>,
      \<lparr>oc_key = ''b'', oc_at = 3600, oc_untilAt = None, oc_state = Due, oc_approximate = False, oc_times = 1, oc_result = None\<rparr>] 60 = None"
  (is "nearestSlot ?occs 60 = None")
proof -
  have "\<not> slot_gap (?occs ! 1) 60 \<le> 30 * 60" "\<not> planned (?occs ! 0)" by code_simp+
  moreover have "i = 0 \<or> i = 1" if "i < length ?occs" for i using that by auto
  ultimately show ?thesis using nearest_slot_found [of ?occs 60]
    by (cases "nearestSlot ?occs 60") force+
qed

end
