(* ===== verification/GitGraph.thy ===== *)
theory GitGraph
  imports JsPrelude
begin

text \<open>
  The lanes of the commit graph (\<open>gitGraph.ts\<close>): one row for each commit, children first, with the
  lines that enter it from above and leave it below. A lane waits for one commit. The colours, which
  are names of style variables, are left out.

  The lemmas follow one lane down the rows: a lane that waits for a commit stays where it is, with
  its branch, until that commit's row, where all lanes waiting for it end.
\<close>

section \<open>Types\<close>

record graph_commit =
  gc_hash :: string
  gc_parentHashes :: "string list"
  gc_subject :: string

record graph_line =
  gl_from :: nat
  gl_to :: nat
  gl_branch :: nat

record graph_row =
  gr_col :: nat
  gr_branch :: nat
  gr_merge :: bool
  gr_top :: "graph_line list"
  gr_bottom :: "graph_line list"
  gr_label :: "string option"

record lane =
  ln_hash :: string
  ln_branch :: nat

record graph_state =
  gs_lanes :: "lane option list"
  gs_names :: "(nat \<times> string) list"
  gs_labelled :: "nat list"
  gs_rows :: "graph_row list"
  gs_nextBranch :: nat
  gs_width :: nat

section \<open>The name of a merged branch\<close>

text \<open>The two expressions of \<open>MERGE_SUBJECTS\<close>, each as a reader of the subject. An owner before a
  slash is left out of the name, unless nothing follows the slash.\<close>

definition merge_branch_subject :: "string \<Rightarrow> string option" where
  "merge_branch_subject s =
     (if \<not> starts_with s ''Merge '' then None
      else let s1 = drop 6 s; s2 = (if starts_with s1 ''remote-tracking '' then drop 16 s1 else s1)
           in if \<not> starts_with s2 ''branch '' then None
              else let q = drop 7 s2
                   in if take 1 q \<noteq> [CHR 0x27] then None
                      else let name = takeWhile (\<lambda>ch. ch \<noteq> CHR 0x27) (drop 1 q)
                           in if name = [] \<or> length name + 1 = length q then None else Some name)"

definition pull_request_subject :: "string \<Rightarrow> string option" where
  "pull_request_subject s =
     (if \<not> starts_with s ''Merge pull request #'' then None
      else let s1 = drop 20 s; s2 = dropWhile is_digit s1
           in if s2 = s1 \<or> \<not> starts_with s2 '' from '' then None
              else let src = drop 6 s2; owner = takeWhile (\<lambda>ch. ch \<noteq> CHR ''/'' \<and> \<not> is_space ch) src;
                       rest = drop (length owner) src;
                       after = takeWhile (\<lambda>ch. \<not> is_space ch) (drop 1 rest);
                       whole = takeWhile (\<lambda>ch. \<not> is_space ch) src
                   in if owner \<noteq> [] \<and> take 1 rest = ''/'' \<and> after \<noteq> [] then Some after
                      else if whole \<noteq> [] then Some whole else None)"

definition mergedBranchName :: "string \<Rightarrow> string option" where
  "mergedBranchName subject = or_else (merge_branch_subject subject) (pull_request_subject subject)"

section \<open>Rows\<close>

definition waits :: "string \<Rightarrow> lane option \<Rightarrow> bool" where
  "waits h lane = (case lane of Some l \<Rightarrow> ln_hash l = h | None \<Rightarrow> False)"

definition freeLane :: "lane option list \<Rightarrow> nat" where
  "freeLane lanes = (let i = indexOf None lanes in if i = -1 then length lanes else nat i)"

definition top_lines :: "string \<Rightarrow> nat \<Rightarrow> lane option list \<Rightarrow> graph_line list" where
  "top_lines h col lanes = List.map_filter (\<lambda>(i, lane). case lane of None \<Rightarrow> None
     | Some l \<Rightarrow> Some \<lparr>gl_from = i, gl_to = (if ln_hash l = h then col else i), gl_branch = ln_branch l\<rparr>) (enumerate 0 lanes)"

text \<open>\<open>lanes[i] = value\<close>, which extends an array written at its end.\<close>

definition set_lane :: "nat \<Rightarrow> lane option \<Rightarrow> lane option list \<Rightarrow> lane option list" where
  "set_lane i v lanes = (if i < length lanes then lanes[i := v] else lanes @ [v])"

definition clear_lanes :: "string \<Rightarrow> lane option list \<Rightarrow> lane option list" where
  "clear_lanes h lanes = map (\<lambda>lane. if waits h lane then None else lane) lanes"

record merge_state =
  ms_lanes :: "lane option list"
  ms_names :: "(nat \<times> string) list"
  ms_nextBranch :: nat
  ms_bottom :: "graph_line list"
  ms_drawn :: "nat list"

definition merge_parent :: "nat \<Rightarrow> string \<Rightarrow> merge_state \<Rightarrow> string \<Rightarrow> merge_state" where
  "merge_parent col subject m parent =
     (let waiting = findIndex (waits parent) (ms_lanes m)
      in if waiting \<noteq> -1
         then m\<lparr>ms_bottom := ms_bottom m @ [\<lparr>gl_from = col, gl_to = nat waiting,
             gl_branch = ln_branch (the (ms_lanes m ! nat waiting))\<rparr>]\<rparr>
         else let lane = freeLane (ms_lanes m); merged = ms_nextBranch m
              in \<lparr>ms_lanes = set_lane lane (Some \<lparr>ln_hash = parent, ln_branch = merged\<rparr>) (ms_lanes m),
                  ms_names = (case mergedBranchName subject of None \<Rightarrow> ms_names m
                    | Some name \<Rightarrow> if name = [] then ms_names m else AList.update merged name (ms_names m)),
                  ms_nextBranch = merged + 1,
                  ms_bottom = ms_bottom m @ [\<lparr>gl_from = col, gl_to = lane, gl_branch = merged\<rparr>],
                  ms_drawn = set_add lane (ms_drawn m)\<rparr>)"

definition straight_lines :: "nat list \<Rightarrow> lane option list \<Rightarrow> graph_line list" where
  "straight_lines drawn lanes = List.map_filter (\<lambda>(i, lane). case lane of None \<Rightarrow> None
     | Some l \<Rightarrow> if i \<in> set drawn then None else Some \<lparr>gl_from = i, gl_to = i, gl_branch = ln_branch l\<rparr>) (enumerate 0 lanes)"

definition pop_lanes :: "lane option list \<Rightarrow> lane option list" where
  "pop_lanes lanes = rev (dropWhile (\<lambda>lane. lane = None) (rev lanes))"

definition commit_row :: "graph_state \<Rightarrow> graph_commit \<Rightarrow> graph_state" where
  "commit_row g commit =
     (let found = findIndex (waits (gc_hash commit)) (gs_lanes g);
          top = top_lines (gc_hash commit) (nat found) (gs_lanes g);
          col = (if found = -1 then freeLane (gs_lanes g) else nat found);
          branch = (if found = -1 then gs_nextBranch g else ln_branch (the (gs_lanes g ! nat found)));
          next = (if found = -1 then gs_nextBranch g + 1 else gs_nextBranch g);
          first = (case gc_parentHashes commit of [] \<Rightarrow> None | h # _ \<Rightarrow> keep_truthy (Some h));
          lanes = set_lane col (map_option (\<lambda>h. \<lparr>ln_hash = h, ln_branch = branch\<rparr>) first) (clear_lanes (gc_hash commit) (gs_lanes g));
          m = foldl (merge_parent col (gc_subject commit))
            \<lparr>ms_lanes = lanes, ms_names = gs_names g, ms_nextBranch = next, ms_bottom = [], ms_drawn = []\<rparr>
            (tl (gc_parentHashes commit));
          bottom = ms_bottom m @ straight_lines (ms_drawn m) (ms_lanes m);
          label = (case map_of (ms_names m) branch of None \<Rightarrow> None
            | Some name \<Rightarrow> if name \<noteq> [] \<and> branch \<notin> set (gs_labelled g) then Some name else None);
          used = col # map gl_from top @ map gl_to bottom
      in \<lparr>gs_lanes = pop_lanes (ms_lanes m), gs_names = ms_names m,
          gs_labelled = (if label \<noteq> None then set_add branch (gs_labelled g) else gs_labelled g),
          gs_rows = gs_rows g @ [\<lparr>gr_col = col, gr_branch = branch, gr_merge = (1 < length (gc_parentHashes commit)),
            gr_top = top, gr_bottom = bottom, gr_label = label\<rparr>],
          gs_nextBranch = ms_nextBranch m,
          gs_width = max (gs_width g) (fold max used 0 + 1)\<rparr>)"

definition empty_graph :: graph_state where
  "empty_graph = \<lparr>gs_lanes = [], gs_names = [], gs_labelled = [], gs_rows = [], gs_nextBranch = 0, gs_width = 0\<rparr>"

definition graph_of :: "graph_commit list \<Rightarrow> graph_state" where
  "graph_of commits = foldl commit_row empty_graph commits"

definition buildGraph :: "graph_commit list \<Rightarrow> graph_row list \<times> nat" where
  "buildGraph commits = (gs_rows (graph_of commits), gs_width (graph_of commits))"

section \<open>Reading lanes\<close>

definition lane_at :: "lane option list \<Rightarrow> nat \<Rightarrow> lane option" where
  "lane_at lanes i = (if i < length lanes then lanes ! i else None)"

lemma lane_at_set [simp]:
  "i \<le> length lanes \<Longrightarrow> lane_at (set_lane i v lanes) j = (if j = i then v else lane_at lanes j)"
  by (auto simp: lane_at_def set_lane_def nth_append nth_list_update)

lemma lane_at_clear [simp]:
  "lane_at (clear_lanes h lanes) j = (if waits h (lane_at lanes j) then None else lane_at lanes j)"
  by (simp add: lane_at_def clear_lanes_def waits_def)

lemma length_clear [simp]: "length (clear_lanes h lanes) = length lanes"
  by (simp add: clear_lanes_def)

lemma lane_at_snoc_None: "lane_at (lanes @ [None]) = lane_at lanes"
  by (rule ext) (auto simp: lane_at_def nth_append)

lemma lane_at_pop [simp]: "lane_at (pop_lanes lanes) = lane_at lanes"
proof (induction lanes rule: rev_induct)
  case (snoc x xs)
  then show ?case by (cases x) (simp_all add: pop_lanes_def lane_at_snoc_None)
qed (simp add: pop_lanes_def)

lemma freeLane_free [simp]: "lane_at lanes (freeLane lanes) = None" "freeLane lanes \<le> length lanes"
proof -
  have "freeLane lanes \<le> length lanes \<and> lane_at lanes (freeLane lanes) = None"
  proof (cases "None \<in> set lanes")
    case True
    then have i: "0 \<le> indexOf None lanes" "indexOf None lanes < int (length lanes)"
      by (simp_all add: indexOf_nonneg indexOf_less)
    then show ?thesis using indexOf_nth [OF True] by (auto simp: freeLane_def lane_at_def Let_def)
  next
    case False
    then have "indexOf None lanes = -1" unfolding indexOf_def findIndex_minus_one by metis
    then show ?thesis by (simp add: freeLane_def lane_at_def)
  qed
  then show "lane_at lanes (freeLane lanes) = None" "freeLane lanes \<le> length lanes" by simp_all
qed

lemma waits_iff: "waits h x \<longleftrightarrow> (\<exists>l. x = Some l \<and> ln_hash l = h)"
  by (auto simp: waits_def split: option.splits)

text \<open>The lane found for a hash, when there is one.\<close>

lemma waiting_lane:
  "case findIndex (waits h) lanes = -1 of
     True \<Rightarrow> \<forall>i. \<not> waits h (lane_at lanes i)
   | False \<Rightarrow> (\<exists>l. lane_at lanes (nat (findIndex (waits h) lanes)) = Some l \<and> ln_hash l = h) \<and>
       nat (findIndex (waits h) lanes) < length lanes"
proof (cases "findIndex (waits h) lanes = -1")
  case True
  then have "\<forall>x\<in>set lanes. \<not> waits h x" by (simp add: findIndex_minus_one)
  moreover have "\<not> waits h None" by (simp add: waits_def)
  ultimately show ?thesis using True by (simp add: lane_at_def)
next
  case False
  then have n: "0 \<le> findIndex (waits h) lanes" using findIndex_bounds [of "waits h" lanes] by linarith
  have lt: "nat (findIndex (waits h) lanes) < length lanes" using findIndex_bounds [of "waits h" lanes] n by simp
  have "waits h (lanes ! nat (findIndex (waits h) lanes))" by (rule findIndex_nth [OF n, THEN conjunct2])
  then show ?thesis using False lt by (simp add: lane_at_def waits_iff)
qed

lemma enumerate_lane: "(i, Some l) \<in> set (enumerate 0 lanes) \<longleftrightarrow> lane_at lanes i = Some l"
  by (auto simp: in_set_enumerate_eq lane_at_def)

lemma lanes_filter_iff:
  "y \<in> set (List.map_filter (\<lambda>(i, lane). case lane of None \<Rightarrow> None | Some l \<Rightarrow> F i l) (enumerate 0 lanes)) \<longleftrightarrow>
     (\<exists>i l. lane_at lanes i = Some l \<and> F i l = Some y)"
proof
  assume "\<exists>i l. lane_at lanes i = Some l \<and> F i l = Some y"
  then obtain i l where "(i, Some l) \<in> set (enumerate 0 lanes)" "F i l = Some y" unfolding enumerate_lane by blast
  then show "y \<in> set (List.map_filter (\<lambda>(i, lane). case lane of None \<Rightarrow> None | Some l \<Rightarrow> F i l) (enumerate 0 lanes))"
    unfolding in_map_filter by (intro bexI [of _ "(i, Some l)"]) simp_all
next
  assume "y \<in> set (List.map_filter (\<lambda>(i, lane). case lane of None \<Rightarrow> None | Some l \<Rightarrow> F i l) (enumerate 0 lanes))"
  then obtain i l where "(i, Some l) \<in> set (enumerate 0 lanes)" "F i l = Some y"
    unfolding in_map_filter by (auto split: option.splits)
  then show "\<exists>i l. lane_at lanes i = Some l \<and> F i l = Some y" unfolding enumerate_lane by blast
qed

lemma top_lines_iff:
  "x \<in> set (top_lines h col lanes) \<longleftrightarrow> (\<exists>i l. lane_at lanes i = Some l \<and>
     x = \<lparr>gl_from = i, gl_to = (if ln_hash l = h then col else i), gl_branch = ln_branch l\<rparr>)"
  unfolding top_lines_def lanes_filter_iff by (simp add: eq_commute [of x])

lemma straight_lines_iff:
  "x \<in> set (straight_lines drawn lanes) \<longleftrightarrow> (\<exists>i l. lane_at lanes i = Some l \<and> i \<notin> set drawn \<and>
     x = \<lparr>gl_from = i, gl_to = i, gl_branch = ln_branch l\<rparr>)"
  unfolding straight_lines_def lanes_filter_iff by (auto split: if_splits)

section \<open>The parents of a merge\<close>

text \<open>What holds while the further parents of a commit are drawn: no lane is disturbed, every line
  goes from the commit's column to a lane with the line's branch, the lanes taken were free, and
  every parent seen so far has a line to a lane waiting for it.\<close>

definition parents_drawn :: "nat \<Rightarrow> lane option list \<Rightarrow> string set \<Rightarrow> merge_state \<Rightarrow> bool" where
  "parents_drawn col lanes seen m \<longleftrightarrow>
     (\<forall>i l. lane_at lanes i = Some l \<longrightarrow> lane_at (ms_lanes m) i = Some l) \<and>
     (\<forall>i l. lane_at (ms_lanes m) i = Some l \<longrightarrow> lane_at lanes i = Some l \<or> i \<in> set (ms_drawn m)) \<and>
     (\<forall>i\<in>set (ms_drawn m). lane_at lanes i = None \<and> (\<exists>x\<in>set (ms_bottom m). gl_to x = i)) \<and>
     (\<forall>x\<in>set (ms_bottom m). gl_from x = col \<and> (\<exists>l. lane_at (ms_lanes m) (gl_to x) = Some l \<and> gl_branch x = ln_branch l)) \<and>
     (\<forall>p\<in>seen. \<exists>x\<in>set (ms_bottom m). \<exists>l. lane_at (ms_lanes m) (gl_to x) = Some l \<and> ln_hash l = p)"

lemma merge_parent_drawn:
  assumes "parents_drawn col lanes seen m"
  shows "parents_drawn col lanes (insert p seen) (merge_parent col subject m p)"
proof (cases "findIndex (waits p) (ms_lanes m) = -1")
  case True
  define free where "free = freeLane (ms_lanes m)"
  have free: "lane_at (ms_lanes m) free = None" "free \<le> length (ms_lanes m)" by (simp_all add: free_def)
  have step: "ms_lanes (merge_parent col subject m p) = set_lane free (Some \<lparr>ln_hash = p, ln_branch = ms_nextBranch m\<rparr>) (ms_lanes m)"
    "ms_bottom (merge_parent col subject m p) = ms_bottom m @ [\<lparr>gl_from = col, gl_to = free, gl_branch = ms_nextBranch m\<rparr>]"
    "set (ms_drawn (merge_parent col subject m p)) = insert free (set (ms_drawn m))"
    using True by (simp_all add: merge_parent_def Let_def free_def)
  have "lane_at lanes free = None"
    using assms free(1) unfolding parents_drawn_def by (metis not_Some_eq)
  moreover have "gl_to x \<noteq> free" if "x \<in> set (ms_bottom m)" for x
    using assms that free(1) unfolding parents_drawn_def by fastforce
  ultimately show ?thesis
    using assms free unfolding parents_drawn_def step
    by (simp add: ball_Un)
next
  case False
  define waiting where "waiting = nat (findIndex (waits p) (ms_lanes m))"
  obtain l where l: "lane_at (ms_lanes m) waiting = Some l" "ln_hash l = p" "ms_lanes m ! waiting = Some l"
    using waiting_lane [of p "ms_lanes m"] False by (auto simp: waiting_def lane_at_def)
  have "merge_parent col subject m p = m\<lparr>ms_bottom := ms_bottom m @ [\<lparr>gl_from = col, gl_to = waiting, gl_branch = ln_branch l\<rparr>]\<rparr>"
    using False l(3) by (simp add: merge_parent_def Let_def waiting_def)
  then show ?thesis using assms l unfolding parents_drawn_def by auto
qed

lemma merge_parents_drawn:
  "parents_drawn col lanes seen m \<Longrightarrow>
   parents_drawn col lanes (seen \<union> set ps) (foldl (merge_parent col subject) m ps)"
proof (induction ps arbitrary: seen m)
  case (Cons p ps)
  from Cons.IH [OF merge_parent_drawn [OF Cons.prems]] show ?case by simp
qed simp

section \<open>One row\<close>

definition row_of :: "graph_state \<Rightarrow> graph_commit \<Rightarrow> graph_row" where
  "row_of g commit = last (gs_rows (commit_row g commit))"

definition row_col :: "graph_state \<Rightarrow> string \<Rightarrow> nat" where
  "row_col g h = (if findIndex (waits h) (gs_lanes g) = -1 then freeLane (gs_lanes g)
     else nat (findIndex (waits h) (gs_lanes g)))"

definition open_lanes :: "graph_state \<Rightarrow> nat \<Rightarrow> lane option" where
  "open_lanes g = lane_at (gs_lanes g)"

lemma row_appended: "gs_rows (commit_row g commit) = gs_rows g @ [row_of g commit]"
  by (simp add: row_of_def commit_row_def Let_def)

lemma map_filter_eq: "(\<And>x. x \<in> set xs \<Longrightarrow> f x = g x) \<Longrightarrow> List.map_filter f xs = List.map_filter g xs"
  by (induction xs) (auto simp: List.map_filter_simps split: option.split)

text \<open>The parts of a row: \<open>lanes\<close> after the first parent has taken over the commit's lane, and the
  state the further parents leave.\<close>

lemma row_parts:
  obtains branch lanes m where
    "gr_col (row_of g commit) = row_col g (gc_hash commit)"
    "\<forall>j. lane_at lanes j = (if j = row_col g (gc_hash commit)
       then (case gc_parentHashes commit of [] \<Rightarrow> None | h # _ \<Rightarrow> map_option (\<lambda>h. \<lparr>ln_hash = h, ln_branch = branch\<rparr>) (keep_truthy (Some h)))
       else if waits (gc_hash commit) (open_lanes g j) then None else open_lanes g j)"
    "parents_drawn (row_col g (gc_hash commit)) lanes (set (tl (gc_parentHashes commit))) m"
    "gr_top (row_of g commit) = top_lines (gc_hash commit) (row_col g (gc_hash commit)) (gs_lanes g)"
    "gr_bottom (row_of g commit) = ms_bottom m @ straight_lines (ms_drawn m) (ms_lanes m)"
    "open_lanes (commit_row g commit) = lane_at (ms_lanes m)"
proof -
  let ?h = "gc_hash commit" and ?col = "row_col g (gc_hash commit)"
  define branch where "branch = (if findIndex (waits ?h) (gs_lanes g) = -1 then gs_nextBranch g
    else ln_branch (the (gs_lanes g ! nat (findIndex (waits ?h) (gs_lanes g)))))"
  define next_b where "next_b = (if findIndex (waits ?h) (gs_lanes g) = -1 then gs_nextBranch g + 1 else gs_nextBranch g)"
  define taken where "taken = (case gc_parentHashes commit of [] \<Rightarrow> None
    | h # _ \<Rightarrow> map_option (\<lambda>h. \<lparr>ln_hash = h, ln_branch = branch\<rparr>) (keep_truthy (Some h)))"
  define lanes where "lanes = set_lane ?col taken (clear_lanes ?h (gs_lanes g))"
  define m0 where "m0 = \<lparr>ms_lanes = lanes, ms_names = gs_names g, ms_nextBranch = next_b, ms_bottom = [], ms_drawn = []\<rparr>"
  define m where "m = foldl (merge_parent ?col (gc_subject commit)) m0 (tl (gc_parentHashes commit))"
  have taken': "map_option (\<lambda>h. \<lparr>ln_hash = h, ln_branch = branch\<rparr>)
      (case gc_parentHashes commit of [] \<Rightarrow> None | h # _ \<Rightarrow> keep_truthy (Some h)) = taken"
    by (simp add: taken_def split: list.splits)
  have "findIndex (waits ?h) (gs_lanes g) = -1 \<or> nat (findIndex (waits ?h) (gs_lanes g)) < length (gs_lanes g)"
    using waiting_lane [of ?h "gs_lanes g"] by (auto split: bool.splits)
  then have col: "?col \<le> length (gs_lanes g)" by (auto simp: row_col_def)
  have top: "top_lines ?h (nat (findIndex (waits ?h) (gs_lanes g))) (gs_lanes g) = top_lines ?h ?col (gs_lanes g)"
  proof (cases "findIndex (waits ?h) (gs_lanes g) = -1")
    case True
    then have "ln_hash l \<noteq> ?h" if "(i, Some l) \<in> set (enumerate 0 (gs_lanes g))" for i l
      using waiting_lane [of ?h "gs_lanes g"] that unfolding enumerate_lane waits_iff by auto
    then show ?thesis unfolding top_lines_def by (intro map_filter_eq) (auto split: option.splits)
  qed (simp add: row_col_def)
  note fold = branch_def [symmetric] next_b_def [symmetric] row_col_def [symmetric] taken' lanes_def [symmetric]
    m0_def [symmetric] m_def [symmetric]
  have row: "row_of g commit = \<lparr>gr_col = ?col, gr_branch = branch, gr_merge = (1 < length (gc_parentHashes commit)),
      gr_top = top_lines ?h ?col (gs_lanes g), gr_bottom = ms_bottom m @ straight_lines (ms_drawn m) (ms_lanes m),
      gr_label = gr_label (row_of g commit)\<rparr>"
    unfolding row_of_def commit_row_def Let_def top fold by simp
  have "parents_drawn ?col lanes {} m0" by (simp add: parents_drawn_def m0_def)
  then have drawn: "parents_drawn ?col lanes (set (tl (gc_parentHashes commit))) m"
    unfolding m_def using merge_parents_drawn by fastforce
  have lanes: "open_lanes (commit_row g commit) = lane_at (ms_lanes m)"
    unfolding open_lanes_def commit_row_def Let_def fold by simp
  show thesis
    by (rule that [OF _ _ drawn _ _ lanes])
      (simp_all add: row [THEN arg_cong [of _ _ gr_col]] row [THEN arg_cong [of _ _ gr_top]]
        row [THEN arg_cong [of _ _ gr_bottom]] lanes_def col open_lanes_def taken_def)
qed

lemma row_top_iff:
  "x \<in> set (gr_top (row_of g commit)) \<longleftrightarrow> (\<exists>i l. open_lanes g i = Some l \<and> x = \<lparr>gl_from = i,
     gl_to = (if ln_hash l = gc_hash commit then gr_col (row_of g commit) else i), gl_branch = ln_branch l\<rparr>)"
  by (rule row_parts [of g commit]) (simp add: top_lines_iff open_lanes_def)

lemma row_top_lanes:
  "(\<lambda>x. (gl_from x, gl_branch x)) ` set (gr_top (row_of g commit)) = {(i, ln_branch l) | i l. open_lanes g i = Some l}"
proof (intro set_eqI iffI)
  fix y assume "y \<in> {(i, ln_branch l) | i l. open_lanes g i = Some l}"
  then obtain i l where il: "open_lanes g i = Some l" "y = (i, ln_branch l)" by blast
  let ?x = "\<lparr>gl_from = i, gl_to = (if ln_hash l = gc_hash commit then gr_col (row_of g commit) else i), gl_branch = ln_branch l\<rparr>"
  have "?x \<in> set (gr_top (row_of g commit))" unfolding row_top_iff using il(1) by blast
  then show "y \<in> (\<lambda>x. (gl_from x, gl_branch x)) ` set (gr_top (row_of g commit))"
    using il(2) by (intro image_eqI [of _ _ ?x]) simp_all
qed (auto simp: row_top_iff)

text \<open>The lower half of a row ends at the open lanes, each with its branch.\<close>

lemma row_bottom_lane:
  assumes "x \<in> set (gr_bottom (row_of g commit))"
  shows "\<exists>l. open_lanes (commit_row g commit) (gl_to x) = Some l \<and> gl_branch x = ln_branch l \<and>
    (gl_from x = gl_to x \<or> gl_from x = gr_col (row_of g commit))"
proof (rule row_parts [of g commit])
  fix branch lanes m
  assume r: "gr_col (row_of g commit) = row_col g (gc_hash commit)"
    "parents_drawn (row_col g (gc_hash commit)) lanes (set (tl (gc_parentHashes commit))) m"
    "gr_bottom (row_of g commit) = ms_bottom m @ straight_lines (ms_drawn m) (ms_lanes m)"
    "open_lanes (commit_row g commit) = lane_at (ms_lanes m)"
  have "x \<in> set (ms_bottom m) \<or> x \<in> set (straight_lines (ms_drawn m) (ms_lanes m))" using assms r(3) by simp
  then show ?thesis using r(2) unfolding r(1,4) parents_drawn_def straight_lines_iff by auto
qed

lemma row_lane_bottom:
  assumes "open_lanes (commit_row g commit) i = Some l"
  shows "\<exists>x\<in>set (gr_bottom (row_of g commit)). gl_to x = i \<and> gl_branch x = ln_branch l"
proof (rule row_parts [of g commit])
  fix branch lanes m
  assume r: "parents_drawn (row_col g (gc_hash commit)) lanes (set (tl (gc_parentHashes commit))) m"
    "gr_bottom (row_of g commit) = ms_bottom m @ straight_lines (ms_drawn m) (ms_lanes m)"
    "open_lanes (commit_row g commit) = lane_at (ms_lanes m)"
  show ?thesis
  proof (cases "i \<in> set (ms_drawn m)")
    case True
    then obtain x where x: "x \<in> set (ms_bottom m)" "gl_to x = i" using r(1) unfolding parents_drawn_def by blast
    then have "\<exists>l. lane_at (ms_lanes m) i = Some l \<and> gl_branch x = ln_branch l"
      using r(1) unfolding parents_drawn_def by blast
    then have "gl_branch x = ln_branch l" using assms r(3) by simp
    with x show ?thesis unfolding r(2) by auto
  next
    case False
    then have "\<lparr>gl_from = i, gl_to = i, gl_branch = ln_branch l\<rparr> \<in> set (gr_bottom (row_of g commit))"
      using assms unfolding r(2,3) by (simp add: straight_lines_iff)
    then show ?thesis by force
  qed
qed

text \<open>A lane that waits for another commit goes straight through the row.\<close>

lemma row_lane_kept:
  assumes "open_lanes g i = Some l" and "ln_hash l \<noteq> gc_hash commit"
  shows "open_lanes (commit_row g commit) i = Some l \<and>
    \<lparr>gl_from = i, gl_to = i, gl_branch = ln_branch l\<rparr> \<in> set (gr_top (row_of g commit)) \<and>
    \<lparr>gl_from = i, gl_to = i, gl_branch = ln_branch l\<rparr> \<in> set (gr_bottom (row_of g commit))"
proof (rule row_parts [of g commit])
  fix branch lanes m
  assume r: "\<forall>j. lane_at lanes j = (if j = row_col g (gc_hash commit)
       then (case gc_parentHashes commit of [] \<Rightarrow> None | h # _ \<Rightarrow> map_option (\<lambda>h. \<lparr>ln_hash = h, ln_branch = branch\<rparr>) (keep_truthy (Some h)))
       else if waits (gc_hash commit) (open_lanes g j) then None else open_lanes g j)"
    "parents_drawn (row_col g (gc_hash commit)) lanes (set (tl (gc_parentHashes commit))) m"
    "gr_bottom (row_of g commit) = ms_bottom m @ straight_lines (ms_drawn m) (ms_lanes m)"
    "open_lanes (commit_row g commit) = lane_at (ms_lanes m)"
  have "i \<noteq> row_col g (gc_hash commit)"
    using assms waiting_lane [of "gc_hash commit" "gs_lanes g"]
    by (auto simp: row_col_def open_lanes_def split: if_splits)
  then have l: "lane_at lanes i = Some l" using r(1) assms by (simp add: waits_def)
  then have "lane_at (ms_lanes m) i = Some l" "i \<notin> set (ms_drawn m)"
    using r(2) unfolding parents_drawn_def by auto
  then show ?thesis using assms unfolding r(3,4) by (auto simp: straight_lines_iff row_top_iff)
qed

text \<open>Every parent of the commit has a line from the commit to a lane that waits for it.\<close>

lemma row_parent_line:
  assumes "p \<in> set (gc_parentHashes commit)" and "p \<noteq> []"
  shows "\<exists>i l. open_lanes (commit_row g commit) i = Some l \<and> ln_hash l = p \<and>
    \<lparr>gl_from = gr_col (row_of g commit), gl_to = i, gl_branch = ln_branch l\<rparr> \<in> set (gr_bottom (row_of g commit))"
proof (rule row_parts [of g commit])
  fix branch lanes m
  let ?col = "row_col g (gc_hash commit)"
  assume r: "\<forall>j. lane_at lanes j = (if j = ?col
       then (case gc_parentHashes commit of [] \<Rightarrow> None | h # _ \<Rightarrow> map_option (\<lambda>h. \<lparr>ln_hash = h, ln_branch = branch\<rparr>) (keep_truthy (Some h)))
       else if waits (gc_hash commit) (open_lanes g j) then None else open_lanes g j)"
    "parents_drawn ?col lanes (set (tl (gc_parentHashes commit))) m"
    "gr_bottom (row_of g commit) = ms_bottom m @ straight_lines (ms_drawn m) (ms_lanes m)"
    "open_lanes (commit_row g commit) = lane_at (ms_lanes m)" "gr_col (row_of g commit) = ?col"
  obtain p0 ps where ps: "gc_parentHashes commit = p0 # ps" using assms(1) by (cases "gc_parentHashes commit") auto
  show ?thesis
  proof (cases "p \<in> set ps")
    case True
    then obtain x l where x: "x \<in> set (ms_bottom m)" "lane_at (ms_lanes m) (gl_to x) = Some l" "ln_hash l = p"
      using r(2) unfolding parents_drawn_def ps by auto
    moreover from x have "gl_from x = ?col" "gl_branch x = ln_branch l"
      using r(2) unfolding parents_drawn_def by auto
    then have "x = \<lparr>gl_from = ?col, gl_to = gl_to x, gl_branch = ln_branch l\<rparr>" by simp
    ultimately show ?thesis unfolding r(3,4,5) by (metis Un_iff set_append)
  next
    case False
    then have "p = p0" using assms(1) ps by simp
    then have l: "lane_at lanes ?col = Some \<lparr>ln_hash = p, ln_branch = branch\<rparr>"
      using r(1) assms(2) ps by (cases p) (simp_all add: keep_truthy_def)
    then have "lane_at (ms_lanes m) ?col = Some \<lparr>ln_hash = p, ln_branch = branch\<rparr>" "?col \<notin> set (ms_drawn m)"
      using r(2) unfolding parents_drawn_def by auto
    then show ?thesis unfolding r(3,4,5)
      by (intro exI [of _ ?col] exI [of _ "\<lparr>ln_hash = p, ln_branch = branch\<rparr>"]) (simp add: straight_lines_iff)
  qed
qed

section \<open>The whole graph\<close>

lemma graph_of_snoc: "graph_of (cs @ [commit]) = commit_row (graph_of cs) commit"
  by (simp add: graph_of_def)

lemma graph_of_take: "k < length cs \<Longrightarrow> graph_of (take (Suc k) cs) = commit_row (graph_of (take k cs)) (cs ! k)"
  by (simp add: take_Suc_conv_app_nth graph_of_snoc)

lemma graph_rows: "gs_rows (graph_of cs) = map (\<lambda>k. row_of (graph_of (take k cs)) (cs ! k)) [0..<length cs]"
proof (induction cs rule: rev_induct)
  case Nil
  then show ?case by (simp add: graph_of_def empty_graph_def)
next
  case (snoc commit cs)
  show ?case by (simp add: graph_of_snoc row_appended snoc nth_append)
qed

lemma rows_nth: "k < length cs \<Longrightarrow> fst (buildGraph cs) ! k = row_of (graph_of (take k cs)) (cs ! k)"
  by (simp add: buildGraph_def graph_rows)

lemma fold_max_ge: "a \<le> fold max xs a \<and> (\<forall>x\<in>set xs. x \<le> fold max xs a)" for a :: nat
proof (induction xs arbitrary: a)
  case (Cons x xs)
  from Cons [of "max x a"] show ?case by auto
qed simp

lemma row_width:
  shows "gs_width g \<le> gs_width (commit_row g commit)"
    and "gr_col (row_of g commit) < gs_width (commit_row g commit)"
    and "x \<in> set (gr_top (row_of g commit)) \<Longrightarrow> gl_from x < gs_width (commit_row g commit) \<and> gl_to x < gs_width (commit_row g commit)"
    and "x \<in> set (gr_bottom (row_of g commit)) \<Longrightarrow> gl_from x < gs_width (commit_row g commit) \<and> gl_to x < gs_width (commit_row g commit)"
proof -
  let ?r = "row_of g commit" and ?w = "gs_width (commit_row g commit)"
  define used where "used = gr_col ?r # map gl_from (gr_top ?r) @ map gl_to (gr_bottom ?r)"
  have w: "?w = max (gs_width g) (fold max used 0 + 1)"
    by (simp add: used_def row_of_def commit_row_def Let_def)
  show "gs_width g \<le> ?w" by (simp add: w)
  have u: "y < ?w" if "y \<in> set used" for y using fold_max_ge [of 0 used] that by (auto simp: w)
  show col: "gr_col ?r < ?w" by (rule u) (simp add: used_def)
  show "gl_from x < ?w \<and> gl_to x < ?w" if x: "x \<in> set (gr_top ?r)"
  proof -
    have "gl_from x < ?w" using x by (intro u) (simp add: used_def)
    moreover have "gl_to x = gl_from x \<or> gl_to x = gr_col ?r" using x unfolding row_top_iff by auto
    ultimately show ?thesis using col by auto
  qed
  show "gl_from x < ?w \<and> gl_to x < ?w" if x: "x \<in> set (gr_bottom ?r)"
  proof -
    have "gl_to x < ?w" using x by (intro u) (simp add: used_def)
    then show ?thesis using row_bottom_lane [OF x] col by auto
  qed
qed

lemma width_mono: "k \<le> length cs \<Longrightarrow> gs_width (graph_of (take k cs)) \<le> gs_width (graph_of cs)"
proof (induction cs rule: rev_induct)
  case (snoc commit cs)
  show ?case
  proof (cases "k \<le> length cs")
    case True
    then show ?thesis using snoc.IH row_width(1) [of "graph_of cs" commit] by (simp add: graph_of_snoc)
  qed (use snoc.prems in simp)
qed simp

text \<open>Property C14: every parent link is one unbroken line. From a commit to the row of its parent, a
  line of one branch leaves the commit, goes straight down its lane through every row between, and
  ends at the parent.\<close>

theorem graph_links_unbroken:
  assumes "i < j" and "j < length commits" and "gc_hash (commits ! j) = p"
    and "p \<in> set (gc_parentHashes (commits ! i))" and "p \<noteq> []"
    and "\<And>k. i < k \<Longrightarrow> k < j \<Longrightarrow> gc_hash (commits ! k) \<noteq> p"
  shows "\<exists>lane branch.
    \<lparr>gl_from = gr_col (fst (buildGraph commits) ! i), gl_to = lane, gl_branch = branch\<rparr> \<in> set (gr_bottom (fst (buildGraph commits) ! i)) \<and>
    (\<forall>k. i < k \<and> k < j \<longrightarrow> \<lparr>gl_from = lane, gl_to = lane, gl_branch = branch\<rparr> \<in>
      set (gr_top (fst (buildGraph commits) ! k)) \<inter> set (gr_bottom (fst (buildGraph commits) ! k))) \<and>
    \<lparr>gl_from = lane, gl_to = gr_col (fst (buildGraph commits) ! j), gl_branch = branch\<rparr> \<in> set (gr_top (fst (buildGraph commits) ! j))"
proof -
  define G where "G k = graph_of (take k commits)" for k
  have step: "G (Suc k) = commit_row (G k) (commits ! k)" if "k < length commits" for k
    using graph_of_take [OF that] by (simp add: G_def)
  have row: "fst (buildGraph commits) ! k = row_of (G k) (commits ! k)" if "k < length commits" for k
    using rows_nth [OF that] by (simp add: G_def)
  have i: "i < length commits" using assms(1,2) by simp
  obtain lane l where l: "open_lanes (G (Suc i)) lane = Some l" "ln_hash l = p"
    "\<lparr>gl_from = gr_col (row_of (G i) (commits ! i)), gl_to = lane, gl_branch = ln_branch l\<rparr> \<in> set (gr_bottom (row_of (G i) (commits ! i)))"
    using row_parent_line [OF assms(4,5), of "G i"] unfolding step [OF i] by blast
  have kept: "open_lanes (G (Suc i + n)) lane = Some l" if "Suc i + n \<le> j" for n
    using that
  proof (induction n)
    case (Suc n)
    have len: "Suc i + n < length commits" using Suc.prems assms(2) by simp
    have "ln_hash l \<noteq> gc_hash (commits ! (Suc i + n))" using Suc.prems assms(6) [of "Suc i + n"] l(2) by simp
    from row_lane_kept [OF Suc.IH this] Suc.prems step [OF len] show ?case by simp
  qed (simp add: l(1))
  have between: "\<lparr>gl_from = lane, gl_to = lane, gl_branch = ln_branch l\<rparr> \<in>
      set (gr_top (row_of (G k) (commits ! k))) \<inter> set (gr_bottom (row_of (G k) (commits ! k)))" if k: "i < k" "k < j" for k
  proof -
    have "open_lanes (G k) lane = Some l" using kept [of "k - Suc i"] k by simp
    moreover have "ln_hash l \<noteq> gc_hash (commits ! k)" using assms(6) [OF k] l(2) by simp
    ultimately show ?thesis using row_lane_kept by simp
  qed
  have "open_lanes (G j) lane = Some l" using kept [of "j - Suc i"] assms(1) by simp
  then have "\<lparr>gl_from = lane, gl_to = gr_col (row_of (G j) (commits ! j)), gl_branch = ln_branch l\<rparr> \<in> set (gr_top (row_of (G j) (commits ! j)))"
    using l(2) assms(3) unfolding row_top_iff by auto
  then show ?thesis
    using l(3) between assms(2) by (intro exI [of _ lane] exI [of _ "ln_branch l"]) (simp add: row i)
qed

text \<open>The graph continues down the page. There is one row for each commit; the rows of
  more commits begin with the rows of fewer; every column used is inside the width; and the lines
  that leave a row are exactly those that enter the next, lane by lane with their branches.\<close>

theorem graph_pages_continue:
  "length (fst (buildGraph commits)) = length commits \<and>
   take (length commits) (fst (buildGraph (commits @ older))) = fst (buildGraph commits) \<and>
   (\<forall>r\<in>set (fst (buildGraph commits)). gr_col r < snd (buildGraph commits) \<and>
     (\<forall>x\<in>set (gr_top r @ gr_bottom r). gl_from x < snd (buildGraph commits) \<and> gl_to x < snd (buildGraph commits))) \<and>
   (\<forall>k. Suc k < length commits \<longrightarrow>
     (\<lambda>x. (gl_to x, gl_branch x)) ` set (gr_bottom (fst (buildGraph commits) ! k)) =
     (\<lambda>x. (gl_from x, gl_branch x)) ` set (gr_top (fst (buildGraph commits) ! Suc k)))"
proof (intro conjI)
  show "length (fst (buildGraph commits)) = length commits" by (simp add: buildGraph_def graph_rows)
  show "take (length commits) (fst (buildGraph (commits @ older))) = fst (buildGraph commits)"
    by (rule nth_equalityI) (simp_all add: buildGraph_def graph_rows nth_append)
  show "\<forall>r\<in>set (fst (buildGraph commits)). gr_col r < snd (buildGraph commits) \<and>
     (\<forall>x\<in>set (gr_top r @ gr_bottom r). gl_from x < snd (buildGraph commits) \<and> gl_to x < snd (buildGraph commits))"
  proof
    fix r assume "r \<in> set (fst (buildGraph commits))"
    then obtain k where k: "k < length commits" "r = row_of (graph_of (take k commits)) (commits ! k)"
      by (auto simp: buildGraph_def graph_rows)
    have "gs_width (commit_row (graph_of (take k commits)) (commits ! k)) \<le> snd (buildGraph commits)"
      using width_mono [of "Suc k" commits] k(1) by (simp add: graph_of_take buildGraph_def)
    then show "gr_col r < snd (buildGraph commits) \<and>
      (\<forall>x\<in>set (gr_top r @ gr_bottom r). gl_from x < snd (buildGraph commits) \<and> gl_to x < snd (buildGraph commits))"
      unfolding k(2) using row_width by (metis (no_types, lifting) Un_iff le_trans not_less set_append)
  qed
  show "\<forall>k. Suc k < length commits \<longrightarrow>
     (\<lambda>x. (gl_to x, gl_branch x)) ` set (gr_bottom (fst (buildGraph commits) ! k)) =
     (\<lambda>x. (gl_from x, gl_branch x)) ` set (gr_top (fst (buildGraph commits) ! Suc k))"
  proof (intro allI impI)
    fix k assume k: "Suc k < length commits"
    define g where "g = graph_of (take k commits)"
    have next_g: "graph_of (take (Suc k) commits) = commit_row g (commits ! k)" using k by (simp add: graph_of_take g_def)
    have r: "fst (buildGraph commits) ! k = row_of g (commits ! k)"
      "fst (buildGraph commits) ! Suc k = row_of (commit_row g (commits ! k)) (commits ! Suc k)"
      using k rows_nth [of k commits] rows_nth [of "Suc k" commits] by (simp_all add: g_def next_g [unfolded g_def])
    have "(\<lambda>x. (gl_to x, gl_branch x)) ` set (gr_bottom (row_of g (commits ! k))) =
        {(i, ln_branch l) | i l. open_lanes (commit_row g (commits ! k)) i = Some l}"
      using row_bottom_lane [of _ g "commits ! k"] row_lane_bottom [of g "commits ! k"] by force
    moreover have "(\<lambda>x. (gl_from x, gl_branch x)) ` set (gr_top (row_of (commit_row g (commits ! k)) (commits ! Suc k))) =
        {(i, ln_branch l) | i l. open_lanes (commit_row g (commits ! k)) i = Some l}"
      by (rule row_top_lanes)
    ultimately show "(\<lambda>x. (gl_to x, gl_branch x)) ` set (gr_bottom (fst (buildGraph commits) ! k)) =
     (\<lambda>x. (gl_from x, gl_branch x)) ` set (gr_top (fst (buildGraph commits) ! Suc k))" unfolding r by simp
  qed
qed

section \<open>Example\<close>

definition merge_history :: "graph_commit list" where
  "merge_history = [\<lparr>gc_hash = ''d'', gc_parentHashes = [''b'', ''c''], gc_subject = ''Merge branch 'fix' into main''\<rparr>,
     \<lparr>gc_hash = ''c'', gc_parentHashes = [''a''], gc_subject = ''fix''\<rparr>,
     \<lparr>gc_hash = ''b'', gc_parentHashes = [''a''], gc_subject = ''two''\<rparr>,
     \<lparr>gc_hash = ''a'', gc_parentHashes = [], gc_subject = ''one''\<rparr>]"

theorem graph_links_unbroken_witness:
  "\<exists>lane branch. \<lparr>gl_from = gr_col (fst (buildGraph merge_history) ! 0), gl_to = lane, gl_branch = branch\<rparr> \<in>
      set (gr_bottom (fst (buildGraph merge_history) ! 0)) \<and>
    \<lparr>gl_from = lane, gl_to = gr_col (fst (buildGraph merge_history) ! 2), gl_branch = branch\<rparr> \<in>
      set (gr_top (fst (buildGraph merge_history) ! 2))"
proof -
  have "gc_hash (merge_history ! k) \<noteq> ''b''" if "0 < k" "k < 2" for k
  proof -
    have "k = 1" using that by simp
    then show ?thesis by (simp add: merge_history_def)
  qed
  moreover have "(0 :: nat) < 2" "2 < length merge_history" "gc_hash (merge_history ! 2) = ''b''"
    "''b'' \<in> set (gc_parentHashes (merge_history ! 0))" "''b'' \<noteq> []" by (simp_all add: merge_history_def)
  ultimately show ?thesis using graph_links_unbroken [of 0 2 merge_history "''b''"] by blast
qed

theorem graph_pages_continue_witness:
  "take 2 (fst (buildGraph merge_history)) = fst (buildGraph (take 2 merge_history)) \<and>
   snd (buildGraph merge_history) = 2 \<and> map gr_label (fst (buildGraph merge_history)) = [None, Some ''fix'', None, None]"
proof -
  have "take (length (take 2 merge_history)) (fst (buildGraph (take 2 merge_history @ drop 2 merge_history))) =
      fst (buildGraph (take 2 merge_history))"
    using graph_pages_continue by blast
  moreover have "length (take 2 merge_history) = 2" by (simp add: merge_history_def)
  moreover have "snd (buildGraph merge_history) = 2 \<and>
      map gr_label (fst (buildGraph merge_history)) = [None, Some ''fix'', None, None]" by code_simp
  ultimately show ?thesis by simp
qed

end
