(* ===== verification/FileTree.thy ===== *)
theory FileTree
  imports PathOps JsSort "HOL-Library.Sublist"
begin

text \<open>
  The tree of the Files tab: listings that arrive one folder at a time and the rows they make
  (\<open>files/treeModel.ts\<close>), the row of a new name, renames and removals (\<open>files/treeEdits.ts\<close>), and the
  ranking behind its filter box (\<open>files/filesFilter.ts\<close>).

  The order of names in natural language (\<open>Intl.Collator\<close>) depends on the user's locale and is the
  parameter \<open>collate\<close>. The walk over open folders calls itself for every open folder; it is modelled
  with fuel for the depth, and that enough fuel gives the rows is a property.
\<close>

section \<open>Types\<close>

record item =
  it_path :: string
  it_isDir :: bool

record dir_entry =
  de_name :: string
  de_isDir :: bool
  de_isSymlink :: "bool option"
  de_isIgnored :: "bool option"

datatype listing = Loading | Ready "dir_entry list" | Failed string

record tree_row =
  tr_path :: string
  tr_isDir :: bool
  tr_name :: string
  tr_depth :: nat
  tr_expanded :: bool
  tr_loading :: bool
  tr_error :: "string option"

type_synonym listings = "string \<Rightarrow> listing option"

section \<open>Paths\<close>

definition childPath :: "string \<Rightarrow> string \<Rightarrow> string" where
  "childPath dir name = (if dir \<noteq> [] then dir @ ''/'' @ name else name)"

definition parentPath :: "string \<Rightarrow> string" where
  "parentPath path = (let i = lastIndexOf_sub ''/'' path in if i < 0 then [] else take (nat i) path)"

text \<open>The loop over the slashes of a path, with the characters read so far.\<close>

fun ancestors_loop :: "string \<Rightarrow> string \<Rightarrow> string list" where
  "ancestors_loop done [] = []"
| "ancestors_loop done (ch # rest) =
     (if ch = CHR ''/'' then done # ancestors_loop (done @ [ch]) rest else ancestors_loop (done @ [ch]) rest)"

definition ancestorsOf :: "string \<Rightarrow> string list" where
  "ancestorsOf path = ancestors_loop [] path"

definition foldersTouchedBy :: "string \<Rightarrow> string list" where
  "foldersTouchedBy path = (let dir = parentPath path in if dir \<noteq> [] then [dir, parentPath dir] else [[]])"

section \<open>Order of entries\<close>

definition compareEntries :: "(string \<Rightarrow> string \<Rightarrow> int) \<Rightarrow> string \<times> bool \<Rightarrow> string \<times> bool \<Rightarrow> int" where
  "compareEntries collate a b =
     (if snd a \<noteq> snd b then if snd a then -1 else 1
      else then_compare (collate (fst a) (fst b)) (compareNames (fst a) (fst b)))"

definition adjacentFile :: "item list \<Rightarrow> string option \<Rightarrow> int \<Rightarrow> string option" where
  "adjacentFile items selectedPath delta =
     (let files = filter (\<lambda>it. \<not> it_isDir it) items
      in if files = [] then None
         else let at_i = (case keep_truthy selectedPath of None \<Rightarrow> -1 | Some p \<Rightarrow> findIndex (\<lambda>f. it_path f = p) files)
              in if at_i < 0 then Some (it_path (files ! (if 0 < delta then 0 else length files - 1)))
                 else Some (it_path (files ! nat (min (int (length files) - 1) (max 0 (at_i + delta))))))"

definition sortEntries :: "(string \<Rightarrow> string \<Rightarrow> int) \<Rightarrow> dir_entry list \<Rightarrow> dir_entry list" where
  "sortEntries collate entries =
     sort_by (\<lambda>a b. compareEntries collate (de_name a, de_isDir a) (de_name b, de_isDir b)) entries"

section \<open>The tree of matches\<close>

datatype match_node = MatchNode (mn_path: string) (mn_name: string) (mn_isDir: bool) (mn_children: "(string \<times> match_node) list")

fun insert_match :: "string list \<Rightarrow> string list \<Rightarrow> bool \<Rightarrow> (string \<times> match_node) list \<Rightarrow> (string \<times> match_node) list" where
  "insert_match done [] isDir children = children"
| "insert_match done (name # rest) isDir children =
     (let child = (case map_of children name of Some c \<Rightarrow> c
        | None \<Rightarrow> MatchNode (join ''/'' (done @ [name])) name (if rest = [] then isDir else True) [])
      in AList.update name (MatchNode (mn_path child) (mn_name child) (mn_isDir child)
           (insert_match (done @ [name]) rest isDir (mn_children child))) children)"

definition match_nodes :: "item list \<Rightarrow> (string \<times> match_node) list" where
  "match_nodes matches = foldl (\<lambda>children m. insert_match [] (split_on CHR ''/'' (it_path m)) (it_isDir m) children) [] matches"

definition sorted_children :: "(string \<Rightarrow> string \<Rightarrow> int) \<Rightarrow> (string \<times> match_node) list \<Rightarrow> match_node list" where
  "sorted_children collate children =
     sort_by (\<lambda>a b. compareEntries collate (mn_name a, mn_isDir a) (mn_name b, mn_isDir b)) (map snd children)"

definition match_row :: "string set \<Rightarrow> nat \<Rightarrow> match_node \<Rightarrow> tree_row" where
  "match_row collapsed depth child =
     \<lparr>tr_path = mn_path child, tr_isDir = mn_isDir child, tr_name = mn_name child, tr_depth = depth,
      tr_expanded = (mn_children child \<noteq> [] \<and> mn_path child \<notin> collapsed), tr_loading = False, tr_error = None\<rparr>"

lemma sorted_children_size [termination_simp]:
  "child \<in> set (sorted_children collate children) \<Longrightarrow> size_list (size_prod (\<lambda>_. 0) size) (mn_children child) < size_list (size_prod (\<lambda>_. 0) size) children"
proof -
  assume "child \<in> set (sorted_children collate children)"
  then obtain k where k: "(k, child) \<in> set children" by (auto simp: sorted_children_def)
  have "size_list (size_prod (\<lambda>_. 0) size) (mn_children child) < size_prod (\<lambda>_. 0) size (k, child)"
    by (cases child) simp
  with k show ?thesis by (rule size_list_estimation)
qed

function match_walk :: "(string \<Rightarrow> string \<Rightarrow> int) \<Rightarrow> string set \<Rightarrow> nat \<Rightarrow> (string \<times> match_node) list \<Rightarrow> tree_row list" where
  "match_walk collate collapsed depth children =
     concat (map (\<lambda>child. match_row collapsed depth child #
         (if mn_children child \<noteq> [] \<and> mn_path child \<notin> collapsed
          then match_walk collate collapsed (depth + 1) (mn_children child) else []))
       (sorted_children collate children))"
  by pat_completeness auto
termination
  by (relation "measure (\<lambda>(collate, collapsed, depth, children). size_list (size_prod (\<lambda>_. 0) size) children)")
    (simp_all add: sorted_children_size)

definition buildMatchTree :: "(string \<Rightarrow> string \<Rightarrow> int) \<Rightarrow> item list \<Rightarrow> string set \<Rightarrow> tree_row list" where
  "buildMatchTree collate matches collapsed = match_walk collate collapsed 0 (match_nodes matches)"

section \<open>The tree of listings\<close>

definition truthy_flag :: "bool option \<Rightarrow> bool" where
  "truthy_flag b = (b = Some True)"

definition sameEntries :: "dir_entry list \<Rightarrow> dir_entry list \<Rightarrow> bool" where
  "sameEntries a b =
     (length a = length b \<and> list_all2 (\<lambda>x y. de_name x = de_name y \<and> de_isDir x = de_isDir y \<and>
        truthy_flag (de_isIgnored x) = truthy_flag (de_isIgnored y)) a b)"

text \<open>The listings as the entries of a \<open>Map\<close>.\<close>

definition ignoredPathsOf :: "(string \<times> listing) list \<Rightarrow> string list" where
  "ignoredPathsOf ls = fold (\<lambda>(dir, l) out. case l of
       Ready entries \<Rightarrow> fold (\<lambda>e out. if truthy_flag (de_isIgnored e) then set_add (childPath dir (de_name e)) out else out) entries out
     | _ \<Rightarrow> out) ls []"

definition tree_row_of :: "listings \<Rightarrow> string set \<Rightarrow> string \<Rightarrow> nat \<Rightarrow> dir_entry \<Rightarrow> tree_row" where
  "tree_row_of ls expanded dir depth entry =
     (let path = childPath dir (de_name entry); isOpen = (de_isDir entry \<and> path \<in> expanded);
          child = (if isOpen then ls path else None)
      in \<lparr>tr_path = path, tr_isDir = de_isDir entry, tr_name = de_name entry, tr_depth = depth, tr_expanded = isOpen,
          tr_loading = (isOpen \<and> (child = None \<or> child = Some Loading)),
          tr_error = (case child of Some (Failed message) \<Rightarrow> Some message | _ \<Rightarrow> None)\<rparr>)"

fun tree_walk :: "nat \<Rightarrow> listings \<Rightarrow> string set \<Rightarrow> string \<Rightarrow> nat \<Rightarrow> tree_row list option" where
  "tree_walk 0 ls expanded dir depth = None"
| "tree_walk (Suc fuel) ls expanded dir depth =
     (case ls dir of
        Some (Ready entries) \<Rightarrow> map_option concat (those (map (\<lambda>entry.
            if tr_expanded (tree_row_of ls expanded dir depth entry)
            then map_option ((#) (tree_row_of ls expanded dir depth entry))
              (tree_walk fuel ls expanded (childPath dir (de_name entry)) (depth + 1))
            else Some [tree_row_of ls expanded dir depth entry]) entries))
      | _ \<Rightarrow> Some [])"

definition flattenTree :: "nat \<Rightarrow> listings \<Rightarrow> string set \<Rightarrow> tree_row list option" where
  "flattenTree fuel ls expanded = tree_walk fuel ls expanded [] 0"

section \<open>Edits of names\<close>

datatype name_edit = Create string bool | Rename string bool

definition DRAFT_PATH :: string where "DRAFT_PATH = CHR 0x00 # ''new''"

definition folderFor :: "item option \<Rightarrow> string" where
  "folderFor it = (case it of None \<Rightarrow> [] | Some i \<Rightarrow> if it_isDir i then it_path i else parentPath (it_path i))"

definition withDraftRow :: "tree_row list \<Rightarrow> name_edit option \<Rightarrow> tree_row list" where
  "withDraftRow rows edit = (case edit of
     Some (Create dir isDir) \<Rightarrow>
       (let index = findIndex (\<lambda>r. tr_path r = dir) rows
        in if dir \<noteq> [] \<and> index < 0 then rows
           else let at_i = (if dir \<noteq> [] then nat index + 1 else 0);
                    depth = (if dir \<noteq> [] then tr_depth (rows ! nat index) + 1 else 0);
                    draft = \<lparr>tr_path = DRAFT_PATH, tr_isDir = isDir, tr_name = [], tr_depth = depth, tr_expanded = False,
                      tr_loading = False, tr_error = None\<rparr>
                in take at_i rows @ draft # drop at_i rows)
   | _ \<Rightarrow> rows)"

definition isUnder :: "string \<Rightarrow> string \<Rightarrow> bool" where
  "isUnder path dir = (path = dir \<or> starts_with path (dir @ ''/''))"

definition withoutPending :: "tree_row list \<Rightarrow> string list \<Rightarrow> tree_row list" where
  "withoutPending rows pending =
     (if pending = [] then rows else filter (\<lambda>r. \<not> (\<exists>p\<in>set pending. isUnder (tr_path r) p)) rows)"

definition namesIn :: "listings \<Rightarrow> string \<Rightarrow> string list" where
  "namesIn ls dir = (case ls dir of Some (Ready entries) \<Rightarrow> map de_name entries | _ \<Rightarrow> [])"

definition renamedPath :: "string \<Rightarrow> string \<Rightarrow> string \<Rightarrow> string option" where
  "renamedPath path from to = (if isUnder path from then Some (to @ drop (length from) path) else None)"

definition nameTarget :: "name_edit \<Rightarrow> string \<Rightarrow> string" where
  "nameTarget edit name = (case edit of Create dir _ \<Rightarrow> childPath dir name | Rename path _ \<Rightarrow> childPath (parentPath path) name)"

section \<open>Ranking\<close>

record index_entry = item +
  ie_lower :: string
  ie_lowerName :: string

definition FILTER_LIMIT :: nat where "FILTER_LIMIT = 200"

definition indexEntry :: "bool \<Rightarrow> string \<Rightarrow> bool \<Rightarrow> index_entry" where
  "indexEntry win path isDir =
     \<lparr>it_path = path, it_isDir = isDir, ie_lower = to_lower path, ie_lowerName = basename (to_lower path) win\<rparr>"

text \<open>The two indices of the loop are the characters still to come.\<close>

fun isSubsequence :: "string \<Rightarrow> string \<Rightarrow> bool" where
  "isSubsequence [] text = True"
| "isSubsequence (q # qs) [] = False"
| "isSubsequence (q # qs) (ch # text) = (if ch = q then isSubsequence qs text else isSubsequence (q # qs) text)"

definition rankOf :: "index_entry \<Rightarrow> string list \<Rightarrow> string \<Rightarrow> nat option" where
  "rankOf entry head last_term =
     (if \<exists>term\<in>set head. \<not> str_includes (ie_lower entry) term then None
      else if starts_with (ie_lowerName entry) last_term then Some 0
      else if str_includes (ie_lowerName entry) last_term then Some 1
      else if str_includes (ie_lower entry) last_term then Some 2
      else if length head = 0 \<and> isSubsequence last_term (ie_lower entry) then Some 3
      else None)"

definition compareRanked :: "index_entry \<Rightarrow> index_entry \<Rightarrow> int" where
  "compareRanked a b = then_compare (of_bool (it_isDir a) - of_bool (it_isDir b))
     (then_compare (int (length (it_path a)) - int (length (it_path b))) (compareNames (it_path a) (it_path b)))"

definition query_terms :: "string \<Rightarrow> string list" where
  "query_terms query = filter (\<lambda>w. w \<noteq> []) (split_by is_space (to_lower query))"

definition rank_buckets :: "index_entry list \<Rightarrow> string list \<Rightarrow> index_entry list list" where
  "rank_buckets index terms =
     fold (\<lambda>entry buckets. case rankOf entry (butlast terms) (last terms) of
         None \<Rightarrow> buckets | Some r \<Rightarrow> buckets[r := buckets ! r @ [entry]]) index [[], [], [], []]"

fun take_buckets :: "nat \<Rightarrow> index_entry list list \<Rightarrow> index_entry list \<Rightarrow> index_entry list" where
  "take_buckets limit [] out = out"
| "take_buckets limit (bucket # buckets) out =
     (if limit \<le> length out then out
      else take_buckets limit buckets (out @ take (limit - length out) (sort_by compareRanked bucket)))"

definition rankFiles :: "index_entry list \<Rightarrow> string \<Rightarrow> nat \<Rightarrow> index_entry list \<times> nat" where
  "rankFiles index query limit =
     (let terms = query_terms query
      in if terms = [] then ([], 0)
         else let buckets = rank_buckets index terms
              in (take_buckets limit buckets [], sum_list (map length buckets)))"

section \<open>The rows of open folders\<close>

text \<open>The folders the walk goes into, with their depth below the folder it starts from.\<close>

inductive walked_dir :: "listings \<Rightarrow> string set \<Rightarrow> string \<Rightarrow> nat \<Rightarrow> string \<Rightarrow> nat \<Rightarrow> bool" for ls expanded where
  here: "walked_dir ls expanded dir depth dir depth"
| child: "ls dir = Some (Ready entries) \<Longrightarrow> entry \<in> set entries \<Longrightarrow> de_isDir entry \<Longrightarrow>
    childPath dir (de_name entry) \<in> expanded \<Longrightarrow>
    walked_dir ls expanded (childPath dir (de_name entry)) (depth + 1) dir' depth' \<Longrightarrow>
    walked_dir ls expanded dir depth dir' depth'"

definition walked_rows :: "listings \<Rightarrow> string set \<Rightarrow> string \<Rightarrow> nat \<Rightarrow> tree_row set" where
  "walked_rows ls expanded dir depth = {tree_row_of ls expanded dir' depth' entry | dir' depth' entry entries.
     walked_dir ls expanded dir depth dir' depth' \<and> ls dir' = Some (Ready entries) \<and> entry \<in> set entries}"

lemma those_map: "(\<And>x. x \<in> set xs \<Longrightarrow> f x = Some (g x)) \<Longrightarrow> those (map f xs) = Some (map g xs)"
  by (induction xs) simp_all

lemma tr_expanded_iff: "tr_expanded (tree_row_of ls expanded dir depth entry) \<longleftrightarrow>
    de_isDir entry \<and> childPath dir (de_name entry) \<in> expanded"
  by (simp add: tree_row_of_def Let_def)

lemma walked_rows_ready:
  assumes "ls dir = Some (Ready entries)"
  shows "walked_rows ls expanded dir depth = (\<Union>entry\<in>set entries. insert (tree_row_of ls expanded dir depth entry)
    (if de_isDir entry \<and> childPath dir (de_name entry) \<in> expanded
     then walked_rows ls expanded (childPath dir (de_name entry)) (depth + 1) else {}))"
proof -
  have "r \<in> walked_rows ls expanded dir depth \<longleftrightarrow> (\<exists>entry\<in>set entries. r = tree_row_of ls expanded dir depth entry \<or>
      de_isDir entry \<and> childPath dir (de_name entry) \<in> expanded \<and>
      r \<in> walked_rows ls expanded (childPath dir (de_name entry)) (depth + 1))" for r
  proof
    assume "r \<in> walked_rows ls expanded dir depth"
    then obtain dir' depth' entry' entries' where r: "r = tree_row_of ls expanded dir' depth' entry'"
      and w: "walked_dir ls expanded dir depth dir' depth'" and l: "ls dir' = Some (Ready entries')" "entry' \<in> set entries'"
      unfolding walked_rows_def by blast
    from w show "\<exists>entry\<in>set entries. r = tree_row_of ls expanded dir depth entry \<or>
      de_isDir entry \<and> childPath dir (de_name entry) \<in> expanded \<and>
      r \<in> walked_rows ls expanded (childPath dir (de_name entry)) (depth + 1)"
    proof cases
      case here
      then show ?thesis using r l assms by auto
    next
      case (child entries1 entry1)
      then have "r \<in> walked_rows ls expanded (childPath dir (de_name entry1)) (depth + 1)"
        using r l unfolding walked_rows_def by blast
      then show ?thesis using child assms by auto
    qed
  next
    assume "\<exists>entry\<in>set entries. r = tree_row_of ls expanded dir depth entry \<or>
      de_isDir entry \<and> childPath dir (de_name entry) \<in> expanded \<and>
      r \<in> walked_rows ls expanded (childPath dir (de_name entry)) (depth + 1)"
    then show "r \<in> walked_rows ls expanded dir depth"
      unfolding walked_rows_def using assms by (blast intro: walked_dir.intros)
  qed
  then show ?thesis by (auto split: if_splits)
qed

lemma walked_rows_none:
  assumes "\<And>entries. ls dir \<noteq> Some (Ready entries)"
  shows "walked_rows ls expanded dir depth = {}"
proof -
  have "\<not> (walked_dir ls expanded dir depth dir' depth' \<and> ls dir' = Some (Ready entries))" for dir' depth' entries
    using assms by (auto elim: walked_dir.cases)
  then show ?thesis unfolding walked_rows_def by blast
qed

text \<open>Each step down opens a longer path, so the fuel needed is the number of longer open paths.\<close>

lemma tree_walk_rows:
  assumes fin: "finite expanded"
    and named: "\<And>entries entry. ls [] = Some (Ready entries) \<Longrightarrow> entry \<in> set entries \<Longrightarrow> de_isDir entry \<Longrightarrow> [] \<in> expanded \<Longrightarrow> de_name entry \<noteq> []"
  shows "card {p \<in> expanded. length dir < length p} < fuel \<Longrightarrow>
    \<exists>rows. tree_walk fuel ls expanded dir depth = Some rows \<and> set rows = walked_rows ls expanded dir depth"
proof (induction fuel arbitrary: dir depth)
  case (Suc fuel)
  show ?case
  proof (cases "\<exists>entries. ls dir = Some (Ready entries)")
    case True
    then obtain entries where e: "ls dir = Some (Ready entries)" by blast
    let ?open = "\<lambda>entry. de_isDir entry \<and> childPath dir (de_name entry) \<in> expanded"
    have "\<exists>rows. tree_walk fuel ls expanded (childPath dir (de_name entry)) (depth + 1) = Some rows \<and>
        set rows = walked_rows ls expanded (childPath dir (de_name entry)) (depth + 1)"
      if entry: "entry \<in> set entries" "?open entry" for entry
    proof -
      let ?p = "childPath dir (de_name entry)"
      have "length dir < length ?p"
        using named [of entries entry] e entry by (cases "dir = []") (auto simp: childPath_def)
      then have "{p \<in> expanded. length ?p < length p} \<subset> {p \<in> expanded. length dir < length p}"
        using entry by auto
      then have "card {p \<in> expanded. length ?p < length p} < card {p \<in> expanded. length dir < length p}"
        using fin by (intro psubset_card_mono) auto
      then show ?thesis using Suc.prems by (intro Suc.IH) linarith
    qed
    then obtain sub where sub: "\<And>entry. entry \<in> set entries \<Longrightarrow> ?open entry \<Longrightarrow>
        tree_walk fuel ls expanded (childPath dir (de_name entry)) (depth + 1) = Some (sub entry) \<and>
        set (sub entry) = walked_rows ls expanded (childPath dir (de_name entry)) (depth + 1)" by metis
    define part where "part entry = tree_row_of ls expanded dir depth entry # (if ?open entry then sub entry else [])" for entry
    have "those (map (\<lambda>entry. if tr_expanded (tree_row_of ls expanded dir depth entry)
            then map_option ((#) (tree_row_of ls expanded dir depth entry))
              (tree_walk fuel ls expanded (childPath dir (de_name entry)) (depth + 1))
            else Some [tree_row_of ls expanded dir depth entry]) entries) = Some (map part entries)"
      using sub by (intro those_map) (simp add: tr_expanded_iff part_def)
    then have "tree_walk (Suc fuel) ls expanded dir depth = Some (concat (map part entries))" by (simp add: e)
    moreover have "set (concat (map part entries)) = walked_rows ls expanded dir depth"
      unfolding walked_rows_ready [of ls, OF e] using sub by (auto simp: part_def split: if_splits)
    ultimately show ?thesis by blast
  next
    case False
    then show ?thesis
      using walked_rows_none [of ls dir expanded depth] by (auto split: option.splits listing.splits)
  qed
qed simp



section \<open>Renames\<close>

text \<open>A rename carries what is under the renamed folder and nothing else, and renaming
  back restores every path.\<close>

theorem rename_roundtrip:
  "(renamedPath path from to = None \<longleftrightarrow> \<not> isUnder path from) \<and>
   (\<forall>moved. renamedPath path from to = Some moved \<longrightarrow> isUnder moved to \<and> renamedPath moved to from = Some path)"
proof -
  have "isUnder moved to \<and> renamedPath moved to from = Some path" if "renamedPath path from to = Some moved" for moved
  proof -
    have u: "isUnder path from" and m: "moved = to @ drop (length from) path"
      using that by (auto simp: renamedPath_def split: if_splits)
    obtain rest where rest: "path = from @ rest" "rest = [] \<or> hd rest = CHR ''/''"
      using u by (auto simp: isUnder_def dest!: starts_with_split)
    then have "isUnder moved to" by (cases rest) (auto simp: m isUnder_def starts_with_def)
    then show ?thesis using rest(1) by (simp add: m renamedPath_def)
  qed
  moreover have "renamedPath path from to = None \<longleftrightarrow> \<not> isUnder path from" by (simp add: renamedPath_def)
  ultimately show ?thesis by blast
qed

lemma rename_roundtrip_witness:
  "renamedPath ''a/x.ts'' ''a'' ''b'' = Some ''b/x.ts'' \<and> renamedPath ''b/x.ts'' ''b'' ''a'' = Some ''a/x.ts''"
proof -
  have moved: "renamedPath ''a/x.ts'' ''a'' ''b'' = Some ''b/x.ts''"
    by (simp add: renamedPath_def isUnder_def starts_with_def)
  with rename_roundtrip [of "''a/x.ts''" "''a''" "''b''"] show ?thesis by blast
qed

section \<open>The filter tree\<close>

text \<open>The part lists a tree holds, and its shape: children by distinct names without a slash, each
  with the path its place gives it.\<close>

fun holds :: "(string \<times> match_node) list \<Rightarrow> string list \<Rightarrow> bool" where
  "holds children [] = True"
| "holds children (name # parts) = (case map_of children name of None \<Rightarrow> False | Some c \<Rightarrow> holds (mn_children c) parts)"

definition node_at :: "string list \<Rightarrow> string \<Rightarrow> match_node \<Rightarrow> bool" where
  "node_at done name c \<longleftrightarrow> mn_name c = name \<and> mn_path c = join ''/'' (done @ [name]) \<and> CHR ''/'' \<notin> set name"

inductive nodes_ok :: "string list \<Rightarrow> (string \<times> match_node) list \<Rightarrow> bool" where
  "distinct (map fst children) \<Longrightarrow>
   (\<And>name c. (name, c) \<in> set children \<Longrightarrow> node_at done name c \<and> nodes_ok (done @ [name]) (mn_children c)) \<Longrightarrow>
   nodes_ok done children"

lemma nodes_ok_child:
  assumes "nodes_ok done children"
  shows "distinct (map fst children)"
    and "map_of children name = Some c \<Longrightarrow> node_at done name c \<and> nodes_ok (done @ [name]) (mn_children c)"
  using assms by (auto elim: nodes_ok.cases dest: map_of_SomeD)

lemma insert_match_ok:
  "nodes_ok done children \<Longrightarrow> \<forall>p\<in>set parts. CHR ''/'' \<notin> set p \<Longrightarrow> nodes_ok done (insert_match done parts isDir children)"
proof (induction "done" parts isDir children rule: insert_match.induct)
  case (2 "done" name rest isDir children)
  define child where "child = (case map_of children name of Some c \<Rightarrow> c
    | None \<Rightarrow> MatchNode (join ''/'' (done @ [name])) name (if rest = [] then isDir else True) [])"
  have child: "node_at done name child \<and> nodes_ok (done @ [name]) (mn_children child)"
  proof (cases "map_of children name")
    case None
    have "nodes_ok (done @ [name]) []" by (rule nodes_ok.intros) simp_all
    then show ?thesis using None "2.prems"(2) by (simp add: child_def node_at_def)
  next
    case (Some c)
    then show ?thesis using nodes_ok_child(2) [OF "2.prems"(1)] by (simp add: child_def)
  qed
  then have sub: "nodes_ok (done @ [name]) (insert_match (done @ [name]) rest isDir (mn_children child))"
    using "2.IH" [OF child_def] "2.prems"(2) by simp
  define new where "new = MatchNode (mn_path child) (mn_name child) (mn_isDir child)
    (insert_match (done @ [name]) rest isDir (mn_children child))"
  have "nodes_ok done (AList.update name new children)"
  proof (rule nodes_ok.intros)
    show d: "distinct (map fst (AList.update name new children))"
      using nodes_ok_child(1) [OF "2.prems"(1)] by (rule distinct_update)
    fix k c assume "(k, c) \<in> set (AList.update name new children)"
    then have "map_of (AList.update name new children) k = Some c" using d by simp
    then have "k = name \<and> c = new \<or> map_of children k = Some c" by (auto simp: update_conv' split: if_splits)
    then show "node_at done k c \<and> nodes_ok (done @ [k]) (mn_children c)"
      using child sub nodes_ok_child(2) [OF "2.prems"(1)] by (auto simp: new_def node_at_def)
  qed
  then show ?case by (simp add: child_def [symmetric] new_def Let_def)
qed simp

lemma holds_insert:
  "holds (insert_match done parts isDir children) qs \<longleftrightarrow> holds children qs \<or> prefix qs parts"
proof (induction "done" parts isDir children arbitrary: qs rule: insert_match.induct)
  case (2 "done" name rest isDir children)
  define child where "child = (case map_of children name of Some c \<Rightarrow> c
    | None \<Rightarrow> MatchNode (join ''/'' (done @ [name])) name (if rest = [] then isDir else True) [])"
  have IH: "holds (insert_match (done @ [name]) rest isDir (mn_children child)) qs \<longleftrightarrow> holds (mn_children child) qs \<or> prefix qs rest" for qs
    by (rule "2.IH" [OF child_def])
  show ?case
  proof (cases qs)
    case (Cons q qs')
    have "holds (mn_children child) qs' \<longleftrightarrow> (case map_of children name of None \<Rightarrow> qs' = [] | Some c \<Rightarrow> holds (mn_children c) qs')"
      by (cases qs') (simp_all add: child_def split: option.splits)
    then show ?thesis
      using IH [of qs'] by (auto simp: Cons child_def [symmetric] Let_def update_conv' split: option.splits)
  qed simp
next
  case (1 "done" isDir children)
  then show ?case by (cases qs) simp_all
qed

lemma match_nodes_snoc: "match_nodes (ms @ [m]) = insert_match [] (split_on CHR ''/'' (it_path m)) (it_isDir m) (match_nodes ms)"
  by (simp add: match_nodes_def)

lemma match_nodes_ok: "nodes_ok [] (match_nodes matches)"
proof (induction matches rule: rev_induct)
  case Nil
  show ?case unfolding match_nodes_def by (simp, rule nodes_ok.intros) simp_all
next
  case (snoc m ms)
  then show ?case unfolding match_nodes_snoc by (intro insert_match_ok) (auto dest: split_on_words)
qed

lemma match_nodes_holds:
  "qs \<noteq> [] \<Longrightarrow> holds (match_nodes matches) qs \<longleftrightarrow> (\<exists>m\<in>set matches. prefix qs (split_on CHR ''/'' (it_path m)))"
proof (induction matches rule: rev_induct)
  case Nil
  then show ?case by (cases qs) (simp_all add: match_nodes_def)
next
  case (snoc m ms)
  then show ?case by (auto simp: match_nodes_snoc holds_insert)
qed

text \<open>A part list is on screen when no folder strictly above it is collapsed.\<close>

definition uncollapsed :: "string set \<Rightarrow> string list \<Rightarrow> string list \<Rightarrow> bool" where
  "uncollapsed collapsed done qs \<longleftrightarrow> (\<forall>ps. ps \<noteq> [] \<and> strict_prefix ps qs \<longrightarrow> join ''/'' (done @ ps) \<notin> collapsed)"

lemma uncollapsed_Cons:
  "qs \<noteq> [] \<Longrightarrow> uncollapsed collapsed done (k # qs) \<longleftrightarrow>
     join ''/'' (done @ [k]) \<notin> collapsed \<and> uncollapsed collapsed (done @ [k]) qs"
  unfolding uncollapsed_def
proof (intro iffI conjI allI impI)
  fix ps assume qs: "qs \<noteq> []" and l: "\<forall>ps. ps \<noteq> [] \<and> strict_prefix ps (k # qs) \<longrightarrow> join ''/'' (done @ ps) \<notin> collapsed"
  show "join ''/'' (done @ [k]) \<notin> collapsed" using l [rule_format, of "[k]"] qs by (cases qs) (simp_all add: strict_prefix_def)
  assume "ps \<noteq> [] \<and> strict_prefix ps qs"
  then show "join ''/'' ((done @ [k]) @ ps) \<notin> collapsed" using l [rule_format, of "k # ps"] by simp
next
  fix ps assume r: "join ''/'' (done @ [k]) \<notin> collapsed \<and>
      (\<forall>ps. ps \<noteq> [] \<and> strict_prefix ps qs \<longrightarrow> join ''/'' ((done @ [k]) @ ps) \<notin> collapsed)"
    and ps: "ps \<noteq> [] \<and> strict_prefix ps (k # qs)"
  then obtain ps' where "ps = k # ps'" "strict_prefix ps' qs" by (cases ps) auto
  then show "join ''/'' (done @ ps) \<notin> collapsed" using r by (cases "ps' = []") auto
qed

text \<open>The parts of the rows below a list of children, in the order of the rows.\<close>

function row_parts_of :: "(string \<Rightarrow> string \<Rightarrow> int) \<Rightarrow> string set \<Rightarrow> (string \<times> match_node) list \<Rightarrow> string list list" where
  "row_parts_of collate collapsed children =
     concat (map (\<lambda>child. [mn_name child] # (if mn_children child \<noteq> [] \<and> mn_path child \<notin> collapsed
        then map ((#) (mn_name child)) (row_parts_of collate collapsed (mn_children child)) else []))
       (sorted_children collate children))"
  by pat_completeness auto
termination
  by (relation "measure (\<lambda>(collate, collapsed, children). size_list (size_prod (\<lambda>_. 0) size) children)")
    (simp_all add: sorted_children_size)

declare match_walk.simps [simp del] row_parts_of.simps [simp del]

lemma sorted_children_names:
  assumes "nodes_ok done children"
  shows "child \<in> set (sorted_children collate children) \<longleftrightarrow> map_of children (mn_name child) = Some child"
    and "distinct (map mn_name (sorted_children collate children))"
proof -
  have d: "distinct (map fst children)" by (rule nodes_ok_child(1) [OF assms])
  have key: "name = mn_name c" if "(name, c) \<in> set children" for name c
    using nodes_ok_child(2) [OF assms, of name c] that d by (simp add: node_at_def)
  have "child \<in> snd ` set children \<longleftrightarrow> (mn_name child, child) \<in> set children"
    using key by force
  then show "child \<in> set (sorted_children collate children) \<longleftrightarrow> map_of children (mn_name child) = Some child"
    using d by (simp add: sorted_children_def)
  have "map mn_name (map snd children) = map fst children" using key by (auto intro!: map_cong)
  then have "mset (map mn_name (sorted_children collate children)) = mset (map fst children)"
    unfolding sorted_children_def by (metis mset_map mset_sort_by)
  then show "distinct (map mn_name (sorted_children collate children))"
    using d mset_eq_imp_distinct_iff by blast
qed

lemma sorted_children_named:
  assumes "nodes_ok done children"
  shows "child \<in> set (sorted_children collate children) \<and> mn_name child = name \<longleftrightarrow> map_of children name = Some child"
  using sorted_children_names(1) [OF assms, of child collate] nodes_ok_child(2) [OF assms, of name child]
  by (auto simp: node_at_def)

lemma child_ok:
  assumes "nodes_ok done children" and "child \<in> set (sorted_children collate children)"
  shows "mn_path child = join ''/'' (done @ [mn_name child])" "nodes_ok (done @ [mn_name child]) (mn_children child)"
    "CHR ''/'' \<notin> set (mn_name child)"
  using nodes_ok_child(2) [OF assms(1), of "mn_name child" child] assms sorted_children_names(1) [OF assms(1)]
  by (simp_all add: node_at_def)

lemma match_walk_parts:
  "nodes_ok done children \<Longrightarrow>
   map (\<lambda>r. (tr_path r, tr_depth r)) (match_walk collate collapsed depth children) =
   map (\<lambda>qs. (join ''/'' (done @ qs), depth + (length qs - 1))) (row_parts_of collate collapsed children)"
proof (induction collate collapsed depth children arbitrary: "done" rule: match_walk.induct)
  case (1 collate collapsed depth children)
  have "map (\<lambda>r. (tr_path r, tr_depth r)) (match_row collapsed depth child #
         (if mn_children child \<noteq> [] \<and> mn_path child \<notin> collapsed
          then match_walk collate collapsed (depth + 1) (mn_children child) else [])) =
      map (\<lambda>qs. (join ''/'' (done @ qs), depth + (length qs - 1))) ([mn_name child] # (if mn_children child \<noteq> [] \<and> mn_path child \<notin> collapsed
        then map ((#) (mn_name child)) (row_parts_of collate collapsed (mn_children child)) else []))"
    if child: "child \<in> set (sorted_children collate children)" for child
  proof -
    have ne: "qs \<noteq> []" if "qs \<in> set (row_parts_of collate collapsed (mn_children child))" for qs
      using that by (subst (asm) row_parts_of.simps) (auto split: if_splits)
    have "map (\<lambda>r. (tr_path r, tr_depth r)) (match_walk collate collapsed (depth + 1) (mn_children child)) =
        map ((\<lambda>qs. (join ''/'' (done @ qs), depth + (length qs - 1))) \<circ> (#) (mn_name child)) (row_parts_of collate collapsed (mn_children child))"
      if "mn_children child \<noteq> [] \<and> mn_path child \<notin> collapsed"
      unfolding "1.IH" [OF child that child_ok(2) [OF "1.prems" child]]
      by (rule map_cong [OF refl]) (use ne in \<open>force simp: Suc_leI\<close>)
    then show ?thesis by (simp add: match_row_def child_ok(1) [OF "1.prems" child])
  qed
  then show ?case
    by (subst match_walk.simps, subst row_parts_of.simps) (simp add: map_concat comp_def cong: map_cong)
qed

lemma row_parts_set:
  "nodes_ok done children \<Longrightarrow> qs \<in> set (row_parts_of collate collapsed children) \<longleftrightarrow>
     qs \<noteq> [] \<and> holds children qs \<and> uncollapsed collapsed done qs"
proof (induction collate collapsed children arbitrary: "done" qs rule: row_parts_of.induct)
  case (1 collate collapsed children)
  show ?case
  proof (cases qs)
    case Nil
    then show ?thesis by (subst row_parts_of.simps) auto
  next
    case (Cons k rest)
    let ?sub = "\<lambda>c. mn_children c \<noteq> [] \<and> mn_path c \<notin> collapsed \<and> rest \<in> set (row_parts_of collate collapsed (mn_children c))"
    have "qs \<in> set (row_parts_of collate collapsed children) \<longleftrightarrow>
        (\<exists>c. map_of children k = Some c \<and> (rest = [] \<or> ?sub c))"
    proof -
      have "qs \<in> set (row_parts_of collate collapsed children) \<longleftrightarrow>
          (\<exists>c\<in>set (sorted_children collate children). mn_name c = k \<and> (rest = [] \<or> ?sub c))"
        unfolding Cons by (subst row_parts_of.simps) auto
      also have "\<dots> \<longleftrightarrow> (\<exists>c. map_of children k = Some c \<and> (rest = [] \<or> ?sub c))"
        using sorted_children_named [OF "1.prems"] by blast
      finally show ?thesis .
    qed
    also have "\<dots> \<longleftrightarrow> (\<exists>c. map_of children k = Some c \<and> holds (mn_children c) rest \<and> uncollapsed collapsed done (k # rest))"
    proof -
      have "rest = [] \<or> ?sub c \<longleftrightarrow> holds (mn_children c) rest \<and> uncollapsed collapsed done (k # rest)"
        if c: "map_of children k = Some c" for c
      proof (cases "rest = []")
        case True
        have "ps = []" if "strict_prefix ps [k]" for ps :: "string list"
          using that by (cases ps) auto
        with True show ?thesis by (auto simp: uncollapsed_def)
      next
        case False
        have ok: "node_at done k c" "nodes_ok (done @ [k]) (mn_children c)" using nodes_ok_child(2) [OF "1.prems" c] by simp_all
        have mem: "c \<in> set (sorted_children collate children)"
          using sorted_children_names(1) [OF "1.prems", of c] c ok(1) by (simp add: node_at_def)
        have "holds (mn_children c) rest \<Longrightarrow> mn_children c \<noteq> []" using False by (cases rest) auto
        then show ?thesis
          using False ok(1) "1.IH" [OF mem _ ok(2), of rest] uncollapsed_Cons [OF False, of collapsed "done" k]
          by (auto simp: node_at_def)
      qed
      then show ?thesis by blast
    qed
    finally show ?thesis by (auto simp: Cons split: option.splits)
  qed
qed

lemma row_parts_distinct: "nodes_ok done children \<Longrightarrow> distinct (row_parts_of collate collapsed children)"
proof (induction collate collapsed children arbitrary: "done" rule: row_parts_of.induct)
  case (1 collate collapsed children)
  let ?block = "\<lambda>child. [mn_name child] # (if mn_children child \<noteq> [] \<and> mn_path child \<notin> collapsed
        then map ((#) (mn_name child)) (row_parts_of collate collapsed (mn_children child)) else [])"
  let ?cs = "sorted_children collate children"
  have hd_block: "hd qs = mn_name child" if "qs \<in> set (?block child)" for qs child
    using that by (auto split: if_splits)
  have "distinct (concat (map ?block cs))" if "set cs \<subseteq> set ?cs" "distinct (map mn_name cs)" for cs
    using that
  proof (induction cs)
    case (Cons c cs)
    have mem: "c \<in> set ?cs" using Cons.prems(1) by simp
    have "distinct (row_parts_of collate collapsed (mn_children c))" if "mn_children c \<noteq> [] \<and> mn_path c \<notin> collapsed"
      by (rule "1.IH" [OF mem that child_ok(2) [OF "1.prems" mem]])
    moreover have "[] \<notin> set (row_parts_of collate collapsed (mn_children c))"
      by (subst row_parts_of.simps) auto
    ultimately have "distinct (?block c)" by (auto simp: distinct_map)
    moreover have "set (?block c) \<inter> set (concat (map ?block cs)) = {}"
    proof (rule ccontr)
      assume "set (?block c) \<inter> set (concat (map ?block cs)) \<noteq> {}"
      then obtain qs c' where "qs \<in> set (?block c)" "c' \<in> set cs" "qs \<in> set (?block c')" by auto
      then have "mn_name c = mn_name c'" "c' \<in> set cs" using hd_block by metis+
      then show False using Cons.prems(2) by (metis distinct.simps(2) image_eqI list.set_map list.simps(9))
    qed
    ultimately show ?case using Cons by simp
  qed simp
  from this [of ?cs] sorted_children_names(2) [OF "1.prems"] show ?case by (subst row_parts_of.simps) simp
qed

text \<open>The filter shows every match under its folders, once. The rows are the matches and
  the folders above them, without those under a collapsed folder, each with its path and its depth,
  and no path has two rows.\<close>

theorem filter_tree_rows:
  "(\<lambda>r. (tr_path r, tr_depth r)) ` set (buildMatchTree collate matches collapsed) =
     {(join ''/'' qs, length qs - 1) | qs m. m \<in> set matches \<and> qs \<noteq> [] \<and> prefix qs (split_on CHR ''/'' (it_path m)) \<and>
        uncollapsed collapsed [] qs} \<and>
   distinct (map tr_path (buildMatchTree collate matches collapsed))"
proof -
  let ?parts = "row_parts_of collate collapsed (match_nodes matches)"
  note ok = match_nodes_ok [of matches]
  have rows: "map (\<lambda>r. (tr_path r, tr_depth r)) (buildMatchTree collate matches collapsed) =
      map (\<lambda>qs. (join ''/'' qs, length qs - 1)) ?parts"
    using match_walk_parts [OF ok, of collate collapsed 0] by (simp add: buildMatchTree_def)
  have parts: "set ?parts = {qs. qs \<noteq> [] \<and> (\<exists>m\<in>set matches. prefix qs (split_on CHR ''/'' (it_path m))) \<and> uncollapsed collapsed [] qs}"
    using row_parts_set [OF ok] match_nodes_holds [of _ matches] by auto
  have "(\<lambda>r. (tr_path r, tr_depth r)) ` set (buildMatchTree collate matches collapsed) =
      (\<lambda>qs. (join ''/'' qs, length qs - 1)) ` set ?parts"
    using arg_cong [OF rows, of set] by simp
  moreover have "inj_on (join ''/'') (set ?parts)"
  proof (rule inj_on_inverseI [where g = "split_on CHR ''/''"])
    fix qs assume "qs \<in> set ?parts"
    then have "qs \<noteq> []" "\<exists>m\<in>set matches. prefix qs (split_on CHR ''/'' (it_path m))" unfolding parts by simp_all
    then obtain m :: item where "qs \<noteq> []" "prefix qs (split_on CHR ''/'' (it_path m))" by blast
    moreover from this have "\<forall>w\<in>set qs. CHR ''/'' \<notin> set w" using split_on_words by (metis set_mono_prefix subsetD)
    ultimately show "split_on CHR ''/'' (join ''/'' qs) = qs" by (intro split_on_join)
  qed
  then have "distinct (map (join ''/'') ?parts)" using row_parts_distinct [OF ok] by (simp add: distinct_map)
  moreover have "map tr_path (buildMatchTree collate matches collapsed) = map (join ''/'') ?parts"
    using arg_cong [OF rows, of "map fst"] by (simp add: comp_def)
  ultimately show ?thesis unfolding parts by auto
qed

section \<open>The ranking\<close>

interpretation ranked: js_compare compareRanked
  unfolding compareRanked_def
  by (intro js_compare_then js_compare_rank js_compare_key [OF names.js_compare_axioms])
    (unfold_locales; simp add: sgn_if)

lemma rankOf_bound: "rankOf entry head last_term = Some r \<Longrightarrow> r < 4"
  by (auto simp: rankOf_def split: if_splits)

lemma rank_buckets_filters:
  "rank_buckets index terms = map (\<lambda>r. filter (\<lambda>e. rankOf e (butlast terms) (last terms) = Some r) index) [0..<4]"
proof (induction index rule: rev_induct)
  case Nil
  show ?case by (simp add: rank_buckets_def upt_rec numeral_eq_Suc)
next
  case (snoc e index)
  let ?rank = "rankOf e (butlast terms) (last terms)"
  have "rank_buckets (index @ [e]) terms = (case ?rank of None \<Rightarrow> rank_buckets index terms
      | Some r \<Rightarrow> (rank_buckets index terms)[r := rank_buckets index terms ! r @ [e]])"
    by (simp add: rank_buckets_def cong: option.case_cong)
  moreover have "\<dots> = map (\<lambda>r. filter (\<lambda>e. rankOf e (butlast terms) (last terms) = Some r) (index @ [e])) [0..<4]"
    using rankOf_bound [of e "butlast terms" "last terms"]
    by (auto simp: snoc.IH list_eq_iff_nth_eq nth_list_update split: option.splits)
  ultimately show ?case by simp
qed

lemma take_buckets_concat:
  "length out \<le> limit \<Longrightarrow> take_buckets limit buckets out = take limit (out @ concat (map (sort_by compareRanked) buckets))"
proof (induction limit buckets out rule: take_buckets.induct)
  case (2 limit bucket buckets out)
  then show ?case
    by (cases "limit = length out"; cases "length bucket \<le> limit - length out") (simp_all add: min_def)
qed simp


end
