(* ===== verification/AgentStatus.thy ===== *)
theory AgentStatus
  imports JsPrelude Complex_Main
begin

text \<open>
  What an agent is doing, as every tab, composer and sidebar row reads it: the states and the status
  of a project (\<open>agentStatus.ts\<close>), the one status of a pane (\<open>hooks/usePaneStatus.ts\<close>), and whether a
  terminal's foreground command is its shell at the prompt (\<open>shellCommand.ts\<close>). The fields of a
  status entry that only decorate it (icon, color, priority, seenAt) are left out. Times are
  milliseconds, as rationals.
\<close>

type_synonym millis = rat

section \<open>States\<close>

definition STATUS_RUNNING :: string where "STATUS_RUNNING = ''Running''"
definition STATUS_DONE :: string where "STATUS_DONE = ''Done''"
definition STATUS_WAITING :: string where "STATUS_WAITING = ''Waiting''"
definition STATUS_ERROR :: string where "STATUS_ERROR = ''Error''"

lemmas status_names = STATUS_RUNNING_def STATUS_DONE_def STATUS_WAITING_def STATUS_ERROR_def

record status_entry =
  se_key :: string
  se_value :: string
  se_timestamp :: millis
  se_paneID :: "string option"
  se_turnStart :: "millis option"
  se_endedAt :: "millis option"

datatype agent_state = NeedsYou | ErrorState | Working | DoneState | Idle

fun AGENT_STATE_LABEL :: "agent_state \<Rightarrow> string" where
  "AGENT_STATE_LABEL NeedsYou = ''Needs you''"
| "AGENT_STATE_LABEL ErrorState = ''Problem''"
| "AGENT_STATE_LABEL Working = ''Working''"
| "AGENT_STATE_LABEL DoneState = ''Done''"
| "AGENT_STATE_LABEL Idle = ''Idle''"

fun AGENT_STATE_TONE :: "agent_state \<Rightarrow> string" where
  "AGENT_STATE_TONE NeedsYou = ''sidebar-waiting''"
| "AGENT_STATE_TONE ErrorState = ''text-[var(--accent-red)]''"
| "AGENT_STATE_TONE Working = ''sidebar-shimmer''"
| "AGENT_STATE_TONE DoneState = ''text-[var(--accent-blue)]''"
| "AGENT_STATE_TONE Idle = ''text-[var(--text-muted)]''"

fun AGENT_STATE_RANK :: "agent_state \<Rightarrow> nat" where
  "AGENT_STATE_RANK NeedsYou = 0"
| "AGENT_STATE_RANK ErrorState = 1"
| "AGENT_STATE_RANK Working = 2"
| "AGENT_STATE_RANK DoneState = 3"
| "AGENT_STATE_RANK Idle = 4"

definition agentStateOf :: "string \<Rightarrow> agent_state" where
  "agentStateOf value =
     (if value = STATUS_WAITING then NeedsYou
      else if value = STATUS_ERROR then ErrorState
      else if value = STATUS_RUNNING then Working
      else if value = STATUS_DONE then DoneState
      else Idle)"

record project_status =
  pst_isDone :: bool
  pst_isWaiting :: bool
  pst_isError :: bool
  pst_className :: "string option"

definition ERROR_NAME_CLASS :: string where "ERROR_NAME_CLASS = ''text-[var(--accent-red-text)]''"

text \<open>The loop over the entries keeps four flags.\<close>

definition status_flags :: "status_entry list \<Rightarrow> bool \<times> bool \<times> bool \<times> bool" where
  "status_flags entries = fold (\<lambda>e (isWorking, isDone, isWaiting, isError). case agentStateOf (se_value e) of
       Working \<Rightarrow> (True, isDone, isWaiting, isError)
     | DoneState \<Rightarrow> (isWorking, True, isWaiting, isError)
     | NeedsYou \<Rightarrow> (isWorking, isDone, True, isError)
     | ErrorState \<Rightarrow> (isWorking, isDone, isWaiting, True)
     | Idle \<Rightarrow> (isWorking, isDone, isWaiting, isError)) entries (False, False, False, False)"

definition computeProjectStatus :: "status_entry list option \<Rightarrow> project_status" where
  "computeProjectStatus entries =
     (let (isWorking, isDone, isWaiting, isError) = status_flags (case entries of None \<Rightarrow> [] | Some es \<Rightarrow> es);
          className = (if isWaiting then Some ''sidebar-waiting'' else if isError then Some ERROR_NAME_CLASS
            else if isWorking then Some ''sidebar-shimmer'' else None)
      in \<lparr>pst_isDone = isDone, pst_isWaiting = isWaiting, pst_isError = isError, pst_className = className\<rparr>)"

definition rowNameClass :: "project_status \<Rightarrow> bool \<Rightarrow> string option" where
  "rowNameClass status tasksListed =
     (if \<not> tasksListed then pst_className status else if pst_isError status then Some ERROR_NAME_CLASS else None)"

section \<open>Providers\<close>

record status_agent =
  sa_provider :: string
  sa_keyPrefix :: string
  sa_label :: string
  sa_short :: string
  sa_color :: string

definition STATUS_AGENTS :: "status_agent list" where
  "STATUS_AGENTS =
    [\<lparr>sa_provider = ''claude'', sa_keyPrefix = ''claude_code_'', sa_label = ''Claude Code'', sa_short = ''Claude'', sa_color = ''#D97757''\<rparr>,
     \<lparr>sa_provider = ''codex'', sa_keyPrefix = ''codex_'', sa_label = ''Codex'', sa_short = ''Codex'', sa_color = ''#10A37F''\<rparr>,
     \<lparr>sa_provider = ''gemini'', sa_keyPrefix = ''gemini_'', sa_label = ''Gemini CLI'', sa_short = ''Gemini'', sa_color = ''#4796E3''\<rparr>,
     \<lparr>sa_provider = ''cursor'', sa_keyPrefix = ''cursor_'', sa_label = ''Cursor'', sa_short = ''Cursor'', sa_color = ''var(--text-primary)''\<rparr>,
     \<lparr>sa_provider = ''opencode'', sa_keyPrefix = ''opencode_'', sa_label = ''OpenCode'', sa_short = ''OpenCode'', sa_color = ''#FAB283''\<rparr>,
     \<lparr>sa_provider = ''omp'', sa_keyPrefix = ''omp_'', sa_label = ''omp'', sa_short = ''omp'', sa_color = ''#F97316''\<rparr>]"

definition statusProvider :: "string \<Rightarrow> string" where
  "statusProvider key = (case List.find (\<lambda>a. starts_with key (sa_keyPrefix a)) STATUS_AGENTS of
     Some a \<Rightarrow> sa_provider a | None \<Rightarrow> ''unknown'')"

definition providerMeta :: "string \<Rightarrow> string \<times> string \<times> string" where
  "providerMeta key =
     (case List.find (\<lambda>a. sa_provider a = key) STATUS_AGENTS of
        Some a \<Rightarrow> (sa_label a, sa_short a, sa_color a)
      | None \<Rightarrow> if key = ''unknown'' then (''Agent'', ''Agent'', ''var(--text-muted)'') else (key, key, ''var(--text-muted)''))"

section \<open>The status of a pane\<close>

record pane_agent_status =
  pa_state :: agent_state
  pa_since :: "millis option"
  pa_until :: "millis option"

record pane_status =
  pn_running :: "string set"
  pn_done :: "string set"
  pn_waiting :: "string set"
  pn_error :: "string set"
  pn_agents :: "string \<Rightarrow> pane_agent_status option"
  pn_providers :: "string \<Rightarrow> string option"
  pn_seen :: "string \<Rightarrow> string list option"

definition RANK :: "string \<Rightarrow> nat option" where
  "RANK value =
     (if value = STATUS_WAITING then Some 0 else if value = STATUS_ERROR then Some 1
      else if value = STATUS_RUNNING then Some 2 else if value = STATUS_DONE then Some 3 else None)"

definition STATE :: "string \<Rightarrow> agent_state option" where
  "STATE value =
     (if value = STATUS_ERROR then Some ErrorState else if value = STATUS_WAITING then Some NeedsYou
      else if value = STATUS_RUNNING then Some Working else if value = STATUS_DONE then Some DoneState else None)"

definition stampOf :: "millis option \<Rightarrow> millis \<Rightarrow> millis option" where
  "stampOf stamped now = (case stamped of None \<Rightarrow> None | Some t \<Rightarrow> if t \<le> 0 then None else Some (min t now))"

definition agentStatusOf :: "status_entry \<Rightarrow> millis \<Rightarrow> pane_agent_status option" where
  "agentStatusOf entry now =
     (case STATE (se_value entry) of
        None \<Rightarrow> None
      | Some state \<Rightarrow>
          (let stateSince = (case stampOf (Some (se_timestamp entry)) now of Some t \<Rightarrow> t | None \<Rightarrow> now);
               turnStart = stampOf (se_turnStart entry) now
           in if state = DoneState then
                Some \<lparr>pa_state = state, pa_since = turnStart, pa_until = or_else (stampOf (se_endedAt entry) now) (Some stateSince)\<rparr>
              else if state = Working then
                Some \<lparr>pa_state = state, pa_since = or_else turnStart (Some stateSince), pa_until = None\<rparr>
              else Some \<lparr>pa_state = state, pa_since = Some stateSince, pa_until = None\<rparr>))"

text \<open>One turn of the loop over the entries, with the ranks it keeps.\<close>

definition pane_step :: "millis \<Rightarrow> status_entry \<Rightarrow> pane_status \<times> (string \<Rightarrow> nat option) \<Rightarrow> pane_status \<times> (string \<Rightarrow> nat option)" where
  "pane_step now e st =
     (case (keep_truthy (se_paneID e), RANK (se_value e)) of
        (Some pane, Some rank) \<Rightarrow>
          (let p = fst st;
               p = (if se_value e = STATUS_RUNNING then p\<lparr>pn_running := insert pane (pn_running p)\<rparr>
                 else if se_value e = STATUS_DONE then p\<lparr>pn_done := insert pane (pn_done p)\<rparr>
                 else if se_value e = STATUS_WAITING then p\<lparr>pn_waiting := insert pane (pn_waiting p)\<rparr>
                 else p\<lparr>pn_error := insert pane (pn_error p)\<rparr>)
           in if (case snd st pane of None \<Rightarrow> False | Some r \<Rightarrow> r \<le> rank) then (p, snd st)
              else case agentStatusOf e now of
                None \<Rightarrow> (p, snd st)
              | Some status \<Rightarrow>
                  (p\<lparr>pn_agents := (pn_agents p)(pane \<mapsto> status), pn_providers := (pn_providers p)(pane \<mapsto> statusProvider (se_key e))\<rparr>,
                   (snd st)(pane \<mapsto> rank)))
      | _ \<Rightarrow> st)"

definition no_panes :: pane_status where
  "no_panes = \<lparr>pn_running = {}, pn_done = {}, pn_waiting = {}, pn_error = {}, pn_agents = Map.empty,
     pn_providers = Map.empty, pn_seen = Map.empty\<rparr>"

definition seen_step :: "string set \<Rightarrow> status_entry \<Rightarrow> (string \<Rightarrow> string list option) \<Rightarrow> string \<Rightarrow> string list option" where
  "seen_step livePanes e seen =
     (case keep_truthy (se_paneID e) of
        None \<Rightarrow> seen
      | Some pane \<Rightarrow> if pane \<in> livePanes then seen
          else seen(pane \<mapsto> (case seen pane of None \<Rightarrow> [] | Some ks \<Rightarrow> ks) @ [se_key e]))"

definition derivePaneStatus :: "status_entry list option \<Rightarrow> millis \<Rightarrow> status_entry list \<Rightarrow> pane_status" where
  "derivePaneStatus entries now seenEntries =
     (let es = (case entries of None \<Rightarrow> [] | Some es \<Rightarrow> es);
          p = fst (fold (pane_step now) es (no_panes, Map.empty));
          livePanes = {pane. \<exists>e\<in>set es. keep_truthy (se_paneID e) = Some pane}
      in p\<lparr>pn_seen := fold (seen_step livePanes) seenEntries Map.empty\<rparr>)"

definition paneAgentStatus :: "pane_status option \<Rightarrow> string option \<Rightarrow> pane_agent_status option" where
  "paneAgentStatus status terminalId =
     (case (status, keep_truthy terminalId) of (Some p, Some t) \<Rightarrow> pn_agents p t | _ \<Rightarrow> None)"

section \<open>The shell at its prompt\<close>

definition SHELLS :: "string list" where
  "SHELLS = [''sh'', ''bash'', ''zsh'', ''fish'', ''dash'', ''ksh'', ''tcsh'', ''csh'', ''nu'', ''elvish'', ''xonsh'', ''pwsh'',
     ''powershell'', ''login'']"

definition word_char :: "char \<Rightarrow> bool" where
  "word_char c = (is_digit c \<or> is_letter c \<or> c = CHR ''_'')"

text \<open>The shortest start of a line that ends in \<open>.exe\<close> at the end of a word.\<close>

fun exe_prefix :: "string \<Rightarrow> string option" where
  "exe_prefix [] = None"
| "exe_prefix (c # s) =
     (if to_lower (take 4 (c # s)) = ''.exe'' \<and> (case drop 4 (c # s) of [] \<Rightarrow> True | d # _ \<Rightarrow> \<not> word_char d)
      then Some (take 4 (c # s))
      else if c = CHR 0x0A \<or> c = CHR 0x0D then None
      else map_option ((#) c) (exe_prefix s))"

definition without_exe :: "string \<Rightarrow> string" where
  "without_exe s = (if ends_with (to_lower s) ''.exe'' then take (length s - 4) s else s)"

definition isShellAtPrompt :: "string \<Rightarrow> bool" where
  "isShellAtPrompt foreground =
     (let cmd = trim foreground;
          first = (case exe_prefix cmd of Some exe \<Rightarrow> exe | None \<Rightarrow> hd (split_by is_space cmd));
          plain = (case first of c # s \<Rightarrow> if c = CHR ''-'' then s else first | [] \<Rightarrow> []);
          name = to_lower (without_exe (last (split_by (\<lambda>c. c = CHR ''/'' \<or> c = CHR 0x5C) plain)))
      in name \<in> set SHELLS)"

section \<open>The most urgent entry\<close>

definition reported :: "string \<Rightarrow> status_entry \<Rightarrow> bool" where
  "reported pane e \<longleftrightarrow> keep_truthy (se_paneID e) = Some pane \<and> RANK (se_value e) \<noteq> None"

definition urgency :: "status_entry \<Rightarrow> nat" where
  "urgency e = the (RANK (se_value e))"

text \<open>The first of the entries of a pane that no other outranks.\<close>

definition most_urgent :: "string \<Rightarrow> status_entry list \<Rightarrow> status_entry option" where
  "most_urgent pane es =
     List.find (\<lambda>e. reported pane e \<and> (\<forall>e'\<in>set es. reported pane e' \<longrightarrow> urgency e \<le> urgency e')) es"

lemma most_urgent_Some:
  assumes "most_urgent pane es = Some e"
  shows "e \<in> set es" "reported pane e" "\<And>e'. e' \<in> set es \<Longrightarrow> reported pane e' \<Longrightarrow> urgency e \<le> urgency e'"
  using assms unfolding most_urgent_def by (auto simp: find_Some_iff)

lemma most_urgent_None: "most_urgent pane es = None \<longleftrightarrow> (\<forall>e\<in>set es. \<not> reported pane e)"
proof
  assume none: "most_urgent pane es = None"
  show "\<forall>e\<in>set es. \<not> reported pane e"
  proof (rule ccontr)
    assume "\<not> ?thesis"
    then obtain e where "e \<in> set es \<and> reported pane e" by blast
    then obtain m where "m \<in> set es \<and> reported pane m" "\<And>e'. e' \<in> set es \<and> reported pane e' \<Longrightarrow> urgency m \<le> urgency e'"
      using arg_min_nat_lemma [of "\<lambda>e. e \<in> set es \<and> reported pane e" e urgency] by blast
    then show False using none unfolding most_urgent_def find_None_iff by blast
  qed
qed (auto simp: most_urgent_def find_None_iff)

lemma most_urgent_snoc:
  "most_urgent pane (es @ [e]) =
     (if reported pane e \<and> (case most_urgent pane es of None \<Rightarrow> True | Some m \<Rightarrow> urgency e < urgency m) then Some e
      else most_urgent pane es)"
proof (cases "most_urgent pane es")
  case None
  then have none: "\<forall>x\<in>set es. \<not> reported pane x" by (simp add: most_urgent_None)
  then have "List.find (\<lambda>x. reported pane x \<and> (\<forall>e'\<in>set (es @ [e]). reported pane e' \<longrightarrow> urgency x \<le> urgency e')) es = None"
    by (auto simp: find_None_iff)
  then show ?thesis using None none by (simp add: most_urgent_def [of pane "es @ [e]"] find_append_or)
next
  case (Some m)
  note m = most_urgent_Some [OF Some]
  show ?thesis
  proof (cases "reported pane e \<and> urgency e < urgency m")
    case True
    then have "List.find (\<lambda>x. reported pane x \<and> (\<forall>e'\<in>set (es @ [e]). reported pane e' \<longrightarrow> urgency x \<le> urgency e')) es = None"
      using m(3) by (fastforce simp: find_None_iff)
    moreover have "urgency e \<le> urgency x" if "x \<in> set es" "reported pane x" for x
      using m(3) [OF that] True by simp
    ultimately show ?thesis using True Some by (auto simp: most_urgent_def find_append_or)
  next
    case False
    have same: "reported pane x \<and> (\<forall>e'\<in>set (es @ [e]). reported pane e' \<longrightarrow> urgency x \<le> urgency e') \<longleftrightarrow>
        reported pane x \<and> (\<forall>e'\<in>set es. reported pane e' \<longrightarrow> urgency x \<le> urgency e')" if "x \<in> set es" for x
      using False m by fastforce
    have "List.find (\<lambda>x. reported pane x \<and> (\<forall>e'\<in>set (es @ [e]). reported pane e' \<longrightarrow> urgency x \<le> urgency e')) es =
        most_urgent pane es"
      unfolding most_urgent_def by (rule find_cong [OF refl same])
    then show ?thesis using Some False by (auto simp: most_urgent_def [of pane "es @ [e]"] find_append_or)
  qed
qed

lemma agentStatusOf_reported: "RANK (se_value e) \<noteq> None \<longleftrightarrow> agentStatusOf e now \<noteq> None"
  by (auto simp: RANK_def agentStatusOf_def STATE_def Let_def status_names)

text \<open>What the loop has, for one pane, after some of the entries.\<close>

lemma pane_steps:
  assumes "fold (pane_step now) es (no_panes, Map.empty) = (p, ranks)"
  shows "ranks pane = map_option urgency (most_urgent pane es)"
    and "pn_agents p pane = Option.bind (most_urgent pane es) (\<lambda>e. agentStatusOf e now)"
    and "pn_providers p pane = map_option (\<lambda>e. statusProvider (se_key e)) (most_urgent pane es)"
    and "pane \<in> pn_waiting p \<longleftrightarrow> (\<exists>e\<in>set es. keep_truthy (se_paneID e) = Some pane \<and> se_value e = STATUS_WAITING)"
proof -
  have "ranks pane = map_option urgency (most_urgent pane es) \<and>
      pn_agents p pane = Option.bind (most_urgent pane es) (\<lambda>e. agentStatusOf e now) \<and>
      pn_providers p pane = map_option (\<lambda>e. statusProvider (se_key e)) (most_urgent pane es) \<and>
      (pane \<in> pn_waiting p \<longleftrightarrow> (\<exists>e\<in>set es. keep_truthy (se_paneID e) = Some pane \<and> se_value e = STATUS_WAITING))"
    using assms
  proof (induction es arbitrary: p ranks rule: rev_induct)
    case Nil
    then show ?case by (auto simp: no_panes_def most_urgent_def)
  next
    case (snoc e es)
    obtain q rs where q: "fold (pane_step now) es (no_panes, Map.empty) = (q, rs)" by fastforce
    have step: "(p, ranks) = pane_step now e (q, rs)" using snoc.prems q by simp
    note IH = snoc.IH [OF q]
    show ?case
    proof (cases "reported pane e")
      case True
      then obtain rank where rank: "RANK (se_value e) = Some rank" "urgency e = rank" "keep_truthy (se_paneID e) = Some pane"
        by (auto simp: reported_def urgency_def)
      obtain status where status: "agentStatusOf e now = Some status" using agentStatusOf_reported [of e now] rank by auto
      show ?thesis using step IH True rank status
        by (cases "most_urgent pane es"; auto simp: pane_step_def most_urgent_snoc Let_def status_names split: if_splits)
    next
      case False
      then have "RANK (se_value e) = None \<or> keep_truthy (se_paneID e) \<noteq> Some pane" by (auto simp: reported_def)
      then have "ranks pane = rs pane \<and> pn_agents p pane = pn_agents q pane \<and> pn_providers p pane = pn_providers q pane \<and>
          (pane \<in> pn_waiting p \<longleftrightarrow> pane \<in> pn_waiting q)"
        using step by (auto simp: pane_step_def Let_def split: option.splits if_splits)
      moreover have "\<not> (keep_truthy (se_paneID e) = Some pane \<and> se_value e = STATUS_WAITING)"
        using False by (auto simp: reported_def RANK_def)
      ultimately show ?thesis using IH False by (auto simp: most_urgent_snoc)
    qed
  qed
  then show "ranks pane = map_option urgency (most_urgent pane es)"
    and "pn_agents p pane = Option.bind (most_urgent pane es) (\<lambda>e. agentStatusOf e now)"
    and "pn_providers p pane = map_option (\<lambda>e. statusProvider (se_key e)) (most_urgent pane es)"
    and "pane \<in> pn_waiting p \<longleftrightarrow> (\<exists>e\<in>set es. keep_truthy (se_paneID e) = Some pane \<and> se_value e = STATUS_WAITING)"
    by blast+
qed

text \<open>Property C35: a pane shows its most urgent agent. Of the entries that name it, in any order, the
  status read is that of the first one no other outranks, together with that agent's provider; and
  it asks for the user exactly when some entry of the pane does.\<close>

theorem pane_reads_most_urgent:
  "(let p = derivePaneStatus (Some es) now seenEntries
    in pane \<noteq> [] \<longrightarrow>
       paneAgentStatus (Some p) (Some pane) = Option.bind (most_urgent pane es) (\<lambda>e. agentStatusOf e now) \<and>
       pn_providers p pane = map_option (\<lambda>e. statusProvider (se_key e)) (most_urgent pane es) \<and>
       (map_option pa_state (paneAgentStatus (Some p) (Some pane)) = Some NeedsYou \<longleftrightarrow> pane \<in> pn_waiting p))"
proof (cases "pane = []")
  case False
  obtain q rs where q: "fold (pane_step now) es (no_panes, Map.empty) = (q, rs)" by fastforce
  note st = pane_steps [OF q, of pane]
  have waiting: "urgency e = 0 \<longleftrightarrow> se_value e = STATUS_WAITING" if "reported pane e" for e
    using that by (auto simp: reported_def urgency_def RANK_def status_names split: if_splits)
  have state: "map_option pa_state (agentStatusOf e now) = Some NeedsYou \<longleftrightarrow> se_value e = STATUS_WAITING" for e
    by (auto simp: agentStatusOf_def STATE_def status_names Let_def)
  have "map_option pa_state (Option.bind (most_urgent pane es) (\<lambda>e. agentStatusOf e now)) = Some NeedsYou \<longleftrightarrow>
      (\<exists>e\<in>set es. keep_truthy (se_paneID e) = Some pane \<and> se_value e = STATUS_WAITING)"
  proof (cases "most_urgent pane es")
    case None
    then have "\<not> (keep_truthy (se_paneID e) = Some pane \<and> se_value e = STATUS_WAITING)" if "e \<in> set es" for e
      using that by (auto simp: most_urgent_None reported_def RANK_def)
    with None show ?thesis by auto
  next
    case (Some m)
    note m = most_urgent_Some [OF Some]
    have "se_value m = STATUS_WAITING" if "e \<in> set es" "keep_truthy (se_paneID e) = Some pane" "se_value e = STATUS_WAITING" for e
    proof -
      have e: "reported pane e" using that by (simp add: reported_def RANK_def)
      show ?thesis using m(3) [OF that(1) e] waiting [OF e] waiting [OF m(2)] that(3) by simp
    qed
    then show ?thesis using Some state m by (auto simp: reported_def)
  qed
  then show ?thesis
    using False st by (cases pane) (auto simp: derivePaneStatus_def q paneAgentStatus_def Let_def)
qed simp

text \<open>Two agents in one tab, the second one asking.\<close>

lemma pane_reads_most_urgent_witness:
  "let working = \<lparr>se_key = ''claude_code_1'', se_value = ''Running'', se_timestamp = 5, se_paneID = Some ''t'', se_turnStart = None, se_endedAt = None\<rparr>;
       asking = \<lparr>se_key = ''codex_1'', se_value = ''Waiting'', se_timestamp = 7, se_paneID = Some ''t'', se_turnStart = None, se_endedAt = None\<rparr>
   in paneAgentStatus (Some (derivePaneStatus (Some [working, asking]) 9 [])) (Some ''t'') =
        Some \<lparr>pa_state = NeedsYou, pa_since = Some 7, pa_until = None\<rparr>"
  unfolding Let_def using pane_reads_most_urgent [of _ 9 "[]" "''t''"]
  by (simp add: Let_def most_urgent_def reported_def urgency_def RANK_def status_names agentStatusOf_def STATE_def stampOf_def)

end
