(* ===== verification/SendLater.thy ===== *)
theory SendLater
  imports AgentStatus JsSort
begin

text \<open>
  Prompts to be sent later: the mirror of the backend's list that every window keeps
  (\<open>store/sendLater.ts\<close>), whether a due prompt can go into its terminal (\<open>sendLater/readiness.ts\<close>)
  and the drafts a closed terminal's prompts become (\<open>sendLater/closeout.ts\<close>). A store is a record, a
  snapshot that is not one is \<open>None\<close>, and \<open>Infinity\<close> is \<open>None\<close> where the code uses it for a time.
\<close>

section \<open>Prompts\<close>

datatype prompt_state = Scheduled | Due | Missed

datatype prompt_kind = KindTime | KindLimit | KindDone

record prompt =
  sp_id :: string
  sp_projectName :: string
  sp_historyKey :: string
  sp_terminalLabel :: string
  sp_agent :: string
  sp_text :: string
  sp_images :: "(string \<times> string) list"
  sp_dueAt :: millis
  sp_createdAt :: millis
  sp_state :: prompt_state
  sp_kind :: prompt_kind
  sp_force :: bool

definition isWhenDone :: "prompt \<Rightarrow> bool" where
  "isWhenDone item = (sp_kind item = KindDone)"

record snapshot =
  sn_rev :: int
  sn_sender :: bool
  sn_items :: "prompt list"

datatype hold = HoldBusy | HoldAsking | HoldStarting | HoldAway | HoldProblem

record send_store =
  st_items :: "prompt list"
  st_loaded :: bool
  st_sender :: bool
  st_rev :: int
  st_holds :: "string \<Rightarrow> hold option"

definition no_prompts :: send_store where
  "no_prompts = \<lparr>st_items = [], st_loaded = False, st_sender = False, st_rev = -1, st_holds = Map.empty\<rparr>"

text \<open>The times are finite, so their difference orders them.\<close>

definition byDue :: "prompt \<Rightarrow> prompt \<Rightarrow> int" where
  "byDue a b = (if sp_dueAt a < sp_dueAt b then -1 else if sp_dueAt b < sp_dueAt a then 1 else 0)"

definition applySnapshot :: "snapshot option \<Rightarrow> send_store \<Rightarrow> send_store" where
  "applySnapshot snap s = (case snap of
     None \<Rightarrow> s
   | Some sn \<Rightarrow> if sn_rev sn \<le> st_rev s then s
       else let items = sort_by byDue (sn_items sn)
            in \<lparr>st_items = items, st_loaded = True, st_sender = sn_sender sn, st_rev = sn_rev sn,
                st_holds = st_holds s |` (sp_id ` set items)\<rparr>)"

definition setHold :: "string \<Rightarrow> hold option \<Rightarrow> send_store \<Rightarrow> send_store" where
  "setHold i h s = (if st_holds s i = h then s else s\<lparr>st_holds := (st_holds s)(i := h)\<rparr>)"

lemma setHold_simps [simp]:
  "st_items (setHold i h s) = st_items s" "st_sender (setHold i h s) = st_sender s" "st_rev (setHold i h s) = st_rev s"
  "st_loaded (setHold i h s) = st_loaded s" "st_holds (setHold i h s) = (st_holds s)(i := h)"
  by (auto simp: setHold_def)

definition rememberEditedTime :: "string \<Rightarrow> millis \<Rightarrow> (string \<Rightarrow> millis option) \<Rightarrow> string \<Rightarrow> millis option" where
  "rememberEditedTime historyKey dueAt editedTimes = editedTimes(historyKey \<mapsto> dueAt)"

definition takeEditedTime :: "string \<Rightarrow> (string \<Rightarrow> millis option) \<Rightarrow> millis option \<times> (string \<Rightarrow> millis option)" where
  "takeEditedTime historyKey editedTimes = (editedTimes historyKey, editedTimes(historyKey := None))"

definition current_prompt :: "send_store \<Rightarrow> string \<Rightarrow> prompt option" where
  "current_prompt s i = List.find (\<lambda>p. sp_id p = i) (st_items s)"

lemma current_prompt_in: "current_prompt s i = Some p \<Longrightarrow> p \<in> set (st_items s) \<and> sp_id p = i"
  by (auto simp: current_prompt_def find_Some_iff)

section \<open>Readiness\<close>

definition SENT_SETTLE_MS :: millis where "SENT_SETTLE_MS = 20000"
definition STALE_WORKING_MS :: millis where "STALE_WORKING_MS = 2 * 60000"
definition SETTLED_QUIET_MS :: millis where "SETTLED_QUIET_MS = 1500"
definition SWITCH_RETRY_MS :: millis where "SWITCH_RETRY_MS = 2000"
definition STARTING_RETRY_MS :: millis where "STARTING_RETRY_MS = 5000"
definition OCCUPIED_RETRY_MS :: millis where "OCCUPIED_RETRY_MS = 10000"

lemmas readiness_times = SENT_SETTLE_MS_def STALE_WORKING_MS_def SETTLED_QUIET_MS_def SWITCH_RETRY_MS_def
  STARTING_RETRY_MS_def OCCUPIED_RETRY_MS_def

datatype foreground = ShellForeground | ProgramForeground | UnknownForeground

record readiness_input =
  ri_now :: millis
  ri_force :: bool
  ri_forAgent :: bool
  ri_foreground :: foreground
  ri_agent :: "agent_state option"
  ri_quietMs :: "millis option"
  ri_switchingModel :: bool
  ri_lastSentAt :: "millis option"
  ri_stoppedOnProblem :: bool

datatype readiness_verdict = ReadyNow | HeldBack hold "millis option"

text \<open>\<open>quietMs < ms\<close>, where a terminal without output has been quiet for ever.\<close>

definition quiet_less :: "millis option \<Rightarrow> millis \<Rightarrow> bool" where
  "quiet_less q ms = (case q of None \<Rightarrow> False | Some t \<Rightarrow> t < ms)"

definition readiness :: "readiness_input \<Rightarrow> readiness_verdict" where
  "readiness i =
     (let now = ri_now i in
      if ri_switchingModel i then HeldBack HoldBusy (Some (now + SWITCH_RETRY_MS))
      else if ri_forAgent i \<and> ri_foreground i = ShellForeground then HeldBack HoldStarting (Some (now + STARTING_RETRY_MS))
      else if ri_agent i = Some NeedsYou then HeldBack HoldAsking None
      else if ri_forAgent i \<and> ri_agent i \<noteq> Some Working \<and> quiet_less (ri_quietMs i) SETTLED_QUIET_MS then
        HeldBack HoldStarting (Some (now + (SETTLED_QUIET_MS - the (ri_quietMs i))))
      else if ri_force i then ReadyNow
      else if ri_stoppedOnProblem i then HeldBack HoldProblem None
      else if \<not> ri_forAgent i \<and> ri_foreground i = ProgramForeground then HeldBack HoldBusy (Some (now + OCCUPIED_RETRY_MS))
      else if (case ri_lastSentAt i of None \<Rightarrow> False | Some at_sent \<Rightarrow> now - at_sent < SENT_SETTLE_MS) then
        HeldBack HoldBusy (Some (the (ri_lastSentAt i) + SENT_SETTLE_MS))
      else if ri_agent i = Some Working then
        if \<not> quiet_less (ri_quietMs i) STALE_WORKING_MS then ReadyNow
        else HeldBack HoldBusy (Some (now + (STALE_WORKING_MS - the (ri_quietMs i))))
      else ReadyNow)"

definition stoppedOnProblem :: "prompt \<Rightarrow> pane_agent_status option \<Rightarrow> bool" where
  "stoppedOnProblem item agent =
     (isWhenDone item \<and> map_option pa_state agent = Some ErrorState \<and>
      sp_createdAt item < (case Option.bind agent pa_since of None \<Rightarrow> 0 | Some t \<Rightarrow> t))"

definition foregroundKind :: "string \<Rightarrow> foreground" where
  "foregroundKind command =
     (if trim command = [] then UnknownForeground else if isShellAtPrompt command then ShellForeground else ProgramForeground)"

section \<open>Closed terminals\<close>

text \<open>What comes of keeping one prompt: writing the draft fails, taking it off the schedule does, or
  neither. The state is the drafts written and the prompts taken off, in order.\<close>

datatype keep_outcome = DraftFails | RemovalFails | AllWell

record drafts_state =
  ds_drafts :: "prompt list"
  ds_removed :: "string list"

definition keepAsDraft :: "keep_outcome \<Rightarrow> prompt \<Rightarrow> drafts_state \<Rightarrow> bool \<times> drafts_state" where
  "keepAsDraft outcome item s = (case outcome of
     DraftFails \<Rightarrow> (False, s)
   | RemovalFails \<Rightarrow> (False, s\<lparr>ds_drafts := ds_drafts s @ [item]\<rparr>)
   | AllWell \<Rightarrow> (True, s\<lparr>ds_drafts := ds_drafts s @ [item], ds_removed := ds_removed s @ [sp_id item]\<rparr>))"

fun keepAllAsDrafts :: "(prompt \<times> keep_outcome) list \<Rightarrow> nat \<Rightarrow> drafts_state \<Rightarrow> nat \<times> drafts_state" where
  "keepAllAsDrafts [] kept s = (kept, s)"
| "keepAllAsDrafts ((item, outcome) # items) kept s =
     (let (ok, s') = keepAsDraft outcome item s in keepAllAsDrafts items (if ok then kept + 1 else kept) s')"

text \<open>The prompts that a closed terminal, or a removed project, takes with it.\<close>

definition doomed_by_close :: "send_store \<Rightarrow> string \<Rightarrow> string option list \<Rightarrow> prompt list" where
  "doomed_by_close s projectName historyKeys =
     filter (\<lambda>i. sp_projectName i = projectName \<and> (\<exists>k\<in>set historyKeys. keep_truthy k = Some (sp_historyKey i))) (st_items s)"

definition doomed_by_removal :: "send_store \<Rightarrow> string list \<Rightarrow> prompt list" where
  "doomed_by_removal s names = filter (\<lambda>i. sp_projectName i \<in> set names) (st_items s)"

section \<open>Snapshots in any order\<close>

lemma applySnapshot_rev: "st_rev s \<le> st_rev (applySnapshot snap s)"
  by (auto simp: applySnapshot_def Let_def split: option.splits)

definition shows_snapshot :: "snapshot \<Rightarrow> send_store \<Rightarrow> bool" where
  "shows_snapshot sn s \<longleftrightarrow> st_rev s = sn_rev sn \<and> st_items s = sort_by byDue (sn_items sn) \<and> st_sender s = sn_sender sn \<and> st_loaded s"

lemma applySnapshot_newest:
  assumes "\<And>sn. sn \<in> set snaps \<Longrightarrow> sn_rev sn \<le> sn_rev newest"
    and "\<And>sn. sn \<in> set snaps \<Longrightarrow> sn_rev sn = sn_rev newest \<Longrightarrow> sn = newest"
    and "shows_snapshot newest s \<or> (st_rev s < sn_rev newest \<and> newest \<in> set snaps)"
  shows "shows_snapshot newest (fold applySnapshot (map Some snaps) s)"
  using assms
proof (induction snaps arbitrary: s)
  case (Cons sn snaps)
  have le: "sn_rev sn \<le> sn_rev newest" by (simp add: Cons.prems(1))
  have same: "sn_rev sn = sn_rev newest \<Longrightarrow> sn = newest" by (simp add: Cons.prems(2))
  have "shows_snapshot newest (applySnapshot (Some sn) s) \<or>
      (st_rev (applySnapshot (Some sn) s) < sn_rev newest \<and> newest \<in> set snaps)"
  proof (cases "sn_rev sn = sn_rev newest")
    case True
    then show ?thesis using same Cons.prems(3) by (auto simp: shows_snapshot_def applySnapshot_def Let_def)
  next
    case False
    then have "sn_rev sn < sn_rev newest" "sn \<noteq> newest" using le by auto
    then show ?thesis using Cons.prems(3) by (auto simp: shows_snapshot_def applySnapshot_def Let_def)
  qed
  then show ?case using Cons.IH [of "applySnapshot (Some sn) s"] Cons.prems(1,2) by simp
qed auto

text \<open>However the snapshots of the list race, each window ends up with the newest. Applied
  in any order, with stale and repeated ones among them, they leave the store with the items of the
  one with the highest revision, sorted by when they are due, and with its sender.\<close>

theorem snapshots_any_order:
  assumes "newest \<in> set snaps" and "st_rev s < sn_rev newest"
    and "\<And>sn. sn \<in> set snaps \<Longrightarrow> sn_rev sn < sn_rev newest \<or> sn = newest"
  shows "shows_snapshot newest (fold applySnapshot (map Some snaps) s)"
proof (rule applySnapshot_newest)
  show "sn_rev sn \<le> sn_rev newest" if "sn \<in> set snaps" for sn using assms(3) [OF that] by auto
  show "sn = newest" if "sn \<in> set snaps" "sn_rev sn = sn_rev newest" for sn using assms(3) [OF that(1)] that(2) by simp
  show "shows_snapshot newest s \<or> (st_rev s < sn_rev newest \<and> newest \<in> set snaps)" using assms(1,2) by simp
qed

text \<open>The first list, fetched while a change event came in, arrives after it.\<close>

lemma snapshots_any_order_witness:
  "let fetched = \<lparr>sn_rev = 0, sn_sender = False, sn_items = []\<rparr>; changed = \<lparr>sn_rev = 1, sn_sender = True, sn_items = []\<rparr>
   in shows_snapshot changed (fold applySnapshot (map Some [changed, fetched]) no_prompts)"
  unfolding Let_def by (rule snapshots_any_order) (auto simp: no_prompts_def)

section \<open>When to look again\<close>

text \<open>The same terminal, untouched, a while later.\<close>

definition later :: "millis \<Rightarrow> readiness_input \<Rightarrow> readiness_input" where
  "later d i = i\<lparr>ri_now := ri_now i + d, ri_quietMs := map_option ((+) d) (ri_quietMs i)\<rparr>"

text \<open>Property C36: a held prompt is looked at again at the right time. The time a verdict names is
  ahead, at most two minutes, and exact: unless it is for something only asking again can tell (a
  model switch, a shell waiting for its agent, a program in the way), the verdict of an untouched
  terminal stays the same up to that time and another one holds from then on.\<close>

theorem readiness_retry:
  assumes "readiness i = HeldBack h (Some again)"
    and "\<And>q. ri_quietMs i = Some q \<Longrightarrow> 0 \<le> q" and "\<And>t. ri_lastSentAt i = Some t \<Longrightarrow> t \<le> ri_now i"
  shows "ri_now i < again \<and> again \<le> ri_now i + STALE_WORKING_MS \<and>
    (\<not> ri_switchingModel i \<and> \<not> (ri_forAgent i \<and> ri_foreground i = ShellForeground) \<and>
     \<not> (\<not> ri_forAgent i \<and> ri_foreground i = ProgramForeground) \<longrightarrow>
       (\<forall>d\<ge>0. readiness (later d i) = HeldBack h (Some again) \<longleftrightarrow> ri_now i + d < again))"
proof -
  have "ri_now i < again \<and> again \<le> ri_now i + STALE_WORKING_MS"
    using assms by (cases "ri_quietMs i"; cases "ri_lastSentAt i")
      (auto simp: readiness_def Let_def quiet_less_def readiness_times split: if_splits)
  moreover have "readiness (later d i) = HeldBack h (Some again) \<longleftrightarrow> ri_now i + d < again"
    if "\<not> ri_switchingModel i" "\<not> (ri_forAgent i \<and> ri_foreground i = ShellForeground)"
      "\<not> (\<not> ri_forAgent i \<and> ri_foreground i = ProgramForeground)" "0 \<le> d" for d
    using assms that by (cases "ri_quietMs i"; cases "ri_lastSentAt i")
      (auto simp: readiness_def later_def Let_def quiet_less_def readiness_times split: if_splits)
  ultimately show ?thesis by blast
qed

text \<open>An agent that works, silent for half a minute.\<close>

lemma readiness_retry_witness:
  "let i = \<lparr>ri_now = 1000000, ri_force = False, ri_forAgent = True, ri_foreground = ProgramForeground, ri_agent = Some Working,
      ri_quietMs = Some 30000, ri_switchingModel = False, ri_lastSentAt = None, ri_stoppedOnProblem = False\<rparr>
   in readiness (later 60000 i) = HeldBack HoldBusy (Some 1090000) \<and> readiness (later 90000 i) \<noteq> HeldBack HoldBusy (Some 1090000)"
proof -
  let ?i = "\<lparr>ri_now = 1000000, ri_force = False, ri_forAgent = True, ri_foreground = ProgramForeground, ri_agent = Some Working,
      ri_quietMs = Some 30000, ri_switchingModel = False, ri_lastSentAt = None, ri_stoppedOnProblem = False\<rparr>"
  have "readiness ?i = HeldBack HoldBusy (Some 1090000)" by (simp add: readiness_def quiet_less_def readiness_times)
  from readiness_retry [OF this] show ?thesis by (simp add: Let_def)
qed

end
