(* ===== verification/SendRunner.thy ===== *)
theory SendRunner
  imports SendLater
begin

text \<open>
  The runner that types due prompts into their terminals (\<open>sendLater/runner.ts\<close>) and the check for
  terminals that closed unreported (\<open>sendLater/reconcile.ts\<close>). Its maps, the store and its timer are
  one record; the promises it waits for are the attempts in \<open>sr_pending\<close>, each with what it closed
  over. An event is what can happen next: a microtask, the timer, a snapshot of the list, or a promise
  of an attempt that settles. What the runner asks others to do is logged: prompts typed, removals,
  projects opened, prompts filed as drafts, missed ones announced. What it reads of the rest of the
  app at an event is a \<open>world\<close>. The second try of a removal, five seconds after a failed one, is not
  modelled.
\<close>

section \<open>State\<close>

definition RETRY_MS :: millis where "RETRY_MS = 3000"
definition RETRY_CAP_MS :: millis where "RETRY_CAP_MS = 5 * 60000"
definition AWAY_AFTER_FAILURES :: nat where "AWAY_AFTER_FAILURES = 3"
definition GONE_CONFIRM_MS :: millis where "GONE_CONFIRM_MS = 3000"
definition GLOBAL_TERMINALS_KEY :: string where "GLOBAL_TERMINALS_KEY = ''__global__''"

record terminal_target =
  tt_id :: string
  tt_label :: string
  tt_historyKey :: string

text \<open>The clock, the performance clock and the time of a terminal's last output on it (0 for none);
  the terminals of mounted projects, the status entries of a project, the terminals switching their
  model, and the keys of a project's saved tabs and of those an undo can bring back.\<close>

record world =
  w_now :: millis
  w_perf :: millis
  w_outputAt :: "string \<Rightarrow> millis"
  w_targets :: "string \<Rightarrow> terminal_target list option"
  w_entries :: "string \<Rightarrow> status_entry list option"
  w_switching :: "string \<Rightarrow> bool"
  w_savedKeys :: "string \<Rightarrow> string option list"
  w_closingKeys :: "string \<Rightarrow> string option list"

datatype attempt =
    AwaitForeground (at_item: prompt) (at_target: terminal_target)
  | AwaitPayload (at_item: prompt) (at_due: prompt) (at_target: terminal_target)

type_synonym payload = "string list"

record send_runner =
  sr_store :: send_store
  sr_inFlight :: "string set"
  sr_busy :: "string set"
  sr_sent :: "string set"
  sr_lastSent :: "string \<Rightarrow> millis option"
  sr_retryAfter :: "string \<Rightarrow> millis option"
  sr_held :: "string \<Rightarrow> (millis option \<times> agent_state option) option"
  sr_failures :: "string \<Rightarrow> nat option"
  sr_goneSince :: "string \<Rightarrow> millis option"
  sr_timer :: "millis option"
  sr_queued :: bool
  sr_greeted :: bool
  sr_pending :: "attempt list"
  sr_announced :: "string set"
  sr_typed :: "(prompt \<times> terminal_target \<times> payload) list"
  sr_removals :: "string list"
  sr_visited :: "string list"
  sr_filed :: "prompt list list"
  sr_told :: "prompt list list"

section \<open>Readings\<close>

definition findTarget :: "world \<Rightarrow> prompt \<Rightarrow> terminal_target option" where
  "findTarget w item = Option.bind (w_targets w (sp_projectName item)) (List.find (\<lambda>t. tt_historyKey t = sp_historyKey item))"

definition paneAgentOf :: "world \<Rightarrow> string \<Rightarrow> string \<Rightarrow> pane_agent_status option" where
  "paneAgentOf w projectName terminalId =
     paneAgentStatus (Some (derivePaneStatus (w_entries w projectName) (w_now w) [])) (Some terminalId)"

definition agent_state_at :: "world \<Rightarrow> string \<Rightarrow> string \<Rightarrow> agent_state option" where
  "agent_state_at w projectName terminalId = map_option pa_state (paneAgentOf w projectName terminalId)"

text \<open>The earlier of two times, either of which may be never.\<close>

definition sooner :: "millis option \<Rightarrow> millis option \<Rightarrow> millis option" where
  "sooner a b = (case (a, b) of (None, _) \<Rightarrow> b | (_, None) \<Rightarrow> a | (Some x, Some y) \<Rightarrow> Some (min x y))"

section \<open>Closed tabs\<close>

definition tab_gone :: "world \<Rightarrow> prompt \<Rightarrow> bool" where
  "tab_gone w item =
     (case w_targets w (sp_projectName item) of
        None \<Rightarrow> False
      | Some targets \<Rightarrow> \<not> (\<exists>t\<in>set targets. tt_historyKey t = sp_historyKey item) \<and>
          Some (sp_historyKey item) \<notin> set (w_savedKeys w (sp_projectName item)) \<and>
          Some (sp_historyKey item) \<notin> set (w_closingKeys w (sp_projectName item)))"

definition onTerminalsClosed :: "string \<Rightarrow> string option list \<Rightarrow> send_runner \<Rightarrow> send_runner" where
  "onTerminalsClosed projectName historyKeys s =
     (let doomed = doomed_by_close (sr_store s) projectName historyKeys
      in if doomed = [] then s else s\<lparr>sr_filed := sr_filed s @ [doomed]\<rparr>)"

definition reconcile_item :: "world \<Rightarrow> millis \<Rightarrow> prompt \<Rightarrow> send_runner \<times> millis option \<Rightarrow> send_runner \<times> millis option" where
  "reconcile_item w now item st =
     (let (s, recheck) = st; gone = sr_goneSince s in
      if \<not> tab_gone w item then (s\<lparr>sr_goneSince := gone(sp_id item := None)\<rparr>, recheck)
      else let since = (case gone (sp_id item) of None \<Rightarrow> now | Some t \<Rightarrow> t) in
        if GONE_CONFIRM_MS \<le> now - since then
          (onTerminalsClosed (sp_projectName item) [Some (sp_historyKey item)] (s\<lparr>sr_goneSince := gone(sp_id item := None)\<rparr>), recheck)
        else (s\<lparr>sr_goneSince := gone(sp_id item \<mapsto> since)\<rparr>, sooner recheck (Some (since + GONE_CONFIRM_MS))))"

definition reconcile_closed :: "world \<Rightarrow> prompt list \<Rightarrow> send_runner \<Rightarrow> send_runner \<times> millis option" where
  "reconcile_closed w items s =
     fold (reconcile_item w (w_now w)) items (s\<lparr>sr_goneSince := sr_goneSince s |` (sp_id ` set items)\<rparr>, None)"

section \<open>Attempts\<close>

definition hold_store :: "string \<Rightarrow> hold option \<Rightarrow> send_runner \<Rightarrow> send_runner" where
  "hold_store i h s = s\<lparr>sr_store := setHold i h (sr_store s)\<rparr>"

definition refused :: "world \<Rightarrow> string \<Rightarrow> send_runner \<Rightarrow> send_runner" where
  "refused w i s =
     (let n = (case sr_failures s i of None \<Rightarrow> 0 | Some n \<Rightarrow> n) + 1;
          s = s\<lparr>sr_failures := (sr_failures s)(i \<mapsto> n),
            sr_retryAfter := (sr_retryAfter s)(i \<mapsto> w_now w + min (RETRY_MS * 2 ^ (n - 1)) RETRY_CAP_MS)\<rparr>
      in if AWAY_AFTER_FAILURES \<le> n then hold_store i (Some HoldAway) s else s)"

definition dropSent :: "string \<Rightarrow> send_runner \<Rightarrow> send_runner" where
  "dropSent i s = s\<lparr>sr_removals := sr_removals s @ [i]\<rparr>"

text \<open>Up to its first \<open>await\<close>, and its \<open>finally\<close>.\<close>

definition start_attempt :: "prompt \<Rightarrow> terminal_target \<Rightarrow> send_runner \<Rightarrow> send_runner" where
  "start_attempt item target s =
     s\<lparr>sr_inFlight := insert (sp_id item) (sr_inFlight s), sr_busy := insert (sp_historyKey item) (sr_busy s),
       sr_pending := sr_pending s @ [AwaitForeground item target]\<rparr>"

definition end_attempt :: "prompt \<Rightarrow> send_runner \<Rightarrow> send_runner" where
  "end_attempt item s =
     s\<lparr>sr_inFlight := sr_inFlight s - {sp_id item}, sr_busy := sr_busy s - {sp_historyKey item}, sr_queued := True\<rparr>"

definition attempt_verdict :: "world \<Rightarrow> send_runner \<Rightarrow> prompt \<Rightarrow> terminal_target \<Rightarrow> string \<Rightarrow> readiness_verdict" where
  "attempt_verdict w s due target command =
     (let agent = paneAgentOf w (sp_projectName due) (tt_id target); outputAt = w_outputAt w (tt_id target)
      in readiness \<lparr>ri_now = w_now w, ri_force = sp_force due, ri_forAgent = (sp_agent due \<noteq> []),
           ri_foreground = foregroundKind command, ri_agent = map_option pa_state agent,
           ri_quietMs = (if 0 < outputAt then Some (w_perf w - outputAt) else None),
           ri_switchingModel = w_switching w (tt_id target), ri_lastSentAt = sr_lastSent s (sp_historyKey due),
           ri_stoppedOnProblem = stoppedOnProblem due agent\<rparr>)"

text \<open>The rest of \<open>attempt\<close> once the foreground command is known. It ends, or waits for the payload.\<close>

definition after_foreground :: "world \<Rightarrow> prompt \<Rightarrow> terminal_target \<Rightarrow> string \<Rightarrow> send_runner \<Rightarrow> send_runner" where
  "after_foreground w item target command s =
     (case current_prompt (sr_store s) (sp_id item) of
        None \<Rightarrow> end_attempt item s
      | Some due \<Rightarrow>
          if sp_state due \<noteq> Due then end_attempt item s
          else case attempt_verdict w s due target command of
            HeldBack h retryAt \<Rightarrow>
              end_attempt item ((hold_store (sp_id due) (Some h) s)
                \<lparr>sr_held := (sr_held s)(sp_id due \<mapsto> (retryAt, agent_state_at w (sp_projectName due) (tt_id target)))\<rparr>)
          | ReadyNow \<Rightarrow> s\<lparr>sr_pending := sr_pending s @ [AwaitPayload item due target]\<rparr>)"

text \<open>How the terminal takes the prompt, and whether recording and announcing it went through.\<close>

datatype send_outcome = Refuses | Throws | Takes bool

definition after_payload :: "world \<Rightarrow> prompt \<Rightarrow> terminal_target \<Rightarrow> payload option \<Rightarrow> send_outcome \<Rightarrow> send_runner \<Rightarrow> send_runner" where
  "after_payload w item target payload outcome s =
     (case payload of
        None \<Rightarrow> end_attempt item (refused w (sp_id item) s)
      | Some input \<Rightarrow>
          (case current_prompt (sr_store s) (sp_id item) of
             None \<Rightarrow> end_attempt item s
           | Some still \<Rightarrow>
               if sp_state still \<noteq> Due then end_attempt item s
               else case outcome of
                 Throws \<Rightarrow> end_attempt item (refused w (sp_id item) s)
               | Refuses \<Rightarrow> end_attempt item (refused w (sp_id still) s)
               | Takes recorded \<Rightarrow>
                   (let s = s\<lparr>sr_typed := sr_typed s @ [(still, target, input)], sr_sent := insert (sp_id still) (sr_sent s),
                          sr_failures := (sr_failures s)(sp_id still := None)\<rparr>;
                        s = hold_store (sp_id still) None s;
                        s = s\<lparr>sr_lastSent := (sr_lastSent s)(sp_historyKey still \<mapsto> w_now w)\<rparr>
                    in if recorded then end_attempt item (dropSent (sp_id still) s)
                       else end_attempt item (refused w (sp_id item) s))))"

section \<open>The pump\<close>

definition arm :: "world \<Rightarrow> millis option \<Rightarrow> send_runner \<Rightarrow> send_runner" where
  "arm w at_time s = s\<lparr>sr_timer := map_option (\<lambda>t. w_now w + max 250 (t - w_now w)) at_time\<rparr>"

text \<open>A prompt whose terminal is free and whose pause is over: it starts, unless its terminal is missing
  or it is held.\<close>

definition pump_try :: "world \<Rightarrow> prompt \<Rightarrow> send_runner \<Rightarrow> millis option \<Rightarrow> send_runner \<times> millis option" where
  "pump_try w item s soonest =
     (let i = sp_id item in
      case findTarget w item of
        None \<Rightarrow>
          (hold_store i (Some HoldAway)
            (if sp_force item \<and> sp_projectName item \<noteq> GLOBAL_TERMINALS_KEY then s\<lparr>sr_visited := sr_visited s @ [sp_projectName item]\<rparr> else s),
           soonest)
      | Some target \<Rightarrow>
          case sr_held s i of
            None \<Rightarrow> (start_attempt item target s, soonest)
          | Some (until, agentState) \<Rightarrow>
              if (case until of None \<Rightarrow> True | Some u \<Rightarrow> w_now w < u) \<and>
                 agentState = agent_state_at w (sp_projectName item) (tt_id target)
              then (s, sooner soonest until)
              else (start_attempt item target (s\<lparr>sr_held := (sr_held s)(i := None)\<rparr>), soonest))"

definition passed_over :: "send_runner \<Rightarrow> prompt \<Rightarrow> bool" where
  "passed_over s item =
     (sp_state item \<noteq> Due \<or> sp_id item \<in> sr_sent s \<or> sp_id item \<in> sr_inFlight s \<or> sp_historyKey item \<in> sr_busy s)"

definition pump_item :: "world \<Rightarrow> prompt \<Rightarrow> send_runner \<times> millis option \<Rightarrow> send_runner \<times> millis option" where
  "pump_item w item st =
     (let (s, soonest) = st; i = sp_id item in
      if passed_over s item then (s, soonest)
      else if (case sr_retryAfter s i of None \<Rightarrow> False | Some retry \<Rightarrow> w_now w < retry) then (s, sooner soonest (sr_retryAfter s i))
      else pump_try w item (s\<lparr>sr_retryAfter := (sr_retryAfter s)(i := None)\<rparr>) soonest)"

definition pump :: "world \<Rightarrow> send_runner \<Rightarrow> send_runner" where
  "pump w s =
     (if \<not> st_sender (sr_store s) then arm w None s
      else let items = st_items (sr_store s);
               s = s\<lparr>sr_sent := sr_sent s \<inter> sp_id ` set items\<rparr>;
               (s, soonest) = fold (pump_item w) items (reconcile_closed w items s)
           in arm w soonest s)"

section \<open>Events\<close>

definition announceMissed :: "prompt list \<Rightarrow> send_runner \<Rightarrow> send_runner" where
  "announceMissed items s =
     (let missed = filter (\<lambda>i. sp_state i = Missed) items;
          fresh = filter (\<lambda>i. sp_id i \<notin> sr_announced s) missed;
          s = s\<lparr>sr_announced := sp_id ` set missed\<rparr>
      in if fresh = [] then s else s\<lparr>sr_told := sr_told s @ [fresh]\<rparr>)"

definition greet :: "send_runner \<Rightarrow> send_runner" where
  "greet s = (if sr_greeted s \<or> \<not> st_loaded (sr_store s) then s
     else announceMissed (st_items (sr_store s)) (s\<lparr>sr_greeted := True\<rparr>))"

text \<open>The listener of the list's store, given the items it held before.\<close>

definition on_list_changed :: "prompt list \<Rightarrow> send_runner \<Rightarrow> send_runner" where
  "on_list_changed prev s =
     (let items = st_items (sr_store s);
          s = (if \<not> sr_greeted s then greet s
               else if \<exists>i\<in>set items. sp_state i = Missed \<and>
                    map_option sp_state (List.find (\<lambda>p. sp_id p = sp_id i) prev) = Some Scheduled
               then announceMissed items s else s)
      in s\<lparr>sr_held := Map.empty, sr_queued := True\<rparr>)"

definition arrived :: "snapshot option \<Rightarrow> send_runner \<Rightarrow> send_runner" where
  "arrived snap s =
     (let store = applySnapshot snap (sr_store s)
      in if st_rev store = st_rev (sr_store s) then s
         else on_list_changed (st_items (sr_store s)) (s\<lparr>sr_store := store\<rparr>))"

datatype runner_event =
    SomethingChanged
  | Microtask
  | Timer
  | Arrived "snapshot option"
  | Foreground nat string
  | PayloadBuilt nat "payload option" send_outcome

definition without_nth :: "nat \<Rightarrow> 'a list \<Rightarrow> 'a list" where
  "without_nth n xs = take n xs @ drop (Suc n) xs"

definition runner_step :: "send_runner \<Rightarrow> world \<times> runner_event \<Rightarrow> send_runner" where
  "runner_step s we =
     (let (w, e) = we in
      case e of
        SomethingChanged \<Rightarrow> s\<lparr>sr_queued := True\<rparr>
      | Microtask \<Rightarrow> if sr_queued s then pump w (s\<lparr>sr_queued := False\<rparr>) else s
      | Timer \<Rightarrow> (case sr_timer s of None \<Rightarrow> s | Some t \<Rightarrow> if t \<le> w_now w then pump w (s\<lparr>sr_timer := None\<rparr>) else s)
      | Arrived snap \<Rightarrow> arrived snap s
      | Foreground n command \<Rightarrow>
          if n < length (sr_pending s) then case sr_pending s ! n of
            AwaitForeground item target \<Rightarrow> after_foreground w item target command (s\<lparr>sr_pending := without_nth n (sr_pending s)\<rparr>)
          | _ \<Rightarrow> s
          else s
      | PayloadBuilt n payload outcome \<Rightarrow>
          if n < length (sr_pending s) then case sr_pending s ! n of
            AwaitPayload item due target \<Rightarrow> after_payload w item target payload outcome (s\<lparr>sr_pending := without_nth n (sr_pending s)\<rparr>)
          | _ \<Rightarrow> s
          else s)"

definition startSendLaterRunner :: "send_store \<Rightarrow> string set \<Rightarrow> send_runner" where
  "startSendLaterRunner store announced =
     (greet \<lparr>sr_store = store, sr_inFlight = {}, sr_busy = {}, sr_sent = {}, sr_lastSent = Map.empty, sr_retryAfter = Map.empty,
        sr_held = Map.empty, sr_failures = Map.empty, sr_goneSince = Map.empty, sr_timer = None, sr_queued = False,
        sr_greeted = False, sr_pending = [], sr_announced = announced, sr_typed = [], sr_removals = [], sr_visited = [],
        sr_filed = [], sr_told = []\<rparr>)\<lparr>sr_queued := True\<rparr>"

definition run_sender :: "send_runner \<Rightarrow> (world \<times> runner_event) list \<Rightarrow> send_runner" where
  "run_sender s es = foldl runner_step s es"

section \<open>What each step leaves alone\<close>

lemma hold_store_simps [simp]:
  "sr_pending (hold_store i h s) = sr_pending s" "sr_inFlight (hold_store i h s) = sr_inFlight s"
  "sr_busy (hold_store i h s) = sr_busy s" "sr_sent (hold_store i h s) = sr_sent s" "sr_typed (hold_store i h s) = sr_typed s"
  "sr_retryAfter (hold_store i h s) = sr_retryAfter s" "sr_held (hold_store i h s) = sr_held s"
  "st_items (sr_store (hold_store i h s)) = st_items (sr_store s)"
  by (simp_all add: hold_store_def)

lemma refused_simps [simp]:
  "sr_pending (refused w i s) = sr_pending s" "sr_inFlight (refused w i s) = sr_inFlight s"
  "sr_busy (refused w i s) = sr_busy s" "sr_sent (refused w i s) = sr_sent s" "sr_typed (refused w i s) = sr_typed s"
  by (simp_all add: refused_def Let_def)

lemma dropSent_simps [simp]:
  "sr_pending (dropSent i s) = sr_pending s" "sr_inFlight (dropSent i s) = sr_inFlight s"
  "sr_busy (dropSent i s) = sr_busy s" "sr_sent (dropSent i s) = sr_sent s" "sr_typed (dropSent i s) = sr_typed s"
  by (simp_all add: dropSent_def)

lemma arm_simps [simp]:
  "sr_pending (arm w t s) = sr_pending s" "sr_inFlight (arm w t s) = sr_inFlight s"
  "sr_busy (arm w t s) = sr_busy s" "sr_sent (arm w t s) = sr_sent s" "sr_typed (arm w t s) = sr_typed s"
  "sr_retryAfter (arm w t s) = sr_retryAfter s" "sr_held (arm w t s) = sr_held s" "sr_store (arm w t s) = sr_store s"
  by (simp_all add: arm_def)

text \<open>What the runner knows of its attempts, and what it has typed.\<close>

definition attempts_of :: "send_runner \<Rightarrow> string set \<times> string set \<times> string set \<times> attempt list \<times> (prompt \<times> terminal_target \<times> payload) list" where
  "attempts_of s = (sr_inFlight s, sr_busy s, sr_sent s, sr_pending s, sr_typed s)"

lemma onTerminalsClosed_attempts: "attempts_of (onTerminalsClosed p ks s) = attempts_of s"
  by (simp add: onTerminalsClosed_def Let_def attempts_of_def)

lemma onTerminalsClosed_store: "sr_store (onTerminalsClosed p ks s) = sr_store s"
  by (simp add: onTerminalsClosed_def Let_def)

lemma reconcile_item_attempts: "attempts_of (fst (reconcile_item w now item st)) = attempts_of (fst st)"
  using onTerminalsClosed_attempts
  by (cases st) (auto simp: reconcile_item_def Let_def attempts_of_def)

lemma reconcile_item_store: "sr_store (fst (reconcile_item w now item st)) = sr_store (fst st)"
  by (cases st) (auto simp: reconcile_item_def Let_def onTerminalsClosed_store)

lemma reconcile_closed_keeps:
  "attempts_of (fst (reconcile_closed w items s)) = attempts_of s" "sr_store (fst (reconcile_closed w items s)) = sr_store s"
proof -
  have "attempts_of (fst (fold (reconcile_item w now) is st)) = attempts_of (fst st) \<and>
      sr_store (fst (fold (reconcile_item w now) is st)) = sr_store (fst st)" for "is" now st
    by (induction "is" arbitrary: st) (simp_all add: reconcile_item_attempts reconcile_item_store)
  then show "attempts_of (fst (reconcile_closed w items s)) = attempts_of s" "sr_store (fst (reconcile_closed w items s)) = sr_store s"
    by (simp_all add: reconcile_closed_def attempts_of_def)
qed

lemma announceMissed_attempts: "attempts_of (announceMissed items s) = attempts_of s"
  by (simp add: announceMissed_def Let_def attempts_of_def)

lemma arrived_attempts: "attempts_of (arrived snap s) = attempts_of s"
proof -
  have "attempts_of (greet s) = attempts_of s" for s
    using announceMissed_attempts [of _ "s\<lparr>sr_greeted := True\<rparr>"] by (simp add: greet_def attempts_of_def)
  then have "attempts_of (on_list_changed prev s) = attempts_of s" for prev s
    using announceMissed_attempts [of "st_items (sr_store s)" s]
    by (simp add: on_list_changed_def Let_def attempts_of_def)
  then show ?thesis by (simp add: arrived_def Let_def attempts_of_def)
qed

section \<open>One attempt at a time\<close>

definition attempt_id :: "attempt \<Rightarrow> string" where
  "attempt_id a = sp_id (at_item a)"

definition attempt_key :: "attempt \<Rightarrow> string" where
  "attempt_key a = sp_historyKey (at_item a)"

lemma attempt_simps [simp]:
  "attempt_id (AwaitForeground item target) = sp_id item" "attempt_id (AwaitPayload item due target) = sp_id item"
  "attempt_key (AwaitForeground item target) = sp_historyKey item" "attempt_key (AwaitPayload item due target) = sp_historyKey item"
  by (simp_all add: attempt_id_def attempt_key_def)

text \<open>No prompt and no terminal has two attempts, the sets say which have one, and no prompt that was
  typed has any.\<close>

definition attempts_ok :: "attempt list \<Rightarrow> send_runner \<Rightarrow> bool" where
  "attempts_ok pending s \<longleftrightarrow>
     distinct (map attempt_id pending) \<and> set (map attempt_id pending) = sr_inFlight s \<and>
     distinct (map attempt_key pending) \<and> set (map attempt_key pending) = sr_busy s \<and>
     sr_inFlight s \<inter> sr_sent s = {}"

definition runner_ok :: "send_runner \<Rightarrow> bool" where
  "runner_ok s \<longleftrightarrow> attempts_ok (sr_pending s) s"

lemma attempts_ok_mset: "mset as = mset bs \<Longrightarrow> attempts_ok as s \<longleftrightarrow> attempts_ok bs s"
  unfolding attempts_ok_def by (metis mset_map mset_eq_imp_distinct_iff set_mset_mset)

lemma attempts_ok_cong:
  "attempts_of s = attempts_of s' \<Longrightarrow> attempts_ok as s \<longleftrightarrow> attempts_ok as s'"
  by (simp add: attempts_ok_def attempts_of_def)

lemma runner_ok_cong: "attempts_of s = attempts_of s' \<Longrightarrow> runner_ok s \<longleftrightarrow> runner_ok s'"
  by (simp add: runner_ok_def attempts_ok_def attempts_of_def)

lemma without_nth_mset: "n < length xs \<Longrightarrow> mset (xs ! n # without_nth n xs) = mset xs"
  unfolding without_nth_def by (subst (4) id_take_nth_drop [of n xs]) simp_all

lemma taken_ok:
  assumes "runner_ok s" and "n < length (sr_pending s)"
  shows "attempts_ok (sr_pending s ! n # without_nth n (sr_pending s)) s"
  using assms attempts_ok_mset [OF without_nth_mset [OF assms(2)]] by (simp add: runner_ok_def)

lemma end_attempt_ok:
  assumes "attempts_ok (a # sr_pending s) s" and "at_item a = item"
  shows "runner_ok (end_attempt item s)"
proof -
  have a: "attempt_id a = sp_id item" "attempt_key a = sp_historyKey item" using assms(2) by (simp_all add: attempt_id_def attempt_key_def)
  have "sr_inFlight s = insert (sp_id item) (set (map attempt_id (sr_pending s)))"
    "sr_busy s = insert (sp_historyKey item) (set (map attempt_key (sr_pending s)))"
    "sp_id item \<notin> set (map attempt_id (sr_pending s))" "sp_historyKey item \<notin> set (map attempt_key (sr_pending s))"
    using assms(1) unfolding attempts_ok_def by (simp_all add: a)
  then have "sr_inFlight s - {sp_id item} = set (map attempt_id (sr_pending s))"
    "sr_busy s - {sp_historyKey item} = set (map attempt_key (sr_pending s))" by simp_all
  moreover have "(sr_inFlight s - {sp_id item}) \<inter> sr_sent s = {}" using assms(1) unfolding attempts_ok_def by blast
  ultimately show ?thesis using assms(1) by (simp add: runner_ok_def attempts_ok_def end_attempt_def)
qed

lemma start_attempt_ok:
  assumes "runner_ok s" and "sp_id item \<notin> sr_inFlight s" "sp_id item \<notin> sr_sent s" "sp_historyKey item \<notin> sr_busy s"
  shows "runner_ok (start_attempt item target s)"
  using assms by (auto simp: runner_ok_def attempts_ok_def start_attempt_def)

text \<open>What a turn of the pump does to the attempts: nothing, or it starts one.\<close>

lemma pump_try_cases:
  "(attempts_of (fst (pump_try w item s soonest)) = attempts_of s \<and>
      st_items (sr_store (fst (pump_try w item s soonest))) = st_items (sr_store s)) \<or>
   (\<exists>target s'. fst (pump_try w item s soonest) = start_attempt item target s' \<and> attempts_of s' = attempts_of s \<and>
      st_items (sr_store s') = st_items (sr_store s))" (is "?same \<or> ?starts")
proof (cases "findTarget w item")
  case None
  then have ?same by (simp add: pump_try_def Let_def attempts_of_def)
  then show ?thesis ..
next
  case (Some target)
  show ?thesis
  proof (cases "sr_held s (sp_id item)")
    case None
    then have "fst (pump_try w item s soonest) = start_attempt item target s" using Some by (simp add: pump_try_def Let_def)
    then show ?thesis by blast
  next
    case (Some held)
    let ?s' = "s\<lparr>sr_held := (sr_held s)(sp_id item := None)\<rparr>"
    have "fst (pump_try w item s soonest) = s \<or> fst (pump_try w item s soonest) = start_attempt item target ?s'"
      using Some \<open>findTarget w item = Some target\<close> by (cases held) (simp add: pump_try_def Let_def)
    moreover have "attempts_of ?s' = attempts_of s" "st_items (sr_store ?s') = st_items (sr_store s)" by (simp_all add: attempts_of_def)
    ultimately show ?thesis by metis
  qed
qed

lemma pump_item_cases:
  "(attempts_of (fst (pump_item w item st)) = attempts_of (fst st) \<and>
      st_items (sr_store (fst (pump_item w item st))) = st_items (sr_store (fst st))) \<or>
   (\<exists>target s'. \<not> passed_over (fst st) item \<and> fst (pump_item w item st) = start_attempt item target s' \<and>
      attempts_of s' = attempts_of (fst st) \<and> st_items (sr_store s') = st_items (sr_store (fst st)))"
proof -
  let ?s = "(fst st)\<lparr>sr_retryAfter := (sr_retryAfter (fst st))(sp_id item := None)\<rparr>"
  have "fst (pump_item w item st) = fst st \<or>
      (\<not> passed_over (fst st) item \<and> fst (pump_item w item st) = fst (pump_try w item ?s (snd st)))"
    by (cases st) (simp add: pump_item_def Let_def)
  moreover have "attempts_of ?s = attempts_of (fst st)" "st_items (sr_store ?s) = st_items (sr_store (fst st))" by (simp_all add: attempts_of_def)
  ultimately show ?thesis using pump_try_cases [of w item ?s "snd st"] by metis
qed

lemma pump_item_ok:
  assumes "runner_ok (fst st)"
  shows "runner_ok (fst (pump_item w item st))"
  using pump_item_cases [of w item st]
proof (elim disjE exE conjE)
  fix target s'
  assume a: "\<not> passed_over (fst st) item" "fst (pump_item w item st) = start_attempt item target s'" "attempts_of s' = attempts_of (fst st)"
  have "sr_inFlight s' = sr_inFlight (fst st)" "sr_sent s' = sr_sent (fst st)" "sr_busy s' = sr_busy (fst st)"
    using a(3) by (simp_all add: attempts_of_def)
  then show ?thesis unfolding a(2)
    using assms runner_ok_cong [OF a(3)] a(1) by (intro start_attempt_ok) (simp_all add: passed_over_def)
qed (use assms runner_ok_cong in blast)

definition pump_kept :: "send_runner \<Rightarrow> send_runner \<Rightarrow> bool" where
  "pump_kept s s' \<longleftrightarrow> (runner_ok s \<longrightarrow> runner_ok s') \<and> sr_sent s' = sr_sent s \<and> sr_typed s' = sr_typed s \<and>
     st_items (sr_store s') = st_items (sr_store s) \<and> (\<forall>a\<in>set (sr_pending s'). a \<in> set (sr_pending s) \<or> is_AwaitForeground a)"

lemma pump_kept_refl: "pump_kept s s"
  by (simp add: pump_kept_def)

lemma pump_kept_trans: "pump_kept s s' \<Longrightarrow> pump_kept s' s'' \<Longrightarrow> pump_kept s s''"
  unfolding pump_kept_def by (elim conjE, intro conjI) (blast | simp)+

lemma pump_item_keeps: "pump_kept (fst st) (fst (pump_item w item st))"
  unfolding pump_kept_def using pump_item_ok [of st w item] pump_item_cases [of w item st]
  by (elim disjE exE conjE) (simp_all add: attempts_of_def start_attempt_def)

lemma pump_items_keep: "pump_kept (fst st) (fst (fold (pump_item w) items st))"
proof (induction items arbitrary: st)
  case (Cons item items)
  show ?case unfolding fold_simps by (rule pump_kept_trans [OF pump_item_keeps Cons.IH])
qed (simp add: pump_kept_refl)

lemma pump_keeps:
  "(runner_ok s \<longrightarrow> runner_ok (pump w s)) \<and> sr_typed (pump w s) = sr_typed s \<and>
   st_items (sr_store (pump w s)) = st_items (sr_store s) \<and>
   sr_sent s \<inter> sp_id ` set (st_items (sr_store s)) \<subseteq> sr_sent (pump w s) \<and>
   (\<forall>a\<in>set (sr_pending (pump w s)). a \<in> set (sr_pending s) \<or> is_AwaitForeground a)"
proof (cases "st_sender (sr_store s)")
  case False
  then show ?thesis by (simp add: pump_def runner_ok_def attempts_ok_def)
next
  case True
  define s1 where "s1 = s\<lparr>sr_sent := sr_sent s \<inter> sp_id ` set (st_items (sr_store s))\<rparr>"
  define st where "st = reconcile_closed w (st_items (sr_store s)) s1"
  have p: "pump w s = arm w (snd (fold (pump_item w) (st_items (sr_store s)) st)) (fst (fold (pump_item w) (st_items (sr_store s)) st))"
    using True by (simp add: pump_def st_def s1_def Let_def split: prod.splits)
  have st: "attempts_of (fst st) = attempts_of s1" "sr_store (fst st) = sr_store s1"
    unfolding st_def by (rule reconcile_closed_keeps)+
  have "runner_ok s \<longrightarrow> runner_ok s1" by (auto simp: runner_ok_def attempts_ok_def s1_def)
  then have ok: "runner_ok s \<longrightarrow> runner_ok (fst st)" using runner_ok_cong [OF st(1)] by simp
  have f: "sr_sent (fst st) = sr_sent s \<inter> sp_id ` set (st_items (sr_store s))" "sr_typed (fst st) = sr_typed s"
    "sr_pending (fst st) = sr_pending s" "sr_store (fst st) = sr_store s"
    using st by (simp_all add: attempts_of_def s1_def)
  have arm: "runner_ok (arm w t x) = runner_ok x" for t x by (rule runner_ok_cong) (simp add: attempts_of_def)
  show ?thesis
    using pump_items_keep [of st w "st_items (sr_store s)"] ok unfolding p pump_kept_def arm f arm_simps by blast
qed

section \<open>Steps of a run\<close>

lemma end_attempt_simps [simp]:
  "sr_typed (end_attempt item s) = sr_typed s" "sr_sent (end_attempt item s) = sr_sent s" "sr_pending (end_attempt item s) = sr_pending s"
  "sr_store (end_attempt item s) = sr_store s"
  by (simp_all add: end_attempt_def)

lemma end_attempt_other:
  assumes "attempts_ok (a # sr_pending s) s" and "at_item a = item"
    and "sr_inFlight s' = sr_inFlight s" "sr_busy s' = sr_busy s" "sr_pending s' = sr_pending s"
    and "sr_sent s' = sr_sent s \<or> sr_sent s' = insert (sp_id item) (sr_sent s)"
  shows "runner_ok (end_attempt item s')"
proof -
  have e: "end_attempt item s' = (end_attempt item (s'\<lparr>sr_sent := sr_sent s\<rparr>))\<lparr>sr_sent := sr_sent s'\<rparr>"
    by (simp add: end_attempt_def)
  have "attempts_ok (a # sr_pending (s'\<lparr>sr_sent := sr_sent s\<rparr>)) (s'\<lparr>sr_sent := sr_sent s\<rparr>)"
    using assms(1,3-5) by (simp add: attempts_ok_def)
  then have "runner_ok (end_attempt item (s'\<lparr>sr_sent := sr_sent s\<rparr>))" using assms(2) by (rule end_attempt_ok)
  then show ?thesis
    using assms(6) by (subst e, elim disjE) (auto simp: runner_ok_def attempts_ok_def end_attempt_def)
qed

lemma after_foreground_effect:
  assumes "attempts_ok (AwaitForeground item target # sr_pending s) s"
  shows "runner_ok (after_foreground w item target command s)"
    and "sr_typed (after_foreground w item target command s) = sr_typed s"
    and "sr_sent (after_foreground w item target command s) = sr_sent s"
    and "sr_pending (after_foreground w item target command s) = sr_pending s \<or>
      (\<exists>due. current_prompt (sr_store s) (sp_id item) = Some due \<and> sp_state due = Due \<and>
        attempt_verdict w s due target command = ReadyNow \<and>
        sr_pending (after_foreground w item target command s) = sr_pending s @ [AwaitPayload item due target])"
proof -
  note e = end_attempt_other [OF assms attempt.sel(1)]
  have moved: "runner_ok (s\<lparr>sr_pending := sr_pending s @ [AwaitPayload item due target]\<rparr>)" for due
    using assms by (auto simp: runner_ok_def attempts_ok_def)
  show "runner_ok (after_foreground w item target command s)"
    using moved by (auto simp: after_foreground_def intro!: e split: option.split readiness_verdict.split)
  show "sr_typed (after_foreground w item target command s) = sr_typed s"
    and "sr_sent (after_foreground w item target command s) = sr_sent s"
    by (simp_all add: after_foreground_def split: option.split readiness_verdict.split)
  show "sr_pending (after_foreground w item target command s) = sr_pending s \<or>
      (\<exists>due. current_prompt (sr_store s) (sp_id item) = Some due \<and> sp_state due = Due \<and>
        attempt_verdict w s due target command = ReadyNow \<and>
        sr_pending (after_foreground w item target command s) = sr_pending s @ [AwaitPayload item due target])"
    by (simp add: after_foreground_def split: option.split readiness_verdict.split)
qed

text \<open>The attempt ends; either nothing was typed, or the prompt was.\<close>

lemma after_payload_ends:
  "\<exists>s'. after_payload w item target payload outcome s = end_attempt item s' \<and>
     sr_inFlight s' = sr_inFlight s \<and> sr_busy s' = sr_busy s \<and> sr_pending s' = sr_pending s \<and>
     ((sr_typed s' = sr_typed s \<and> sr_sent s' = sr_sent s) \<or>
      (\<exists>still input. current_prompt (sr_store s) (sp_id item) = Some still \<and> sp_state still = Due \<and>
         sr_typed s' = sr_typed s @ [(still, target, input)] \<and> sr_sent s' = insert (sp_id item) (sr_sent s)))"
proof (cases "\<exists>input still recorded. payload = Some input \<and> current_prompt (sr_store s) (sp_id item) = Some still \<and>
    sp_state still = Due \<and> outcome = Takes recorded")
  case True
  then obtain input still recorded where t: "payload = Some input" "current_prompt (sr_store s) (sp_id item) = Some still"
    "sp_state still = Due" "outcome = Takes recorded" by blast
  have i: "sp_id still = sp_id item" using current_prompt_in [OF t(2)] by simp
  define s1 where "s1 = s\<lparr>sr_typed := sr_typed s @ [(still, target, input)], sr_sent := insert (sp_id still) (sr_sent s),
    sr_failures := (sr_failures s)(sp_id still := None)\<rparr>"
  define s2 where "s2 = (hold_store (sp_id still) None s1)\<lparr>sr_lastSent := (sr_lastSent (hold_store (sp_id still) None s1))(sp_historyKey still \<mapsto> w_now w)\<rparr>"
  have "after_payload w item target payload outcome s = end_attempt item (if recorded then dropSent (sp_id still) s2 else refused w (sp_id item) s2)"
    by (simp add: after_payload_def t s2_def s1_def Let_def)
  moreover have "sr_inFlight s2 = sr_inFlight s" "sr_busy s2 = sr_busy s" "sr_pending s2 = sr_pending s"
    "sr_typed s2 = sr_typed s @ [(still, target, input)]" "sr_sent s2 = insert (sp_id item) (sr_sent s)"
    by (simp_all add: s2_def s1_def i)
  ultimately show ?thesis using t(2,3)
    by (intro exI [of _ "if recorded then dropSent (sp_id still) s2 else refused w (sp_id item) s2"]) simp
next
  case False
  have "after_payload w item target payload outcome s = end_attempt item s \<or>
      after_payload w item target payload outcome s = end_attempt item (refused w (sp_id item) s)"
  proof (cases "\<exists>input still. payload = Some input \<and> current_prompt (sr_store s) (sp_id item) = Some still \<and> sp_state still = Due")
    case True
    then obtain input still where p: "payload = Some input" "current_prompt (sr_store s) (sp_id item) = Some still" "sp_state still = Due"
      by blast
    then have "outcome = Throws \<or> outcome = Refuses" using False by (cases outcome) simp_all
    then show ?thesis using p current_prompt_in [OF p(2)] by (auto simp: after_payload_def)
  next
    case False
    show ?thesis
    proof (cases payload)
      case None
      then show ?thesis by (simp add: after_payload_def)
    next
      case (Some input)
      then show ?thesis using False by (cases "current_prompt (sr_store s) (sp_id item)") (simp_all add: after_payload_def)
    qed
  qed
  then show ?thesis
  proof
    assume "after_payload w item target payload outcome s = end_attempt item s"
    then show ?thesis by (intro exI [of _ s]) simp
  next
    assume "after_payload w item target payload outcome s = end_attempt item (refused w (sp_id item) s)"
    then show ?thesis by (intro exI [of _ "refused w (sp_id item) s"]) simp
  qed
qed

lemma after_payload_effect:
  assumes "attempts_ok (AwaitPayload item due target # sr_pending s) s"
  shows "runner_ok (after_payload w item target payload outcome s)"
    and "sr_pending (after_payload w item target payload outcome s) = sr_pending s"
    and "(sr_typed (after_payload w item target payload outcome s) = sr_typed s \<and>
        sr_sent (after_payload w item target payload outcome s) = sr_sent s) \<or>
      (\<exists>still input. current_prompt (sr_store s) (sp_id item) = Some still \<and> sp_state still = Due \<and>
        sp_id item \<notin> sr_sent s \<and>
        sr_typed (after_payload w item target payload outcome s) = sr_typed s @ [(still, target, input)] \<and>
        sr_sent (after_payload w item target payload outcome s) = insert (sp_id item) (sr_sent s))"
proof -
  from after_payload_ends [of w item target payload outcome s] obtain s' where
    e: "after_payload w item target payload outcome s = end_attempt item s'" and
    f: "sr_inFlight s' = sr_inFlight s" "sr_busy s' = sr_busy s" "sr_pending s' = sr_pending s" and
    t: "(sr_typed s' = sr_typed s \<and> sr_sent s' = sr_sent s) \<or>
      (\<exists>still input. current_prompt (sr_store s) (sp_id item) = Some still \<and> sp_state still = Due \<and>
         sr_typed s' = sr_typed s @ [(still, target, input)] \<and> sr_sent s' = insert (sp_id item) (sr_sent s))"
    by (elim exE conjE) blast
  have sent: "sr_sent s' = sr_sent s \<or> sr_sent s' = insert (sp_id item) (sr_sent s)" using t by blast
  show "runner_ok (after_payload w item target payload outcome s)"
    unfolding e by (rule end_attempt_other [OF assms attempt.sel(2) f sent])
  show "sr_pending (after_payload w item target payload outcome s) = sr_pending s" by (simp add: e f)
  have "sp_id item \<notin> sr_sent s" using assms by (auto simp: attempts_ok_def)
  with t show "(sr_typed (after_payload w item target payload outcome s) = sr_typed s \<and>
        sr_sent (after_payload w item target payload outcome s) = sr_sent s) \<or>
      (\<exists>still input. current_prompt (sr_store s) (sp_id item) = Some still \<and> sp_state still = Due \<and>
        sp_id item \<notin> sr_sent s \<and>
        sr_typed (after_payload w item target payload outcome s) = sr_typed s @ [(still, target, input)] \<and>
        sr_sent (after_payload w item target payload outcome s) = insert (sp_id item) (sr_sent s))"
    unfolding e end_attempt_simps by blast
qed

text \<open>An event that settles a promise of the \<open>n\<close>-th attempt leaves the others as they are.\<close>

lemma without_nth_subset: "set (without_nth n xs) \<subseteq> set xs"
  unfolding without_nth_def by (auto dest: in_set_takeD in_set_dropD)

lemma settled_ok:
  assumes "runner_ok s" and "n < length (sr_pending s)" and "sr_pending s ! n = a"
  shows "attempts_ok (a # sr_pending (s\<lparr>sr_pending := without_nth n (sr_pending s)\<rparr>)) (s\<lparr>sr_pending := without_nth n (sr_pending s)\<rparr>)"
  using taken_ok [OF assms(1,2)] assms(3) by (simp add: attempts_ok_def)

lemma runner_step_foreground:
  "n < length (sr_pending s) \<Longrightarrow> sr_pending s ! n = AwaitForeground item target \<Longrightarrow>
   runner_step s (w, Foreground n command) = after_foreground w item target command (s\<lparr>sr_pending := without_nth n (sr_pending s)\<rparr>)"
  by (simp add: runner_step_def)

lemma runner_step_payload:
  "n < length (sr_pending s) \<Longrightarrow> sr_pending s ! n = AwaitPayload item due target \<Longrightarrow>
   runner_step s (w, PayloadBuilt n payload outcome) =
     after_payload w item target payload outcome (s\<lparr>sr_pending := without_nth n (sr_pending s)\<rparr>)"
  by (simp add: runner_step_def)

text \<open>The ways a step can go: nothing about the attempts, a pump, or one attempt moving on.\<close>

lemma runner_step_cases [case_names plain pump foreground payload]:
  assumes "attempts_of (runner_step s (w, e)) = attempts_of s \<Longrightarrow> thesis"
    and "\<And>s'. attempts_of s' = attempts_of s \<Longrightarrow> sr_store s' = sr_store s \<Longrightarrow> runner_step s (w, e) = pump w s' \<Longrightarrow> thesis"
    and "\<And>n command item target. e = Foreground n command \<Longrightarrow> n < length (sr_pending s) \<Longrightarrow>
      sr_pending s ! n = AwaitForeground item target \<Longrightarrow>
      runner_step s (w, e) = after_foreground w item target command (s\<lparr>sr_pending := without_nth n (sr_pending s)\<rparr>) \<Longrightarrow> thesis"
    and "\<And>n payload outcome item due target. e = PayloadBuilt n payload outcome \<Longrightarrow> n < length (sr_pending s) \<Longrightarrow>
      sr_pending s ! n = AwaitPayload item due target \<Longrightarrow>
      runner_step s (w, e) = after_payload w item target payload outcome (s\<lparr>sr_pending := without_nth n (sr_pending s)\<rparr>) \<Longrightarrow> thesis"
  shows thesis
proof (cases e)
  case SomethingChanged
  then show ?thesis by (intro assms(1)) (simp add: runner_step_def attempts_of_def)
next
  case Microtask
  show ?thesis
  proof (cases "sr_queued s")
    case True
    then show ?thesis using Microtask
      by (intro assms(2) [of "s\<lparr>sr_queued := False\<rparr>"]) (simp_all add: runner_step_def attempts_of_def)
  next
    case False
    then show ?thesis using Microtask by (intro assms(1)) (simp add: runner_step_def)
  qed
next
  case Timer
  show ?thesis
  proof (cases "case sr_timer s of None \<Rightarrow> False | Some t \<Rightarrow> t \<le> w_now w")
    case True
    then show ?thesis using Timer
      by (intro assms(2) [of "s\<lparr>sr_timer := None\<rparr>"]) (auto simp: runner_step_def attempts_of_def split: option.splits)
  next
    case False
    then show ?thesis using Timer by (intro assms(1)) (auto simp: runner_step_def split: option.splits)
  qed
next
  case (Arrived snap)
  then show ?thesis by (intro assms(1)) (simp add: runner_step_def arrived_attempts)
next
  case (Foreground n command)
  show ?thesis
  proof (cases "n < length (sr_pending s) \<and> is_AwaitForeground (sr_pending s ! n)")
    case True
    then obtain item target where "sr_pending s ! n = AwaitForeground item target" by (cases "sr_pending s ! n") auto
    then show ?thesis using True Foreground runner_step_foreground assms(3) by blast
  next
    case False
    then show ?thesis using Foreground
      by (intro assms(1)) (cases "sr_pending s ! n"; simp add: runner_step_def)
  qed
next
  case (PayloadBuilt n payload outcome)
  show ?thesis
  proof (cases "n < length (sr_pending s) \<and> \<not> is_AwaitForeground (sr_pending s ! n)")
    case True
    then obtain item due target where "sr_pending s ! n = AwaitPayload item due target" by (cases "sr_pending s ! n") auto
    then show ?thesis using True PayloadBuilt runner_step_payload assms(4) by blast
  next
    case False
    then show ?thesis using PayloadBuilt
      by (intro assms(1)) (cases "sr_pending s ! n"; simp add: runner_step_def)
  qed
qed

lemma runner_step_ok:
  assumes "runner_ok s"
  shows "runner_ok (runner_step s (w, e))"
proof (cases rule: runner_step_cases [of s w e])
  case plain
  then show ?thesis using assms runner_ok_cong [OF plain] by simp
next
  case (pump s')
  then show ?thesis using assms pump_keeps [of s' w] runner_ok_cong [OF pump(1)] by simp
next
  case (foreground n command item target)
  show ?thesis unfolding foreground(4) by (rule after_foreground_effect(1) [OF settled_ok [OF assms foreground(2,3)]])
next
  case (payload n payload outcome item due target)
  show ?thesis unfolding payload(4) by (rule after_payload_effect(1) [OF settled_ok [OF assms payload(2,3)]])
qed

lemma start_ok: "runner_ok (startSendLaterRunner store announced)"
  by (simp add: startSendLaterRunner_def greet_def announceMissed_def Let_def runner_ok_def attempts_ok_def)

interpretation sender: machine "startSendLaterRunner store announced" runner_step runner_ok
  by unfold_locales (auto simp: start_ok runner_step_ok)

text \<open>Property C24: the runner never has two goes at once. Whatever happens, in any order, no prompt
  and no terminal has more than one attempt under way, the runner's sets name exactly those that
  have one, and a prompt that was typed has none.\<close>

theorem attempts_exclusive: "runner_ok (run_sender (startSendLaterRunner store announced) es)"
  unfolding run_sender_def by (rule sender.run_inv)

text \<open>The state after the first \<open>n\<close> events.\<close>

definition after_events :: "send_runner \<Rightarrow> (world \<times> runner_event) list \<Rightarrow> nat \<Rightarrow> send_runner" where
  "after_events s0 es n = run_sender s0 (take n es)"

lemma after_events_0 [simp]: "after_events s0 es 0 = s0"
  by (simp add: after_events_def run_sender_def)

lemma after_events_Suc: "n < length es \<Longrightarrow> after_events s0 es (Suc n) = runner_step (after_events s0 es n) (es ! n)"
  by (simp add: after_events_def run_sender_def take_Suc_conv_app_nth)

lemma after_events_all: "length es \<le> n \<Longrightarrow> after_events s0 es n = run_sender s0 es"
  by (simp add: after_events_def)

lemma after_events_ok: "runner_ok s0 \<Longrightarrow> runner_ok (after_events s0 es n)"
  unfolding after_events_def run_sender_def by (rule sender.run_from)

section \<open>Never twice\<close>

text \<open>A step types at most one prompt, one not marked as sent, and marks it; and it only takes the mark
  off prompts that are not on the list.\<close>

lemma runner_step_types:
  assumes "runner_ok s"
  shows "(sr_typed (runner_step s (w, e)) = sr_typed s \<or>
      (\<exists>p target input. sr_typed (runner_step s (w, e)) = sr_typed s @ [(p, target, input)] \<and>
         sp_id p \<notin> sr_sent s \<and> sp_id p \<in> sr_sent (runner_step s (w, e)))) \<and>
    sr_sent s \<inter> sp_id ` set (st_items (sr_store s)) \<subseteq> sr_sent (runner_step s (w, e))"
proof (cases rule: runner_step_cases [of s w e])
  case plain
  then show ?thesis by (auto simp: attempts_of_def)
next
  case (pump s')
  then have "sr_typed s' = sr_typed s" "sr_sent s' = sr_sent s" "sr_store s' = sr_store s" by (simp_all add: attempts_of_def)
  then show ?thesis using pump_keeps [of s' w] by (simp add: pump(3))
next
  case (foreground n command item target)
  show ?thesis unfolding foreground(4)
    using after_foreground_effect(2,3) [OF settled_ok [OF assms foreground(2,3)], of w command] by auto
next
  case (payload n payload outcome item due target)
  let ?s = "s\<lparr>sr_pending := without_nth n (sr_pending s)\<rparr>"
  have i: "sp_id still = sp_id item" if "current_prompt (sr_store ?s) (sp_id item) = Some still" for still
    using current_prompt_in [OF that] by simp
  let ?s' = "after_payload w item target payload outcome ?s"
  have "(sr_typed ?s' = sr_typed s \<and> sr_sent ?s' = sr_sent s) \<or>
      (\<exists>still input. current_prompt (sr_store ?s) (sp_id item) = Some still \<and> sp_id item \<notin> sr_sent s \<and>
        sr_typed ?s' = sr_typed s @ [(still, target, input)] \<and> sr_sent ?s' = insert (sp_id item) (sr_sent s))"
    using after_payload_effect(3) [OF settled_ok [OF assms payload(2,3)], of w payload outcome] by auto
  then show ?thesis unfolding payload(4)
  proof
    assume "\<exists>still input. current_prompt (sr_store ?s) (sp_id item) = Some still \<and> sp_id item \<notin> sr_sent s \<and>
        sr_typed ?s' = sr_typed s @ [(still, target, input)] \<and> sr_sent ?s' = insert (sp_id item) (sr_sent s)"
    then obtain still input where t: "current_prompt (sr_store ?s) (sp_id item) = Some still" "sp_id item \<notin> sr_sent s"
      "sr_typed ?s' = sr_typed s @ [(still, target, input)]" "sr_sent ?s' = insert (sp_id item) (sr_sent s)" by blast
    have "sp_id still \<notin> sr_sent s \<and> sp_id still \<in> sr_sent ?s'" using i [OF t(1)] t(2,4) by simp
    moreover have "sr_sent s \<inter> sp_id ` set (st_items (sr_store s)) \<subseteq> sr_sent ?s'" using t(4) by blast
    ultimately show "(sr_typed ?s' = sr_typed s \<or> (\<exists>p target' input. sr_typed ?s' = sr_typed s @ [(p, target', input)] \<and>
         sp_id p \<notin> sr_sent s \<and> sp_id p \<in> sr_sent ?s')) \<and> sr_sent s \<inter> sp_id ` set (st_items (sr_store s)) \<subseteq> sr_sent ?s'"
      using t(3) by blast
  qed simp
qed

lemma typed_grows:
  assumes "runner_ok s0" and "m \<le> n"
  shows "\<exists>rest. sr_typed (after_events s0 es n) = sr_typed (after_events s0 es m) @ rest"
  using assms(2)
proof (induction n)
  case (Suc n)
  show ?case
  proof (cases "m = Suc n")
    case False
    then obtain rest where m: "sr_typed (after_events s0 es n) = sr_typed (after_events s0 es m) @ rest" using Suc by auto
    show ?thesis
    proof (cases "n < length es")
      case True
      obtain w e where we: "es ! n = (w, e)" by fastforce
      have "after_events s0 es (Suc n) = runner_step (after_events s0 es n) (w, e)" using after_events_Suc [OF True] we by simp
      then show ?thesis using m runner_step_types [OF after_events_ok [OF assms(1)], of es n w e] by auto
    next
      case False
      then show ?thesis using m by (simp add: after_events_def)
    qed
  qed simp
qed simp

text \<open>Once typed, and for as long as it stays on the list, a prompt is marked as sent.\<close>

lemma typed_stays_sent:
  assumes ok: "runner_ok s0" and start: "sr_typed s0 = []"
    and live: "\<And>k. k \<le> n \<Longrightarrow> i < length (sr_typed (after_events s0 es k)) \<Longrightarrow>
      sp_id (fst (sr_typed (after_events s0 es k) ! i)) \<in> sp_id ` set (st_items (sr_store (after_events s0 es k)))"
    and "i < length (sr_typed (after_events s0 es n))" and "n \<le> length es"
  shows "sp_id (fst (sr_typed (after_events s0 es n) ! i)) \<in> sr_sent (after_events s0 es n)"
  using assms(3-5)
proof (induction n)
  case 0
  then show ?case using start by simp
next
  case (Suc n)
  obtain w e where we: "es ! n = (w, e)" by fastforce
  let ?s = "after_events s0 es n"
  have n: "n < length es" using Suc.prems(3) by simp
  have next_s: "after_events s0 es (Suc n) = runner_step ?s (w, e)" using after_events_Suc [OF n] we by simp
  note types = runner_step_types [OF after_events_ok [OF ok], of es n w e]
  show ?case
  proof (cases "i < length (sr_typed ?s)")
    case True
    have same: "sr_typed (after_events s0 es (Suc n)) ! i = sr_typed ?s ! i"
      using types True by (auto simp: next_s nth_append)
    have "sp_id (fst (sr_typed ?s ! i)) \<in> sr_sent ?s" using Suc True by simp
    moreover have "sp_id (fst (sr_typed ?s ! i)) \<in> sp_id ` set (st_items (sr_store ?s))" using Suc.prems(1) [of n] True by simp
    ultimately show ?thesis unfolding same using types unfolding next_s by blast
  next
    case False
    then obtain p target input where p: "sr_typed (after_events s0 es (Suc n)) = sr_typed ?s @ [(p, target, input)]"
        "sp_id p \<in> sr_sent (after_events s0 es (Suc n))"
      using types Suc.prems(2) by (auto simp: next_s)
    moreover have "i = length (sr_typed ?s)" using False Suc.prems(2) p(1) by simp
    ultimately show ?thesis by simp
  qed
qed

text \<open>Property C3: no prompt is typed twice. If two of the things typed are the same prompt, then at
  some moment between them the prompt was off the list: the runner, its retries and its races never
  repeat one that stays on it.\<close>

theorem never_typed_twice:
  assumes "s0 = startSendLaterRunner store announced" and "typed = sr_typed (run_sender s0 es)"
    and "i < j" "j < length typed" "sp_id (fst (typed ! i)) = sp_id (fst (typed ! j))"
  shows "\<exists>n. i < length (sr_typed (after_events s0 es n)) \<and> length (sr_typed (after_events s0 es n)) \<le> j \<and>
    sp_id (fst (typed ! j)) \<notin> sp_id ` set (st_items (sr_store (after_events s0 es n)))"
proof (rule ccontr)
  assume no: "\<not> ?thesis"
  have ok: "runner_ok s0" using assms(1) start_ok by simp
  have start: "sr_typed s0 = []" by (simp add: assms(1) startSendLaterRunner_def greet_def announceMissed_def Let_def)
  have typed: "typed = sr_typed (after_events s0 es (length es))" by (simp add: assms(2) after_events_all)
  let ?grown = "\<lambda>n. j < length (sr_typed (after_events s0 es n))"
  obtain m where m: "\<not> ?grown m" "?grown (Suc m)" "m < length es"
  proof -
    have g: "?grown (length es)" using assms(4) typed by simp
    have "\<not> ?grown 0" by (simp add: start)
    then have "0 < (LEAST n. ?grown n)" using LeastI [of ?grown, OF g] by (metis gr0I)
    then obtain m where "(LEAST n. ?grown n) = Suc m" by (metis gr0_implies_Suc)
    moreover from this have "\<not> ?grown m" "?grown (Suc m)" using not_less_Least [of m ?grown] LeastI [of ?grown, OF g] by simp_all
    moreover have "Suc m \<le> length es" using Least_le [of ?grown, OF g] calculation(1) by simp
    ultimately show thesis using that by simp
  qed
  obtain w e where we: "es ! m = (w, e)" by fastforce
  let ?s = "after_events s0 es m"
  have next_s: "after_events s0 es (Suc m) = runner_step ?s (w, e)" using after_events_Suc [OF m(3)] we by simp
  note types = runner_step_types [OF after_events_ok [OF ok], of es m w e]
  from types m(1,2) obtain p target input where
    p: "sr_typed (after_events s0 es (Suc m)) = sr_typed ?s @ [(p, target, input)]" "sp_id p \<notin> sr_sent ?s"
    unfolding next_s by (elim conjE disjE exE) simp_all
  have len: "length (sr_typed ?s) = j" using m(1,2) p(1) by simp
  have prefix: "sr_typed (after_events s0 es k) ! l = typed ! l" if "l < length (sr_typed (after_events s0 es k))" "k \<le> length es" for k l
    using typed_grows [OF ok that(2), of es] that(1) by (auto simp: typed nth_append)
  have "typed ! j = (p, target, input)" using prefix [of j "Suc m"] m(3) p(1) len by (simp add: nth_append)
  then have pj: "sp_id p = sp_id (fst (typed ! j))" by simp
  have "sp_id (fst (sr_typed ?s ! i)) \<in> sr_sent ?s"
  proof (rule typed_stays_sent [OF ok start])
    fix k assume k: "k \<le> m" "i < length (sr_typed (after_events s0 es k))"
    have "length (sr_typed (after_events s0 es k)) \<le> j" using typed_grows [OF ok k(1), of es] len by auto
    then have "sp_id (fst (typed ! j)) \<in> sp_id ` set (st_items (sr_store (after_events s0 es k)))" using no k(2) by blast
    then show "sp_id (fst (sr_typed (after_events s0 es k) ! i)) \<in> sp_id ` set (st_items (sr_store (after_events s0 es k)))"
      using prefix [OF k(2)] k(1) m(3) assms(5) by simp
  qed (use len assms(3) m(3) in simp_all)
  moreover have "sr_typed ?s ! i = typed ! i" using prefix [of i m] len assms(3) m(3) by simp
  ultimately show False using p(2) pj assms(5) by simp
qed

section \<open>Only when ready\<close>

text \<open>Some event of a run found the terminal ready for the prompt.\<close>

definition found_ready :: "send_runner \<Rightarrow> (world \<times> runner_event) list \<Rightarrow> string \<Rightarrow> terminal_target \<Rightarrow> bool" where
  "found_ready s0 es i target \<longleftrightarrow>
     (\<exists>n<length es. \<exists>w k command due. es ! n = (w, Foreground k command) \<and>
        current_prompt (sr_store (after_events s0 es n)) i = Some due \<and> sp_state due = Due \<and>
        attempt_verdict w (after_events s0 es n) due target command = ReadyNow)"

text \<open>Some event found the prompt, as it was typed, on the list and due.\<close>

definition found_due :: "send_runner \<Rightarrow> (world \<times> runner_event) list \<Rightarrow> prompt \<Rightarrow> bool" where
  "found_due s0 es p \<longleftrightarrow>
     (\<exists>n<length es. current_prompt (sr_store (after_events s0 es n)) (sp_id p) = Some p \<and> sp_state p = Due)"

lemma after_events_append: "n \<le> length es \<Longrightarrow> after_events s0 (es @ es') n = after_events s0 es n"
  by (simp add: after_events_def)

lemma found_ready_append: "found_ready s0 es i target \<Longrightarrow> found_ready s0 (es @ es') i target"
  unfolding found_ready_def
proof (elim exE conjE)
  fix n w k command due
  assume n: "n < length es" and r: "es ! n = (w, Foreground k command)" "current_prompt (sr_store (after_events s0 es n)) i = Some due"
    "sp_state due = Due" "attempt_verdict w (after_events s0 es n) due target command = ReadyNow"
  have "after_events s0 (es @ es') n = after_events s0 es n" "(es @ es') ! n = es ! n"
    using n by (simp_all add: after_events_append nth_append)
  with r n show "\<exists>n<length (es @ es'). \<exists>w k command due. (es @ es') ! n = (w, Foreground k command) \<and>
      current_prompt (sr_store (after_events s0 (es @ es') n)) i = Some due \<and> sp_state due = Due \<and>
      attempt_verdict w (after_events s0 (es @ es') n) due target command = ReadyNow"
    by (intro exI [of _ n]) simp
qed

lemma found_due_append: "found_due s0 es p \<Longrightarrow> found_due s0 (es @ es') p"
  unfolding found_due_def using after_events_append
  by (metis length_append less_imp_le trans_less_add1)

lemma runs_find:
  assumes "runner_ok s0" and "sr_typed s0 = []" "sr_pending s0 = []"
  shows "(\<forall>item due target. AwaitPayload item due target \<in> set (sr_pending (run_sender s0 es)) \<longrightarrow> found_ready s0 es (sp_id item) target) \<and>
    (\<forall>p target input. (p, target, input) \<in> set (sr_typed (run_sender s0 es)) \<longrightarrow> found_ready s0 es (sp_id p) target \<and> found_due s0 es p)"
proof (induction es rule: rev_induct)
  case Nil
  then show ?case using assms by (simp add: run_sender_def)
next
  case (snoc x es)
  obtain w e where x: "x = (w, e)" by (cases x)
  let ?s = "run_sender s0 es"
  have step: "run_sender s0 (es @ [x]) = runner_step ?s (w, e)" by (simp add: run_sender_def x)
  have ok: "runner_ok ?s" using after_events_ok [OF assms(1), of es "length es"] by (simp add: after_events_all)
  have old: "found_ready s0 (es @ [x]) (sp_id item) target"
    if "AwaitPayload item due target \<in> set (sr_pending ?s)" for item due target
    using snoc.IH that found_ready_append by blast
  have typed_old: "found_ready s0 (es @ [x]) (sp_id p) target \<and> found_due s0 (es @ [x]) p"
    if "(p, target, input) \<in> set (sr_typed ?s)" for p target input
    using snoc.IH that found_ready_append found_due_append by blast
  have last: "after_events s0 (es @ [x]) (length es) = ?s" by (simp add: after_events_def)
  show ?case
  proof (cases rule: runner_step_cases [of ?s w e])
    case plain
    then show ?thesis using old typed_old by (simp add: step attempts_of_def)
  next
    case (pump s')
    then have "sr_pending s' = sr_pending ?s" "sr_typed s' = sr_typed ?s" by (simp_all add: attempts_of_def)
    then show ?thesis using pump_keeps [of s' w] old typed_old unfolding step pump(3) by fastforce
  next
    case (foreground n command item target)
    let ?s' = "?s\<lparr>sr_pending := without_nth n (sr_pending ?s)\<rparr>"
    have "found_ready s0 (es @ [x]) (sp_id item) target"
      if "current_prompt (sr_store ?s') (sp_id item) = Some due" "sp_state due = Due" "attempt_verdict w ?s' due target command = ReadyNow" for due
    proof -
      have "attempt_verdict w ?s due target command = ReadyNow" using that(3) by (simp add: attempt_verdict_def)
      moreover have "(es @ [x]) ! length es = (w, Foreground n command)" by (simp add: x foreground(1))
      moreover have "current_prompt (sr_store ?s) (sp_id item) = Some due" "length es < length (es @ [x])" using that(1) by simp_all
      ultimately show ?thesis unfolding found_ready_def using that(2) last by metis
    qed
    moreover note after_foreground_effect(2,4) [OF settled_ok [OF ok foreground(2,3)], of w command]
    ultimately show ?thesis
      using old typed_old without_nth_subset [of n "sr_pending ?s"] unfolding step foreground(4) by fastforce
  next
    case (payload n payload outcome item due target)
    let ?s' = "?s\<lparr>sr_pending := without_nth n (sr_pending ?s)\<rparr>"
    have ready: "found_ready s0 (es @ [x]) (sp_id item) target"
      using old [of item due target] payload(2,3) by (metis nth_mem)
    have "found_ready s0 (es @ [x]) (sp_id still) target \<and> found_due s0 (es @ [x]) still"
      if "current_prompt (sr_store ?s') (sp_id item) = Some still" "sp_state still = Due" for still
    proof -
      have i: "sp_id still = sp_id item" using current_prompt_in [OF that(1)] by simp
      then have "found_due s0 (es @ [x]) still" unfolding found_due_def
        using that by (intro exI [of _ "length es"]) (simp add: last)
      then show ?thesis using ready i by simp
    qed
    moreover note after_payload_effect(2,3) [OF settled_ok [OF ok payload(2,3)], of w payload outcome]
    ultimately show ?thesis
      using old typed_old without_nth_subset [of n "sr_pending ?s"] unfolding step payload(4) by fastforce
  qed
qed

text \<open>
  What has to hold of a terminal for a prompt to go into it, written out: no model switch under way; for
  an agent's prompt no shell that would run it, and for one whose agent is not working a second and a
  half without output; and no question of the agent's, which the prompt would answer. A prompt that was
  not sent by hand also waits for an agent that stopped on a problem after the prompt was made for when
  it is done; for a terminal without an agent to be back at its shell; for twenty seconds after the last
  prompt; and for an agent at work, until it has been quiet for two minutes.
\<close>

definition may_type :: "world \<Rightarrow> send_runner \<Rightarrow> prompt \<Rightarrow> terminal_target \<Rightarrow> string \<Rightarrow> bool" where
  "may_type w s due target command \<longleftrightarrow>
     (let agent = paneAgentOf w (sp_projectName due) (tt_id target);
          working = (\<exists>a. agent = Some a \<and> pa_state a = Working);
          output = w_outputAt w (tt_id target);
          shell = (trim command \<noteq> [] \<and> isShellAtPrompt command)
      in \<not> w_switching w (tt_id target) \<and>
         \<not> (sp_agent due \<noteq> [] \<and> shell) \<and>
         \<not> (\<exists>a. agent = Some a \<and> pa_state a = NeedsYou) \<and>
         (sp_agent due \<noteq> [] \<and> \<not> working \<and> 0 < output \<longrightarrow> output + 1500 \<le> w_perf w) \<and>
         (\<not> sp_force due \<longrightarrow>
            \<not> (isWhenDone due \<and> (\<exists>a. agent = Some a \<and> pa_state a = ErrorState \<and>
                 sp_createdAt due < (case pa_since a of None \<Rightarrow> 0 | Some t \<Rightarrow> t))) \<and>
            \<not> (sp_agent due = [] \<and> trim command \<noteq> [] \<and> \<not> shell) \<and>
            (\<forall>sent. sr_lastSent s (sp_historyKey due) = Some sent \<longrightarrow> sent + 20000 \<le> w_now w) \<and>
            (working \<and> 0 < output \<longrightarrow> output + 120000 \<le> w_perf w)))"

lemma readiness_ready:
  assumes "readiness i = ReadyNow"
  shows "\<not> ri_switchingModel i" "\<not> (ri_forAgent i \<and> ri_foreground i = ShellForeground)" "ri_agent i \<noteq> Some NeedsYou"
    "\<not> (ri_forAgent i \<and> ri_agent i \<noteq> Some Working \<and> quiet_less (ri_quietMs i) SETTLED_QUIET_MS)"
    "\<not> ri_force i \<Longrightarrow> \<not> ri_stoppedOnProblem i"
    "\<not> ri_force i \<Longrightarrow> \<not> (\<not> ri_forAgent i \<and> ri_foreground i = ProgramForeground)"
    "\<not> ri_force i \<Longrightarrow> ri_lastSentAt i = Some t \<Longrightarrow> t + SENT_SETTLE_MS \<le> ri_now i"
    "\<not> ri_force i \<Longrightarrow> ri_agent i = Some Working \<Longrightarrow> \<not> quiet_less (ri_quietMs i) STALE_WORKING_MS"
  using assms unfolding readiness_def Let_def by (auto split: if_splits)

lemma foreground_kinds:
  "foregroundKind command = ShellForeground \<longleftrightarrow> trim command \<noteq> [] \<and> isShellAtPrompt command"
  "foregroundKind command = ProgramForeground \<longleftrightarrow> trim command \<noteq> [] \<and> \<not> isShellAtPrompt command"
  by (simp_all add: foregroundKind_def)

lemma ready_may_type:
  assumes "attempt_verdict w s due target command = ReadyNow"
  shows "may_type w s due target command"
proof -
  note r = readiness_ready [OF assms [unfolded attempt_verdict_def Let_def]]
  have st: "map_option pa_state (paneAgentOf w (sp_projectName due) (tt_id target)) = Some x \<longleftrightarrow>
      (\<exists>a. paneAgentOf w (sp_projectName due) (tt_id target) = Some a \<and> pa_state a = x)" for x by auto
  have quiet: "quiet_less (if 0 < w_outputAt w (tt_id target) then Some (w_perf w - w_outputAt w (tt_id target)) else None) ms \<longleftrightarrow>
      0 < w_outputAt w (tt_id target) \<and> w_perf w < w_outputAt w (tt_id target) + ms" for ms
    by (auto simp: quiet_less_def)
  have stopped: "stoppedOnProblem due (paneAgentOf w (sp_projectName due) (tt_id target)) \<longleftrightarrow>
      isWhenDone due \<and> (\<exists>a. paneAgentOf w (sp_projectName due) (tt_id target) = Some a \<and> pa_state a = ErrorState \<and>
        sp_createdAt due < (case pa_since a of None \<Rightarrow> 0 | Some t \<Rightarrow> t))"
    by (auto simp: stoppedOnProblem_def)
  show ?thesis
    using r(1-6,8) r(7) [of "the (sr_lastSent s (sp_historyKey due))"]
    unfolding may_type_def Let_def readiness_input.simps st quiet stopped foreground_kinds
    by (auto simp: SETTLED_QUIET_MS_def SENT_SETTLE_MS_def STALE_WORKING_MS_def)
qed


section \<open>Nothing is forgotten\<close>

definition wakes_by :: "millis option \<Rightarrow> millis \<Rightarrow> bool" where
  "wakes_by soonest r = (case soonest of None \<Rightarrow> False | Some u \<Rightarrow> u \<le> r)"

lemma wakes_by_sooner [simp]: "wakes_by (sooner a b) r \<longleftrightarrow> wakes_by a r \<or> wakes_by b r"
  by (auto simp: wakes_by_def sooner_def split: option.splits)

lemma wakes_by_self [simp]: "wakes_by (Some r) r"
  by (simp add: wakes_by_def)

text \<open>What a pump makes of a due prompt: an attempt of it or of its terminal is under way, its terminal
  is missing, it pauses after a refusal, or it is held until its agent changes or a time comes; and the
  times are among those the pump will look again at.\<close>

definition settled :: "world \<Rightarrow> prompt \<Rightarrow> send_runner \<Rightarrow> millis option \<Rightarrow> bool" where
  "settled w item s soonest \<longleftrightarrow>
     sp_id item \<in> sr_inFlight s \<or> sp_historyKey item \<in> sr_busy s \<or>
     (findTarget w item = None \<and> st_holds (sr_store s) (sp_id item) = Some HoldAway) \<or>
     (\<exists>r. w_now w < r \<and> sr_retryAfter s (sp_id item) = Some r \<and> wakes_by soonest r) \<or>
     (\<exists>until target. findTarget w item = Some target \<and>
        sr_held s (sp_id item) = Some (until, agent_state_at w (sp_projectName item) (tt_id target)) \<and>
        (case until of None \<Rightarrow> True | Some u \<Rightarrow> w_now w < u \<and> wakes_by soonest u))"

lemma start_attempt_simps [simp]:
  "sr_inFlight (start_attempt item target s) = insert (sp_id item) (sr_inFlight s)"
  "sr_busy (start_attempt item target s) = insert (sp_historyKey item) (sr_busy s)"
  "sr_store (start_attempt item target s) = sr_store s" "sr_retryAfter (start_attempt item target s) = sr_retryAfter s"
  "sr_held (start_attempt item target s) = sr_held s" "sr_sent (start_attempt item target s) = sr_sent s"
  by (simp_all add: start_attempt_def)

lemma hold_store_holds [simp]: "st_holds (sr_store (hold_store i h s)) = (st_holds (sr_store s))(i := h)"
  by (simp add: hold_store_def)

lemma pump_try_settles: "settled w item (fst (pump_try w item s soonest)) (snd (pump_try w item s soonest))"
proof (cases "findTarget w item")
  case None
  then show ?thesis by (simp add: pump_try_def Let_def settled_def)
next
  case (Some target)
  show ?thesis
  proof (cases "sr_held s (sp_id item)")
    case None
    then show ?thesis using Some by (simp add: pump_try_def Let_def settled_def)
  next
    case h: (Some held)
    obtain until agentState where u: "held = (until, agentState)" by fastforce
    show ?thesis
    proof (cases "(case until of None \<Rightarrow> True | Some u \<Rightarrow> w_now w < u) \<and> agentState = agent_state_at w (sp_projectName item) (tt_id target)")
      case True
      then have "pump_try w item s soonest = (s, sooner soonest until)" using Some h u by (simp add: pump_try_def Let_def)
      then show ?thesis using True Some h u by (auto simp: settled_def split: option.split)
    next
      case False
      then have "fst (pump_try w item s soonest) = start_attempt item target (s\<lparr>sr_held := (sr_held s)(sp_id item := None)\<rparr>)"
        using Some h u by (auto simp: pump_try_def Let_def)
      then show ?thesis by (simp add: settled_def)
    qed
  qed
qed

lemma pump_item_settles:
  assumes "sp_state item = Due" and "sp_id item \<notin> sr_sent (fst st)"
  shows "settled w item (fst (pump_item w item st)) (snd (pump_item w item st))"
proof -
  obtain s soonest where st: "st = (s, soonest)" by fastforce
  show ?thesis
  proof (cases "passed_over s item")
    case True
    then show ?thesis using assms by (auto simp: st pump_item_def settled_def passed_over_def)
  next
    case False
    show ?thesis
    proof (cases "case sr_retryAfter s (sp_id item) of None \<Rightarrow> False | Some retry \<Rightarrow> w_now w < retry")
      case True
      then have "pump_item w item st = (s, sooner soonest (sr_retryAfter s (sp_id item)))"
        using False by (simp add: st pump_item_def Let_def)
      then show ?thesis using True by (auto simp: settled_def split: option.splits)
    next
      case retry: False
      have "pump_item w item st = pump_try w item (s\<lparr>sr_retryAfter := (sr_retryAfter s)(sp_id item := None)\<rparr>) soonest"
        using False retry by (simp add: st pump_item_def Let_def)
      then show ?thesis by (simp add: pump_try_settles)
    qed
  qed
qed

text \<open>What later turns keep of it.\<close>

definition keeps_settled :: "world \<Rightarrow> send_runner \<times> millis option \<Rightarrow> send_runner \<times> millis option \<Rightarrow> bool" where
  "keeps_settled w st st' \<longleftrightarrow>
     sr_inFlight (fst st) \<subseteq> sr_inFlight (fst st') \<and> sr_busy (fst st) \<subseteq> sr_busy (fst st') \<and>
     (\<forall>i. st_holds (sr_store (fst st)) i = Some HoldAway \<longrightarrow> st_holds (sr_store (fst st')) i = Some HoldAway) \<and>
     (\<forall>i r. sr_retryAfter (fst st) i = Some r \<and> w_now w < r \<longrightarrow> sr_retryAfter (fst st') i = Some r) \<and>
     (\<forall>i. i \<notin> sr_inFlight (fst st') \<longrightarrow> sr_held (fst st') i = sr_held (fst st) i) \<and>
     (\<forall>r. wakes_by (snd st) r \<longrightarrow> wakes_by (snd st') r)"

lemma keeps_settled:
  assumes "keeps_settled w st st'" and "settled w item (fst st) (snd st)"
  shows "settled w item (fst st') (snd st')"
proof (cases "sp_id item \<in> sr_inFlight (fst st')")
  case False
  then have held: "sr_held (fst st') (sp_id item) = sr_held (fst st) (sp_id item)"
    and no: "sp_id item \<notin> sr_inFlight (fst st)" using assms(1) by (auto simp: keeps_settled_def)
  have wakes: "wakes_by (snd st) r \<Longrightarrow> wakes_by (snd st') r" for r using assms(1) by (simp add: keeps_settled_def)
  show ?thesis using assms(2) unfolding settled_def [of w item "fst st"]
  proof (elim disjE exE conjE)
    assume "sp_historyKey item \<in> sr_busy (fst st)"
    then show ?thesis using assms(1) by (auto simp: keeps_settled_def settled_def)
  next
    assume "findTarget w item = None" "st_holds (sr_store (fst st)) (sp_id item) = Some HoldAway"
    then show ?thesis using assms(1) by (simp add: keeps_settled_def settled_def)
  next
    fix r assume "w_now w < r" "sr_retryAfter (fst st) (sp_id item) = Some r" "wakes_by (snd st) r"
    then show ?thesis using assms(1) wakes by (auto simp: keeps_settled_def settled_def)
  next
    fix until target
    assume "findTarget w item = Some target"
      "sr_held (fst st) (sp_id item) = Some (until, agent_state_at w (sp_projectName item) (tt_id target))"
      "case until of None \<Rightarrow> True | Some u \<Rightarrow> w_now w < u \<and> wakes_by (snd st) u"
    moreover from this(3) have "case until of None \<Rightarrow> True | Some u \<Rightarrow> w_now w < u \<and> wakes_by (snd st') u"
      using wakes by (simp split: option.splits)
    ultimately show ?thesis using held by (simp add: settled_def)
  qed (use no in simp)
qed (simp add: settled_def)

lemma keeps_settled_refl: "keeps_settled w st st"
  by (simp add: keeps_settled_def)

lemma pump_try_outcomes:
  assumes "findTarget w item = Some target"
  shows "pump_try w item s soonest = (start_attempt item target s, soonest) \<or>
    pump_try w item s soonest = (start_attempt item target (s\<lparr>sr_held := (sr_held s)(sp_id item := None)\<rparr>), soonest) \<or>
    (\<exists>until. pump_try w item s soonest = (s, sooner soonest until))"
proof (cases "sr_held s (sp_id item)")
  case None
  then show ?thesis using assms by (simp add: pump_try_def Let_def)
next
  case (Some held)
  obtain until agentState where "held = (until, agentState)" by fastforce
  then have "pump_try w item s soonest =
      (if (case until of None \<Rightarrow> True | Some u \<Rightarrow> w_now w < u) \<and> agentState = agent_state_at w (sp_projectName item) (tt_id target)
       then (s, sooner soonest until) else (start_attempt item target (s\<lparr>sr_held := (sr_held s)(sp_id item := None)\<rparr>), soonest))"
    using assms Some by (simp add: pump_try_def Let_def)
  then show ?thesis by metis
qed

lemma pump_item_keeps_settled: "keeps_settled w st (pump_item w item st)"
proof -
  obtain s soonest where st: "st = (s, soonest)" by fastforce
  let ?retry = "case sr_retryAfter s (sp_id item) of None \<Rightarrow> False | Some retry \<Rightarrow> w_now w < retry"
  show ?thesis
  proof (cases "passed_over s item \<or> ?retry")
    case True
    then have "pump_item w item st = (s, soonest) \<or> pump_item w item st = (s, sooner soonest (sr_retryAfter s (sp_id item)))"
      by (auto simp: st pump_item_def Let_def)
    then show ?thesis by (auto simp: st keeps_settled_def)
  next
    case False
    let ?s = "s\<lparr>sr_retryAfter := (sr_retryAfter s)(sp_id item := None)\<rparr>"
    have p: "pump_item w item st = pump_try w item ?s soonest" using False by (simp add: st pump_item_def Let_def)
    have retry: "sr_retryAfter s i = Some r \<and> w_now w < r \<Longrightarrow> sr_retryAfter ?s i = Some r" for i r using False by auto
    show ?thesis
    proof (cases "findTarget w item")
      case None
      then show ?thesis unfolding p using retry by (simp add: pump_try_def Let_def keeps_settled_def st)
    next
      case (Some target)
      have start: "keeps_settled w st (start_attempt item target s', soonest)"
        if "s' = ?s \<or> s' = ?s\<lparr>sr_held := (sr_held ?s)(sp_id item := None)\<rparr>" for s'
        using that retry by (auto simp: keeps_settled_def st)
      have "pump_try w item ?s soonest = (start_attempt item target ?s, soonest) \<or>
          pump_try w item ?s soonest = (start_attempt item target (?s\<lparr>sr_held := (sr_held ?s)(sp_id item := None)\<rparr>), soonest) \<or>
          (\<exists>until. pump_try w item ?s soonest = (?s, sooner soonest until))"
        using pump_try_outcomes [OF Some, of ?s soonest] .
      moreover have "keeps_settled w st (?s, sooner soonest until)" for until
        using retry by (simp add: keeps_settled_def st)
      ultimately show ?thesis unfolding p using start by (elim disjE exE) simp_all
    qed
  qed
qed

lemma pump_items_settle:
  assumes "item \<in> set items" and "sp_state item = Due" and "sp_id item \<notin> sr_sent (fst st)"
  shows "settled w item (fst (fold (pump_item w) items st)) (snd (fold (pump_item w) items st))"
proof -
  have stays: "settled w item (fst (fold (pump_item w) is st)) (snd (fold (pump_item w) is st))"
    if "settled w item (fst st) (snd st)" for "is" st
    using that
  proof (induction "is" arbitrary: st)
    case (Cons i "is")
    then show ?case using keeps_settled [OF pump_item_keeps_settled] by simp
  qed simp
  show ?thesis using assms(1,3)
  proof (induction items arbitrary: st)
    case (Cons i items)
    show ?case
    proof (cases "i = item")
      case True
      then show ?thesis using stays [OF pump_item_settles [OF assms(2) Cons.prems(2)]] by simp
    next
      case False
      then show ?thesis using Cons pump_item_keeps [of st w i] by (simp add: pump_kept_def)
    qed
  qed simp
qed

text \<open>Property C16: no due prompt is forgotten. After a pump of the sending window, each one not yet
  sent has an attempt under way, or its terminal has; or its terminal is not open, and it shows so;
  or it pauses or is held, until its agent's state changes or a time at which, but for the quarter
  of a second between timers, the pump runs again.\<close>

theorem pump_forgets_nothing:
  assumes "st_sender (sr_store s)" and "item \<in> set (st_items (sr_store s))" and "sp_state item = Due" and "sp_id item \<notin> sr_sent s"
  shows "\<exists>soonest. settled w item (pump w s) soonest \<and>
    (\<forall>r. wakes_by soonest r \<longrightarrow> (\<exists>t. sr_timer (pump w s) = Some t \<and> t \<le> max (w_now w + 250) r))"
proof -
  define s1 where "s1 = s\<lparr>sr_sent := sr_sent s \<inter> sp_id ` set (st_items (sr_store s))\<rparr>"
  define st where "st = reconcile_closed w (st_items (sr_store s)) s1"
  define fin where "fin = fold (pump_item w) (st_items (sr_store s)) st"
  have p: "pump w s = arm w (snd fin) (fst fin)"
    using assms(1) by (simp add: pump_def fin_def st_def s1_def Let_def split: prod.splits)
  have "sr_sent (fst st) \<subseteq> sr_sent s"
    using reconcile_closed_keeps(1) [of w "st_items (sr_store s)" s1] by (simp add: st_def s1_def attempts_of_def)
  then have "settled w item (fst fin) (snd fin)"
    unfolding fin_def using assms(2-4) by (intro pump_items_settle) auto
  then have "settled w item (pump w s) (snd fin)" by (simp add: p settled_def)
  moreover have "\<exists>t. sr_timer (pump w s) = Some t \<and> t \<le> max (w_now w + 250) r" if "wakes_by (snd fin) r" for r
    using that by (auto simp: p arm_def wakes_by_def split: option.splits)
  ultimately show ?thesis by blast
qed

section \<open>A sample run\<close>

text \<open>A prompt is typed, taken off the list, put on it again and typed again.\<close>

definition sample_prompt :: prompt where
  "sample_prompt = \<lparr>sp_id = ''p'', sp_projectName = ''site'', sp_historyKey = ''k'', sp_terminalLabel = ''Claude'', sp_agent = ''claude'',
     sp_text = ''hi'', sp_images = [], sp_dueAt = 5, sp_createdAt = 1, sp_state = Due, sp_kind = KindTime, sp_force = False\<rparr>"

definition sample_target :: terminal_target where
  "sample_target = \<lparr>tt_id = ''t'', tt_label = ''Claude'', tt_historyKey = ''k''\<rparr>"

definition sample_world :: "millis \<Rightarrow> world" where
  "sample_world now = \<lparr>w_now = now, w_perf = now, w_outputAt = (\<lambda>_. 0), w_targets = [''site'' \<mapsto> [sample_target]],
     w_entries = Map.empty, w_switching = (\<lambda>_. False), w_savedKeys = (\<lambda>_. []), w_closingKeys = (\<lambda>_. [])\<rparr>"

definition sample_store :: send_store where
  "sample_store = \<lparr>st_items = [sample_prompt], st_loaded = True, st_sender = True, st_rev = 0, st_holds = Map.empty\<rparr>"

definition sample_sends :: "millis \<Rightarrow> (world \<times> runner_event) list" where
  "sample_sends now = [(sample_world now, Microtask), (sample_world now, Foreground 0 ''claude''),
     (sample_world now, PayloadBuilt 0 (Some [''hi'']) (Takes True))]"

definition sample_relist :: "(world \<times> runner_event) list" where
  "sample_relist = [(sample_world 20, Arrived (Some \<lparr>sn_rev = 1, sn_sender = True, sn_items = []\<rparr>)), (sample_world 20, Microtask),
     (sample_world 30, Arrived (Some \<lparr>sn_rev = 2, sn_sender = True, sn_items = [sample_prompt]\<rparr>))]"

lemmas sample_defs = sample_prompt_def sample_target_def sample_world_def sample_store_def sample_sends_def sample_relist_def

lemmas runner_run = run_sender_def startSendLaterRunner_def greet_def announceMissed_def Let_def runner_step_def pump_def
  reconcile_closed_def reconcile_item_def tab_gone_def pump_item_def passed_over_def pump_try_def findTarget_def arm_def sooner_def
  start_attempt_def after_foreground_def current_prompt_def attempt_verdict_def readiness_def quiet_less_def stoppedOnProblem_def
  isWhenDone_def without_nth_def after_payload_def hold_store_def dropSent_def end_attempt_def arrived_def applySnapshot_def
  on_list_changed_def readiness_times

lemma sample_foreground: "foregroundKind ''claude'' = ProgramForeground"
  by code_simp

lemma sample_agent: "agent_state_at (sample_world n) p t = None" "paneAgentOf (sample_world n) p t = None"
  by (cases t; simp add: agent_state_at_def paneAgentOf_def derivePaneStatus_def sample_world_def paneAgentStatus_def no_panes_def Let_def)+

lemma sample_typed:
  "sr_typed (run_sender (startSendLaterRunner sample_store {}) (sample_sends 10)) = [(sample_prompt, sample_target, [''hi''])]"
  "sr_typed (run_sender (startSendLaterRunner sample_store {}) (sample_sends 10 @ sample_relist @ sample_sends 40000)) =
     [(sample_prompt, sample_target, [''hi'']), (sample_prompt, sample_target, [''hi''])]"
  using sample_foreground sample_agent by (simp_all add: runner_run sample_defs)

lemma never_typed_twice_witness:
  "\<exists>n. 0 < length (sr_typed (after_events (startSendLaterRunner sample_store {}) (sample_sends 10 @ sample_relist @ sample_sends 40000) n)) \<and>
    length (sr_typed (after_events (startSendLaterRunner sample_store {}) (sample_sends 10 @ sample_relist @ sample_sends 40000) n)) \<le> 1 \<and>
    ''p'' \<notin> sp_id ` set (st_items (sr_store (after_events (startSendLaterRunner sample_store {}) (sample_sends 10 @ sample_relist @ sample_sends 40000) n)))"
  using never_typed_twice [OF refl sample_typed(2) [symmetric], of 0 1] by (simp add: sample_prompt_def)


lemma pump_forgets_nothing_witness:
  "\<exists>soonest. settled (sample_world 10) sample_prompt (pump (sample_world 10) (startSendLaterRunner sample_store {})) soonest"
proof -
  have "st_sender (sr_store (startSendLaterRunner sample_store {}))"
    "sample_prompt \<in> set (st_items (sr_store (startSendLaterRunner sample_store {})))" "sp_state sample_prompt = Due"
    "sp_id sample_prompt \<notin> sr_sent (startSendLaterRunner sample_store {})"
    by (simp_all add: startSendLaterRunner_def greet_def announceMissed_def Let_def sample_store_def sample_prompt_def)
  from pump_forgets_nothing [OF this, of "sample_world 10"] show ?thesis by blast
qed

end
