(* ===== verification/PeerRouter.thy ===== *)
theory PeerRouter
  imports PeerMarkers SavedLayouts
begin

text \<open>
  \<open>peer/router.ts\<close> and the routing of \<open>peer/route.ts\<close>: which machine a command runs on, its
  arguments as that machine names things, and the results and events that come back, with the
  machine's own names marked. A value of a command or an event is a \<open>json\<close> value; \<open>undefined\<close> is
  \<open>None\<close>, and a field set to \<open>undefined\<close> is left out. Where the code casts a result to a type
  without a check, a result outside that type has no translation (\<open>None\<close>): there it throws, or
  makes up a name from a value that is none.
\<close>

section \<open>Commands and events\<close>

definition LOCAL_ONLY_EXACT :: "string list" where
  "LOCAL_ONLY_EXACT = [''focus_detached_window'', ''focus_main_window'', ''restore_detached_windows'', ''save_window_size'',
     ''load_settings'', ''save_settings'', ''start_tts'', ''stop_tts'', ''pause_tts'', ''resume_tts'', ''check_for_update'',
     ''install_update'', ''rollback_update'', ''cancel_update'', ''scheduled_update'', ''schedule_update'',
     ''cancel_scheduled_update'', ''take_update_note'', ''release_notes'', ''services_build'', ''restart_services'',
     ''load_claude_accounts'', ''save_claude_accounts'', ''remove_claude_account'', ''claude_accounts_status'',
     ''claude_account_usage'', ''claude_pool_state'', ''set_claude_pool'', ''accept_claude_pool_pick'',
     ''resume_claude_pool'', ''vault_export_key'', ''vault_import_key'', ''get_platform'', ''get_version'',
     ''detach_project'', ''attach_project'', ''terminal_claim_control'', ''terminal_present_control'',
     ''terminal_unpresent_control'', ''terminal_control_owner'', ''bring_changes_targets'', ''bring_changes_start'',
     ''bring_changes_cancel'', ''send_later_list'', ''send_later_add'', ''send_later_reschedule'', ''send_later_send_now'',
     ''send_later_remove'', ''notify_unattended'', ''open_in'', ''open_file_in_editor'', ''open_path_in_default_app'',
     ''reveal_in_finder'', ''download_project_file'', ''cancel_file_download'', ''notes_read_file_as_input'',
     ''agent_mention_computers'', ''popup_view_open'', ''popup_view_place'', ''popup_view_push'', ''popup_view_close'']"

definition isLocalOnlyCommand :: "string \<Rightarrow> bool" where
  "isLocalOnlyCommand cmd =
     (starts_with cmd ''peer_'' \<or> starts_with cmd ''remote_'' \<or> starts_with cmd ''tailnet_'' \<or>
      starts_with cmd ''message_history_'' \<or> starts_with cmd ''ignored_sync_'' \<or> cmd \<in> set LOCAL_ONLY_EXACT)"

definition START_TERMINAL_CMDS :: "string list" where
  "START_TERMINAL_CMDS = [''start_terminal'', ''start_terminal_with_cwd_env'', ''start_terminal_for_restore'', ''start_terminal_for_config'',
     ''start_claude_login'']"

definition GLOBAL_PEER_EVENTS :: "string list" where
  "GLOBAL_PEER_EVENTS = [''projects-changed'', ''status-changed'', ''git-changed'', ''ports-changed'', ''port-auto-forwarded'',
     ''port-forward-failed'', ''action-output'', ''action-done'', ''action-bg-output'', ''templates-changed'',
     ''clone-done'', ''duplicate-done'', ''agent-session'', ''agent-session-ended'', ''terminal-command'',
     ''terminals-changed'', ''job-status'', ''job-seen'', ''memory-changed'', ''lpm-commands-changed'',
     ''skill-folds-changed'', ''commit-msg-progress'', ''pr-title-progress'', ''pr-description-progress'',
     ''branch-name-progress'', ''merge-conflict-progress'', ''action-yaml-progress'', ''composer-transform-progress'',
     ''statusline-gen-progress'', ''ai-generate-output'', ''skill-gen-progress'']"

section \<open>Objects\<close>

text \<open>\<open>Object.values\<close>, \<open>Object.entries\<close> and a spread, which read an array as its indices.\<close>

fun obj_entries :: "json \<Rightarrow> (string \<times> json) list" where
  "obj_entries (JObj fs) = fs"
| "obj_entries (JArr xs) = zip (map nat_str [0..<length xs]) xs"
| "obj_entries _ = []"

fun is_object :: "json \<Rightarrow> bool" where
  "is_object (JObj _) = True"
| "is_object (JArr _) = True"
| "is_object _ = False"

definition with_field :: "string \<Rightarrow> json option \<Rightarrow> json \<Rightarrow> json" where
  "with_field k v j = JObj (case v of None \<Rightarrow> obj_entries j | Some x \<Rightarrow> AList.update k x (obj_entries j))"

text \<open>\<open>{ ...j, k: prefixName(slug, j.k) }\<close>, where the field is a string.\<close>

definition with_name :: "string \<Rightarrow> string \<Rightarrow> json \<Rightarrow> json" where
  "with_name slug k j = (case jfield j k of Some (JStr s) \<Rightarrow> with_field k (Some (JStr (prefixName slug s))) j | _ \<Rightarrow> j)"

definition with_root :: "string \<Rightarrow> string \<Rightarrow> json \<Rightarrow> json" where
  "with_root slug k j = (case jfield j k of Some (JStr s) \<Rightarrow> with_field k (Some (JStr (prefixRoot slug s))) j | _ \<Rightarrow> j)"

fun name_in_list :: "string \<Rightarrow> json \<Rightarrow> json" where
  "name_in_list slug (JStr s) = JStr (prefixName slug s)"
| "name_in_list slug j = j"

fun json_truthy :: "json option \<Rightarrow> bool" where
  "json_truthy None = False"
| "json_truthy (Some JNull) = False"
| "json_truthy (Some (JBool b)) = b"
| "json_truthy (Some (JNum n)) = (n \<noteq> 0)"
| "json_truthy (Some (JStr s)) = (s \<noteq> [])"
| "json_truthy (Some _) = True"

section \<open>Arguments\<close>

datatype route_error = MoreThanOneMachine

text \<open>The values a call is routed by: its arguments, and the elements of those that are arrays.\<close>

fun arg_values :: "json \<Rightarrow> json list" where
  "arg_values (JArr xs) = xs"
| "arg_values j = [j]"

fun agree :: "json list \<Rightarrow> string option \<Rightarrow> route_error + string option" where
  "agree [] slug = Inr slug"
| "agree (JStr s # vs) slug =
     (case parsePeerMarker s of
        None \<Rightarrow> agree vs slug
      | Some m \<Rightarrow> if slug = None then agree vs (Some (pm_slug m))
          else if slug \<noteq> Some (pm_slug m) then Inl MoreThanOneMachine
          else agree vs slug)"
| "agree (_ # vs) slug = agree vs slug"

definition findAgreedSlug :: "json option \<Rightarrow> route_error + string option" where
  "findAgreedSlug args = agree (concat (map (arg_values \<circ> snd) (case args of None \<Rightarrow> [] | Some j \<Rightarrow> obj_entries j))) None"

fun strip_value :: "json \<Rightarrow> json" where
  "strip_value (JStr s) = JStr (stripMarker s)"
| "strip_value j = j"

fun strip_arg :: "json \<Rightarrow> json" where
  "strip_arg (JStr s) = JStr (stripMarker s)"
| "strip_arg (JArr xs) = JArr (map strip_value xs)"
| "strip_arg j = j"

definition stripArgs :: "json option \<Rightarrow> json" where
  "stripArgs args = JObj (map (\<lambda>(k, v). (k, strip_arg v)) (case args of None \<Rightarrow> [] | Some j \<Rightarrow> obj_entries j))"

section \<open>Results\<close>

definition prefix_pane :: "string \<Rightarrow> json \<Rightarrow> json option" where
  "prefix_pane slug e =
     (if e = JNull then None
      else if \<not> json_truthy (jfield e ''paneID'') then Some e
      else case jfield e ''paneID'' of
        Some (JStr pane) \<Rightarrow> Some (with_field ''paneID'' (Some (JStr (prefixName slug pane))) e)
      | _ \<Rightarrow> None)"

definition prefixPanes :: "string \<Rightarrow> json option \<Rightarrow> json option" where
  "prefixPanes slug entries = (case entries of
     None \<Rightarrow> Some (JArr [])
   | Some JNull \<Rightarrow> Some (JArr [])
   | Some (JArr es) \<Rightarrow> map_option JArr (those (map (prefix_pane slug) es))
   | Some _ \<Rightarrow> None)"

definition translateProject :: "string \<Rightarrow> json \<Rightarrow> json option" where
  "translateProject slug p =
     (case (jfield p ''name'', jfield p ''root'', prefixPanes slug (jfield p ''statusEntries''), prefixPanes slug (jfield p ''seenEntries'')) of
        (Some (JStr name), Some (JStr path), Some status, Some seen) \<Rightarrow>
          if json_truthy (jfield p ''parentName'') \<and> \<not> (\<exists>s. jfield p ''parentName'' = Some (JStr s)) then None
          else
            let p1 = with_field ''name'' (Some (JStr (prefixName slug name))) p;
                p2 = with_field ''label'' (if json_truthy (jfield p ''label'') then jfield p ''label'' else Some (JStr name)) p1;
                p3 = with_field ''parentName'' (case jfield p ''parentName'' of
                       Some (JStr s) \<Rightarrow> Some (JStr (if s = [] then [] else prefixName slug s)) | v \<Rightarrow> v) p2;
                p4 = with_field ''root'' (Some (JStr (prefixRoot slug path))) p3;
                p5 = with_field ''statusEntries'' (Some status) p4
            in Some (with_field ''seenEntries'' (Some seen) p5)
      | _ \<Rightarrow> None)"

text \<open>The fields \<open>translateJob\<close> adds are read off the row it was given.\<close>

definition translateJob :: "string \<Rightarrow> json \<Rightarrow> json" where
  "translateJob slug row =
     (if \<not> is_object row then row
      else
        let named = (\<lambda>k out. case jfield row k of Some (JStr s) \<Rightarrow> with_field k (Some (JStr (prefixName slug s))) out | _ \<Rightarrow> out);
            ask = (\<lambda>out. case jfield row ''ask'' of
              Some a \<Rightarrow> (case jfield a ''project'' of
                 Some (JStr s) \<Rightarrow> with_field ''ask'' (Some (with_field ''project'' (Some (JStr (prefixName slug s))) a)) out
               | _ \<Rightarrow> out)
            | None \<Rightarrow> out);
            targets = (\<lambda>out. case jfield row ''targets'' of
              Some (JArr ts) \<Rightarrow> with_field ''targets'' (Some (JArr (map (name_in_list slug) ts))) out | _ \<Rightarrow> out)
        in targets (named ''project'' (ask (named ''takeOverIn'' (named ''runningIn''
             (with_field ''host'' (Some (JStr slug)) row))))))"

definition markPath :: "string \<Rightarrow> json \<Rightarrow> json" where
  "markPath slug entry =
     (case jfield entry ''path'' of
        Some (JStr path) \<Rightarrow> if path = [] then entry else with_field ''path'' (Some (JStr (prefixRoot slug path))) entry
      | _ \<Rightarrow> entry)"

definition markPaths :: "string \<Rightarrow> json option \<Rightarrow> json option" where
  "markPaths slug l = (case l of Some (JArr es) \<Rightarrow> Some (JArr (map (markPath slug) es)) | _ \<Rightarrow> l)"

definition SKILL_LIST_CMDS :: "string list" where
  "SKILL_LIST_CMDS = [''list_lpm_commands'', ''save_lpm_command'', ''delete_lpm_command'', ''create_lpm_command_folder'',
     ''rename_lpm_command_folder'', ''delete_lpm_command_folder'', ''move_other_skill'', ''convert_skill'']"

definition mark_skills :: "string \<Rightarrow> json option \<Rightarrow> json option" where
  "mark_skills slug l = (case l of
     None \<Rightarrow> None
   | Some j \<Rightarrow> if is_object j
       then Some (with_field ''others'' (markPaths slug (jfield j ''others'')) (with_field ''commands'' (markPaths slug (jfield j ''commands'')) j))
       else Some j)"

definition markSkillPaths :: "string \<Rightarrow> json option \<Rightarrow> json option" where
  "markSkillPaths slug ls = (case ls of
     None \<Rightarrow> None
   | Some j \<Rightarrow> if is_object j
       then Some (with_field ''project'' (mark_skills slug (jfield j ''project'')) (with_field ''global'' (mark_skills slug (jfield j ''global'')) j))
       else Some j)"

definition translate_take_over :: "string \<Rightarrow> json \<Rightarrow> json option" where
  "translate_take_over slug tab =
     (case (jfield tab ''project'', jfield tab ''task'') of
        (Some (JStr project), Some task) \<Rightarrow>
          (case jfield task ''claudeSession'' of
             Some session \<Rightarrow>
               (case jfield session ''sourceProject'' of
                  Some (JStr source) \<Rightarrow>
                    Some (JObj [(''project'', JStr (prefixName slug project)),
                      (''task'', with_field ''claudeSession'' (Some (with_field ''sourceProject'' (Some (JStr (prefixName slug source))) session)) task)])
                | _ \<Rightarrow> None)
           | None \<Rightarrow> None)
      | _ \<Rightarrow> None)"

definition translate_terminals :: "string \<Rightarrow> json option \<Rightarrow> json option" where
  "translate_terminals slug l = (case l of Some (JArr ts) \<Rightarrow> Some (JArr (map (with_name slug ''id'') ts)) | _ \<Rightarrow> l)"

definition translateResult :: "string \<Rightarrow> string \<Rightarrow> json \<Rightarrow> json option" where
  "translateResult cmd slug result =
     (if cmd = ''list_projects'' then (case result of
          JNull \<Rightarrow> Some (JArr [])
        | JArr ps \<Rightarrow> map_option JArr (those (map (translateProject slug) ps))
        | _ \<Rightarrow> None)
      else if cmd = ''get_project'' \<and> is_object result then translateProject slug result
      else if cmd = ''save_config'' \<and> (\<exists>s. result = JStr s \<and> s \<noteq> []) then Some (name_in_list slug result)
      else if cmd = ''read_memory_sessions'' \<and> is_object result \<and> json_truthy (jfield result ''dir'') then Some (with_root slug ''dir'' result)
      else if cmd = ''action_popup'' \<and> is_object result then Some (with_root slug ''file'' result)
      else case result of
        JArr xs \<Rightarrow>
          if cmd = ''list_all_jobs'' \<or> cmd = ''list_jobs'' then Some (JArr (map (translateJob slug) xs))
          else if cmd = ''take_over_job_run'' then translate_take_over slug result
          else if cmd = ''job_history'' then Some (JArr (map (with_name slug ''copy'') xs))
          else if cmd = ''list_project_terminals'' then translate_terminals slug (Some result)
          else if cmd = ''list_agent_capabilities'' then Some (JObj (obj_entries result))
          else if cmd \<in> set SKILL_LIST_CMDS then markSkillPaths slug (Some result)
          else if cmd = ''import_lpm_commands'' then Some (JObj (obj_entries result))
          else if cmd = ''duplicate_projects'' \<or> cmd = ''remove_projects'' then Some (JArr (map (name_in_list slug) xs))
          else Some result
      | JObj fs \<Rightarrow>
          if cmd = ''take_over_job_run'' then translate_take_over slug result
          else if cmd = ''list_project_terminals'' then
            let r = with_field ''terminals'' (translate_terminals slug (jfield result ''terminals'')) result
            in Some (with_field ''tabs'' (case jfield result ''tabs'' of Some (JArr ids) \<Rightarrow> Some (JArr (map (name_in_list slug) ids)) | v \<Rightarrow> v) r)
          else if cmd = ''list_agent_capabilities'' then
            Some (with_field ''roots'' (markPaths slug (jfield result ''roots'')) (with_field ''items'' (markPaths slug (jfield result ''items'')) result))
          else if cmd = ''read_agent_capability'' then Some (markPath slug result)
          else if cmd \<in> set SKILL_LIST_CMDS then markSkillPaths slug (Some result)
          else if cmd = ''import_lpm_commands'' then Some (with_field ''list'' (markSkillPaths slug (jfield result ''list'')) result)
          else if cmd = ''create_project'' then Some (with_name slug ''name'' result)
          else Some result
      | JStr s \<Rightarrow>
          if cmd = ''create_agent_skill'' then Some (JStr (prefixRoot slug s))
          else if cmd \<in> {''duplicate_project'', ''start_duplicate_project'', ''duplicate_worktree_project'', ''start_duplicate_worktree_project''}
          then Some (JStr (prefixName slug s))
          else Some result
      | _ \<Rightarrow> Some result)"

definition mergeProjectLists :: "json list \<Rightarrow> json list list \<Rightarrow> json list" where
  "mergeProjectLists local peerLists = foldl (@) local peerLists"

section \<open>Events\<close>

definition translatePeerEventPayload :: "string \<Rightarrow> string \<Rightarrow> json \<Rightarrow> json" where
  "translatePeerEventPayload name slug payload =
     (if name \<in> {''status-changed'', ''ports-changed'', ''terminals-changed'', ''memory-changed'', ''lpm-commands-changed''} then
        name_in_list slug payload
      else if name = ''git-changed'' then with_root slug ''path'' payload
      else if name = ''clone-done'' \<or> name = ''duplicate-done'' then with_name slug ''name'' payload
      else if name \<in> {''port-auto-forwarded'', ''port-forward-failed'', ''job-status'', ''job-seen''} then
        (if is_object payload then with_name slug ''copy'' (with_name slug ''project'' (JObj (obj_entries payload))) else payload)
      else if name = ''agent-session'' \<or> name = ''agent-session-ended'' then
        (case (jfield payload ''project'', jfield payload ''paneId'') of
           (Some (JStr _), Some (JStr _)) \<Rightarrow> with_name slug ''paneId'' (with_name slug ''project'' payload)
         | _ \<Rightarrow> payload)
      else if name = ''terminal-command'' then with_name slug ''id'' payload
      else payload)"

section \<open>Routing a call\<close>

text \<open>What \<open>routedInvoke\<close> does with a command: answer from every machine, run it here, fail, or send it
  to a machine with the arguments that machine reads.\<close>

datatype route =
    EveryMachine string
  | Here string "json option"
  | Rejected route_error
  | ToPeer string string json

definition peer_args :: "string \<Rightarrow> json \<Rightarrow> json" where
  "peer_args cmd stripped = (if cmd \<in> set START_TERMINAL_CMDS then with_field ''restoreHere'' (Some (JBool True)) stripped else stripped)"

definition routedInvoke :: "string \<Rightarrow> json option \<Rightarrow> route" where
  "routedInvoke cmd args =
     (if cmd \<in> {''list_projects'', ''list_all_jobs'', ''mark_all_jobs_seen''} then EveryMachine cmd
      else if isLocalOnlyCommand cmd then Here cmd args
      else case findAgreedSlug args of
        Inl e \<Rightarrow> Rejected e
      | Inr None \<Rightarrow> Here cmd args
      | Inr (Some slug) \<Rightarrow> ToPeer slug cmd (peer_args cmd (stripArgs args)))"

section \<open>Calls go where their arguments point\<close>

fun marker_of :: "json \<Rightarrow> peer_marker option" where
  "marker_of (JStr s) = parsePeerMarker s"
| "marker_of _ = None"

definition call_values :: "json option \<Rightarrow> json list" where
  "call_values args = concat (map (arg_values \<circ> snd) (case args of None \<Rightarrow> [] | Some j \<Rightarrow> obj_entries j))"

text \<open>The machine a value names, and those that the arguments of a call name.\<close>

definition machine_of :: "json \<Rightarrow> string option" where
  "machine_of v = map_option pm_slug (marker_of v)"

definition machines_of :: "json list \<Rightarrow> string set" where
  "machines_of vs = {s. \<exists>v\<in>set vs. machine_of v = Some s}"

definition call_machines :: "json option \<Rightarrow> string set" where
  "call_machines args = machines_of (call_values args)"

lemma machines_of_simps [simp]:
  "machines_of [] = {}" "machines_of (v # vs) = set_option (machine_of v) \<union> machines_of vs"
  "machines_of (vs @ ws) = machines_of vs \<union> machines_of ws"
  by (auto simp: machines_of_def)

lemma agree_machines:
  "agree vs slug =
     (let slugs = set_option slug \<union> machines_of vs
      in if slugs = {} then Inr None else if \<exists>s. slugs = {s} then Inr (Some (the_elem slugs)) else Inl MoreThanOneMachine)"
proof (induction vs slug rule: agree.induct)
  case (1 slug)
  then show ?case by (cases slug) (simp_all add: Let_def)
next
  case (2 s vs slug)
  show ?case
  proof (cases "parsePeerMarker s")
    case None
    then show ?thesis using "2.IH"(1) by (simp add: machine_of_def)
  next
    case marked: (Some m)
    show ?thesis
    proof (cases slug)
      case None
      then show ?thesis using "2.IH"(2) [OF marked] by (simp add: machine_of_def marked)
    next
      case (Some t)
      show ?thesis
      proof (cases "t = pm_slug m")
        case True
        then show ?thesis using "2.IH"(3) marked Some by (simp add: machine_of_def)
      next
        case False
        then have "\<not> (\<exists>x. insert t (insert (pm_slug m) (machines_of vs)) = {x})" by (metis insert_iff singletonD)
        then show ?thesis using False marked Some by (simp add: machine_of_def insert_commute)
      qed
    qed
  qed
qed (simp_all add: machine_of_def)

lemma findAgreedSlug_machines:
  "findAgreedSlug args =
     (if call_machines args = {} then Inr None
      else if \<exists>s. call_machines args = {s} then Inr (Some (the_elem (call_machines args))) else Inl MoreThanOneMachine)"
  unfolding findAgreedSlug_def agree_machines call_machines_def call_values_def by (simp add: Let_def)

text \<open>
  Whether a string is marked for a machine, and the machines a call names, said of the arguments
  themselves: a machine is named when an argument, or an element of an argument that is an array,
  is a string marked for it.
\<close>

definition marked_for :: "string \<Rightarrow> string \<Rightarrow> bool" where
  "marked_for slug s \<longleftrightarrow>
     is_slug slug \<and> (\<exists>raw. s = ''peer-'' @ slug @ ''-'' @ raw \<or> (is_host_path raw \<and> s = ''/@peer-'' @ slug @ raw))"

definition named_machines :: "json option \<Rightarrow> string set" where
  "named_machines args =
     {slug. \<exists>j k v s. args = Some j \<and> (k, v) \<in> set (obj_entries j) \<and>
        (v = JStr s \<or> (\<exists>xs. v = JArr xs \<and> JStr s \<in> set xs)) \<and> marked_for slug s}"

lemma marked_for_parse: "marked_for slug s \<longleftrightarrow> (\<exists>m. parsePeerMarker s = Some m \<and> pm_slug m = slug)"
proof
  assume "marked_for slug s"
  then obtain raw where slug: "is_slug slug"
    and s: "s = prefixName slug raw \<or> (is_host_path raw \<and> s = prefixRoot slug raw)"
    unfolding marked_for_def prefixName_def prefixRoot_def by blast
  from s show "\<exists>m. parsePeerMarker s = Some m \<and> pm_slug m = slug"
  proof
    assume "s = prefixName slug raw"
    with slug show ?thesis by (simp add: parsePeerMarker_def)
  next
    assume h: "is_host_path raw \<and> s = prefixRoot slug raw"
    have "match_name s = None" using h by simp
    moreover have "match_root s = Some (slug, raw)" using h match_root_prefix [OF slug] by blast
    ultimately show ?thesis by (simp add: parsePeerMarker_def)
  qed
next
  assume "\<exists>m. parsePeerMarker s = Some m \<and> pm_slug m = slug"
  then obtain m where m: "parsePeerMarker s = Some m" "pm_slug m = slug" by blast
  show "marked_for slug s"
  proof (cases "match_name s")
    case (Some r)
    then obtain raw where "match_name s = Some (slug, raw)" using m by (cases r) (auto simp: parsePeerMarker_def)
    then have "is_slug slug \<and> s = prefixName slug raw" by (rule match_name_Some)
    then show ?thesis unfolding marked_for_def prefixName_def by blast
  next
    case None
    then obtain raw where "match_root s = Some (slug, raw)" using m by (auto simp: parsePeerMarker_def split: option.splits)
    then have "is_slug slug \<and> is_host_path raw \<and> s = prefixRoot slug raw" by (rule match_root_Some)
    then show ?thesis unfolding marked_for_def prefixRoot_def by blast
  qed
qed

lemma named_by_value: "slug \<in> machines_of (arg_values v) \<longleftrightarrow>
  (\<exists>s. (v = JStr s \<or> (\<exists>xs. v = JArr xs \<and> JStr s \<in> set xs)) \<and> marked_for slug s)"
proof -
  have one: "machine_of w = Some slug \<longleftrightarrow> (\<exists>s. w = JStr s \<and> marked_for slug s)" for w
    by (cases w) (auto simp: machine_of_def marked_for_parse)
  show ?thesis by (cases v) (auto simp: machines_of_def one)
qed

lemma call_machines_named: "call_machines args = named_machines args"
proof -
  have "machines_of (concat xss) = (\<Union>xs\<in>set xss. machines_of xs)" for xss by (induction xss) auto
  then have u: "call_machines args =
      (\<Union>kv\<in>set (case args of None \<Rightarrow> [] | Some j \<Rightarrow> obj_entries j). machines_of (arg_values (snd kv)))"
    by (simp add: call_machines_def call_values_def)
  show ?thesis
  proof (cases args)
    case (Some j)
    then show ?thesis
      unfolding u named_machines_def by (auto simp: named_by_value) force+
  qed (simp add: named_machines_def call_machines_def call_values_def)
qed

lemma route_of_call:
  assumes "cmd \<notin> {''list_projects'', ''list_all_jobs'', ''mark_all_jobs_seen''}" and "\<not> isLocalOnlyCommand cmd"
  shows "(routedInvoke cmd args = Here cmd args \<longleftrightarrow> named_machines args = {}) \<and>
    (routedInvoke cmd args = ToPeer slug cmd (peer_args cmd (stripArgs args)) \<longleftrightarrow> named_machines args = {slug}) \<and>
    (routedInvoke cmd args = Rejected MoreThanOneMachine \<longleftrightarrow>
       (\<exists>s\<in>named_machines args. \<exists>t\<in>named_machines args. s \<noteq> t))"
proof -
  have r: "routedInvoke cmd args = (case findAgreedSlug args of
        Inl e \<Rightarrow> Rejected e | Inr None \<Rightarrow> Here cmd args | Inr (Some slug) \<Rightarrow> ToPeer slug cmd (peer_args cmd (stripArgs args)))"
    using assms by (simp add: routedInvoke_def)
  note found = findAgreedSlug_machines [of args, unfolded call_machines_named]
  consider "named_machines args = {}" | s where "named_machines args = {s}"
    | s t where "s \<in> named_machines args" "t \<in> named_machines args" "s \<noteq> t" by blast
  then show ?thesis
  proof cases
    case 1
    then show ?thesis by (simp add: r found)
  next
    case 2
    then show ?thesis by (simp add: r found)
  next
    case 3
    then have n: "named_machines args \<noteq> {}" "\<not> (\<exists>x. named_machines args = {x})"
      by (blast, metis singletonD)
    then have rej: "routedInvoke cmd args = Rejected MoreThanOneMachine" unfolding r found by simp
    have "\<exists>s\<in>named_machines args. \<exists>t\<in>named_machines args. s \<noteq> t" by (intro bexI [OF _ 3(1)] bexI [OF _ 3(2)] 3(3))
    with n show ?thesis unfolding rej by auto
  qed
qed

text \<open>Property C10: where each call goes. Three commands are asked of every machine, and the commands
  this machine keeps to itself run here whatever their arguments say. Any other runs here, with its
  arguments as they are, when none of them, nor an element of one, is marked for a machine; goes to a
  machine, with the marks taken off, when that is the only one named; and is refused, before anything
  is sent, when two machines are named.\<close>

theorem call_routed_by_marks:
  shows "(cmd \<in> {''list_projects'', ''list_all_jobs'', ''mark_all_jobs_seen''} \<longrightarrow> routedInvoke cmd args = EveryMachine cmd) \<and>
    (cmd \<notin> {''list_projects'', ''list_all_jobs'', ''mark_all_jobs_seen''} \<longrightarrow> isLocalOnlyCommand cmd \<longrightarrow>
       routedInvoke cmd args = Here cmd args) \<and>
    (cmd \<notin> {''list_projects'', ''list_all_jobs'', ''mark_all_jobs_seen''} \<longrightarrow> \<not> isLocalOnlyCommand cmd \<longrightarrow>
       (routedInvoke cmd args = Here cmd args \<longleftrightarrow> named_machines args = {}) \<and>
       (routedInvoke cmd args = ToPeer slug cmd (peer_args cmd (stripArgs args)) \<longleftrightarrow> named_machines args = {slug}) \<and>
       (routedInvoke cmd args = Rejected MoreThanOneMachine \<longleftrightarrow>
          (\<exists>s\<in>named_machines args. \<exists>t\<in>named_machines args. s \<noteq> t)))"
  using route_of_call [of cmd args slug] by (auto simp: routedInvoke_def)

lemma call_routed_by_marks_witness:
  "routedInvoke ''move_project'' (Some (JObj [(''a'', JStr ''peer-0000000a-x''), (''b'', JArr [JStr ''peer-0000000b-y''])])) = Rejected MoreThanOneMachine"
proof -
  let ?args = "Some (JObj [(''a'', JStr ''peer-0000000a-x''), (''b'', JArr [JStr ''peer-0000000b-y''])])"
  have m: "marked_for ''0000000a'' ''peer-0000000a-x''" "marked_for ''0000000b'' ''peer-0000000b-y''"
    by (simp_all add: marked_for_def is_slug_def is_hex_def is_digit_def)
  have named: "''0000000a'' \<in> named_machines ?args" using m(1) by (auto simp: named_machines_def)
  have named2: "''0000000b'' \<in> named_machines ?args"
    unfolding named_machines_def mem_Collect_eq
    by (rule exI [where x = "the ?args"], rule exI [where x = "''b''"], rule exI [where x = "JArr [JStr ''peer-0000000b-y'']"],
        rule exI [where x = "''peer-0000000b-y''"]) (simp add: m(2))
  have "''0000000a'' \<noteq> ''0000000b''" by simp
  then have two: "\<exists>s\<in>named_machines ?args. \<exists>t\<in>named_machines ?args. s \<noteq> t"
    by (intro bexI [OF _ named] bexI [OF _ named2])
  have own: "\<not> isLocalOnlyCommand ''move_project''" by code_simp
  have one: "''move_project'' \<notin> {''list_projects'', ''list_all_jobs'', ''mark_all_jobs_seen''}" by simp
  show ?thesis
    by (rule call_routed_by_marks [of "''move_project''" ?args, THEN conjunct2, THEN conjunct2, THEN mp, OF one, THEN mp, OF own,
        THEN conjunct2, THEN conjunct2, THEN iffD2, OF two])
qed

section \<open>The host's own names\<close>

text \<open>How a value of the host's is written here: marked, or as it is when it has no marker of its own.\<close>

fun marks :: "string \<Rightarrow> json \<Rightarrow> json \<Rightarrow> bool" where
  "marks slug (JStr raw) (JStr s) \<longleftrightarrow>
     s = prefixName slug raw \<or> (is_host_path raw \<and> s = prefixRoot slug raw) \<or> (s = raw \<and> parsePeerMarker raw = None)"
| "marks slug (JStr raw) _ \<longleftrightarrow> False"
| "marks slug j j' \<longleftrightarrow> j' = j"

fun marks_arg :: "string \<Rightarrow> json \<Rightarrow> json \<Rightarrow> bool" where
  "marks_arg slug (JArr xs) j \<longleftrightarrow> (\<exists>ys. j = JArr ys \<and> list_all2 (marks slug) xs ys)"
| "marks_arg slug raw j \<longleftrightarrow> marks slug raw j"

lemma parse_marked:
  "is_slug slug \<Longrightarrow> parsePeerMarker (prefixName slug raw) = Some \<lparr>pm_slug = slug, pm_raw = raw, pm_kind = NameMarker\<rparr>"
  "is_slug slug \<Longrightarrow> is_host_path raw \<Longrightarrow> parsePeerMarker (prefixRoot slug raw) = Some \<lparr>pm_slug = slug, pm_raw = raw, pm_kind = RootMarker\<rparr>"
  using match_root_prefix [of slug raw] by (simp_all add: parsePeerMarker_def)

lemma strip_marked:
  assumes "is_slug slug" and "marks slug raw v"
  shows "strip_value v = raw" and "machine_of v = None \<and> v = raw \<or> machine_of v = Some slug"
  using assms(2) parse_marked [OF assms(1)]
  by (cases "(slug, raw, v)" rule: marks.cases; auto simp: stripMarker_def machine_of_def simp del: prefixRoot_slash)+

lemma strip_marked_arg:
  assumes "is_slug slug" and "marks_arg slug raw v"
  shows "strip_arg v = raw \<and> machines_of (arg_values v) \<subseteq> {slug} \<and> (machines_of (arg_values v) = {} \<longrightarrow> v = raw)"
proof (cases raw)
  case (JArr xs)
  then obtain ys where v: "v = JArr ys" "list_all2 (marks slug) xs ys" using assms(2) by auto
  have "map strip_value ys = xs \<and> machines_of ys \<subseteq> {slug} \<and> (machines_of ys = {} \<longrightarrow> ys = xs)"
    using v(2)
  proof (induction rule: list_all2_induct)
    case (Cons x xs y ys)
    then show ?case using strip_marked [OF assms(1) Cons.hyps(1)] by auto
  qed simp
  then show ?thesis by (simp add: JArr v(1))
next
  case (JStr r)
  then obtain s where v: "v = JStr s" using assms(2) by (cases v) auto
  then have "marks slug raw v" using assms(2) JStr by simp
  from strip_marked [OF assms(1) this] show ?thesis by (auto simp: v)
qed (use assms(2) in \<open>auto simp: machine_of_def\<close>)

lemma args_come_back:
  assumes "is_slug slug" and "list_all2 (\<lambda>(k, raw) (k', v). k = k' \<and> marks_arg slug raw v) host_args args"
  shows "stripArgs (Some (JObj args)) = JObj host_args \<and>
    (findAgreedSlug (Some (JObj args)) = Inr (Some slug) \<or> (findAgreedSlug (Some (JObj args)) = Inr None \<and> args = host_args))"
proof -
  have "map (\<lambda>(k, v). (k, strip_arg v)) args = host_args \<and>
      call_machines (Some (JObj args)) \<subseteq> {slug} \<and> (call_machines (Some (JObj args)) = {} \<longrightarrow> args = host_args)"
    using assms(2)
  proof (induction rule: list_all2_induct)
    case Nil
    show ?case by (simp add: call_machines_def call_values_def)
  next
    case (Cons raw raws arg args)
    obtain k r v where kv: "raw = (k, r)" "arg = (k, v)" "marks_arg slug r v" using Cons.hyps(1) by (cases raw; cases arg) auto
    have "call_machines (Some (JObj (arg # args))) = machines_of (arg_values v) \<union> call_machines (Some (JObj args))"
      by (simp add: call_machines_def call_values_def kv(2))
    then show ?case using Cons.IH strip_marked_arg [OF assms(1) kv(3)] by (auto simp: kv)
  qed
  then have h: "map (\<lambda>(k, v). (k, strip_arg v)) args = host_args" "call_machines (Some (JObj args)) \<subseteq> {slug}"
    "call_machines (Some (JObj args)) = {} \<longrightarrow> args = host_args" by blast+
  have "stripArgs (Some (JObj args)) = JObj host_args" by (simp add: stripArgs_def h(1))
  moreover have "call_machines (Some (JObj args)) = {} \<or> call_machines (Some (JObj args)) = {slug}" using h(2) by blast
  ultimately show ?thesis using h(3) by (elim disjE) (simp_all add: findAgreedSlug_machines)
qed

text \<open>
  That a value shown here reaches the machine it came from as that machine wrote it, when a call
  passes it as an argument; and that each such value of a field of an answer does.
\<close>

definition comes_back :: "string \<Rightarrow> string \<Rightarrow> json \<Rightarrow> json \<Rightarrow> bool" where
  "comes_back slug cmd raw v \<longleftrightarrow>
     (\<forall>k. routedInvoke cmd (Some (JObj [(k, v)])) = ToPeer slug cmd (peer_args cmd (JObj [(k, raw)])))"

definition field_back :: "string \<Rightarrow> string \<Rightarrow> (string \<Rightarrow> bool) \<Rightarrow> string \<Rightarrow> json \<Rightarrow> json \<Rightarrow> bool" where
  "field_back slug cmd P k theirs shown \<longleftrightarrow>
     (\<forall>raw. jfield theirs k = Some (JStr raw) \<longrightarrow> P raw \<longrightarrow> (\<exists>v. jfield shown k = Some v \<and> comes_back slug cmd (JStr raw) v))"

definition panes_back :: "string \<Rightarrow> string \<Rightarrow> string \<Rightarrow> json \<Rightarrow> json \<Rightarrow> bool" where
  "panes_back slug cmd k theirs shown \<longleftrightarrow>
     (\<forall>es. jfield theirs k = Some (JArr es) \<longrightarrow>
        (\<exists>fs. jfield shown k = Some (JArr fs) \<and> list_all2 (field_back slug cmd (\<lambda>pane. pane \<noteq> []) ''paneID'') es fs))"

lemma call_returns:
  assumes "is_slug slug" and "list_all2 (\<lambda>(k, raw) (k', v). k = k' \<and> marks_arg slug raw v) host_args args"
    and "cmd \<notin> {''list_projects'', ''list_all_jobs'', ''mark_all_jobs_seen''}" and "\<not> isLocalOnlyCommand cmd"
  shows "routedInvoke cmd (Some (JObj args)) = ToPeer slug cmd (peer_args cmd (JObj host_args)) \<or>
    (routedInvoke cmd (Some (JObj args)) = Here cmd (Some (JObj args)) \<and> args = host_args)"
  using args_come_back [OF assms(1,2)] assms(3,4) by (auto simp: routedInvoke_def)

lemma name_comes_back:
  assumes "is_slug slug" and "cmd \<notin> {''list_projects'', ''list_all_jobs'', ''mark_all_jobs_seen''}" and "\<not> isLocalOnlyCommand cmd"
  shows "comes_back slug cmd (JStr raw) (JStr (prefixName slug raw))"
    and "is_host_path raw \<Longrightarrow> comes_back slug cmd (JStr raw) (JStr (prefixRoot slug raw))"
proof -
  have "findAgreedSlug (Some (JObj [(k, JStr s)])) = Inr (Some slug) \<and> stripArgs (Some (JObj [(k, JStr s)])) = JObj [(k, JStr raw)]"
    if "parsePeerMarker s = Some m" "pm_slug m = slug" "pm_raw m = raw" for k s m
    using that by (simp add: findAgreedSlug_def stripArgs_def stripMarker_def)
  with parse_marked [OF assms(1)] assms(2,3)
  show "comes_back slug cmd (JStr raw) (JStr (prefixName slug raw))"
    and "is_host_path raw \<Longrightarrow> comes_back slug cmd (JStr raw) (JStr (prefixRoot slug raw))"
    by (simp_all add: comes_back_def routedInvoke_def del: prefixRoot_slash)
qed

lemma jfield_with_field:
  "jfield (with_field k v j) k' = (if k' = k \<and> v \<noteq> None then v else map_of (obj_entries j) k')"
  by (auto simp: with_field_def update_conv' split: option.splits)

lemma map_of_entries: "jfield j k = Some v \<Longrightarrow> map_of (obj_entries j) k = Some v"
  by (cases j) auto

lemma obj_entries_with [simp]: "obj_entries (with_field k v j) = (case v of None \<Rightarrow> obj_entries j | Some x \<Rightarrow> AList.update k x (obj_entries j))"
  by (simp add: with_field_def)

lemma those_all2: "those (map f xs) = Some ys \<Longrightarrow> list_all2 (\<lambda>x y. f x = Some y) xs ys"
  by (induction xs arbitrary: ys) (auto split: option.splits)

lemma prefix_pane_back:
  assumes "is_slug slug" and "cmd \<notin> {''list_projects'', ''list_all_jobs'', ''mark_all_jobs_seen''}" and "\<not> isLocalOnlyCommand cmd"
    and "prefix_pane slug e = Some f"
  shows "field_back slug cmd (\<lambda>pane. pane \<noteq> []) ''paneID'' e f"
  unfolding field_back_def
proof (intro allI impI)
  fix pane assume p: "jfield e ''paneID'' = Some (JStr pane)" "pane \<noteq> []"
  then have "f = with_field ''paneID'' (Some (JStr (prefixName slug pane))) e"
    using assms(4) by (simp add: prefix_pane_def split: if_splits)
  with name_comes_back(1) [OF assms(1-3)] show "\<exists>v. jfield f ''paneID'' = Some v \<and> comes_back slug cmd (JStr pane) v"
    by (simp add: jfield_with_field)
qed

lemma prefixPanes_back:
  assumes "is_slug slug" and "cmd \<notin> {''list_projects'', ''list_all_jobs'', ''mark_all_jobs_seen''}" and "\<not> isLocalOnlyCommand cmd"
    and "prefixPanes slug (Some (JArr es)) = Some fs"
  shows "\<exists>gs. fs = JArr gs \<and> list_all2 (field_back slug cmd (\<lambda>pane. pane \<noteq> []) ''paneID'') es gs"
proof -
  obtain gs where gs: "those (map (prefix_pane slug) es) = Some gs" "fs = JArr gs"
    using assms(4) by (auto simp: prefixPanes_def)
  have "list_all2 (field_back slug cmd (\<lambda>pane. pane \<noteq> []) ''paneID'') es gs"
    using list_all2_mono [OF those_all2 [OF gs(1)]] prefix_pane_back [OF assms(1-3)] by blast
  with gs(2) show ?thesis by blast
qed

text \<open>Fields set one at a time, on an object.\<close>

definition is_obj :: "json \<Rightarrow> bool" where
  "is_obj j \<longleftrightarrow> (\<exists>fs. j = JObj fs)"

lemma obj_with [simp]: "is_obj (with_field k v j)"
  by (simp add: is_obj_def with_field_def)

lemma get_with: "is_obj j \<Longrightarrow> jfield (with_field k v j) k' = (if k' = k \<and> v \<noteq> None then v else jfield j k')"
  by (auto simp: is_obj_def jfield_with_field)

lemma project_back:
  assumes "is_slug slug" and "cmd \<notin> {''list_projects'', ''list_all_jobs'', ''mark_all_jobs_seen''}" and "\<not> isLocalOnlyCommand cmd"
    and "translateProject slug p = Some q"
  shows "field_back slug cmd (\<lambda>_. True) ''name'' p q" "field_back slug cmd (\<lambda>s. s \<noteq> []) ''parentName'' p q"
    "field_back slug cmd is_host_path ''root'' p q" "panes_back slug cmd ''statusEntries'' p q" "panes_back slug cmd ''seenEntries'' p q"
proof -
  obtain name path status seen where f: "jfield p ''name'' = Some (JStr name)" "jfield p ''root'' = Some (JStr path)"
      "prefixPanes slug (jfield p ''statusEntries'') = Some status" "prefixPanes slug (jfield p ''seenEntries'') = Some seen"
    using assms(4) by (auto simp: translateProject_def split: option.splits json.splits)
  have po: "is_obj p" using f(1) by (cases p) (simp_all add: is_obj_def)
  define lbl where "lbl = (if json_truthy (jfield p ''label'') then jfield p ''label'' else Some (JStr name))"
  define parent where "parent = (case jfield p ''parentName'' of
      Some (JStr s) \<Rightarrow> Some (JStr (if s = [] then [] else prefixName slug s)) | v \<Rightarrow> v)"
  have q: "q = with_field ''seenEntries'' (Some seen) (with_field ''statusEntries'' (Some status)
      (with_field ''root'' (Some (JStr (prefixRoot slug path))) (with_field ''parentName'' parent (with_field ''label'' lbl
        (with_field ''name'' (Some (JStr (prefixName slug name))) p)))))"
    using assms(4) unfolding translateProject_def Let_def f option.case json.case prod.case lbl_def [symmetric] parent_def [symmetric]
    by (simp only: option.inject option.distinct split: if_splits)
  have parent: "parent = Some (JStr (prefixName slug s))" if "jfield p ''parentName'' = Some (JStr s)" "s \<noteq> []" for s
    using that by (simp add: parent_def)
  have q: "jfield q ''name'' = Some (JStr (prefixName slug name))" "jfield q ''root'' = Some (JStr (prefixRoot slug path))"
      "jfield q ''statusEntries'' = Some status" "jfield q ''seenEntries'' = Some seen"
      "\<And>s. jfield p ''parentName'' = Some (JStr s) \<Longrightarrow> s \<noteq> [] \<Longrightarrow> jfield q ''parentName'' = Some (JStr (prefixName slug s))"
    using parent by (simp_all add: q get_with po del: prefixRoot_slash)
  note again = name_comes_back [OF assms(1-3)] and panes = prefixPanes_back [OF assms(1-3)]
  show "field_back slug cmd (\<lambda>_. True) ''name'' p q" unfolding field_back_def using f(1) q(1) again(1) by simp
  show "field_back slug cmd (\<lambda>s. s \<noteq> []) ''parentName'' p q" unfolding field_back_def using q(5) again(1) by blast
  show "field_back slug cmd is_host_path ''root'' p q"
    unfolding field_back_def using f(2) q(2) again(2) by (simp del: prefixRoot_slash)
  show "panes_back slug cmd ''statusEntries'' p q" unfolding panes_back_def
  proof (intro allI impI)
    fix es assume "jfield p ''statusEntries'' = Some (JArr es)"
    with f(3) have "prefixPanes slug (Some (JArr es)) = Some status" by simp
    from panes [OF this] q(3)
    show "\<exists>fs. jfield q ''statusEntries'' = Some (JArr fs) \<and> list_all2 (field_back slug cmd (\<lambda>pane. pane \<noteq> []) ''paneID'') es fs" by simp
  qed
  show "panes_back slug cmd ''seenEntries'' p q" unfolding panes_back_def
  proof (intro allI impI)
    fix es assume "jfield p ''seenEntries'' = Some (JArr es)"
    with f(4) have "prefixPanes slug (Some (JArr es)) = Some seen" by simp
    from panes [OF this] q(4)
    show "\<exists>fs. jfield q ''seenEntries'' = Some (JArr fs) \<and> list_all2 (field_back slug cmd (\<lambda>pane. pane \<noteq> []) ''paneID'') es fs" by simp
  qed
qed

lemma obj_named: "is_obj out \<Longrightarrow> is_obj (case v of Some (JStr s) \<Rightarrow> with_field k (Some (JStr (prefixName slug s))) out | _ \<Rightarrow> out)"
  by (simp split: option.split json.split)

lemma get_named: "is_obj out \<Longrightarrow>
    jfield (case v of Some (JStr s) \<Rightarrow> with_field k (Some (JStr (prefixName slug s))) out | _ \<Rightarrow> out) k' =
    (case v of Some (JStr s) \<Rightarrow> if k' = k then Some (JStr (prefixName slug s)) else jfield out k' | _ \<Rightarrow> jfield out k')"
  by (simp add: get_with split: option.split json.split)

lemma job_fields:
  assumes "is_object row"
  shows "jfield (translateJob slug row) ''host'' = Some (JStr slug)"
    and "k \<in> {''project'', ''runningIn'', ''takeOverIn''} \<Longrightarrow> jfield row k = Some (JStr raw) \<Longrightarrow>
      jfield (translateJob slug row) k = Some (JStr (prefixName slug raw))"
proof -
  define named where "named k out = (case jfield row k of Some (JStr s) \<Rightarrow> with_field k (Some (JStr (prefixName slug s))) out | _ \<Rightarrow> out)" for k out
  define ask where "ask out = (case jfield row ''ask'' of
      Some a \<Rightarrow> (case jfield a ''project'' of
         Some (JStr s) \<Rightarrow> with_field ''ask'' (Some (with_field ''project'' (Some (JStr (prefixName slug s))) a)) out
       | _ \<Rightarrow> out)
    | None \<Rightarrow> out)" for out
  define targets where "targets out = (case jfield row ''targets'' of
      Some (JArr ts) \<Rightarrow> with_field ''targets'' (Some (JArr (map (name_in_list slug) ts))) out | _ \<Rightarrow> out)" for out
  define host where "host = with_field ''host'' (Some (JStr slug)) row"
  have eq: "translateJob slug row = targets (named ''project'' (ask (named ''takeOverIn'' (named ''runningIn'' host))))"
    using assms by (simp add: translateJob_def Let_def named_def ask_def targets_def host_def)
  have obj: "is_obj (named k out)" "is_obj (ask out)" "is_obj (targets out)" if "is_obj out" for k out
    using that by (simp_all add: named_def ask_def targets_def obj_named split: option.split json.split)
  have got: "jfield (named k out) k' = (if k' = k \<and> (\<exists>s. jfield row k = Some (JStr s)) then Some (JStr (prefixName slug (SOME s. jfield row k = Some (JStr s)))) else jfield out k')"
    "k' \<noteq> ''ask'' \<Longrightarrow> jfield (ask out) k' = jfield out k'" "k' \<noteq> ''targets'' \<Longrightarrow> jfield (targets out) k' = jfield out k'"
    if "is_obj out" for k out k'
    using that by (simp_all add: named_def ask_def targets_def get_with split: option.split json.split)
  have base: "is_obj host" "jfield host ''host'' = Some (JStr slug)"
    by (simp_all add: host_def jfield_with_field)
  show "jfield (translateJob slug row) ''host'' = Some (JStr slug)"
    by (simp add: eq got obj base)
  show "jfield (translateJob slug row) k = Some (JStr (prefixName slug raw))"
    if "k \<in> {''project'', ''runningIn'', ''takeOverIn''}" "jfield row k = Some (JStr raw)"
    using that by (elim insertE emptyE) (simp_all add: eq got obj base(1))
qed

lemma job_back:
  assumes "is_slug slug" and "cmd \<notin> {''list_projects'', ''list_all_jobs'', ''mark_all_jobs_seen''}" and "\<not> isLocalOnlyCommand cmd"
    and "k \<in> {''project'', ''runningIn'', ''takeOverIn''}"
  shows "field_back slug cmd (\<lambda>_. True) k row (translateJob slug row)"
proof (cases "is_object row")
  case True
  then show ?thesis using job_fields(2) [OF True assms(4)] name_comes_back(1) [OF assms(1-3)] by (simp add: field_back_def)
next
  case False
  then show ?thesis by (cases row) (simp_all add: field_back_def)
qed



section \<open>Events\<close>

text \<open>A value with every mark taken off it.\<close>

fun unmark :: "json \<Rightarrow> json" where
  "unmark (JStr s) = JStr (stripMarker s)"
| "unmark (JArr xs) = JArr (map unmark xs)"
| "unmark (JObj fs) = JObj (map (\<lambda>(k, v). (k, unmark v)) fs)"
| "unmark j = j"

lemma map_of_unmark: "map_of (map (\<lambda>(k, v). (k, unmark v)) fs) k = map_option unmark (map_of fs k)"
  by (induction fs) auto

lemma update_unmark: "map (\<lambda>(k, v). (k, unmark v)) (AList.update k v fs) = AList.update k (unmark v) (map (\<lambda>(k, v). (k, unmark v)) fs)"
  by (induction fs) auto

lemma update_same: "map_of fs k = Some v \<Longrightarrow> AList.update k v fs = fs"
  by (induction fs) (auto split: if_splits)

lemma unmark_with_name:
  assumes "is_slug slug" and "\<And>s. jfield j k = Some (JStr s) \<Longrightarrow> stripMarker s = s"
  shows "unmark (with_name slug k j) = unmark j"
proof (cases "\<exists>s. jfield j k = Some (JStr s)")
  case True
  then obtain fs s where j: "j = JObj fs" "map_of fs k = Some (JStr s)" by (cases j) auto
  then have "map_of (map (\<lambda>(k, v). (k, unmark v)) fs) k = Some (JStr s)" using assms(2) by (simp add: map_of_unmark)
  then show ?thesis
    using j parse_marked(1) [OF assms(1)] by (simp add: with_name_def with_field_def update_unmark stripMarker_def update_same)
qed (auto simp: with_name_def split: option.split json.split)

lemma unmark_with_root:
  assumes "is_slug slug" and "\<And>s. jfield j k = Some (JStr s) \<Longrightarrow> stripMarker s = s \<and> is_host_path s"
  shows "unmark (with_root slug k j) = unmark j"
proof (cases "\<exists>s. jfield j k = Some (JStr s)")
  case True
  then obtain fs s where j: "j = JObj fs" "map_of fs k = Some (JStr s)" "is_host_path s" using assms(2) by (cases j) auto
  then have "map_of (map (\<lambda>(k, v). (k, unmark v)) fs) k = Some (JStr s)" using assms(2) by (simp add: map_of_unmark)
  then show ?thesis
    using j parse_marked(2) [OF assms(1) j(3)]
    by (simp add: with_root_def with_field_def update_unmark stripMarker_def update_same del: prefixRoot_slash)
qed (auto simp: with_root_def split: option.split json.split)

lemma plain_field: "unmark j = j \<Longrightarrow> jfield j k = Some (JStr s) \<Longrightarrow> stripMarker s = s"
proof (cases j)
  case (JObj fs)
  assume p: "unmark j = j" and f: "jfield j k = Some (JStr s)"
  have "map (\<lambda>(k, v). (k, unmark v)) fs = fs" using p by (simp add: JObj)
  then have "map_option unmark (map_of fs k) = map_of fs k" using map_of_unmark [of fs k] by simp
  then show "stripMarker s = s" using f by (simp add: JObj)
qed simp_all

lemma jfield_with_name_other: "k \<noteq> k' \<Longrightarrow> jfield (with_name slug k' j) k = jfield j k"
  by (cases j) (auto simp: with_name_def with_field_def update_conv' split: option.split json.split)

lemma unmark_two_names:
  assumes "is_slug slug" and "unmark j = j" and "k \<noteq> k'"
  shows "unmark (with_name slug k (with_name slug k' j)) = j"
proof -
  have "unmark (with_name slug k (with_name slug k' j)) = unmark (with_name slug k' j)"
    using plain_field [OF assms(2)] jfield_with_name_other [OF assms(3)] by (intro unmark_with_name [OF assms(1)]) simp
  also have "\<dots> = unmark j" using plain_field [OF assms(2)] by (intro unmark_with_name [OF assms(1)])
  finally show ?thesis using assms(2) by simp
qed

text \<open>Translating an event only marks it. For any event a machine forwards, with no marks of
  its own and its folder an absolute path, taking the marks off the translated payload gives back
  the payload the machine sent, whatever else is in it.\<close>

theorem event_translation_only_marks:
  assumes "is_slug slug" and "unmark payload = payload" and "\<And>xs. payload \<noteq> JArr xs"
    and "\<And>path. name = ''git-changed'' \<Longrightarrow> jfield payload ''path'' = Some (JStr path) \<Longrightarrow> is_host_path path"
  shows "unmark (translatePeerEventPayload name slug payload) = payload"
proof -
  have bare: "unmark (name_in_list slug payload) = payload"
    using assms(2) parse_marked(1) [OF assms(1)] by (cases payload) (simp_all add: stripMarker_def)
  have names: "unmark (with_name slug k payload) = payload" for k
    using unmark_with_name [OF assms(1)] plain_field [OF assms(2)] assms(2) by simp
  have path: "unmark (with_root slug ''path'' payload) = payload" if "name = ''git-changed''"
    using unmark_with_root [OF assms(1)] plain_field [OF assms(2)] assms(2) assms(4) [OF that] by simp
  have two: "unmark (with_name slug k (with_name slug k' payload)) = payload" if "k \<noteq> k'" for k k'
    by (rule unmark_two_names [OF assms(1,2) that])
  have obj: "JObj (obj_entries payload) = payload" if "is_object payload" using that assms(3) by (cases payload) auto
  show ?thesis
    unfolding translatePeerEventPayload_def using bare names path two obj assms(2)
    by (simp split: option.split json.split)
qed

lemma event_translation_only_marks_witness:
  "unmark (translatePeerEventPayload ''agent-session'' ''0000000a''
     (JObj [(''project'', JStr ''site''), (''paneId'', JStr ''7''), (''turn'', JNum 2)])) =
   JObj [(''project'', JStr ''site''), (''paneId'', JStr ''7''), (''turn'', JNum 2)]"
proof -
  have "stripMarker ''site'' = ''site''" "stripMarker ''7'' = ''7''" by code_simp+
  then show ?thesis
    by (intro event_translation_only_marks) (simp_all add: is_slug_def is_hex_def is_digit_def)
qed

end
