(* ===== verification/YamlQueue.thy ===== *)
theory YamlQueue
  imports PeerMarkers
begin

text \<open>
  \<open>yamlQueue.ts\<close>: every change of a config file, a read, an edit and a save with waits between them,
  goes through one queue per key, so changes of the same file never mix. A layer is the file it
  reads and saves. The YAML library is two parameters, \<open>parse\<close> and \<open>print\<close> of a document; a mutation
  of a document gives the document it leaves, or the error it throws. The state is the files, the
  queues with how far the first job of each has come, and the walks that wait for a job; an event is
  one wait that ends.
\<close>

section \<open>Layers\<close>

definition GLOBAL_QUEUE_KEY :: string where "GLOBAL_QUEUE_KEY = ''__global__''"

datatype layer = ProjectLayer string | RepoLayer string | GlobalLayer | PeerGlobalLayer string

fun queueKey :: "layer \<Rightarrow> string" where
  "queueKey (ProjectLayer projectName) = projectName"
| "queueKey (RepoLayer projectName) = projectName"
| "queueKey GlobalLayer = GLOBAL_QUEUE_KEY"
| "queueKey (PeerGlobalLayer slug) = GLOBAL_QUEUE_KEY @ '':'' @ slug"

definition globalLayerOf :: "string option \<Rightarrow> layer" where
  "globalLayerOf slug = (case keep_truthy slug of None \<Rightarrow> GlobalLayer | Some s \<Rightarrow> PeerGlobalLayer s)"

definition projectGlobalLayer :: "string \<Rightarrow> layer" where
  "projectGlobalLayer projectName = globalLayerOf (peerSlugOf projectName)"

text \<open>What a failed read of a layer reads as, or the error it is.\<close>

fun failed_read :: "layer \<Rightarrow> string \<Rightarrow> string + string" where
  "failed_read (RepoLayer _) err = Inr []"
| "failed_read _ err = Inl err"

fun string_includes :: "string \<Rightarrow> string \<Rightarrow> bool" where
  "string_includes [] sub = (sub = [])"
| "string_includes (c # s) sub = (starts_with (c # s) sub \<or> string_includes s sub)"

definition explainRefusal :: "string \<Rightarrow> string" where
  "explainRefusal err =
     (if string_includes err ''not permitted'' then ''Update lpm on that machine to change its global config from here'' else err)"

fun failed_save :: "layer \<Rightarrow> string \<Rightarrow> string" where
  "failed_save (PeerGlobalLayer _) err = explainRefusal err"
| "failed_save _ err = err"

section \<open>Jobs\<close>

text \<open>What an edit makes of the content it read: nothing to save, a new content, or an error.\<close>

datatype edit_result = Unchanged | Changed string | EditThrows string

datatype write_task = SaveContent layer string | EditContent layer "string \<Rightarrow> edit_result"

fun task_layer :: "write_task \<Rightarrow> layer" where
  "task_layer (SaveContent l _) = l"
| "task_layer (EditContent l _) = l"

definition saveLayer :: "layer \<Rightarrow> string \<Rightarrow> write_task" where
  "saveLayer l content = SaveContent l content"

definition doc_of :: "(string \<Rightarrow> 'd) \<Rightarrow> string \<Rightarrow> 'd" where
  "doc_of parse content = parse (if content = [] then ''{}'' else content)"

definition editLayer :: "(string \<Rightarrow> 'd) \<Rightarrow> ('d \<Rightarrow> string) \<Rightarrow> layer \<Rightarrow> ('d \<Rightarrow> string + 'd) \<Rightarrow> write_task" where
  "editLayer parse print l mutate =
     EditContent l (\<lambda>content. case mutate (doc_of parse content) of Inl err \<Rightarrow> EditThrows err | Inr doc \<Rightarrow> Changed (print doc))"

definition editProjectDoc :: "(string \<Rightarrow> 'd) \<Rightarrow> ('d \<Rightarrow> string) \<Rightarrow> string \<Rightarrow> ('d \<Rightarrow> string + 'd) \<Rightarrow> write_task" where
  "editProjectDoc parse print projectName = editLayer parse print (ProjectLayer projectName)"

definition editRepoDoc :: "(string \<Rightarrow> 'd) \<Rightarrow> ('d \<Rightarrow> string) \<Rightarrow> string \<Rightarrow> ('d \<Rightarrow> string + 'd) \<Rightarrow> write_task" where
  "editRepoDoc parse print projectName = editLayer parse print (RepoLayer projectName)"

definition editGlobalDoc :: "(string \<Rightarrow> 'd) \<Rightarrow> ('d \<Rightarrow> string) \<Rightarrow> ('d \<Rightarrow> string + 'd) \<Rightarrow> write_task" where
  "editGlobalDoc parse print = editLayer parse print GlobalLayer"

definition editProjectGlobalDoc :: "(string \<Rightarrow> 'd) \<Rightarrow> ('d \<Rightarrow> string) \<Rightarrow> string \<Rightarrow> ('d \<Rightarrow> string + 'd) \<Rightarrow> write_task" where
  "editProjectGlobalDoc parse print projectName = editLayer parse print (projectGlobalLayer projectName)"

text \<open>One layer of a walk: the attempt says whether it changed the document.\<close>

definition attemptLayer :: "(string \<Rightarrow> 'd) \<Rightarrow> ('d \<Rightarrow> string) \<Rightarrow> ('d \<Rightarrow> string + bool \<times> 'd) \<Rightarrow> layer \<Rightarrow> write_task" where
  "attemptLayer parse print attempt l =
     EditContent l (\<lambda>content. case attempt (doc_of parse content) of
        Inl err \<Rightarrow> EditThrows err
      | Inr (changed, doc) \<Rightarrow> if changed then Changed (print doc) else Unchanged)"

section \<open>State\<close>

record write_job =
  jb_id :: nat
  jb_task :: write_task

datatype job_phase = NotStarted | Reading | Saving string bool

text \<open>A walk: the tasks of the layers still to come, whether it stops on the first change, whether any
  layer changed.\<close>

record layer_walk =
  lw_rest :: "write_task list"
  lw_stop :: bool
  lw_any :: bool

text \<open>What became of a job: it failed, with its error and nothing written, or it went through, with
  whether its read succeeded and whether it wrote.\<close>

datatype job_end = JobFails string | JobEnds bool bool

record queue_state =
  qs_files :: "layer \<Rightarrow> string"
  qs_queues :: "string \<Rightarrow> write_job list"
  qs_phase :: "string \<Rightarrow> job_phase"
  qs_next :: nat
  qs_walks :: "nat \<Rightarrow> layer_walk option"
  qs_log :: "(write_job \<times> job_end) list"
  qs_answers :: "(string + bool) list"

definition queueWrite :: "write_task \<Rightarrow> queue_state \<Rightarrow> queue_state" where
  "queueWrite task s =
     (let key = queueKey (task_layer task); job = \<lparr>jb_id = qs_next s, jb_task = task\<rparr>
      in s\<lparr>qs_queues := (qs_queues s)(key := qs_queues s key @ [job]), qs_next := Suc (qs_next s)\<rparr>)"

text \<open>The loop of \<open>walkLayers\<close> up to its next wait: it answers, or queues its next layer and waits.\<close>

definition walk_on :: "layer_walk \<Rightarrow> queue_state \<Rightarrow> queue_state" where
  "walk_on walk s =
     (case lw_rest walk of
        [] \<Rightarrow> s\<lparr>qs_answers := qs_answers s @ [Inr (lw_any walk)]\<rparr>
      | task # rest \<Rightarrow> queueWrite task (s\<lparr>qs_walks := (qs_walks s)(qs_next s \<mapsto> walk\<lparr>lw_rest := rest\<rparr>)\<rparr>))"

definition walkLayers :: "write_task list \<Rightarrow> bool \<Rightarrow> queue_state \<Rightarrow> queue_state" where
  "walkLayers tasks stopOnFirst s = walk_on \<lparr>lw_rest = tasks, lw_stop = stopOnFirst, lw_any = False\<rparr> s"

definition editFirstLayer ::
  "(string \<Rightarrow> 'd) \<Rightarrow> ('d \<Rightarrow> string) \<Rightarrow> layer list \<Rightarrow> ('d \<Rightarrow> string + bool \<times> 'd) \<Rightarrow> queue_state \<Rightarrow> queue_state" where
  "editFirstLayer parse print ls attempt = walkLayers (map (attemptLayer parse print attempt) ls) True"

definition editAllLayers ::
  "(string \<Rightarrow> 'd) \<Rightarrow> ('d \<Rightarrow> string) \<Rightarrow> layer list \<Rightarrow> ('d \<Rightarrow> string + bool \<times> 'd) \<Rightarrow> queue_state \<Rightarrow> queue_state" where
  "editAllLayers parse print ls attempt = walkLayers (map (attemptLayer parse print attempt) ls) False"

text \<open>The walk that waited for a job goes on with its answer.\<close>

definition wake_walk :: "nat \<Rightarrow> job_end \<Rightarrow> queue_state \<Rightarrow> queue_state" where
  "wake_walk i outcome s =
     (case qs_walks s i of
        None \<Rightarrow> s
      | Some walk \<Rightarrow>
          (let s = s\<lparr>qs_walks := (qs_walks s)(i := None)\<rparr> in
           case outcome of
             JobFails err \<Rightarrow> s\<lparr>qs_answers := qs_answers s @ [Inl err]\<rparr>
           | JobEnds _ changed \<Rightarrow>
               if changed \<and> lw_stop walk then s\<lparr>qs_answers := qs_answers s @ [Inr True]\<rparr>
               else walk_on (walk\<lparr>lw_any := lw_any walk \<or> changed\<rparr>) s))"

text \<open>A job settles: the next one of its queue may start, whichever way it went.\<close>

definition settle_job :: "string \<Rightarrow> write_job \<Rightarrow> job_end \<Rightarrow> queue_state \<Rightarrow> queue_state" where
  "settle_job key job outcome s =
     wake_walk (jb_id job) outcome
       (s\<lparr>qs_queues := (qs_queues s)(key := tl (qs_queues s key)), qs_phase := (qs_phase s)(key := NotStarted),
          qs_log := qs_log s @ [(job, outcome)]\<rparr>)"

definition after_read :: "string \<Rightarrow> write_job \<Rightarrow> (string \<Rightarrow> edit_result) \<Rightarrow> bool \<Rightarrow> string \<Rightarrow> queue_state \<Rightarrow> queue_state" where
  "after_read key job f ok content s =
     (case f content of
        Unchanged \<Rightarrow> settle_job key job (JobEnds ok False) s
      | Changed new \<Rightarrow> s\<lparr>qs_phase := (qs_phase s)(key := Saving new ok)\<rparr>
      | EditThrows err \<Rightarrow> settle_job key job (JobFails err) s)"

datatype queue_event =
    QueueTask write_task
  | StartWalk "write_task list" bool
  | StartJob string
  | ReadEnds string "string option"
  | SaveEnds string "string option"

text \<open>\<open>ReadEnds\<close> and \<open>SaveEnds\<close> carry the error, if it failed.\<close>

fun queue_step :: "queue_state \<Rightarrow> queue_event \<Rightarrow> queue_state" where
  "queue_step s (QueueTask task) = queueWrite task s"
| "queue_step s (StartWalk tasks stopOnFirst) = walkLayers tasks stopOnFirst s"
| "queue_step s (StartJob key) =
     (case (qs_queues s key, qs_phase s key) of
        (job # _, NotStarted) \<Rightarrow>
          (case jb_task job of
             SaveContent l content \<Rightarrow> s\<lparr>qs_phase := (qs_phase s)(key := Saving content True)\<rparr>
           | EditContent l f \<Rightarrow> s\<lparr>qs_phase := (qs_phase s)(key := Reading)\<rparr>)
      | _ \<Rightarrow> s)"
| "queue_step s (ReadEnds key err) =
     (case (qs_queues s key, qs_phase s key) of
        (job # _, Reading) \<Rightarrow>
          (case jb_task job of
             EditContent l f \<Rightarrow>
               (case err of
                  None \<Rightarrow> after_read key job f True (qs_files s l) s
                | Some e \<Rightarrow> (case failed_read l e of
                    Inl e \<Rightarrow> settle_job key job (JobFails e) s
                  | Inr content \<Rightarrow> after_read key job f False content s))
           | _ \<Rightarrow> s)
      | _ \<Rightarrow> s)"
| "queue_step s (SaveEnds key err) =
     (case (qs_queues s key, qs_phase s key) of
        (job # _, Saving content ok) \<Rightarrow>
          (let l = task_layer (jb_task job) in
           case err of
             None \<Rightarrow> settle_job key job (JobEnds ok True) (s\<lparr>qs_files := (qs_files s)(l := content)\<rparr>)
           | Some e \<Rightarrow> settle_job key job (JobFails (failed_save l e)) s)
      | _ \<Rightarrow> s)"

definition no_writes :: "(layer \<Rightarrow> string) \<Rightarrow> queue_state" where
  "no_writes files = \<lparr>qs_files = files, qs_queues = (\<lambda>_. []), qs_phase = (\<lambda>_. NotStarted), qs_next = 0,
     qs_walks = Map.empty, qs_log = [], qs_answers = []\<rparr>"

section \<open>One after another\<close>

text \<open>A job done in one go, at the moment it ends.\<close>

fun done_at_once :: "write_job \<times> job_end \<Rightarrow> (layer \<Rightarrow> string) \<Rightarrow> layer \<Rightarrow> string" where
  "done_at_once (job, JobFails err) files = files"
| "done_at_once (job, JobEnds ok wrote) files =
     (case jb_task job of
        SaveContent l content \<Rightarrow> files(l := content)
      | EditContent l f \<Rightarrow> (case f (if ok then files l else []) of Changed new \<Rightarrow> files(l := new) | _ \<Rightarrow> files))"

text \<open>The ids given out for a key, as the log and the queue have them.\<close>

definition key_ids :: "string \<Rightarrow> queue_state \<Rightarrow> nat list" where
  "key_ids key s =
     map jb_id (filter (\<lambda>j. queueKey (task_layer (jb_task j)) = key) (map fst (qs_log s)) @ qs_queues s key)"

text \<open>The first job of a queue saves what its edit makes of the file as it is now.\<close>

fun head_fits :: "(layer \<Rightarrow> string) \<Rightarrow> write_job list \<Rightarrow> job_phase \<Rightarrow> bool" where
  "head_fits files (job # _) (Saving content ok) =
     (case jb_task job of
        SaveContent l c \<Rightarrow> content = c
      | EditContent l f \<Rightarrow> f (if ok then files l else []) = Changed content)"
| "head_fits files _ _ = True"

lemma head_fits_NotStarted [simp]: "head_fits files js NotStarted" "head_fits files js Reading"
  by (cases js; simp)+

lemma head_fits_append: "js \<noteq> [] \<Longrightarrow> head_fits files (js @ ks) ph = head_fits files js ph"
  by (cases js; cases ph) simp_all

lemma head_fits_cong:
  "(\<And>job rest. js = job # rest \<Longrightarrow> files' (task_layer (jb_task job)) = files (task_layer (jb_task job))) \<Longrightarrow>
   head_fits files' js ph = head_fits files js ph"
proof (cases js)
  case (Cons job rest)
  assume "\<And>job rest. js = job # rest \<Longrightarrow> files' (task_layer (jb_task job)) = files (task_layer (jb_task job))"
  then have "files' (task_layer (jb_task job)) = files (task_layer (jb_task job))" using Cons by simp
  then show ?thesis using Cons by (cases ph; cases "jb_task job") simp_all
qed simp

definition head_ok :: "queue_state \<Rightarrow> string \<Rightarrow> bool" where
  "head_ok s key = head_fits (qs_files s) (qs_queues s key) (qs_phase s key)"

definition queues_ok :: "(layer \<Rightarrow> string) \<Rightarrow> queue_state \<Rightarrow> bool" where
  "queues_ok files s \<longleftrightarrow>
     qs_files s = fold done_at_once (qs_log s) files \<and>
     (\<forall>key. \<forall>job\<in>set (qs_queues s key). queueKey (task_layer (jb_task job)) = key) \<and>
     (\<forall>key. head_ok s key) \<and> (\<forall>key. qs_queues s key = [] \<longrightarrow> qs_phase s key = NotStarted) \<and>
     (\<forall>key. sorted_wrt (<) (key_ids key s)) \<and> (\<forall>key. \<forall>i\<in>set (key_ids key s). i < qs_next s) \<and>
     (\<forall>i<qs_next s. \<exists>key. i \<in> set (key_ids key s))"

lemma queueWrite_ok: "queues_ok files s \<Longrightarrow> queues_ok files (queueWrite task s)"
proof -
  assume ok: "queues_ok files s"
  let ?key = "queueKey (task_layer task)" and ?s = "queueWrite task s"
  have f: "qs_files ?s = qs_files s" "qs_phase ?s = qs_phase s" "qs_log ?s = qs_log s"
    "qs_queues ?s key = (if key = ?key then qs_queues s key @ [\<lparr>jb_id = qs_next s, jb_task = task\<rparr>] else qs_queues s key)"
    "qs_next ?s = Suc (qs_next s)" for key by (auto simp: queueWrite_def Let_def)
  have ids: "key_ids key ?s = key_ids key s @ (if key = ?key then [qs_next s] else [])" for key
    by (simp add: key_ids_def f)
  have "head_ok ?s key" for key
    using ok by (cases "qs_queues s key = []") (auto simp: f queues_ok_def head_ok_def head_fits_append)
  moreover have "sorted_wrt (<) (key_ids key ?s)" for key using ok by (auto simp: ids sorted_wrt_append queues_ok_def)
  moreover have "\<forall>i\<in>set (key_ids key ?s). i < qs_next ?s" for key using ok by (auto simp: ids f queues_ok_def less_Suc_eq)
  moreover have "\<exists>key. i \<in> set (key_ids key ?s)" if "i < qs_next ?s" for i
  proof (cases "i = qs_next s")
    case True
    then show ?thesis by (auto simp: ids)
  next
    case False
    then have "\<exists>key. i \<in> set (key_ids key s)" using ok that by (auto simp: f queues_ok_def)
    then show ?thesis by (auto simp: ids)
  qed
  ultimately show ?thesis using ok by (auto simp: queues_ok_def f)
qed

lemma queues_ok_walks:
  "queues_ok files (s\<lparr>qs_walks := ws\<rparr>) = queues_ok files s" "queues_ok files (s\<lparr>qs_answers := as\<rparr>) = queues_ok files s"
  by (simp_all add: queues_ok_def key_ids_def head_ok_def)

lemma walk_on_ok: "queues_ok files s \<Longrightarrow> queues_ok files (walk_on walk s)"
  by (auto simp: walk_on_def queues_ok_walks split: list.split intro!: queueWrite_ok)

lemma wake_walk_ok: "queues_ok files s \<Longrightarrow> queues_ok files (wake_walk i outcome s)"
  by (auto simp: wake_walk_def Let_def queues_ok_walks split: option.split job_end.split intro!: walk_on_ok)

text \<open>Taking the first job of a queue off, with the files as that job, in one go, leaves them.\<close>

lemma settle_ok:
  assumes ok: "queues_ok files s" and q: "qs_queues s key = job # rest"
    and done_now: "files' = done_at_once (job, outcome) (qs_files s)"
  shows "queues_ok files (settle_job key job outcome (s\<lparr>qs_files := files'\<rparr>))"
  unfolding settle_job_def
proof (rule wake_walk_ok)
  let ?s = "s\<lparr>qs_files := files', qs_queues := (qs_queues s)(key := rest), qs_phase := (qs_phase s)(key := NotStarted),
    qs_log := qs_log s @ [(job, outcome)]\<rparr>"
  have k: "queueKey (task_layer (jb_task job)) = key" using ok q by (fastforce simp: queues_ok_def)
  have other: "files' l = qs_files s l" if "queueKey l \<noteq> key" for l
    using that k unfolding done_now
    by (cases outcome; cases "jb_task job") (auto split: edit_result.split)
  have ids: "key_ids k' ?s = key_ids k' s" for k'
    using k q by (auto simp: key_ids_def)
  have "head_ok ?s k'" for k'
  proof (cases "k' = key")
    case False
    have "files' (task_layer (jb_task j)) = qs_files s (task_layer (jb_task j))" if "qs_queues s k' = j # js" for j js
    proof -
      have "queueKey (task_layer (jb_task j)) = k'" using ok that by (fastforce simp: queues_ok_def)
      then show ?thesis using other False by simp
    qed
    then have "head_fits files' (qs_queues s k') (qs_phase s k') = head_fits (qs_files s) (qs_queues s k') (qs_phase s k')"
      by (rule head_fits_cong)
    moreover have "head_ok s k'" using ok by (simp add: queues_ok_def)
    ultimately show ?thesis using False by (simp add: head_ok_def)
  qed (simp add: head_ok_def)
  moreover have "files' = fold done_at_once (qs_log s @ [(job, outcome)]) files" using ok done_now by (simp add: queues_ok_def)
  moreover have "\<forall>k'. \<forall>j\<in>set (qs_queues ?s k'). queueKey (task_layer (jb_task j)) = k'"
    using ok q by (auto simp: queues_ok_def)
  ultimately have "queues_ok files ?s" using ok ids by (auto simp: queues_ok_def)
  then show "queues_ok files (s\<lparr>qs_files := files', qs_queues := (qs_queues (s\<lparr>qs_files := files'\<rparr>))(key := tl (qs_queues (s\<lparr>qs_files := files'\<rparr>) key)),
      qs_phase := (qs_phase (s\<lparr>qs_files := files'\<rparr>))(key := NotStarted), qs_log := qs_log (s\<lparr>qs_files := files'\<rparr>) @ [(job, outcome)]\<rparr>)"
    by (simp add: q)
qed

lemma settle_same_ok:
  assumes "queues_ok files s" and "qs_queues s key = job # rest" and "done_at_once (job, outcome) (qs_files s) = qs_files s"
  shows "queues_ok files (settle_job key job outcome s)"
  using settle_ok [OF assms(1,2), of "qs_files s" outcome] assms(3) by simp

lemma phase_ok:
  assumes "queues_ok files s" and "qs_queues s key = job # rest" and "head_ok (s\<lparr>qs_phase := (qs_phase s)(key := ph)\<rparr>) key"
  shows "queues_ok files (s\<lparr>qs_phase := (qs_phase s)(key := ph)\<rparr>)"
proof -
  let ?s = "s\<lparr>qs_phase := (qs_phase s)(key := ph)\<rparr>"
  have "head_ok ?s k" for k
  proof (cases "k = key")
    case False
    moreover have "head_ok s k" using assms(1) by (simp add: queues_ok_def)
    ultimately show ?thesis by (simp add: head_ok_def)
  qed (use assms(3) in simp)
  then show ?thesis using assms(1,2) by (auto simp: queues_ok_def key_ids_def)
qed

lemma after_read_ok:
  assumes "queues_ok files s" and "qs_queues s key = job # rest" and "jb_task job = EditContent l f"
    and "content = (if ok then qs_files s l else [])"
  shows "queues_ok files (after_read key job f ok content s)"
proof (cases "f content")
  case Unchanged
  then show ?thesis using assms by (auto simp: after_read_def intro!: settle_same_ok)
next
  case (Changed new)
  have "head_ok (s\<lparr>qs_phase := (qs_phase s)(key := Saving new ok)\<rparr>) key"
    using Changed assms(2-4) by (simp add: head_ok_def)
  then show ?thesis using Changed assms(1,2) phase_ok by (simp add: after_read_def)
next
  case (EditThrows err)
  then show ?thesis using assms by (auto simp: after_read_def intro!: settle_same_ok)
qed

lemma failed_read_empty: "failed_read l e = Inr content \<Longrightarrow> content = []"
  by (cases l) simp_all

lemma queue_step_ok:
  assumes "queues_ok files s"
  shows "queues_ok files (queue_step s e)"
proof (cases e)
  case (QueueTask task)
  then show ?thesis using assms by (simp add: queueWrite_ok)
next
  case (StartWalk tasks stop)
  then show ?thesis using assms by (simp add: walkLayers_def walk_on_ok)
next
  case (StartJob key)
  show ?thesis
  proof (cases "qs_queues s key = [] \<or> qs_phase s key \<noteq> NotStarted")
    case True
    then show ?thesis using assms StartJob by (cases "qs_queues s key"; cases "qs_phase s key") simp_all
  next
    case False
    then obtain job rest where q: "qs_queues s key = job # rest" "qs_phase s key = NotStarted" by (cases "qs_queues s key") auto
    show ?thesis using q StartJob
      by (cases "jb_task job") (auto intro!: phase_ok [OF assms q(1)] simp: head_ok_def)
  qed
next
  case (ReadEnds key err)
  show ?thesis
  proof (cases "qs_queues s key = [] \<or> qs_phase s key \<noteq> Reading \<or> (\<exists>l c. jb_task (hd (qs_queues s key)) = SaveContent l c)")
    case True
    then show ?thesis using assms ReadEnds by (cases "qs_queues s key"; cases "qs_phase s key") auto
  next
    case False
    then obtain job rest l f where q: "qs_queues s key = job # rest" "qs_phase s key = Reading" "jb_task job = EditContent l f"
      by (cases "qs_queues s key"; cases "jb_task (hd (qs_queues s key))") auto
    show ?thesis using q ReadEnds failed_read_empty [of l]
      by (cases err) (auto intro!: after_read_ok [OF assms q(1,3)] settle_same_ok [OF assms q(1)] split: sum.split)
  qed
next
  case (SaveEnds key err)
  show ?thesis
  proof (cases "qs_queues s key = [] \<or> (\<forall>c ok. qs_phase s key \<noteq> Saving c ok)")
    case True
    then show ?thesis using assms SaveEnds by (cases "qs_queues s key"; cases "qs_phase s key") auto
  next
    case False
    then obtain job rest c ok where q: "qs_queues s key = job # rest" "qs_phase s key = Saving c ok" by (cases "qs_queues s key") auto
    have "head_ok s key" using assms by (simp add: queues_ok_def)
    then have d: "done_at_once (job, JobEnds ok True) (qs_files s) = (qs_files s)(task_layer (jb_task job) := c)"
      using q by (cases "jb_task job") (simp_all add: head_ok_def)
    show ?thesis using q SaveEnds settle_ok [OF assms q(1) d [symmetric]]
      by (cases err) (auto simp: Let_def intro!: settle_same_ok [OF assms q(1)])
  qed
qed

interpretation queue: machine "no_writes files" queue_step "queues_ok files"
  by unfold_locales (simp_all add: queue_step_ok, simp add: queues_ok_def no_writes_def key_ids_def head_ok_def)

text \<open>Property C4: config edits never mix. However the reads and saves of any number of edits, whole-file
  saves and walks through layers are interleaved, and whichever of them fail, the files are those that
  the finished jobs leave when each is done in one go, reading and writing at the moment it ended;
  and the jobs of one key have finished in the order they were queued, with no one left out.\<close>

theorem edits_one_after_another:
  "qs_files (foldl queue_step (no_writes files) es) = fold done_at_once (qs_log (foldl queue_step (no_writes files) es)) files \<and>
   (\<forall>key. sorted_wrt (<) (key_ids key (foldl queue_step (no_writes files) es))) \<and>
   (\<forall>i. i < qs_next (foldl queue_step (no_writes files) es) \<longleftrightarrow> (\<exists>key. i \<in> set (key_ids key (foldl queue_step (no_writes files) es))))"
  using queue.run_inv [of files es] unfolding queues_ok_def by blast

end
