(* ===== verification/Shortcuts.thy ===== *)
theory Shortcuts
  imports JsPrelude
begin

text \<open>
  Keyboard shortcuts: reading and writing them as text, what two of them collide on, and the combos
  nothing may be bound to (\<open>shortcutParse.ts\<close>), and the keys a chord authored for macOS is pressed
  with elsewhere (\<open>keys.ts\<close>). Whether this is macOS, and whether it is Linux, are parameters.
\<close>

section \<open>Chords\<close>

record shortcut =
  ks_key :: string
  ks_meta :: bool
  ks_shift :: bool
  ks_alt :: bool

record physical_chord =
  pc_key :: string
  pc_ctrl :: bool
  pc_meta :: bool
  pc_shift :: bool
  pc_alt :: bool

definition is_letter_key :: "string \<Rightarrow> bool" where
  "is_letter_key key = (case key of [c] \<Rightarrow> is_letter c | _ \<Rightarrow> False)"

definition toPhysical :: "shortcut \<Rightarrow> bool \<Rightarrow> bool \<Rightarrow> physical_chord" where
  "toPhysical chord mac linux =
     (let key = ks_key chord; shift = ks_shift chord; alt = ks_alt chord in
      if mac \<or> \<not> ks_meta chord then
        \<lparr>pc_key = key, pc_ctrl = False, pc_meta = (mac \<and> ks_meta chord), pc_shift = shift, pc_alt = alt\<rparr>
      else if \<not> is_letter_key key then \<lparr>pc_key = key, pc_ctrl = True, pc_meta = False, pc_shift = shift, pc_alt = alt\<rparr>
      else if alt then \<lparr>pc_key = key, pc_ctrl = True, pc_meta = False, pc_shift = shift, pc_alt = True\<rparr>
      else if shift then \<lparr>pc_key = key, pc_ctrl = True, pc_meta = False, pc_shift = True, pc_alt = True\<rparr>
      else if linux \<and> to_lower key = ''u'' then \<lparr>pc_key = key, pc_ctrl = True, pc_meta = False, pc_shift = False, pc_alt = True\<rparr>
      else \<lparr>pc_key = key, pc_ctrl = True, pc_meta = False, pc_shift = True, pc_alt = False\<rparr>)"

record key_event =
  ev_key :: string
  ev_ctrl :: bool
  ev_meta :: bool
  ev_shift :: bool
  ev_alt :: bool

definition matchesChord :: "key_event \<Rightarrow> shortcut \<Rightarrow> bool \<Rightarrow> bool \<Rightarrow> bool" where
  "matchesChord event chord mac linux =
     (let p = toPhysical chord mac linux in
      to_lower (ev_key event) = to_lower (pc_key p) \<and> ev_ctrl event = pc_ctrl p \<and> ev_meta event = pc_meta p \<and>
      ev_shift event = pc_shift p \<and> ev_alt event = pc_alt p)"

section \<open>Text\<close>

datatype modifier = ModMeta | ModShift | ModAlt

definition MOD_ALIASES :: "(string \<times> modifier) list" where
  "MOD_ALIASES = [(''cmd'', ModMeta), (''command'', ModMeta), (''meta'', ModMeta), (''ctrl'', ModMeta), (''control'', ModMeta),
     (''shift'', ModShift), (''alt'', ModAlt), (''opt'', ModAlt), (''option'', ModAlt)]"

fun parse_parts :: "string list \<Rightarrow> shortcut \<Rightarrow> shortcut option" where
  "parse_parts [] s = Some s"
| "parse_parts (part # parts) s =
     (case map_of MOD_ALIASES part of
        Some ModMeta \<Rightarrow> parse_parts parts (s\<lparr>ks_meta := True\<rparr>)
      | Some ModShift \<Rightarrow> parse_parts parts (s\<lparr>ks_shift := True\<rparr>)
      | Some ModAlt \<Rightarrow> parse_parts parts (s\<lparr>ks_alt := True\<rparr>)
      | None \<Rightarrow> if ks_key s \<noteq> [] then None else parse_parts parts (s\<lparr>ks_key := part\<rparr>))"

definition parseShortcut :: "string \<Rightarrow> shortcut option" where
  "parseShortcut raw =
     (let parts = filter (\<lambda>p. p \<noteq> []) (map (\<lambda>p. to_lower (trim p)) (split_on CHR ''+'' raw)) in
      if parts = [] then None
      else case parse_parts parts \<lparr>ks_key = [], ks_meta = False, ks_shift = False, ks_alt = False\<rparr> of
        None \<Rightarrow> None
      | Some s \<Rightarrow> if ks_key s = [] then None else if \<not> ks_meta s \<and> \<not> ks_alt s then None else Some s)"

definition canonicalShortcut :: "shortcut \<Rightarrow> string" where
  "canonicalShortcut s =
     (let mods = [if ks_meta s then ''cmd'' else [], if ks_alt s then ''alt'' else [], if ks_shift s then ''shift'' else []]
      in join ''+'' (filter (\<lambda>m. m \<noteq> []) mods @ [to_lower (ks_key s)]))"

text \<open>\<open>CANONICAL_MOD\<close>: a modifier, a plus sign and a rest on one line.\<close>

definition canonical_mod :: "string \<Rightarrow> (string \<times> string) option" where
  "canonical_mod s =
     (case List.find (\<lambda>m. starts_with s (m @ ''+'')) [''cmd'', ''alt'', ''shift''] of
        None \<Rightarrow> None
      | Some m \<Rightarrow>
          (let rest = drop (length m + 1) s in
           if rest \<noteq> [] \<and> CHR 0x0A \<notin> set rest \<and> CHR 0x0D \<notin> set rest then Some (m, rest) else None))"

definition set_canonical_mod :: "string \<Rightarrow> shortcut \<Rightarrow> shortcut" where
  "set_canonical_mod m s = (if m = ''cmd'' then s\<lparr>ks_meta := True\<rparr> else if m = ''alt'' then s\<lparr>ks_alt := True\<rparr> else s\<lparr>ks_shift := True\<rparr>)"

lemma canonical_mod_shorter: "canonical_mod s = Some (m, rest) \<Longrightarrow> length rest < length s"
  by (auto simp: canonical_mod_def Let_def split: option.splits if_splits)

function from_canonical :: "shortcut \<Rightarrow> shortcut" where
  "from_canonical s =
     (case canonical_mod (ks_key s) of
        None \<Rightarrow> s
      | Some (m, rest) \<Rightarrow> from_canonical ((set_canonical_mod m s)\<lparr>ks_key := rest\<rparr>))"
  by pat_completeness auto
termination
  by (relation "measure (\<lambda>s. length (ks_key s))") (auto dest: canonical_mod_shorter)

declare from_canonical.simps [simp del]

definition fromCanonical :: "string \<Rightarrow> shortcut" where
  "fromCanonical i = from_canonical \<lparr>ks_key = i, ks_meta = False, ks_shift = False, ks_alt = False\<rparr>"

section \<open>Collisions\<close>

definition physicalChordId :: "physical_chord \<Rightarrow> string" where
  "physicalChordId p =
     (let mods = [if pc_ctrl p then ''ctrl'' else [], if pc_meta p then ''meta'' else [], if pc_alt p then ''alt'' else [],
            if pc_shift p then ''shift'' else []];
          key = (if pc_key p = '' '' then ''space'' else to_lower (pc_key p))
      in join ''+'' (filter (\<lambda>m. m \<noteq> []) mods @ [key]))"

definition shortcutIdentity :: "shortcut \<Rightarrow> bool \<Rightarrow> bool \<Rightarrow> string" where
  "shortcutIdentity s mac linux = (if mac then canonicalShortcut s else physicalChordId (toPhysical s False linux))"

definition RESERVED_SHARED :: "string list" where
  "RESERVED_SHARED = [''cmd+b'', ''cmd+t'', ''cmd+alt+p'', ''cmd+w'', ''cmd+d'', ''cmd+shift+d'', ''cmd+f'', ''cmd+i'', ''cmd+shift+r'',
      ''cmd+shift+m'', ''cmd+shift+k'', ''cmd+shift+e'', ''cmd+shift+j'', ''cmd+p'', ''cmd+='', ''cmd++'', ''cmd+-'',
      ''cmd+0'', ''cmd+shift+v'', ''cmd+alt+r'', ''cmd+alt+c'', ''cmd+alt+shift+c'', ''cmd+e'', ''cmd+shift+n'', ''cmd+s'',
      ''cmd+shift+l'', ''cmd+shift+s'', ''cmd+shift+p'', ''cmd+,'', ''cmd+c'', ''cmd+v'', ''cmd+x'', ''cmd+a'', ''cmd+z'',
      ''cmd+shift+z'', ''cmd+q'', ''cmd+m'', ''cmd+h'', ''cmd+n'', ''cmd+o'', ''cmd+enter'', ''alt+enter''] @ map (\<lambda>i. ''cmd+'' @ nat_str (i + 1)) [0..<9]"

definition RESERVED_MAC :: "string list" where
  "RESERVED_MAC = RESERVED_SHARED @ [''cmd+alt+arrowup'', ''cmd+alt+arrowdown'']"

definition RESERVED_PC :: "string list" where
  "RESERVED_PC = RESERVED_SHARED @ [''cmd+alt+pageup'', ''cmd+alt+pagedown'']"

definition reservedShortcuts :: "bool \<Rightarrow> string list" where
  "reservedShortcuts mac = (if mac then RESERVED_MAC else RESERVED_PC)"

definition SYSTEM_CHORDS :: "string list" where
  "SYSTEM_CHORDS = [''ctrl+alt+delete'', ''ctrl+alt+backspace'', ''ctrl+alt+tab'', ''ctrl+alt+escape'', ''ctrl+alt+t'', ''ctrl+alt+l'',
      ''ctrl+alt+d'', ''ctrl+shift+escape'', ''ctrl+escape'', ''alt+tab'', ''alt+shift+tab'', ''alt+escape'', ''alt+space''] @
     concat (map (\<lambda>k. [''ctrl+alt+'' @ k, ''ctrl+alt+shift+'' @ k]) [''arrowleft'', ''arrowright'', ''arrowup'', ''arrowdown'']) @
     concat (map (\<lambda>i. [''ctrl+alt+f'' @ nat_str (i + 1), ''alt+f'' @ nat_str (i + 1)]) [0..<12])"

definition isSystemChord :: "physical_chord \<Rightarrow> bool" where
  "isSystemChord p = (physicalChordId p \<in> set SYSTEM_CHORDS)"

definition isSystemShortcut :: "shortcut \<Rightarrow> bool \<Rightarrow> bool \<Rightarrow> bool" where
  "isSystemShortcut s mac linux = (\<not> mac \<and> physicalChordId (toPhysical s False linux) \<in> set SYSTEM_CHORDS)"

definition physicalIdOf :: "bool \<Rightarrow> string \<Rightarrow> string" where
  "physicalIdOf linux i = shortcutIdentity (fromCanonical i) False linux"

definition isReservedShortcut :: "shortcut \<Rightarrow> string list \<Rightarrow> bool \<Rightarrow> bool \<Rightarrow> bool" where
  "isReservedShortcut s extra mac linux =
     (if \<not> mac then
        (let i = shortcutIdentity s False linux
         in i \<in> set (map (physicalIdOf linux) RESERVED_PC) \<or> (\<exists>e\<in>set extra. physicalIdOf linux e = i))
      else canonicalShortcut s \<in> set (reservedShortcuts mac) \<or> canonicalShortcut s \<in> set extra)"

section \<open>Names of keys\<close>

text \<open>Glyphs stand in their UTF-8 bytes; \<open>toUpperCase\<close> is that of the letters a to z.\<close>

definition MAC_KEY_GLYPHS :: "(string \<times> string) list" where
  "MAC_KEY_GLYPHS =
     [(''enter'', [CHR 0xE2, CHR 0x86, CHR 0xA9]),
      (''escape'', [CHR 0xE2, CHR 0x8E, CHR 0x8B]),
      (''tab'', [CHR 0xE2, CHR 0x87, CHR 0xA5]),
      (''backspace'', [CHR 0xE2, CHR 0x8C, CHR 0xAB]),
      (''delete'', [CHR 0xE2, CHR 0x8C, CHR 0xA6]),
      (''arrowup'', [CHR 0xE2, CHR 0x86, CHR 0x91]),
      (''arrowdown'', [CHR 0xE2, CHR 0x86, CHR 0x93]),
      (''arrowleft'', [CHR 0xE2, CHR 0x86, CHR 0x90]),
      (''arrowright'', [CHR 0xE2, CHR 0x86, CHR 0x92]),
      ('' '', ''Space''),
      (''space'', ''Space'')]"

definition PC_KEY_NAMES :: "(string \<times> string) list" where
  "PC_KEY_NAMES =
     [(''enter'', ''Enter''),
      (''escape'', ''Esc''),
      (''tab'', ''Tab''),
      (''backspace'', ''Backspace''),
      (''delete'', ''Delete''),
      (''arrowup'', [CHR 0xE2, CHR 0x86, CHR 0x91]),
      (''arrowdown'', [CHR 0xE2, CHR 0x86, CHR 0x93]),
      (''arrowleft'', [CHR 0xE2, CHR 0x86, CHR 0x90]),
      (''arrowright'', [CHR 0xE2, CHR 0x86, CHR 0x92]),
      (''pageup'', ''PageUp''),
      (''pagedown'', ''PageDown''),
      (''home'', ''Home''),
      (''end'', ''End''),
      (''insert'', ''Insert''),
      ('' '', ''Space''),
      (''space'', ''Space'')]"

definition keyName :: "string \<Rightarrow> bool \<Rightarrow> string" where
  "keyName key mac =
     (if length key = 1 then map upper_letter key
      else case map_of (if mac then MAC_KEY_GLYPHS else PC_KEY_NAMES) (to_lower key) of
        Some n \<Rightarrow> n
      | None \<Rightarrow> map upper_letter (take 1 key) @ drop 1 key)"

definition GLYPH_META :: string where "GLYPH_META = [CHR 0xE2, CHR 0x8C, CHR 0x98]"
definition GLYPH_ALT :: string where "GLYPH_ALT = [CHR 0xE2, CHR 0x8C, CHR 0xA5]"
definition GLYPH_SHIFT :: string where "GLYPH_SHIFT = [CHR 0xE2, CHR 0x87, CHR 0xA7]"

definition chordLabel :: "shortcut \<Rightarrow> bool \<Rightarrow> bool \<Rightarrow> string" where
  "chordLabel chord mac linux =
     (let p = toPhysical chord mac linux
      in if mac
         then (if pc_meta p then GLYPH_META else []) @ (if pc_alt p then GLYPH_ALT else []) @ (if pc_shift p then GLYPH_SHIFT else []) @ keyName (pc_key p) True
         else join ''+'' ((if pc_ctrl p then [''Ctrl''] else []) @ (if pc_alt p then [''Alt''] else []) @ (if pc_shift p then [''Shift''] else []) @
                [keyName (pc_key p) False]))"

definition modKeyLabel :: "bool \<Rightarrow> string" where "modKeyLabel mac = (if mac then GLYPH_META else ''Ctrl'')"
definition altKeyLabel :: "bool \<Rightarrow> string" where "altKeyLabel mac = (if mac then GLYPH_ALT else ''Alt'')"
definition shiftKeyLabel :: "bool \<Rightarrow> string" where "shiftKeyLabel mac = (if mac then GLYPH_SHIFT else ''Shift'')"

definition KEY_GLYPHS :: "(string \<times> string) list" where
  "KEY_GLYPHS =
     [(''enter'', [CHR 0xE2, CHR 0x86, CHR 0xA9]),
      (''escape'', [CHR 0xE2, CHR 0x8E, CHR 0x8B]),
      (''tab'', [CHR 0xE2, CHR 0x87, CHR 0xA5]),
      (''backspace'', [CHR 0xE2, CHR 0x8C, CHR 0xAB]),
      (''delete'', [CHR 0xE2, CHR 0x8C, CHR 0xA6]),
      (''arrowup'', [CHR 0xE2, CHR 0x86, CHR 0x91]),
      (''arrowdown'', [CHR 0xE2, CHR 0x86, CHR 0x93]),
      (''arrowleft'', [CHR 0xE2, CHR 0x86, CHR 0x90]),
      (''arrowright'', [CHR 0xE2, CHR 0x86, CHR 0x92]),
      ('' '', ''Space''),
      (''space'', ''Space'')]"

definition keyLabel :: "string \<Rightarrow> string" where
  "keyLabel key =
     (if length key = 1 then map upper_letter key
      else case map_of KEY_GLYPHS (to_lower key) of Some g \<Rightarrow> g | None \<Rightarrow> map upper_letter key)"

definition formatShortcut :: "shortcut \<Rightarrow> bool \<Rightarrow> bool \<Rightarrow> string" where
  "formatShortcut s mac linux =
     (if \<not> mac then chordLabel s False linux
      else (if ks_meta s then GLYPH_META else []) @ (if ks_alt s then GLYPH_ALT else []) @ (if ks_shift s then GLYPH_SHIFT else []) @ keyLabel (ks_key s))"

definition reservedShortcutMessage :: "shortcut \<Rightarrow> string list \<Rightarrow> bool \<Rightarrow> bool \<Rightarrow> string option" where
  "reservedShortcutMessage s extra mac linux =
     (if isSystemShortcut s mac linux then Some (formatShortcut s mac linux @ '' is reserved by the system'')
      else if isReservedShortcut s extra mac linux then Some (formatShortcut s mac linux @ '' is reserved by lpm'')
      else None)"

section \<open>Text and back\<close>

text \<open>A key in the form the text has it: not empty, in lower case, on one line, and not itself a text of
  modifiers and a key.\<close>

definition canonical_key :: "string \<Rightarrow> bool" where
  "canonical_key k \<longleftrightarrow> k \<noteq> [] \<and> to_lower k = k \<and> CHR 0x0A \<notin> set k \<and> CHR 0x0D \<notin> set k \<and> canonical_mod k = None"

text \<open>A key that reads back from typed text: without spaces around it or a plus sign, and no modifier.\<close>

definition typed_key :: "string \<Rightarrow> bool" where
  "typed_key k \<longleftrightarrow> k \<noteq> [] \<and> to_lower k = k \<and> trim k = k \<and> CHR ''+'' \<notin> set k \<and> map_of MOD_ALIASES k = None"

lemma canonical_text:
  "canonicalShortcut s = (if ks_meta s then ''cmd+'' else []) @ (if ks_alt s then ''alt+'' else []) @
     (if ks_shift s then ''shift+'' else []) @ to_lower (ks_key s)"
  by (simp add: canonicalShortcut_def)

lemma from_canonical_mods:
  assumes "rest \<noteq> []" "CHR 0x0A \<notin> set rest" "CHR 0x0D \<notin> set rest"
  shows "from_canonical \<lparr>ks_key = CHR ''c'' # CHR ''m'' # CHR ''d'' # CHR ''+'' # rest, ks_meta = a, ks_shift = b, ks_alt = c\<rparr> =
      from_canonical \<lparr>ks_key = rest, ks_meta = True, ks_shift = b, ks_alt = c\<rparr>"
    and "from_canonical \<lparr>ks_key = CHR ''a'' # CHR ''l'' # CHR ''t'' # CHR ''+'' # rest, ks_meta = a, ks_shift = b, ks_alt = c\<rparr> =
      from_canonical \<lparr>ks_key = rest, ks_meta = a, ks_shift = b, ks_alt = True\<rparr>"
    and "from_canonical \<lparr>ks_key = CHR ''s'' # CHR ''h'' # CHR ''i'' # CHR ''f'' # CHR ''t'' # CHR ''+'' # rest, ks_meta = a, ks_shift = b, ks_alt = c\<rparr> =
      from_canonical \<lparr>ks_key = rest, ks_meta = a, ks_shift = True, ks_alt = c\<rparr>"
  using assms by (subst from_canonical.simps, simp add: canonical_mod_def starts_with_def Let_def set_canonical_mod_def)+

lemma from_canonical_key: "canonical_mod (ks_key s) = None \<Longrightarrow> from_canonical s = s"
  by (subst from_canonical.simps) simp

lemma fromCanonical_canonical:
  assumes "canonical_key (ks_key s)"
  shows "fromCanonical (canonicalShortcut s) = s"
proof -
  have k: "ks_key s \<noteq> []" "to_lower (ks_key s) = ks_key s" "CHR 0x0A \<notin> set (ks_key s)" "CHR 0x0D \<notin> set (ks_key s)" "canonical_mod (ks_key s) = None"
    using assms by (simp_all add: canonical_key_def)
  show ?thesis using k by (cases s) (simp add: fromCanonical_def canonical_text from_canonical_mods from_canonical_key)
qed

lemma parseShortcut_canonical:
  assumes "typed_key (ks_key s)" and "ks_meta s \<or> ks_alt s"
  shows "parseShortcut (canonicalShortcut s) = Some s"
proof -
  let ?mods = "filter (\<lambda>m. m \<noteq> []) [if ks_meta s then ''cmd'' else [], if ks_alt s then ''alt'' else [], if ks_shift s then ''shift'' else []]"
  have k: "ks_key s \<noteq> []" "to_lower (ks_key s) = ks_key s" "trim (ks_key s) = ks_key s" "CHR ''+'' \<notin> set (ks_key s)"
    "map_of MOD_ALIASES (ks_key s) = None" using assms(1) by (simp_all add: typed_key_def)
  define ws where "ws = ?mods @ [ks_key s]"
  have split: "split_on CHR ''+'' (canonicalShortcut s) = ws"
    unfolding canonicalShortcut_def Let_def k(2) ws_def using k(4) by (intro split_on_join) auto
  have all: "to_lower (trim m) = m" "m \<noteq> []" if "m \<in> set ws" for m
  proof -
    have "to_lower (trim ''cmd'') = ''cmd''" "to_lower (trim ''alt'') = ''alt''" "to_lower (trim ''shift'') = ''shift''" by code_simp+
    then show "to_lower (trim m) = m" "m \<noteq> []" using that k by (auto simp: ws_def split: if_splits)
  qed
  have "map (\<lambda>p. to_lower (trim p)) ws = ws" by (rule map_idI) (rule all(1))
  moreover have "filter (\<lambda>p. p \<noteq> []) ws = ws" using all(2) by (simp add: filter_id_conv)
  ultimately have parts: "filter (\<lambda>p. p \<noteq> []) (map (\<lambda>p. to_lower (trim p)) (split_on CHR ''+'' (canonicalShortcut s))) = ws"
    by (simp only: split)
  have "map_of MOD_ALIASES ''cmd'' = Some ModMeta" "map_of MOD_ALIASES ''alt'' = Some ModAlt" "map_of MOD_ALIASES ''shift'' = Some ModShift"
    by (simp_all add: MOD_ALIASES_def)
  then have parsed: "parse_parts ws \<lparr>ks_key = [], ks_meta = False, ks_shift = False, ks_alt = False\<rparr> = Some s"
    using k(1,5) unfolding ws_def by (cases s; cases "ks_meta s"; cases "ks_alt s"; cases "ks_shift s") simp_all
  have "ws \<noteq> []" by (simp add: ws_def)
  then show ?thesis using k(1) assms(2) unfolding parseShortcut_def Let_def parts parsed by auto
qed

text \<open>The text of a shortcut is its identity. A shortcut stored as text is read back as it
  was, by the parser of typed text and by the reader of canonical ones, the latter also where the
  key is the plus sign; so two shortcuts have the same text only if they are the same.\<close>

theorem shortcut_text_roundtrip:
  "(typed_key (ks_key s) \<and> (ks_meta s \<or> ks_alt s) \<longrightarrow> parseShortcut (canonicalShortcut s) = Some s) \<and>
   (canonical_key (ks_key s) \<longrightarrow> fromCanonical (canonicalShortcut s) = s) \<and>
   (canonical_key (ks_key s) \<and> canonical_key (ks_key t) \<longrightarrow> canonicalShortcut s = canonicalShortcut t \<longrightarrow> s = t)"
  using parseShortcut_canonical [of s] fromCanonical_canonical [of s] fromCanonical_canonical [of t] by metis

lemma shortcut_text_roundtrip_witness:
  "fromCanonical (canonicalShortcut \<lparr>ks_key = ''+'', ks_meta = True, ks_shift = False, ks_alt = False\<rparr>) =
     \<lparr>ks_key = ''+'', ks_meta = True, ks_shift = False, ks_alt = False\<rparr>"
proof -
  have "canonical_key ''+''" by code_simp
  then show ?thesis
    using shortcut_text_roundtrip [of "\<lparr>ks_key = ''+'', ks_meta = True, ks_shift = False, ks_alt = False\<rparr>"] by simp
qed

section \<open>Keys elsewhere\<close>

text \<open>What a chord is pressed with, and that its identity says no more and no less.\<close>

definition pressed :: "physical_chord \<Rightarrow> string \<times> bool \<times> bool \<times> bool \<times> bool" where
  "pressed p = (to_lower (pc_key p), pc_ctrl p, pc_meta p, pc_shift p, pc_alt p)"

lemma physical_text:
  "physicalChordId p = (if pc_ctrl p then ''ctrl+'' else []) @ (if pc_meta p then ''meta+'' else []) @ (if pc_alt p then ''alt+'' else []) @
     (if pc_shift p then ''shift+'' else []) @ (if pc_key p = '' '' then ''space'' else to_lower (pc_key p))"
  by (simp add: physicalChordId_def)

lemma letter_lower:
  assumes "is_letter_key k"
  obtains c where "k \<noteq> '' ''" "to_lower k = [c]"
proof -
  obtain a where "k = [a]" "is_letter a" using assms by (auto simp: is_letter_key_def split: list.splits)
  moreover have "\<not> is_letter (CHR '' '')" by code_simp
  ultimately show ?thesis using that [of "lower_char a"] by (auto simp: to_lower_def)
qed

lemma physical_id_pressed:
  assumes "is_letter_key (pc_key p)" and "is_letter_key (pc_key q)"
  shows "physicalChordId p = physicalChordId q \<longleftrightarrow> pressed p = pressed q"
proof -
  obtain c where c: "pc_key p \<noteq> '' ''" "to_lower (pc_key p) = [c]" using letter_lower [OF assms(1)] .
  obtain d where d: "pc_key q \<noteq> '' ''" "to_lower (pc_key q) = [d]" using letter_lower [OF assms(2)] .
  show ?thesis
    unfolding physical_text pressed_def using c d
    by (cases "pc_ctrl p"; cases "pc_meta p"; cases "pc_alt p"; cases "pc_shift p";
        cases "pc_ctrl q"; cases "pc_meta q"; cases "pc_alt q"; cases "pc_shift q"; simp)
qed

lemma canonical_id_pressed:
  assumes "is_letter_key (ks_key s)" and "is_letter_key (ks_key t)"
  shows "canonicalShortcut s = canonicalShortcut t \<longleftrightarrow> pressed (toPhysical s True linux) = pressed (toPhysical t True linux)"
proof -
  obtain c where c: "to_lower (ks_key s) = [c]" using letter_lower [OF assms(1)] .
  obtain d where d: "to_lower (ks_key t) = [d]" using letter_lower [OF assms(2)] .
  show ?thesis
    unfolding canonical_text pressed_def toPhysical_def Let_def using c d
    by (cases "ks_meta s"; cases "ks_alt s"; cases "ks_shift s"; cases "ks_meta t"; cases "ks_alt t"; cases "ks_shift t"; simp)
qed

lemma matches_pressed:
  "matchesChord event s mac linux \<longleftrightarrow> (to_lower (ev_key event), ev_ctrl event, ev_meta event, ev_shift event, ev_alt event) = pressed (toPhysical s mac linux)"
  by (simp add: matchesChord_def pressed_def Let_def)

lemma same_presses:
  "(\<forall>event. matchesChord event s mac linux \<longleftrightarrow> matchesChord event t mac linux) \<longleftrightarrow> pressed (toPhysical s mac linux) = pressed (toPhysical t mac linux)"
proof
  let ?p = "toPhysical s mac linux"
  let ?e = "\<lparr>ev_key = pc_key ?p, ev_ctrl = pc_ctrl ?p, ev_meta = pc_meta ?p, ev_shift = pc_shift ?p, ev_alt = pc_alt ?p\<rparr>"
  assume "\<forall>event. matchesChord event s mac linux \<longleftrightarrow> matchesChord event t mac linux"
  then have "matchesChord ?e s mac linux \<longleftrightarrow> matchesChord ?e t mac linux" ..
  then show "pressed ?p = pressed (toPhysical t mac linux)" by (simp add: matches_pressed pressed_def)
qed (simp add: matches_pressed)

lemma physical_key [simp]: "pc_key (toPhysical s mac linux) = ks_key s"
  by (simp add: toPhysical_def Let_def)

lemma pressed_apart:
  assumes "is_letter_key (ks_key s)" and "is_letter_key (ks_key t)"
  shows "pressed (toPhysical s False linux) = pressed (toPhysical t False linux) \<longleftrightarrow>
    to_lower (ks_key s) = to_lower (ks_key t) \<and> ks_meta s = ks_meta t \<and> ks_shift s = ks_shift t \<and>
    (ks_alt s = ks_alt t \<or> (ks_meta s \<and> (ks_shift s \<or> (linux \<and> to_lower (ks_key s) = ''u''))))"
  using assms unfolding pressed_def toPhysical_def Let_def
  by (cases "ks_meta s"; cases "ks_alt s"; cases "ks_shift s"; cases "ks_meta t"; cases "ks_alt t"; cases "ks_shift t"; auto)



end
