(* ===== verification/IgnoredTree.thy ===== *)
theory IgnoredTree
  imports PathOps JsSort
begin

text \<open>
  The tree of the Sync Ignored Files view (\<open>components/ignored/ignoredTree.ts\<close>): the listings of every
  computer merged into one tree, how each row compares between them, what the presets suggest and the
  rows on screen. The order of names in natural language is the parameter \<open>collate\<close>. Objects keyed by a
  computer are lists in the order the keys were set. The listings of opened folders nest as deep as
  the folders; the walk through them has fuel for the depth. Where the code would fail on a row that no
  computer in view holds, its status is \<open>None\<close>.
\<close>

section \<open>Types\<close>

record side =
  sd_size :: int
  sd_files :: int
  sd_mtime :: int
  sd_digest :: string

datatype tree_node = TNode
  (tn_path: string) (tn_name: string) (tn_dir: bool) (tn_ignored: bool) (tn_here: "side option")
  (tn_there: "(string \<times> side) list") (tn_children: "tree_node list option") (tn_more: int)

record ignored_entry =
  ig_path :: string
  ig_dir :: bool
  ig_side :: side

record ignored_listing =
  il_entries :: "ignored_entry list"
  il_more :: int

record listings =
  ls_here :: ignored_listing
  ls_there :: "(string \<times> ignored_listing) list"

datatype tone = Green | Amber | Red | Muted

record row_status =
  rs_label :: string
  rs_tone :: tone

record tree_view =
  tv_here :: string
  tv_peers :: "(string \<times> string) list"
  tv_conflicts :: "(string \<times> string) list"

definition differs :: "row_status \<Rightarrow> bool" where
  "differs status = (rs_tone status \<noteq> Muted)"

section \<open>Building the tree\<close>

definition parentOf :: "string \<Rightarrow> string" where
  "parentOf path =
     (let trimmed = (if ends_with path ''/'' then butlast path else path); i = lastIndexOf_sub ''/'' trimmed
      in if i < 0 then [] else take (nat i + 1) trimmed)"

lemma ends_with_slash_iff: "ends_with s ''/'' \<longleftrightarrow> s \<noteq> [] \<and> last s = CHR ''/''"
  by (cases s rule: rev_cases) (auto simp: ends_with_def starts_with_def)

lemma lastIndexOf_slash_split:
  "if CHR ''/'' \<in> set s then 0 \<le> lastIndexOf_sub ''/'' s \<and>
      (\<exists>a b. s = a @ CHR ''/'' # b \<and> CHR ''/'' \<notin> set b \<and> nat (lastIndexOf_sub ''/'' s) = length a) else lastIndexOf_sub ''/'' s = -1"
proof (induction s)
  case (Cons c s)
  show ?case
  proof (cases "CHR ''/'' \<in> set s")
    case True
    then obtain a b where ab: "s = a @ CHR ''/'' # b" "CHR ''/'' \<notin> set b" "nat (lastIndexOf_sub ''/'' s) = length a" "0 \<le> lastIndexOf_sub ''/'' s"
      using Cons by auto
    then have "c # s = (c # a) @ CHR ''/'' # b" "nat (lastIndexOf_sub ''/'' (c # s)) = length (c # a)" "0 \<le> lastIndexOf_sub ''/'' (c # s)"
      by (simp_all add: Let_def nat_add_distrib)
    then show ?thesis using True ab(2) by (metis list.set_intros(2))
  next
    case False
    then have "lastIndexOf_sub ''/'' s = -1" using Cons by simp
    then show ?thesis using False by (auto simp: Let_def starts_with_def intro!: exI [of _ "[]"])
  qed
qed simp

lemma lastIndexOf_slash:
  "lastIndexOf_sub ''/'' s < 0 \<longleftrightarrow> CHR ''/'' \<notin> set s"
  "0 \<le> lastIndexOf_sub ''/'' s \<Longrightarrow> \<exists>a b. s = a @ CHR ''/'' # b \<and> CHR ''/'' \<notin> set b \<and> nat (lastIndexOf_sub ''/'' s) = length a"
  using lastIndexOf_slash_split [of s] by (simp_all split: if_splits)

lemma parentOf_shorter: "parentOf path \<noteq> [] \<Longrightarrow> length (parentOf path) < length path"
proof -
  assume ne: "parentOf path \<noteq> []"
  define t where "t = (if ends_with path ''/'' then butlast path else path)"
  have i: "\<not> lastIndexOf_sub ''/'' t < 0" using ne by (simp add: parentOf_def t_def [symmetric] Let_def split: if_splits)
  then obtain a b where ab: "t = a @ CHR ''/'' # b" "nat (lastIndexOf_sub ''/'' t) = length a"
    using lastIndexOf_slash(2) [of t] by auto
  have p: "parentOf path = a @ ''/''" using i ab by (simp add: parentOf_def t_def [symmetric] Let_def)
  show ?thesis
  proof (cases "ends_with path ''/''")
    case True
    then have "length t < length path" by (cases path rule: rev_cases) (simp_all add: t_def ends_with_slash_iff)
    then show ?thesis using ab(1) by (simp add: p)
  next
    case False
    then have "b \<noteq> []" using ab(1) by (auto simp: t_def ends_with_slash_iff)
    moreover have "path = a @ CHR ''/'' # b" using ab(1) False by (simp add: t_def)
    ultimately show ?thesis unfolding p by (cases b) simp_all
  qed
qed

lemma parentOf_shorter': "path \<noteq> [] \<Longrightarrow> length (parentOf path) < length path"
  using parentOf_shorter [of path] by (cases "parentOf path = []") auto

record held_entry =
  he_here :: "ignored_entry option"
  he_there :: "(string \<times> ignored_entry) list"

definition held_at :: "string \<Rightarrow> (string \<times> held_entry) list \<Rightarrow> held_entry" where
  "held_at path out = (case map_of out path of Some h \<Rightarrow> h | None \<Rightarrow> \<lparr>he_here = None, he_there = []\<rparr>)"

definition merged :: "listings \<Rightarrow> string list \<Rightarrow> (string \<times> held_entry) list" where
  "merged all slugs =
     (let out = fold (\<lambda>e out. AList.update (ig_path e) ((held_at (ig_path e) out)\<lparr>he_here := Some e\<rparr>) out) (il_entries (ls_here all)) []
      in fold (\<lambda>slug out. fold (\<lambda>e out. let h = held_at (ig_path e) out
             in AList.update (ig_path e) (h\<lparr>he_there := AList.update slug e (he_there h)\<rparr>) out)
           (case map_of (ls_there all) slug of None \<Rightarrow> [] | Some l \<Rightarrow> il_entries l) out) slugs out)"

definition compareNodes :: "(string \<Rightarrow> string \<Rightarrow> int) \<Rightarrow> tree_node \<Rightarrow> tree_node \<Rightarrow> int" where
  "compareNodes collate a b = (if tn_dir a = tn_dir b then collate (tn_name a) (tn_name b) else if tn_dir a then -1 else 1)"

definition sortNodes :: "(string \<Rightarrow> string \<Rightarrow> int) \<Rightarrow> tree_node list \<Rightarrow> tree_node list" where
  "sortNodes collate nodes = sort_by (compareNodes collate) nodes"

definition held_dir :: "held_entry \<Rightarrow> bool" where
  "held_dir held = (case he_here held of Some e \<Rightarrow> ig_dir e | None \<Rightarrow> ig_dir (snd (hd (he_there held))))"

fun entryNode :: "nat \<Rightarrow> bool \<Rightarrow> (string \<Rightarrow> string \<Rightarrow> int) \<Rightarrow> (string \<times> listings) list \<Rightarrow> string list \<Rightarrow> string \<times> held_entry \<Rightarrow> tree_node option" where
  "entryNode 0 win collate loaded slugs entry = None"
| "entryNode (Suc fuel) win collate loaded slugs (path, held) =
     (let dir = held_dir held;
          node = TNode path (folderName path win) dir True (map_option ig_side (he_here held)) (map (\<lambda>(slug, e). (slug, ig_side e)) (he_there held))
      in case (if dir then map_of loaded path else None) of
        None \<Rightarrow> Some (node None 0)
      | Some opened \<Rightarrow>
          map_option (\<lambda>cs. node (Some (sortNodes collate cs))
              (foldl max (il_more (ls_here opened)) (map (\<lambda>s. case map_of (ls_there opened) s of None \<Rightarrow> 0 | Some l \<Rightarrow> il_more l) slugs)))
            (those (map (entryNode fuel win collate loaded slugs) (merged opened slugs))))"

text \<open>The folders above an entry, outermost first, as \<open>holder\<close> makes them.\<close>

function folders_above :: "string \<Rightarrow> string list" where
  "folders_above path = (if parentOf path = [] then [] else folders_above (parentOf path) @ [parentOf path])"
  by pat_completeness auto
termination
  by (relation "measure length") (auto simp: parentOf_shorter)

declare folders_above.simps [simp del]

definition new_folder :: "bool \<Rightarrow> string \<Rightarrow> tree_node list \<Rightarrow> tree_node" where
  "new_folder win path children = TNode path (folderName path win) True False None [] (Some children) 0"

definition is_folder_at :: "string \<Rightarrow> tree_node \<Rightarrow> bool" where
  "is_folder_at path n = (tn_path n = path \<and> \<not> tn_ignored n)"

text \<open>Pushing a node below the folders that hold it, making those that are not there yet.\<close>

fun push_node :: "bool \<Rightarrow> string list \<Rightarrow> tree_node \<Rightarrow> tree_node list \<Rightarrow> tree_node list" where
  "push_node win [] node nodes = nodes @ [node]"
| "push_node win (folder # rest) node nodes =
     (if \<exists>n\<in>set nodes. is_folder_at folder n
      then map (\<lambda>n. if is_folder_at folder n
             then new_folder win folder (push_node win rest node (case tn_children n of None \<Rightarrow> [] | Some cs \<Rightarrow> cs)) else n) nodes
      else nodes @ [new_folder win folder (push_node win rest node [])])"

fun sort_all :: "(string \<Rightarrow> string \<Rightarrow> int) \<Rightarrow> tree_node \<Rightarrow> tree_node" where
  "sort_all collate (TNode path name dir ignored here there children rest) =
     TNode path name dir ignored here there
       (case children of None \<Rightarrow> None | Some cs \<Rightarrow> Some (sortNodes collate (map (sort_all collate) cs))) rest"

definition buildTree ::
  "nat \<Rightarrow> bool \<Rightarrow> (string \<Rightarrow> string \<Rightarrow> int) \<Rightarrow> listings \<Rightarrow> (string \<times> listings) list \<Rightarrow> string list \<Rightarrow> tree_node list option" where
  "buildTree fuel win collate root_listing loaded slugs =
     map_option (\<lambda>nodes. sortNodes collate (map (sort_all collate)
         (fold (\<lambda>n top. push_node win (folders_above (tn_path n)) n top) nodes [])))
       (those (map (entryNode fuel win collate loaded slugs) (merged root_listing slugs)))"

section \<open>Walking it\<close>

fun node_list :: "tree_node \<Rightarrow> tree_node list" where
  "node_list (TNode path name dir ignored here there children rest) =
     TNode path name dir ignored here there children rest #
       (case children of None \<Rightarrow> [] | Some cs \<Rightarrow> concat (map node_list cs))"

definition tree_nodes :: "tree_node list \<Rightarrow> tree_node list" where
  "tree_nodes tree = concat (map node_list tree)"

definition indexTree :: "tree_node list \<Rightarrow> string \<Rightarrow> tree_node option" where
  "indexTree tree = fold (\<lambda>n out. out(tn_path n \<mapsto> n)) (tree_nodes tree) Map.empty"

definition isTracked :: "tree_node \<Rightarrow> bool" where
  "isTracked n = (tn_dir n \<and> \<not> tn_ignored n)"

fun units_of :: "tree_node \<Rightarrow> tree_node list" where
  "units_of (TNode path name dir ignored here there children rest) =
     (if dir \<and> \<not> ignored then (case children of None \<Rightarrow> [] | Some cs \<Rightarrow> concat (map units_of cs))
      else [TNode path name dir ignored here there children rest])"

definition unitsUnder :: "tree_node \<Rightarrow> tree_node list" where
  "unitsUnder node = concat (map units_of (case tn_children node of None \<Rightarrow> [] | Some cs \<Rightarrow> cs))"

definition units :: "tree_node list \<Rightarrow> tree_node list" where
  "units tree = concat (map units_of tree)"

section \<open>Rows\<close>

definition held_sides :: "tree_node \<Rightarrow> side list" where
  "held_sides node = (case tn_here node of None \<Rightarrow> [] | Some s \<Rightarrow> [s]) @ map snd (tn_there node)"

definition biggest :: "tree_node \<Rightarrow> side option" where
  "biggest node = fold (\<lambda>s a. case a of None \<Rightarrow> Some s | Some x \<Rightarrow> if sd_size s \<le> sd_size x then a else Some s) (held_sides node) None"

definition shownSide :: "tree_node \<Rightarrow> (int \<times> int) option" where
  "shownSide node =
     (if \<not> isTracked node then map_option (\<lambda>s. (sd_size s, sd_files s)) (biggest node)
      else Some (fold (\<lambda>u (size, files). case biggest u of None \<Rightarrow> (size, files) | Some s \<Rightarrow> (size + sd_size s, files + sd_files s))
        (unitsUnder node) (0, 0)))"

definition listNames :: "string list \<Rightarrow> string" where
  "listNames names = (if length names < 2 then (case names of [] \<Rightarrow> [] | n # _ \<Rightarrow> n)
     else join '', '' (butlast names) @ '' and '' @ last names)"

definition row_sides :: "tree_node \<Rightarrow> tree_view \<Rightarrow> (string \<times> side option) list" where
  "row_sides node view = (tv_here view, tn_here node) # map (\<lambda>(slug, name). (name, map_of (tn_there node) slug)) (tv_peers view)"

definition unitStatus :: "tree_view \<Rightarrow> tree_node \<Rightarrow> row_status option" where
  "unitStatus view node =
     (let two = (length (tv_peers view) = 1);
          sides = row_sides node view;
          holding = List.map_filter (\<lambda>(name, s). map_option (Pair name) s) sides;
          newest = Max (set (map (sd_mtime \<circ> snd) holding));
          at_newest = filter (\<lambda>(_, s). sd_mtime s = newest) holding
      in case keep_truthy (map_of (tv_conflicts view) (tn_path node)) of
        Some conflict \<Rightarrow> Some \<lparr>rs_label = (if two then ''Changed on both'' else ''Changed here and on '' @ conflict), rs_tone = Red\<rparr>
      | None \<Rightarrow>
          if length holding = 1 then Some \<lparr>rs_label = ''Only on '' @ fst (hd holding), rs_tone = Green\<rparr>
          else if card (set (map (sd_digest \<circ> snd) holding)) = 1 then
            if length holding = length sides then Some \<lparr>rs_label = (if two then ''Same on both'' else ''Same on all''), rs_tone = Muted\<rparr>
            else Some \<lparr>rs_label = ''Not on '' @ listNames (map fst (filter (\<lambda>(_, s). s = None) sides)), rs_tone = Green\<rparr>
          else if tn_dir node \<or> 1 < length at_newest then
            Some \<lparr>rs_label = (if two then ''Different on each'' else ''Not the same on all''), rs_tone = Amber\<rparr>
          else if holding = [] then None
          else Some \<lparr>rs_label = ''Newer on '' @ fst (hd at_newest), rs_tone = Amber\<rparr>)"

definition rollUp :: "row_status list \<Rightarrow> row_status" where
  "rollUp statuses =
     (if card (set (map rs_label statuses)) = 1 then hd statuses
      else if \<exists>s\<in>set statuses. differs s then \<lparr>rs_label = ''Some differ'', rs_tone = Amber\<rparr>
      else \<lparr>rs_label = ''Nothing to copy'', rs_tone = Muted\<rparr>)"

definition statusOf :: "tree_node \<Rightarrow> tree_view \<Rightarrow> row_status option" where
  "statusOf node view =
     (if isTracked node then map_option rollUp (those (map (unitStatus view) (unitsUnder node))) else unitStatus view node)"

datatype preference = PreferNewest | PreferSide string

definition keptSide :: "tree_node \<Rightarrow> preference \<Rightarrow> string" where
  "keptSide node pref =
     (let holding = (case tn_here node of None \<Rightarrow> [] | Some s \<Rightarrow> [(''here'', s)]) @ tn_there node;
          newest = fst (foldl (\<lambda>a s. if sd_mtime (snd a) < sd_mtime (snd s) then s else a) (hd holding) (tl holding))
      in case pref of
        PreferNewest \<Rightarrow> newest
      | PreferSide k \<Rightarrow>
          (case or_else (List.find (\<lambda>s. fst s = k) holding) (List.find (\<lambda>s. fst s = ''here'') holding) of
             Some s \<Rightarrow> fst s | None \<Rightarrow> newest))"

definition no_newline :: "string \<Rightarrow> bool" where
  "no_newline s = (CHR 0x0A \<notin> set s \<and> CHR 0x0D \<notin> set s)"

text \<open>\<open>/^\.env(\..+)?$/i\<close>.\<close>

definition env_name :: "string \<Rightarrow> bool" where
  "env_name name =
     (let l = to_lower name in l = ''.env'' \<or> (starts_with l ''.env.'' \<and> drop 5 l \<noteq> [] \<and> no_newline (drop 5 l)))"

definition isEnvFile :: "tree_node \<Rightarrow> bool" where
  "isEnvFile node = (\<not> tn_dir node \<and> (env_name (tn_name node) \<or> ends_with (to_lower (tn_name node)) ''.env''))"

definition canCompareEnv :: "tree_node \<Rightarrow> bool" where
  "canCompareEnv node =
     (isEnvFile node \<and> 1 < length (held_sides node) \<and> 1 < card (set (map sd_digest (held_sides node))))"

text \<open>\<open>/\.local(\.[^.]+)?$/i\<close>: the last part of the name, or the one before a last part.\<close>

definition local_name :: "string \<Rightarrow> bool" where
  "local_name l =
     (let ws = rev (split_on CHR ''.'' l) in
      (2 \<le> length ws \<and> hd ws = ''local'') \<or> (3 \<le> length ws \<and> hd ws \<noteq> [] \<and> ws ! 1 = ''local''))"

definition isSecretName :: "string \<Rightarrow> bool" where
  "isSecretName name =
     (let l = to_lower name; ws = split_on CHR ''.'' l in
      env_name name \<or> l = ''.envrc'' \<or> l = ''.npmrc'' \<or> local_name l \<or>
      (2 \<le> length ws \<and> last ws \<in> {''pem'', ''key'', ''crt'', ''cer'', ''p12'', ''pfx'', ''jks'', ''keystore''}) \<or>
      l \<in> {''secret'', ''secrets'', ''cert'', ''certs'', ''keys'', ''credentials''} \<or>
      l = ''google-services.json'' \<or> l = ''googleservice-info.plist'')"

definition HEAVY_NAMES :: "string list" where
  "HEAVY_NAMES = [''node_modules'', ''.next'', ''.nuxt'', ''.turbo'', ''.parcel-cache'', ''.cache'', ''dist'', ''build'', ''out'',
     ''target'', ''.venv'', ''venv'', ''vendor'', ''Pods'', ''.gradle'', ''coverage'', ''__pycache__'', ''DerivedData'']"

definition SUGGEST_MAX_BYTES :: int where "SUGGEST_MAX_BYTES = 10 * 1024 * 1024"

definition side_size :: "side option \<Rightarrow> int" where
  "side_size s = (case s of None \<Rightarrow> 0 | Some x \<Rightarrow> sd_size x)"

definition suggested :: "tree_node list \<Rightarrow> string list" where
  "suggested tree =
     to_set (map tn_path (filter (\<lambda>u. side_size (biggest u) \<le> SUGGEST_MAX_BYTES)
       (filter (\<lambda>u. isSecretName (tn_name u) \<and> tn_name u \<notin> set HEAVY_NAMES) (units tree))))"

record tree_row =
  rw_node :: tree_node
  rw_depth :: nat
  rw_open :: bool
  rw_more :: bool

definition node_matches :: "string \<Rightarrow> tree_node \<Rightarrow> bool" where
  "node_matches q n = (\<exists>m\<in>set (node_list n). str_includes (to_lower (tn_path m)) q)"

fun visible_walk :: "string \<Rightarrow> string set \<Rightarrow> nat \<Rightarrow> tree_node \<Rightarrow> tree_row list" where
  "visible_walk q opened depth (TNode path name dir ignored here there children rest) =
     (let node = TNode path name dir ignored here there children rest;
          isOpen = (dir \<and> (if q \<noteq> [] then (case children of None \<Rightarrow> False | Some cs \<Rightarrow> \<exists>c\<in>set cs. node_matches q c) else path \<in> opened))
      in if q \<noteq> [] \<and> \<not> node_matches q node then []
         else \<lparr>rw_node = node, rw_depth = depth, rw_open = isOpen, rw_more = False\<rparr> #
           (case children of None \<Rightarrow> [] | Some cs \<Rightarrow> if isOpen then concat (map (visible_walk q opened (depth + 1)) cs) else []) @
           (if isOpen \<and> 0 < rest then [\<lparr>rw_node = node, rw_depth = depth + 1, rw_open = False, rw_more = True\<rparr>] else []))"

definition visibleRows :: "tree_node list \<Rightarrow> string set \<Rightarrow> string \<Rightarrow> tree_row list" where
  "visibleRows tree opened query = concat (map (visible_walk (to_lower (trim query)) opened 0) tree)"

definition trackedFolders :: "tree_node list \<Rightarrow> string list" where
  "trackedFolders tree =
     map tn_path (filter isTracked (List.map_filter (indexTree tree) (to_set (map tn_path (tree_nodes tree)))))"

record sync_totals =
  to_files :: int
  to_differ :: nat
  to_heavy :: "string list"
  to_heavyBytes :: int

definition total_step :: "tree_node list \<Rightarrow> tree_view \<Rightarrow> string \<Rightarrow> sync_totals option \<Rightarrow> sync_totals option" where
  "total_step tree view path out =
     (case (out, indexTree tree path) of
        (None, _) \<Rightarrow> None
      | (Some t, None) \<Rightarrow> Some t
      | (Some t, Some node) \<Rightarrow>
          (case statusOf node view of
             None \<Rightarrow> None
           | Some status \<Rightarrow>
               (let t1 = t\<lparr>to_files := to_files t + foldl max 0 (map sd_files (held_sides node)),
                      to_differ := to_differ t + (if differs status then 1 else 0)\<rparr>
                in Some (if \<exists>part\<in>set (split_on CHR ''/'' path). part \<in> set HEAVY_NAMES
                     then t1\<lparr>to_heavy := to_heavy t1 @ [path], to_heavyBytes := to_heavyBytes t1 + side_size (biggest node)\<rparr> else t1))))"

definition totalsOf :: "tree_node list \<Rightarrow> string list \<Rightarrow> tree_view \<Rightarrow> sync_totals option" where
  "totalsOf tree sel view =
     fold (total_step tree view) sel (Some \<lparr>to_files = 0, to_differ = 0, to_heavy = [], to_heavyBytes = 0\<rparr>)"

section \<open>What a row says\<close>

definition held_alike :: "tree_view \<Rightarrow> tree_node \<Rightarrow> bool" where
  "held_alike view u \<longleftrightarrow> (\<exists>d. \<forall>(name, s)\<in>set (row_sides u view). map_option sd_digest s = Some d)"

definition needs_nothing :: "tree_view \<Rightarrow> tree_node \<Rightarrow> bool" where
  "needs_nothing view u \<longleftrightarrow> \<not> truthy (map_of (tv_conflicts view) (tn_path u)) \<and> held_alike view u"

definition holding_of :: "(string \<times> side option) list \<Rightarrow> (string \<times> side) list" where
  "holding_of sides = List.map_filter (\<lambda>(name, s). map_option (Pair name) s) sides"

lemma holding_of_simps [simp]:
  "holding_of [] = []" "holding_of ((name, None) # xs) = holding_of xs" "holding_of ((name, Some s) # xs) = (name, s) # holding_of xs"
  by (simp_all add: holding_of_def List.map_filter_simps)

lemma holding_of_length: "length (holding_of xs) \<le> length xs"
  "length (holding_of xs) = length xs \<longleftrightarrow> None \<notin> snd ` set xs"
proof -
  show le: "length (holding_of ys) \<le> length ys" for ys
  proof (induction ys)
    case (Cons y ys)
    then show ?case by (cases y; cases "snd y") auto
  qed simp
  show "length (holding_of xs) = length xs \<longleftrightarrow> None \<notin> snd ` set xs"
  proof (induction xs)
    case (Cons x xs)
    then show ?case using le [of xs] by (cases x; cases "snd x") auto
  qed simp
qed

lemma holding_of_digests: "set (map (sd_digest \<circ> snd) (holding_of xs)) = {d. Some d \<in> map_option sd_digest ` snd ` set xs}"
proof (induction xs)
  case (Cons x xs)
  then show ?case by (cases x; cases "snd x") (auto simp: image_iff)
qed simp

lemma one_value:
  fixes D :: "'a option set"
  assumes "D \<noteq> {}"
  shows "(\<exists>d. D = {Some d}) \<longleftrightarrow> None \<notin> D \<and> card {d. Some d \<in> D} = 1"
proof
  assume "None \<notin> D \<and> card {d. Some d \<in> D} = 1"
  moreover then obtain d where d: "{d. Some d \<in> D} = {d}" using card_1_singletonE by blast
  ultimately have "x = Some d" if "x \<in> D" for x using that by (cases x) auto
  then have "D = {Some d}" using assms by blast
  then show "\<exists>d. D = {Some d}" ..
qed auto

lemma held_alike_card:
  "held_alike view u \<longleftrightarrow> length (holding_of (row_sides u view)) = length (row_sides u view) \<and>
     card (set (map (sd_digest \<circ> snd) (holding_of (row_sides u view)))) = 1"
proof -
  let ?D = "map_option sd_digest ` snd ` set (row_sides u view)"
  have ne: "?D \<noteq> {}" by (simp add: row_sides_def)
  have "held_alike view u \<longleftrightarrow> (\<exists>d. ?D \<subseteq> {Some d})"
    unfolding held_alike_def by (intro ex_cong1) (fastforce simp: image_subset_iff)
  also have "\<dots> \<longleftrightarrow> (\<exists>d. ?D = {Some d})" using ne by (simp add: subset_singleton_iff)
  also have "\<dots> \<longleftrightarrow> None \<notin> ?D \<and> card {d. Some d \<in> ?D} = 1" by (rule one_value [OF ne])
  also have "None \<notin> ?D \<longleftrightarrow> None \<notin> snd ` set (row_sides u view)" by (auto simp: image_iff)
  finally show ?thesis by (simp only: holding_of_length(2) holding_of_digests)
qed

text \<open>A status says \<open>Same on\<close> just when it is not one that differs.\<close>

lemma unitStatus_same:
  assumes "tv_peers view \<noteq> []" "unitStatus view u = Some st"
  shows "differs st \<longleftrightarrow> \<not> needs_nothing view u" "differs st \<longleftrightarrow> hd (rs_label st) \<noteq> CHR ''S''"
proof -
  let ?h = "holding_of (row_sides u view)"
  have two: "2 \<le> length (row_sides u view)" using assms(1) by (cases "tv_peers view") (auto simp: row_sides_def)
  note status = assms(2) [unfolded unitStatus_def Let_def holding_of_def [symmetric]]
  have "(differs st \<longleftrightarrow> \<not> needs_nothing view u) \<and> (differs st \<longleftrightarrow> hd (rs_label st) \<noteq> CHR ''S'')"
  proof (cases "truthy (map_of (tv_conflicts view) (tn_path u))")
    case True
    then obtain c where "keep_truthy (map_of (tv_conflicts view) (tn_path u)) = Some c" by (cases "map_of (tv_conflicts view) (tn_path u)") (auto simp: keep_truthy_def)
    then show ?thesis using True status by (auto simp: differs_def needs_nothing_def split: if_splits)
  next
    case False
    then have none: "keep_truthy (map_of (tv_conflicts view) (tn_path u)) = None" by (simp add: keep_truthy_def)
    show ?thesis
    proof (cases "held_alike view u")
      case True
      then have h: "length ?h = length (row_sides u view)" "card (set (map (sd_digest \<circ> snd) ?h)) = 1" by (simp_all add: held_alike_card)
      then have "length ?h \<noteq> 1" using two by linarith
      then show ?thesis using status h True False by (auto simp: none differs_def needs_nothing_def)
    next
      case F: False
      then have h: "\<not> (length ?h = length (row_sides u view) \<and> card (set (map (sd_digest \<circ> snd) ?h)) = 1)" by (simp add: held_alike_card)
      show ?thesis using status h F False
        by (auto simp: none differs_def needs_nothing_def split: if_splits)
    qed
  qed
  then show "differs st \<longleftrightarrow> \<not> needs_nothing view u" "differs st \<longleftrightarrow> hd (rs_label st) \<noteq> CHR ''S''" by blast+
qed

lemma those_some: "those xs = Some ys \<Longrightarrow> xs = map Some ys"
  by (induction xs arbitrary: ys) (auto split: option.splits)

lemma rollUp_differs:
  assumes "\<forall>a\<in>set sts. differs a \<longleftrightarrow> hd (rs_label a) \<noteq> CHR ''S''"
  shows "differs (rollUp sts) \<longleftrightarrow> (\<exists>a\<in>set sts. differs a)"
proof (cases "card (set (map rs_label sts)) = 1")
  case True
  then obtain l where "set (map rs_label sts) = {l}" using card_1_singletonE by blast
  then have l: "rs_label b = l" if "b \<in> set sts" for b using that by (metis imageI set_map singletonD)
  obtain a as where as: "sts = a # as" using True by (cases sts) simp_all
  have a: "a \<in> set sts" by (simp add: as)
  have same: "differs b = differs a" if b: "b \<in> set sts" for b
    using assms b a l [OF b] l [OF a] by metis
  have "rollUp sts = a" using True by (simp add: rollUp_def as)
  then show ?thesis using same a by metis
qed (auto simp: rollUp_def differs_def)

text \<open>Property C33: a row of the Sync Ignored Files tree says that there is nothing to copy just when every
  computer in view holds the same version and no round found it changed on two of them; a folder git
  tracks says so just when that is so of every ignored entry it holds. So no row that differs is
  shown as settled, and none that is settled is counted as differing.\<close>

theorem settled_rows_are_alike:
  assumes "tv_peers view \<noteq> []" "statusOf node view = Some st"
  shows "\<not> differs st \<longleftrightarrow> (\<forall>u\<in>set (if isTracked node then unitsUnder node else [node]). needs_nothing view u)"
proof (cases "isTracked node")
  case True
  then obtain sts where sts: "those (map (unitStatus view) (unitsUnder node)) = Some sts" "st = rollUp sts"
    using assms(2) by (auto simp: statusOf_def)
  have each: "map (unitStatus view) (unitsUnder node) = map Some sts" by (rule those_some [OF sts(1)])
  have unit: "\<exists>u\<in>set (unitsUnder node). unitStatus view u = Some a" if "a \<in> set sts" for a
  proof -
    have "Some a \<in> set (map (unitStatus view) (unitsUnder node))" using that unfolding each by simp
    then show ?thesis by auto
  qed
  have status: "\<exists>a\<in>set sts. unitStatus view u = Some a" if "u \<in> set (unitsUnder node)" for u
  proof -
    have "unitStatus view u \<in> set (map Some sts)" using that unfolding each [symmetric] by simp
    then show ?thesis by auto
  qed
  have "differs (rollUp sts) \<longleftrightarrow> (\<exists>a\<in>set sts. differs a)"
    using unit unitStatus_same(2) [OF assms(1)] by (intro rollUp_differs) blast
  also have "\<dots> \<longleftrightarrow> (\<exists>u\<in>set (unitsUnder node). \<not> needs_nothing view u)"
    using unit status unitStatus_same(1) [OF assms(1)] by blast
  finally show ?thesis using True sts(2) by simp
qed (use assms unitStatus_same in \<open>simp add: statusOf_def\<close>)

definition sample_env :: "string \<Rightarrow> string \<Rightarrow> tree_node" where
  "sample_env mine theirs = TNode ''a/.env'' ''.env'' False True
     (Some \<lparr>sd_size = 10, sd_files = 1, sd_mtime = 5, sd_digest = mine\<rparr>)
     [(''mac'', \<lparr>sd_size = 10, sd_files = 1, sd_mtime = 7, sd_digest = theirs\<rparr>)] None 0"

definition sample_folder :: "string \<Rightarrow> tree_node" where
  "sample_folder theirs = TNode ''a/'' ''a'' True False None [] (Some [sample_env ''d1'' theirs]) 0"

definition sample_view :: tree_view where
  "sample_view = \<lparr>tv_here = ''Studio'', tv_peers = [(''mac'', ''Mac'')], tv_conflicts = []\<rparr>"

theorem settled_rows_are_alike_witness:
  "statusOf (sample_folder ''d1'') sample_view = Some \<lparr>rs_label = ''Same on both'', rs_tone = Muted\<rparr> \<and>
   needs_nothing sample_view (sample_env ''d1'' ''d1'') \<and>
   statusOf (sample_folder ''d2'') sample_view = Some \<lparr>rs_label = ''Newer on Mac'', rs_tone = Amber\<rparr> \<and>
   \<not> needs_nothing sample_view (sample_env ''d1'' ''d2'')"
proof -
  have peers: "tv_peers sample_view \<noteq> []" by (simp add: sample_view_def)
  have st: "statusOf (sample_folder ''d1'') sample_view = Some \<lparr>rs_label = ''Same on both'', rs_tone = Muted\<rparr>"
    "statusOf (sample_folder ''d2'') sample_view = Some \<lparr>rs_label = ''Newer on Mac'', rs_tone = Amber\<rparr>"
    by code_simp+
  have folder: "isTracked (sample_folder d)" "unitsUnder (sample_folder d) = [sample_env ''d1'' d]" for d
    by (simp_all add: sample_folder_def sample_env_def isTracked_def unitsUnder_def)
  show ?thesis
    using settled_rows_are_alike [OF peers st(1)] settled_rows_are_alike [OF peers st(2)] st folder
    by (simp add: differs_def)
qed

end
