(* ===== verification/IgnoredSelection.thy ===== *)
theory IgnoredSelection
  imports IgnoredTree
begin

text \<open>
  Which rows of the Sync Ignored Files tree are ticked (\<open>components/ignored/ignoredSelection.ts\<close>): a set
  of paths, none inside another, in which a whole folder stands for everything in it, now and later.
  What ticking a row does is stated over the rows that are listed and have no rows below them.
\<close>

section \<open>Ticks\<close>

datatype check_state = TickNone | TickSome | TickAll

function covered_above :: "string \<Rightarrow> string set \<Rightarrow> bool" where
  "covered_above path sel =
     (let p = parentOf path in if p = [] then False else p \<in> sel \<or> covered_above p sel)"
  by pat_completeness auto
termination
  by (relation "measure (\<lambda>(path, sel). length path)") (auto simp: parentOf_shorter)

declare covered_above.simps [simp del]

definition covered :: "string \<Rightarrow> string set \<Rightarrow> bool" where
  "covered path sel = (path \<in> sel \<or> covered_above path sel)"

definition inside :: "string \<Rightarrow> string \<Rightarrow> bool" where
  "inside s path = (ends_with path ''/'' \<and> s \<noteq> path \<and> starts_with s path)"

definition holdsSome :: "string \<Rightarrow> string set \<Rightarrow> bool" where
  "holdsSome path sel = (\<exists>s\<in>sel. inside s path)"

definition unit_tick :: "string set \<Rightarrow> tree_node \<Rightarrow> check_state" where
  "unit_tick sel node = (if covered (tn_path node) sel then TickAll else if holdsSome (tn_path node) sel then TickSome else TickNone)"

definition tickOf :: "tree_node \<Rightarrow> string set \<Rightarrow> check_state" where
  "tickOf node sel =
     (if isTracked node then
        let ticks = map (unit_tick sel) (unitsUnder node)
        in if ticks \<noteq> [] \<and> (\<forall>t\<in>set ticks. t = TickAll) then TickAll
           else if \<exists>t\<in>set ticks. t \<noteq> TickNone then TickSome else TickNone
      else unit_tick sel node)"

definition dropInside :: "string \<Rightarrow> string set \<Rightarrow> string set" where
  "dropInside path sel = {s \<in> sel. \<not> inside s path}"

definition add_tick :: "string \<Rightarrow> string set \<Rightarrow> string set" where
  "add_tick path sel = insert path (dropInside path sel)"

text \<open>A folder with an empty path, which would be its own parent, is left alone.\<close>

function mergeUp :: "(string \<Rightarrow> tree_node option) \<Rightarrow> string \<Rightarrow> string set \<Rightarrow> string set" where
  "mergeUp index path sel =
     (case index (parentOf path) of
        None \<Rightarrow> sel
      | Some parent \<Rightarrow>
          if \<not> tn_ignored parent \<or> tn_children parent = None \<or> 0 < tn_more parent then sel
          else if \<not> (\<forall>c\<in>set (the (tn_children parent)). tn_path c \<in> sel) then sel
          else if path = [] then sel
          else mergeUp index (parentOf path) (add_tick (parentOf path) sel))"
  by pat_completeness auto
termination
  by (relation "measure (\<lambda>(index, path, sel). length path)") (auto simp: parentOf_shorter')

declare mergeUp.simps [simp del]

text \<open>The children of a folder, with the one the loop goes into next: the last the target starts with.\<close>

definition split_level :: "string \<Rightarrow> tree_node list \<Rightarrow> string set \<Rightarrow> tree_node option \<times> string set" where
  "split_level target children sel =
     fold (\<lambda>child (next_at, sel). if starts_with target (tn_path child) then (Some child, sel) else (next_at, insert (tn_path child) sel))
       children (None, sel)"

lemma split_level_next: "fst (split_level target children sel) = Some child \<Longrightarrow> child \<in> set children"
proof -
  have "fst (fold (\<lambda>child (next_at, sel). if starts_with target (tn_path child) then (Some child, sel) else (next_at, insert (tn_path child) sel))
      cs (start, s)) = Some child \<Longrightarrow> start = Some child \<or> child \<in> set cs" for cs start s
    by (induction cs arbitrary: start s) (auto split: if_splits)
  then show "fst (split_level target children sel) = Some child \<Longrightarrow> child \<in> set children"
    unfolding split_level_def by blast
qed

lemma child_smaller: "child \<in> set (case tn_children n of None \<Rightarrow> [] | Some cs \<Rightarrow> cs) \<Longrightarrow> size child < size n"
proof (cases n)
  case (TNode path name dir ignored here there children rest)
  assume "child \<in> set (case tn_children n of None \<Rightarrow> [] | Some cs \<Rightarrow> cs)"
  then obtain cs where "children = Some cs" "child \<in> set cs" using TNode by (auto split: option.splits)
  then show ?thesis using TNode by (auto dest: size_list_estimation' [where f = size, OF _ order_refl])
qed

function split_from :: "string \<Rightarrow> tree_node \<Rightarrow> string set \<Rightarrow> string set" where
  "split_from target at_node sel =
     (if tn_path at_node = target then sel
      else case split_level target (case tn_children at_node of None \<Rightarrow> [] | Some cs \<Rightarrow> cs) sel of
        (None, sel') \<Rightarrow> sel'
      | (Some child, sel') \<Rightarrow> split_from target child sel')"
  by pat_completeness auto
termination
  by (relation "measure (\<lambda>(target, n, sel). size n)") (auto intro!: child_smaller split_level_next simp: prod_eq_iff)

declare split_from.simps [simp del]

definition split_tick :: "(string \<Rightarrow> tree_node option) \<Rightarrow> string \<Rightarrow> string \<Rightarrow> string set \<Rightarrow> string set" where
  "split_tick index from target sel =
     (case index from of None \<Rightarrow> sel - {from} | Some at_node \<Rightarrow> split_from target at_node (sel - {from}))"

text \<open>The nearest folder above a path that is ticked, or none.\<close>

function ticked_above :: "string \<Rightarrow> string set \<Rightarrow> string" where
  "ticked_above path sel =
     (let p = parentOf path in if p = [] \<or> p \<in> sel then p else ticked_above p sel)"
  by pat_completeness auto
termination
  by (relation "measure (\<lambda>(path, sel). length path)") (auto simp: parentOf_shorter)

declare ticked_above.simps [simp del]

definition toggle :: "tree_node \<Rightarrow> tree_node list \<Rightarrow> string set \<Rightarrow> string set" where
  "toggle node tree sel =
     (let index = indexTree tree; tick = tickOf node sel; path = tn_path node in
      if isTracked node then
        fold (\<lambda>u sel. if tick = TickAll then dropInside (tn_path u) sel - {tn_path u} else add_tick (tn_path u) sel) (unitsUnder node) sel
      else if tick \<noteq> TickAll then mergeUp index path (add_tick path sel)
      else if path \<in> sel then sel - {path}
      else let from = ticked_above path sel in if from \<noteq> [] then split_tick index from path sel else sel)"

definition withEnvFiles :: "tree_node list \<Rightarrow> string set \<Rightarrow> string set" where
  "withEnvFiles tree sel = fold (\<lambda>u sel. if isEnvFile u then add_tick (tn_path u) sel else sel) (units tree) sel"

definition selectedPaths :: "string set \<Rightarrow> string list" where
  "selectedPaths sel = sorted_list_of_set sel"

section \<open>Paths and folders\<close>

lemma starts_with_prefix: "starts_with s p \<longleftrightarrow> (\<exists>rest. s = p @ rest)"
  using starts_with_split starts_with_append by metis

text \<open>A path is at most one slash after its last one, and the parent is what comes before.\<close>

lemma parentOf_cases:
  obtains "parentOf path = []" "\<And>p. \<not> inside path p"
  | "parentOf path \<noteq> []" "inside path (parentOf path)" "\<And>p. inside path p \<Longrightarrow> length p \<le> length (parentOf path)"
proof -
  define t where "t = (if ends_with path ''/'' then butlast path else path)"
  have path: "path = t \<or> path = t @ ''/''" by (cases path rule: rev_cases) (auto simp: t_def ends_with_slash_iff)
  have inside_t: "\<exists>a b. t = a @ CHR ''/'' # b \<and> p = a @ ''/''" if i: "inside path p" for p
  proof -
    obtain a where a: "p = a @ ''/''" using i by (cases p rule: rev_cases) (auto simp: inside_def ends_with_slash_iff)
    obtain rest where "path = p @ rest" "rest \<noteq> []" using i by (auto simp: inside_def starts_with_prefix)
    moreover have "path = t \<Longrightarrow> \<not> ends_with path ''/''"
      by (cases path rule: rev_cases) (auto simp: t_def ends_with_slash_iff)
    ultimately show ?thesis using path a by (cases rest rule: rev_cases) auto
  qed
  show thesis
  proof (cases "lastIndexOf_sub ''/'' t < 0")
    case True
    then have "CHR ''/'' \<notin> set t" by (simp add: lastIndexOf_slash)
    then have "\<not> inside path p" for p using inside_t by fastforce
    moreover have "parentOf path = []" using True by (simp add: parentOf_def t_def Let_def)
    ultimately show thesis using that(1) by blast
  next
    case False
    then obtain a b where ab: "t = a @ CHR ''/'' # b" "CHR ''/'' \<notin> set b" "nat (lastIndexOf_sub ''/'' t) = length a"
      using lastIndexOf_slash(2) [of t] by auto
    have p: "parentOf path = a @ ''/''" using False ab by (simp add: parentOf_def t_def [symmetric] Let_def)
    have "path \<noteq> a @ ''/''"
      using path ab by (auto simp: t_def ends_with_slash_iff split: if_splits)
    then have "inside path (parentOf path)"
      using path ab by (auto simp: p inside_def ends_with_slash_iff starts_with_def)
    moreover have "length q \<le> length (parentOf path)" if "inside path q" for q
    proof -
      from inside_t [OF that] obtain c d where cd: "t = c @ CHR ''/'' # d" "q = c @ ''/''" by (elim exE conjE)
      have "\<not> length a < length c"
      proof
        assume "length a < length c"
        then obtain u where "c = a @ CHR ''/'' # u"
          using ab(1) cd(1) by (auto simp: append_eq_append_conv2 Cons_eq_append_conv append_eq_Cons_conv)
        then have "b = u @ CHR ''/'' # d" using ab(1) cd(1) by simp
        then show False using ab(2) by simp
      qed
      then show ?thesis by (simp add: p cd(2))
    qed
    ultimately show thesis using that(2) p by simp
  qed
qed

section \<open>One path within another\<close>

definition in_or_at :: "string \<Rightarrow> string \<Rightarrow> bool" where
  "in_or_at m s \<longleftrightarrow> m = s \<or> inside m s"

lemma inside_longer: "inside a b \<Longrightarrow> length b < length a"
  by (auto simp: inside_def starts_with_prefix)

lemma inside_trans: "inside a b \<Longrightarrow> inside b c \<Longrightarrow> inside a c"
  using inside_longer [of a b] inside_longer [of b c] by (auto simp: inside_def starts_with_prefix)

lemma in_or_at_trans: "in_or_at a b \<Longrightarrow> in_or_at b c \<Longrightarrow> in_or_at a c"
  using inside_trans by (auto simp: in_or_at_def)

lemma in_or_at_refl [simp]: "in_or_at a a"
  by (simp add: in_or_at_def)

lemma inside_in_or_at: "inside a b \<Longrightarrow> in_or_at b c \<Longrightarrow> inside a c"
  using inside_trans by (auto simp: in_or_at_def)

lemma in_or_at_inside: "in_or_at a b \<Longrightarrow> inside b c \<Longrightarrow> inside a c"
  using inside_trans by (auto simp: in_or_at_def)

lemma in_or_at_both: "in_or_at m p \<Longrightarrow> in_or_at m q \<Longrightarrow> in_or_at p q \<or> in_or_at q p"
  by (auto simp: in_or_at_def inside_def starts_with_prefix append_eq_append_conv2)

lemma inside_parent: "inside path s \<longleftrightarrow> parentOf path \<noteq> [] \<and> in_or_at (parentOf path) s"
proof (cases rule: parentOf_cases [of path])
  case 1
  then show ?thesis by simp
next
  case 2
  have "in_or_at (parentOf path) s" if s: "inside path s"
    using in_or_at_both [of path "parentOf path" s] 2 s inside_longer [of s "parentOf path"]
    by (fastforce simp: in_or_at_def)
  then show ?thesis using 2 in_or_at_inside inside_in_or_at by blast
qed

lemma covered_iff: "covered path sel \<longleftrightarrow> (\<exists>s\<in>sel. in_or_at path s)"
proof -
  have "covered_above path sel \<longleftrightarrow> (\<exists>s\<in>sel. inside path s)"
  proof (induction path sel rule: covered_above.induct)
    case (1 path sel)
    show ?case
    proof (cases "parentOf path = []")
      case True
      then show ?thesis by (subst covered_above.simps) (simp add: inside_parent)
    next
      case False
      then have "covered_above path sel \<longleftrightarrow> parentOf path \<in> sel \<or> (\<exists>s\<in>sel. inside (parentOf path) s)"
        using 1 [OF refl False] by (subst covered_above.simps) (simp add: Let_def)
      then show ?thesis using False unfolding inside_parent [of path] by (auto simp: in_or_at_def)
    qed
  qed
  then show ?thesis by (auto simp: covered_def in_or_at_def)
qed

definition antichain :: "string set \<Rightarrow> bool" where
  "antichain sel \<longleftrightarrow> (\<forall>s\<in>sel. \<forall>t\<in>sel. \<not> inside s t)"

lemma covered_add: "covered m (add_tick path sel) \<longleftrightarrow> covered m sel \<or> in_or_at m path"
  unfolding covered_iff add_tick_def dropInside_def using in_or_at_inside [of m _ path] by (auto simp: in_or_at_def)

lemma antichain_add: "antichain sel \<Longrightarrow> \<not> (\<exists>s\<in>sel. inside path s) \<Longrightarrow> antichain (add_tick path sel)"
  using inside_longer [of path path] by (auto simp: antichain_def add_tick_def dropInside_def)

lemma antichain_subset: "antichain sel \<Longrightarrow> sel' \<subseteq> sel \<Longrightarrow> antichain sel'"
  by (auto simp: antichain_def)

lemma ticked_above_found:
  "\<exists>s\<in>sel. inside path s \<Longrightarrow> ticked_above path sel \<in> sel \<and> inside path (ticked_above path sel) \<and> ticked_above path sel \<noteq> []"
proof (induction path sel rule: ticked_above.induct)
  case (1 path sel)
  then have p: "parentOf path \<noteq> []" "inside path (parentOf path)" by (auto simp: inside_parent)
  show ?case
  proof (cases "parentOf path \<in> sel")
    case True
    then show ?thesis using p by (subst (1 2 3) ticked_above.simps) (simp add: Let_def)
  next
    case False
    then have "\<exists>s\<in>sel. inside (parentOf path) s" using "1.prems" by (auto simp: inside_parent [of path] in_or_at_def)
    then have "ticked_above (parentOf path) sel \<in> sel \<and> inside (parentOf path) (ticked_above (parentOf path) sel) \<and>
        ticked_above (parentOf path) sel \<noteq> []" using 1 p(1) False by simp
    moreover have "ticked_above path sel = ticked_above (parentOf path) sel"
      using p(1) False by (subst ticked_above.simps) (simp add: Let_def)
    ultimately show ?thesis using p(2) inside_trans by auto
  qed
qed

section \<open>The tree and its paths\<close>

definition kids :: "tree_node \<Rightarrow> tree_node list" where
  "kids n = (case tn_children n of None \<Rightarrow> [] | Some cs \<Rightarrow> cs)"

text \<open>A node's path names its parent, ends in a slash when it is a folder, and only folders hold nodes;
  what an ignored folder holds is ignored.\<close>

fun node_ok :: "string \<Rightarrow> tree_node \<Rightarrow> bool" where
  "node_ok parent (TNode path name dir ignored here there children rest) =
     (path \<noteq> [] \<and> parentOf path = parent \<and> (dir \<longleftrightarrow> ends_with path ''/'') \<and> (\<not> ignored \<longrightarrow> dir) \<and>
      (case children of None \<Rightarrow> True
       | Some cs \<Rightarrow> dir \<and> distinct (map tn_path cs) \<and> (\<forall>c\<in>set cs. node_ok path c \<and> (ignored \<longrightarrow> tn_ignored c))))"

definition tree_ok :: "tree_node list \<Rightarrow> bool" where
  "tree_ok tree \<longleftrightarrow> distinct (map tn_path tree) \<and> (\<forall>n\<in>set tree. node_ok [] n)"

lemma node_list_kids: "node_list n = n # concat (map node_list (kids n))"
  by (cases n) (simp add: kids_def split: option.split)

lemma node_list_own [simp]: "n \<in> set (node_list n)"
  by (simp add: node_list_kids [of n])

lemma node_list_kid: "c \<in> set (kids n) \<Longrightarrow> set (node_list c) \<subseteq> set (node_list n)"
  unfolding node_list_kids [of n] by auto

lemma units_of_kids: "units_of n = (if isTracked n then concat (map units_of (kids n)) else [n])"
  by (cases n) (simp add: kids_def isTracked_def split: option.split)

lemma unitsUnder_kids: "unitsUnder n = concat (map units_of (kids n))"
  by (simp add: unitsUnder_def kids_def)

lemma kids_smaller: "c \<in> set (kids n) \<Longrightarrow> size c < size n"
  unfolding kids_def by (rule child_smaller)

lemma kids_induct:
  assumes "\<And>n. (\<And>c. c \<in> set (kids n) \<Longrightarrow> P c) \<Longrightarrow> P n"
  shows "P n"
proof (induction n rule: measure_induct_rule [of size])
  case (less n)
  show ?case by (rule assms) (rule less, rule kids_smaller)
qed

lemma node_okD:
  assumes "node_ok parent n"
  shows "tn_path n \<noteq> []" "parentOf (tn_path n) = parent" "tn_dir n \<longleftrightarrow> ends_with (tn_path n) ''/''" "\<not> isTracked n \<longleftrightarrow> tn_ignored n"
    "distinct (map tn_path (kids n))" "c \<in> set (kids n) \<Longrightarrow> node_ok (tn_path n) c" "c \<in> set (kids n) \<Longrightarrow> inside (tn_path c) (tn_path n)"
proof -
  show n: "tn_path n \<noteq> []" and "parentOf (tn_path n) = parent" "tn_dir n \<longleftrightarrow> ends_with (tn_path n) ''/''" "\<not> isTracked n \<longleftrightarrow> tn_ignored n"
    "distinct (map tn_path (kids n))" using assms by (cases n; auto simp: kids_def isTracked_def split: option.splits)+
  show c: "node_ok (tn_path n) c" if "c \<in> set (kids n)" for c
    using assms that by (cases n) (auto simp: kids_def split: option.splits)
  show "inside (tn_path c) (tn_path n)" if "c \<in> set (kids n)"
  proof -
    have "parentOf (tn_path c) = tn_path n" using c [OF that] by (cases c) simp
    then show ?thesis using n by (simp add: inside_parent)
  qed
qed

lemma node_list_inside: "node_ok parent n \<Longrightarrow> m \<in> set (node_list n) \<Longrightarrow> in_or_at (tn_path m) (tn_path n)"
proof (induction n arbitrary: parent rule: kids_induct)
  case (1 n)
  show ?case
  proof (cases "m = n")
    case False
    then obtain c where c: "c \<in> set (kids n)" "m \<in> set (node_list c)" using "1.prems"(2) by (auto simp: node_list_kids [of n])
    have "in_or_at (tn_path m) (tn_path c)" by (rule "1.IH" [OF c(1) node_okD(6) [OF "1.prems"(1) c(1)] c(2)])
    then show ?thesis using node_okD(7) [OF "1.prems"(1) c(1)] in_or_at_inside by (auto simp: in_or_at_def)
  qed simp
qed

lemma node_list_ok: "node_ok parent n \<Longrightarrow> m \<in> set (node_list n) \<Longrightarrow> \<exists>q. node_ok q m"
proof (induction n arbitrary: parent rule: kids_induct)
  case (1 n)
  then show ?case using node_okD(6) [OF "1.prems"(1)] by (auto simp: node_list_kids [of n])
qed

text \<open>No path is within two siblings.\<close>

lemma siblings_apart:
  assumes "node_ok parent c" "node_ok parent d" "in_or_at m (tn_path c)" "in_or_at m (tn_path d)"
  shows "tn_path c = tn_path d"
proof -
  have "\<not> inside (tn_path x) (tn_path y)" if "node_ok parent x" "node_ok parent y" for x y
  proof
    assume "inside (tn_path x) (tn_path y)"
    then have "parent \<noteq> []" "in_or_at parent (tn_path y)" using node_okD(2) [OF that(1)] by (simp_all add: inside_parent [of "tn_path x"])
    moreover have "inside (tn_path y) parent" using node_okD(2) [OF that(2)] calculation(1) by (simp add: inside_parent)
    ultimately have "inside (tn_path y) (tn_path y)" using inside_in_or_at by blast
    then show False using inside_longer by fastforce
  qed
  then show ?thesis using in_or_at_both [OF assms(3,4)] assms(1,2) by (auto simp: in_or_at_def)
qed

lemma same_child:
  assumes "node_ok parent n" "c \<in> set (kids n)" "d \<in> set (kids n)" "in_or_at m (tn_path c)" "in_or_at m (tn_path d)"
  shows "c = d"
proof -
  have "tn_path c = tn_path d"
    by (rule siblings_apart [OF node_okD(6) [OF assms(1,2)] node_okD(6) [OF assms(1,3)] assms(4,5)])
  then show ?thesis using node_okD(5) [OF assms(1)] assms(2,3) by (auto simp: distinct_map inj_on_def)
qed

lemma node_list_unique:
  "node_ok parent n \<Longrightarrow> a \<in> set (node_list n) \<Longrightarrow> b \<in> set (node_list n) \<Longrightarrow> tn_path a = tn_path b \<Longrightarrow> a = b"
proof (induction n arbitrary: parent rule: kids_induct)
  case (1 n)
  have below: "tn_path x \<noteq> tn_path n" if "c \<in> set (kids n)" "x \<in> set (node_list c)" for c x
    using node_list_inside [OF node_okD(6) [OF "1.prems"(1) that(1)] that(2)] node_okD(7) [OF "1.prems"(1) that(1)]
      in_or_at_inside inside_longer by fastforce
  show ?case
  proof (cases "a = n \<or> b = n")
    case True
    then show ?thesis using "1.prems"(2-4) below by (fastforce simp: node_list_kids [of n])
  next
    case False
    then obtain c d where cd: "c \<in> set (kids n)" "a \<in> set (node_list c)" "d \<in> set (kids n)" "b \<in> set (node_list d)"
      using "1.prems"(2,3) by (auto simp: node_list_kids [of n])
    have "c = d" using same_child [OF "1.prems"(1) cd(1,3)] "1.prems"(4)
        node_list_inside [OF node_okD(6) [OF "1.prems"(1) cd(1)] cd(2)] node_list_inside [OF node_okD(6) [OF "1.prems"(1) cd(3)] cd(4)] by metis
    then show ?thesis using "1.IH" [OF cd(1) node_okD(6) [OF "1.prems"(1) cd(1)] cd(2)] cd(4) "1.prems"(4) by blast
  qed
qed

lemma node_list_above:
  "node_ok parent n \<Longrightarrow> m \<in> set (node_list n) \<Longrightarrow> in_or_at (tn_path m) q \<Longrightarrow> in_or_at q (tn_path n) \<Longrightarrow>
   \<exists>f\<in>set (node_list n). tn_path f = q \<and> m \<in> set (node_list f)"
proof (induction n arbitrary: parent rule: kids_induct)
  case (1 n)
  show ?case
  proof (cases "q = tn_path n")
    case True
    then show ?thesis using "1.prems"(2) by (auto simp: node_list_kids [of n])
  next
    case False
    then have q: "inside q (tn_path n)" using "1.prems"(4) by (simp add: in_or_at_def)
    have "m \<noteq> n" using in_or_at_inside [OF "1.prems"(3) q] inside_longer by fastforce
    then obtain c where c: "c \<in> set (kids n)" "m \<in> set (node_list c)" using "1.prems"(2) by (auto simp: node_list_kids [of n])
    note okc = node_okD(6) [OF "1.prems"(1) c(1)]
    have "in_or_at q (tn_path c)"
    proof (rule ccontr)
      assume "\<not> ?thesis"
      then have "inside (tn_path c) q" using in_or_at_both [OF "1.prems"(3) node_list_inside [OF okc c(2)]] by (auto simp: in_or_at_def)
      then have "in_or_at (tn_path n) q" using node_okD(2) [OF okc] by (simp add: inside_parent)
      then show False using in_or_at_inside [OF _ q] inside_longer by fastforce
    qed
    then obtain f where "f \<in> set (node_list c)" "tn_path f = q" "m \<in> set (node_list f)" using "1.IH" [OF c(1) okc c(2) "1.prems"(3)] by blast
    then show ?thesis using c(1) by (auto simp: node_list_kids [of n])
  qed
qed

lemma tree_nodes_root: "m \<in> set (tree_nodes tree) \<longleftrightarrow> (\<exists>n\<in>set tree. m \<in> set (node_list n))"
  by (auto simp: tree_nodes_def)

lemma tree_unique:
  assumes "tree_ok tree" "a \<in> set (tree_nodes tree)" "b \<in> set (tree_nodes tree)" "tn_path a = tn_path b"
  shows "a = b"
proof -
  obtain c d where cd: "c \<in> set tree" "a \<in> set (node_list c)" "d \<in> set tree" "b \<in> set (node_list d)"
    using assms(2,3) by (auto simp: tree_nodes_root)
  have ok: "node_ok [] c" "node_ok [] d" using assms(1) cd by (auto simp: tree_ok_def)
  have "tn_path c = tn_path d"
    using siblings_apart [OF ok, of "tn_path a"] node_list_inside [OF ok(1) cd(2)] node_list_inside [OF ok(2) cd(4)] assms(4) by simp
  then have "c = d" using assms(1) cd by (auto simp: tree_ok_def distinct_map inj_on_def)
  then show ?thesis using node_list_unique [OF ok(1) cd(2)] cd(4) assms(4) by blast
qed

lemma tree_above:
  assumes "tree_ok tree" "m \<in> set (tree_nodes tree)" "in_or_at (tn_path m) q"
  shows "\<exists>f\<in>set (tree_nodes tree). tn_path f = q \<and> m \<in> set (node_list f)"
proof -
  obtain n where n: "n \<in> set tree" "m \<in> set (node_list n)" using assms(2) by (auto simp: tree_nodes_root)
  have ok: "node_ok [] n" using assms(1) n(1) by (simp add: tree_ok_def)
  have "\<not> inside (tn_path n) q" using node_okD(2) [OF ok] by (simp add: inside_parent)
  then have "in_or_at q (tn_path n)" using in_or_at_both [OF assms(3) node_list_inside [OF ok n(2)]] by (auto simp: in_or_at_def)
  then show ?thesis using node_list_above [OF ok n(2) assms(3)] n(1) tree_nodes_root by blast
qed

lemma tree_node_ok: "tree_ok tree \<Longrightarrow> m \<in> set (tree_nodes tree) \<Longrightarrow> \<exists>q. node_ok q m"
  using node_list_ok by (fastforce simp: tree_nodes_root tree_ok_def)

lemma node_list_in_tree: "n \<in> set (tree_nodes tree) \<Longrightarrow> m \<in> set (node_list n) \<Longrightarrow> m \<in> set (tree_nodes tree)"
proof -
  have "m \<in> set (node_list r)" if "n \<in> set (node_list r)" "m \<in> set (node_list n)" for r
    using that
  proof (induction r rule: kids_induct)
    case (1 r)
    then show ?case by (auto simp: node_list_kids [of r])
  qed
  then show "n \<in> set (tree_nodes tree) \<Longrightarrow> m \<in> set (node_list n) \<Longrightarrow> m \<in> set (tree_nodes tree)"
    by (auto simp: tree_nodes_root)
qed

lemma tree_inside:
  assumes "tree_ok tree" "m \<in> set (tree_nodes tree)" "n \<in> set (tree_nodes tree)"
  shows "in_or_at (tn_path m) (tn_path n) \<longleftrightarrow> m \<in> set (node_list n)"
proof
  assume "in_or_at (tn_path m) (tn_path n)"
  then obtain f where "f \<in> set (tree_nodes tree)" "tn_path f = tn_path n" "m \<in> set (node_list f)" using tree_above [OF assms(1,2)] by blast
  then show "m \<in> set (node_list n)" using tree_unique [OF assms(1) _ assms(3)] by blast
next
  assume "m \<in> set (node_list n)"
  then show "in_or_at (tn_path m) (tn_path n)" using tree_node_ok [OF assms(1,3)] node_list_inside by blast
qed

lemma index_fold:
  "fold (\<lambda>n out. out(tn_path n \<mapsto> n)) ns start p =
     (case find (\<lambda>n. tn_path n = p) (rev ns) of Some n \<Rightarrow> Some n | None \<Rightarrow> start p)"
proof (induction ns arbitrary: start)
  case (Cons x ns)
  have "find P (xs @ [x]) = (case find P xs of Some n \<Rightarrow> Some n | None \<Rightarrow> if P x then Some x else None)" for P xs
    by (induction xs) simp_all
  then show ?case using Cons by (auto split: option.split)
qed simp

lemma indexTree_some:
  assumes "tree_ok tree"
  shows "indexTree tree p = Some n \<longleftrightarrow> n \<in> set (tree_nodes tree) \<and> tn_path n = p"
proof -
  have eq: "indexTree tree p = find (\<lambda>n. tn_path n = p) (rev (tree_nodes tree))"
    by (simp add: indexTree_def index_fold split: option.split)
  have some: "x \<in> set (tree_nodes tree) \<and> tn_path x = p" if "indexTree tree p = Some x" for x
    using that unfolding eq find_Some_iff by (metis nth_mem set_rev)
  have "indexTree tree p \<noteq> None" if "n \<in> set (tree_nodes tree)" "tn_path n = p"
    using that unfolding eq find_None_iff by auto
  then show ?thesis using some tree_unique [OF assms] by (metis not_None_eq)
qed

section \<open>What ticking changes\<close>

text \<open>A row with nothing listed below it that the code can store.\<close>

definition leaf_node :: "tree_node list \<Rightarrow> tree_node \<Rightarrow> bool" where
  "leaf_node tree m \<longleftrightarrow> m \<in> set (tree_nodes tree) \<and> kids m = [] \<and> \<not> isTracked m"

text \<open>No path is inside another, and no folder git tracks is stored.\<close>

definition ticks_ok :: "tree_node list \<Rightarrow> string set \<Rightarrow> bool" where
  "ticks_ok tree sel \<longleftrightarrow> antichain sel \<and> (\<forall>n\<in>set (tree_nodes tree). isTracked n \<longrightarrow> tn_path n \<notin> sel)"

text \<open>No listed path begins with the path of a listed file.\<close>

definition files_apart :: "tree_node list \<Rightarrow> bool" where
  "files_apart tree \<longleftrightarrow>
     (\<forall>a\<in>set (tree_nodes tree). \<forall>b\<in>set (tree_nodes tree). \<not> tn_dir a \<longrightarrow> starts_with (tn_path b) (tn_path a) \<longrightarrow> a = b)"

lemma add_ticks_ok:
  assumes "ticks_ok tree sel" "\<not> (\<exists>s\<in>sel. inside path s)" "\<forall>n\<in>set (tree_nodes tree). isTracked n \<longrightarrow> tn_path n \<noteq> path"
  shows "ticks_ok tree (add_tick path sel)"
  using assms antichain_add by (auto simp: ticks_ok_def add_tick_def dropInside_def)

lemma untracked_path:
  assumes "tree_ok tree" "n \<in> set (tree_nodes tree)" "\<not> isTracked n"
  shows "\<forall>f\<in>set (tree_nodes tree). isTracked f \<longrightarrow> tn_path f \<noteq> tn_path n"
  using tree_unique [OF assms(1) _ assms(2)] assms(3) by blast

text \<open>Merging changes nothing that is listed: a folder's rows were all ticked.\<close>

lemma mergeUp_ticks:
  assumes "tree_ok tree"
  shows "x \<in> set (tree_nodes tree) \<Longrightarrow> tn_path x = path \<Longrightarrow> path \<in> sel \<Longrightarrow> ticks_ok tree sel \<Longrightarrow>
    ticks_ok tree (mergeUp (indexTree tree) path sel) \<and>
    (\<forall>m. leaf_node tree m \<longrightarrow> covered (tn_path m) (mergeUp (indexTree tree) path sel) = covered (tn_path m) sel)"
proof (induction "indexTree tree" path sel arbitrary: x rule: mergeUp.induct)
  case (1 path sel)
  let ?same = "mergeUp (indexTree tree) path sel = sel"
  show ?case
  proof (cases "indexTree tree (parentOf path)")
    case None
    then have ?same by (subst mergeUp.simps) simp
    then show ?thesis using "1.prems" by simp
  next
    case (Some parent)
    show ?thesis
    proof (cases "\<not> tn_ignored parent \<or> tn_children parent = None \<or> 0 < tn_more parent \<or>
        \<not> (\<forall>c\<in>set (the (tn_children parent)). tn_path c \<in> sel) \<or> path = []")
      case True
      then have ?same using Some by (subst mergeUp.simps) auto
      then show ?thesis using "1.prems" by simp
    next
      case False
      have parent: "parent \<in> set (tree_nodes tree)" "tn_path parent = parentOf path"
        using Some indexTree_some [OF assms] by auto
      obtain q where ok: "node_ok q parent" using tree_node_ok [OF assms parent(1)] by blast
      have p: "parentOf path \<noteq> []" using node_okD(1) [OF ok] parent(2) by simp
      have up: "inside path (parentOf path)" using p by (simp add: inside_parent)
      have all: "tn_path c \<in> sel" if "c \<in> set (kids parent)" for c
        using False that by (auto simp: kids_def split: option.splits)
      have none: "\<not> (\<exists>s\<in>sel. inside (parentOf path) s)"
        using "1.prems"(3,4) inside_trans [OF up] by (auto simp: ticks_ok_def antichain_def)
      have "x \<in> set (node_list parent)"
        using up "1.prems"(1,2) parent tree_inside [OF assms "1.prems"(1) parent(1)] by (simp add: in_or_at_def)
      then have holds: "kids parent \<noteq> []" using up "1.prems"(2) parent(2) inside_longer [OF up] by (auto simp: node_list_kids [of parent])
      let ?next = "add_tick (parentOf path) sel"
      have ok': "ticks_ok tree ?next"
        using "1.prems"(4) none untracked_path [OF assms parent(1)] False node_okD(4) [OF ok] parent(2)
        by (intro add_ticks_ok) auto
      have same: "covered (tn_path m) ?next = covered (tn_path m) sel" if m: "leaf_node tree m" for m
      proof -
        have "covered (tn_path m) sel" if "in_or_at (tn_path m) (tn_path parent)"
        proof -
          have "m \<in> set (node_list parent)" using that tree_inside [OF assms _ parent(1)] m by (simp add: leaf_node_def)
          then obtain c where c: "c \<in> set (kids parent)" "m \<in> set (node_list c)"
            using m holds by (auto simp: leaf_node_def node_list_kids [of parent])
          have "in_or_at (tn_path m) (tn_path c)" by (rule node_list_inside [OF node_okD(6) [OF ok c(1)] c(2)])
          then show ?thesis using all [OF c(1)] covered_iff by blast
        qed
        then show ?thesis using parent(2) by (auto simp: covered_add)
      qed
      have eq: "mergeUp (indexTree tree) path sel = mergeUp (indexTree tree) (parentOf path) ?next"
        using Some False by (subst mergeUp.simps) auto
      have "ticks_ok tree (mergeUp (indexTree tree) (parentOf path) ?next) \<and>
          (\<forall>m. leaf_node tree m \<longrightarrow> covered (tn_path m) (mergeUp (indexTree tree) (parentOf path) ?next) = covered (tn_path m) ?next)"
        using False by (intro "1.hyps" [OF Some _ _ _ parent _ ok']) (auto simp: add_tick_def)
      then show ?thesis using eq same by simp
    qed
  qed
qed

text \<open>One level of \<open>split\<close>: when just one child is on the way to the target, all others are added.\<close>

lemma split_level_one:
  assumes "\<And>c. c \<in> set cs \<Longrightarrow> starts_with target (tn_path c) \<longleftrightarrow> c = d" "d \<in> set cs"
  shows "split_level target cs S = (Some d, S \<union> tn_path ` (set cs - {d}))"
proof -
  have "fold (\<lambda>child (next_at, sel). if starts_with target (tn_path child) then (Some child, sel) else (next_at, insert (tn_path child) sel))
      cs (start, S) = (if d \<in> set cs then Some d else start, S \<union> tn_path ` (set cs - {d}))" for start
    using assms(1)
  proof (induction cs arbitrary: start S)
    case (Cons c cs)
    have *: "starts_with target (tn_path c) \<longleftrightarrow> c = d" using Cons.prems [of c] by simp
    have ih: "fold (\<lambda>child (next_at, sel). if starts_with target (tn_path child) then (Some child, sel) else (next_at, insert (tn_path child) sel))
        cs (start', T) = (if d \<in> set cs then Some d else start', T \<union> tn_path ` (set cs - {d}))" for start' T
      by (rule Cons.IH) (simp add: Cons.prems)
    show ?case using * by (cases "c = d") (auto simp: ih)
  qed simp
  then show ?thesis using assms(2) by (simp add: split_level_def)
qed

lemma child_on_the_way:
  assumes "tree_ok tree" "files_apart tree" "t \<in> set (tree_nodes tree)" "c \<in> set (tree_nodes tree)"
  shows "starts_with (tn_path t) (tn_path c) \<longleftrightarrow> t \<in> set (node_list c)"
proof
  assume pre: "starts_with (tn_path t) (tn_path c)"
  obtain q where ok: "node_ok q c" using tree_node_ok [OF assms(1,4)] by blast
  show "t \<in> set (node_list c)"
  proof (cases "tn_dir c")
    case True
    then have "in_or_at (tn_path t) (tn_path c)" using pre node_okD(3) [OF ok] by (auto simp: in_or_at_def inside_def)
    then show ?thesis using tree_inside [OF assms(1,3,4)] by simp
  next
    case False
    then have "c = t" using assms(2-4) pre by (auto simp: files_apart_def)
    then show ?thesis by (simp add: node_list_kids [of t])
  qed
next
  assume "t \<in> set (node_list c)"
  then have "in_or_at (tn_path t) (tn_path c)" using tree_inside [OF assms(1,3,4)] by simp
  then show "starts_with (tn_path t) (tn_path c)" by (auto simp: in_or_at_def inside_def starts_with_prefix)
qed

lemma not_inside_self [simp]: "\<not> inside p p"
  by (simp add: inside_def)

text \<open>Splitting adds what covers the rows of the folder but the target's, and nothing else.\<close>

lemma split_from_adds:
  assumes tree: "tree_ok tree" "files_apart tree" "t \<in> set (tree_nodes tree)"
  shows "node_ok parent n \<Longrightarrow> set (node_list n) \<subseteq> set (tree_nodes tree) \<Longrightarrow> t \<in> set (node_list n) \<Longrightarrow>
    \<exists>X. split_from (tn_path t) n S = S \<union> X \<and> antichain X \<and> X \<subseteq> tn_path ` set (node_list n) \<and>
      (\<forall>x\<in>X. inside x (tn_path n)) \<and>
      (\<forall>m\<in>set (node_list n). kids m = [] \<longrightarrow> covered (tn_path m) X = (\<not> in_or_at (tn_path m) (tn_path t)))"
proof (induction n arbitrary: parent S rule: kids_induct)
  case (1 n)
  note ok = "1.prems"(1) and sub = "1.prems"(2)
  show ?case
  proof (cases "n = t")
    case True
    then have "split_from (tn_path t) n S = S" by (subst split_from.simps) simp
    then show ?thesis using True node_list_inside [OF ok]
      by (intro exI [of _ "{}"]) (auto simp: antichain_def covered_iff)
  next
    case False
    have n_in: "n \<in> set (tree_nodes tree)" using sub by (simp add: node_list_kids [of n])
    have ne: "tn_path n \<noteq> tn_path t" using tree_unique [OF tree(1) n_in tree(3)] False by blast
    obtain d where d: "d \<in> set (kids n)" "t \<in> set (node_list d)" using False "1.prems"(3) by (auto simp: node_list_kids [of n])
    have kid: "node_ok (tn_path n) c" "set (node_list c) \<subseteq> set (tree_nodes tree)" "c \<in> set (tree_nodes tree)" "inside (tn_path c) (tn_path n)"
      if "c \<in> set (kids n)" for c
      using node_okD(6,7) [OF ok that] sub node_list_kid [OF that] node_list_own [of c] by blast+
    have same: "c = c'" if "c \<in> set (kids n)" "c' \<in> set (kids n)" "in_or_at p (tn_path c)" "in_or_at p (tn_path c')" for c c' p
      by (rule same_child [OF ok that])
    have t_d: "in_or_at (tn_path t) (tn_path d)" by (rule node_list_inside [OF kid(1) [OF d(1)] d(2)])
    have way: "starts_with (tn_path t) (tn_path c) \<longleftrightarrow> c = d" if c: "c \<in> set (kids n)" for c
      using child_on_the_way [OF tree kid(3) [OF c]] tree_inside [OF tree(1,3) kid(3) [OF c]] same [OF c d(1)] t_d d(2) by metis
    define Y where "Y = tn_path ` (set (kids n) - {d})"
    have "split_from (tn_path t) n S = split_from (tn_path t) d (S \<union> Y)"
      using ne split_level_one [OF way d(1), of S] by (subst split_from.simps) (simp add: kids_def [symmetric] Y_def)
    moreover obtain X where X: "split_from (tn_path t) d (S \<union> Y) = S \<union> Y \<union> X" "antichain X" "X \<subseteq> tn_path ` set (node_list d)"
        "\<forall>x\<in>X. inside x (tn_path d)"
        "\<forall>m\<in>set (node_list d). kids m = [] \<longrightarrow> covered (tn_path m) X = (\<not> in_or_at (tn_path m) (tn_path t))"
      using "1.IH" [OF d(1) kid(1,2) [OF d(1)] d(2), of "S \<union> Y"] by blast
    moreover have "antichain (Y \<union> X)"
      unfolding antichain_def
    proof (intro ballI notI)
      fix a b assume ab: "a \<in> Y \<union> X" "b \<in> Y \<union> X" "inside a b"
      have home: "\<exists>c\<in>set (kids n). in_or_at p (tn_path c) \<and> (p \<in> Y \<longrightarrow> p = tn_path c) \<and> (p \<in> X \<longrightarrow> c = d)" if "p \<in> Y \<union> X" for p
      proof (cases "p \<in> X")
        case True
        have "p \<notin> Y"
        proof
          assume "p \<in> Y"
          then obtain c where c: "c \<in> set (kids n)" "c \<noteq> d" "p = tn_path c" by (auto simp: Y_def)
          then show False using same [OF c(1) d(1), of p] X(4) True by (auto simp: in_or_at_def)
        qed
        then show ?thesis using X(4) True d(1) by (auto simp: in_or_at_def)
      next
        case False
        then show ?thesis using that by (auto simp: Y_def in_or_at_def)
      qed
      obtain c where c: "c \<in> set (kids n)" "in_or_at a (tn_path c)" "a \<in> Y \<longrightarrow> a = tn_path c" "a \<in> X \<longrightarrow> c = d"
        using home [OF ab(1)] by blast
      obtain e where e: "e \<in> set (kids n)" "in_or_at b (tn_path e)" "b \<in> Y \<longrightarrow> b = tn_path e" "b \<in> X \<longrightarrow> e = d"
        using home [OF ab(2)] by blast
      have ce: "c = e" by (rule same [OF c(1) e(1) c(2)]) (use ab(3) e(2) in_or_at_trans in \<open>auto simp: in_or_at_def\<close>)
      have "a \<notin> Y"
        using c(3) e(2) ce ab(3) in_or_at_inside [of b "tn_path c" a] inside_longer [of a b] inside_longer [of b a] by (auto simp: in_or_at_def)
      then have "a \<in> X" "c = d" using ab(1) c(4) by auto
      moreover have "b \<notin> Y" using ce \<open>c = d\<close> e(3) same [OF _ d(1), of _ "tn_path d"] by (auto simp: Y_def)
      ultimately show False using ab(2,3) X(2) by (auto simp: antichain_def)
    qed
    moreover have "Y \<union> X \<subseteq> tn_path ` set (node_list n)"
      using X(3) node_list_kid [OF d(1)] node_list_kid by (fastforce simp: Y_def)
    moreover have "\<forall>x\<in>Y \<union> X. inside x (tn_path n)"
      using X(4) kid(4) [OF d(1)] kid(4) inside_trans by (auto simp: Y_def)
    moreover have "covered (tn_path m) (Y \<union> X) = (\<not> in_or_at (tn_path m) (tn_path t))" if m: "m \<in> set (node_list n)" "kids m = []" for m
    proof -
      obtain c where c: "c \<in> set (kids n)" "m \<in> set (node_list c)" using m d(1) by (auto simp: node_list_kids [of n])
      have m_c: "in_or_at (tn_path m) (tn_path c)" by (rule node_list_inside [OF kid(1) [OF c(1)] c(2)])
      have Y: "covered (tn_path m) Y \<longleftrightarrow> c \<noteq> d"
      proof
        assume "covered (tn_path m) Y"
        then obtain c' where c': "c' \<in> set (kids n)" "c' \<noteq> d" "in_or_at (tn_path m) (tn_path c')" by (auto simp: covered_iff Y_def)
        then show "c \<noteq> d" using same [OF c(1) c'(1) m_c c'(3)] by simp
      next
        assume "c \<noteq> d"
        then have "tn_path c \<in> Y" using c(1) by (simp add: Y_def)
        then show "covered (tn_path m) Y" using m_c covered_iff by blast
      qed
      have "covered (tn_path m) (Y \<union> X) \<longleftrightarrow> covered (tn_path m) Y \<or> covered (tn_path m) X"
        by (auto simp: covered_iff)
      also have "\<dots> = (\<not> in_or_at (tn_path m) (tn_path t))"
      proof (cases "c = d")
        case True
        then show ?thesis using Y X(5) c(2) m(2) by simp
      next
        case False
        then have "\<not> in_or_at (tn_path m) (tn_path t)" using same [OF c(1) d(1) m_c] in_or_at_trans [OF _ t_d] by blast
        then show ?thesis using Y False by simp
      qed
      finally show ?thesis .
    qed
    ultimately show ?thesis by (intro exI [of _ "Y \<union> X"]) (simp add: Un_assoc)
  qed
qed

text \<open>The rows of a folder git tracks that can be ticked: the nodes it holds, down to the ignored ones.\<close>

lemma units_below:
  "node_ok parent n \<Longrightarrow> u \<in> set (units_of n) \<Longrightarrow>
   u \<in> set (node_list n) \<and> \<not> isTracked u \<and> (\<forall>f\<in>set (node_list n). u \<in> set (node_list f) \<longrightarrow> f \<noteq> u \<longrightarrow> isTracked f)"
proof (induction n arbitrary: parent rule: kids_induct)
  case (1 n)
  show ?case
  proof (cases "isTracked n")
    case False
    then have "u = n" using "1.prems" by (simp add: units_of_kids [of n])
    moreover have "f = n" if f: "f \<in> set (node_list n)" "n \<in> set (node_list f)" for f
    proof -
      obtain q where "node_ok q f" using node_list_ok [OF "1.prems"(1) f(1)] by blast
      then have "in_or_at (tn_path f) (tn_path n)" "in_or_at (tn_path n) (tn_path f)"
        using node_list_inside [OF "1.prems"(1) f(1)] node_list_inside f(2) by auto
      then have "tn_path f = tn_path n" using inside_longer [of "tn_path f" "tn_path n"] inside_longer [of "tn_path n" "tn_path f"]
        by (auto simp: in_or_at_def)
      then show ?thesis using node_list_unique [OF "1.prems"(1) f(1)] by simp
    qed
    ultimately show ?thesis using False by auto
  next
    case True
    then obtain c where c: "c \<in> set (kids n)" "u \<in> set (units_of c)" using "1.prems"(2) by (auto simp: units_of_kids [of n])
    note okc = node_okD(6) [OF "1.prems"(1) c(1)]
    note ih = "1.IH" [OF c(1) okc c(2)]
    have "isTracked f" if f: "f \<in> set (node_list n)" "u \<in> set (node_list f)" "f \<noteq> u" for f
    proof (cases "f = n")
      case False
      then obtain e where e: "e \<in> set (kids n)" "f \<in> set (node_list e)" using f(1) by (auto simp: node_list_kids [of n])
      note oke = node_okD(6) [OF "1.prems"(1) e(1)]
      obtain q where "node_ok q f" using node_list_ok [OF oke e(2)] by blast
      then have "in_or_at (tn_path u) (tn_path e)"
        using node_list_inside [OF oke e(2)] node_list_inside f(2) in_or_at_trans by blast
      then have "c = e" using same_child [OF "1.prems"(1) c(1) e(1)] node_list_inside [OF okc] ih by blast
      then show ?thesis using ih e(2) f(2,3) by blast
    qed (use True in simp)
    then show ?thesis using ih node_list_kid [OF c(1)] by blast
  qed
qed

lemma ignored_below: "node_ok parent n \<Longrightarrow> \<not> isTracked n \<Longrightarrow> m \<in> set (node_list n) \<Longrightarrow> \<not> isTracked m"
proof (induction n arbitrary: parent rule: kids_induct)
  case (1 n)
  have "\<not> isTracked c" if "c \<in> set (kids n)" for c
    using "1.prems"(1,2) that by (cases n) (auto simp: kids_def isTracked_def split: option.splits)
  then show ?case using "1.IH" [OF _ node_okD(6) [OF "1.prems"(1)]] "1.prems"(2,3) by (auto simp: node_list_kids [of n])
qed

lemma units_hold_leaves:
  "node_ok parent n \<Longrightarrow> m \<in> set (node_list n) \<Longrightarrow> \<not> isTracked m \<Longrightarrow> \<exists>u\<in>set (units_of n). m \<in> set (node_list u)"
proof (induction n arbitrary: parent rule: kids_induct)
  case (1 n)
  show ?case
  proof (cases "isTracked n")
    case True
    then obtain c where c: "c \<in> set (kids n)" "m \<in> set (node_list c)" using "1.prems"(2,3) by (auto simp: node_list_kids [of n])
    then show ?thesis using "1.IH" [OF c(1) node_okD(6) [OF "1.prems"(1) c(1)] c(2) "1.prems"(3)] True
      by (auto simp: units_of_kids [of n])
  qed (use "1.prems" in \<open>simp add: units_of_kids [of n]\<close>)
qed

lemma units_of_tracked: "isTracked n \<Longrightarrow> units_of n = unitsUnder n"
  by (simp add: units_of_kids [of n] unitsUnder_kids)

lemma units_in_tree:
  assumes "tree_ok tree" "n \<in> set (tree_nodes tree)" "isTracked n"
  shows "u \<in> set (unitsUnder n) \<Longrightarrow> u \<in> set (tree_nodes tree) \<and> \<not> isTracked u \<and> in_or_at (tn_path u) (tn_path n)"
    "m \<in> set (tree_nodes tree) \<Longrightarrow> \<not> isTracked m \<Longrightarrow> in_or_at (tn_path m) (tn_path n) \<Longrightarrow>
      \<exists>u\<in>set (unitsUnder n). in_or_at (tn_path m) (tn_path u)"
proof -
  obtain q where ok: "node_ok q n" using tree_node_ok [OF assms(1,2)] by blast
  show u: "u \<in> set (tree_nodes tree) \<and> \<not> isTracked u \<and> in_or_at (tn_path u) (tn_path n)" if "u \<in> set (unitsUnder n)" for u
    using units_below [OF ok, of u] that node_list_in_tree [OF assms(2)] node_list_inside [OF ok] units_of_tracked [OF assms(3)] by auto
  assume m: "m \<in> set (tree_nodes tree)" "\<not> isTracked m" "in_or_at (tn_path m) (tn_path n)"
  then have "m \<in> set (node_list n)" using tree_inside [OF assms(1) m(1) assms(2)] by simp
  then obtain v where v: "v \<in> set (unitsUnder n)" "m \<in> set (node_list v)"
    using units_hold_leaves [OF ok _ m(2)] units_of_tracked [OF assms(3)] by auto
  then show "\<exists>u\<in>set (unitsUnder n). in_or_at (tn_path m) (tn_path u)"
    using tree_inside [OF assms(1) m(1)] u [OF v(1)] by blast
qed

text \<open>Above an ignored row of a tracked folder there are tracked folders only: none of them is ticked.\<close>

lemma unit_not_under:
  assumes "tree_ok tree" "n \<in> set (tree_nodes tree)" "isTracked n" "u \<in> set (unitsUnder n)" "ticks_ok tree sel"
  shows "\<not> (\<exists>s\<in>sel. inside (tn_path u) s)"
proof (rule notI, elim bexE)
  fix s assume s: "s \<in> sel" "inside (tn_path u) s"
  note u = units_in_tree(1) [OF assms(1-4)]
  obtain q where okn: "node_ok q n" using tree_node_ok [OF assms(1,2)] by blast
  obtain f where f: "f \<in> set (tree_nodes tree)" "tn_path f = s" "u \<in> set (node_list f)"
    using tree_above [OF assms(1), of u s] u s(2) by (auto simp: in_or_at_def)
  obtain r where okf: "node_ok r f" using tree_node_ok [OF assms(1) f(1)] by blast
  have "f \<noteq> u" using f(2) s(2) by auto
  consider "f \<in> set (node_list n)" | "n \<in> set (node_list f)"
    using in_or_at_both [of "tn_path u" "tn_path n" s] u s(2) f(2) tree_inside [OF assms(1)] f(1) assms(2) by (auto simp: in_or_at_def)
  then have "isTracked f"
  proof cases
    case 1
    then show ?thesis using units_below [OF okn, of u] units_of_tracked [OF assms(3)] assms(4) f(3) \<open>f \<noteq> u\<close> by simp
  next
    case 2
    then show ?thesis using ignored_below [OF okf] assms(3) by blast
  qed
  then show False using assms(5) f(1,2) s(1) by (auto simp: ticks_ok_def)
qed

lemma covered_in_tree:
  assumes "antichain sel" "p \<in> sel" "in_or_at m p" "s \<in> sel" "in_or_at m s"
  shows "s = p"
  using in_or_at_both [OF assms(3,5)] assms(1,2,4) by (auto simp: antichain_def in_or_at_def)

lemma untick_alone:
  assumes "ticks_ok tree sel" "p \<in> sel"
  shows "ticks_ok tree (sel - {p})" "covered m (sel - {p}) \<longleftrightarrow> covered m sel \<and> \<not> in_or_at m p"
proof -
  show "ticks_ok tree (sel - {p})" using assms antichain_subset [of sel "sel - {p}"] by (auto simp: ticks_ok_def)
  have "antichain sel" using assms(1) by (simp add: ticks_ok_def)
  then show "covered m (sel - {p}) \<longleftrightarrow> covered m sel \<and> \<not> in_or_at m p"
    using covered_in_tree [OF _ assms(2)] by (auto simp: covered_iff)
qed

lemma antichain_Un:
  assumes "antichain A" "antichain X" "\<forall>x\<in>X. inside x p" "\<forall>a\<in>A. \<not> inside a p \<and> \<not> inside p a \<and> a \<noteq> p"
  shows "antichain (A \<union> X)"
proof -
  have "\<not> inside x a \<and> \<not> inside a x" if "x \<in> X" "a \<in> A" for x a
  proof
    show "\<not> inside x a" using in_or_at_both [of x p a] assms(3,4) that by (auto simp: in_or_at_def)
    show "\<not> inside a x" using inside_trans [of a x p] assms(3,4) that by auto
  qed
  then show ?thesis using assms(1,2) by (auto simp: antichain_def)
qed

lemma untick_under:
  assumes tree: "tree_ok tree" "files_apart tree" "n \<in> set (tree_nodes tree)"
    and sel: "ticks_ok tree sel" "f \<in> sel" "inside (tn_path n) f"
  defines "sel' \<equiv> split_tick (indexTree tree) f (tn_path n) sel"
  shows "ticks_ok tree sel'" "leaf_node tree m \<Longrightarrow> covered (tn_path m) sel' \<longleftrightarrow> covered (tn_path m) sel \<and> \<not> in_or_at (tn_path m) (tn_path n)"
proof -
  obtain d where d: "d \<in> set (tree_nodes tree)" "tn_path d = f" "n \<in> set (node_list d)"
    using tree_above [OF tree(1,3), of f] sel(3) by (auto simp: in_or_at_def)
  obtain q where ok: "node_ok q d" using tree_node_ok [OF tree(1) d(1)] by blast
  have sub: "set (node_list d) \<subseteq> set (tree_nodes tree)" using node_list_in_tree [OF d(1)] by blast
  have untracked: "\<not> isTracked x" if "x \<in> set (node_list d)" for x
    using ignored_below [OF ok _ that] sel(1,2) d(1,2) by (auto simp: ticks_ok_def)
  obtain X where X: "split_from (tn_path n) d (sel - {f}) = sel - {f} \<union> X" "antichain X" "X \<subseteq> tn_path ` set (node_list d)"
      "\<forall>x\<in>X. inside x f"
      "\<forall>m\<in>set (node_list d). kids m = [] \<longrightarrow> covered (tn_path m) X = (\<not> in_or_at (tn_path m) (tn_path n))"
    using split_from_adds [OF tree ok sub d(3), of "sel - {f}"] d(2) by blast
  have eq: "sel' = sel - {f} \<union> X"
    using X(1) d indexTree_some [OF tree(1), of f d] by (simp add: sel'_def split_tick_def)
  have "antichain sel" using sel(1) by (simp add: ticks_ok_def)
  then have "antichain (sel - {f} \<union> X)"
    using X(2,4) sel(2) antichain_subset by (intro antichain_Un [where p = f]) (auto simp: antichain_def)
  moreover have "tn_path x \<notin> X" if x: "x \<in> set (tree_nodes tree)" "isTracked x" for x
  proof
    assume "tn_path x \<in> X"
    then obtain y where "y \<in> set (node_list d)" "tn_path y = tn_path x" using X(3) by auto
    then show False using untracked [of y] sub tree_unique [OF tree(1) _ x(1)] x(2) by blast
  qed
  ultimately show "ticks_ok tree sel'" using sel(1) by (auto simp: eq ticks_ok_def)
  assume m: "leaf_node tree m"
  have split: "covered (tn_path m) sel' \<longleftrightarrow> covered (tn_path m) (sel - {f}) \<or> covered (tn_path m) X"
    by (auto simp: eq covered_iff)
  show "covered (tn_path m) sel' \<longleftrightarrow> covered (tn_path m) sel \<and> \<not> in_or_at (tn_path m) (tn_path n)"
  proof (cases "in_or_at (tn_path m) f")
    case True
    then have "m \<in> set (node_list d)" using tree_inside [OF tree(1) _ d(1)] m d(2) by (simp add: leaf_node_def)
    then show ?thesis using X(5) m True sel(2) split untick_alone(2) [OF sel(1,2), of "tn_path m"]
      by (auto simp: leaf_node_def covered_iff)
  next
    case False
    then have "\<not> covered (tn_path m) X" "\<not> in_or_at (tn_path m) (tn_path n)"
      using X(4) sel(3) in_or_at_inside by (auto simp: covered_iff in_or_at_def)
    then show ?thesis using split untick_alone(2) [OF sel(1,2), of "tn_path m"] False by simp
  qed
qed

lemma tick_one:
  assumes "tree_ok tree" "n \<in> set (tree_nodes tree)" "\<not> isTracked n" "ticks_ok tree sel" "\<not> covered (tn_path n) sel"
  defines "sel' \<equiv> mergeUp (indexTree tree) (tn_path n) (add_tick (tn_path n) sel)"
  shows "ticks_ok tree sel'" "leaf_node tree m \<Longrightarrow> covered (tn_path m) sel' \<longleftrightarrow> covered (tn_path m) sel \<or> in_or_at (tn_path m) (tn_path n)"
proof -
  have ok: "ticks_ok tree (add_tick (tn_path n) sel)"
    using assms(5) by (intro add_ticks_ok [OF assms(4) _ untracked_path [OF assms(1-3)]]) (auto simp: covered_iff in_or_at_def)
  note merge = mergeUp_ticks [OF assms(1,2) refl _ ok]
  show "ticks_ok tree sel'" using merge by (simp add: sel'_def add_tick_def)
  show "covered (tn_path m) sel' \<longleftrightarrow> covered (tn_path m) sel \<or> in_or_at (tn_path m) (tn_path n)" if "leaf_node tree m"
    using merge that covered_add [of "tn_path m" "tn_path n" sel] by (simp add: sel'_def add_tick_def)
qed

lemma fold_drop:
  "fold (\<lambda>u sel. dropInside (tn_path u) sel - {tn_path u}) us sel = {s \<in> sel. \<forall>u\<in>set us. \<not> in_or_at s (tn_path u)}"
  by (induction us arbitrary: sel) (auto simp: dropInside_def in_or_at_def)

lemma fold_add_covers:
  "covered m (fold (\<lambda>u. add_tick (tn_path u)) us sel) \<longleftrightarrow> covered m sel \<or> (\<exists>u\<in>set us. in_or_at m (tn_path u))"
  by (induction us arbitrary: sel) (auto simp: covered_add)

lemma fold_add_ok:
  assumes "tree_ok tree" "n \<in> set (tree_nodes tree)" "isTracked n"
  shows "set us \<subseteq> set (unitsUnder n) \<Longrightarrow> ticks_ok tree sel \<Longrightarrow> ticks_ok tree (fold (\<lambda>u. add_tick (tn_path u)) us sel)"
proof (induction us arbitrary: sel)
  case (Cons u us)
  then have u: "u \<in> set (unitsUnder n)" by simp
  have "ticks_ok tree (add_tick (tn_path u) sel)"
    using units_in_tree(1) [OF assms u] untracked_path [OF assms(1)]
    by (intro add_ticks_ok [OF Cons.prems(2) unit_not_under [OF assms u Cons.prems(2)]]) blast
  then show ?case using Cons by simp
qed simp

lemma tickOf_untracked: "\<not> isTracked n \<Longrightarrow> tickOf n sel = TickAll \<longleftrightarrow> covered (tn_path n) sel"
  by (simp add: tickOf_def unit_tick_def)

lemma toggle_tracked:
  assumes "tree_ok tree" "n \<in> set (tree_nodes tree)" "isTracked n" "ticks_ok tree sel"
  shows "ticks_ok tree (toggle n tree sel)"
    "leaf_node tree m \<Longrightarrow> covered (tn_path m) (toggle n tree sel) \<longleftrightarrow>
      (if tickOf n sel = TickAll then covered (tn_path m) sel \<and> \<not> in_or_at (tn_path m) (tn_path n)
       else covered (tn_path m) sel \<or> in_or_at (tn_path m) (tn_path n))"
proof -
  have eq: "toggle n tree sel = (if tickOf n sel = TickAll then {s \<in> sel. \<forall>u\<in>set (unitsUnder n). \<not> in_or_at s (tn_path u)}
      else fold (\<lambda>u. add_tick (tn_path u)) (unitsUnder n) sel)"
    using assms(3) by (simp add: toggle_def fold_drop)
  show "ticks_ok tree (toggle n tree sel)"
    using fold_add_ok [OF assms(1-3) order_refl assms(4)] assms(4)
    by (auto simp: eq ticks_ok_def antichain_def)
  assume m: "leaf_node tree m"
  have units: "in_or_at (tn_path m) (tn_path n) \<longleftrightarrow> (\<exists>u\<in>set (unitsUnder n). in_or_at (tn_path m) (tn_path u))"
    using units_in_tree [OF assms(1-3)] m in_or_at_trans by (auto simp: leaf_node_def)
  have "covered (tn_path m) {s \<in> sel. \<forall>u\<in>set (unitsUnder n). \<not> in_or_at s (tn_path u)} \<longleftrightarrow>
      covered (tn_path m) sel \<and> \<not> in_or_at (tn_path m) (tn_path n)" (is "?kept \<longleftrightarrow> _")
  proof (cases "in_or_at (tn_path m) (tn_path n)")
    case True
    then obtain u where u: "u \<in> set (unitsUnder n)" "in_or_at (tn_path m) (tn_path u)" using units by blast
    have "in_or_at s (tn_path u)" if "s \<in> sel" "in_or_at (tn_path m) s" for s
      using in_or_at_both [OF u(2) that(2)] unit_not_under [OF assms(1-3) u(1) assms(4)] that(1) by (auto simp: in_or_at_def)
    then have "\<not> ?kept" using u(1) by (auto simp: covered_iff)
    then show ?thesis using True by simp
  next
    case False
    then have "\<forall>u\<in>set (unitsUnder n). \<not> in_or_at s (tn_path u)" if "in_or_at (tn_path m) s" for s
      using that units in_or_at_trans by blast
    then show ?thesis using False by (auto simp: covered_iff)
  qed
  then show "covered (tn_path m) (toggle n tree sel) \<longleftrightarrow>
      (if tickOf n sel = TickAll then covered (tn_path m) sel \<and> \<not> in_or_at (tn_path m) (tn_path n)
       else covered (tn_path m) sel \<or> in_or_at (tn_path m) (tn_path n))"
    by (simp add: eq fold_add_covers units)
qed

text \<open>Property C13: clicking a row of the Sync Ignored Files tree does what its tick says and nothing else. When the
  row is fully ticked, every row listed in it with nothing below stops being ticked, and when it is not, every
  one becomes ticked; every other such row stays as it was, whatever folders are replaced by their
  children or children by their folder. The ticks stay in order: none inside another and no folder git
  tracks. The paths name a tree, and no listed path begins with that of a listed file.\<close>

theorem toggle_ticks:
  assumes "tree_ok tree" "files_apart tree" "n \<in> set (tree_nodes tree)" "ticks_ok tree sel"
  shows "ticks_ok tree (toggle n tree sel) \<and>
    (\<forall>m. leaf_node tree m \<longrightarrow> covered (tn_path m) (toggle n tree sel) =
      (if tickOf n sel = TickAll then covered (tn_path m) sel \<and> \<not> in_or_at (tn_path m) (tn_path n)
       else covered (tn_path m) sel \<or> in_or_at (tn_path m) (tn_path n)))"
proof (cases "isTracked n")
  case True
  then show ?thesis using toggle_tracked [OF assms(1,3) _ assms(4)] by blast
next
  case False
  note tick = tickOf_untracked [OF False]
  consider "\<not> covered (tn_path n) sel" | "tn_path n \<in> sel" | "tn_path n \<notin> sel" "covered (tn_path n) sel" by blast
  then show ?thesis
  proof cases
    case 1
    then have "toggle n tree sel = mergeUp (indexTree tree) (tn_path n) (add_tick (tn_path n) sel)"
      using False tick by (simp add: toggle_def Let_def)
    then show ?thesis using tick_one [OF assms(1,3) False assms(4) 1] 1 tick by simp
  next
    case 2
    then have c: "covered (tn_path n) sel" by (simp add: covered_def)
    then have "toggle n tree sel = sel - {tn_path n}" using False tick 2 by (simp add: toggle_def Let_def)
    then show ?thesis using untick_alone [OF assms(4) 2] c tick by simp
  next
    case 3
    define f where "f = ticked_above (tn_path n) sel"
    have f: "f \<in> sel" "inside (tn_path n) f" "f \<noteq> []"
      using 3 ticked_above_found [of sel "tn_path n"] by (auto simp: covered_iff in_or_at_def f_def)
    then have "toggle n tree sel = split_tick (indexTree tree) f (tn_path n) sel"
      using False tick 3 by (simp add: toggle_def Let_def f_def [symmetric])
    then show ?thesis using untick_under [OF assms(1-3) assms(4) f(1,2)] 3 tick by simp
  qed
qed

definition sample_file :: "string \<Rightarrow> tree_node" where
  "sample_file path = TNode path path False True None [] None 0"

definition sample_tree :: "string \<Rightarrow> string \<Rightarrow> tree_node list" where
  "sample_tree a b = [TNode ''c/'' ''c'' True True None [] (Some [sample_file a, sample_file b]) 0]"

lemma sample_tree_ok:
  "tree_ok (sample_tree ''c/.env'' ''c/a.key'')" "files_apart (sample_tree ''c/.env'' ''c/a.key'')"
  "sample_file ''c/.env'' \<in> set (tree_nodes (sample_tree ''c/.env'' ''c/a.key''))"
  "ticks_ok (sample_tree ''c/.env'' ''c/a.key'') {''c/''}"
  "leaf_node (sample_tree ''c/.env'' ''c/a.key'') (sample_file ''c/a.key'')"
  "leaf_node (sample_tree ''c/.env'' ''c/a.key'') (sample_file ''c/.env'')"
  by code_simp+

theorem toggle_ticks_witness:
  "tickOf (sample_file ''c/.env'') {''c/''} = TickAll \<and>
   \<not> covered ''c/.env'' (toggle (sample_file ''c/.env'') (sample_tree ''c/.env'' ''c/a.key'') {''c/''}) \<and>
   covered ''c/a.key'' (toggle (sample_file ''c/.env'') (sample_tree ''c/.env'' ''c/a.key'') {''c/''})"
proof -
  have t: "tickOf (sample_file ''c/.env'') {''c/''} = TickAll" by code_simp
  have c: "covered ''c/a.key'' {''c/''}" "\<not> in_or_at ''c/a.key'' ''c/.env''" "in_or_at ''c/.env'' ''c/.env''" by code_simp+
  show ?thesis
    using toggle_ticks [OF sample_tree_ok(1-4)] t c sample_tree_ok(5,6) by (fastforce simp: sample_file_def)
qed

text \<open>The condition on names is needed. With a ticked folder that holds \<open>.env\<close> and \<open>.env.local\<close>,
  unticking \<open>.env.local\<close> unticks \<open>.env\<close> too, in either order: the folder is replaced by its children down the
  way to the target, and a file whose name begins the target's counts as on the way.\<close>

theorem untick_takes_shorter_name:
  "toggle (sample_file ''c/.env.local'') (sample_tree ''c/.env'' ''c/.env.local'') {''c/''} = {} \<and>
   toggle (sample_file ''c/.env.local'') (sample_tree ''c/.env.local'' ''c/.env'') {''c/''} = {}"
  by code_simp

end
