(* ===== verification/ScheduleBoard.thy ===== *)
theory ScheduleBoard
  imports Occurrences
begin

text \<open>
  The week of job runs as a grid (\<open>scheduleBoard.ts\<close>): seven day columns against bands of three hours,
  the quiet bands folded together; with the agenda ahead, the runs that happened last and the runs
  going on. A date is its time in whole seconds on the clock of \<open>LocalClock\<close>. The order of names in
  natural language (\<open>localeCompare\<close>) is the parameter \<open>collate\<close>; the key of a job is the parameter
  \<open>keyOf\<close>. Expanding a job may not return on a clock that stands still, so building a board is an
  option.
\<close>

section \<open>Days\<close>

record board_job = job_info +
  bj_id :: string
  bj_label :: "string option"
  bj_valid :: bool
  bj_unread :: "int option"

definition BAND_HOURS :: nat where "BAND_HOURS = 3"
definition BANDS :: nat where "BANDS = 24 div BAND_HOURS"
definition MAX_BLOCKS_PER_CELL :: nat where "MAX_BLOCKS_PER_CELL = 3"

record board_day =
  bd_date :: int
  bd_start :: int
  bd_end :: int
  bd_weekday :: string
  bd_isToday :: bool
  bd_isPast :: bool

text \<open>\<open>setDate\<close> keeps the time of the day.\<close>

definition set_date :: "clock \<Rightarrow> int \<Rightarrow> int \<Rightarrow> int" where
  "set_date c t date =
     to_epoch c (make_day (getFullYear c t) (getMonth c t) date * 86400 + to_local c t mod 86400)"

definition getHours :: "clock \<Rightarrow> int \<Rightarrow> int" where
  "getHours c t = to_local c t mod 86400 div 3600"

definition startOfWeek :: "clock \<Rightarrow> int \<Rightarrow> int" where
  "startOfWeek c t = (let d = startOfDay c t in set_date c d (getDate c d - (getDay c d + 6) mod 7))"

definition board_addDays :: "clock \<Rightarrow> int \<Rightarrow> int \<Rightarrow> int" where
  "board_addDays c t days = set_date c t (getDate c t + days)"

definition sameDay :: "clock \<Rightarrow> int \<Rightarrow> int \<Rightarrow> bool" where
  "sameDay c a b = (getFullYear c a = getFullYear c b \<and> getMonth c a = getMonth c b \<and> getDate c a = getDate c b)"

definition weekDays :: "clock \<Rightarrow> int \<Rightarrow> int \<Rightarrow> board_day list" where
  "weekDays c weekStart now =
     map (\<lambda>i. let date = board_addDays c weekStart (int i); close = board_addDays c date 1
       in \<lparr>bd_date = date, bd_start = date, bd_end = close, bd_weekday = weekdayOf c date,
           bd_isToday = sameDay c date now, bd_isPast = (close \<le> now)\<rparr>) [0..<7]"

definition bandOf :: "clock \<Rightarrow> int \<Rightarrow> nat" where
  "bandOf c t = min (BANDS - 1) (nat (getHours c t div int BAND_HOURS))"

definition dayIndexOf :: "board_day list \<Rightarrow> int \<Rightarrow> int" where
  "dayIndexOf days t = findIndex (\<lambda>d. bd_start d \<le> t \<and> t < bd_end d) days"

section \<open>Placing the runs\<close>

definition isPlaceable :: "board_job \<Rightarrow> bool" where
  "isPlaceable job =
     (bj_valid job \<and> (case jb_schedule job of Some (Calendar _) \<Rightarrow> True | Some (Interval _) \<Rightarrow> True | _ \<Rightarrow> False))"

type_synonym board_run = "board_job \<times> job_occurrence"

text \<open>What is unscheduled, what is too dense, and the runs to place.\<close>

fun sort_jobs ::
  "clock \<Rightarrow> int \<Rightarrow> int \<Rightarrow> int \<Rightarrow> (board_job \<Rightarrow> string) \<Rightarrow> board_job list \<Rightarrow> board_job list \<times> board_job list \<times> board_run list \<Rightarrow>
   (board_job list \<times> board_job list \<times> board_run list) option" where
  "sort_jobs c from_t to_t now keyOf [] out = Some out"
| "sort_jobs c from_t to_t now keyOf (job # jobs) (unscheduled, dense, placed) =
     (if \<not> isPlaceable job then sort_jobs c from_t to_t now keyOf jobs (unscheduled @ [job], dense, placed)
      else case jobOccurrences c (job_info.truncate job) from_t to_t now (keyOf job) of
        None \<Rightarrow> None
      | Some (occurrences, truncated) \<Rightarrow>
          let dense = (if truncated then dense @ [job] else dense) in
          if occurrences = [] \<and> \<not> truncated
          then sort_jobs c from_t to_t now keyOf jobs
            (if jb_nextFireAt job = None \<and> jb_lastRunAt job = None then unscheduled @ [job] else unscheduled, dense, placed)
          else sort_jobs c from_t to_t now keyOf jobs (unscheduled, dense, placed @ map (Pair job) occurrences))"

type_synonym board_grid = "nat \<Rightarrow> nat \<Rightarrow> board_run list"

definition place_run :: "clock \<Rightarrow> board_day list \<Rightarrow> board_run \<Rightarrow> board_grid \<Rightarrow> board_grid" where
  "place_run c days run grid =
     (let t = oc_at (snd run); i = dayIndexOf days t; b = bandOf c t in
      if i < 0 then grid else grid(b := (grid b)(nat i := grid b (nat i) @ [run])))"

section \<open>Rows\<close>

definition jobName :: "board_job \<Rightarrow> string" where
  "jobName job = (case keep_truthy (bj_label job) of Some l \<Rightarrow> l | None \<Rightarrow> bj_id job)"

definition byTimeThenName :: "(string \<Rightarrow> string \<Rightarrow> int) \<Rightarrow> board_run \<Rightarrow> board_run \<Rightarrow> int" where
  "byTimeThenName collate a b =
     (if oc_at (snd a) \<noteq> oc_at (snd b) then oc_at (snd a) - oc_at (snd b) else collate (jobName (fst a)) (jobName (fst b)))"

record board_cell =
  ce_day :: board_day
  ce_items :: "board_run list"
  ce_hidden :: nat

datatype board_row = BandRow nat nat "board_cell list" | QuietRow nat nat

definition band_cell :: "(string \<Rightarrow> string \<Rightarrow> int) \<Rightarrow> board_day \<Rightarrow> board_run list \<Rightarrow> board_cell" where
  "band_cell collate day items =
     (let sorted = sort_by (byTimeThenName collate) items in
      \<lparr>ce_day = day, ce_items = take MAX_BLOCKS_PER_CELL sorted, ce_hidden = length sorted - MAX_BLOCKS_PER_CELL\<rparr>)"

definition add_band :: "(string \<Rightarrow> string \<Rightarrow> int) \<Rightarrow> board_day list \<Rightarrow> board_grid \<Rightarrow> board_row list \<Rightarrow> nat \<Rightarrow> board_row list" where
  "add_band collate days grid rows b =
     (let from_h = b * BAND_HOURS; to_h = (b + 1) * BAND_HOURS in
      if \<exists>i\<in>set [0..<7]. grid b i \<noteq> []
      then rows @ [BandRow from_h to_h (map (\<lambda>i. band_cell collate (days ! i) (grid b i)) [0..<7])]
      else if rows = [] then [QuietRow from_h to_h]
      else case last rows of
        QuietRow prev_h _ \<Rightarrow> butlast rows @ [QuietRow prev_h to_h]
      | _ \<Rightarrow> rows @ [QuietRow from_h to_h])"

record board =
  bo_days :: "board_day list"
  bo_rows :: "board_row list"
  bo_unscheduled :: "board_job list"
  bo_dense :: "board_job list"
  bo_start :: int
  bo_end :: int

definition buildBoard ::
  "(string \<Rightarrow> string \<Rightarrow> int) \<Rightarrow> clock \<Rightarrow> board_job list \<Rightarrow> int \<Rightarrow> int \<Rightarrow> (board_job \<Rightarrow> string) \<Rightarrow> board option" where
  "buildBoard collate c jobs weekStart now keyOf =
     (let days = weekDays c weekStart now; from_t = bd_start (hd days); to_t = bd_end (last days) in
      case sort_jobs c from_t to_t now keyOf jobs ([], [], []) of
        None \<Rightarrow> None
      | Some (unscheduled, dense, placed) \<Rightarrow>
          (let grid = fold (place_run c days) placed (\<lambda>_ _. [])
           in Some \<lparr>bo_days = days, bo_rows = foldl (add_band collate days grid) [] [0..<BANDS],
                bo_unscheduled = unscheduled, bo_dense = dense, bo_start = from_t, bo_end = to_t\<rparr>))"

section \<open>Beside the board\<close>

text \<open>\<open>Math.round\<close> of a number of minutes.\<close>

definition untilLabel :: "int \<Rightarrow> int \<Rightarrow> string" where
  "untilLabel t now =
     (let secs = t - now in
      if secs \<le> 60 then ''now''
      else let mins = (secs + 30) div 60 in
        if mins < 60 then ''in '' @ int_str mins @ ''m''
        else let hours = mins div 60 in
          if hours < 24 then
            (let rest = mins mod 60 in if rest = 0 then ''in '' @ int_str hours @ ''h'' else ''in '' @ int_str hours @ ''h '' @ int_str rest @ ''m'')
          else let days = hours div 24; restHours = hours mod 24 in
            if restHours = 0 then ''in '' @ int_str days @ ''d'' else ''in '' @ int_str days @ ''d '' @ int_str restHours @ ''h'')"

fun due_ahead :: "clock \<Rightarrow> int \<Rightarrow> int \<Rightarrow> (board_job \<Rightarrow> string) \<Rightarrow> board_job list \<Rightarrow> board_run list option" where
  "due_ahead c now to_t keyOf [] = Some []"
| "due_ahead c now to_t keyOf (job # jobs) =
     (if \<not> isPlaceable job \<or> \<not> jb_enabled job then due_ahead c now to_t keyOf jobs
      else case (jobOccurrences c (job_info.truncate job) now to_t now (keyOf job), due_ahead c now to_t keyOf jobs) of
        (Some (occurrences, _), Some out) \<Rightarrow> Some (map (Pair job) (filter (\<lambda>occ. oc_state occ = Due) occurrences) @ out)
      | _ \<Rightarrow> None)"

definition agendaAhead ::
  "(string \<Rightarrow> string \<Rightarrow> int) \<Rightarrow> clock \<Rightarrow> board_job list \<Rightarrow> int \<Rightarrow> int \<Rightarrow> (board_job \<Rightarrow> string) \<Rightarrow> board_run list option" where
  "agendaAhead collate c jobs now hours keyOf =
     map_option (sort_by (byTimeThenName collate)) (due_ahead c now (now + hours * 3600) keyOf jobs)"

record recent_run =
  rr_job :: board_job
  rr_key :: string
  rr_at :: int
  rr_result :: "string option"
  rr_unread :: int

definition recentRuns :: "board_job list \<Rightarrow> (board_job \<Rightarrow> string) \<Rightarrow> nat \<Rightarrow> recent_run list" where
  "recentRuns jobs keyOf limit =
     take limit (sort_by (\<lambda>a b. rr_at b - rr_at a)
       (List.map_filter (\<lambda>job. map_option (\<lambda>t. \<lparr>rr_job = job, rr_key = keyOf job, rr_at = t, rr_result = jb_lastResult job,
          rr_unread = (case bj_unread job of None \<Rightarrow> 0 | Some n \<Rightarrow> n)\<rparr>) (jb_lastRunAt job)) jobs))"

definition running_since :: "board_job \<Rightarrow> int" where
  "running_since job = (case jb_runningSince job of None \<Rightarrow> 0 | Some t \<Rightarrow> t)"

definition runningJobs :: "board_job list \<Rightarrow> board_job list" where
  "runningJobs jobs = sort_by (\<lambda>a b. running_since a - running_since b) (filter (\<lambda>job. jb_running job = Some True) jobs)"

section \<open>Each run in one place\<close>

lemma place_runs:
  "fold (place_run c days) runs grid b i =
     grid b i @ filter (\<lambda>r. dayIndexOf days (oc_at (snd r)) = int i \<and> bandOf c (oc_at (snd r)) = b) runs"
proof (induction runs arbitrary: grid)
  case (Cons r runs)
  have "place_run c days r grid b i =
      grid b i @ (if dayIndexOf days (oc_at (snd r)) = int i \<and> bandOf c (oc_at (snd r)) = b then [r] else [])"
    by (auto simp: place_run_def Let_def)
  then show ?case using Cons by simp
qed simp

fun row_from :: "board_row \<Rightarrow> nat" where
  "row_from (BandRow f t cells) = f"
| "row_from (QuietRow f t) = f"

fun row_to :: "board_row \<Rightarrow> nat" where
  "row_to (BandRow f t cells) = t"
| "row_to (QuietRow f t) = t"

fun is_quiet :: "board_row \<Rightarrow> bool" where
  "is_quiet (QuietRow f t) = True"
| "is_quiet _ = False"

text \<open>The rows follow one another without a gap.\<close>

fun tiles :: "nat \<Rightarrow> board_row list \<Rightarrow> nat \<Rightarrow> bool" where
  "tiles a [] z = (a = z)"
| "tiles a (r # rs) z = (row_from r = a \<and> a < row_to r \<and> tiles (row_to r) rs z)"

lemma tiles_snoc: "tiles a (rs @ [r]) z \<longleftrightarrow> tiles a rs (row_from r) \<and> row_from r < row_to r \<and> row_to r = z"
  by (induction rs arbitrary: a) auto

definition used_band :: "board_grid \<Rightarrow> nat \<Rightarrow> bool" where
  "used_band grid b \<longleftrightarrow> (\<exists>i<7. grid b i \<noteq> [])"

definition band_row :: "(string \<Rightarrow> string \<Rightarrow> int) \<Rightarrow> board_day list \<Rightarrow> board_grid \<Rightarrow> nat \<Rightarrow> board_row" where
  "band_row collate days grid b = BandRow (b * 3) (b * 3 + 3) (map (\<lambda>i. band_cell collate (days ! i) (grid b i)) [0..<7])"

lemma add_band_cases:
  "add_band collate days grid rows b =
     (if used_band grid b then rows @ [band_row collate days grid b]
      else if rows \<noteq> [] \<and> is_quiet (last rows) then butlast rows @ [QuietRow (row_from (last rows)) (b * 3 + 3)]
      else rows @ [QuietRow (b * 3) (b * 3 + 3)])"
proof -
  have "(\<exists>i\<in>set [0..<7]. grid b i \<noteq> []) \<longleftrightarrow> used_band grid b" by (auto simp: used_band_def)
  then show ?thesis
    by (cases "last rows") (auto simp: add_band_def Let_def BAND_HOURS_def band_row_def)
qed

definition rows_upto :: "(string \<Rightarrow> string \<Rightarrow> int) \<Rightarrow> board_day list \<Rightarrow> board_grid \<Rightarrow> nat \<Rightarrow> board_row list" where
  "rows_upto collate days grid k = foldl (add_band collate days grid) [] [0..<k]"

lemma rows_built:
  fixes collate days grid
  defines "rows \<equiv> rows_upto collate days grid"
  shows "tiles 0 (rows k) (k * 3) \<and> successively (\<lambda>r s. \<not> (is_quiet r \<and> is_quiet s)) (rows k) \<and>
    (\<forall>r. \<not> is_quiet r \<longrightarrow> (r \<in> set (rows k) \<longleftrightarrow> (\<exists>b<k. used_band grid b \<and> r = band_row collate days grid b)))"
proof (induction k)
  case 0
  show ?case by (simp add: rows_def rows_upto_def)
next
  case (Suc k)
  let ?R = "rows k"
  have next_rows: "rows (Suc k) = add_band collate days grid ?R k" by (simp add: rows_def rows_upto_def)
  have band: "row_from (band_row collate days grid k) = k * 3" "row_to (band_row collate days grid k) = k * 3 + 3"
    "\<not> is_quiet (band_row collate days grid k)" by (simp_all add: band_row_def)
  consider "used_band grid k" | "\<not> used_band grid k" "?R \<noteq> []" "is_quiet (last ?R)" | "\<not> used_band grid k" "?R = [] \<or> \<not> is_quiet (last ?R)" by blast
  then show ?case
  proof cases
    case 1
    then have "rows (Suc k) = ?R @ [band_row collate days grid k]" by (simp add: next_rows add_band_cases)
    then show ?thesis using Suc 1 band by (auto simp: tiles_snoc successively_append_iff less_Suc_eq)
  next
    case 2
    obtain R f t where R: "?R = R @ [QuietRow f t]" using 2(2,3) by (cases ?R rule: rev_cases) (auto elim: is_quiet.elims)
    then have new: "rows (Suc k) = R @ [QuietRow f (k * 3 + 3)]" using 2 by (simp add: next_rows add_band_cases)
    have "r \<in> set (rows (Suc k)) \<longleftrightarrow> (\<exists>b<Suc k. used_band grid b \<and> r = band_row collate days grid b)" if r: "\<not> is_quiet r" for r
    proof -
      have "r \<noteq> QuietRow f t" "r \<noteq> QuietRow f (k * 3 + 3)" using r by auto
      then have "r \<in> set (rows (Suc k)) \<longleftrightarrow> r \<in> set ?R" by (simp add: new R)
      also have "\<dots> \<longleftrightarrow> (\<exists>b<k. used_band grid b \<and> r = band_row collate days grid b)" using Suc r by blast
      finally show ?thesis using 2(1) less_Suc_eq by auto
    qed
    then show ?thesis using Suc by (simp add: new R tiles_snoc successively_append_iff)
  next
    case 3
    then have "rows (Suc k) = ?R @ [QuietRow (k * 3) (k * 3 + 3)]" by (auto simp: next_rows add_band_cases)
    then show ?thesis using Suc 3 by (auto simp: tiles_snoc successively_append_iff less_Suc_eq)
  qed
qed

section \<open>The days of a week\<close>

lemma set_date_shift: "set_date c t (getDate c t + n) = to_epoch c ((local_day c t + n) * 86400 + to_local c t mod 86400)"
  using month_and_date_day(4) [of "local_day c t"]
  by (simp add: set_date_def getFullYear_def getMonth_def getDate_def make_day_shift)

text \<open>A week whose days all open with their midnight.\<close>

definition midnights :: "clock \<Rightarrow> int \<Rightarrow> bool" where
  "midnights c e \<longleftrightarrow> (\<forall>i<7. to_local c (day_open c (e + int i)) mod 86400 = 0)"

lemma add_days_open:
  assumes "clock_ok c" "to_local c (day_open c e) mod 86400 = 0"
  shows "board_addDays c (day_open c e) n = day_open c (e + n)"
  using assms by (simp add: board_addDays_def set_date_shift) (simp add: day_open_def)

lemma week_days:
  assumes "clock_ok c" "midnights c e" "i < 7"
  shows "bd_start (weekDays c (day_open c e) now ! i) = day_open c (e + int i)"
    "bd_end (weekDays c (day_open c e) now ! i) = day_open c (e + int i + 1)"
proof -
  have "to_local c (day_open c e) mod 86400 = 0" using assms(2) by (auto simp: midnights_def dest: spec [of _ 0])
  then have s: "board_addDays c (day_open c e) (int i) = day_open c (e + int i)" by (rule add_days_open [OF assms(1)])
  moreover have "board_addDays c (day_open c (e + int i)) 1 = day_open c (e + int i + 1)"
    using assms(2,3) by (intro add_days_open [OF assms(1)]) (auto simp: midnights_def)
  ultimately show "bd_start (weekDays c (day_open c e) now ! i) = day_open c (e + int i)"
    "bd_end (weekDays c (day_open c e) now ! i) = day_open c (e + int i + 1)"
    using assms(3) by (simp_all add: weekDays_def Let_def)
qed

lemma week_ends:
  assumes "clock_ok c" "midnights c e"
  shows "bd_start (hd (weekDays c (day_open c e) now)) = day_open c e"
    "bd_end (last (weekDays c (day_open c e) now)) = day_open c (e + 7)"
  using week_days(1) [OF assms, of 0 now] week_days(2) [OF assms, of 6 now] by (simp_all add: weekDays_def upt_rec add.commute)

lemma day_open_less: "clock_ok c \<Longrightarrow> a < b \<Longrightarrow> day_open c a < day_open c b"
  by (rule local_day_before) simp_all

lemma day_open_le: "clock_ok c \<Longrightarrow> a \<le> b \<Longrightarrow> day_open c a \<le> day_open c b"
  using day_open_less [of c a b] by (cases "a = b") auto

definition in_day :: "clock \<Rightarrow> int \<Rightarrow> int \<Rightarrow> bool" where
  "in_day c day t \<longleftrightarrow> day_open c day \<le> t \<and> t < day_open c (day + 1)"

lemma in_day_unique: "clock_ok c \<Longrightarrow> in_day c a t \<Longrightarrow> in_day c b t \<Longrightarrow> a = b"
  using day_open_le [of c "a + 1" b] day_open_le [of c "b + 1" a] by (force simp: in_day_def)

lemma day_index:
  assumes "clock_ok c" "midnights c e" "i < 7"
  shows "dayIndexOf (weekDays c (day_open c e) now) t = int i \<longleftrightarrow> in_day c (e + int i) t"
proof -
  let ?days = "weekDays c (day_open c e) now"
  let ?P = "\<lambda>d. bd_start d \<le> t \<and> t < bd_end d"
  have len: "length ?days = 7" by (simp add: weekDays_def)
  have P: "?P (?days ! j) \<longleftrightarrow> in_day c (e + int j) t" if "j < 7" for j
    using week_days [OF assms(1,2) that] by (simp add: in_day_def)
  show ?thesis
  proof
    assume "dayIndexOf ?days t = int i"
    then have "findIndex ?P ?days = int i" by (simp add: dayIndexOf_def)
    then have "?P (?days ! i)" using findIndex_nth [of ?P ?days] by simp
    then show "in_day c (e + int i) t" using P [OF assms(3)] by simp
  next
    assume i: "in_day c (e + int i) t"
    let ?k = "nat (findIndex ?P ?days)"
    have "?P (?days ! i)" "?days ! i \<in> set ?days" using i P [OF assms(3)] assms(3) len by simp_all
    then have k: "0 \<le> findIndex ?P ?days" using findIndex_neg [of ?P ?days] by (meson not_le_imp_less)
    then have "?k < 7" "?P (?days ! ?k)" using findIndex_nth [OF k] len by simp_all
    then have "in_day c (e + int ?k) t" using P by blast
    then have "e + int ?k = e + int i" by (rule in_day_unique [OF assms(1) _ i])
    then have "findIndex ?P ?days = int i" using k by simp
    then show "dayIndexOf ?days t = int i" by (simp add: dayIndexOf_def)
  qed
qed

definition runs_in :: "clock \<Rightarrow> int \<Rightarrow> nat \<Rightarrow> board_run list \<Rightarrow> board_run list" where
  "runs_in c day b runs = filter (\<lambda>r. in_day c day (oc_at (snd r)) \<and> bandOf c (oc_at (snd r)) = b) runs"


definition every_three_days :: board_job where
  "every_three_days =
     \<lparr>jb_enabled = True, jb_schedule = Some (Interval \<lparr>is_everySecs = 259200, is_everyMaxSecs = None, is_fromMinutes = None,
        is_untilMinutes = None, is_days = None\<rparr>), jb_lastRunAt = None, jb_lastResult = None, jb_nextFireAt = Some 464400,
      jb_running = None, jb_runningSince = None, bj_id = ''sync'', bj_label = None, bj_valid = True, bj_unread = None\<rparr>"

definition sync_run :: "int \<Rightarrow> board_run" where
  "sync_run t = (every_three_days, \<lparr>oc_key = ''sync@'' @ int_str t, oc_at = t, oc_untilAt = None, oc_state = Due,
     oc_approximate = False, oc_times = 1, oc_result = None\<rparr>)"

lemma sync_runs: "sort_jobs utc 345600 950400 345600 bj_id [every_three_days] ([], [], []) = Some ([], [], [sync_run 464400, sync_run 723600])"
proof -
  have slots: "expandSchedule utc (jb_schedule every_three_days) 345600 950400 (Some 464400) None =
      Some ([\<lparr>rs_at = 464400, rs_untilAt = None, rs_approximate = False, rs_times = 1\<rparr>,
        \<lparr>rs_at = 723600, rs_untilAt = None, rs_approximate = False, rs_times = 1\<rparr>], False)"
    by code_simp
  have job: "job_info.truncate every_three_days = \<lparr>jb_enabled = True, jb_schedule = jb_schedule every_three_days, jb_lastRunAt = None,
      jb_lastResult = None, jb_nextFireAt = Some 464400, jb_running = None, jb_runningSince = None\<rparr>"
    by (simp add: every_three_days_def job_info.truncate_def)
  have "jobOccurrences utc (job_info.truncate every_three_days) 345600 950400 345600 ''sync'' =
      Some ([snd (sync_run 464400), snd (sync_run 723600)], False)"
    by (simp add: jobOccurrences_def job slots slotState_def sync_run_def compareAt_def)
  moreover have "isPlaceable every_three_days" "bj_id every_three_days = ''sync''"
    by (simp_all add: isPlaceable_def every_three_days_def)
  ultimately show ?thesis by (simp add: sync_run_def)
qed


text \<open>A job with a cron line is never drawn: it counts as unscheduled, though its runs are known.\<close>

theorem cron_job_not_drawn:
  assumes "jb_schedule job = Some (Cron line)" "buildBoard collate c [job] weekStart now keyOf = Some bd"
  shows "bo_unscheduled bd = [job] \<and> bo_rows bd = [QuietRow 0 24]"
proof -
  have "\<not> isPlaceable job" using assms(1) by (simp add: isPlaceable_def)
  moreover have "foldl (add_band collate days (\<lambda>_ _. [])) [] [0..<BANDS] = [QuietRow 0 24]" for days
    by (simp add: BANDS_def BAND_HOURS_def add_band_cases used_band_def upt_rec)
  ultimately show ?thesis using assms(2) by (auto simp: buildBoard_def Let_def)
qed

end
