(* ===== verification/ChangedTree.thy ===== *)
theory ChangedTree
  imports JsSort "HOL-Library.Multiset"
begin

text \<open>
  The tree of changed files (\<open>components/changedTree.ts\<close>): files put in folders by their paths, a folder
  with one folder in it folded into one row, each level sorted. Of a changed file only its path is kept.
  The order of names in natural language (\<open>localeCompare\<close>) is the parameter \<open>collate\<close>.
\<close>

section \<open>Building the tree\<close>

record changed_file =
  cf_path :: string

datatype changed_node =
    FileNode string string changed_file
  | FolderNode string string "changed_node list" nat

definition is_folder_named :: "string \<Rightarrow> changed_node \<Rightarrow> bool" where
  "is_folder_named folder c = (case c of FolderNode _ name _ _ \<Rightarrow> name = folder | _ \<Rightarrow> False)"

text \<open>The walk of one file down its folders, which makes those that are not there, with the parts of the
  path read so far.\<close>

fun put_file :: "string list \<Rightarrow> string list \<Rightarrow> changed_file \<Rightarrow> changed_node list \<Rightarrow> changed_node list" where
  "put_file done [] file nodes = nodes"
| "put_file done [name] file nodes = nodes @ [FileNode (cf_path file) name file]"
| "put_file done (folder # part # rest) file nodes =
     (let i = findIndex (is_folder_named folder) nodes in
      if i = -1
      then nodes @ [FolderNode (join ''/'' (done @ [folder])) folder (put_file (done @ [folder]) (part # rest) file []) 0]
      else case nodes ! nat i of
        FolderNode path name children n \<Rightarrow>
          nodes[nat i := FolderNode path name (put_file (done @ [folder]) (part # rest) file children) n]
      | _ \<Rightarrow> nodes)"

definition node_name :: "changed_node \<Rightarrow> string" where
  "node_name n = (case n of FileNode _ name _ \<Rightarrow> name | FolderNode _ name _ _ \<Rightarrow> name)"

definition is_file :: "changed_node \<Rightarrow> bool" where
  "is_file n = (case n of FileNode _ _ _ \<Rightarrow> True | _ \<Rightarrow> False)"

definition compare_changed :: "(string \<Rightarrow> string \<Rightarrow> int) \<Rightarrow> changed_node \<Rightarrow> changed_node \<Rightarrow> int" where
  "compare_changed collate a b =
     (if is_file a \<noteq> is_file b then (if is_file a then 1 else -1) else collate (node_name a) (node_name b))"

definition sort_changed :: "(string \<Rightarrow> string \<Rightarrow> int) \<Rightarrow> changed_node list \<Rightarrow> changed_node list" where
  "sort_changed collate nodes = sort_by (compare_changed collate) nodes"

definition count_files :: "changed_node list \<Rightarrow> nat" where
  "count_files nodes = fold (\<lambda>c acc. acc + (case c of FileNode _ _ _ \<Rightarrow> 1 | FolderNode _ _ _ n \<Rightarrow> n)) nodes 0"

text \<open>A folder with its children done: folded into its only folder, or sorted and counted.\<close>

definition close_folder :: "(string \<Rightarrow> string \<Rightarrow> int) \<Rightarrow> string \<Rightarrow> string \<Rightarrow> changed_node list \<Rightarrow> changed_node" where
  "close_folder collate path name processed =
     (case processed of
        [FolderNode child_path child_name children n] \<Rightarrow> FolderNode child_path (name @ ''/'' @ child_name) children n
      | _ \<Rightarrow> (let sorted = sort_changed collate processed in FolderNode path name sorted (count_files sorted)))"

fun collapseAndSort :: "(string \<Rightarrow> string \<Rightarrow> int) \<Rightarrow> changed_node \<Rightarrow> changed_node" where
  "collapseAndSort collate (FileNode path name file) = FileNode path name file"
| "collapseAndSort collate (FolderNode path name children n) =
     close_folder collate path name (map (collapseAndSort collate) children)"

definition put_files :: "changed_file list \<Rightarrow> changed_node list" where
  "put_files files = foldl (\<lambda>top file. put_file [] (split_on CHR ''/'' (cf_path file)) file top) [] files"

definition build_changed_tree :: "(string \<Rightarrow> string \<Rightarrow> int) \<Rightarrow> changed_file list \<Rightarrow> changed_node list" where
  "build_changed_tree collate files = sort_changed collate (map (collapseAndSort collate) (put_files files))"

fun files_of :: "changed_node \<Rightarrow> changed_file list" where
  "files_of (FileNode path name file) = [file]"
| "files_of (FolderNode path name children n) = concat (map files_of children)"

definition flattenNodes :: "changed_node list \<Rightarrow> changed_file list" where
  "flattenNodes nodes = concat (map files_of nodes)"

definition flatten_changed :: "(string \<Rightarrow> string \<Rightarrow> int) \<Rightarrow> changed_file list \<Rightarrow> changed_file list" where
  "flatten_changed collate files = flattenNodes (build_changed_tree collate files)"

fun fileDescendants :: "changed_node \<Rightarrow> string list" where
  "fileDescendants (FileNode path name file) = [path]"
| "fileDescendants (FolderNode path name children n) = concat (map fileDescendants children)"

section \<open>What a folder holds\<close>

text \<open>A node put in below the given folders: its path is theirs and its name, and it holds files only of
  its folder.\<close>

fun put_at :: "string list \<Rightarrow> changed_node \<Rightarrow> bool" where
  "put_at done (FileNode path name file) \<longleftrightarrow> path = cf_path file \<and> split_on CHR ''/'' (cf_path file) = done @ [name]"
| "put_at done (FolderNode path name children n) \<longleftrightarrow>
     path = join ''/'' (done @ [name]) \<and> (\<forall>c\<in>set children. put_at (done @ [name]) c)"

lemma flattenNodes_simps [simp]:
  "flattenNodes [] = []" "flattenNodes (n # ns) = files_of n @ flattenNodes ns" "flattenNodes (ns @ ms) = flattenNodes ns @ flattenNodes ms"
  by (simp_all add: flattenNodes_def)

lemma mset_flatten_update:
  assumes "i < length nodes" "mset (files_of node) = add_mset file (mset (files_of (nodes ! i)))"
  shows "mset (flattenNodes (nodes[i := node])) = add_mset file (mset (flattenNodes nodes))"
  using assms
proof (induction nodes arbitrary: i)
  case (Cons n ns)
  then show ?case by (cases i) auto
qed simp

lemma folder_found:
  assumes "findIndex (is_folder_named folder) nodes \<noteq> -1"
  obtains path children n where "nat (findIndex (is_folder_named folder) nodes) < length nodes"
    "nodes ! nat (findIndex (is_folder_named folder) nodes) = FolderNode path folder children n"
proof -
  have "0 \<le> findIndex (is_folder_named folder) nodes" using assms findIndex_bounds [of "is_folder_named folder" nodes] by linarith
  from findIndex_nth [OF this] show thesis
    using that by (auto simp: is_folder_named_def split: changed_node.splits)
qed

lemma put_file_adds:
  "parts \<noteq> [] \<Longrightarrow> mset (flattenNodes (put_file done parts file nodes)) = add_mset file (mset (flattenNodes nodes))"
proof (induction "done" parts "file" nodes rule: put_file.induct)
  case (3 "done" folder part rest "file" nodes)
  show ?case
  proof (cases "findIndex (is_folder_named folder) nodes = -1")
    case True
    then show ?thesis using "3.IH"(1) by (simp add: Let_def flattenNodes_def [symmetric])
  next
    case False
    then obtain path children n where f: "nat (findIndex (is_folder_named folder) nodes) < length nodes"
      "nodes ! nat (findIndex (is_folder_named folder) nodes) = FolderNode path folder children n" by (rule folder_found)
    have "mset (flattenNodes (put_file (done @ [folder]) (part # rest) file children)) = add_mset file (mset (flattenNodes children))"
      by (rule "3.IH"(2) [OF refl False f(2)]) simp
    then show ?thesis using False f by (simp add: Let_def) (rule mset_flatten_update, simp_all add: flattenNodes_def)
  qed
qed simp_all

lemma put_file_at:
  "parts \<noteq> [] \<Longrightarrow> split_on CHR ''/'' (cf_path file) = done @ parts \<Longrightarrow> \<forall>n\<in>set nodes. put_at done n \<Longrightarrow>
   \<forall>n\<in>set (put_file done parts file nodes). put_at done n"
proof (induction "done" parts "file" nodes rule: put_file.induct)
  case (3 "done" folder part rest "file" nodes)
  show ?case
  proof (cases "findIndex (is_folder_named folder) nodes = -1")
    case True
    then show ?thesis using "3.IH"(1) "3.prems" by (simp add: Let_def)
  next
    case False
    then obtain path children n where f: "nat (findIndex (is_folder_named folder) nodes) < length nodes"
      "nodes ! nat (findIndex (is_folder_named folder) nodes) = FolderNode path folder children n" by (rule folder_found)
    have old: "put_at done (FolderNode path folder children n)" using "3.prems"(3) f by (metis nth_mem)
    have "\<forall>c\<in>set (put_file (done @ [folder]) (part # rest) file children). put_at (done @ [folder]) c"
      by (rule "3.IH"(2) [OF refl False f(2)]) (use "3.prems" old in simp_all)
    then show ?thesis using False f "3.prems"(3) old by (auto simp: Let_def dest: set_update_subset_insert [THEN subsetD])
  qed
qed simp_all

lemma join_append: "ws \<noteq> [] \<Longrightarrow> vs \<noteq> [] \<Longrightarrow> join sep (ws @ vs) = join sep ws @ sep @ join sep vs"
  by (induction ws rule: induct_list012) (simp_all add: join_Cons)

lemma put_at_files: "put_at done n \<Longrightarrow> f \<in> set (files_of n) \<Longrightarrow> \<exists>more. split_on CHR ''/'' (cf_path f) = done @ more \<and> more \<noteq> []"
proof (induction "done" n rule: put_at.induct)
  case (2 "done" path name children n)
  then obtain c where c: "c \<in> set children" "f \<in> set (files_of c)" by auto
  then obtain more where "split_on CHR ''/'' (cf_path f) = (done @ [name]) @ more" using 2 by fastforce
  then show ?case by auto
qed auto

text \<open>A row as it is shown: a folder counts its files, which lie in it, and is not alone in another.\<close>

fun shown_ok :: "changed_node \<Rightarrow> bool" where
  "shown_ok (FileNode path name file) \<longleftrightarrow> path = cf_path file"
| "shown_ok (FolderNode path name children n) \<longleftrightarrow>
     n = length (flattenNodes children) \<and> (\<forall>f\<in>set (flattenNodes children). starts_with (cf_path f) (path @ ''/'')) \<and>
     (\<forall>c. children = [c] \<longrightarrow> is_file c) \<and> (\<forall>c\<in>set children. shown_ok c)"

lemma mset_flatten_cong: "mset ns = mset ms \<Longrightarrow> mset (flattenNodes ns) = mset (flattenNodes ms)"
  by (simp add: flattenNodes_def mset_concat) (metis mset_map sum_mset_sum_list)

lemma mset_flatten_map:
  "(\<And>c. c \<in> set ns \<Longrightarrow> mset (files_of (f c)) = mset (files_of c)) \<Longrightarrow> mset (flattenNodes (map f ns)) = mset (flattenNodes ns)"
  by (induction ns) simp_all

lemma mset_sort_changed [simp]: "mset (flattenNodes (sort_changed collate ns)) = mset (flattenNodes ns)"
  by (rule mset_flatten_cong) (simp add: sort_changed_def mset_sort_by)

lemma count_shown:
  assumes "\<forall>c\<in>set nodes. shown_ok c"
  shows "count_files nodes = length (flattenNodes nodes)"
proof -
  have "\<forall>c\<in>set ns. shown_ok c \<Longrightarrow>
      fold (\<lambda>c acc. acc + (case c of FileNode _ _ _ \<Rightarrow> 1 | FolderNode _ _ _ n \<Rightarrow> n)) ns k = k + length (flattenNodes ns)" for ns k
    by (induction ns arbitrary: k) (auto simp: flattenNodes_def [symmetric] split: changed_node.splits)
  then show ?thesis using assms by (simp add: count_files_def)
qed

lemma close_folder_shown:
  assumes "\<forall>c\<in>set processed. shown_ok c" "\<forall>f\<in>set (flattenNodes processed). starts_with (cf_path f) (path @ ''/'')"
  shows "shown_ok (close_folder collate path name processed)"
    "mset (files_of (close_folder collate path name processed)) = mset (flattenNodes processed)"
proof -
  consider p m cs n where "processed = [FolderNode p m cs n]" | "\<forall>c. processed = [c] \<longrightarrow> is_file c"
    by (cases "\<exists>p m cs n. processed = [FolderNode p m cs n]") (auto simp: is_file_def split: changed_node.splits)
  then have "shown_ok (close_folder collate path name processed) \<and>
      mset (files_of (close_folder collate path name processed)) = mset (flattenNodes processed)"
  proof cases
    case 1
    then show ?thesis using assms by (simp add: close_folder_def)
  next
    case 2
    have eq: "close_folder collate path name processed =
        FolderNode path name (sort_changed collate processed) (count_files (sort_changed collate processed))"
      using 2 [rule_format, of "hd processed"]
      by (auto simp: close_folder_def is_file_def Let_def split: list.splits changed_node.splits)
    have s: "set (sort_changed collate processed) = set processed" "length (sort_changed collate processed) = length processed"
      by (simp_all add: sort_changed_def)
    have "\<forall>c. sort_changed collate processed = [c] \<longrightarrow> is_file c"
    proof (intro allI impI)
      fix c assume "sort_changed collate processed = [c]"
      then have "processed = [c]" using s by (cases processed) auto
      then show "is_file c" using 2 by blast
    qed
    moreover have "set (flattenNodes (sort_changed collate processed)) = set (flattenNodes processed)"
      by (rule mset_eq_setD) simp
    ultimately show ?thesis using assms s by (simp add: eq count_shown flattenNodes_def [symmetric])
  qed
  then show "shown_ok (close_folder collate path name processed)"
    "mset (files_of (close_folder collate path name processed)) = mset (flattenNodes processed)" by blast+
qed

lemma collapse_shown:
  "put_at done n \<Longrightarrow> shown_ok (collapseAndSort collate n) \<and> mset (files_of (collapseAndSort collate n)) = mset (files_of n)"
proof (induction collate n arbitrary: "done" rule: collapseAndSort.induct)
  case (2 collate path name children n)
  let ?cs = "map (collapseAndSort collate) children"
  have each: "shown_ok (collapseAndSort collate c) \<and> mset (files_of (collapseAndSort collate c)) = mset (files_of c)"
    if "c \<in> set children" for c using 2 that by auto
  then have same: "mset (flattenNodes ?cs) = mset (flattenNodes children)" by (intro mset_flatten_map) simp
  have "starts_with (cf_path f) (path @ ''/'')" if mem: "f \<in> set (flattenNodes children)" for f
  proof -
    obtain c where c: "c \<in> set children" "f \<in> set (files_of c)" using mem unfolding flattenNodes_def by auto
    have "put_at (done @ [name]) c" using "2.prems" c(1) by simp
    from put_at_files [OF this c(2)] obtain more where more: "split_on CHR ''/'' (cf_path f) = (done @ [name]) @ more" "more \<noteq> []" by blast
    have "cf_path f = join ''/'' ((done @ [name]) @ more)" using join_split_on [of "CHR ''/''" "cf_path f"] unfolding more(1) by simp
    also have "\<dots> = join ''/'' (done @ [name]) @ ''/'' @ join ''/'' more" using more(2) by (intro join_append) simp_all
    finally show ?thesis using "2.prems" by (simp add: starts_with_def)
  qed
  then have "\<forall>f\<in>set (flattenNodes ?cs). starts_with (cf_path f) (path @ ''/'')" using mset_eq_setD [OF same] by simp
  then show ?case using close_folder_shown [of ?cs path collate name] each same
    by (simp add: flattenNodes_def [symmetric])
qed simp

lemma put_files_ok: "(\<forall>n\<in>set (put_files files). put_at [] n) \<and> mset (flattenNodes (put_files files)) = mset files"
proof (induction files rule: rev_induct)
  case (snoc f fs)
  have step: "put_files (fs @ [f]) = put_file [] (split_on CHR ''/'' (cf_path f)) f (put_files fs)" by (simp add: put_files_def)
  show ?case unfolding step
  proof
    show "\<forall>n\<in>set (put_file [] (split_on CHR ''/'' (cf_path f)) f (put_files fs)). put_at [] n"
      using snoc by (intro put_file_at) simp_all
  qed (use snoc in \<open>simp add: put_file_adds\<close>)
qed (simp add: put_files_def)

lemma descendants_files: "shown_ok n \<Longrightarrow> fileDescendants n = map cf_path (files_of n)"
  by (induction n rule: fileDescendants.induct) (auto simp: map_concat intro!: arg_cong [where f = concat])


end
