(* ===== verification/HostTerminals.thy ===== *)
theory HostTerminals
  imports SavedLayouts PeerMarkers
begin

text \<open>
  \<open>desktop/frontend/src/peer/hostTerminals.ts\<close>: what a paired machine answers when it is asked for
  the terminals of a project, which of them this machine has had a tab for, and which tabs here the
  machine has closed. The module's two maps are the record \<open>peer_terms\<close>; what a caller keeps between
  listings is \<open>host_tabs_seen\<close>. An answer is a \<^typ>\<open>json\<close> value of any shape.
\<close>

section \<open>Listings\<close>

record host_terminal =
  ht_id :: string
  ht_label :: "string option"
  ht_pinned :: bool
  ht_emoji :: "string option"
  ht_session :: "agent_session_ref option"

definition parseAgentSession :: "json option \<Rightarrow> agent_session_ref option" where
  "parseAgentSession value =
     (case value of
        Some (JObj fs) \<Rightarrow>
          (case (jfield (JObj fs) ''provider'', jfield (JObj fs) ''sessionId'') of
             (Some (JStr provider), Some (JStr sessionId)) \<Rightarrow>
               if \<not> isValidAgentSessionId sessionId then None
               else if provider = ''claude'' then Some \<lparr>ref_provider = Claude, ref_session_id = sessionId\<rparr>
               else if provider = ''codex'' then Some \<lparr>ref_provider = Codex, ref_session_id = sessionId\<rparr>
               else None
           | _ \<Rightarrow> None)
      | _ \<Rightarrow> None)"

text \<open>A machine with no name for a tab reports its terminal id instead.\<close>

definition parseHostTerminal :: "json \<Rightarrow> host_terminal option" where
  "parseHostTerminal value =
     (case jfield value ''id'' of
        Some (JStr i) \<Rightarrow>
          if \<not> isPeerName i then None
          else Some
            \<lparr>ht_id = i,
             ht_label = (case optString (jfield value ''label'') of
                None \<Rightarrow> None | Some l \<Rightarrow> if l = peerRawName i then None else Some l),
             ht_pinned = (jfield value ''pinned'' = Some (JBool True)),
             ht_emoji = optString (jfield value ''emoji''),
             ht_session = parseAgentSession (jfield value ''agentSession'')\<rparr>
      | _ \<Rightarrow> None)"

definition hostTerminalsOf :: "json option \<Rightarrow> host_terminal list" where
  "hostTerminalsOf listed = (case listed of Some (JArr vs) \<Rightarrow> List.map_filter parseHostTerminal vs | _ \<Rightarrow> [])"

record host_listing =
  hl_terminals :: "json option"
  hl_tabs :: "string list option"
  hl_run :: "string option"
  hl_follow :: bool

definition string_of_json :: "json \<Rightarrow> string option" where
  "string_of_json v = (case v of JStr s \<Rightarrow> Some s | _ \<Rightarrow> None)"

definition parseHostListing :: "json \<Rightarrow> host_listing" where
  "parseHostListing value =
     (if \<not> isRecord value then \<lparr>hl_terminals = Some value, hl_tabs = None, hl_run = None, hl_follow = False\<rparr>
      else \<lparr>hl_terminals = jfield value ''terminals'',
        hl_tabs = (case jfield value ''tabs'' of Some (JArr vs) \<Rightarrow> Some (List.map_filter string_of_json vs) | _ \<Rightarrow> None),
        hl_run = (case jfield value ''run'' of Some (JStr r) \<Rightarrow> Some r | _ \<Rightarrow> None),
        hl_follow = (jfield value ''follow'' = Some (JBool True))\<rparr>)"

section \<open>Claims, and starts in flight\<close>

record peer_terms =
  pt_claimed :: "string set"
  pt_starts :: "string \<rightharpoonup> int"

definition claimPeerTerminal :: "string \<Rightarrow> peer_terms \<Rightarrow> peer_terms" where
  "claimPeerTerminal i s = (if isPeerName i then s\<lparr>pt_claimed := insert i (pt_claimed s)\<rparr> else s)"

definition releasePeerTerminal :: "string \<Rightarrow> peer_terms \<Rightarrow> peer_terms" where
  "releasePeerTerminal i s = s\<lparr>pt_claimed := pt_claimed s - {i}\<rparr>"

definition starts_of :: "peer_terms \<Rightarrow> string \<Rightarrow> int" where
  "starts_of s slug = (case pt_starts s slug of None \<Rightarrow> 0 | Some n \<Rightarrow> n)"

definition beginPeerStart :: "string \<Rightarrow> peer_terms \<Rightarrow> peer_terms" where
  "beginPeerStart slug s = s\<lparr>pt_starts := (pt_starts s)(slug \<mapsto> starts_of s slug + 1)\<rparr>"

definition endPeerStart :: "string \<Rightarrow> peer_terms \<Rightarrow> peer_terms" where
  "endPeerStart slug s =
     (let left = starts_of s slug - 1
      in s\<lparr>pt_starts := (if 0 < left then (pt_starts s)(slug \<mapsto> left) else (pt_starts s)(slug := None))\<rparr>)"

definition isPeerStartInFlight :: "string \<Rightarrow> peer_terms \<Rightarrow> bool" where
  "isPeerStartInFlight slug s = (pt_starts s slug \<noteq> None)"

definition unclaimedHostTerminals :: "json option \<Rightarrow> string list \<Rightarrow> peer_terms \<Rightarrow> host_terminal list \<times> peer_terms" where
  "unclaimedHostTerminals listed openIds s =
     (let s = fold claimPeerTerminal openIds s
      in (filter (\<lambda>t. ht_id t \<notin> pt_claimed s) (hostTerminalsOf listed), s))"

section \<open>What the machine closed\<close>

definition tabsLeftByRestart :: "string option \<Rightarrow> host_listing \<Rightarrow> string list \<Rightarrow> string list option" where
  "tabsLeftByRestart previousRun listing openIds =
     (if \<not> hl_follow listing then None
      else case hl_tabs listing of
        None \<Rightarrow> None
      | Some tabs \<Rightarrow>
          if previousRun = None \<or> hl_run listing = previousRun then None
          else Some (filter (\<lambda>i. isPeerName i \<and> i \<notin> set tabs) openIds))"

record host_tabs_seen =
  seen_run :: "string option"
  seen_ids :: "string set"

definition hostClosedTabs :: "host_tabs_seen \<Rightarrow> host_listing \<Rightarrow> string list \<Rightarrow> string list \<times> host_tabs_seen" where
  "hostClosedTabs seen listing openIds =
     (case hl_tabs listing of
        None \<Rightarrow> ([], seen)
      | Some tabs \<Rightarrow>
          (let seen = (if hl_run listing \<noteq> seen_run seen then \<lparr>seen_run = hl_run listing, seen_ids = {}\<rparr> else seen);
               seen = seen\<lparr>seen_ids := seen_ids seen \<union> set tabs\<rparr>
           in (filter (\<lambda>i. i \<in> seen_ids seen \<and> i \<notin> set tabs) openIds, seen)))"

end
