(* ===== verification/HostTabs.thy ===== *)
theory HostTabs
  imports HostTerminals JsSort
begin

text \<open>
  \<open>desktop/frontend/src/hooks/terminals/hostTabs.ts\<close>, \<open>agentSessionTab.ts\<close>, \<open>swapTerminal.ts\<close> and
  \<open>remoteTabOrder.ts\<close> beside it, and \<open>codexResume.ts\<close>: the tabs of a machine's terminals come, go, are
  replaced, named and ordered in the pane tree as the machine has them. \<open>win\<close> is whether this machine
  runs Windows, \<open>uuid\<close> the history key a new tab of a terminal gets, \<open>fresh\<close> the id of a new pane.
\<close>

section \<open>The conversation of a tab\<close>

definition buildCodexResumeCmd :: "string option \<Rightarrow> string \<Rightarrow> string" where
  "buildCodexResumeCmd start sessionId =
     (let tokens = words (case start of None \<Rightarrow> [] | Some c \<Rightarrow> c);
          env = takeWhile env_assignment tokens; rest = dropWhile env_assignment tokens;
          prog = (if rest = [] then ''codex'' else hd rest)
      in join '' '' (env @ [prog, ''resume'', sessionId]))"

definition withAgentSession :: "bool \<Rightarrow> terminal_instance \<Rightarrow> agent_session_ref \<Rightarrow> terminal_instance" where
  "withAgentSession win tab session =
     (let changedSession = agentSessionOf win tab \<noteq> Some session;
          resume = (if ref_provider session = Claude
            then buildClaudeResumeCmd win (or_else (resumeCmd tab) (startCmd tab)) (ref_session_id session)
            else buildCodexResumeCmd
              (if agentProviderOfCommand win (startCmd tab) = Some Codex then startCmd tab else None) (ref_session_id session));
          next = tab\<lparr>agentSession := Some session, resumeCmd := Some resume, agentEnded := False\<rparr>
      in if changedSession \<and> followsAgentTitle tab
         then next\<lparr>sessionTitle := None, sessionTitleId := None, sessionTitleSource := None\<rparr> else next)"

definition withHostSession :: "bool \<Rightarrow> terminal_instance \<Rightarrow> host_terminal \<Rightarrow> terminal_instance" where
  "withHostSession win t host =
     (case ht_session host of
        None \<Rightarrow> t
      | Some session \<Rightarrow> if agentSessionOf win t = None then withAgentSession win t session else t)"

definition withHostNames :: "terminal_instance \<Rightarrow> host_terminal \<Rightarrow> terminal_instance" where
  "withHostNames t host =
     (let renamed = (case keep_truthy (ht_label host) of None \<Rightarrow> False | Some l \<Rightarrow> terminalDisplayLabel t \<noteq> l);
          repinned = pinned t \<noteq> ht_pinned host;
          reiconed = keep_truthy (emoji t) \<noteq> ht_emoji host;
          next = t\<lparr>emoji := ht_emoji host, pinned := ht_pinned host\<rparr>
      in if \<not> renamed \<and> \<not> repinned \<and> \<not> reiconed then t
         else if \<not> renamed then next
         else next\<lparr>t_label := the (ht_label host), sessionTitle := None, sessionTitleId := None,
                sessionTitleSource := Some Manual\<rparr>)"

section \<open>Opening\<close>

definition host_tab :: "bool \<Rightarrow> (string \<Rightarrow> string) \<Rightarrow> pane_node \<Rightarrow> host_terminal \<Rightarrow> terminal_instance" where
  "host_tab win uuid tree t =
     (let label = (case keep_truthy (ht_label t) of
            Some l \<Rightarrow> disambiguateLabel (Some tree) l | None \<Rightarrow> pickTerminalLabel (Some tree))
      in withHostSession win
           (makeTerminal (uuid (ht_id t)) (ht_id t) label
              ((bare_tab [] [])\<lparr>pinned := ht_pinned t, emoji := ht_emoji t, fromHost := True\<rparr>)) t)"

definition add_host_tab :: "bool \<Rightarrow> (string \<Rightarrow> string) \<Rightarrow> string \<Rightarrow> host_terminal \<Rightarrow> pane_node \<Rightarrow> pane_node" where
  "add_host_tab win uuid paneId t next =
     mapPane next paneId (\<lambda>p. p\<lparr>p_tabs := p_tabs p @ [host_tab win uuid next t]\<rparr>)"

definition withHostTabs ::
  "bool \<Rightarrow> (string \<Rightarrow> string) \<Rightarrow> string \<Rightarrow> pane_node option \<Rightarrow> string option \<Rightarrow> host_terminal list \<Rightarrow> pane_node \<times> string option" where
  "withHostTabs win uuid fresh tree focusedPaneId terminals =
     (case tree of
        None \<Rightarrow> (fold (add_host_tab win uuid fresh) terminals (Leaf (makePaneLeaf fresh [] 0)), Some fresh)
      | Some t \<Rightarrow>
          (let paneId = (case keep_truthy focusedPaneId of
                 Some f \<Rightarrow> if findPane t f \<noteq> None then f else firstPaneId t
               | None \<Rightarrow> firstPaneId t)
           in (fold (add_host_tab win uuid paneId) terminals t, None)))"

section \<open>Moving to another terminal\<close>

definition swapTerminal :: "string \<Rightarrow> pane_node \<Rightarrow> string \<Rightarrow> string \<Rightarrow> string \<Rightarrow> pane_node" where
  "swapTerminal key tree paneId oldId newId =
     mapPane tree paneId (\<lambda>p. p\<lparr>p_tabs := map (\<lambda>t.
       if t_id t = oldId
       then makeTerminal key newId (t_label t)
         ((bare_tab [] [])\<lparr>sessionTitle := sessionTitle t, sessionTitleId := sessionTitleId t,
            sessionTitleSource := sessionTitleSource t, historyKey := historyKey t, startCmd := startCmd t,
            resumeCmd := resumeCmd t, actionName := actionName t, memory := memory t, forkOf := forkOf t,
            pinned := pinned t, emoji := emoji t, color := color t, fromHost := fromHost t\<rparr>)
       else t) (p_tabs p)\<rparr>)"

definition holds_session :: "bool \<Rightarrow> string list \<Rightarrow> agent_session_ref \<Rightarrow> terminal_instance \<Rightarrow> bool" where
  "holds_session win listed session tab =
     (isPeerName (t_id tab) \<and> t_id tab \<notin> set listed \<and> agentSessionOf win tab = Some session)"

definition replace_step ::
  "bool \<Rightarrow> (string \<Rightarrow> string) \<Rightarrow> string list \<Rightarrow> host_terminal \<Rightarrow> pane_node \<times> (string \<times> string) list \<Rightarrow> pane_node \<times> (string \<times> string) list" where
  "replace_step win uuid listed t acc =
     (case acc of (next, replaced) \<Rightarrow>
       (case ht_session t of
          None \<Rightarrow> (next, replaced)
        | Some session \<Rightarrow>
            (case List.find (holds_session win listed session) (collectTerminals next) of
               None \<Rightarrow> (next, replaced)
             | Some old \<Rightarrow>
                 (case findTerminalLocation next (t_id old) of
                    None \<Rightarrow> (next, replaced)
                  | Some (paneId, _) \<Rightarrow>
                      (swapTerminal (uuid (ht_id t)) next paneId (t_id old) (ht_id t), replaced @ [(t_id old, ht_id t)])))))"

definition withReplacedHostTabs ::
  "bool \<Rightarrow> (string \<Rightarrow> string) \<Rightarrow> pane_node \<Rightarrow> host_terminal list \<Rightarrow> string list option \<Rightarrow> pane_node \<times> (string \<times> string) list" where
  "withReplacedHostTabs win uuid tree fresh hostTabs =
     (case hostTabs of
        None \<Rightarrow> (tree, [])
      | Some listed \<Rightarrow> fold (replace_step win uuid listed) fresh (tree, []))"

section \<open>Closing\<close>

text \<open>\<open>tabs.indexOf(pane.tabs[i])\<close> looks for the object itself, which is the tab with its id.\<close>

definition active_among :: "pane_leaf \<Rightarrow> terminal_instance list \<Rightarrow> int \<Rightarrow> int" where
  "active_among pane tabs otherwise =
     (case at_index (p_tabs pane) (p_activeTabIdx pane) of
        None \<Rightarrow> otherwise
      | Some a \<Rightarrow> (let kept = findIndex (\<lambda>t. t_id t = t_id a) tabs in if 0 \<le> kept then kept else otherwise))"

definition drop_from_pane :: "string set \<Rightarrow> pane_leaf \<Rightarrow> pane_node option \<Rightarrow> pane_node option" where
  "drop_from_pane ids pane next =
     (case next of
        None \<Rightarrow> None
      | Some tree \<Rightarrow>
          if \<not> (\<exists>t\<in>set (p_tabs pane). t_id t \<in> ids) then Some tree
          else let tabs = filter (\<lambda>t. t_id t \<notin> ids) (p_tabs pane) in
            if tabs = [] \<and> \<not> truthy (p_activeServiceName pane) then removePane tree (p_id pane)
            else Some (mapPane tree (p_id pane) (\<lambda>p. p\<lparr>p_tabs := tabs, p_activeTabIdx := active_among pane tabs (clampIdx (Some (p_activeTabIdx pane)) (length tabs))\<rparr>)))"

text \<open>The tree, and the new focus where it moves.\<close>

definition withoutHostTabs ::
  "pane_node \<Rightarrow> string option \<Rightarrow> string set \<Rightarrow> pane_node option \<times> string option option" where
  "withoutHostTabs tree focusedPaneId ids =
     (let next = fold (drop_from_pane ids) (collectPanes tree) (Some tree) in
      (next,
       case keep_truthy focusedPaneId of
         None \<Rightarrow> None
       | Some f \<Rightarrow> if next \<noteq> None \<and> findPane (the next) f \<noteq> None then None
                    else Some (map_option firstPaneId next)))"

section \<open>Following the machine's names and order\<close>

definition last_index :: "string list \<Rightarrow> string \<rightharpoonup> nat" where
  "last_index ids = map_of (rev (zip ids [0..<length ids]))"

definition host_rank :: "host_terminal list \<Rightarrow> string list \<Rightarrow> string \<rightharpoonup> nat" where
  "host_rank terminals order =
     fold (\<lambda>(t, i) rank. if rank (ht_id t) = None then rank(ht_id t \<mapsto> length order + i) else rank)
       (zip terminals [0..<length terminals]) (last_index order)"

text \<open>What has a rank, sorted by it into the slots it stood in; the rest stays put.\<close>

definition into_slots :: "('a \<Rightarrow> nat option) \<Rightarrow> 'a list \<Rightarrow> 'a list" where
  "into_slots rank xs =
     (let slots = filter (\<lambda>i. rank (xs ! i) \<noteq> None) [0..<length xs];
          ranked = sort_by (\<lambda>a b. int (the (rank a)) - int (the (rank b))) (map (nth xs) slots)
      in fold (\<lambda>(slot, x) ys. ys[slot := x]) (zip slots ranked) xs)"

definition host_of :: "host_terminal list \<Rightarrow> string \<rightharpoonup> host_terminal" where
  "host_of terminals = map_of (rev (map (\<lambda>h. (ht_id h, h)) terminals))"

definition named_tabs :: "bool \<Rightarrow> host_terminal list \<Rightarrow> string list \<Rightarrow> terminal_instance list \<Rightarrow> terminal_instance list" where
  "named_tabs win terminals order tabs =
     map (\<lambda>t. case host_of terminals (t_id t) of
            None \<Rightarrow> t | Some host \<Rightarrow> withHostSession win (withHostNames t host) host)
       (into_slots (\<lambda>t. host_rank terminals order (t_id t)) tabs)"

definition follow_step :: "bool \<Rightarrow> host_terminal list \<Rightarrow> string list \<Rightarrow> pane_leaf \<Rightarrow> pane_node \<Rightarrow> pane_node" where
  "follow_step win terminals order pane next =
     (let named = named_tabs win terminals order (p_tabs pane) in
      if named = p_tabs pane then next
      else mapPane next (p_id pane) (\<lambda>p. p\<lparr>p_tabs := named, p_activeTabIdx := active_among pane named (p_activeTabIdx p)\<rparr>))"

definition followHostTabs :: "bool \<Rightarrow> pane_node \<Rightarrow> host_terminal list \<Rightarrow> string list \<Rightarrow> pane_node" where
  "followHostTabs win tree terminals order = fold (follow_step win terminals order) (collectPanes tree) tree"

definition paneOrderFollowing :: "string list \<Rightarrow> string list \<Rightarrow> string list option" where
  "paneOrderFollowing paneIds order =
     (let rank = last_index order in
      if length (filter (\<lambda>i. rank i \<noteq> None) paneIds) < 2 then None
      else let next = into_slots rank paneIds in if next = paneIds then None else Some next)"

section \<open>Filling slots\<close>

lemma fold_update:
  "distinct slots \<Longrightarrow> \<forall>s\<in>set slots. s < length xs \<Longrightarrow> length vals = length slots \<Longrightarrow>
   length (fold (\<lambda>(slot, x) ys. ys[slot := x]) (zip slots vals) xs) = length xs \<and>
   map (nth (fold (\<lambda>(slot, x) ys. ys[slot := x]) (zip slots vals) xs)) slots = vals \<and>
   (\<forall>i. i \<notin> set slots \<longrightarrow> fold (\<lambda>(slot, x) ys. ys[slot := x]) (zip slots vals) xs ! i = xs ! i)"
proof (induction slots arbitrary: xs vals)
  case (Cons s slots)
  then obtain v vs where vals: "vals = v # vs" by (cases vals) auto
  show ?case using Cons.IH [of "xs[s := v]" vs] Cons.prems vals by auto
qed simp

lemma filter_nths_upt: "filter P xs = map (nth xs) (filter (\<lambda>i. P (xs ! i)) [0..<length xs])"
  by (metis (no_types, lifting) comp_apply filter_cong filter_map map_nth)

abbreviation rank_compare :: "('a \<Rightarrow> nat option) \<Rightarrow> 'a \<Rightarrow> 'a \<Rightarrow> int" where
  "rank_compare rank \<equiv> \<lambda>a b. int (the (rank a)) - int (the (rank b))"

lemma into_slots_spec:
  fixes rank :: "'a \<Rightarrow> nat option"
  defines "ranked \<equiv> \<lambda>x. rank x \<noteq> None"
  shows "length (into_slots rank xs) = length xs"
    and "filter ranked (into_slots rank xs) = sort_by (rank_compare rank) (filter ranked xs)"
    and "i < length xs \<Longrightarrow> \<not> ranked (xs ! i) \<Longrightarrow> into_slots rank xs ! i = xs ! i"
    and "mset (into_slots rank xs) = mset xs"
proof -
  define slots where "slots = filter (\<lambda>i. ranked (xs ! i)) [0..<length xs]"
  define vals where "vals = sort_by (rank_compare rank) (map (nth xs) slots)"
  have old: "map (nth xs) slots = filter ranked xs" unfolding slots_def by (rule filter_nths_upt [symmetric])
  have ys: "into_slots rank xs = fold (\<lambda>(slot, x) ys. ys[slot := x]) (zip slots vals) xs"
    by (simp add: into_slots_def Let_def slots_def vals_def ranked_def)
  have ok: "distinct slots" "\<forall>s\<in>set slots. s < length xs" by (auto simp: slots_def)
  have upd: "length (into_slots rank xs) = length xs" "map (nth (into_slots rank xs)) slots = vals"
      "\<forall>i. i \<notin> set slots \<longrightarrow> into_slots rank xs ! i = xs ! i"
    using fold_update [OF ok, of vals] unfolding ys by (simp_all add: vals_def)
  show "length (into_slots rank xs) = length xs" by (rule upd)
  have in_slots: "i \<in> set slots \<longleftrightarrow> i < length xs \<and> ranked (xs ! i)" for i by (simp add: slots_def)
  have vals: "vals = sort_by (rank_compare rank) (filter ranked xs)" by (simp add: vals_def old)
  have here: "ranked (into_slots rank xs ! i) \<longleftrightarrow> ranked (xs ! i)" if "i < length xs" for i
  proof (cases "i \<in> set slots")
    case True
    then have "into_slots rank xs ! i \<in> set vals" using upd(2) by (metis in_set_conv_nth length_map nth_map nth_mem)
    then show ?thesis using True by (simp add: vals in_slots)
  qed (use upd(3) in auto)
  then have same: "filter (\<lambda>i. ranked (into_slots rank xs ! i)) [0..<length xs] = slots"
    unfolding slots_def by (intro filter_cong) auto
  show ranked: "filter ranked (into_slots rank xs) = sort_by (rank_compare rank) (filter ranked xs)"
    unfolding filter_nths_upt [of ranked "into_slots rank xs"] upd(1) same upd(2) by (rule vals)
  show "into_slots rank xs ! i = xs ! i" if "i < length xs" "\<not> ranked (xs ! i)" for i
    using upd(3) that by (simp add: in_slots)
  then have "filter (\<lambda>x. \<not> ranked x) (into_slots rank xs) = filter (\<lambda>x. \<not> ranked x) xs"
    unfolding filter_nths_upt [of _ "into_slots rank xs"] filter_nths_upt [of _ xs] upd(1)
    by (auto simp: here intro!: map_cong filter_cong)
  then have "mset (filter ranked (into_slots rank xs)) + mset (filter (\<lambda>x. \<not> ranked x) (into_slots rank xs)) =
      mset (filter ranked xs) + mset (filter (\<lambda>x. \<not> ranked x) xs)" unfolding ranked mset_sort_by by simp
  then show "mset (into_slots rank xs) = mset xs" unfolding mset_filter by (simp flip: multiset_partition)
qed

lemma into_slots_sorted:
  assumes "sorted_wrt (\<lambda>a b. the (rank a) \<le> the (rank b)) (filter (\<lambda>x. rank x \<noteq> None) xs)"
  shows "into_slots rank xs = xs"
proof -
  define slots where "slots = filter (\<lambda>i. rank (xs ! i) \<noteq> None) [0..<length xs]"
  have old: "map (nth xs) slots = filter (\<lambda>x. rank x \<noteq> None) xs" unfolding slots_def by (rule filter_nths_upt [symmetric])
  have "sort_by (rank_compare rank) (map (nth xs) slots) = map (nth xs) slots"
    unfolding old using assms by (intro js_compare.sort_by_sorted [OF js_compare_rank]) (simp add: sorted_wrt_iff_nth_less)
  then have "into_slots rank xs = fold (\<lambda>(slot, x) ys. ys[slot := x]) (zip slots (map (nth xs) slots)) xs"
    by (simp add: into_slots_def Let_def slots_def)
  moreover have ok: "distinct slots" "\<forall>s\<in>set slots. s < length xs" by (auto simp: slots_def)
  ultimately have upd: "length (into_slots rank xs) = length xs" "map (nth (into_slots rank xs)) slots = map (nth xs) slots"
      "\<forall>i. i \<notin> set slots \<longrightarrow> into_slots rank xs ! i = xs ! i"
    using fold_update [OF ok, of "map (nth xs) slots"] by simp_all
  show ?thesis
  proof (rule nth_equalityI [OF upd(1)])
    show "into_slots rank xs ! i = xs ! i" if "i < length (into_slots rank xs)" for i
      using upd(3) upd(2) [unfolded map_eq_conv] by (cases "i \<in> set slots") blast+
  qed
qed

lemma into_slots_idem [simp]: "into_slots rank (into_slots rank xs) = into_slots rank xs"
proof (rule into_slots_sorted)
  have "sorted_wrt (\<lambda>a b. rank_compare rank a b \<le> 0) (filter (\<lambda>x. rank x \<noteq> None) (into_slots rank xs))"
    unfolding into_slots_spec(2) by (rule js_compare.sorted_sort_by [OF js_compare_rank])
  then show "sorted_wrt (\<lambda>a b. the (rank a) \<le> the (rank b)) (filter (\<lambda>x. rank x \<noteq> None) (into_slots rank xs))"
    by (simp add: sorted_wrt_iff_nth_less)
qed

lemma into_slots_map: "into_slots rank (map f xs) = map f (into_slots (\<lambda>x. rank (f x)) xs)"
proof -
  have upd: "fold (\<lambda>(slot, x) ys. ys[slot := x]) (zip slots (map f vals)) (map f ys) =
      map f (fold (\<lambda>(slot, x) ys. ys[slot := x]) (zip slots vals) ys)" for slots vals ys
  proof (induction slots arbitrary: vals ys)
    case (Cons s slots)
    then show ?case by (cases vals) (simp_all flip: map_update)
  qed simp
  define slots where "slots = filter (\<lambda>i. rank (f (xs ! i)) \<noteq> None) [0..<length xs]"
  have slots: "filter (\<lambda>i. rank (map f xs ! i) \<noteq> None) [0..<length xs] = slots"
    unfolding slots_def by (intro filter_cong) auto
  have vals: "map (nth (map f xs)) slots = map f (map (nth xs) slots)" by (simp add: slots_def)
  have sorted: "sort_by (rank_compare rank) (map f zs) = map f (sort_by (rank_compare (\<lambda>x. rank (f x))) zs)" for zs
    by (rule sort_by_map)
  show ?thesis
    unfolding into_slots_def Let_def length_map slots vals sorted upd unfolding slots_def ..
qed

section \<open>Names\<close>

text \<open>A tab that shows a title of its agent has a conversation that the title is of.\<close>

definition title_known :: "bool \<Rightarrow> terminal_instance \<Rightarrow> bool" where
  "title_known win t \<longleftrightarrow> (followsAgentTitle t \<and> keep_truthy (sessionTitle t) \<noteq> None \<longrightarrow> agentSessionOf win t \<noteq> None)"

definition named_as :: "host_terminal \<Rightarrow> terminal_instance \<Rightarrow> bool" where
  "named_as h t \<longleftrightarrow> (\<forall>l. ht_label h = Some l \<longrightarrow> terminalDisplayLabel t = l) \<and> pinned t = ht_pinned h \<and>
     keep_truthy (emoji t) = ht_emoji h"

definition well_listed :: "host_terminal \<Rightarrow> bool" where
  "well_listed h \<longleftrightarrow> isPeerName (ht_id h) \<and> keep_truthy (ht_label h) = ht_label h \<and> keep_truthy (ht_emoji h) = ht_emoji h"

lemma keep_optString: "keep_truthy (optString v) = optString v"
  by (auto simp: optString_def keep_truthy_def split: option.splits json.splits)

lemma parsed_well_listed: "parseHostTerminal v = Some h \<Longrightarrow> well_listed h"
  using keep_optString [of "jfield v ''label''"]
  by (cases "optString (jfield v ''label'')")
    (auto simp: parseHostTerminal_def well_listed_def keep_optString split: option.splits json.splits if_splits)

lemma hostTerminalsOf_ok: "h \<in> set (hostTerminalsOf v) \<Longrightarrow> well_listed h"
  by (auto simp: hostTerminalsOf_def in_map_filter parsed_well_listed split: option.splits json.splits)

lemma agentSessionOf_with [simp]: "agentSessionOf win (withAgentSession win t s) = Some s"
  by (simp add: withAgentSession_def agentSessionOf_def Let_def)

lemma session_known: "ht_session h \<noteq> None \<Longrightarrow> agentSessionOf win (withHostSession win t h) \<noteq> None"
  by (auto simp: withHostSession_def)

lemma session_kept [simp]: "agentSessionOf win (withHostNames t h) = agentSessionOf win t"
  by (simp add: withHostNames_def agentSessionOf_def Let_def)

lemma host_ids [simp]: "t_id (withHostSession win t h) = t_id t" "t_id (withHostNames t h) = t_id t"
  by (auto simp: withHostSession_def withAgentSession_def withHostNames_def Let_def split: option.splits)

lemma names_given: "well_listed h \<Longrightarrow> named_as h (withHostNames t h)"
  by (auto simp: named_as_def withHostNames_def well_listed_def Let_def terminalDisplayLabel_def followsAgentTitle_def
      split: option.splits)

lemma title_known_names: "title_known win t \<Longrightarrow> title_known win (withHostNames t h)"
  by (auto simp: title_known_def withHostNames_def Let_def agentSessionOf_def followsAgentTitle_def split: option.splits)

lemma session_named:
  assumes "title_known win t" "named_as h t"
  shows "named_as h (withHostSession win t h)" "title_known win (withHostSession win t h)"
proof -
  have "named_as h (withAgentSession win t s)" if "agentSessionOf win t = None" for s
    using assms that by (auto simp: named_as_def title_known_def withAgentSession_def Let_def terminalDisplayLabel_def followsAgentTitle_def
        split: option.splits)
  then show "named_as h (withHostSession win t h)" using assms by (auto simp: withHostSession_def split: option.splits)
  show "title_known win (withHostSession win t h)"
    using assms(1) by (auto simp: withHostSession_def title_known_def split: option.splits)
qed

lemma named_twice: "named_as h t \<Longrightarrow> withHostNames t h = t"
  by (auto simp: named_as_def withHostNames_def Let_def keep_truthy_def split: option.splits)

definition from_host :: "bool \<Rightarrow> host_terminal list \<Rightarrow> terminal_instance \<Rightarrow> terminal_instance" where
  "from_host win terminals t =
     (case host_of terminals (t_id t) of None \<Rightarrow> t | Some host \<Rightarrow> withHostSession win (withHostNames t host) host)"

lemma from_host_id [simp]: "t_id (from_host win terminals t) = t_id t"
  by (simp add: from_host_def split: option.splits)

lemma named_tabs_from:
  "named_tabs win terminals order tabs = map (from_host win terminals) (into_slots (\<lambda>t. host_rank terminals order (t_id t)) tabs)"
  by (simp add: named_tabs_def from_host_def)

lemma host_of_in: "host_of terminals i = Some h \<Longrightarrow> h \<in> set terminals \<and> ht_id h = i"
  by (auto simp: host_of_def dest!: map_of_SomeD)

lemma from_host_named:
  assumes "title_known win t" "\<forall>h\<in>set terminals. well_listed h"
  shows "title_known win (from_host win terminals t)" "host_of terminals (t_id t) = Some h \<Longrightarrow> named_as h (from_host win terminals t)"
    "from_host win terminals (from_host win terminals t) = from_host win terminals t"
proof -
  show "host_of terminals (t_id t) = Some h \<Longrightarrow> named_as h (from_host win terminals t)" for h
    using assms host_of_in by (auto simp: from_host_def intro!: session_named title_known_names names_given)
  then have named: "host_of terminals (t_id t) = Some h \<Longrightarrow> withHostNames (from_host win terminals t) h = from_host win terminals t" for h
    by (rule named_twice)
  show "title_known win (from_host win terminals t)"
    using assms host_of_in by (auto simp: from_host_def split: option.splits intro!: session_named title_known_names names_given)
  show "from_host win terminals (from_host win terminals t) = from_host win terminals t"
  proof (cases "host_of terminals (t_id t)")
    case (Some h)
    have "from_host win terminals (from_host win terminals t) = withHostSession win (from_host win terminals t) h"
      using named [OF Some] by (simp add: from_host_def [of _ _ "from_host win terminals t"] Some)
    then show ?thesis using session_known [of h win "withHostNames t h"] Some
      by (auto simp: from_host_def withHostSession_def split: option.splits)
  qed (simp add: from_host_def)
qed

section \<open>Order\<close>

lemma last_index_None [simp]: "last_index ids i = None \<longleftrightarrow> i \<notin> set ids"
  by (auto simp: last_index_def map_of_eq_None_iff simp flip: set_map)

lemma last_index_nth: "distinct ids \<Longrightarrow> k < length ids \<Longrightarrow> last_index ids (ids ! k) = Some k"
  by (auto simp: last_index_def in_set_zip simp flip: rev_map intro!: map_of_is_SomeI)

lemma host_rank_cases:
  "i \<in> set order \<Longrightarrow> host_rank terminals order i = last_index order i"
  "host_rank terminals order i = None \<longleftrightarrow> i \<notin> set order \<and> i \<notin> ht_id ` set terminals"
proof -
  have "(rank i \<noteq> None \<longrightarrow> fold (\<lambda>(t, k) rank. if rank (ht_id t) = None then rank(ht_id t \<mapsto> n + k) else rank) tks rank i = rank i) \<and>
     (fold (\<lambda>(t, k) rank. if rank (ht_id t) = None then rank(ht_id t \<mapsto> n + k) else rank) tks rank i = None \<longleftrightarrow>
       rank i = None \<and> i \<notin> ht_id ` fst ` set tks)" for rank :: "string \<rightharpoonup> nat" and tks n
  proof (induction tks arbitrary: rank)
    case (Cons tk tks)
    obtain t k where tk: "tk = (t, k)" by (cases tk)
    show ?case
      using Cons.IH [of "if rank (ht_id t) = None then rank(ht_id t \<mapsto> n + k) else rank"] by (auto simp: tk split: if_splits)
  qed simp
  note this [of "last_index order" "length order" "zip terminals [0..<length terminals]"]
  then show "i \<in> set order \<Longrightarrow> host_rank terminals order i = last_index order i"
    "host_rank terminals order i = None \<longleftrightarrow> i \<notin> set order \<and> i \<notin> ht_id ` set terminals"
    by (auto simp: host_rank_def simp flip: set_map)
qed

text \<open>Tabs sorted by the machine's order are the machine's order, held to the tabs there are.\<close>

lemma in_host_order:
  assumes "distinct order" "distinct ids"
  shows "filter (\<lambda>i. i \<in> set order) (into_slots (host_rank terminals order) ids) = filter (\<lambda>i. i \<in> set ids) order"
proof -
  let ?rank = "host_rank terminals order"
  let ?new = "into_slots ?rank ids"
  have same: "mset ?new = mset ids" by (rule into_slots_spec)
  have "sorted_wrt (\<lambda>a b. rank_compare ?rank a b \<le> 0) (filter (\<lambda>x. ?rank x \<noteq> None) ?new)"
    unfolding into_slots_spec(2) by (rule js_compare.sorted_sort_by [OF js_compare_rank])
  then have "sorted_wrt (\<lambda>a b. rank_compare ?rank a b \<le> 0) (filter (\<lambda>i. i \<in> set order) (filter (\<lambda>x. ?rank x \<noteq> None) ?new))"
    by (rule sorted_wrt_filter)
  moreover have "filter (\<lambda>i. i \<in> set order) (filter (\<lambda>x. ?rank x \<noteq> None) ?new) = filter (\<lambda>i. i \<in> set order) ?new"
    using host_rank_cases(2) [of terminals order] by (auto simp: filter_filter intro!: filter_cong)
  ultimately have "sorted_wrt (\<lambda>a b. rank_compare ?rank a b \<le> 0) (filter (\<lambda>i. i \<in> set order) ?new)" by simp
  then have "sorted_wrt (\<lambda>a b. the (last_index order a) \<le> the (last_index order b)) (filter (\<lambda>i. i \<in> set order) ?new)"
    by (rule sorted_wrt_mono_rel [rotated]) (auto simp: host_rank_cases(1))
  then have "sorted (map (\<lambda>i. the (last_index order i)) (filter (\<lambda>i. i \<in> set order) ?new))"
    by (simp add: sorted_wrt_map)
  moreover have index: "inj_on (\<lambda>i. the (last_index order i)) (set order)"
    using last_index_nth [OF assms(1)] by (auto simp: inj_on_def in_set_conv_nth)
  moreover have "map (\<lambda>i. the (last_index order i)) order = [0..<length order]"
    using last_index_nth [OF assms(1)] by (auto intro: nth_equalityI)
  then have "sorted (map (\<lambda>i. the (last_index order i)) (filter (\<lambda>i. i \<in> set ids) order))"
    by (metis sorted_filter sorted_upt)
  moreover have "distinct ?new" using same assms(2) by (metis mset_eq_imp_distinct_iff)
  moreover have "set ?new = set ids" using same by (rule mset_eq_setD)
  ultimately have "map (\<lambda>i. the (last_index order i)) (filter (\<lambda>i. i \<in> set order) ?new) =
      map (\<lambda>i. the (last_index order i)) (filter (\<lambda>i. i \<in> set ids) order)"
    using assms(1) by (intro sorted_distinct_set_unique) (auto simp: distinct_map intro: inj_on_subset)
  then show ?thesis by (rule map_inj_on) (use index in \<open>auto intro: inj_on_subset\<close>)
qed

lemma named_ids: "map t_id (named_tabs win terminals order tabs) = into_slots (host_rank terminals order) (map t_id tabs)"
  by (simp add: named_tabs_from into_slots_map comp_def)

lemma named_again:
  assumes "\<forall>t\<in>set tabs. title_known win t" "\<forall>h\<in>set terminals. well_listed h"
  shows "named_tabs win terminals order (named_tabs win terminals order tabs) = named_tabs win terminals order tabs"
proof -
  have "set (into_slots (\<lambda>t. host_rank terminals order (t_id t)) tabs) = set tabs"
    by (rule mset_eq_setD) (rule into_slots_spec)
  then show ?thesis
    using assms by (simp add: named_tabs_from into_slots_map comp_def from_host_named(3))
qed

section \<open>A pane that follows\<close>

definition active_id :: "pane_leaf \<Rightarrow> string option" where
  "active_id p = map_option t_id (at_index (p_tabs p) (p_activeTabIdx p))"

lemma active_found:
  assumes "at_index tabs i = Some a" "distinct (map t_id tabs')" "t_id a \<in> t_id ` set tabs'"
  shows "0 \<le> findIndex (\<lambda>t. t_id t = t_id a) tabs'"
    "map_option t_id (at_index tabs' (findIndex (\<lambda>t. t_id t = t_id a) tabs')) = Some (t_id a)"
proof -
  show k: "0 \<le> findIndex (\<lambda>t. t_id t = t_id a) tabs'"
    using assms(3) findIndex_neg [of "\<lambda>t. t_id t = t_id a" tabs'] by force
  with findIndex_bounds [of "\<lambda>t. t_id t = t_id a" tabs'] findIndex_nth [OF k]
  show "map_option t_id (at_index tabs' (findIndex (\<lambda>t. t_id t = t_id a) tabs')) = Some (t_id a)"
    by (simp add: at_index_def)
qed

definition follow_pane :: "bool \<Rightarrow> host_terminal list \<Rightarrow> string list \<Rightarrow> pane_leaf \<Rightarrow> pane_leaf" where
  "follow_pane win terminals order pane =
     (let named = named_tabs win terminals order (p_tabs pane)
      in if named = p_tabs pane then pane
         else pane\<lparr>p_tabs := named, p_activeTabIdx := active_among pane named (p_activeTabIdx pane)\<rparr>)"

lemma follow_pane_id [simp]: "p_id (follow_pane win terminals order p) = p_id p"
  and follow_pane_tabs [simp]: "p_tabs (follow_pane win terminals order p) = named_tabs win terminals order (p_tabs p)"
  by (simp_all add: follow_pane_def Let_def)

lemma follow_pane_active:
  assumes "distinct (map t_id (p_tabs p))"
  shows "active_id (follow_pane win terminals order p) = active_id p"
proof (cases "named_tabs win terminals order (p_tabs p) = p_tabs p")
  case False
  have same: "mset (map t_id (named_tabs win terminals order (p_tabs p))) = mset (map t_id (p_tabs p))"
    unfolding named_ids by (rule into_slots_spec)
  then have dist: "distinct (map t_id (named_tabs win terminals order (p_tabs p)))"
    using assms by (metis mset_eq_imp_distinct_iff)
  have len: "length (named_tabs win terminals order (p_tabs p)) = length (p_tabs p)"
    using mset_eq_length [OF same] by simp
  show ?thesis
  proof (cases "at_index (p_tabs p) (p_activeTabIdx p)")
    case (Some a)
    then have "t_id a \<in> t_id ` set (named_tabs win terminals order (p_tabs p))"
      using mset_eq_setD [OF same] at_index_in_set [OF Some] by auto
    from active_found [OF Some dist this] False Some show ?thesis
      by (simp add: active_id_def follow_pane_def active_among_def Let_def)
  next
    case None
    then show ?thesis using False len by (auto simp: active_id_def follow_pane_def active_among_def at_index_def split: if_splits)
  qed
qed (simp add: follow_pane_def)

lemma only_pane:
  "distinct (pane_ids next) \<Longrightarrow> pane \<in> set (collectPanes next) \<Longrightarrow> p \<in> set (collectPanes next) \<Longrightarrow> p_id p = p_id pane \<Longrightarrow> p = pane"
  by (auto simp: distinct_map dest: inj_onD)

lemma follow_step_panes:
  assumes "distinct (pane_ids next)" "pane \<in> set (collectPanes next)"
  shows "collectPanes (follow_step win terminals order pane next) =
    map (\<lambda>p. if p_id p = p_id pane then follow_pane win terminals order p else p) (collectPanes next)"
proof (cases "named_tabs win terminals order (p_tabs pane) = p_tabs pane")
  case True
  have "follow_pane win terminals order p = p" if "p \<in> set (collectPanes next)" "p_id p = p_id pane" for p
    using only_pane [OF assms that] True by (simp add: follow_pane_def)
  then show ?thesis using True by (auto simp: follow_step_def intro!: map_idI [symmetric])
next
  case False
  have "p\<lparr>p_tabs := named_tabs win terminals order (p_tabs pane),
      p_activeTabIdx := active_among pane (named_tabs win terminals order (p_tabs pane)) (p_activeTabIdx p)\<rparr> =
      follow_pane win terminals order p" if "p \<in> set (collectPanes next)" "p_id p = p_id pane" for p
    using only_pane [OF assms that] False by (simp add: follow_pane_def Let_def)
  then show ?thesis using False by (auto simp: follow_step_def Let_def collectPanes_mapPane)
qed

lemma follow_all_panes:
  "collectPanes next = done_panes @ todo \<Longrightarrow> distinct (map p_id (done_panes @ todo)) \<Longrightarrow> ratios_ok next \<Longrightarrow>
   collectPanes (fold (follow_step win terminals order) todo next) = done_panes @ map (follow_pane win terminals order) todo \<and>
   ratios_ok (fold (follow_step win terminals order) todo next)"
proof (induction todo arbitrary: done_panes "next")
  case (Cons p todo)
  have "p_id p \<notin> p_id ` (set done_panes \<union> set todo)" using Cons.prems(2) by auto
  then have "p_id q \<noteq> p_id p" if "q \<in> set done_panes \<union> set todo" for q using that by (metis imageI)
  then have "map (\<lambda>q. if p_id q = p_id p then follow_pane win terminals order q else q) done_panes = done_panes"
    "map (\<lambda>q. if p_id q = p_id p then follow_pane win terminals order q else q) todo = todo"
    by (auto intro!: map_idI)
  moreover have "collectPanes (follow_step win terminals order p next) =
      map (\<lambda>q. if p_id q = p_id p then follow_pane win terminals order q else q) (done_panes @ p # todo)"
    unfolding Cons.prems(1) [symmetric]
    by (rule follow_step_panes) (use Cons.prems(2) in \<open>simp_all add: Cons.prems(1)\<close>)
  ultimately have "collectPanes (follow_step win terminals order p next) = (done_panes @ [follow_pane win terminals order p]) @ todo"
    by simp
  moreover have "ratios_ok (follow_step win terminals order p next)"
    using Cons.prems(3) by (simp add: follow_step_def Let_def ratios_ok_mapPane)
  ultimately show ?case
    using Cons.IH [of "follow_step win terminals order p next" "done_panes @ [follow_pane win terminals order p]"] Cons.prems(2)
    by auto
qed simp

lemma follow_panes:
  assumes "wf_tree tree"
  shows "collectPanes (followHostTabs win tree terminals order) = map (follow_pane win terminals order) (collectPanes tree)"
    "wf_tree (followHostTabs win tree terminals order)"
  using follow_all_panes [of tree "[]" "collectPanes tree" win terminals order] assms
  by (simp_all add: followHostTabs_def wf_tree_def comp_def)

section \<open>The tabs follow the machine\<close>

lemma named_tabs_slots:
  "mset (map t_id (named_tabs win terminals order tabs)) = mset (map t_id tabs)"
  "length (named_tabs win terminals order tabs) = length tabs"
  "k < length tabs \<Longrightarrow> t_id (tabs ! k) \<notin> set order \<union> ht_id ` set terminals \<Longrightarrow> named_tabs win terminals order tabs ! k = tabs ! k"
proof -
  show "mset (map t_id (named_tabs win terminals order tabs)) = mset (map t_id tabs)"
    unfolding named_ids by (rule into_slots_spec)
  show "length (named_tabs win terminals order tabs) = length tabs" by (simp add: named_tabs_from into_slots_spec(1))
  assume k: "k < length tabs" "t_id (tabs ! k) \<notin> set order \<union> ht_id ` set terminals"
  then have "host_rank terminals order (t_id (tabs ! k)) = None" by (simp add: host_rank_cases(2))
  moreover have "host_of terminals (t_id (tabs ! k)) = None" using k host_of_in by (metis UnCI imageI option.exhaust)
  ultimately show "named_tabs win terminals order tabs ! k = tabs ! k"
    using k into_slots_spec(1) [of "\<lambda>t. host_rank terminals order (t_id t)" tabs]
      into_slots_spec(3) [of k tabs "\<lambda>t. host_rank terminals order (t_id t)"]
    by (simp add: named_tabs_from from_host_def)
qed

lemma follow_twice:
  assumes "\<forall>t\<in>set (p_tabs p). title_known win t" "\<forall>h\<in>set terminals. well_listed h"
  shows "follow_pane win terminals order (follow_pane win terminals order p) = follow_pane win terminals order p"
  using named_again [OF assms] by (simp add: follow_pane_def [of _ _ _ "follow_pane win terminals order p"])

lemma fold_idle: "(\<And>p. p \<in> set ps \<Longrightarrow> f p x = x) \<Longrightarrow> fold f ps x = x"
  by (induction ps) auto

lemma tabs_in_panes: "t \<in> set (collectTerminals node) \<longleftrightarrow> (\<exists>p\<in>set (collectPanes node). t \<in> set (p_tabs p))"
  by (auto simp: collectTerminals_panes)

text \<open>What the machine's listing asks of the tabs of a pane: the same tabs, those the machine lists in its
  order, the others where they were, the same one in view.\<close>

definition pane_follows :: "string list \<Rightarrow> host_terminal list \<Rightarrow> pane_leaf \<Rightarrow> pane_leaf \<Rightarrow> bool" where
  "pane_follows order terminals p q \<longleftrightarrow>
     p_id q = p_id p \<and> active_id q = active_id p \<and>
     mset (map t_id (p_tabs q)) = mset (map t_id (p_tabs p)) \<and>
     filter (\<lambda>i. i \<in> set order) (map t_id (p_tabs q)) = filter (\<lambda>i. i \<in> set (map t_id (p_tabs p))) order \<and>
     (\<forall>k<length (p_tabs p). t_id (p_tabs p ! k) \<notin> set order \<union> ht_id ` set terminals \<longrightarrow> p_tabs q ! k = p_tabs p ! k)"

lemma follow_pane_follows:
  assumes "distinct (map t_id (p_tabs p))" "distinct order"
  shows "pane_follows order terminals p (follow_pane win terminals order p)"
  using assms follow_pane_active [of p win terminals order] in_host_order [of order "map t_id (p_tabs p)" terminals]
  by (simp add: pane_follows_def named_tabs_slots(2,3) named_ids into_slots_spec(4))

text \<open>Property C26: the tabs of a paired machine's project come in line with what that machine lists, whatever
  JSON it answers. Every pane keeps its tabs and the one in view; the tabs the machine lists stand in the
  machine's order, in the places they held together, and all others stay where they are; each listed tab takes
  the machine's name, pin and icon; and following the same listing again changes nothing. No tab shows a title
  of an agent whose conversation is unknown.\<close>

theorem tabs_follow_host:
  assumes "wf_tree tree" "\<forall>p\<in>set (collectPanes tree). distinct (map t_id (p_tabs p))" "distinct order"
    "\<forall>t\<in>set (collectTerminals tree). title_known win t"
  shows "let terminals = hostTerminalsOf listed; next = followHostTabs win tree terminals order in
    wf_tree next \<and> list_all2 (pane_follows order terminals) (collectPanes tree) (collectPanes next) \<and>
    (\<forall>t\<in>set (collectTerminals next). \<forall>h. host_of terminals (t_id t) = Some h \<longrightarrow> named_as h t) \<and>
    followHostTabs win next terminals order = next"
proof -
  let ?terminals = "hostTerminalsOf listed"
  let ?next = "followHostTabs win tree ?terminals order"
  note panes = follow_panes [OF assms(1), of win ?terminals order]
  have listed: "\<forall>h\<in>set ?terminals. well_listed h" using hostTerminalsOf_ok by blast
  have known: "\<forall>t\<in>set (p_tabs p). title_known win t" if "p \<in> set (collectPanes tree)" for p
    using assms(4) that by (auto simp: tabs_in_panes)
  have "list_all2 (pane_follows order ?terminals) (collectPanes tree) (collectPanes ?next)"
    using assms(2,3) by (auto simp: panes(1) list_all2_conv_all_nth intro: follow_pane_follows)
  moreover have "named_as h t" if t: "t \<in> set (collectTerminals ?next)" and h: "host_of ?terminals (t_id t) = Some h" for t h
  proof -
    obtain p where p: "p \<in> set (collectPanes tree)" "t \<in> set (named_tabs win ?terminals order (p_tabs p))"
      using t by (auto simp: tabs_in_panes panes(1))
    then obtain t' where "t' \<in> set (p_tabs p)" "t = from_host win ?terminals t'"
      using mset_eq_setD [OF into_slots_spec(4) [of "\<lambda>t. host_rank ?terminals order (t_id t)" "p_tabs p"]]
      by (auto simp: named_tabs_from)
    then show ?thesis using from_host_named(2) [of win t' ?terminals h] known [OF p(1)] listed h by auto
  qed
  moreover have "followHostTabs win ?next ?terminals order = ?next"
  proof -
    have "follow_step win ?terminals order q ?next = ?next" if q: "q \<in> set (collectPanes ?next)" for q
    proof -
      obtain p where "p \<in> set (collectPanes tree)" "q = follow_pane win ?terminals order p" using q by (auto simp: panes(1))
      then have "named_tabs win ?terminals order (p_tabs q) = p_tabs q" using named_again [OF known listed] by auto
      then show ?thesis by (simp add: follow_step_def)
    qed
    then show ?thesis unfolding followHostTabs_def [of win ?next] by (intro fold_idle)
  qed
  ultimately show ?thesis using panes(2) by (auto simp: Let_def)
qed

definition shown_pane :: pane_leaf where
  "shown_pane = makePaneLeaf ''p'' [bare_tab ''peer-00ff12ab-1'' ''one'', bare_tab ''7'' ''here'', bare_tab ''peer-00ff12ab-2'' ''two''] 0"

definition host_answer :: json where
  "host_answer = JArr [JObj [(''id'', JStr ''peer-00ff12ab-2''), (''label'', JStr ''Build'')], JObj [(''id'', JStr ''peer-00ff12ab-1'')]]"

lemma shown_pane_simps:
  "wf_tree (Leaf shown_pane)" "collectPanes (Leaf shown_pane) = [shown_pane]" "distinct (map t_id (p_tabs shown_pane))"
  "\<forall>t\<in>set (collectTerminals (Leaf shown_pane)). title_known win t"
  by (auto simp: shown_pane_def makePaneLeaf_def wf_tree_def title_known_def bare_tab_def)

theorem tabs_follow_host_witness:
  "let order = [''peer-00ff12ab-2'', ''peer-00ff12ab-1'']; next = followHostTabs False (Leaf shown_pane) (hostTerminalsOf (Some host_answer)) order
   in wf_tree next \<and> filter (\<lambda>i. i \<in> set order) (map t_id (collectTerminals next)) = order"
proof -
  let ?order = "[''peer-00ff12ab-2'', ''peer-00ff12ab-1'']"
  let ?next = "followHostTabs False (Leaf shown_pane) (hostTerminalsOf (Some host_answer)) ?order"
  have "wf_tree ?next \<and> list_all2 (pane_follows ?order (hostTerminalsOf (Some host_answer))) [shown_pane] (collectPanes ?next)"
    using tabs_follow_host [of "Leaf shown_pane" ?order False "Some host_answer"] by (simp add: shown_pane_simps Let_def)
  then obtain q where q: "wf_tree ?next" "collectPanes ?next = [q]" "pane_follows ?order (hostTerminalsOf (Some host_answer)) shown_pane q"
    by (auto simp: list_all2_Cons1)
  then have "filter (\<lambda>i. i \<in> set ?order) (map t_id (collectTerminals ?next)) = filter (\<lambda>i. i \<in> set (map t_id (p_tabs shown_pane))) ?order"
    by (simp add: collectTerminals_panes pane_follows_def)
  then show ?thesis using q(1) by (simp add: shown_pane_def makePaneLeaf_def bare_tab_def)
qed

end
