(* ===== verification/PeerSync.thy ===== *)
theory PeerSync
  imports HostTabs
begin

text \<open>
  \<open>desktop/frontend/src/hooks/terminals/usePeerTerminalSync.ts\<close>, with \<open>peer/hostFollows.ts\<close>: a project of a
  paired machine shows the terminals that run there. A sync asks for the machine's listing, opens what is new,
  closes what the machine closed, asks about tabs that a restart of the machine left behind, and brings the
  rest in line. Between two awaits anything may happen: the events of \<open>sync_step\<close> are the answers, the
  timer, starts sent from here, and edits of the tree by the rest of the application.
\<close>

section \<open>Which machines keep their tabs\<close>

definition noteHostFollows :: "string \<Rightarrow> bool \<Rightarrow> (string \<rightharpoonup> bool) \<Rightarrow> (string \<rightharpoonup> bool)" where
  "noteHostFollows project follow follows =
     (case peerSlugOf project of None \<Rightarrow> follows | Some slug \<Rightarrow> if slug = [] then follows else follows(slug \<mapsto> follow))"

definition knownHostFollows :: "string \<Rightarrow> (string \<rightharpoonup> bool) \<Rightarrow> bool option" where
  "knownHostFollows project follows =
     (case peerSlugOf project of None \<Rightarrow> None | Some slug \<Rightarrow> if slug = [] then None else follows slug)"

definition hostFollows :: "string \<Rightarrow> (string \<rightharpoonup> bool) \<Rightarrow> bool" where
  "hostFollows project follows = (knownHostFollows project follows = Some True)"

section \<open>A sync\<close>

text \<open>Where the sync is: not running, or waiting for the listing, for the answers about tabs a restart left,
  or for its own continuation.\<close>

datatype sync_wait = Idle | ForListing | ForAlive host_listing "string list" | ForFollow host_listing

text \<open>What is told to other modules: a tab took another terminal, a tab was opened by another machine, the
  history keys of tabs that closed.\<close>

datatype sync_told = Swapped string string | OpenedElsewhere string | TerminalsClosed "string option list"

record sync_state =
  sy_tree :: "pane_node option"
  sy_focused :: "string option"
  sy_terms :: peer_terms
  sy_follows :: "string \<rightharpoonup> bool"
  sy_seen :: host_tabs_seen
  sy_wait :: sync_wait
  sy_rerun :: bool
  sy_retry :: bool
  sy_disposed :: bool
  sy_told :: "sync_told list"

text \<open>What does not change: this machine's platform, the keys of new tabs, the project and its machine.\<close>

record sync_place =
  pl_win :: bool
  pl_uuid :: "string \<Rightarrow> string"
  pl_project :: string
  pl_slug :: string

definition open_ids :: "sync_state \<Rightarrow> string list" where
  "open_ids s = (case sy_tree s of None \<Rightarrow> [] | Some t \<Rightarrow> map t_id (collectTerminals t))"

definition applyTree :: "pane_node option \<Rightarrow> string option option \<Rightarrow> sync_state \<Rightarrow> sync_state" where
  "applyTree tree focus s =
     s\<lparr>sy_tree := tree, sy_focused := (case focus of None \<Rightarrow> sy_focused s | Some f \<Rightarrow> f)\<rparr>"

definition replace_tabs :: "sync_place \<Rightarrow> host_listing \<Rightarrow> host_terminal list \<Rightarrow> sync_state \<Rightarrow> host_terminal list \<times> sync_state" where
  "replace_tabs e listing fresh s =
     (case sy_tree s of
        None \<Rightarrow> (fresh, s)
      | Some tree \<Rightarrow>
          (case withReplacedHostTabs (pl_win e) (pl_uuid e) tree fresh (hl_tabs listing) of
             (next, replaced) \<Rightarrow>
               if replaced = [] then (fresh, s)
               else (filter (\<lambda>t. ht_id t \<notin> snd ` set replaced) fresh,
                 (applyTree (Some next) None s)
                   \<lparr>sy_terms := fold (\<lambda>(_, to_id). claimPeerTerminal to_id) replaced (sy_terms s),
                    sy_told := sy_told s @ map (\<lambda>(from_id, to_id). Swapped from_id to_id) replaced\<rparr>)))"

definition adopt :: "sync_place \<Rightarrow> string \<Rightarrow> string list \<Rightarrow> host_listing \<Rightarrow> sync_state \<Rightarrow> sync_state" where
  "adopt e fresh_pane pending listing s =
     (case unclaimedHostTerminals (hl_terminals listing) (open_ids s @ pending) (sy_terms s) of
        (unclaimed, terms) \<Rightarrow>
          (case replace_tabs e listing unclaimed (s\<lparr>sy_terms := terms\<rparr>) of
             (fresh, s) \<Rightarrow>
               if fresh = [] then s
               else (case withHostTabs (pl_win e) (pl_uuid e) fresh_pane (sy_tree s) (sy_focused s) fresh of
                 (next, focus) \<Rightarrow>
                   (applyTree (Some next) (map_option Some focus) s)
                     \<lparr>sy_terms := fold (\<lambda>t. claimPeerTerminal (ht_id t)) fresh (sy_terms s),
                      sy_told := sy_told s @ map (\<lambda>t. OpenedElsewhere (ht_id t)) fresh\<rparr>)))"

definition drop_tabs :: "string list \<Rightarrow> sync_state \<Rightarrow> sync_state" where
  "drop_tabs gone s =
     (case sy_tree s of
        None \<Rightarrow> s
      | Some tree \<Rightarrow>
          if gone = [] then s
          else (case withoutHostTabs tree (sy_focused s) (set gone) of
            (next, focus) \<Rightarrow>
              (applyTree next focus s)
                \<lparr>sy_terms := fold releasePeerTerminal gone (sy_terms s),
                 sy_told := sy_told s @
                   [TerminalsClosed (map historyKey (filter (\<lambda>t. t_id t \<in> set gone) (collectTerminals tree)))]\<rparr>))"

definition dropClosed :: "host_listing \<Rightarrow> sync_state \<Rightarrow> sync_state" where
  "dropClosed listing s =
     (if sy_tree s = None then s
      else case hostClosedTabs (sy_seen s) listing (open_ids s) of
        (gone, seen) \<Rightarrow> drop_tabs gone (s\<lparr>sy_seen := seen\<rparr>))"

definition left_by_restart :: "string option \<Rightarrow> host_listing \<Rightarrow> sync_state \<Rightarrow> string list" where
  "left_by_restart previousRun listing s =
     (if sy_tree s = None then []
      else case tabsLeftByRestart previousRun listing (open_ids s) of None \<Rightarrow> [] | Some left \<Rightarrow> left)"

definition follow :: "sync_place \<Rightarrow> host_listing \<Rightarrow> sync_state \<Rightarrow> sync_state" where
  "follow e listing s =
     (case sy_tree s of
        None \<Rightarrow> s
      | Some tree \<Rightarrow>
          if \<not> hl_follow listing then s
          else let hostTabs = hostTerminalsOf (hl_terminals listing);
                   order = (case hl_tabs listing of Some tabs \<Rightarrow> tabs | None \<Rightarrow> map ht_id hostTabs);
                   next = followHostTabs (pl_win e) tree hostTabs order
               in if next = tree then s else applyTree (Some next) None s)"

definition sync :: "sync_state \<Rightarrow> sync_state" where
  "sync s = (if sy_wait s \<noteq> Idle then s\<lparr>sy_rerun := True\<rparr> else s\<lparr>sy_wait := ForListing\<rparr>)"

definition finish :: "sync_state \<Rightarrow> sync_state" where
  "finish s =
     (let s = s\<lparr>sy_wait := Idle\<rparr>
      in if sy_rerun s \<and> \<not> sy_disposed s then sync (s\<lparr>sy_rerun := False\<rparr>) else s)"

text \<open>The listing came: the answer (\<^term>\<open>None\<close> when the call failed), and from outside the id a new pane gets
  and the tabs whose close can still be undone.\<close>

definition on_listed :: "sync_place \<Rightarrow> string \<Rightarrow> string list \<Rightarrow> json option \<Rightarrow> sync_state \<Rightarrow> sync_state" where
  "on_listed e fresh_pane pending answer s =
     (case answer of
        None \<Rightarrow> finish s
      | Some v \<Rightarrow>
          if sy_disposed s \<or> v = JNull then finish s
          else if isPeerStartInFlight (pl_slug e) (sy_terms s) then finish (s\<lparr>sy_retry := True\<rparr>)
          else let listing = parseHostListing v;
                   previousRun = seen_run (sy_seen s);
                   s = s\<lparr>sy_follows := noteHostFollows (pl_project e) (hl_follow listing) (sy_follows s)\<rparr>;
                   s = dropClosed listing (adopt e fresh_pane pending listing s);
                   left = left_by_restart previousRun listing s
               in s\<lparr>sy_wait := (if left = [] then ForFollow listing else ForAlive listing left)\<rparr>)"

definition on_alive :: "host_listing \<Rightarrow> string list \<Rightarrow> bool list \<Rightarrow> sync_state \<Rightarrow> sync_state" where
  "on_alive listing left alive s =
     (let s = s\<lparr>sy_wait := ForFollow listing\<rparr>
      in if sy_disposed s then s else drop_tabs (map fst (filter (\<lambda>(_, a). \<not> a) (zip left alive))) s)"

definition on_follow :: "sync_place \<Rightarrow> host_listing \<Rightarrow> sync_state \<Rightarrow> sync_state" where
  "on_follow e listing s = finish (if sy_disposed s then s else follow e listing s)"

definition sync_start :: "pane_node option \<Rightarrow> string option \<Rightarrow> peer_terms \<Rightarrow> (string \<rightharpoonup> bool) \<Rightarrow> sync_state" where
  "sync_start tree focused terms follows =
     \<lparr>sy_tree = tree, sy_focused = focused, sy_terms = terms, sy_follows = follows,
      sy_seen = \<lparr>seen_run = None, seen_ids = {}\<rparr>, sy_wait = ForListing, sy_rerun = False, sy_retry = False,
      sy_disposed = False, sy_told = []\<rparr>"

section \<open>Events\<close>

datatype sync_event =
    Wake
  | RetryFired
  | Listed string "string list" "json option"
  | Answered "bool list"
  | Resumed
  | StartSent
  | StartDone "string option"
  | Edited "pane_node option" "string option"
  | Disposed

text \<open>A start sent to the machine answers with the id it gave the new terminal, or fails.\<close>

definition start_done :: "sync_place \<Rightarrow> string option \<Rightarrow> peer_terms \<Rightarrow> peer_terms" where
  "start_done e answer terms =
     (let terms = endPeerStart (pl_slug e) terms
      in case answer of None \<Rightarrow> terms | Some i \<Rightarrow> claimPeerTerminal (prefixName (pl_slug e) i) terms)"

inductive sync_step :: "sync_place \<Rightarrow> sync_state \<Rightarrow> sync_event \<Rightarrow> sync_state \<Rightarrow> bool" for e where
  wake: "\<not> sy_disposed s \<Longrightarrow> sync_step e s Wake (sync s)"
| retry: "sy_retry s \<Longrightarrow> sync_step e s RetryFired (sync (s\<lparr>sy_retry := False\<rparr>))"
| listed: "sy_wait s = ForListing \<Longrightarrow> sync_step e s (Listed fresh_pane pending answer) (on_listed e fresh_pane pending answer s)"
| answered: "sy_wait s = ForAlive listing left \<Longrightarrow> length alive = length left \<Longrightarrow>
    sync_step e s (Answered alive) (on_alive listing left alive s)"
| resumed: "sy_wait s = ForFollow listing \<Longrightarrow> sync_step e s Resumed (on_follow e listing s)"
| start_sent: "sync_step e s StartSent (s\<lparr>sy_terms := beginPeerStart (pl_slug e) (sy_terms s)\<rparr>)"
| started: "isPeerStartInFlight (pl_slug e) (sy_terms s) \<Longrightarrow>
    sync_step e s (StartDone answer) (s\<lparr>sy_terms := start_done e answer (sy_terms s)\<rparr>)"
| edited: "sync_step e s (Edited tree focused) (s\<lparr>sy_tree := tree, sy_focused := focused\<rparr>)"
| disposed: "sync_step e s Disposed (s\<lparr>sy_disposed := True, sy_retry := False\<rparr>)"

code_pred (modes: i \<Rightarrow> i \<Rightarrow> i \<Rightarrow> o \<Rightarrow> bool) sync_step .

inductive_cases sync_step_cases: "sync_step e s ev s'"

section \<open>The tabs that are open\<close>

abbreviation tab_ids :: "pane_node \<Rightarrow> string list" where
  "tab_ids node \<equiv> map t_id (collectTerminals node)"

lemma host_tab_id [simp]: "t_id (host_tab win uuid tree t) = ht_id t"
  by (simp add: host_tab_def makeTerminal_def bare_tab_def Let_def)

lemma tabs_appended:
  "distinct (map p_id ps) \<Longrightarrow> i \<in> p_id ` set ps \<Longrightarrow>
   mset (concat (map p_tabs (map (\<lambda>p. if p_id p = i then p\<lparr>p_tabs := p_tabs p @ added\<rparr> else p) ps))) =
   mset (concat (map p_tabs ps)) + mset added"
proof (induction ps)
  case (Cons p ps)
  show ?case
  proof (cases "p_id p = i")
    case True
    then have "map (\<lambda>p. if p_id p = i then p\<lparr>p_tabs := p_tabs p @ added\<rparr> else p) ps = ps"
      using Cons.prems(1) by (intro map_idI) (metis (no_types, lifting) distinct.simps(2) image_eqI list.simps(9) set_map)
    then show ?thesis using True by simp
  next
    case False
    then show ?thesis using Cons by simp
  qed
qed simp

lemma host_tabs_added:
  "wf_tree next \<Longrightarrow> paneId \<in> p_id ` set (collectPanes next) \<Longrightarrow>
   wf_tree (fold (add_host_tab win uuid paneId) ts next) \<and>
   pane_ids (fold (add_host_tab win uuid paneId) ts next) = pane_ids next \<and>
   mset (tab_ids (fold (add_host_tab win uuid paneId) ts next)) = mset (tab_ids next) + mset (map ht_id ts) \<and>
   (\<forall>P. (\<forall>t\<in>set ts. \<not> P (ht_id t)) \<longrightarrow>
      filter P (tab_ids (fold (add_host_tab win uuid paneId) ts next)) = filter P (tab_ids next))"
proof (induction ts arbitrary: "next")
  case (Cons t ts)
  let ?next = "add_host_tab win uuid paneId t next"
  have panes: "collectPanes ?next = map (\<lambda>p. if p_id p = paneId then p\<lparr>p_tabs := p_tabs p @ [host_tab win uuid next t]\<rparr> else p) (collectPanes next)"
    by (simp add: add_host_tab_def collectPanes_mapPane)
  have ids: "pane_ids ?next = pane_ids next" by (auto simp: panes)
  have wf: "wf_tree ?next" unfolding add_host_tab_def using Cons.prems(1) by (rule wf_tree_mapPane) simp
  have "mset (collectTerminals ?next) = mset (collectTerminals next) + {#host_tab win uuid next t#}"
    unfolding collectTerminals_panes panes using Cons.prems by (subst tabs_appended) (auto simp: wf_tree_def)
  then have "mset (tab_ids ?next) = mset (tab_ids next) + {#ht_id t#}" by (simp add: mset_map)
  moreover have "paneId \<in> p_id ` set (collectPanes ?next)" using Cons.prems(2) ids by (metis set_map)
  moreover have "filter P (tab_ids ?next) = filter P (tab_ids next)" if "\<not> P (ht_id t)" for P
  proof -
    have "filter P (map t_id (concat (map p_tabs (map (\<lambda>p. if p_id p = paneId then p\<lparr>p_tabs := p_tabs p @ [host_tab win uuid next t]\<rparr> else p) ps)))) =
        filter P (map t_id (concat (map p_tabs ps)))" for ps
      using that by (induction ps) auto
    then show ?thesis unfolding collectTerminals_panes panes .
  qed
  ultimately show ?case using Cons.IH [OF wf] ids by simp
qed simp

definition tree_ids :: "pane_node option \<Rightarrow> string list" where
  "tree_ids tree = (case tree of None \<Rightarrow> [] | Some t \<Rightarrow> tab_ids t)"

definition tree_ok :: "pane_node option \<Rightarrow> string option \<Rightarrow> bool" where
  "tree_ok tree focused =
     (case tree of
        None \<Rightarrow> keep_truthy focused = None
      | Some t \<Rightarrow> wf_tree t \<and> distinct (tab_ids t) \<and> (\<forall>f. keep_truthy focused = Some f \<longrightarrow> f \<in> p_id ` set (collectPanes t)))"

lemma host_tabs_opened:
  assumes "tree_ok tree focused" "distinct (map ht_id ts)" "ht_id ` set ts \<inter> set (tree_ids tree) = {}"
    "withHostTabs win uuid fresh tree focused ts = (next, focus)"
  shows "tree_ok (Some next) (case focus of None \<Rightarrow> focused | Some f \<Rightarrow> Some f)"
    "mset (tab_ids next) = mset (tree_ids tree) + mset (map ht_id ts)"
    "filter (\<lambda>i. i \<notin> ht_id ` set ts) (tab_ids next) = tree_ids tree"
proof -
  define base where "base = (case tree of None \<Rightarrow> Leaf (makePaneLeaf fresh [] 0) | Some t \<Rightarrow> t)"
  define paneId where "paneId = (case tree of None \<Rightarrow> fresh | Some t \<Rightarrow>
     (case keep_truthy focused of Some f \<Rightarrow> if findPane t f \<noteq> None then f else firstPaneId t | None \<Rightarrow> firstPaneId t))"
  have "wf_tree base" using assms(1) by (auto simp: base_def tree_ok_def wf_tree_def makePaneLeaf_def split: option.splits)
  moreover have "paneId \<in> p_id ` set (collectPanes base)"
    by (auto simp: paneId_def base_def makePaneLeaf_def findPane_None split: option.splits)
  ultimately have added: "wf_tree next" "pane_ids next = pane_ids base" "mset (tab_ids next) = mset (tab_ids base) + mset (map ht_id ts)"
    "filter (\<lambda>i. i \<notin> ht_id ` set ts) (tab_ids next) = filter (\<lambda>i. i \<notin> ht_id ` set ts) (tab_ids base)"
    using host_tabs_added [of base paneId win uuid ts] assms(4)
    by (auto simp: withHostTabs_def base_def paneId_def Let_def split: option.splits)
  have old: "tab_ids base = tree_ids tree" by (simp add: base_def tree_ids_def makePaneLeaf_def split: option.split)
  show "filter (\<lambda>i. i \<notin> ht_id ` set ts) (tab_ids next) = tree_ids tree"
    unfolding added(4) old using assms(3) by (intro filter_True) auto
  show "mset (tab_ids next) = mset (tree_ids tree) + mset (map ht_id ts)" using added(3) old by simp
  then have "distinct (tab_ids next) \<longleftrightarrow> distinct (tree_ids tree @ map ht_id ts)" by (intro mset_eq_imp_distinct_iff) simp
  then have "distinct (tab_ids next)" using assms(1-3) by (auto simp: tree_ids_def tree_ok_def split: option.splits)
  moreover have "f \<in> p_id ` set (collectPanes next)"
    if "keep_truthy (case focus of None \<Rightarrow> focused | Some f \<Rightarrow> Some f) = Some f" for f
  proof -
    have "f \<in> p_id ` set (collectPanes base)"
      using that assms(1,4) by (auto simp: withHostTabs_def base_def tree_ok_def makePaneLeaf_def keep_truthy_def Let_def split: option.splits if_splits)
    then show ?thesis using added(2) by (metis set_map)
  qed
  ultimately show "tree_ok (Some next) (case focus of None \<Rightarrow> focused | Some f \<Rightarrow> Some f)" using added(1) by (simp add: tree_ok_def)
qed

section \<open>Tabs that move to another terminal\<close>

lemma location_in:
  "findTerminalLocation node i = Some (pid, k) \<Longrightarrow> \<exists>p\<in>set (collectPanes node). p_id p = pid \<and> i \<in> t_id ` set (p_tabs p)"
proof (induction node)
  case (Leaf p)
  then have found: "0 \<le> findIndex (\<lambda>t. t_id t = i) (p_tabs p)" "pid = p_id p" by (auto simp: Let_def split: if_splits)
  from findIndex_nth [OF found(1)] findIndex_bounds [of "\<lambda>t. t_id t = i" "p_tabs p"] found
  show ?case by (auto intro!: image_eqI [of _ t_id "p_tabs p ! nat (findIndex (\<lambda>t. t_id t = i) (p_tabs p))"] nth_mem)
next
  case (Split d r a b)
  then show ?case by (auto simp: or_else_def split: option.splits)
qed

lemma location_exists: "i \<in> set (tab_ids node) \<Longrightarrow> findTerminalLocation node i \<noteq> None"
proof (induction node)
  case (Leaf p)
  then show ?case using findIndex_neg [of "\<lambda>t. t_id t = i" "p_tabs p"] by (auto simp: Let_def)
next
  case (Split d r a b)
  then show ?case by (auto simp: or_else_def split: option.splits)
qed

lemma same_pane:
  "distinct (map t_id (concat (map p_tabs ps))) \<Longrightarrow> p \<in> set ps \<Longrightarrow> q \<in> set ps \<Longrightarrow>
   i \<in> t_id ` set (p_tabs p) \<Longrightarrow> i \<in> t_id ` set (p_tabs q) \<Longrightarrow> p = q"
  by (induction ps) auto

definition swapped_tab :: "string \<Rightarrow> string \<Rightarrow> terminal_instance \<Rightarrow> terminal_instance" where
  "swapped_tab key newId t = makeTerminal key newId (t_label t)
     ((bare_tab [] [])\<lparr>sessionTitle := sessionTitle t, sessionTitleId := sessionTitleId t,
        sessionTitleSource := sessionTitleSource t, historyKey := historyKey t, startCmd := startCmd t,
        resumeCmd := resumeCmd t, actionName := actionName t, memory := memory t, forkOf := forkOf t,
        pinned := pinned t, emoji := emoji t, color := color t, fromHost := fromHost t\<rparr>)"

lemma swapped_tab_id [simp]: "t_id (swapped_tab key newId t) = newId"
  by (simp add: swapped_tab_def makeTerminal_def bare_tab_def)

lemma swap_tabs:
  assumes "distinct (tab_ids node)" "p \<in> set (collectPanes node)" "p_id p = pid" "oldId \<in> t_id ` set (p_tabs p)"
  shows "collectTerminals (swapTerminal key node pid oldId newId) =
    map (\<lambda>t. if t_id t = oldId then swapped_tab key newId t else t) (collectTerminals node)"
proof -
  have "map (\<lambda>t. if t_id t = oldId then swapped_tab key newId t else t) (p_tabs q) = p_tabs q"
    if "q \<in> set (collectPanes node)" "p_id q \<noteq> pid" for q
  proof -
    have "oldId \<notin> t_id ` set (p_tabs q)"
      using same_pane [of "collectPanes node" q p oldId] assms that by (auto simp: collectTerminals_panes)
    then show ?thesis by (intro map_idI) (metis imageI)
  qed
  then have "map p_tabs (collectPanes (swapTerminal key node pid oldId newId)) =
      map (\<lambda>q. map (\<lambda>t. if t_id t = oldId then swapped_tab key newId t else t) (p_tabs q)) (collectPanes node)"
    by (auto simp: swapTerminal_def collectPanes_mapPane swapped_tab_def)
  then show ?thesis by (simp add: collectTerminals_panes map_concat comp_def)
qed

lemma swap_ids:
  assumes "wf_tree node" "distinct (tab_ids node)" "findTerminalLocation node oldId = Some (pid, k)"
  shows "wf_tree (swapTerminal key node pid oldId newId)"
    "pane_ids (swapTerminal key node pid oldId newId) = pane_ids node"
    "tab_ids (swapTerminal key node pid oldId newId) = map (\<lambda>i. if i = oldId then newId else i) (tab_ids node)"
    "t \<in> set (collectTerminals (swapTerminal key node pid oldId newId)) \<Longrightarrow> t_id t \<noteq> newId \<Longrightarrow> t \<in> set (collectTerminals node)"
proof -
  show "wf_tree (swapTerminal key node pid oldId newId)"
    unfolding swapTerminal_def using assms(1) by (rule wf_tree_mapPane) simp
  show "pane_ids (swapTerminal key node pid oldId newId) = pane_ids node"
    by (auto simp: swapTerminal_def collectPanes_mapPane)
  obtain p where "p \<in> set (collectPanes node)" "p_id p = pid" "oldId \<in> t_id ` set (p_tabs p)"
    using location_in [OF assms(3)] by blast
  note tabs = swap_tabs [OF assms(2) this, of key newId]
  then show "tab_ids (swapTerminal key node pid oldId newId) = map (\<lambda>i. if i = oldId then newId else i) (tab_ids node)" by auto
  show "t \<in> set (collectTerminals (swapTerminal key node pid oldId newId)) \<Longrightarrow> t_id t \<noteq> newId \<Longrightarrow> t \<in> set (collectTerminals node)"
    unfolding tabs by auto
qed

text \<open>What replacing tells of a tree: the pairs name tabs that were there, of conversations that go on in a new
  terminal, and the new terminals. Each tab of a pair has its new terminal's id where it stood, and no tab is
  left whose conversation goes on in a terminal that replaced none.\<close>

definition renamed :: "(string \<times> string) list \<Rightarrow> string \<Rightarrow> string" where
  "renamed pairs i = (case map_of pairs i of None \<Rightarrow> i | Some j \<Rightarrow> j)"

definition replaced_ok :: "bool \<Rightarrow> string list \<Rightarrow> pane_node \<Rightarrow> host_terminal list \<Rightarrow> pane_node \<Rightarrow> (string \<times> string) list \<Rightarrow> bool" where
  "replaced_ok win listed node ts next pairs \<longleftrightarrow>
     wf_tree next \<and> pane_ids next = pane_ids node \<and> distinct (tab_ids next) \<and>
     tab_ids next = map (renamed pairs) (tab_ids node) \<and> distinct (map fst pairs) \<and> distinct (map snd pairs) \<and>
     (\<forall>(from_id, to_id)\<in>set pairs. isPeerName from_id \<and> from_id \<notin> set listed \<and>
       (\<exists>t\<in>set (collectTerminals node). \<exists>h\<in>set ts. t_id t = from_id \<and> ht_id h = to_id \<and>
          ht_session h \<noteq> None \<and> agentSessionOf win t = ht_session h)) \<and>
     (\<forall>t\<in>set (collectTerminals node). \<forall>h\<in>set ts. \<forall>session. ht_session h = Some session \<longrightarrow> holds_session win listed session t \<longrightarrow>
       t_id t \<in> fst ` set pairs \<or> ht_id h \<in> snd ` set pairs)"

lemma renamed_simps [simp]: "renamed [] i = i" "renamed ((from_id, to_id) # pairs) i = (if i = from_id then to_id else renamed pairs i)"
  by (simp_all add: renamed_def)

lemma renamed_other: "i \<notin> fst ` set pairs \<Longrightarrow> renamed pairs i = i"
  by (induction pairs) auto

lemma renamed_set:
  "distinct (map fst pairs) \<Longrightarrow> fst ` set pairs \<subseteq> set xs \<Longrightarrow>
   set (map (renamed pairs) xs) = (set xs - fst ` set pairs) \<union> snd ` set pairs"
proof -
  assume d: "distinct (map fst pairs)" and sub: "fst ` set pairs \<subseteq> set xs"
  have r: "renamed pairs i = j" if "(i, j) \<in> set pairs" for i j
    using that d by (simp add: renamed_def)
  have "i \<in> (set xs - fst ` set pairs) \<union> snd ` set pairs" if "i \<in> renamed pairs ` set xs" for i
  proof -
    from that obtain k where k: "k \<in> set xs" "i = renamed pairs k" by auto
    show ?thesis
    proof (cases "k \<in> fst ` set pairs")
      case True
      then obtain j where "(k, j) \<in> set pairs" by auto
      with r k show ?thesis by force
    next
      case False
      with k renamed_other show ?thesis by simp
    qed
  qed
  moreover have "i \<in> renamed pairs ` set xs" if "i \<in> snd ` set pairs" for i
  proof -
    from that obtain k where k: "(k, i) \<in> set pairs" by auto
    then have "k \<in> fst ` set pairs" by force
    then have "k \<in> set xs" using sub by blast
    then show ?thesis using r [OF k] by (intro rev_image_eqI [of k]) simp_all
  qed
  moreover have "i \<in> renamed pairs ` set xs" if "i \<in> set xs - fst ` set pairs" for i
    using that renamed_other [of i pairs] by (intro rev_image_eqI [of i]) auto
  ultimately have "renamed pairs ` set xs = (set xs - fst ` set pairs) \<union> snd ` set pairs" by blast
  then show ?thesis by simp
qed

lemma replaced_froms: "replaced_ok win listed node ts next pairs \<Longrightarrow> fst ` set pairs \<subseteq> set (tab_ids node)"
  and replaced_tos: "replaced_ok win listed node ts next pairs \<Longrightarrow> snd ` set pairs \<subseteq> ht_id ` set ts"
  by (fastforce simp: replaced_ok_def)+

lemma distinct_renamed: "distinct xs \<Longrightarrow> y \<notin> set xs \<Longrightarrow> distinct (map (\<lambda>i. if i = x then y else i) xs)"
  by (induction xs) auto

lemma replaced_ok_more:
  assumes "replaced_ok win listed node ts next pairs"
    and "\<And>t session. t \<in> set (collectTerminals node) \<Longrightarrow> ht_session h = Some session \<Longrightarrow> \<not> holds_session win listed session t"
  shows "replaced_ok win listed node (h # ts) next pairs"
  using assms unfolding replaced_ok_def by (fastforce intro: rev_bexI)

lemma replace_step_cases:
  assumes "distinct (tab_ids node)"
  obtains "replace_step win uuid listed h (node, rs) = (node, rs)"
      "\<And>t session. t \<in> set (collectTerminals node) \<Longrightarrow> ht_session h = Some session \<Longrightarrow> \<not> holds_session win listed session t"
  | from_id pid k t where "replace_step win uuid listed h (node, rs) =
      (swapTerminal (uuid (ht_id h)) node pid from_id (ht_id h), rs @ [(from_id, ht_id h)])"
      "findTerminalLocation node from_id = Some (pid, k)" "t \<in> set (collectTerminals node)" "t_id t = from_id"
      "isPeerName from_id" "from_id \<notin> set listed" "ht_session h \<noteq> None" "agentSessionOf win t = ht_session h"
proof (cases "ht_session h")
  case None
  then show ?thesis using that(1) by (simp add: replace_step_def)
next
  case (Some session)
  show ?thesis
  proof (cases "List.find (holds_session win listed session) (collectTerminals node)")
    case None
    then have "\<not> holds_session win listed session t" if "t \<in> set (collectTerminals node)" for t
      using that by (simp add: find_None_iff)
    with None Some show ?thesis by (intro that(1)) (simp_all add: replace_step_def)
  next
    case (Some t)
    then have t: "t \<in> set (collectTerminals node)" "holds_session win listed session t" by (auto simp: find_Some_iff)
    then have "findTerminalLocation node (t_id t) \<noteq> None" by (intro location_exists) simp
    then obtain pid k where "findTerminalLocation node (t_id t) = Some (pid, k)" by auto
    then show ?thesis
      using that(2) [of pid "t_id t" k t] t Some \<open>ht_session h = Some session\<close> by (simp add: replace_step_def holds_session_def)
  qed
qed

lemma replaced_once:
  assumes "wf_tree node" "distinct (tab_ids node)" "findTerminalLocation node from_id = Some (pid, k)"
    "t \<in> set (collectTerminals node)" "t_id t = from_id" "isPeerName from_id" "from_id \<notin> set listed"
    "ht_session h \<noteq> None" "agentSessionOf win t = ht_session h"
    "ht_id h \<in> set listed" "ht_id h \<notin> ht_id ` set ts"
    "replaced_ok win listed (swapTerminal (uuid (ht_id h)) node pid from_id (ht_id h)) ts next pairs"
  shows "replaced_ok win listed node (h # ts) next ((from_id, ht_id h) # pairs)"
proof -
  let ?node = "swapTerminal (uuid (ht_id h)) node pid from_id (ht_id h)"
  note swap = swap_ids [OF assms(1-3), where key = "uuid (ht_id h)" and newId = "ht_id h"]
  obtain p where "p \<in> set (collectPanes node)" "p_id p = pid" "from_id \<in> t_id ` set (p_tabs p)"
    using location_in [OF assms(3)] by blast
  note tabs = swap_tabs [OF assms(2) this, of "uuid (ht_id h)" "ht_id h"]
  note ok = assms(12) [unfolded replaced_ok_def]
  have froms: "fst ` set pairs \<subseteq> set (tab_ids ?node)" and tos: "snd ` set pairs \<subseteq> ht_id ` set ts"
    using replaced_froms [OF assms(12)] replaced_tos [OF assms(12)] by blast+
  have off: "ht_id h \<notin> fst ` set pairs" using ok assms(10) by auto
  have "from_id \<notin> set (tab_ids ?node)" unfolding swap(3) using assms(7,10) by auto
  then have d: "distinct (map fst ((from_id, ht_id h) # pairs))" "distinct (map snd ((from_id, ht_id h) # pairs))"
    using ok froms tos assms(11) by auto
  have ren: "tab_ids next = map (renamed ((from_id, ht_id h) # pairs)) (tab_ids node)"
  proof -
    have "tab_ids next = map (renamed pairs) (map (\<lambda>i. if i = from_id then ht_id h else i) (tab_ids node))"
      using ok swap(3) by metis
    also have "\<dots> = map (renamed ((from_id, ht_id h) # pairs)) (tab_ids node)"
      using renamed_other [OF off] by simp
    finally show ?thesis .
  qed
  have each: "\<exists>t\<in>set (collectTerminals node). \<exists>h\<in>set (h # ts). t_id t = f \<and> ht_id h = i \<and> ht_session h \<noteq> None \<and> agentSessionOf win t = ht_session h"
    if pair: "(f, i) \<in> set pairs" for f i
  proof -
    from pair ok obtain t h' where t: "t \<in> set (collectTerminals ?node)" "h' \<in> set ts" "t_id t = f" "ht_id h' = i" "ht_session h' \<noteq> None"
      "agentSessionOf win t = ht_session h'" "f \<notin> set listed" by (force simp: replaced_ok_def)
    then have "t_id t \<noteq> ht_id h" using assms(10) by auto
    then have "t \<in> set (collectTerminals node)" by (rule swap(4) [OF t(1)])
    then show ?thesis using t by (intro bexI [of _ t] bexI [of _ h']) auto
  qed
  have rest: "t_id u \<in> fst ` set ((from_id, ht_id h) # pairs) \<or> ht_id g \<in> snd ` set ((from_id, ht_id h) # pairs)"
    if u: "u \<in> set (collectTerminals node)" "g \<in> set (h # ts)" "ht_session g = Some session" "holds_session win listed session u" for u g session
  proof (cases "t_id u = from_id \<or> g = h")
    case False
    then have "u \<in> set (collectTerminals ?node)" using u(1) by (force simp: tabs)
    then have "t_id u \<in> fst ` set pairs \<or> ht_id g \<in> snd ` set pairs" using ok u False by auto
    then show ?thesis by auto
  qed auto
  show ?thesis
    unfolding replaced_ok_def
    using ok swap(2) d ren each rest assms(4-9) by (auto 0 3 simp del: renamed_simps)
qed

lemma replaced_tabs:
  "wf_tree node \<Longrightarrow> distinct (tab_ids node) \<Longrightarrow> distinct (map ht_id ts) \<Longrightarrow> ht_id ` set ts \<inter> set (tab_ids node) = {} \<Longrightarrow>
   ht_id ` set ts \<subseteq> set listed \<Longrightarrow>
   \<exists>next pairs. fold (replace_step win uuid listed) ts (node, rs) = (next, rs @ pairs) \<and> replaced_ok win listed node ts next pairs"
proof (induction ts arbitrary: node rs)
  case Nil
  have "map (renamed []) (tab_ids node) = tab_ids node" by (simp add: map_idI)
  then show ?case using Nil by (simp add: replaced_ok_def)
next
  case (Cons h ts)
  from Cons.prems(2) show ?case
  proof (cases rule: replace_step_cases [of node win uuid listed h rs])
    case 1
    obtain "next" pairs where "fold (replace_step win uuid listed) ts (node, rs) = (next, rs @ pairs)" "replaced_ok win listed node ts next pairs"
      using Cons.IH [of node rs] Cons.prems by auto
    then show ?thesis using 1(1) replaced_ok_more [OF _ 1(2)] by (intro exI [of _ "next"] exI [of _ pairs]) simp
  next
    case (2 from_id pid k t)
    let ?node = "swapTerminal (uuid (ht_id h)) node pid from_id (ht_id h)"
    note swap = swap_ids [OF Cons.prems(1,2) 2(2), where key = "uuid (ht_id h)" and newId = "ht_id h"]
    have new: "ht_id h \<notin> set (tab_ids node)" "ht_id h \<in> set listed" "ht_id h \<notin> ht_id ` set ts" "distinct (map ht_id ts)"
      using Cons.prems(3-5) by auto
    have ids: "i \<in> set (tab_ids ?node) \<Longrightarrow> i = ht_id h \<or> i \<in> set (tab_ids node)" for i
      unfolding swap(3) by (auto split: if_splits)
    have "ht_id ` set ts \<inter> set (tab_ids node) = {}"
      using Cons.prems(4) unfolding list.simps(15) image_insert by blast
    then have free: "i \<notin> set (tab_ids node)" if "i \<in> ht_id ` set ts" for i using that by (rule disjoint_iff [THEN iffD1, rule_format])
    have off: "i \<notin> set (tab_ids ?node)" if "i \<in> ht_id ` set ts" for i
    proof
      assume "i \<in> set (tab_ids ?node)"
      from ids [OF this] show False
      proof
        assume "i = ht_id h"
        with that new(3) show False by (simp only:)
      next
        assume "i \<in> set (tab_ids node)"
        with free [OF that] show False by (rule notE)
      qed
    qed
    have dist: "distinct (tab_ids ?node)"
      unfolding swap(3) using Cons.prems(2) new(1) by (rule distinct_renamed)
    obtain "next" pairs where rest: "fold (replace_step win uuid listed) ts (?node, rs @ [(from_id, ht_id h)]) = (next, (rs @ [(from_id, ht_id h)]) @ pairs)"
      and ok: "replaced_ok win listed ?node ts next pairs"
    proof -
      have "ht_id ` set ts \<inter> set (tab_ids ?node) = {}"
        unfolding disjoint_iff by (intro allI impI) (rule off)
      moreover have "ht_id ` set ts \<subseteq> set listed" using Cons.prems(5) by simp
      ultimately show ?thesis using that Cons.IH [OF swap(1) dist new(4), of "rs @ [(from_id, ht_id h)]"] by blast
    qed
    note once = replaced_once [where h = h and uuid = uuid, OF Cons.prems(1,2) 2(2-8) new(2,3) ok]
    from once rest 2(1) show ?thesis by (intro exI [of _ "next"] exI [of _ "(from_id, ht_id h) # pairs"]) simp
  qed
qed

section \<open>Tabs that close\<close>

definition panes_of :: "pane_node option \<Rightarrow> pane_leaf list" where
  "panes_of tree = (case tree of None \<Rightarrow> [] | Some t \<Rightarrow> collectPanes t)"

definition kept_pane :: "string set \<Rightarrow> pane_leaf \<Rightarrow> pane_leaf list" where
  "kept_pane ids p =
     (let tabs = filter (\<lambda>t. t_id t \<notin> ids) (p_tabs p) in
      if \<not> (\<exists>t\<in>set (p_tabs p). t_id t \<in> ids) then [p]
      else if tabs = [] \<and> \<not> truthy (p_activeServiceName p) then []
      else [p\<lparr>p_tabs := tabs, p_activeTabIdx := active_among p tabs (clampIdx (Some (p_activeTabIdx p)) (length tabs))\<rparr>])"

lemma kept_pane_tabs [simp]: "concat (map p_tabs (kept_pane ids p)) = filter (\<lambda>t. t_id t \<notin> ids) (p_tabs p)"
  by (auto simp: kept_pane_def Let_def filter_id_conv)

lemma kept_pane_ids: "q \<in> set (kept_pane ids p) \<Longrightarrow> p_id q = p_id p"
  by (auto simp: kept_pane_def Let_def split: if_splits)

lemma drop_panes:
  "panes_of next = done_panes @ todo \<Longrightarrow> distinct (map p_id (done_panes @ todo)) \<Longrightarrow> pred_option ratios_ok next \<Longrightarrow>
   panes_of (fold (drop_from_pane ids) todo next) = done_panes @ concat (map (kept_pane ids) todo) \<and>
   pred_option ratios_ok (fold (drop_from_pane ids) todo next)"
proof (induction todo arbitrary: done_panes "next")
  case (Cons p todo)
  then obtain t where t: "next = Some t" "collectPanes t = done_panes @ p # todo" "ratios_ok t"
    by (cases "next") (auto simp: panes_of_def)
  have dist: "distinct (pane_ids t)" using Cons.prems(2) by (simp add: t)
  have "p_id p \<notin> p_id ` (set done_panes \<union> set todo)" using Cons.prems(2) by auto
  then have others: "p_id q \<noteq> p_id p" if "q \<in> set done_panes \<union> set todo" for q using that by (metis imageI)
  have "panes_of (drop_from_pane ids p next) = (done_panes @ kept_pane ids p) @ todo \<and> pred_option ratios_ok (drop_from_pane ids p next)"
  proof (cases "removePane t (p_id p)")
    case None
    then obtain q where "t = Leaf q" by (auto simp: removePane_None_iff is_leaf_with_iff)
    moreover then have "q = p" "done_panes = []" "todo = []" using t(2) by (auto simp: Cons_eq_append_conv)
    ultimately show ?thesis using t by (auto simp: drop_from_pane_def kept_pane_def panes_of_def Let_def)
  next
    case (Some t')
    have "filter (\<lambda>q. p_id q \<noteq> p_id p) (collectPanes t) = done_panes @ todo"
      using others unfolding t(2) by (auto simp: filter_id_conv)
    then have removed: "collectPanes t' = done_panes @ todo" "ratios_ok t'"
      using collectPanes_removePane [OF dist Some] ratios_ok_removePane [OF t(3) Some] by simp_all
    have "map (\<lambda>q. if p_id q = p_id p then f q else q) (done_panes @ p # todo) = done_panes @ f p # todo" for f
      using others by (auto intro!: map_idI)
    then show ?thesis using t Some removed
      by (auto simp: drop_from_pane_def kept_pane_def panes_of_def Let_def collectPanes_mapPane ratios_ok_mapPane)
  qed
  moreover have "distinct (map p_id ((done_panes @ kept_pane ids p) @ todo))"
    using Cons.prems(2) by (auto simp: kept_pane_def Let_def)
  ultimately show ?case using Cons.IH [of "drop_from_pane ids p next" "done_panes @ kept_pane ids p"] by simp
qed simp

lemma tabs_of_panes: "tree_ids tree = map t_id (concat (map p_tabs (panes_of tree)))"
  by (simp add: tree_ids_def panes_of_def collectTerminals_panes split: option.splits)

lemma host_tabs_dropped:
  assumes "tree_ok (Some tree) focused" "withoutHostTabs tree focused ids = (next, focus)"
  shows "tree_ok next (case focus of None \<Rightarrow> focused | Some f \<Rightarrow> f)" "tree_ids next = filter (\<lambda>i. i \<notin> ids) (tab_ids tree)"
proof -
  have "wf_tree tree" using assms(1) by (simp add: tree_ok_def)
  then have dropped: "panes_of next = concat (map (kept_pane ids) (collectPanes tree))" "pred_option ratios_ok next"
    using drop_panes [of "Some tree" "[]" "collectPanes tree" ids] assms(2)
    by (simp_all add: withoutHostTabs_def Let_def wf_tree_def panes_of_def)
  have "concat (map p_tabs (concat (map (kept_pane ids) ps))) = filter (\<lambda>t. t_id t \<notin> ids) (concat (map p_tabs ps))" for ps
    by (induction ps) simp_all
  then show ids: "tree_ids next = filter (\<lambda>i. i \<notin> ids) (tab_ids tree)"
    by (simp add: tabs_of_panes dropped collectTerminals_panes filter_map comp_def)
  have sub: "distinct (map p_id ps) \<Longrightarrow> distinct (map p_id (concat (map (kept_pane ids) ps))) \<and>
      p_id ` set (concat (map (kept_pane ids) ps)) \<subseteq> p_id ` set ps" for ps
    by (induction ps) (auto simp: kept_pane_def Let_def)
  then have wf: "distinct (map p_id (panes_of next))" using \<open>wf_tree tree\<close> by (simp add: dropped wf_tree_def)
  show "tree_ok next (case focus of None \<Rightarrow> focused | Some f \<Rightarrow> f)"
  proof (cases "next")
    case None
    then have "focus = (case keep_truthy focused of None \<Rightarrow> None | Some f \<Rightarrow> Some None)"
      using assms(2) by (auto simp: withoutHostTabs_def Let_def split: option.splits)
    then show ?thesis using None by (auto simp: tree_ok_def split: option.splits)
  next
    case (Some t)
    have "distinct (tab_ids t)" using ids assms(1) by (simp add: Some tree_ids_def tree_ok_def)
    moreover have "f \<in> p_id ` set (collectPanes t)" if "keep_truthy (case focus of None \<Rightarrow> focused | Some f \<Rightarrow> f) = Some f" for f
      using that assms(2) Some findPane_None [of t]
      by (auto simp: withoutHostTabs_def Let_def keep_truthy_def split: option.splits if_splits)
    ultimately show ?thesis using wf dropped(2) by (simp add: Some tree_ok_def wf_tree_def panes_of_def)
  qed
qed

section \<open>What a listing changes\<close>

lemma claim_fold [simp]:
  "pt_claimed (fold claimPeerTerminal ids s) = pt_claimed s \<union> {i \<in> set ids. isPeerName i}"
  "pt_starts (fold claimPeerTerminal ids s) = pt_starts s"
  by (induction ids arbitrary: s) (auto simp: claimPeerTerminal_def)

lemma release_fold [simp]:
  "pt_claimed (fold releasePeerTerminal ids s) = pt_claimed s - set ids" "pt_starts (fold releasePeerTerminal ids s) = pt_starts s"
  by (induction ids arbitrary: s) (auto simp: releasePeerTerminal_def)

lemma claim_folds:
  "fold (\<lambda>t. claimPeerTerminal (ht_id t)) ts s = fold claimPeerTerminal (map ht_id ts) s"
  "fold (\<lambda>(_, to_id). claimPeerTerminal to_id) ps s = fold claimPeerTerminal (map snd ps) s"
  by (induction ts arbitrary: s, simp_all) (induction ps arbitrary: s, auto)

lemma open_tree: "open_ids s = tree_ids (sy_tree s)"
  by (simp add: open_ids_def tree_ids_def)

lemma host_names: "t \<in> set (hostTerminalsOf v) \<Longrightarrow> isPeerName (ht_id t)"
  using hostTerminalsOf_ok by (auto simp: well_listed_def)

text \<open>What a machine promises of a listing: no terminal twice, and its tabs hold those of all its terminals.\<close>

definition listing_ok :: "host_listing \<Rightarrow> bool" where
  "listing_ok listing \<longleftrightarrow> distinct (map ht_id (hostTerminalsOf (hl_terminals listing))) \<and>
     (\<forall>tabs. hl_tabs listing = Some tabs \<longrightarrow> ht_id ` set (hostTerminalsOf (hl_terminals listing)) \<subseteq> set tabs)"

text \<open>The terminals listed that this machine never had a tab for.\<close>

definition newcomers :: "string list \<Rightarrow> host_listing \<Rightarrow> sync_state \<Rightarrow> host_terminal list" where
  "newcomers pending listing s =
     filter (\<lambda>t. ht_id t \<notin> pt_claimed (sy_terms s) \<union> set (open_ids s) \<union> set pending) (hostTerminalsOf (hl_terminals listing))"

text \<open>
  A tab whose conversation went on in a new terminal: the machine lists the terminal, and its tabs no longer
  hold this one. The moves a listing makes: no tab and no terminal is in two of them, each is of a
  conversation that went on, and none is left out whose tab and terminal are both in no other.
\<close>

definition goes_on :: "sync_place \<Rightarrow> host_terminal list \<Rightarrow> host_listing \<Rightarrow> sync_state \<Rightarrow> string \<Rightarrow> string \<Rightarrow> bool" where
  "goes_on e fresh listing s i j \<longleftrightarrow>
     (\<exists>tree tabs t h. sy_tree s = Some tree \<and> hl_tabs listing = Some tabs \<and> i \<notin> set tabs \<and> isPeerName i \<and>
        t \<in> set (collectTerminals tree) \<and> t_id t = i \<and> h \<in> set fresh \<and> ht_id h = j \<and> ht_session h \<noteq> None \<and>
        agentSessionOf (pl_win e) t = ht_session h)"

definition moves_made :: "sync_place \<Rightarrow> host_terminal list \<Rightarrow> host_listing \<Rightarrow> sync_state \<Rightarrow> (string \<times> string) list \<Rightarrow> bool" where
  "moves_made e fresh listing s moves \<longleftrightarrow>
     distinct (map fst moves) \<and> distinct (map snd moves) \<and> (\<forall>(i, j)\<in>set moves. goes_on e fresh listing s i j) \<and>
     (\<forall>i j. goes_on e fresh listing s i j \<longrightarrow> i \<in> fst ` set moves \<or> j \<in> snd ` set moves)"

lemma moves_within:
  assumes "moves_made e fresh listing s moves"
  shows "fst ` set moves \<subseteq> set (open_ids s)" "snd ` set moves \<subseteq> ht_id ` set fresh"
  using assms by (force simp: moves_made_def goes_on_def open_ids_def)+

lemma moves_renamed:
  assumes "moves_made e fresh listing s moves"
  shows "set (map (renamed moves) (open_ids s)) = (set (open_ids s) - fst ` set moves) \<union> snd ` set moves"
  using assms moves_within(1) [OF assms] by (intro renamed_set) (simp_all add: moves_made_def)

lemma no_moves: "map (renamed []) xs = xs"
  by (simp add: map_idI)

definition state_ok :: "sync_state \<Rightarrow> bool" where
  "state_ok s \<longleftrightarrow> tree_ok (sy_tree s) (sy_focused s)"

lemma replaced_moves:
  assumes "sy_tree s = Some tree" "hl_tabs listing = Some tabs" "replaced_ok (pl_win e) tabs tree fresh next pairs"
  shows "moves_made e fresh listing s pairs"
proof -
  note rep = assms(3) [unfolded replaced_ok_def]
  have "goes_on e fresh listing s i j" if "(i, j) \<in> set pairs" for i j
    using rep that assms(1,2) unfolding goes_on_def by fastforce
  moreover have "i \<in> fst ` set pairs \<or> j \<in> snd ` set pairs" if "goes_on e fresh listing s i j" for i j
  proof -
    from that assms(1,2) obtain t h session where t: "i \<notin> set tabs" "isPeerName i" "t \<in> set (collectTerminals tree)" "t_id t = i" "h \<in> set fresh"
      "ht_id h = j" "ht_session h = Some session" "agentSessionOf (pl_win e) t = Some session"
      by (auto simp: goes_on_def)
    then have "holds_session (pl_win e) tabs session t" by (simp add: holds_session_def)
    then show ?thesis using rep t by blast
  qed
  ultimately show ?thesis using rep by (auto simp: moves_made_def)
qed

lemma replace_result:
  assumes "state_ok s" "distinct (map ht_id fresh)" "ht_id ` set fresh \<inter> set (open_ids s) = {}"
    "\<And>tabs. hl_tabs listing = Some tabs \<Longrightarrow> ht_id ` set fresh \<subseteq> set tabs"
    "replace_tabs e listing fresh s = (rest, s')"
  shows "\<exists>moves. state_ok s' \<and> open_ids s' = map (renamed moves) (open_ids s) \<and> moves_made e fresh listing s moves \<and>
    rest = filter (\<lambda>t. ht_id t \<notin> snd ` set moves) fresh \<and>
    pt_claimed (sy_terms s') = pt_claimed (sy_terms s) \<union> {i \<in> snd ` set moves. isPeerName i} \<and>
    sy_seen s' = sy_seen s"
proof (cases "sy_tree s = None \<or> hl_tabs listing = None")
  case True
  then have "rest = fresh" "s' = s"
    using assms(5) by (auto simp: replace_tabs_def withReplacedHostTabs_def split: option.splits)
  moreover have "moves_made e fresh listing s []" using True by (auto simp: moves_made_def goes_on_def)
  ultimately show ?thesis using assms(1) by (intro exI [of _ "[]"]) (simp add: no_moves)
next
  case False
  then obtain tree tabs where tree: "sy_tree s = Some tree" and tabs: "hl_tabs listing = Some tabs" by auto
  have ok: "wf_tree tree" "distinct (tab_ids tree)" using assms(1) by (auto simp: state_ok_def tree_ok_def tree)
  have new: "ht_id ` set fresh \<inter> set (tab_ids tree) = {}" using assms(3) by (simp add: open_tree tree_ids_def tree)
  obtain "next" pairs where next_pairs: "withReplacedHostTabs (pl_win e) (pl_uuid e) tree fresh (hl_tabs listing) = (next, pairs)"
    and rep: "replaced_ok (pl_win e) tabs tree fresh next pairs"
    using replaced_tabs [OF ok assms(2) new assms(4) [OF tabs], of "pl_win e" "pl_uuid e" "[]"]
    by (auto simp: withReplacedHostTabs_def tabs)
  note moves = replaced_moves [OF tree tabs rep]
  show ?thesis
  proof (cases "pairs = []")
    case True
    then have "rest = fresh" "s' = s" using assms(5) next_pairs by (simp_all add: replace_tabs_def tree)
    then show ?thesis using assms(1) moves by (intro exI [of _ "[]"]) (simp add: True no_moves)
  next
    case False
    then have res: "rest = filter (\<lambda>t. ht_id t \<notin> snd ` set pairs) fresh"
      "s' = (applyTree (Some next) None s)
         \<lparr>sy_terms := fold (\<lambda>(_, to_id). claimPeerTerminal to_id) pairs (sy_terms s),
          sy_told := sy_told s @ map (\<lambda>(from_id, to_id). Swapped from_id to_id) pairs\<rparr>"
      using assms(5) next_pairs by (auto simp: replace_tabs_def tree)
    have "state_ok s'"
      using rep assms(1) by (auto simp: res state_ok_def tree_ok_def tree applyTree_def replaced_ok_def simp flip: set_map)
    moreover have "open_ids s' = map (renamed pairs) (open_ids s)"
      using rep by (simp add: res open_tree tree_ids_def tree applyTree_def replaced_ok_def)
    ultimately show ?thesis
      using moves by (intro exI [of _ pairs]) (auto simp: res applyTree_def claim_folds)
  qed
qed

lemma adopt_result:
  fixes pending :: "string list"
  assumes "state_ok s" "listing_ok listing"
  defines "new \<equiv> newcomers pending listing s"
  shows "\<exists>moves. state_ok (adopt e fresh_pane pending listing s) \<and> moves_made e new listing s moves \<and>
    filter (\<lambda>i. i \<notin> ht_id ` set new - snd ` set moves) (open_ids (adopt e fresh_pane pending listing s)) = map (renamed moves) (open_ids s) \<and>
    set (open_ids (adopt e fresh_pane pending listing s)) = set (map (renamed moves) (open_ids s)) \<union> ht_id ` set new \<and>
    pt_claimed (sy_terms (adopt e fresh_pane pending listing s)) =
      pt_claimed (sy_terms s) \<union> {i \<in> set (open_ids s) \<union> set pending. isPeerName i} \<union> ht_id ` set new \<and>
    sy_seen (adopt e fresh_pane pending listing s) = sy_seen s"
proof -
  define terms where "terms = fold claimPeerTerminal (open_ids s @ pending) (sy_terms s)"
  have claimed: "pt_claimed terms = pt_claimed (sy_terms s) \<union> {i \<in> set (open_ids s) \<union> set pending. isPeerName i}"
    by (auto simp: terms_def)
  have fresh: "unclaimedHostTerminals (hl_terminals listing) (open_ids s @ pending) (sy_terms s) = (new, terms)"
  proof -
    have "unclaimedHostTerminals (hl_terminals listing) (open_ids s @ pending) (sy_terms s) =
        (filter (\<lambda>t. ht_id t \<notin> pt_claimed terms) (hostTerminalsOf (hl_terminals listing)), terms)"
      by (simp only: unclaimedHostTerminals_def Let_def terms_def)
    then show ?thesis using host_names [of _ "hl_terminals listing"]
      by (auto simp: new_def newcomers_def claimed intro!: filter_cong)
  qed
  let ?s = "s\<lparr>sy_terms := terms\<rparr>"
  obtain rest s1 where s1: "replace_tabs e listing new ?s = (rest, s1)" by fastforce
  have new: "distinct (map ht_id new)" "ht_id ` set new \<inter> set (open_ids ?s) = {}" "\<forall>i\<in>ht_id ` set new. isPeerName i"
    "\<And>tabs. hl_tabs listing = Some tabs \<Longrightarrow> ht_id ` set new \<subseteq> set tabs"
    using assms(2) host_names by (auto simp: listing_ok_def new_def newcomers_def open_tree distinct_map_filter)
  have ok: "state_ok ?s" using assms(1) by (simp add: state_ok_def)
  have same: "moves_made e new listing ?s = moves_made e new listing s"
    by (simp add: fun_eq_iff moves_made_def goes_on_def)
  from replace_result [OF ok new(1,2,4) s1] obtain moves where
    rep: "state_ok s1" "open_ids s1 = map (renamed moves) (open_ids s)" "moves_made e new listing s moves"
      "rest = filter (\<lambda>t. ht_id t \<notin> snd ` set moves) new"
      "pt_claimed (sy_terms s1) = pt_claimed terms \<union> {i \<in> snd ` set moves. isPeerName i}" "sy_seen s1 = sy_seen s"
    by (auto simp: open_tree same)
  note within = moves_within [OF rep(3)] and ren = moves_renamed [OF rep(3)]
  have rest: "ht_id ` set rest = ht_id ` set new - snd ` set moves" "distinct (map ht_id rest)"
    using rep(4) new(1) by (auto simp: distinct_map_filter)
  show ?thesis
  proof (cases "rest = []")
    case True
    then have "adopt e fresh_pane pending listing s = s1" by (simp add: adopt_def fresh s1)
    moreover have "ht_id ` set new - snd ` set moves = {}" using rest(1) True by simp
    ultimately show ?thesis using rep within(2) ren new(3) by (intro exI [of _ moves]) (auto simp: claimed)
  next
    case False
    obtain "next" focus where opened: "withHostTabs (pl_win e) (pl_uuid e) fresh_pane (sy_tree s1) (sy_focused s1) rest = (next, focus)"
      by fastforce
    then have s2: "adopt e fresh_pane pending listing s = (applyTree (Some next) (map_option Some focus) s1)
        \<lparr>sy_terms := fold (\<lambda>t. claimPeerTerminal (ht_id t)) rest (sy_terms s1),
         sy_told := sy_told s1 @ map (\<lambda>t. OpenedElsewhere (ht_id t)) rest\<rparr>"
      using False by (simp add: adopt_def fresh s1)
    have s1_ids: "tree_ids (sy_tree s1) = map (renamed moves) (open_ids s)" using rep(2) by (simp add: open_tree)
    have "ht_id ` set rest \<inter> set (tree_ids (sy_tree s1)) = {}"
      unfolding s1_ids ren rest(1) using new(2) by (auto simp: open_tree)
    note res = host_tabs_opened [OF rep(1) [unfolded state_ok_def] rest(2) this opened]
    have ids: "open_ids (adopt e fresh_pane pending listing s) = tab_ids next"
      by (simp add: s2 applyTree_def open_tree tree_ids_def)
    have "set (tab_ids next) = set (tree_ids (sy_tree s1)) \<union> ht_id ` set rest"
      using res(2) by (metis set_append set_map mset_append mset_eq_setD)
    then have "set (open_ids (adopt e fresh_pane pending listing s)) = set (map (renamed moves) (open_ids s)) \<union> ht_id ` set new"
      unfolding ids s1_ids rest(1) using ren within(2) by auto
    moreover have "filter (\<lambda>i. i \<notin> ht_id ` set new - snd ` set moves) (open_ids (adopt e fresh_pane pending listing s)) =
        map (renamed moves) (open_ids s)"
      using res(3) unfolding ids s1_ids rest(1) .
    moreover have "state_ok (adopt e fresh_pane pending listing s)"
      using res(1) by (cases focus) (simp_all add: s2 state_ok_def applyTree_def)
    moreover have "pt_claimed (sy_terms (adopt e fresh_pane pending listing s)) = pt_claimed terms \<union> ht_id ` set new"
      using rest(1) within(2) rep(5) new(3) by (auto simp: s2 claim_folds)
    ultimately show ?thesis using rep(3) by (intro exI [of _ moves]) (auto simp: claimed s2 applyTree_def rep(6))
  qed
qed

lemma drop_result:
  assumes "state_ok s"
  shows "state_ok (drop_tabs gone s)" "open_ids (drop_tabs gone s) = filter (\<lambda>i. i \<notin> set gone) (open_ids s)"
    "pt_claimed (sy_terms (drop_tabs gone s)) = (if sy_tree s = None then pt_claimed (sy_terms s) else pt_claimed (sy_terms s) - set gone)"
    "sy_seen (drop_tabs gone s) = sy_seen s"
proof -
  have "state_ok (drop_tabs gone s) \<and> open_ids (drop_tabs gone s) = filter (\<lambda>i. i \<notin> set gone) (open_ids s)"
  proof (cases "sy_tree s = None \<or> gone = []")
    case False
    then obtain tree where "sy_tree s = Some tree" by auto
    moreover obtain "next" focus where "withoutHostTabs tree (sy_focused s) (set gone) = (next, focus)" by fastforce
    ultimately have tree: "sy_tree s = Some tree" "withoutHostTabs tree (sy_focused s) (set gone) = (next, focus)" by auto
    from host_tabs_dropped [OF assms [unfolded state_ok_def tree(1)] tree(2)]
    show ?thesis using False tree by (auto simp: drop_tabs_def open_tree state_ok_def applyTree_def tree_ids_def)
  qed (use assms in \<open>auto simp: drop_tabs_def open_tree tree_ids_def filter_id_conv split: option.splits\<close>)
  then show "state_ok (drop_tabs gone s)" "open_ids (drop_tabs gone s) = filter (\<lambda>i. i \<notin> set gone) (open_ids s)" by auto
  show "pt_claimed (sy_terms (drop_tabs gone s)) = (if sy_tree s = None then pt_claimed (sy_terms s) else pt_claimed (sy_terms s) - set gone)"
    "sy_seen (drop_tabs gone s) = sy_seen s"
    by (auto simp: drop_tabs_def applyTree_def split: option.splits prod.splits)
qed

text \<open>Closed on the machine: listed as open earlier in the same run of its application, and no longer.\<close>

definition closed_there :: "host_listing \<Rightarrow> sync_state \<Rightarrow> string \<Rightarrow> bool" where
  "closed_there listing s i \<longleftrightarrow>
     (\<exists>tabs. hl_tabs listing = Some tabs \<and> i \<notin> set tabs \<and> hl_run listing = seen_run (sy_seen s) \<and> i \<in> seen_ids (sy_seen s))"

lemma drop_closed_result:
  assumes "state_ok s"
  shows "state_ok (dropClosed listing s)" "open_ids (dropClosed listing s) = filter (\<lambda>i. \<not> closed_there listing s i) (open_ids s)"
    "set (open_ids (dropClosed listing s)) \<inter> pt_claimed (sy_terms s) \<subseteq> pt_claimed (sy_terms (dropClosed listing s))"
    "pt_claimed (sy_terms s) - set (open_ids s) \<subseteq> pt_claimed (sy_terms (dropClosed listing s))"
proof -
  obtain gone seen where seen: "hostClosedTabs (sy_seen s) listing (open_ids s) = (gone, seen)" by fastforce
  have gone: "i \<in> set gone \<longleftrightarrow> i \<in> set (open_ids s) \<and> closed_there listing s i" for i
    using seen by (auto simp: hostClosedTabs_def closed_there_def Let_def split: option.splits if_splits)
  have ok: "state_ok (s\<lparr>sy_seen := seen\<rparr>)" using assms by (simp add: state_ok_def)
  note drop = drop_result [OF ok, of gone]
  have eq: "dropClosed listing s = (if sy_tree s = None then s else drop_tabs gone (s\<lparr>sy_seen := seen\<rparr>))"
    by (simp add: dropClosed_def seen)
  show "state_ok (dropClosed listing s)" using assms drop by (simp add: eq)
  show ids: "open_ids (dropClosed listing s) = filter (\<lambda>i. \<not> closed_there listing s i) (open_ids s)"
    using drop(2) gone by (auto simp: eq open_tree tree_ids_def intro!: filter_cong)
  show "set (open_ids (dropClosed listing s)) \<inter> pt_claimed (sy_terms s) \<subseteq> pt_claimed (sy_terms (dropClosed listing s))"
    "pt_claimed (sy_terms s) - set (open_ids s) \<subseteq> pt_claimed (sy_terms (dropClosed listing s))"
    using drop(3) gone unfolding ids by (auto simp: eq)
qed

section \<open>Properties of the sync\<close>

lemma finish_simps [simp]:
  "sy_tree (finish s) = sy_tree s" "sy_focused (finish s) = sy_focused s" "sy_terms (finish s) = sy_terms s" "sy_seen (finish s) = sy_seen s"
  by (simp_all add: finish_def sync_def Let_def)

lemma sync_simps [simp]:
  "sy_tree (sync s) = sy_tree s" "sy_focused (sync s) = sy_focused s" "sy_terms (sync s) = sy_terms s" "sy_seen (sync s) = sy_seen s"
  by (simp_all add: sync_def)

lemma open_ids_cong: "sy_tree s = sy_tree s' \<Longrightarrow> open_ids s = open_ids s'"
  by (simp add: open_ids_def)

lemma listed_handled:
  fixes fresh_pane :: string and pending :: "string list"
  assumes "\<not> sy_disposed s" "v \<noteq> JNull" "\<not> isPeerStartInFlight (pl_slug e) (sy_terms s)"
  defines "s1 \<equiv> adopt e fresh_pane pending (parseHostListing v)
     (s\<lparr>sy_follows := noteHostFollows (pl_project e) (hl_follow (parseHostListing v)) (sy_follows s)\<rparr>)"
  shows "sy_tree (on_listed e fresh_pane pending (Some v) s) = sy_tree (dropClosed (parseHostListing v) s1)"
    "sy_focused (on_listed e fresh_pane pending (Some v) s) = sy_focused (dropClosed (parseHostListing v) s1)"
    "sy_terms (on_listed e fresh_pane pending (Some v) s) = sy_terms (dropClosed (parseHostListing v) s1)"
  using assms by (simp_all add: on_listed_def Let_def)

lemma handled_result:
  fixes pending :: "string list" and fresh_pane :: string
  assumes "state_ok s" "listing_ok (parseHostListing v)" "\<not> sy_disposed s" "v \<noteq> JNull"
    "\<not> isPeerStartInFlight (pl_slug e) (sy_terms s)"
  defines "listing \<equiv> parseHostListing v" and "s' \<equiv> on_listed e fresh_pane pending (Some v) s"
  defines "new \<equiv> newcomers pending listing s"
  shows "state_ok s'" "\<exists>moves. moves_made e new listing s moves \<and>
      filter (\<lambda>i. i \<notin> ht_id ` set new - snd ` set moves) (open_ids s') =
        filter (\<lambda>i. \<not> closed_there listing s i) (map (renamed moves) (open_ids s)) \<and>
      set (open_ids s') = {i \<in> set (map (renamed moves) (open_ids s)). \<not> closed_there listing s i} \<union> ht_id ` set new"
    "{i \<in> set (open_ids s'). isPeerName i} \<subseteq> pt_claimed (sy_terms s')"
    "pt_claimed (sy_terms s) - set (open_ids s) \<subseteq> pt_claimed (sy_terms s') - set (open_ids s')"
proof -
  let ?listing = "parseHostListing v"
  let ?new = "newcomers pending ?listing s"
  note defs = listing_def s'_def new_def
  let ?s = "s\<lparr>sy_follows := noteHostFollows (pl_project e) (hl_follow ?listing) (sy_follows s)\<rparr>"
  let ?s1 = "adopt e fresh_pane pending ?listing ?s"
  let ?s2 = "on_listed e fresh_pane pending (Some v) s"
  note handled = listed_handled [OF assms(3-5), of fresh_pane pending]
  have same: "state_ok ?s" "newcomers pending ?listing ?s = ?new" "open_ids ?s = open_ids s"
      "moves_made e ?new ?listing ?s = moves_made e ?new ?listing s"
    using assms(1) by (auto simp: state_ok_def newcomers_def open_tree moves_made_def goes_on_def fun_eq_iff)
  from adopt_result [OF same(1) assms(2), of e fresh_pane pending] obtain moves where
    s1: "state_ok ?s1" "moves_made e ?new ?listing s moves"
      "filter (\<lambda>i. i \<notin> ht_id ` set ?new - snd ` set moves) (open_ids ?s1) = map (renamed moves) (open_ids s)"
      "set (open_ids ?s1) = set (map (renamed moves) (open_ids s)) \<union> ht_id ` set ?new"
      "pt_claimed (sy_terms ?s1) = pt_claimed (sy_terms s) \<union> {i \<in> set (open_ids s) \<union> set pending. isPeerName i} \<union> ht_id ` set ?new"
      "sy_seen ?s1 = sy_seen s"
    unfolding same by auto
  note within = moves_within [OF s1(2)] and ren = moves_renamed [OF s1(2)]
  note drop = drop_closed_result [OF s1(1), of ?listing]
  have there: "closed_there ?listing ?s1 i \<longleftrightarrow> closed_there ?listing s i" for i by (simp add: closed_there_def s1(6))
  have ids: "open_ids ?s2 = filter (\<lambda>i. \<not> closed_there ?listing s i) (open_ids ?s1)"
    using drop(2) there by (simp add: open_tree handled(1))
  have new: "\<not> closed_there ?listing s i" if "i \<in> ht_id ` set ?new" for i
    using assms(2) that by (auto simp: listing_ok_def closed_there_def newcomers_def)
  show "state_ok s'" using drop(1) by (simp add: state_ok_def handled(1,2) defs)
  have "filter (\<lambda>i. i \<notin> ht_id ` set ?new - snd ` set moves) (open_ids ?s2) =
      filter (\<lambda>i. \<not> closed_there ?listing s i) (filter (\<lambda>i. i \<notin> ht_id ` set ?new - snd ` set moves) (open_ids ?s1))"
    unfolding ids by (simp only: filter_filter conj_commute)
  then have order: "filter (\<lambda>i. i \<notin> ht_id ` set ?new - snd ` set moves) (open_ids ?s2) =
      filter (\<lambda>i. \<not> closed_there ?listing s i) (map (renamed moves) (open_ids s))"
    unfolding s1(3) .
  have "set (open_ids ?s2) = {i \<in> set (map (renamed moves) (open_ids s)). \<not> closed_there ?listing s i} \<union> ht_id ` set ?new"
    unfolding ids using s1(4) new by auto
  with order s1(2) show "\<exists>moves. moves_made e new listing s moves \<and>
      filter (\<lambda>i. i \<notin> ht_id ` set new - snd ` set moves) (open_ids s') =
        filter (\<lambda>i. \<not> closed_there listing s i) (map (renamed moves) (open_ids s)) \<and>
      set (open_ids s') = {i \<in> set (map (renamed moves) (open_ids s)). \<not> closed_there listing s i} \<union> ht_id ` set new"
    unfolding defs by blast
  have all: "set (open_ids ?s2) \<subseteq> set (open_ids ?s1)" unfolding ids by auto
  show "{i \<in> set (open_ids s'). isPeerName i} \<subseteq> pt_claimed (sy_terms s')"
  proof -
    have "i \<in> pt_claimed (sy_terms ?s1)" if "i \<in> set (open_ids ?s1)" "isPeerName i" for i
      using that within(2) unfolding s1(4,5) ren by auto
    then show ?thesis unfolding defs using drop(3) all by (fastforce simp: handled open_tree)
  qed
  have "pt_claimed (sy_terms s) - set (open_ids s) \<subseteq> pt_claimed (sy_terms ?s1) - set (open_ids ?s1)"
    using within(2) unfolding s1(4,5) ren by (auto simp: newcomers_def)
  then show "pt_claimed (sy_terms s) - set (open_ids s) \<subseteq> pt_claimed (sy_terms s') - set (open_ids s')"
    unfolding defs using drop(4) all by (auto simp: handled)
qed

text \<open>Property C12: one listing of a machine is followed to the letter. Every terminal it lists that this machine
  never had a tab for is open afterwards, and nothing else has opened. A conversation that goes on in one of
  these takes its tab along: every such tab is moved, unless all the terminals it could go on in took another
  tab. A tab that was open is gone exactly when it was moved or when the machine closed it - it listed it earlier
  in this run of its application, and does no longer. The tabs that remain stand as they stood, the new terminal
  of a moved one in its place. Panes and tabs stay unique and the pane in focus exists; every tab of a machine
  that is open afterwards counts as had, so none of them is opened again. Asked of the listing: it names no
  terminal twice, and its tabs hold all its terminals.\<close>

theorem listing_followed:
  fixes pending :: "string list"
  assumes "state_ok s" "listing_ok (parseHostListing v)" "\<not> sy_disposed s" "v \<noteq> JNull"
    "\<not> isPeerStartInFlight (pl_slug e) (sy_terms s)"
  shows "let listing = parseHostListing v; new = newcomers pending listing s; s' = on_listed e fresh_pane pending (Some v) s in
    \<exists>moves. moves_made e new listing s moves \<and> state_ok s' \<and>
      ht_id ` set new \<subseteq> set (open_ids s') \<and> set (open_ids s') \<subseteq> set (open_ids s) \<union> ht_id ` set new \<and>
      (\<forall>i\<in>set (open_ids s). i \<notin> set (open_ids s') \<longleftrightarrow> closed_there listing s i \<or> i \<in> fst ` set moves) \<and>
      filter (\<lambda>i. i \<notin> ht_id ` set new - snd ` set moves) (open_ids s') =
        filter (\<lambda>i. \<not> closed_there listing s i) (map (renamed moves) (open_ids s)) \<and>
      {i \<in> set (open_ids s'). isPeerName i} \<subseteq> pt_claimed (sy_terms s')"
proof -
  define listing where "listing = parseHostListing v"
  define new where "new = newcomers pending listing s"
  define s' where "s' = on_listed e fresh_pane pending (Some v) s"
  note handled = handled_result [OF assms, where fresh_pane = fresh_pane and pending = pending, folded listing_def,
    folded new_def s'_def]
  from handled(2) obtain moves where m: "moves_made e new listing s moves"
      "filter (\<lambda>i. i \<notin> ht_id ` set new - snd ` set moves) (open_ids s') =
        filter (\<lambda>i. \<not> closed_there listing s i) (map (renamed moves) (open_ids s))"
      "set (open_ids s') = {i \<in> set (map (renamed moves) (open_ids s)). \<not> closed_there listing s i} \<union> ht_id ` set new" by blast
  have unopened: "ht_id ` set new \<inter> set (open_ids s) = {}" by (auto simp: new_def newcomers_def)
  have "set (open_ids s') = {i \<in> (set (open_ids s) - fst ` set moves) \<union> snd ` set moves. \<not> closed_there listing s i} \<union> ht_id ` set new"
    using m(3) unfolding moves_renamed [OF m(1)] .
  then have all: "i \<in> set (open_ids s') \<longleftrightarrow>
      ((i \<in> set (open_ids s) \<and> i \<notin> fst ` set moves \<or> i \<in> snd ` set moves) \<and> \<not> closed_there listing s i) \<or> i \<in> ht_id ` set new" for i
    by blast
  have tos: "i \<in> snd ` set moves \<Longrightarrow> i \<in> ht_id ` set new" for i using moves_within(2) [OF m(1)] by blast
  have "ht_id ` set new \<subseteq> set (open_ids s')" "set (open_ids s') \<subseteq> set (open_ids s) \<union> ht_id ` set new"
    using all tos by blast+
  moreover have "\<forall>i\<in>set (open_ids s). i \<notin> set (open_ids s') \<longleftrightarrow> closed_there listing s i \<or> i \<in> fst ` set moves"
    unfolding all using unopened tos by blast
  ultimately show ?thesis
    unfolding Let_def listing_def [symmetric] new_def [symmetric] s'_def [symmetric]
    using m(1,2) handled(1,3) by blast
qed

section \<open>Runs\<close>

text \<open>What is asked of the events: a listing keeps its promise, an edit leaves a tree with one tab per terminal.\<close>

fun event_ok :: "sync_event \<Rightarrow> bool" where
  "event_ok (Listed fresh_pane pending (Some v)) \<longleftrightarrow> listing_ok (parseHostListing v)"
| "event_ok (Edited tree focused) \<longleftrightarrow> tree_ok tree focused"
| "event_ok _ \<longleftrightarrow> True"

inductive sync_run :: "sync_place \<Rightarrow> sync_state \<Rightarrow> sync_event list \<Rightarrow> sync_state \<Rightarrow> bool" for e where
  none: "sync_run e s [] s"
| some: "sync_step e s ev s' \<Longrightarrow> sync_run e s' evs s'' \<Longrightarrow> sync_run e s (ev # evs) s''"

inductive_cases sync_run_cases: "sync_run e s (ev # evs) s'"

lemma follow_result:
  assumes "state_ok s"
  shows "state_ok (follow e listing s)" "set (open_ids (follow e listing s)) = set (open_ids s)" "sy_terms (follow e listing s) = sy_terms s"
proof -
  have "state_ok (follow e listing s) \<and> set (open_ids (follow e listing s)) = set (open_ids s)"
  proof (cases "sy_tree s")
    case (Some tree)
    have "state_ok (applyTree (Some (followHostTabs (pl_win e) tree terminals order)) None s) \<and>
        set (open_ids (applyTree (Some (followHostTabs (pl_win e) tree terminals order)) None s)) = set (open_ids s)" for terminals order
    proof -
      have wf: "wf_tree tree" "distinct (tab_ids tree)" using assms by (auto simp: state_ok_def tree_ok_def Some)
      note panes = follow_panes [OF wf(1), of "pl_win e" terminals order]
      have "mset (concat (map (map t_id \<circ> p_tabs \<circ> follow_pane (pl_win e) terminals order) ps)) = mset (concat (map (map t_id \<circ> p_tabs) ps))" for ps
        using named_tabs_slots(1) [of "pl_win e" terminals order] by (induction ps) simp_all
      then have same: "mset (tab_ids (followHostTabs (pl_win e) tree terminals order)) = mset (tab_ids tree)"
        by (simp add: collectTerminals_panes panes(1) map_concat comp_assoc)
      then have "distinct (tab_ids (followHostTabs (pl_win e) tree terminals order))" using wf(2) mset_eq_imp_distinct_iff by blast
      then show ?thesis
        using assms panes mset_eq_setD [OF same]
        by (auto simp: state_ok_def tree_ok_def applyTree_def Some open_tree tree_ids_def image_iff)
    qed
    then show ?thesis using assms by (auto simp: follow_def Some Let_def)
  qed (use assms in \<open>simp add: follow_def\<close>)
  then show "state_ok (follow e listing s)" "set (open_ids (follow e listing s)) = set (open_ids s)" by auto
  show "sy_terms (follow e listing s) = sy_terms s" by (auto simp: follow_def applyTree_def Let_def split: option.splits)
qed

lemma listed_ignored:
  assumes "sy_disposed s \<or> answer = None \<or> answer = Some JNull \<or> isPeerStartInFlight (pl_slug e) (sy_terms s)"
  shows "sy_tree (on_listed e fresh_pane pending answer s) = sy_tree s" "sy_focused (on_listed e fresh_pane pending answer s) = sy_focused s"
    "sy_terms (on_listed e fresh_pane pending answer s) = sy_terms s"
  using assms by (auto simp: on_listed_def split: option.splits)

lemma listed_cases:
  obtains (ignored) "sy_disposed s \<or> answer = None \<or> answer = Some JNull \<or> isPeerStartInFlight (pl_slug e) (sy_terms s)"
  | (handled) v where "answer = Some v" "\<not> sy_disposed s" "v \<noteq> JNull" "\<not> isPeerStartInFlight (pl_slug e) (sy_terms s)"
  by (cases answer) auto

lemma sync_step_ok: "sync_step e s ev s' \<Longrightarrow> event_ok ev \<Longrightarrow> state_ok s \<Longrightarrow> state_ok s'"
proof (induction rule: sync_step.induct)
  case (listed s fresh_pane pending answer)
  show ?case
  proof (cases rule: listed_cases [of s answer e])
    case ignored
    then show ?thesis using listed.prems(2) by (simp add: state_ok_def listed_ignored)
  next
    case (handled v)
    then show ?thesis using handled_result(1) [OF listed.prems(2) _ handled(2-4)] listed.prems(1) by simp
  qed
next
  case (answered s listing left alive)
  have "state_ok (s\<lparr>sy_wait := ForFollow listing\<rparr>)" using answered.prems by (simp add: state_ok_def)
  then show ?case using drop_result(1) by (simp add: on_alive_def Let_def)
next
  case (resumed s listing)
  then show ?case using follow_result(1) [of s e listing] by (simp add: on_follow_def state_ok_def)
qed (simp_all add: state_ok_def)

text \<open>Property C25: however answers, starts, edits and restarts of the sync interleave, the tree stays sound: panes are
  unique, no terminal of a machine is open in two tabs, and the pane in focus exists. Listings name no terminal
  twice, and an edit by the rest of the application leaves the tree sound.\<close>

theorem sync_keeps_tree:
  assumes "sync_run e s evs s'" "state_ok s" "\<forall>ev\<in>set evs. event_ok ev"
  shows "state_ok s'"
  using assms by (induction rule: sync_run.induct) (auto dest: sync_step_ok)

text \<open>A tab closed here: had before, not open, and not among those asked about.\<close>

definition stays_closed :: "string \<Rightarrow> sync_state \<Rightarrow> bool" where
  "stays_closed i s \<longleftrightarrow> i \<in> pt_claimed (sy_terms s) \<and> i \<notin> set (open_ids s) \<and>
     (\<forall>listing left. sy_wait s = ForAlive listing left \<longrightarrow> i \<notin> set left)"

lemma finish_wait: "sy_wait (finish s) \<in> {Idle, ForListing}" "sy_wait (sync s) \<in> {sy_wait s, ForListing}"
  by (auto simp: finish_def sync_def Let_def)

lemma finish_not_alive [simp]: "sy_wait (finish s) \<noteq> ForAlive listing left"
  by (auto simp: finish_def sync_def Let_def)

lemma step_closed:
  assumes "sync_step e s ev s'" "event_ok ev" "state_ok s" "stays_closed i s" "\<And>tree f. ev = Edited tree f \<Longrightarrow> i \<notin> set (tree_ids tree)"
  shows "stays_closed i s'"
  using assms
proof (induction rule: sync_step.induct)
  case (wake s)
  then show ?case using finish_wait(2) [of s] by (auto simp: stays_closed_def open_tree)
next
  case (retry s)
  then show ?case using finish_wait(2) [of "s\<lparr>sy_retry := False\<rparr>"] by (auto simp: stays_closed_def open_tree)
next
  case (listed s fresh_pane pending answer)
  show ?case
  proof (cases rule: listed_cases [of s answer e])
    case ignored
    then have "sy_wait (on_listed e fresh_pane pending answer s) \<in> {Idle, ForListing}"
      using finish_wait(1) by (auto simp: on_listed_def split: option.splits)
    then show ?thesis using ignored listed.prems by (auto simp: stays_closed_def listed_ignored open_tree)
  next
    case (handled v)
    let ?s' = "on_listed e fresh_pane pending (Some v) s"
    have "i \<notin> set (open_ids ?s') \<and> i \<in> pt_claimed (sy_terms ?s')"
      using handled_result(4) [OF listed.prems(2) _ handled(2-4)] listed.prems(1,3) handled(1) by (auto simp: stays_closed_def)
    moreover have "i \<notin> set left" if "sy_wait ?s' = ForAlive listing left" for listing left
    proof -
      have "left_by_restart prev l t = left \<Longrightarrow> set left \<subseteq> set (open_ids t)" for prev l t
        by (auto simp: left_by_restart_def tabsLeftByRestart_def split: option.splits if_splits)
      then have "set left \<subseteq> set (open_ids ?s')"
        using that handled by (fastforce simp: on_listed_def Let_def open_tree split: if_splits)
      then show ?thesis using calculation by auto
    qed
    ultimately show ?thesis using handled(1) by (simp add: stays_closed_def)
  qed
next
  case (answered s listing left alive)
  let ?s = "s\<lparr>sy_wait := ForFollow listing\<rparr>"
  let ?gone = "map fst (filter (\<lambda>(_, a). \<not> a) (zip left alive))"
  have ok: "state_ok ?s" using answered.prems by (simp add: state_ok_def)
  have "i \<notin> set ?gone" using answered.prems(3) answered.hyps(1) by (auto simp: stays_closed_def dest: set_zip_leftD)
  then show ?case
    using drop_result [OF ok, of ?gone] answered.prems(3)
    by (auto simp: on_alive_def Let_def stays_closed_def open_tree drop_tabs_def applyTree_def split: option.splits prod.splits)
next
  case (resumed s listing)
  then show ?case
    using follow_result [of s e listing]
    by (auto simp: on_follow_def stays_closed_def open_tree) 
next
  case (start_sent s)
  then show ?case by (simp add: stays_closed_def beginPeerStart_def open_tree)
next
  case (started s answer)
  then show ?case
    by (auto simp: stays_closed_def start_done_def endPeerStart_def claimPeerTerminal_def open_tree Let_def split: option.splits)
qed (auto simp: stays_closed_def open_tree)

text \<open>Property C11: a tab of a machine that was closed here stays closed. As long as the user does not open it again,
  no listing brings it back, though the machine may list its terminal for a while - whatever else happens in
  between.\<close>

theorem closed_tab_stays_closed:
  assumes "sync_run e s evs s'" "state_ok s" "\<forall>ev\<in>set evs. event_ok ev" "stays_closed i s"
    "\<forall>tree f. Edited tree f \<in> set evs \<longrightarrow> i \<notin> set (tree_ids tree)"
  shows "i \<notin> set (open_ids s')"
proof -
  have "stays_closed i s'" using assms
  proof (induction rule: sync_run.induct)
    case (some s ev s' evs s'')
    then have "stays_closed i s'" "state_ok s'" using step_closed [of e s ev s' i] sync_step_ok [of e s ev s'] by auto
    then show ?case using some by auto
  qed simp
  then show ?thesis by (simp add: stays_closed_def)
qed
section \<open>An example\<close>

definition sync_place_example :: sync_place where
  "sync_place_example = \<lparr>pl_win = False, pl_uuid = (\<lambda>i. i), pl_project = ''peer-00ff12ab-web'', pl_slug = ''00ff12ab''\<rparr>"

definition listing_example :: json where
  "listing_example = JObj
     [(''terminals'', JArr [JObj [(''id'', JStr ''peer-00ff12ab-2'')], JObj [(''id'', JStr ''peer-00ff12ab-3''), (''label'', JStr ''Build'')]]),
      (''tabs'', JArr [JStr ''peer-00ff12ab-2'', JStr ''peer-00ff12ab-3'']), (''run'', JStr ''r'')]"

text \<open>Two tabs of the machine and one of this machine are open; \<open>had\<close> are the terminals there were tabs for.\<close>

definition syncing_example :: "string set \<Rightarrow> sync_state" where
  "syncing_example had = (sync_start (Some (Leaf shown_pane)) None \<lparr>pt_claimed = had, pt_starts = Map.empty\<rparr> Map.empty)
     \<lparr>sy_seen := \<lparr>seen_run = Some ''r'', seen_ids = {''peer-00ff12ab-1'', ''peer-00ff12ab-2''}\<rparr>\<rparr>"

lemma listing_example_read:
  "hl_tabs (parseHostListing listing_example) = Some [''peer-00ff12ab-2'', ''peer-00ff12ab-3'']"
  "hl_run (parseHostListing listing_example) = Some ''r''"
  "map ht_id (hostTerminalsOf (hl_terminals (parseHostListing listing_example))) = [''peer-00ff12ab-2'', ''peer-00ff12ab-3'']"
  "listing_ok (parseHostListing listing_example)" "listing_example \<noteq> JNull"
proof -
  show read: "hl_tabs (parseHostListing listing_example) = Some [''peer-00ff12ab-2'', ''peer-00ff12ab-3'']"
    "hl_run (parseHostListing listing_example) = Some ''r''"
    "map ht_id (hostTerminalsOf (hl_terminals (parseHostListing listing_example))) = [''peer-00ff12ab-2'', ''peer-00ff12ab-3'']"
    by code_simp+
  then show "listing_ok (parseHostListing listing_example)" by (simp add: listing_ok_def flip: set_map)
  show "listing_example \<noteq> JNull" by (simp add: listing_example_def)
qed

lemma syncing_example_simps:
  "state_ok (syncing_example had)" "open_ids (syncing_example had) = [''peer-00ff12ab-1'', ''7'', ''peer-00ff12ab-2'']"
  "\<not> sy_disposed (syncing_example had)" "\<not> isPeerStartInFlight slug (sy_terms (syncing_example had))"
  "sy_wait (syncing_example had) = ForListing" "pt_claimed (sy_terms (syncing_example had)) = had"
  using shown_pane_simps(1-3)
  by (auto simp: syncing_example_def sync_start_def state_ok_def tree_ok_def open_ids_def isPeerStartInFlight_def collectTerminals_panes
      shown_pane_def makePaneLeaf_def bare_tab_def)

theorem listing_followed_witness:
  "let s' = on_listed sync_place_example ''q'' [] (Some listing_example) (syncing_example {})
   in ''peer-00ff12ab-3'' \<in> set (open_ids s') \<and> ''peer-00ff12ab-1'' \<notin> set (open_ids s')"
proof -
  let ?s = "syncing_example {}"
  have three: "''peer-00ff12ab-3'' \<in> set (filter (\<lambda>i. i \<notin> pt_claimed (sy_terms ?s) \<union> set (open_ids ?s) \<union> set [])
      (map ht_id (hostTerminalsOf (hl_terminals (parseHostListing listing_example)))))"
    by (simp add: listing_example_read syncing_example_simps)
  then have new: "''peer-00ff12ab-3'' \<in> ht_id ` set (newcomers [] (parseHostListing listing_example) ?s)"
    by (auto simp: newcomers_def)
  have gone: "closed_there (parseHostListing listing_example) ?s ''peer-00ff12ab-1''" "''peer-00ff12ab-1'' \<in> set (open_ids ?s)"
    by (simp_all add: closed_there_def listing_example_read syncing_example_simps(2)) (simp add: syncing_example_def)
  show ?thesis
    using listing_followed [OF syncing_example_simps(1) [of "{}"] listing_example_read(4) syncing_example_simps(3) listing_example_read(5)
        syncing_example_simps(4), where e = sync_place_example and pending = "[]" and fresh_pane = "''q''"] new gone
    by (auto simp: Let_def)
qed

lemma example_run:
  "sync_run sync_place_example (syncing_example had) [Listed ''q'' [] (Some listing_example)]
     (on_listed sync_place_example ''q'' [] (Some listing_example) (syncing_example had))"
  by (rule sync_run.some [OF sync_step.listed sync_run.none]) (rule syncing_example_simps)

theorem sync_keeps_tree_witness:
  "state_ok (on_listed sync_place_example ''q'' [] (Some listing_example) (syncing_example {}))"
  by (rule sync_keeps_tree [OF example_run]) (simp_all add: syncing_example_simps listing_example_read)

theorem closed_tab_stays_closed_witness:
  "''peer-00ff12ab-3'' \<notin> set (open_ids (on_listed sync_place_example ''q'' [] (Some listing_example) (syncing_example {''peer-00ff12ab-3''})))"
  by (rule closed_tab_stays_closed [OF example_run])
    (simp_all add: syncing_example_simps listing_example_read stays_closed_def)

end
