(* ===== verification/ScheduleDraft.thy ===== *)
theory ScheduleDraft
  imports Occurrences AgentCommands
begin

text \<open>
  The schedule half of the job editor's draft (\<open>jobsScheduleDraft.ts\<close>, the fields of \<open>JobDraft\<close> and
  \<open>defaultJobDraft\<close> of \<open>jobsFormat.ts\<close> it reads): the YAML block a draft writes, the draft a block opens as,
  the checks before a save, and the schedule the rest of the application draws. The messages of the checks
  are the constructors of \<open>schedule_error\<close>. The numbers of a draft are whole; a text that is read as a
  number is a whole decimal number or not a number. Where \<^const>\<open>parseCron\<close> throws, so do its callers, which
  here treat it as a line they refuse.
\<close>

section \<open>Drafts\<close>

datatype schedule_kind = Form | CronLine
datatype schedule_mode = AtTime | EveryInterval | ByHand
datatype day_rule = OnWeekdays | OnDates | OnNth | OnOnce
datatype interval_unit = Minutes | Hours | Days

record schedule_draft =
  sd_kind :: schedule_kind
  sd_cron :: string
  sd_mode :: schedule_mode
  sd_time :: string
  sd_moreTimes :: "string list"
  sd_dayRule :: day_rule
  sd_days :: "string list"
  sd_monthDates :: "int list"
  sd_lastDay :: bool
  sd_shortMonths :: string
  sd_nth :: string
  sd_nthOf :: string
  sd_onceDate :: string
  sd_randomWindow :: bool
  sd_untilTime :: string
  sd_timesPerDay :: int
  sd_randomDays :: bool
  sd_pickDays :: int
  sd_intervalValue :: int
  sd_intervalUnit :: interval_unit
  sd_varyInterval :: bool
  sd_intervalMaxValue :: int
  sd_intervalWindow :: bool
  sd_intervalFrom :: string
  sd_intervalUntil :: string
  sd_intervalDays :: "string list"

definition defaultJobDraft :: schedule_draft where
  "defaultJobDraft =
     \<lparr>sd_kind = Form, sd_cron = [], sd_mode = AtTime, sd_time = ''09:00'', sd_moreTimes = [], sd_dayRule = OnWeekdays,
      sd_days = [], sd_monthDates = [1], sd_lastDay = False, sd_shortMonths = ''skip'', sd_nth = ''first'', sd_nthOf = ''mon'',
      sd_onceDate = [], sd_randomWindow = False, sd_untilTime = ''17:00'', sd_timesPerDay = 1, sd_randomDays = False,
      sd_pickDays = 1, sd_intervalValue = 6, sd_intervalUnit = Hours, sd_varyInterval = False, sd_intervalMaxValue = 12,
      sd_intervalWindow = False, sd_intervalFrom = ''09:00'', sd_intervalUntil = ''18:00'', sd_intervalDays = []\<rparr>"

fun UNIT_SECS :: "interval_unit \<Rightarrow> int" where
  "UNIT_SECS Minutes = 60" | "UNIT_SECS Hours = 3600" | "UNIT_SECS Days = 86400"

definition MIN_INTERVAL_SECS :: int where "MIN_INTERVAL_SECS = 300"

text \<open>\<open>/^(\d{1,2}):(\d{2})$/\<close> of the trimmed text.\<close>

definition parseTimeToMinutes :: "string \<Rightarrow> int option" where
  "parseTimeToMinutes time =
     (case split_on CHR '':'' (trim time) of
        [h, m] \<Rightarrow>
          if all_digits h \<and> length h \<le> 2 \<and> all_digits m \<and> length m = 2
          then (if str_nat h > 23 \<or> str_nat m > 59 then None else Some (int (str_nat h) * 60 + int (str_nat m)))
          else None
      | _ \<Rightarrow> None)"

definition orderDays :: "string list \<Rightarrow> string list" where
  "orderDays days = filter (\<lambda>d. d \<in> set days) WEEKDAYS"

definition intervalSecs :: "schedule_draft \<Rightarrow> int" where
  "intervalSecs draft = sd_intervalValue draft * UNIT_SECS (sd_intervalUnit draft)"

definition intervalMaxSecs :: "schedule_draft \<Rightarrow> int option" where
  "intervalMaxSecs draft =
     (if \<not> sd_varyInterval draft then None else Some (sd_intervalMaxValue draft * UNIT_SECS (sd_intervalUnit draft)))"

definition draftUntilMinutes :: "schedule_draft \<Rightarrow> int option" where
  "draftUntilMinutes draft = (if \<not> sd_randomWindow draft then None else parseTimeToMinutes (sd_untilTime draft))"

definition draftPickDays :: "schedule_draft \<Rightarrow> int option" where
  "draftPickDays draft =
     (if sd_dayRule draft \<noteq> OnWeekdays \<or> \<not> sd_randomDays draft \<or> sd_pickDays draft < 1 then None
      else let pool = (if length (sd_days draft) = 0 then 7 else length (sd_days draft))
           in if int pool \<le> sd_pickDays draft then None else Some (sd_pickDays draft))"

definition draftTimes :: "schedule_draft \<Rightarrow> int list option" where
  "draftTimes draft =
     map_option (\<lambda>minutes. sort_by compareNumbers (to_set minutes))
       (those (map parseTimeToMinutes (if sd_randomWindow draft then [sd_time draft] else sd_time draft # sd_moreTimes draft)))"

definition draftDaysValue :: "schedule_draft \<Rightarrow> days_value" where
  "draftDaysValue draft =
     (case sd_dayRule draft of
        OnDates \<Rightarrow> Dates (sd_monthDates draft) (sd_lastDay draft)
      | OnNth \<Rightarrow> Nth (sd_nth draft) (sd_nthOf draft)
      | OnOnce \<Rightarrow> Once (if sd_onceDate draft \<noteq> [] then [sd_onceDate draft] else [])
      | OnWeekdays \<Rightarrow> Week (sd_days draft))"

definition writesShortMonths :: "schedule_draft \<Rightarrow> bool" where
  "writesShortMonths draft =
     (sd_dayRule draft = OnDates \<and> sd_shortMonths draft = ''last'' \<and> (\<exists>d\<in>set (sd_monthDates draft). 28 < d))"

section \<open>The schedule of a draft\<close>

definition no_date_rule :: date_rule where
  "no_date_rule = \<lparr>dr_monthDays = None, dr_lastDay = None, dr_shortMonths = None, dr_nth = None, dr_nthOf = None, dr_onDates = None\<rparr>"

text \<open>\<open>schedule.days\<close>, \<open>pickDays\<close> and the date fields, or nothing when no day is picked.\<close>

definition draft_days :: "schedule_draft \<Rightarrow> (string list \<times> int option \<times> date_rule) option" where
  "draft_days draft =
     (case draftDaysValue draft of
        Week days \<Rightarrow> Some (days, draftPickDays draft, no_date_rule)
      | Dates dates last_day \<Rightarrow>
          if dates = [] \<and> \<not> last_day then None
          else Some ([], None, no_date_rule\<lparr>dr_monthDays := Some dates, dr_lastDay := (if last_day then Some True else None),
            dr_shortMonths := (if writesShortMonths draft then Some ''last'' else None)\<rparr>)
      | Nth pos w \<Rightarrow> Some ([], None, no_date_rule\<lparr>dr_nth := Some pos, dr_nthOf := Some w\<rparr>)
      | Once dates \<Rightarrow> if dates = [] then None else Some ([], None, no_date_rule\<lparr>dr_onDates := Some dates\<rparr>))"

definition interval_of_draft :: "schedule_draft \<Rightarrow> interval_schedule option" where
  "interval_of_draft draft =
     (let ordered = orderDays (sd_intervalDays draft);
          days = (if 0 < length ordered \<and> length ordered < 7 then Some ordered else None);
          every = \<lparr>is_everySecs = intervalSecs draft, is_everyMaxSecs = intervalMaxSecs draft,
            is_fromMinutes = None, is_untilMinutes = None, is_days = days\<rparr>
      in if \<not> sd_intervalWindow draft then Some every
         else case (parseTimeToMinutes (sd_intervalFrom draft), parseTimeToMinutes (sd_intervalUntil draft)) of
           (Some from_m, Some until_m) \<Rightarrow> Some (every\<lparr>is_fromMinutes := Some from_m, is_untilMinutes := Some until_m\<rparr>)
         | _ \<Rightarrow> None)"

definition calendar_of_draft :: "schedule_draft \<Rightarrow> calendar_schedule option" where
  "calendar_of_draft draft =
     (case draftTimes draft of
        None \<Rightarrow> None
      | Some ts \<Rightarrow>
          (let until_m = draftUntilMinutes draft in
           if sd_randomWindow draft \<and> until_m = None then None
           else map_option (\<lambda>(days, pick, rule).
             \<lparr>ca_atMinutes = hd ts, ca_alsoAtMinutes = (if 1 < length ts then Some (tl ts) else None), ca_days = days,
              ca_untilMinutes = until_m, ca_times = Some (if sd_randomWindow draft then max 1 (sd_timesPerDay draft) else 1),
              ca_pickDays = pick, ca_rule = rule\<rparr>) (draft_days draft)))"

definition draftToSchedule :: "schedule_draft \<Rightarrow> job_schedule option" where
  "draftToSchedule draft =
     (if sd_kind draft = CronLine
      then (case parseCron (sd_cron draft) of Inl _ \<Rightarrow> None | Inr spec \<Rightarrow> Some (Cron (cs_source spec)))
      else case sd_mode draft of
        ByHand \<Rightarrow> Some ManualRun
      | EveryInterval \<Rightarrow> map_option Interval (interval_of_draft draft)
      | AtTime \<Rightarrow> map_option Calendar (calendar_of_draft draft))"

section \<open>The block of a draft\<close>

text \<open>The values of the block; \<open>undefined\<close> is an absent key.\<close>

datatype block_value = BYaml yaml | BBool bool

type_synonym schedule_block = "(string \<times> block_value) list"

definition block_field :: "schedule_block \<Rightarrow> string \<Rightarrow> block_value" where
  "block_field block k = (case map_of block k of None \<Rightarrow> BYaml YUndefined | Some v \<Rightarrow> v)"

definition with_days :: "yaml \<Rightarrow> schedule_block" where
  "with_days v = (if v = YUndefined then [] else [(''days'', BYaml v)])"

fun unit_suffix :: "interval_unit \<Rightarrow> string" where
  "unit_suffix Minutes = ''m''" | "unit_suffix Hours = ''h''" | "unit_suffix Days = ''d''"

definition compare_times :: "string \<Rightarrow> string \<Rightarrow> int" where
  "compare_times a b =
     (let minute = (\<lambda>t. case parseTimeToMinutes t of None \<Rightarrow> 0 | Some n \<Rightarrow> n) in minute a - minute b)"

definition interval_block :: "schedule_draft \<Rightarrow> schedule_block" where
  "interval_block draft =
     (let suffix = unit_suffix (sd_intervalUnit draft);
          vary = (sd_varyInterval draft \<and> sd_intervalValue draft < sd_intervalMaxValue draft)
      in [(''every'', BYaml (YString (if vary
             then int_str (sd_intervalValue draft) @ ''-'' @ int_str (sd_intervalMaxValue draft) @ suffix
             else int_str (sd_intervalValue draft) @ suffix)))] @
         (if sd_intervalWindow draft
          then [(''at'', BYaml (YString (trim (sd_intervalFrom draft)))), (''until'', BYaml (YString (trim (sd_intervalUntil draft))))] else []) @
         with_days (writeDaysValue (Week (sd_intervalDays draft))))"

definition calendar_block :: "schedule_draft \<Rightarrow> schedule_block" where
  "calendar_block draft =
     (if sd_randomWindow draft
      then [(''at'', BYaml (YString (trim (sd_time draft)))), (''until'', BYaml (YString (trim (sd_untilTime draft))))] @
        (if 1 < sd_timesPerDay draft then [(''times'', BYaml (YNumber (sd_timesPerDay draft)))] else [])
      else (let ts = sort_by compare_times (to_set (map trim (sd_time draft # sd_moreTimes draft)))
        in [(''at'', BYaml (if length ts = 1 then YString (hd ts) else YList (map YString ts)))])) @
     with_days (writeDaysValue (draftDaysValue draft)) @
     (if writesShortMonths draft then [(''shortMonths'', BYaml (YString ''last''))] else []) @
     (case draftPickDays draft of None \<Rightarrow> [] | Some n \<Rightarrow> [(''pickDays'', BYaml (YNumber n))])"

definition scheduleBlockFromDraft :: "schedule_draft \<Rightarrow> schedule_block" where
  "scheduleBlockFromDraft draft =
     (if sd_kind draft = CronLine then [(''cron'', BYaml (YString (normalizeCron (sd_cron draft))))]
      else case sd_mode draft of
        ByHand \<Rightarrow> [(''manual'', BBool True)]
      | EveryInterval \<Rightarrow> interval_block draft
      | AtTime \<Rightarrow> calendar_block draft)"

section \<open>The draft of a block\<close>

text \<open>The pattern \<open>/^(\d+)\s*([mhd]?)(?:\s*-\s*(\d+)\s*([mhd]?))?$/\<close>: a number and its unit, and what is left.\<close>

definition take_amount :: "string \<Rightarrow> (int \<times> string \<times> string) option" where
  "take_amount s =
     (let ds = takeWhile is_digit s; rest = dropWhile is_space (dropWhile is_digit s)
      in if ds = [] then None
         else case rest of
           u # others \<Rightarrow> if u \<in> {CHR ''m'', CHR ''h'', CHR ''d''} then Some (int (str_nat ds), [u], others) else Some (int (str_nat ds), [], rest)
         | [] \<Rightarrow> Some (int (str_nat ds), [], []))"

definition every_unit :: "string \<Rightarrow> interval_unit" where
  "every_unit suffix = (if suffix = ''d'' then Days else if suffix = ''m'' then Minutes else Hours)"

definition parse_every_text :: "string \<Rightarrow> int \<times> interval_unit \<times> int option" where
  "parse_every_text s =
     (case take_amount s of
        None \<Rightarrow> (6, Hours, None)
      | Some (n, u, rest) \<Rightarrow>
          (if rest = [] then (max 1 n, every_unit u, None)
           else case dropWhile is_space rest of
             d # others \<Rightarrow>
               if d \<noteq> CHR ''-'' then (6, Hours, None)
               else (case take_amount (dropWhile is_space others) of
                   Some (n', u', []) \<Rightarrow> (max 1 n, every_unit (if u' \<noteq> [] then u' else u), Some (max (max 1 n) n'))
                 | _ \<Rightarrow> (6, Hours, None))
           | [] \<Rightarrow> (6, Hours, None)))"

definition parseEvery :: "block_value \<Rightarrow> int \<times> interval_unit \<times> int option" where
  "parseEvery every =
     (case every of
        BYaml (YNumber n) \<Rightarrow> (max 1 n, Hours, None)
      | BYaml v \<Rightarrow> parse_every_text (to_lower (trim (if v = YUndefined \<or> v = YNull then [] else yaml_string v)))
      | BBool b \<Rightarrow> parse_every_text (if b then ''true'' else ''false''))"

definition yaml_text :: "yaml \<Rightarrow> string option" where
  "yaml_text v = (case v of YString s \<Rightarrow> keep_truthy (Some (trim s)) | _ \<Rightarrow> None)"

definition readAts :: "block_value \<Rightarrow> string list" where
  "readAts v = List.map_filter yaml_text (case v of BYaml (YList vs) \<Rightarrow> vs | BYaml w \<Rightarrow> [w] | BBool _ \<Rightarrow> [])"

text \<open>\<open>Number(v)\<close>, \<open>None\<close> for what is not finite.\<close>

fun number_of :: "block_value \<Rightarrow> int option" where
  "number_of (BYaml (YNumber n)) = Some n"
| "number_of (BYaml (YString s)) =
     (let t = trim s in if t = [] then Some 0 else if all_digits t then Some (int (str_nat t)) else None)"
| "number_of (BYaml YNull) = Some 0"
| "number_of (BBool b) = Some (if b then 1 else 0)"
| "number_of _ = None"

definition block_yaml :: "block_value \<Rightarrow> yaml" where
  "block_yaml v = (case v of BYaml w \<Rightarrow> w | BBool b \<Rightarrow> YString (if b then ''true'' else ''false''))"

definition read_interval :: "clock \<Rightarrow> schedule_draft \<Rightarrow> schedule_block \<Rightarrow> schedule_draft" where
  "read_interval c draft s =
     (let ats = readAts (block_field s ''at'');
          until_t = (case block_field s ''until'' of BYaml (YString u) \<Rightarrow> trim u | _ \<Rightarrow> []);
          days = readDaysValue c (block_yaml (block_field s ''days''))
      in case parseEvery (block_field s ''every'') of (value, unit, maxValue) \<Rightarrow>
        (let draft = draft\<lparr>sd_mode := EveryInterval, sd_intervalValue := value, sd_intervalUnit := unit\<rparr>;
             draft = (case maxValue of None \<Rightarrow> draft
               | Some m \<Rightarrow> if value < m then draft\<lparr>sd_varyInterval := True, sd_intervalMaxValue := m\<rparr> else draft);
             draft = (if ats \<noteq> [] \<and> until_t \<noteq> []
               then draft\<lparr>sd_intervalWindow := True, sd_intervalFrom := hd ats, sd_intervalUntil := until_t\<rparr> else draft)
         in case days of Week ds \<Rightarrow> draft\<lparr>sd_intervalDays := ds\<rparr> | _ \<Rightarrow> draft))"

definition read_calendar :: "clock \<Rightarrow> schedule_draft \<Rightarrow> schedule_block \<Rightarrow> schedule_draft" where
  "read_calendar c draft s =
     (let ats = readAts (block_field s ''at'');
          until_t = (case block_field s ''until'' of BYaml (YString u) \<Rightarrow> trim u | _ \<Rightarrow> []);
          days = readDaysValue c (block_yaml (block_field s ''days''));
          draft = draft\<lparr>sd_mode := AtTime\<rparr>;
          draft = (if ats \<noteq> [] then draft\<lparr>sd_time := hd ats, sd_moreTimes := tl ats\<rparr> else draft);
          draft = (case days of
              Week ds \<Rightarrow> draft\<lparr>sd_days := ds\<rparr>
            | Dates dates last_day \<Rightarrow> draft\<lparr>sd_dayRule := OnDates, sd_monthDates := dates, sd_lastDay := last_day,
                sd_shortMonths := (if block_field s ''shortMonths'' = BYaml (YString ''last'') then ''last'' else ''skip'')\<rparr>
            | Nth pos w \<Rightarrow> draft\<lparr>sd_dayRule := OnNth, sd_nth := pos, sd_nthOf := w\<rparr>
            | Once dates \<Rightarrow> draft\<lparr>sd_dayRule := OnOnce, sd_onceDate := hd dates\<rparr>);
          draft = (if until_t = [] then draft
            else let draft = draft\<lparr>sd_randomWindow := True, sd_untilTime := until_t\<rparr>
                 in case number_of (block_field s ''times'') of
                      Some n \<Rightarrow> if 1 < n then draft\<lparr>sd_timesPerDay := n\<rparr> else draft
                    | None \<Rightarrow> draft)
      in case (days, number_of (block_field s ''pickDays'')) of
           (Week _, Some n) \<Rightarrow> if 1 \<le> n then draft\<lparr>sd_randomDays := True, sd_pickDays := n\<rparr> else draft
         | _ \<Rightarrow> draft)"

definition readScheduleIntoDraft :: "clock \<Rightarrow> schedule_draft \<Rightarrow> schedule_block \<Rightarrow> schedule_draft" where
  "readScheduleIntoDraft c draft s =
     (case block_field s ''cron'' of
        BYaml (YString line) \<Rightarrow>
          if trim line \<noteq> [] then draft\<lparr>sd_kind := CronLine, sd_cron := normalizeCron line\<rparr>
          else if block_field s ''manual'' = BBool True then draft\<lparr>sd_mode := ByHand\<rparr>
          else if block_field s ''every'' \<notin> {BYaml YUndefined, BYaml YNull} then read_interval c draft s
          else read_calendar c draft s
      | _ \<Rightarrow>
          if block_field s ''manual'' = BBool True then draft\<lparr>sd_mode := ByHand\<rparr>
          else if block_field s ''every'' \<notin> {BYaml YUndefined, BYaml YNull} then read_interval c draft s
          else read_calendar c draft s)"

section \<open>Checks\<close>

datatype schedule_error =
    BadTime | BadWindowEnd | WindowBackwards | TooManyRuns | TimesTooClose | NoDayPicked | NoDatePicked | NoOnceDate
  | OncePassed | IntervalTooSmall | IntervalTooShort | GapsBackwards | BadHours | HoursBackwards | BadCronLine cron_error

text \<open>\<open>setMinutes\<close> of a date counts on from its hour.\<close>

definition set_minutes :: "clock \<Rightarrow> int \<Rightarrow> int \<Rightarrow> int" where
  "set_minutes c t n = to_epoch c (to_local c t - to_local c t mod 3600 div 60 * 60 + n * 60)"

fun too_close :: "int list \<Rightarrow> bool" where
  "too_close (a # b # rest) \<longleftrightarrow> (b - a) * 60 < MIN_INTERVAL_SECS \<or> too_close (b # rest)"
| "too_close _ \<longleftrightarrow> False"

definition check_times :: "schedule_draft \<Rightarrow> int \<Rightarrow> schedule_error option" where
  "check_times draft at_m =
     (if sd_randomWindow draft
      then (case parseTimeToMinutes (sd_untilTime draft) of
          None \<Rightarrow> Some BadWindowEnd
        | Some until_m \<Rightarrow>
            if until_m \<le> at_m then Some WindowBackwards
            else if (until_m - at_m) * 60 < MIN_INTERVAL_SECS * max 1 (sd_timesPerDay draft) then Some TooManyRuns else None)
      else (case draftTimes draft of
          None \<Rightarrow> Some BadTime
        | Some ts \<Rightarrow> if too_close ts then Some TimesTooClose else None))"

definition validateTimeOfDay :: "clock \<Rightarrow> schedule_draft \<Rightarrow> int \<Rightarrow> schedule_error option" where
  "validateTimeOfDay c draft now =
     (case parseTimeToMinutes (sd_time draft) of
        None \<Rightarrow> Some BadTime
      | Some at_m \<Rightarrow>
          (case check_times draft at_m of
             Some e \<Rightarrow> Some e
           | None \<Rightarrow>
               if sd_dayRule draft = OnWeekdays \<and> sd_randomDays draft \<and> sd_pickDays draft < 1 then Some NoDayPicked
               else if sd_dayRule draft = OnDates \<and> length (sd_monthDates draft) = 0 \<and> \<not> sd_lastDay draft then Some NoDatePicked
               else if sd_dayRule draft = OnOnce
               then (case parseIsoDate c (sd_onceDate draft) of
                   None \<Rightarrow> Some NoOnceDate
                 | Some day \<Rightarrow>
                     if set_minutes c day (Max (set (case draftTimes draft of Some ts \<Rightarrow> ts | None \<Rightarrow> [at_m]))) < now
                     then Some OncePassed else None)
               else None))"

definition validateDraftSchedule :: "clock \<Rightarrow> schedule_draft \<Rightarrow> int \<Rightarrow> schedule_error option" where
  "validateDraftSchedule c draft now =
     (if sd_kind draft = CronLine
      then (case parseCron (sd_cron draft) of Inl e \<Rightarrow> Some (BadCronLine e) | Inr _ \<Rightarrow> None)
      else case sd_mode draft of
        AtTime \<Rightarrow> validateTimeOfDay c draft now
      | ByHand \<Rightarrow> None
      | EveryInterval \<Rightarrow>
          if sd_intervalValue draft < 1 then Some IntervalTooSmall
          else if intervalSecs draft < MIN_INTERVAL_SECS then Some IntervalTooShort
          else if sd_varyInterval draft \<and> sd_intervalMaxValue draft < sd_intervalValue draft then Some GapsBackwards
          else if sd_intervalWindow draft
          then (case (parseTimeToMinutes (sd_intervalFrom draft), parseTimeToMinutes (sd_intervalUntil draft)) of
              (Some from_m, Some until_m) \<Rightarrow> if until_m \<le> from_m then Some HoursBackwards else None
            | _ \<Rightarrow> Some BadHours)
          else None)"

section \<open>Reading back what was written\<close>

declare trim_twice [simp]

lemma time_trimmed [simp]: "parseTimeToMinutes (trim s) = parseTimeToMinutes s"
  by (simp add: parseTimeToMinutes_def)

lemma time_text: "parseTimeToMinutes s = Some n \<Longrightarrow> trim s \<noteq> []"
  by (auto simp: parseTimeToMinutes_def split_on_def)

lemma cron_words: "normalizeCron e = join '' '' (words e)"
  by (simp add: normalizeCron_def words_def blank_def)

lemma words_normalized: "words (normalizeCron e) = words e"
  by (simp add: cron_words words_join clean_words)

lemma normalized_twice [simp]: "normalizeCron (normalizeCron e) = normalizeCron e"
  by (simp add: cron_words [of "normalizeCron e"] words_normalized) (simp add: cron_words)

lemma parse_normalized [simp]: "parseCron (normalizeCron e) = parseCron e"
  by (simp add: parseCron_def cronTokens_def)

lemma parsed_source: "parseCron e = Inr spec \<Longrightarrow> trim (normalizeCron e) \<noteq> []"
proof
  assume p: "parseCron e = Inr spec" "trim (normalizeCron e) = []"
  then have "words (normalizeCron e) = []" by (simp add: words_def)
  then have "normalizeCron e = []" by (simp add: words_normalized) (simp add: cron_words)
  then show False using p(1) by (simp add: parseCron_def)
qed

lemma every_char:
  assumes "\<forall>ch\<in>set s. is_digit ch \<or> ch \<in> {CHR ''-'', CHR ''m'', CHR ''h'', CHR ''d''}"
  shows "trim s = s" "to_lower s = s"
proof -
  have ch: "\<not> is_space ch \<and> lower_char ch = ch" if "ch \<in> set s" for ch
    using assms that by (auto simp: is_space_def is_digit_def lower_char_def)
  then show "trim s = s" by (cases "s = []") (simp add: trim_def, intro trim_id, auto)
  show "to_lower s = s" using ch by (simp add: to_lower_def map_idI)
qed

lemma amount_unit:
  assumes "u \<in> {CHR ''m'', CHR ''h'', CHR ''d''}"
  shows "take_amount (nat_str n @ u # rest) = Some (int n, [u], rest)"
proof -
  have "\<not> is_digit u" "\<not> is_space u" using assms by (auto simp: is_digit_def is_space_def)
  moreover have "\<forall>ch\<in>set (nat_str n). is_digit ch" using nat_str_digits [of n] by (simp add: list_all_iff)
  ultimately have "takeWhile is_digit (nat_str n @ u # rest) = nat_str n" "dropWhile is_digit (nat_str n @ u # rest) = u # rest"
    by (simp_all add: takeWhile_append2 dropWhile_append2)
  then show ?thesis using assms \<open>\<not> is_space u\<close> by (simp add: take_amount_def)
qed

lemma amount_dash: "take_amount (nat_str n @ CHR ''-'' # rest) = Some (int n, [], CHR ''-'' # rest)"
proof -
  have "\<not> is_digit CHR ''-''" "\<not> is_space CHR ''-''" by (simp_all add: is_digit_def is_space_def)
  moreover have "\<forall>ch\<in>set (nat_str n). is_digit ch" using nat_str_digits [of n] by (simp add: list_all_iff)
  ultimately have "takeWhile is_digit (nat_str n @ CHR ''-'' # rest) = nat_str n" "dropWhile is_digit (nat_str n @ CHR ''-'' # rest) = CHR ''-'' # rest"
    by (simp_all add: takeWhile_append2 dropWhile_append2)
  then show ?thesis using \<open>\<not> is_space CHR ''-''\<close> by (simp add: take_amount_def)
qed

lemma unit_suffix_read: "\<exists>u. unit_suffix unit = [u] \<and> u \<in> {CHR ''m'', CHR ''h'', CHR ''d''}" "every_unit (unit_suffix unit) = unit"
  by (cases unit; simp add: every_unit_def)+

lemma every_read:
  assumes "1 \<le> n"
  shows "parseEvery (BYaml (YString (int_str n @ unit_suffix unit))) = (n, unit, None)"
    "n < m \<Longrightarrow> parseEvery (BYaml (YString (int_str n @ ''-'' @ int_str m @ unit_suffix unit))) = (n, unit, Some m)"
proof -
  obtain u where u: "unit_suffix unit = [u]" "u \<in> {CHR ''m'', CHR ''h'', CHR ''d''}" "every_unit [u] = unit"
    using unit_suffix_read [of unit] by metis
  have digits: "\<forall>ch\<in>set (nat_str k). is_digit ch" for k using nat_str_digits [of k] by (simp add: list_all_iff)
  have n: "int_str n = nat_str (nat n)" using assms by (simp add: int_str_def)
  have "\<forall>ch\<in>set (nat_str (nat n) @ [u]). is_digit ch \<or> ch \<in> {CHR ''-'', CHR ''m'', CHR ''h'', CHR ''d''}"
    using digits u(2) by auto
  from every_char [OF this] show "parseEvery (BYaml (YString (int_str n @ unit_suffix unit))) = (n, unit, None)"
    using assms amount_unit [OF u(2), of "nat n" "[]"] u(3) by (simp add: parseEvery_def parse_every_text_def n u(1))
  assume m: "n < m"
  then have mn: "int_str m = nat_str (nat m)" using assms by (simp add: int_str_def)
  have "\<forall>ch\<in>set (nat_str (nat n) @ ''-'' @ nat_str (nat m) @ [u]). is_digit ch \<or> ch \<in> {CHR ''-'', CHR ''m'', CHR ''h'', CHR ''d''}"
    using digits u(2) by auto
  note plain = every_char [OF this]
  have "dropWhile is_space (nat_str (nat m) @ [u]) = nat_str (nat m) @ [u]"
    using digits [of "nat m"] nat_str_nonempty [of "nat m"]
    by (cases "nat_str (nat m)") (auto simp: is_digit_def is_space_def simp del: nat_str.simps)
  moreover have "\<not> is_space CHR ''-''" by (simp add: is_space_def)
  ultimately show "parseEvery (BYaml (YString (int_str n @ ''-'' @ int_str m @ unit_suffix unit))) = (n, unit, Some m)"
    using assms m plain amount_dash [of "nat n" "nat_str (nat m) @ [u]"] amount_unit [OF u(2), of "nat m" "[]"] u(3)
    by (simp add: parseEvery_def parse_every_text_def n mn u(1) del: nat_str.simps)
qed

lemma days_kept:
  assumes "days_ok c v"
  shows "readDaysValue c (writeDaysValue v) = v"
  using assms week_roundtrip dates_roundtrip nth_roundtrip once_roundtrip by (cases v) simp_all

text \<open>The draft that a written interval block opens as.\<close>

definition reopened_interval :: "schedule_draft \<Rightarrow> schedule_draft" where
  "reopened_interval d =
     (let vary = (sd_varyInterval d \<and> sd_intervalValue d < sd_intervalMaxValue d)
      in defaultJobDraft\<lparr>sd_mode := EveryInterval, sd_intervalValue := sd_intervalValue d, sd_intervalUnit := sd_intervalUnit d,
           sd_varyInterval := vary, sd_intervalMaxValue := (if vary then sd_intervalMaxValue d else 12),
           sd_intervalWindow := sd_intervalWindow d,
           sd_intervalFrom := (if sd_intervalWindow d then trim (sd_intervalFrom d) else ''09:00''),
           sd_intervalUntil := (if sd_intervalWindow d then trim (sd_intervalUntil d) else ''18:00''), sd_intervalDays := sd_intervalDays d\<rparr>)"

lemma interval_read:
  assumes "1 \<le> sd_intervalValue d"
    "sd_intervalWindow d \<Longrightarrow> parseTimeToMinutes (sd_intervalFrom d) \<noteq> None \<and> parseTimeToMinutes (sd_intervalUntil d) \<noteq> None"
    "days_ok c (Week (sd_intervalDays d))"
  shows "read_interval c defaultJobDraft (interval_block d) = reopened_interval d"
proof -
  let ?b = "interval_block d"
  have every: "parseEvery (block_field ?b ''every'') =
      (sd_intervalValue d, sd_intervalUnit d,
        if sd_varyInterval d \<and> sd_intervalValue d < sd_intervalMaxValue d then Some (sd_intervalMaxValue d) else None)"
    using every_read(1) [OF assms(1)] every_read(2) [OF assms(1)]
    by (auto simp: interval_block_def Let_def block_field_def)
  have days: "readDaysValue c (block_yaml (block_field ?b ''days'')) = Week (sd_intervalDays d)"
    using days_kept [OF assms(3)] by (auto simp: interval_block_def Let_def block_field_def with_days_def block_yaml_def)
  have window: "readAts (block_field ?b ''at'') = (if sd_intervalWindow d then [trim (sd_intervalFrom d)] else [])"
    "(case block_field ?b ''until'' of BYaml (YString u) \<Rightarrow> trim u | _ \<Rightarrow> []) = (if sd_intervalWindow d then trim (sd_intervalUntil d) else [])"
    using assms(2) time_text
    by (auto simp: interval_block_def Let_def block_field_def with_days_def readAts_def yaml_text_def keep_truthy_def List.map_filter_simps
        split: option.splits)
  show ?thesis
    using assms(2) time_text unfolding read_interval_def Let_def every days window
    by (auto simp: defaultJobDraft_def reopened_interval_def)
qed

lemma interval_reopened:
  assumes "sd_varyInterval d \<Longrightarrow> sd_intervalValue d < sd_intervalMaxValue d"
  shows "interval_of_draft (reopened_interval d) = interval_of_draft d"
  using assms by (simp add: reopened_interval_def interval_of_draft_def intervalSecs_def intervalMaxSecs_def Let_def split: option.split)

lemma interval_resaved: "interval_block (reopened_interval d) = interval_block d"
  by (simp add: reopened_interval_def interval_block_def Let_def)

lemma reopened_interval_mode: "sd_mode (reopened_interval d) = EveryInterval" "sd_kind (reopened_interval d) = Form"
  by (simp_all add: reopened_interval_def defaultJobDraft_def Let_def)

lemma sorted_set_eq: "set xs = set ys \<Longrightarrow> sort_by compareNumbers (to_set xs) = sort_by compareNumbers (to_set ys)"
  by (rule sorted_distinct_set_unique) (simp_all add: sorted_numbers to_set_def)

lemma those_parsed: "\<forall>t\<in>set ts. parseTimeToMinutes t \<noteq> None \<Longrightarrow> those (map parseTimeToMinutes ts) = Some (map (the \<circ> parseTimeToMinutes) ts)"
  by (induction ts) auto

lemma those_all: "those (map f xs) = Some ys \<Longrightarrow> \<forall>x\<in>set xs. f x \<noteq> None"
  by (induction xs arbitrary: ys) (auto split: option.splits)

definition written_times :: "schedule_draft \<Rightarrow> string list" where
  "written_times d = (if sd_randomWindow d then [trim (sd_time d)] else sort_by compare_times (to_set (map trim (sd_time d # sd_moreTimes d))))"

lemma written_times_set: "set (written_times d) = trim ` set (if sd_randomWindow d then [sd_time d] else sd_time d # sd_moreTimes d)"
  by (simp add: written_times_def to_set_def)

lemma texts_read:
  assumes "\<forall>t\<in>set ts. trim t = t \<and> t \<noteq> []"
  shows "List.map_filter yaml_text (map YString ts) = ts"
  using assms by (induction ts) (auto simp: List.map_filter_simps yaml_text_def keep_truthy_def)

lemma times_parse: "draftTimes d = Some ts \<Longrightarrow> t \<in> set (if sd_randomWindow d then [sd_time d] else sd_time d # sd_moreTimes d) \<Longrightarrow> parseTimeToMinutes t \<noteq> None"
  unfolding draftTimes_def using those_all by fastforce

lemma written_parse: "draftTimes d = Some ts \<Longrightarrow> t \<in> set (written_times d) \<Longrightarrow> trim t = t \<and> t \<noteq> []"
proof -
  assume d: "draftTimes d = Some ts" "t \<in> set (written_times d)"
  obtain u where u: "u \<in> set (if sd_randomWindow d then [sd_time d] else sd_time d # sd_moreTimes d)" "t = trim u"
    using d(2) unfolding written_times_set by (rule imageE)
  then show ?thesis using times_parse [OF d(1) u(1)] time_text [of u] by auto
qed

lemma calendar_fields:
  fixes d defines "b \<equiv> calendar_block d"
  assumes "draftTimes d \<noteq> None"
  shows "readAts (block_field b ''at'') = written_times d"
    "block_field b ''until'' = (if sd_randomWindow d then BYaml (YString (trim (sd_untilTime d))) else BYaml YUndefined)"
    "block_field b ''times'' = (if sd_randomWindow d \<and> 1 < sd_timesPerDay d then BYaml (YNumber (sd_timesPerDay d)) else BYaml YUndefined)"
    "block_field b ''days'' = BYaml (writeDaysValue (draftDaysValue d))"
    "block_field b ''shortMonths'' = (if writesShortMonths d then BYaml (YString ''last'') else BYaml YUndefined)"
    "block_field b ''pickDays'' = (case draftPickDays d of None \<Rightarrow> BYaml YUndefined | Some n \<Rightarrow> BYaml (YNumber n))"
    "block_field b ''cron'' = BYaml YUndefined" "block_field b ''manual'' = BYaml YUndefined" "block_field b ''every'' = BYaml YUndefined"
proof -
  have parsed: "\<forall>t\<in>set (written_times d). trim t = t \<and> t \<noteq> []"
    using assms(2) written_parse by blast
  have ats: "block_field b ''at'' = BYaml (if length (written_times d) = 1 then YString (hd (written_times d)) else YList (map YString (written_times d)))"
    by (simp add: b_def calendar_block_def block_field_def Let_def written_times_def)
  show "readAts (block_field b ''at'') = written_times d"
  proof (cases "length (written_times d) = 1")
    case True
    then obtain t where "written_times d = [t]" by (auto simp: length_Suc_conv)
    then show ?thesis using parsed by (simp add: ats readAts_def texts_read [of "[t]", simplified])
  next
    case False
    then show ?thesis using parsed by (simp add: ats readAts_def texts_read)
  qed
qed (auto simp: b_def calendar_block_def block_field_def Let_def with_days_def split: option.splits)

lemma written_times_read:
  assumes "draftTimes d = Some ts" "sd_randomWindow d' = sd_randomWindow d" "sd_time d' # sd_moreTimes d' = written_times d"
  shows "draftTimes d' = Some ts"
proof -
  let ?raw = "\<lambda>d. if sd_randomWindow d then [sd_time d] else sd_time d # sd_moreTimes d"
  obtain ms where ms: "those (map parseTimeToMinutes (?raw d)) = Some ms" "ts = sort_by compareNumbers (to_set ms)"
    using assms(1) by (auto simp: draftTimes_def)
  have ok: "\<forall>t\<in>set (?raw d). parseTimeToMinutes t \<noteq> None" using those_all [OF ms(1)] .
  have raw: "set (?raw d') = trim ` set (?raw d)"
    using assms(2,3) written_times_set [of d] by (cases "sd_randomWindow d") (auto simp: written_times_def)
  have ok': "\<forall>t\<in>set (?raw d'). parseTimeToMinutes t \<noteq> None" unfolding raw using ok by simp
  have "set (map (the \<circ> parseTimeToMinutes) (?raw d')) = set (map (the \<circ> parseTimeToMinutes) (?raw d))"
    unfolding set_map raw by (simp add: image_image)
  then show ?thesis
    using those_parsed [OF ok'] those_parsed [OF ok] ms sorted_set_eq [of "map (the \<circ> parseTimeToMinutes) (?raw d')" "map (the \<circ> parseTimeToMinutes) (?raw d)"]
    unfolding draftTimes_def by simp
qed

text \<open>The draft that a written calendar block opens as.\<close>

definition reopened_calendar :: "schedule_draft \<Rightarrow> schedule_draft" where
  "reopened_calendar d =
     (let r = defaultJobDraft\<lparr>sd_time := hd (written_times d), sd_moreTimes := tl (written_times d),
            sd_randomWindow := sd_randomWindow d, sd_untilTime := (if sd_randomWindow d then trim (sd_untilTime d) else ''17:00''),
            sd_timesPerDay := (if sd_randomWindow d \<and> 1 < sd_timesPerDay d then sd_timesPerDay d else 1),
            sd_randomDays := (draftPickDays d \<noteq> None), sd_pickDays := (case draftPickDays d of None \<Rightarrow> 1 | Some n \<Rightarrow> n)\<rparr>
      in case sd_dayRule d of
           OnWeekdays \<Rightarrow> r\<lparr>sd_days := sd_days d\<rparr>
         | OnDates \<Rightarrow> r\<lparr>sd_dayRule := OnDates, sd_monthDates := sd_monthDates d, sd_lastDay := sd_lastDay d,
             sd_shortMonths := (if writesShortMonths d then ''last'' else ''skip'')\<rparr>
         | OnNth \<Rightarrow> r\<lparr>sd_dayRule := OnNth, sd_nth := sd_nth d, sd_nthOf := sd_nthOf d\<rparr>
         | OnOnce \<Rightarrow> r\<lparr>sd_dayRule := OnOnce, sd_onceDate := sd_onceDate d\<rparr>)"

lemma pick_days_week: "draftPickDays d = Some n \<Longrightarrow> sd_dayRule d = OnWeekdays \<and> 1 \<le> n"
  by (auto simp: draftPickDays_def Let_def split: if_splits)

lemma calendar_read:
  assumes "draftTimes d \<noteq> None" "sd_randomWindow d \<Longrightarrow> draftUntilMinutes d \<noteq> None" "days_ok c (draftDaysValue d)"
  shows "read_calendar c defaultJobDraft (calendar_block d) = reopened_calendar d"
proof -
  have ne: "written_times d \<noteq> []" by (metis written_times_set image_is_empty list.distinct(1) set_empty empty_set)
  have days: "readDaysValue c (block_yaml (BYaml (writeDaysValue (draftDaysValue d)))) = draftDaysValue d"
    using days_kept [OF assms(3)] by (simp add: block_yaml_def)
  have until: "sd_randomWindow d \<Longrightarrow> trim (sd_untilTime d) \<noteq> []"
    using assms(2) time_text by (auto simp: draftUntilMinutes_def)
  have once: "sd_dayRule d = OnOnce \<Longrightarrow> sd_onceDate d \<noteq> []"
    using assms(3) by (auto simp: draftDaysValue_def days_ok_def split: if_splits)
  note fields = calendar_fields [OF assms(1)]
  show ?thesis
  proof (cases "sd_dayRule d")
    case OnWeekdays
    show ?thesis
    proof (cases "draftPickDays d")
      case None
      then show ?thesis
        using ne until OnWeekdays unfolding read_calendar_def Let_def days fields
        by (cases "sd_randomWindow d"; simp add: draftDaysValue_def reopened_calendar_def Let_def defaultJobDraft_def)
    next
      case (Some n)
      then have "1 \<le> n" using pick_days_week by blast
      then show ?thesis
        using ne until OnWeekdays Some unfolding read_calendar_def Let_def days fields
        by (cases "sd_randomWindow d"; simp add: draftDaysValue_def reopened_calendar_def Let_def defaultJobDraft_def)
    qed
  next
    case OnDates
    then have "draftPickDays d = None" by (simp add: draftPickDays_def)
    then show ?thesis
      using ne until OnDates unfolding read_calendar_def Let_def days fields
      by (cases "sd_randomWindow d"; simp add: draftDaysValue_def reopened_calendar_def Let_def defaultJobDraft_def)
  next
    case OnNth
    then have "draftPickDays d = None" by (simp add: draftPickDays_def)
    then show ?thesis
      using ne until OnNth unfolding read_calendar_def Let_def days fields
      by (cases "sd_randomWindow d"; simp add: draftDaysValue_def reopened_calendar_def Let_def defaultJobDraft_def)
  next
    case OnOnce
    then have "draftPickDays d = None" by (simp add: draftPickDays_def)
    then show ?thesis
      using ne until once OnOnce unfolding read_calendar_def Let_def days fields
      by (cases "sd_randomWindow d"; simp add: draftDaysValue_def reopened_calendar_def Let_def defaultJobDraft_def)
  qed
qed

lemma reopened_fields:
  fixes d defines "r \<equiv> reopened_calendar d"
  shows "sd_time r # sd_moreTimes r = hd (written_times d) # tl (written_times d)" "sd_randomWindow r = sd_randomWindow d"
    "sd_dayRule r = sd_dayRule d" "sd_mode r = AtTime" "sd_kind r = Form"
    "sd_randomWindow d \<Longrightarrow> sd_untilTime r = trim (sd_untilTime d)" "sd_randomWindow d \<Longrightarrow> max 1 (sd_timesPerDay r) = max 1 (sd_timesPerDay d)"
    "sd_randomDays r = (draftPickDays d \<noteq> None)" "draftPickDays d = Some n \<Longrightarrow> sd_pickDays r = n"
    "sd_dayRule d = OnWeekdays \<Longrightarrow> sd_days r = sd_days d"
    "sd_dayRule d = OnDates \<Longrightarrow> sd_monthDates r = sd_monthDates d \<and> sd_lastDay r = sd_lastDay d \<and>
      sd_shortMonths r = (if writesShortMonths d then ''last'' else ''skip'')"
    "sd_dayRule d = OnNth \<Longrightarrow> sd_nth r = sd_nth d \<and> sd_nthOf r = sd_nthOf d"
    "sd_dayRule d = OnOnce \<Longrightarrow> sd_onceDate r = sd_onceDate d"
  unfolding r_def reopened_calendar_def Let_def defaultJobDraft_def by (cases "sd_dayRule d"; simp)+

lemma reopened_rule:
  "draftDaysValue (reopened_calendar d) = draftDaysValue d" "draftPickDays (reopened_calendar d) = draftPickDays d"
  "writesShortMonths (reopened_calendar d) = writesShortMonths d"
proof -
  let ?r = "reopened_calendar d"
  show "draftDaysValue ?r = draftDaysValue d"
    using reopened_fields(3,10-13) [of d] by (cases "sd_dayRule d") (simp_all add: draftDaysValue_def)
  show "draftPickDays ?r = draftPickDays d"
  proof (cases "draftPickDays d")
    case None
    then show ?thesis using reopened_fields(8) [of d] by (simp add: draftPickDays_def)
  next
    case (Some n)
    then show ?thesis
      using reopened_fields(3,8,9,10) [of d] by (auto simp: draftPickDays_def Let_def split: if_splits)
  qed
  show "writesShortMonths ?r = writesShortMonths d"
    using reopened_fields(3,11) [of d] by (auto simp: writesShortMonths_def split: if_splits)
qed

lemma calendar_reopened:
  assumes "draftTimes d \<noteq> None" "sd_randomWindow d \<Longrightarrow> draftUntilMinutes d \<noteq> None" "days_ok c (draftDaysValue d)"
  shows "calendar_of_draft (reopened_calendar d) = calendar_of_draft d" "calendar_of_draft d \<noteq> None"
proof -
  let ?r = "reopened_calendar d"
  obtain ts where ts: "draftTimes d = Some ts" using assms(1) by blast
  have ne: "written_times d \<noteq> []" by (metis written_times_set image_is_empty list.distinct(1) set_empty empty_set)
  have "sd_time ?r # sd_moreTimes ?r = written_times d" using reopened_fields(1) [of d] ne by simp
  with ts have times: "draftTimes ?r = draftTimes d" using written_times_read reopened_fields(2) by metis
  have until: "draftUntilMinutes ?r = draftUntilMinutes d"
    using reopened_fields(2,6) [of d] by (simp add: draftUntilMinutes_def)
  have days: "draft_days ?r = draft_days d" by (simp only: draft_days_def reopened_rule)
  have runs: "(if sd_randomWindow d then max 1 (sd_timesPerDay ?r) else 1) = (if sd_randomWindow d then max 1 (sd_timesPerDay d) else 1)"
    using reopened_fields(7) [of d] by simp
  show "calendar_of_draft ?r = calendar_of_draft d"
    by (simp only: calendar_of_draft_def times until days runs reopened_fields(2))
  have "draft_days d \<noteq> None"
    using assms(3) by (auto simp: draft_days_def days_ok_def split: days_value.splits)
  then show "calendar_of_draft d \<noteq> None"
    using assms(2) by (auto simp: calendar_of_draft_def ts Let_def)
qed

interpretation block_times: js_compare compare_times
  by unfold_locales (auto simp: compare_times_def Let_def sgn_if)

lemma written_resorted:
  assumes "draftTimes d = Some ts" "\<not> sd_randomWindow d"
  shows "sort_by compare_times (to_set (map trim (written_times d))) = written_times d"
proof -
  have "map trim (written_times d) = written_times d" using written_parse [OF assms(1)] by (simp add: map_idI)
  moreover have "distinct (written_times d)" using assms(2) by (simp add: written_times_def)
  ultimately have "sort_by compare_times (to_set (map trim (written_times d))) = sort_by compare_times (written_times d)"
    by (simp only: to_set_distinct)
  also have "\<dots> = written_times d" using assms(2) by (simp add: written_times_def)
  finally show ?thesis .
qed

lemma calendar_resaved:
  assumes "draftTimes d \<noteq> None" "days_ok c (draftDaysValue d)"
  shows "calendar_block (reopened_calendar d) = calendar_block d"
proof -
  let ?r = "reopened_calendar d"
  have ne: "written_times d \<noteq> []" by (metis written_times_set image_is_empty list.distinct(1) set_empty empty_set)
  have times: "sd_time ?r # sd_moreTimes ?r = written_times d" using reopened_fields(1) [of d] ne by simp
  have one: "sd_randomWindow d \<Longrightarrow> trim (sd_time ?r) = trim (sd_time d)"
    using times by (simp add: written_times_def)
  have many: "\<not> sd_randomWindow d \<Longrightarrow> sort_by compare_times (to_set (map trim (sd_time ?r # sd_moreTimes ?r))) =
      sort_by compare_times (to_set (map trim (sd_time d # sd_moreTimes d)))"
    using assms(1) written_resorted times by (auto simp: written_times_def)
  have runs: "sd_randomWindow d \<Longrightarrow> (if 1 < sd_timesPerDay ?r then [(''times'', BYaml (YNumber (sd_timesPerDay ?r)))] else []) =
      (if 1 < sd_timesPerDay d then [(''times'', BYaml (YNumber (sd_timesPerDay d)))] else [])"
    using reopened_fields(7) [of d] by (auto simp: max_def split: if_splits)
  show ?thesis
    using one many runs reopened_fields(6) [of d] unfolding calendar_block_def reopened_rule reopened_fields(2)
    by (cases "sd_randomWindow d") (simp_all only: if_True if_False trim_twice Let_def simp_thms)
qed

lemma check_times_passed:
  assumes "validateTimeOfDay c d now = None"
  shows "draftTimes d \<noteq> None" "sd_randomWindow d \<Longrightarrow> draftUntilMinutes d \<noteq> None"
proof -
  obtain at_m where at_m: "parseTimeToMinutes (sd_time d) = Some at_m" "check_times d at_m = None"
    using assms by (auto simp: validateTimeOfDay_def split: option.splits)
  then show "draftTimes d \<noteq> None" by (cases "sd_randomWindow d") (auto simp: check_times_def draftTimes_def split: option.splits)
  show "sd_randomWindow d \<Longrightarrow> draftUntilMinutes d \<noteq> None"
    using at_m by (auto simp: check_times_def draftUntilMinutes_def split: option.splits)
qed

text \<open>What the editor's controls offer: days in week order or a picked rule.\<close>

definition draft_ok :: "clock \<Rightarrow> schedule_draft \<Rightarrow> bool" where
  "draft_ok c d =
     (if sd_kind d = CronLine then True
      else case sd_mode d of
        AtTime \<Rightarrow> days_ok c (draftDaysValue d)
      | EveryInterval \<Rightarrow> days_ok c (Week (sd_intervalDays d))
      | ByHand \<Rightarrow> True)"

lemma reopened:
  assumes "validateDraftSchedule c d now = None" "draft_ok c d"
  obtains (cron) spec where "sd_kind d = CronLine" "parseCron (sd_cron d) = Inr spec"
      "readScheduleIntoDraft c defaultJobDraft (scheduleBlockFromDraft d) = defaultJobDraft\<lparr>sd_kind := CronLine, sd_cron := normalizeCron (sd_cron d)\<rparr>"
  | (by_hand) "sd_kind d = Form" "sd_mode d = ByHand"
      "readScheduleIntoDraft c defaultJobDraft (scheduleBlockFromDraft d) = defaultJobDraft\<lparr>sd_mode := ByHand\<rparr>"
  | (interval) "sd_kind d = Form" "sd_mode d = EveryInterval" "interval_of_draft d \<noteq> None"
      "sd_varyInterval d \<Longrightarrow> sd_intervalValue d \<le> sd_intervalMaxValue d"
      "readScheduleIntoDraft c defaultJobDraft (scheduleBlockFromDraft d) = reopened_interval d"
  | (times) "sd_kind d = Form" "sd_mode d = AtTime" "draftTimes d \<noteq> None" "sd_randomWindow d \<Longrightarrow> draftUntilMinutes d \<noteq> None"
      "days_ok c (draftDaysValue d)"
      "readScheduleIntoDraft c defaultJobDraft (scheduleBlockFromDraft d) = reopened_calendar d"
proof (cases "sd_kind d")
  case CronLine
  then obtain spec where spec: "parseCron (sd_cron d) = Inr spec"
    using assms(1) by (auto simp: validateDraftSchedule_def split: sum.splits)
  show ?thesis
    by (rule cron [OF CronLine spec])
      (use CronLine parsed_source [OF spec] in \<open>simp add: scheduleBlockFromDraft_def readScheduleIntoDraft_def block_field_def\<close>)
next
  case Form
  show ?thesis
  proof (cases "sd_mode d")
    case ByHand
    then show ?thesis
      using Form by (intro by_hand) (simp_all add: scheduleBlockFromDraft_def readScheduleIntoDraft_def block_field_def)
  next
    case EveryInterval
    then have r: "readScheduleIntoDraft c defaultJobDraft (scheduleBlockFromDraft d) = read_interval c defaultJobDraft (interval_block d)"
      using Form by (simp add: scheduleBlockFromDraft_def readScheduleIntoDraft_def block_field_def interval_block_def Let_def with_days_def)
    have i: "1 \<le> sd_intervalValue d"
      "sd_intervalWindow d \<Longrightarrow> parseTimeToMinutes (sd_intervalFrom d) \<noteq> None \<and> parseTimeToMinutes (sd_intervalUntil d) \<noteq> None"
      "days_ok c (Week (sd_intervalDays d))"
      using assms Form EveryInterval by (auto simp: validateDraftSchedule_def draft_ok_def split: if_splits option.splits)
    have "sd_varyInterval d \<Longrightarrow> sd_intervalValue d \<le> sd_intervalMaxValue d"
      using assms(1) Form EveryInterval by (auto simp: validateDraftSchedule_def split: if_splits option.splits)
    moreover have "interval_of_draft d \<noteq> None" using i(2) by (auto simp: interval_of_draft_def Let_def)
    ultimately show ?thesis using interval [OF Form EveryInterval] interval_read [OF i] r by simp
  next
    case AtTime
    then have checked: "validateTimeOfDay c d now = None" "days_ok c (draftDaysValue d)"
      using assms Form by (simp_all add: validateDraftSchedule_def draft_ok_def)
    note ok = check_times_passed [OF checked(1)]
    have "readScheduleIntoDraft c defaultJobDraft (scheduleBlockFromDraft d) = read_calendar c defaultJobDraft (calendar_block d)"
      using Form AtTime by (simp add: scheduleBlockFromDraft_def readScheduleIntoDraft_def calendar_fields [OF ok(1)])
    then show ?thesis using times [OF Form AtTime ok checked(2)] calendar_read [OF ok checked(2)] by simp
  qed
qed

lemma block_resaved:
  assumes "validateDraftSchedule c d now = None" "draft_ok c d"
  shows "scheduleBlockFromDraft (readScheduleIntoDraft c defaultJobDraft (scheduleBlockFromDraft d)) = scheduleBlockFromDraft d"
  using assms
proof (cases rule: reopened)
  case cron
  then show ?thesis by (simp only:) (simp add: scheduleBlockFromDraft_def)
next
  case by_hand
  then show ?thesis by (simp only:) (simp add: scheduleBlockFromDraft_def defaultJobDraft_def)
next
  case interval
  then show ?thesis by (simp only:) (simp add: scheduleBlockFromDraft_def reopened_interval_mode interval_resaved)
next
  case times
  then show ?thesis using calendar_resaved [OF times(3,5)]
    by (simp only:) (simp add: scheduleBlockFromDraft_def reopened_fields)
qed

text \<open>A band whose ends are the same is a fixed gap; the draft that says so.\<close>

definition narrowed :: "schedule_draft \<Rightarrow> schedule_draft" where
  "narrowed d = d\<lparr>sd_varyInterval := (sd_varyInterval d \<and> sd_intervalMaxValue d \<noteq> sd_intervalValue d)\<rparr>"

lemma narrowed_fields: "sd_kind (narrowed d) = sd_kind d" "sd_mode (narrowed d) = sd_mode d" "sd_cron (narrowed d) = sd_cron d"
  "calendar_of_draft (narrowed d) = calendar_of_draft d"
proof -
  show "sd_kind (narrowed d) = sd_kind d" "sd_mode (narrowed d) = sd_mode d" "sd_cron (narrowed d) = sd_cron d"
    by (simp_all add: narrowed_def)
  have same: "sd_dayRule (narrowed d) = sd_dayRule d" "sd_days (narrowed d) = sd_days d" "sd_monthDates (narrowed d) = sd_monthDates d"
    "sd_lastDay (narrowed d) = sd_lastDay d" "sd_nth (narrowed d) = sd_nth d" "sd_nthOf (narrowed d) = sd_nthOf d"
    "sd_onceDate (narrowed d) = sd_onceDate d" "sd_randomDays (narrowed d) = sd_randomDays d" "sd_pickDays (narrowed d) = sd_pickDays d"
    "sd_shortMonths (narrowed d) = sd_shortMonths d" "sd_time (narrowed d) = sd_time d" "sd_moreTimes (narrowed d) = sd_moreTimes d"
    "sd_randomWindow (narrowed d) = sd_randomWindow d" "sd_untilTime (narrowed d) = sd_untilTime d"
    "sd_timesPerDay (narrowed d) = sd_timesPerDay d"
    by (simp_all add: narrowed_def)
  have "draftTimes (narrowed d) = draftTimes d" "draftUntilMinutes (narrowed d) = draftUntilMinutes d"
    "draftDaysValue (narrowed d) = draftDaysValue d" "draftPickDays (narrowed d) = draftPickDays d"
    "writesShortMonths (narrowed d) = writesShortMonths d" "sd_randomWindow (narrowed d) = sd_randomWindow d"
    "sd_timesPerDay (narrowed d) = sd_timesPerDay d"
    by (simp_all only: same draftTimes_def draftUntilMinutes_def draftDaysValue_def draftPickDays_def writesShortMonths_def)
  then show "calendar_of_draft (narrowed d) = calendar_of_draft d"
    by (simp only: calendar_of_draft_def draft_days_def)
qed

lemma narrowed_reopened:
  "(sd_varyInterval d \<Longrightarrow> sd_intervalValue d \<le> sd_intervalMaxValue d) \<Longrightarrow>
   interval_of_draft (reopened_interval d) = interval_of_draft (narrowed d)"
proof -
  assume v: "sd_varyInterval d \<Longrightarrow> sd_intervalValue d \<le> sd_intervalMaxValue d"
  have "reopened_interval (narrowed d) = reopened_interval d"
    using v by (auto simp: reopened_interval_def narrowed_def Let_def)
  moreover have "interval_of_draft (reopened_interval (narrowed d)) = interval_of_draft (narrowed d)"
    using v by (intro interval_reopened) (auto simp: narrowed_def)
  ultimately show ?thesis by simp
qed

lemma schedule_reopened:
  assumes "validateDraftSchedule c d now = None" "draft_ok c d"
  shows "draftToSchedule d \<noteq> None"
    "draftToSchedule (readScheduleIntoDraft c defaultJobDraft (scheduleBlockFromDraft d)) = draftToSchedule (narrowed d)"
    "scheduleBlockFromDraft (readScheduleIntoDraft c defaultJobDraft (scheduleBlockFromDraft d)) = scheduleBlockFromDraft d"
proof -
  let ?again = "readScheduleIntoDraft c defaultJobDraft (scheduleBlockFromDraft d)"
  have "draftToSchedule d \<noteq> None \<and> draftToSchedule ?again = draftToSchedule (narrowed d)"
    using assms
  proof (cases rule: reopened)
    case cron
    then show ?thesis by (simp only:) (simp add: draftToSchedule_def narrowed_fields)
  next
    case by_hand
    then show ?thesis by (simp only:) (simp add: draftToSchedule_def defaultJobDraft_def narrowed_fields)
  next
    case interval
    then show ?thesis using narrowed_reopened [OF interval(4)]
      by (simp add: draftToSchedule_def reopened_interval_mode narrowed_fields)
  next
    case times
    then show ?thesis using calendar_reopened [OF times(3-5)]
      by (simp only:) (simp add: draftToSchedule_def reopened_fields narrowed_fields)
  qed
  then show "draftToSchedule d \<noteq> None" "draftToSchedule ?again = draftToSchedule (narrowed d)" by blast+
  show "scheduleBlockFromDraft ?again = scheduleBlockFromDraft d" by (rule block_resaved [OF assms])
qed


definition sample_draft :: schedule_draft where
  "sample_draft = defaultJobDraft\<lparr>sd_time := ''9:00'', sd_moreTimes := ['' 17:30'', ''09:00''], sd_dayRule := OnDates,
     sd_monthDates := [15, 31], sd_shortMonths := ''last''\<rparr>"


end
