(* ===== verification/ComposerText.thy ===== *)
theory ComposerText
  imports PathOps
begin

text \<open>
  The serialized value of the composer (\<open>composerValue.ts\<close>): text with tokens for the attached images, the prompt
  written for it, the value a stored prompt opens as, and the parts it is typed in. Each regular expression of the
  source is a function that reads the same strings; the platform is the parameter \<open>win\<close>.
\<close>

section \<open>Values and paths\<close>

record composer_image =
  ci_token :: nat
  ci_path :: string

record composer_value =
  cv_text :: string
  cv_images :: "composer_image list"
  cv_pending :: bool

definition EMPTY_COMPOSER :: composer_value where
  "EMPTY_COMPOSER = \<lparr>cv_text = [], cv_images = [], cv_pending = False\<rparr>"

definition IMAGE_EXT_RE :: "string list" where
  "IMAGE_EXT_RE = [''.png'', ''.jpg'', ''.jpeg'', ''.gif'', ''.webp'', ''.bmp'', ''.tif'', ''.tiff'', ''.heic'', ''.heif'', ''.svg'']"

definition isImagePath :: "string \<Rightarrow> bool" where
  "isImagePath path = (\<exists>ext\<in>set IMAGE_EXT_RE. ends_with (to_lower path) ext)"

abbreviation (input) dquote :: char where "dquote \<equiv> CHR 0x22"

definition needs_quoting :: "string \<Rightarrow> bool" where
  "needs_quoting path = (\<exists>c\<in>set path. is_space c \<or> c = dquote \<or> c = CHR 0x27 \<or> c = bslash)"

definition quoteImagePathForPaste :: "string \<Rightarrow> string" where
  "quoteImagePathForPaste path =
     (if \<not> needs_quoting path then path
      else dquote # concat (map (\<lambda>c. if c = bslash \<or> c = dquote then [bslash, c] else [c]) path) @ [dquote])"

fun unescape :: "string \<Rightarrow> string" where
  "unescape (b # c # s) = (if b = bslash \<and> (c = bslash \<or> c = dquote) then c # unescape s else b # unescape (c # s))"
| "unescape s = s"

definition unquotePastedPath :: "string \<Rightarrow> bool \<Rightarrow> string" where
  "unquotePastedPath part win =
     (let trimmed = trim part
      in if length trimmed < 2 \<or> hd trimmed \<noteq> dquote \<or> last trimmed \<noteq> dquote then trimmed
         else let inner = unescape (butlast (tl trimmed)) in if isRootedPath inner win then inner else trimmed)"

section \<open>Tokens\<close>

text \<open>\<open>[Image #12]\<close> in front of a text: its number and what follows.\<close>

definition take_token :: "string \<Rightarrow> (nat \<times> string) option" where
  "take_token s =
     (if \<not> starts_with s ''[Image #'' then None
      else let r = drop 8 s; ds = takeWhile is_digit r
           in case dropWhile is_digit r of
                c # rest \<Rightarrow> if ds \<noteq> [] \<and> c = CHR '']'' then Some (str_nat ds, rest) else None
              | [] \<Rightarrow> None)"

lemma take_token_shorter [termination_simp]: "take_token s = Some (n, rest) \<Longrightarrow> length rest < length s"
proof -
  assume a: "take_token s = Some (n, rest)"
  then have "Suc (length rest) = length (dropWhile is_digit (drop 8 s))"
    by (auto simp: take_token_def Let_def split: if_splits list.splits)
  also have "\<dots> \<le> length s" using length_dropWhile_le [of is_digit "drop 8 s"] by simp
  finally show ?thesis by simp
qed

definition image_token :: "nat \<Rightarrow> string" where
  "image_token n = ''[Image #'' @ nat_str n @ '']''"

text \<open>The replacement of the tokens; \<open>before\<close> is the character in front of the text.\<close>

function fill_tokens :: "(nat \<Rightarrow> string option) \<Rightarrow> char option \<Rightarrow> string \<Rightarrow> string" where
  "fill_tokens paths before [] = []"
| "fill_tokens paths before (c # cs) =
     (case take_token (c # cs) of
        None \<Rightarrow> c # fill_tokens paths (Some c) cs
      | Some (n, rest) \<Rightarrow>
          (case keep_truthy (paths n) of
             None \<Rightarrow> []
           | Some path \<Rightarrow>
               (case before of Some b \<Rightarrow> if is_space b then [] else '' '' | None \<Rightarrow> []) @ path @
               (case rest of a # _ \<Rightarrow> if is_space a then [] else '' '' | [] \<Rightarrow> [])) @
          fill_tokens paths (Some CHR '']'') rest)"
  by pat_completeness auto
termination
  by (relation "measure (\<lambda>(_, _, s). length s)") (auto dest: take_token_shorter)

definition paths_of :: "composer_image list \<Rightarrow> nat \<Rightarrow> string option" where
  "paths_of images = map_of (rev (map (\<lambda>im. (ci_token im, ci_path im)) images))"

definition composerValueToText :: "composer_value \<Rightarrow> string" where
  "composerValueToText v = trim (fill_tokens (paths_of (cv_images v)) None (cv_text v))"

section \<open>Prompts\<close>

text \<open>What \<open>ABS_PATH_RE\<close> and \<open>WIN_ABS_PATH_RE\<close> match are whole words: they start after a blank and end before one.\<close>

definition is_abs_word :: "bool \<Rightarrow> string \<Rightarrow> bool" where
  "is_abs_word win w =
     (if starts_with w ''/'' then 2 \<le> length w
      else win \<and> (drive_prefix w \<noteq> None \<and> 4 \<le> length w \<or> starts_with w [bslash, bslash] \<and> 3 \<le> length w))"

definition word_of :: "string \<Rightarrow> string" where
  "word_of s = takeWhile (\<lambda>c. \<not> is_space c) s"

definition is_image_word :: "bool \<Rightarrow> string \<Rightarrow> bool" where
  "is_image_word win w = (is_abs_word win w \<and> isImagePath w)"

lemma image_word_head: "is_image_word win (word_of (c # cs)) \<Longrightarrow> \<not> is_space c"
  by (auto simp: is_image_word_def is_abs_word_def word_of_def starts_with_def drive_prefix_def split: if_splits)

text \<open>The scan of the text; \<open>fresh\<close> holds at its start and after a blank, \<open>k\<close> is how many images were found.\<close>

function to_chips :: "bool \<Rightarrow> nat \<Rightarrow> bool \<Rightarrow> string \<Rightarrow> string \<times> string list" where
  "to_chips win k fresh [] = ([], [])"
| "to_chips win k fresh (c # cs) =
     (if fresh \<and> is_image_word win (word_of (c # cs))
      then (case to_chips win (Suc k) False (dropWhile (\<lambda>c. \<not> is_space c) (c # cs)) of
              (out, found) \<Rightarrow> (image_token (Suc k) @ out, word_of (c # cs) # found))
      else (case to_chips win k (is_space c) cs of (out, found) \<Rightarrow> (c # out, found)))"
  by pat_completeness auto
termination
  by (relation "measure (\<lambda>(_, _, _, s). length s)") (auto simp: less_Suc_eq_le length_dropWhile_le dest: image_word_head)

definition textToPrompt :: "string \<Rightarrow> bool \<Rightarrow> composer_value" where
  "textToPrompt t win =
     (case to_chips win 0 True t of
        (out, found) \<Rightarrow> \<lparr>cv_text = out, cv_images = map (\<lambda>(i, p). \<lparr>ci_token = Suc i, ci_path = p\<rparr>) (enumerate 0 found), cv_pending = False\<rparr>)"

section \<open>Parts typed into a terminal\<close>

text \<open>A run of blanks that holds a line break becomes one blank.\<close>

function join_lines :: "string \<Rightarrow> string" where
  "join_lines [] = []"
| "join_lines (c # cs) =
     (if is_space c
      then (let run = takeWhile is_space (c # cs)
            in (if CHR 0x0A \<in> set run then '' '' else run) @ join_lines (dropWhile is_space cs))
      else c # join_lines cs)"
  by pat_completeness auto
termination
  by (relation "measure length") (auto simp: less_Suc_eq_le length_dropWhile_le)

definition is_blank :: "char \<Rightarrow> bool" where
  "is_blank c = (c = CHR '' '' \<or> c = CHR 0x09)"

function squeeze_blanks :: "string \<Rightarrow> string" where
  "squeeze_blanks [] = []"
| "squeeze_blanks (c # cs) =
     (if is_blank c
      then (let run = takeWhile is_blank (c # cs)
            in (if 2 \<le> length run then '' '' else run) @ squeeze_blanks (dropWhile is_blank cs))
      else c # squeeze_blanks cs)"
  by pat_completeness auto
termination
  by (relation "measure length") (auto simp: less_Suc_eq_le length_dropWhile_le)

definition flattenSeedText :: "string \<Rightarrow> string" where
  "flattenSeedText t = trim (squeeze_blanks (join_lines t))"

definition flush :: "string \<Rightarrow> string list" where
  "flush t = (let s = flattenSeedText t in if s = [] then [] else [s])"

text \<open>The loop over the matches: \<open>held\<close> is the text since the last image.\<close>

function seed_parts :: "string \<Rightarrow> bool \<Rightarrow> string \<Rightarrow> string list" where
  "seed_parts held fresh [] = flush held"
| "seed_parts held fresh (c # cs) =
     (if fresh \<and> is_image_word False (word_of (c # cs))
      then flush held @ ('' '' @ quoteImagePathForPaste (word_of (c # cs)) @ '' '') #
        seed_parts [] False (dropWhile (\<lambda>c. \<not> is_space c) (c # cs))
      else seed_parts (held @ [c]) (is_space c) cs)"
  by pat_completeness auto
termination
  by (relation "measure (\<lambda>(_, _, s). length s)") (auto simp: less_Suc_eq_le length_dropWhile_le dest: image_word_head)

datatype seed = NoSeed | OneSeed string | SeedParts "string list"

definition promptTextToSeed :: "string \<Rightarrow> seed" where
  "promptTextToSeed t =
     (if snd (to_chips False 0 True t) = []
      then (let s = flattenSeedText t in if s = [] then NoSeed else OneSeed s)
      else SeedParts (seed_parts [] True t))"

section \<open>A stored prompt opens and is written back as it was\<close>

fun has_token :: "string \<Rightarrow> bool" where
  "has_token [] \<longleftrightarrow> False"
| "has_token (c # cs) \<longleftrightarrow> take_token (c # cs) \<noteq> None \<or> has_token cs"

lemma take_token_image: "take_token (image_token n @ rest) = Some (n, rest)"
proof -
  have "\<forall>ch\<in>set (nat_str n). is_digit ch" using nat_str_digits [of n] by (simp add: list_all_iff)
  moreover have "\<not> is_digit CHR '']''" by (simp add: is_digit_def)
  ultimately have "takeWhile is_digit (nat_str n @ CHR '']'' # rest) = nat_str n"
    "dropWhile is_digit (nat_str n @ CHR '']'' # rest) = CHR '']'' # rest"
    by (simp_all add: takeWhile_append2 dropWhile_append2)
  then show ?thesis by (simp add: take_token_def image_token_def starts_with_def Let_def)
qed

text \<open>Only its first character is a bracket that opens, so a token that begins in a text ends there too.\<close>

definition token_body :: "string \<Rightarrow> bool" where
  "token_body p \<longleftrightarrow> (\<exists>ds. p = ''Image #'' @ ds @ '']'' \<and> ds \<noteq> [] \<and> (\<forall>ch\<in>set ds. is_digit ch))"

lemma take_token_iff: "take_token (c # s) \<noteq> None \<longleftrightarrow> c = CHR ''['' \<and> (\<exists>p r. s = p @ r \<and> token_body p)"
proof
  assume a: "take_token (c # s) \<noteq> None"
  then have st: "starts_with (c # s) ''[Image #''" by (auto simp: take_token_def split: if_splits)
  define r0 where "r0 = drop 8 (c # s)"
  have len: "length ''[Image #'' = 8" by simp
  note s = starts_with_split [OF st, unfolded len, folded r0_def]
  obtain rest where r: "dropWhile is_digit r0 = CHR '']'' # rest" "takeWhile is_digit r0 \<noteq> []"
    using a st unfolding take_token_def Let_def r0_def [symmetric] by (auto split: list.splits if_splits)
  have "r0 = takeWhile is_digit r0 @ CHR '']'' # rest" by (metis r(1) takeWhile_dropWhile_id)
  with s have "c = CHR ''['' \<and> s = (''Image #'' @ takeWhile is_digit r0 @ '']'') @ rest" by simp
  moreover have "token_body (''Image #'' @ takeWhile is_digit r0 @ '']'')"
    unfolding token_body_def using r(2) by (blast dest: set_takeWhileD)
  ultimately show "c = CHR ''['' \<and> (\<exists>p r. s = p @ r \<and> token_body p)" by blast
next
  assume "c = CHR ''['' \<and> (\<exists>p r. s = p @ r \<and> token_body p)"
  then obtain ds r where d: "c = CHR ''[''" "s = ''Image #'' @ ds @ CHR '']'' # r" "ds \<noteq> []" "\<forall>ch\<in>set ds. is_digit ch"
    by (auto simp: token_body_def)
  have "\<not> is_digit CHR '']''" by (simp add: is_digit_def)
  with d(4) have "takeWhile is_digit (ds @ CHR '']'' # r) = ds" "dropWhile is_digit (ds @ CHR '']'' # r) = CHR '']'' # r"
    by (simp_all add: takeWhile_append2 dropWhile_append2)
  then show "take_token (c # s) \<noteq> None" using d(1-3) by (simp add: take_token_def starts_with_def Let_def)
qed

lemma token_body_plain: "token_body p \<Longrightarrow> CHR ''['' \<notin> set p"
proof -
  assume "token_body p"
  moreover have "\<not> is_digit CHR ''[''" by (simp add: is_digit_def)
  ultimately show ?thesis by (auto simp: token_body_def)
qed

lemma chips_prefix:
  assumes "fst (to_chips win k fresh s) = p @ r" "CHR ''['' \<notin> set p"
  shows "\<exists>r'. s = p @ r'"
  using assms
proof (induction win k fresh s arbitrary: p r rule: to_chips.induct)
  case (2 win k fresh c cs)
  show ?case
  proof (cases "p = [] \<or> fresh \<and> is_image_word win (word_of (c # cs))")
    case True
    then show ?thesis using 2(3,4) by (cases p) (auto simp: image_token_def split: prod.splits)
  next
    case False
    then obtain p' where p: "p = c # p'" "fst (to_chips win k (is_space c) cs) = p' @ r"
      using 2(3) by (cases p) (auto split: prod.splits)
    then show ?thesis using 2(2) [OF _ p(2)] False 2(4) by auto
  qed
qed simp

lemma chips_no_token:
  assumes "take_token (c # cs) = None"
  shows "take_token (c # fst (to_chips win k fresh cs)) = None"
proof (rule ccontr)
  assume "take_token (c # fst (to_chips win k fresh cs)) \<noteq> None"
  then obtain p r where p: "c = CHR ''[''" "fst (to_chips win k fresh cs) = p @ r" "token_body p"
    unfolding take_token_iff by blast
  then obtain r' where "cs = p @ r'" using chips_prefix [OF p(2) token_body_plain] by blast
  then have "take_token (c # cs) \<noteq> None" using p(1,3) unfolding take_token_iff by blast
  then show False using assms by simp
qed

lemma fill_chips:
  assumes "\<not> has_token s" "to_chips win k fresh s = (out, found)" "\<And>i. i < length found \<Longrightarrow> paths (Suc (k + i)) = Some (found ! i)"
    "fresh \<Longrightarrow> case before of None \<Rightarrow> True | Some b \<Rightarrow> is_space b"
  shows "fill_tokens paths before out = s"
  using assms
proof (induction win k fresh s arbitrary: out found before rule: to_chips.induct)
  case (2 win k fresh c cs)
  show ?case
  proof (cases "fresh \<and> is_image_word win (word_of (c # cs))")
    case True
    let ?w = "word_of (c # cs)" and ?rest = "dropWhile (\<lambda>c. \<not> is_space c) (c # cs)"
    obtain out' found' where r: "to_chips win (Suc k) False ?rest = (out', found')" by fastforce
    then have o: "out = image_token (Suc k) @ out'" "found = ?w # found'" using 2(4) True by simp_all
    have split: "?w @ ?rest = c # cs" by (simp add: word_of_def)
    have "\<not> has_token ?rest"
    proof -
      have "has_token t \<Longrightarrow> has_token (u @ t)" for u t by (induction u) auto
      then show ?thesis using 2(3) split by metis
    qed
    moreover have "paths (Suc (Suc k + i)) = Some (found' ! i)" if "i < length found'" for i
      using 2(5) [of "Suc i"] that o(2) by simp
    ultimately have rest: "fill_tokens paths (Some CHR '']'') out' = ?rest"
      using 2(1) [OF True _ r, of "Some CHR '']''"] by simp
    have path: "keep_truthy (paths (Suc k)) = Some ?w"
    proof -
      have "\<not> is_space c" using image_word_head True by blast
      then have "?w \<noteq> []" by (simp add: word_of_def)
      moreover have "paths (Suc k) = Some ?w" using 2(5) [of 0] unfolding o(2) by simp
      ultimately show ?thesis by (cases ?w) simp_all
    qed
    have tail: "(case out' of a # _ \<Rightarrow> if is_space a then [] else '' '' | [] \<Rightarrow> []) = []"
    proof (cases ?rest)
      case Nil
      then show ?thesis using r by auto
    next
      case (Cons a t)
      then have "is_space a" using hd_dropWhile [of "\<lambda>c. \<not> is_space c" "c # cs"] by auto
      then show ?thesis using r Cons by (auto split: prod.splits)
    qed
    have lead: "(case before of Some b \<Rightarrow> if is_space b then [] else '' '' | None \<Rightarrow> []) = []"
      using 2(6) True by (auto split: option.splits)
    obtain a t where t: "image_token (Suc k) @ out' = a # t" by (cases "image_token (Suc k)") (auto simp: image_token_def)
    show ?thesis
      unfolding o t fill_tokens.simps take_token_image [of "Suc k" out', unfolded t] using path lead tail rest split by simp
  next
    case False
    obtain out' where r: "to_chips win k (is_space c) cs = (out', found)" "out = c # out'"
      using 2(4) False by (auto split: prod.splits)
    then have "take_token (c # out') = None" using chips_no_token [of c cs win k "is_space c"] 2(3) by (simp del: not_None_eq)
    moreover have "fill_tokens paths (Some c) out' = cs"
      using 2(2) [OF False _ r(1), of "Some c"] 2(3,5) by simp
    ultimately show ?thesis by (simp add: r(2))
  qed
qed simp

lemma numbered_paths:
  assumes "i < length found"
  shows "paths_of (map (\<lambda>(i, p). \<lparr>ci_token = Suc i, ci_path = p\<rparr>) (enumerate 0 found)) (Suc i) = Some (found ! i)"
proof -
  let ?kvs = "map (\<lambda>im. (ci_token im, ci_path im)) (map (\<lambda>(i, p). \<lparr>ci_token = Suc i, ci_path = p\<rparr>) (enumerate 0 found))"
  have kvs: "?kvs = map (\<lambda>(i, p). (Suc i, p)) (enumerate 0 found)" by auto
  have "map fst ?kvs = map Suc [0..<length found]" unfolding kvs by (rule nth_equalityI) (simp_all add: enumerate_eq_zip)
  then have "distinct (map fst (rev ?kvs))" by (simp add: rev_map [symmetric] distinct_map)
  moreover have "(Suc i, found ! i) \<in> set (rev ?kvs)" using assms unfolding kvs by (force simp: in_set_enumerate_eq)
  ultimately show ?thesis unfolding paths_of_def by (simp add: map_of_eq_Some_iff)
qed

lemma prompt_verbatim:
  assumes "trim t = t" "\<not> has_token t"
  shows "composerValueToText (textToPrompt t win) = t"
proof -
  obtain out found where r: "to_chips win 0 True t = (out, found)" by fastforce
  have "fill_tokens (paths_of (cv_images (textToPrompt t win))) None out = t"
    by (rule fill_chips [OF assms(2) r]) (simp_all add: textToPrompt_def r numbered_paths)
  then show ?thesis by (simp add: composerValueToText_def assms(1)) (simp add: textToPrompt_def r assms(1))
qed



lemma chips_example: "cv_text (textToPrompt ''see /tmp/a.png, /tmp/b.PNG then /usr/bin'' False) = ''see /tmp/a.png, [Image #1] then /usr/bin''"
  by code_simp

text \<open>A token typed into the text by hand is lost: it takes the path of a chip, or nothing.\<close>

lemma typed_token_replaced: "composerValueToText (textToPrompt ''as in [Image #1]: /a.png'' False) = ''as in /a.png : /a.png''"
  by code_simp

section \<open>Quoting a path\<close>

lemma unescape_escaped:
  "unescape (concat (map (\<lambda>c. if c = bslash \<or> c = dquote then [bslash, c] else [c]) p)) = p"
proof (induction p)
  case (Cons c p)
  let ?e = "concat (map (\<lambda>c. if c = bslash \<or> c = dquote then [bslash, c] else [c]) p)"
  show ?case
  proof (cases "c = bslash \<or> c = dquote")
    case False
    then show ?thesis using Cons by (cases ?e) auto
  qed (use Cons in auto)
qed simp

lemma quoted_path_read:
  assumes "isRootedPath p win"
  shows "unquotePastedPath (quoteImagePathForPaste p) win = p"
proof (cases "needs_quoting p")
  case True
  let ?e = "concat (map (\<lambda>c. if c = bslash \<or> c = dquote then [bslash, c] else [c]) p)"
  have "trim (dquote # ?e @ [dquote]) = dquote # ?e @ [dquote]" by (rule trim_id) (simp_all add: is_space_def)
  then show ?thesis using True assms by (simp add: unquotePastedPath_def quoteImagePathForPaste_def unescape_escaped)
next
  case False
  then have "trim p = p" by (cases "p = []") (simp add: trim_def, intro trim_id, auto simp: needs_quoting_def)
  moreover have "p \<noteq> [] \<Longrightarrow> hd p \<noteq> dquote" using False by (auto simp: needs_quoting_def)
  ultimately show ?thesis using False by (cases p) (simp_all add: unquotePastedPath_def quoteImagePathForPaste_def)
qed

section \<open>The parts of a prompt\<close>

lemma flush_plain: "filter (\<lambda>s. hd s = CHR '' '') (flush held) = []"
  using trim_head [of "squeeze_blanks (join_lines held)"] by (auto simp: flush_def Let_def flattenSeedText_def is_space_def)

text \<open>The parts that begin with a blank are the images, in their order, each in the form the agent lifts.\<close>

lemma seed_images:
  "filter (\<lambda>s. hd s = CHR '' '') (seed_parts held fresh t) =
    map (\<lambda>p. '' '' @ quoteImagePathForPaste p @ '' '') (snd (to_chips False k fresh t))"
proof (induction held fresh t arbitrary: k rule: seed_parts.induct)
  case (1 held fresh)
  show ?case by (simp add: flush_plain)
next
  case (2 held fresh c cs)
  show ?case
  proof (cases "fresh \<and> is_image_word False (word_of (c # cs))")
    case True
    then show ?thesis using 2(1) [OF True, of "Suc k"] by (simp add: flush_plain split: prod.splits)
  next
    case False
    then show ?thesis using 2(2) [OF False, of k] by (auto split: prod.splits)
  qed
qed

end
