(* ===== verification/JobPlaces.thy ===== *)
theory JobPlaces
  imports ScheduleRules PeerMarkers JsSort "HOL-Library.Sublist"
begin

text \<open>
  Where an automation's results go (\<open>sendTo.ts\<close>) and which computers run it (\<open>jobsMachines.ts\<close>): reading and writing
  both lists, picking computers, and the one row shown of an automation that several computers list. A value read
  from the configuration is a \<^typ>\<open>yaml\<close>.
\<close>

section \<open>Destinations\<close>

record send_to_option =
  so_id :: string
  so_label :: string
  so_connectable :: bool

definition LPM_DESTINATION :: string where "LPM_DESTINATION = ''lpm''"

definition SEND_TO_OPTIONS :: "send_to_option list" where
  "SEND_TO_OPTIONS =
     [\<lparr>so_id = LPM_DESTINATION, so_label = ''lpm'', so_connectable = False\<rparr>,
      \<lparr>so_id = ''telegram'', so_label = ''Telegram'', so_connectable = True\<rparr>]"

definition DEFAULT_SEND_TO :: "string list" where "DEFAULT_SEND_TO = [LPM_DESTINATION]"

record send_to_target =
  tg_key :: string
  tg_name :: string

record send_to_link =
  sl_connected :: bool
  sl_targets :: "send_to_target list"

type_synonym send_to_links = "(string \<times> send_to_link) list"

definition splitSendTo :: "string \<Rightarrow> string \<times> string option" where
  "splitSendTo i =
     (if CHR '':'' \<notin> set i then (i, None)
      else (takeWhile (\<lambda>c. c \<noteq> CHR '':'') i, Some (tl (dropWhile (\<lambda>c. c \<noteq> CHR '':'') i))))"

definition targetId :: "string \<Rightarrow> string \<Rightarrow> string" where
  "targetId service key = service @ '':'' @ key"

definition canConnect :: "string \<Rightarrow> bool" where
  "canConnect i = (\<exists>opt\<in>set SEND_TO_OPTIONS. so_id opt = fst (splitSendTo i) \<and> so_connectable opt)"

definition serviceLabel :: "string \<Rightarrow> string" where
  "serviceLabel service = (case List.find (\<lambda>opt. so_id opt = service) SEND_TO_OPTIONS of Some opt \<Rightarrow> so_label opt | None \<Rightarrow> service)"

definition at_target :: "send_to_links \<Rightarrow> string \<Rightarrow> string" where
  "at_target links i =
     (case splitSendTo i of
        (service, None) \<Rightarrow>
          (case map_of links service of
             Some link \<Rightarrow> (case sl_targets link of t # _ \<Rightarrow> targetId service (tg_key t) | [] \<Rightarrow> i)
           | None \<Rightarrow> i)
      | _ \<Rightarrow> i)"

definition normalizeSendTo :: "string list \<Rightarrow> send_to_links \<Rightarrow> string list" where
  "normalizeSendTo ids links = fold (\<lambda>i out. set_add (at_target links i) out) ids []"

definition sendToReady :: "string \<Rightarrow> send_to_links \<Rightarrow> bool option" where
  "sendToReady i links =
     (case splitSendTo i of (service, key) \<Rightarrow>
        if service = LPM_DESTINATION then Some True
        else case map_of links service of
          None \<Rightarrow> None
        | Some link \<Rightarrow>
            (case key of
               None \<Rightarrow> Some (sl_connected link)
             | Some k \<Rightarrow> Some (sl_connected link \<and> (\<exists>t\<in>set (sl_targets link). tg_key t = k))))"

definition sendToName :: "string \<Rightarrow> send_to_links \<Rightarrow> string" where
  "sendToName i links =
     (case splitSendTo i of (service, key) \<Rightarrow>
        if service = LPM_DESTINATION then ''lpm''
        else let targets = (case map_of links service of Some link \<Rightarrow> sl_targets link | None \<Rightarrow> [])
             in case (case key of None \<Rightarrow> (if targets = [] then None else Some (hd targets))
                      | Some k \<Rightarrow> List.find (\<lambda>t. tg_key t = k) targets) of
                  Some t \<Rightarrow> tg_name t
                | None \<Rightarrow> (case key of Some k \<Rightarrow> k | None \<Rightarrow> serviceLabel service))"

definition menu_place :: "string \<Rightarrow> int" where
  "menu_place i = indexOf (fst (splitSendTo i)) (map so_id SEND_TO_OPTIONS)"

definition sendToSummary :: "string list \<Rightarrow> send_to_links \<Rightarrow> string" where
  "sendToSummary ids links =
     (if ids = [] then ''Nowhere''
      else let names = map (\<lambda>i. sendToName i links) (sort_by (\<lambda>a b. menu_place a - menu_place b) ids)
           in if length names \<le> 2 then join '' + '' names
              else hd names @ '' + '' @ nat_str (length names - 1) @ '' more'')"

definition read_id :: "yaml \<Rightarrow> string option" where
  "read_id v = (case v of YString s \<Rightarrow> keep_truthy (Some (to_lower (trim s))) | _ \<Rightarrow> None)"

definition readSendTo :: "yaml \<Rightarrow> string list" where
  "readSendTo v =
     (case (case v of YString s \<Rightarrow> Some [v] | YList vs \<Rightarrow> Some vs | _ \<Rightarrow> None) of
        None \<Rightarrow> DEFAULT_SEND_TO
      | Some vs \<Rightarrow> (let ids = List.map_filter read_id vs in if ids \<noteq> [] then to_set ids else DEFAULT_SEND_TO))"

definition send_rank :: "string \<Rightarrow> int" where
  "send_rank i =
     (let p = findIndex (\<lambda>opt. so_id opt = fst (splitSendTo i)) SEND_TO_OPTIONS
      in if p < 0 then int (length SEND_TO_OPTIONS) else p)"

definition writeSendTo :: "string list \<Rightarrow> string list option" where
  "writeSendTo ids =
     (if length ids = length DEFAULT_SEND_TO \<and> list_all (\<lambda>i. i \<in> set DEFAULT_SEND_TO) ids then None
      else Some (sort_by (\<lambda>a b. send_rank a - send_rank b) ids))"

section \<open>Computers\<close>

definition ANY_MACHINE :: string where "ANY_MACHINE = ''any''"

definition listedMachines :: "string list \<Rightarrow> string list" where
  "listedMachines ids = filter (\<lambda>i. i \<noteq> ANY_MACHINE) ids"

definition runsOnAny :: "string list \<Rightarrow> bool" where
  "runsOnAny ids = (ANY_MACHINE \<in> set ids)"

definition withAnyLast :: "string list \<Rightarrow> string list" where
  "withAnyLast ids = (if ANY_MACHINE \<in> set ids then listedMachines ids @ [ANY_MACHINE] else listedMachines ids)"

definition add_machine :: "yaml \<Rightarrow> string list \<Rightarrow> string list" where
  "add_machine item ids =
     (let t = trim (yaml_string item); i = (if to_lower t = ANY_MACHINE then ANY_MACHINE else t)
      in if i \<noteq> [] then set_add i ids else ids)"

definition readMachines :: "yaml \<Rightarrow> string list" where
  "readMachines v =
     (let raw = (case v of YString s \<Rightarrow> [v] | YList vs \<Rightarrow> vs | _ \<Rightarrow> [])
      in withAnyLast (fold add_machine raw []))"

definition toggleMachine :: "string list \<Rightarrow> string \<Rightarrow> string list" where
  "toggleMachine ids i =
     (let listed = listedMachines ids; any = runsOnAny ids;
          next_ids = (if i \<in> set listed then filter (\<lambda>x. x \<noteq> i) listed else listed @ [i])
      in if length next_ids = 0 \<and> \<not> any then ids
         else if any then next_ids @ [ANY_MACHINE] else next_ids)"

definition toggleAnyMachine :: "string list \<Rightarrow> string \<Rightarrow> string list" where
  "toggleAnyMachine ids fallback =
     (let listed = listedMachines ids
      in if runsOnAny ids then (if 0 < length listed then listed else [fallback])
         else (if 0 < length listed then listed else [fallback]) @ [ANY_MACHINE])"

text \<open>\<open>machineWords\<close> of \<open>machineWords.ts\<close>, the words used here.\<close>

record machine_words =
  mw_noun :: string
  mw_Noun :: string
  mw_plural :: string
  mw_ThisMachineTitle :: string
  mw_AnotherMachine :: string

definition machineWords :: "bool \<Rightarrow> machine_words" where
  "machineWords mac =
     (let noun = (if mac then ''Mac'' else ''computer''); Noun = (if mac then ''Mac'' else ''Computer'')
      in \<lparr>mw_noun = noun, mw_Noun = Noun, mw_plural = noun @ ''s'', mw_ThisMachineTitle = ''This '' @ Noun,
          mw_AnotherMachine = ''Another '' @ noun\<rparr>)"

definition machinesSummary :: "string list \<Rightarrow> (string \<Rightarrow> string) \<Rightarrow> machine_words \<Rightarrow> string" where
  "machinesSummary ids nameOf words =
     (if length ids = 0 then ''Every '' @ mw_Noun words
      else if runsOnAny ids then ''Any '' @ mw_Noun words
      else case listedMachines ids of
        [a] \<Rightarrow> nameOf a
      | [a, b] \<Rightarrow> nameOf a @ '' or '' @ nameOf b
      | listed \<Rightarrow> nat_str (length listed) @ '' '' @ mw_plural words)"

definition machinesNote :: "string list \<Rightarrow> (string \<Rightarrow> string) \<Rightarrow> machine_words \<Rightarrow> string" where
  "machinesNote ids nameOf words =
     (let listed = map nameOf (listedMachines ids)
      in if length ids = 0 then ''Every '' @ mw_noun words @ '' that has it runs it, each on its own.''
         else if runsOnAny ids
         then (if length listed = 0 then ''One '' @ mw_noun words @ '' that has it and is on runs it.''
               else join '', then '' listed @ '' runs it when it's on, otherwise another '' @ mw_noun words @ '' that has it.'')
         else if length listed = 1 then ''Only '' @ hd listed @ '' runs it.''
         else hd listed @ '' runs it when it's on, otherwise '' @ join '', then '' (tl listed) @ ''.'')"

section \<open>One row per automation\<close>

text \<open>The fields of a row that are read here; \<open>lr_machines\<close> holds the ids and \<open>lr_names\<close> their names.\<close>

record list_row =
  lr_id :: string
  lr_source :: "string option"
  lr_project :: "string option"
  lr_valid :: bool
  lr_running :: bool
  lr_machines :: "string list option"
  lr_names :: "(string \<times> string) list"
  lr_anyMachine :: bool
  lr_machineId :: "string option"

definition sameJobKey :: "list_row \<Rightarrow> string" where
  "sameJobKey row =
     (case lr_source row of None \<Rightarrow> [] | Some s \<Rightarrow> s) @ ''|'' @
     stripMarker (case lr_project row of None \<Rightarrow> [] | Some p \<Rightarrow> p) @ ''|'' @ lr_id row"

definition row_rank :: "list_row \<Rightarrow> int \<times> int \<times> string" where
  "row_rank row =
     (let ids = (case lr_machines row of None \<Rightarrow> [] | Some ms \<Rightarrow> ms);
          place = (case keep_truthy (lr_machineId row) of Some m \<Rightarrow> indexOf m ids | None \<Rightarrow> -1)
      in (if lr_running row then 0 else 1, if 0 \<le> place then place else int (length ids),
          case lr_machineId row of None \<Rightarrow> [] | Some m \<Rightarrow> m))"

definition row_before :: "list_row \<Rightarrow> list_row \<Rightarrow> bool" where
  "row_before a b =
     (case (row_rank a, row_rank b) of ((r, p, m), (r', p', m')) \<Rightarrow>
        if r \<noteq> r' then r < r' else if p \<noteq> p' then p < p' else if m \<noteq> m' then m < m' else False)"

definition named_row :: "list_row \<Rightarrow> bool" where
  "named_row row = (lr_machines row \<noteq> None \<and> lr_valid row)"

text \<open>\<open>aliasOf\<close> is the name of a paired computer here.\<close>

definition machine_name :: "list_row \<Rightarrow> string \<Rightarrow> (string \<Rightarrow> string option) \<Rightarrow> machine_words \<Rightarrow> string \<Rightarrow> string" where
  "machine_name row myId aliasOf words i =
     (if i = myId then mw_ThisMachineTitle words
      else case keep_truthy (aliasOf i) of
        Some a \<Rightarrow> a
      | None \<Rightarrow> (case keep_truthy (map_of (lr_names row) i) of Some a \<Rightarrow> a | None \<Rightarrow> mw_AnotherMachine words))"

definition rowMachinesLabel :: "list_row \<Rightarrow> string \<Rightarrow> (string \<Rightarrow> string option) \<Rightarrow> machine_words \<Rightarrow> string option" where
  "rowMachinesLabel row myId aliasOf words =
     (case lr_machines row of
        None \<Rightarrow> None
      | Some ids \<Rightarrow> Some (machinesSummary (if lr_anyMachine row then ids @ [ANY_MACHINE] else ids) (machine_name row myId aliasOf words) words))"

text \<open>Rows are compared as objects: the map holds the position of the row it keeps.\<close>

definition keep_best :: "list_row list \<Rightarrow> nat \<Rightarrow> (string \<times> nat) list \<Rightarrow> (string \<times> nat) list" where
  "keep_best rows i best =
     (let row = rows ! i; key = sameJobKey row
      in if \<not> named_row row then best
         else case map_of best key of
           None \<Rightarrow> AList.update key i best
         | Some kept \<Rightarrow> if row_before row (rows ! kept) then AList.update key i best else best)"

definition oneRowPerJob :: "list_row list \<Rightarrow> list_row list" where
  "oneRowPerJob rows =
     (let best = fold (keep_best rows) [0..<length rows] []
      in map (nth rows) (filter (\<lambda>i. \<not> named_row (rows ! i) \<or> map_of best (sameJobKey (rows ! i)) = Some i) [0..<length rows]))"

section \<open>Lists of destinations and computers are written as they are read\<close>

definition id_ok :: "string \<Rightarrow> bool" where
  "id_ok i \<longleftrightarrow> i \<noteq> [] \<and> to_lower (trim i) = i"

definition yaml_list :: "string list option \<Rightarrow> yaml" where
  "yaml_list v = (case v of None \<Rightarrow> YUndefined | Some ids \<Rightarrow> YList (map YString ids))"

interpretation send: js_compare "\<lambda>a b. send_rank a - send_rank b"
  by unfold_locales (auto simp: sgn_if)

lemma ids_read: "\<forall>i\<in>set ids. id_ok i \<Longrightarrow> List.map_filter read_id (map YString ids) = ids"
proof (induction ids)
  case (Cons i ids)
  then have "to_lower (trim i) = i" "i \<noteq> []" by (auto simp: id_ok_def)
  then have "read_id (YString i) = Some i" by (cases i) (simp_all add: read_id_def)
  then show ?case using Cons by (simp add: List.map_filter_simps)
qed (simp add: List.map_filter_simps)

lemma destinations_read:
  assumes "\<forall>i\<in>set ids. id_ok i" "distinct ids" "ids \<noteq> []"
  shows "readSendTo (yaml_list (writeSendTo ids)) = sort_by (\<lambda>a b. send_rank a - send_rank b) ids"
proof (cases "writeSendTo ids")
  case None
  then have "length ids = 1" "list_all (\<lambda>i. i = LPM_DESTINATION) ids" by (auto simp: writeSendTo_def DEFAULT_SEND_TO_def split: if_splits)
  then have "ids = [LPM_DESTINATION]" by (cases ids) auto
  then show ?thesis using None by (simp add: yaml_list_def readSendTo_def DEFAULT_SEND_TO_def)
next
  case (Some w)
  then have w: "w = sort_by (\<lambda>a b. send_rank a - send_rank b) ids" by (auto simp: writeSendTo_def split: if_splits)
  have "List.map_filter read_id (map YString w) = w" by (rule ids_read) (simp add: w assms(1))
  moreover have "w \<noteq> []" using assms(3) w by (metis length_sort_by length_0_conv)
  moreover have "to_set w = w" using assms(2) w by (intro to_set_distinct) simp
  ultimately show ?thesis using Some w by (simp add: yaml_list_def readSendTo_def)
qed

lemma written_again: "writeSendTo (sort_by (\<lambda>a b. send_rank a - send_rank b) ids) = writeSendTo ids"
  unfolding writeSendTo_def by (simp add: list_all_iff)

definition machine_id :: "string \<Rightarrow> bool" where
  "machine_id i \<longleftrightarrow> i \<noteq> [] \<and> trim i = i \<and> (to_lower i = ANY_MACHINE \<longrightarrow> i = ANY_MACHINE)"

definition machines_ok :: "string list \<Rightarrow> bool" where
  "machines_ok ids \<longleftrightarrow> distinct ids \<and> withAnyLast ids = ids \<and>
     list_all machine_id ids"

lemma machines_read: "machines_ok ids \<Longrightarrow> readMachines (YList (map YString ids)) = ids"
proof -
  assume ok: "machines_ok ids"
  have "fold add_machine (map YString xs) acc = fold set_add xs acc" if "set xs \<subseteq> set ids" for xs acc
    using that
  proof (induction xs arbitrary: acc)
    case (Cons x xs)
    then have "machine_id x" using ok by (simp add: machines_ok_def list_all_iff)
    then have "add_machine (YString x) acc = set_add x acc" by (auto simp: machine_id_def add_machine_def Let_def)
    then show ?case using Cons by simp
  qed simp
  then have "fold add_machine (map YString ids) [] = to_set ids" by (simp add: to_set_def)
  then show ?thesis using ok by (simp add: readMachines_def machines_ok_def to_set_distinct)
qed

lemma any_machine: "machine_id ANY_MACHINE" "to_lower ANY_MACHINE = ANY_MACHINE"
  by code_simp+

lemma any_last_ok:
  assumes "distinct ids" "list_all machine_id ids"
  shows "machines_ok (withAnyLast ids)"
  using assms any_machine by (auto simp: machines_ok_def withAnyLast_def listedMachines_def list_all_iff)

lemma readMachines_ok: "machines_ok (readMachines v)"
proof -
  let ?ok = "\<lambda>ids. distinct ids \<and> list_all machine_id ids"
  have step: "?ok (add_machine item acc)" if "?ok acc" for item acc
  proof -
    define t where "t = trim (yaml_string item)"
    define i where "i = (if to_lower t = ANY_MACHINE then ANY_MACHINE else t)"
    have "trim t = t" by (simp add: t_def trim_twice)
    then have "i \<noteq> [] \<Longrightarrow> machine_id i" using any_machine(1) by (simp add: i_def machine_id_def)
    moreover have "add_machine item acc = (if i \<noteq> [] then set_add i acc else acc)"
      unfolding add_machine_def Let_def t_def i_def ..
    ultimately show ?thesis using that by (simp add: list_all_iff)
  qed
  have "?ok (fold add_machine raw [])" for raw
    using fold_invariant [of raw "\<lambda>_. True" ?ok "[]" add_machine] step by simp
  then show ?thesis unfolding readMachines_def Let_def by (intro any_last_ok) blast+
qed

lemma machines_ok_split: "machines_ok ids \<Longrightarrow> ids = (if runsOnAny ids then listedMachines ids @ [ANY_MACHINE] else listedMachines ids)"
  by (simp add: machines_ok_def withAnyLast_def runsOnAny_def)

lemma toggleMachine_ok:
  assumes "machines_ok ids" "machine_id i" "i \<noteq> ANY_MACHINE"
  shows "machines_ok (toggleMachine ids i)" "ids \<noteq> [] \<Longrightarrow> toggleMachine ids i \<noteq> []"
proof -
  define l where "l = (if i \<in> set (listedMachines ids) then filter (\<lambda>x. x \<noteq> i) (listedMachines ids) else listedMachines ids @ [i])"
  have l: "distinct l" "list_all machine_id l" "ANY_MACHINE \<notin> set l"
    using assms by (auto simp: machines_ok_def listedMachines_def list_all_iff l_def)
  have "listedMachines l = l" using l(3) by (auto simp: listedMachines_def intro!: filter_True)
  then have "withAnyLast l = l" "withAnyLast (l @ [ANY_MACHINE]) = l @ [ANY_MACHINE]"
    using l(3) unfolding withAnyLast_def by (simp_all add: listedMachines_def)
  then have w: "machines_ok l" "machines_ok (l @ [ANY_MACHINE])"
    using l any_machine(1) unfolding machines_ok_def by simp_all
  then show "machines_ok (toggleMachine ids i)" using assms(1) unfolding toggleMachine_def Let_def l_def [symmetric] by presburger
  show "ids \<noteq> [] \<Longrightarrow> toggleMachine ids i \<noteq> []" by (simp add: toggleMachine_def Let_def)
qed

section \<open>Which row is shown\<close>

lemma row_before_trans: "row_before a b \<Longrightarrow> row_before b c \<Longrightarrow> row_before a c"
  by (cases "row_rank a"; cases "row_rank b"; cases "row_rank c") (auto simp: row_before_def split: if_splits)

lemma row_before_irrefl: "\<not> row_before a a"
  by (simp add: row_before_def split: prod.splits)

definition best_ok :: "list_row list \<Rightarrow> nat \<Rightarrow> (string \<times> nat) list \<Rightarrow> bool" where
  "best_ok rows n best \<longleftrightarrow>
     (\<forall>k i. map_of best k = Some i \<longrightarrow> i < n \<and> named_row (rows ! i) \<and> sameJobKey (rows ! i) = k \<and>
        (\<forall>j<n. named_row (rows ! j) \<and> sameJobKey (rows ! j) = k \<longrightarrow> \<not> row_before (rows ! j) (rows ! i))) \<and>
     (\<forall>j<n. named_row (rows ! j) \<longrightarrow> map_of best (sameJobKey (rows ! j)) \<noteq> None)"

lemma keep_best_ok:
  assumes "best_ok rows n best"
  shows "best_ok rows (Suc n) (keep_best rows n best)"
proof (cases "named_row (rows ! n)")
  case False
  then show ?thesis using assms by (auto simp: best_ok_def keep_best_def less_Suc_eq)
next
  case True
  let ?k = "sameJobKey (rows ! n)"
  show ?thesis
  proof (cases "map_of best ?k")
    case None
    then show ?thesis using True assms row_before_irrefl
      by (auto simp: best_ok_def keep_best_def less_Suc_eq jm.get_put split: if_splits)
  next
    case (Some kept)
    show ?thesis
    proof (cases "row_before (rows ! n) (rows ! kept)")
      case True
      have "\<not> row_before (rows ! j) (rows ! n)" if "j < n" "named_row (rows ! j)" "sameJobKey (rows ! j) = ?k" for j
        using assms Some that row_before_trans [OF _ True] by (auto simp: best_ok_def)
      then show ?thesis using \<open>named_row (rows ! n)\<close> True Some assms row_before_irrefl
        by (auto simp: best_ok_def keep_best_def less_Suc_eq jm.get_put split: if_splits)
    next
      case False
      then show ?thesis using \<open>named_row (rows ! n)\<close> Some assms
        by (auto simp: best_ok_def keep_best_def less_Suc_eq)
    qed
  qed
qed

lemma best_after: "best_ok rows n (fold (keep_best rows) [0..<n] [])"
proof (induction n)
  case (Suc n)
  then show ?case using keep_best_ok by simp
qed (simp add: best_ok_def)

lemma filter_one: "b < n \<Longrightarrow> filter (\<lambda>i. i = b) [0..<n] = [b]"
  by (induction n) (auto simp: less_Suc_eq filter_empty_conv)

text \<open>Property C29: of the rows that name their computers and are valid, exactly one is shown of each automation, one
  that no other row of that automation goes before; every other row is shown, and the order stays.\<close>

theorem one_row_shown:
  "let shown = oneRowPerJob rows
   in subseq shown rows \<and> filter (\<lambda>r. \<not> named_row r) shown = filter (\<lambda>r. \<not> named_row r) rows \<and>
    list_all (\<lambda>r. case filter (\<lambda>s. named_row s \<and> sameJobKey s = sameJobKey r) shown of [s] \<Rightarrow> \<not> row_before r s | _ \<Rightarrow> False)
      (filter named_row rows)"
  unfolding Let_def
proof (intro conjI)
  let ?best = "fold (keep_best rows) [0..<length rows] []"
  let ?Q = "\<lambda>i. \<not> named_row (rows ! i) \<or> map_of ?best (sameJobKey (rows ! i)) = Some i"
  let ?shown = "oneRowPerJob rows"
  note ok = best_after [of rows "length rows"]
  have shown: "?shown = map (nth rows) (filter ?Q [0..<length rows])" by (simp add: oneRowPerJob_def Let_def)
  have rows: "rows = map (nth rows) [0..<length rows]" by (simp add: map_nth)
  have "subseq (map (nth rows) (filter ?Q [0..<length rows])) (map (nth rows) [0..<length rows])"
    by (intro subseq_map subseq_filter_left)
  then show "subseq ?shown rows" unfolding shown map_nth .
  have "filter (\<lambda>r. \<not> named_row r) (map (nth rows) (filter ?Q [0..<length rows])) =
      filter (\<lambda>r. \<not> named_row r) (map (nth rows) [0..<length rows])"
    unfolding filter_map filter_filter by (intro arg_cong [of _ _ "map _"] filter_cong) auto
  then show "filter (\<lambda>r. \<not> named_row r) ?shown = filter (\<lambda>r. \<not> named_row r) rows" unfolding shown map_nth .
  show "list_all (\<lambda>r. case filter (\<lambda>s. named_row s \<and> sameJobKey s = sameJobKey r) ?shown of [s] \<Rightarrow> \<not> row_before r s | _ \<Rightarrow> False)
      (filter named_row rows)"
    unfolding list_all_iff
  proof
    fix r assume "r \<in> set (filter named_row rows)"
    then obtain j where j: "j < length rows" "r = rows ! j" "named_row r" by (auto simp: in_set_conv_nth)
    then obtain b where b: "map_of ?best (sameJobKey r) = Some b" using ok unfolding best_ok_def by blast
    then have bb: "b < length rows" "named_row (rows ! b)" "sameJobKey (rows ! b) = sameJobKey r" "\<not> row_before r (rows ! b)"
      using ok j unfolding best_ok_def by blast+
    have "filter (\<lambda>s. named_row s \<and> sameJobKey s = sameJobKey r) ?shown = map (nth rows) (filter (\<lambda>i. i = b) [0..<length rows])"
      unfolding shown filter_map filter_filter using b bb by (intro arg_cong [of _ _ "map _"] filter_cong) (auto simp: comp_def)
    then show "case filter (\<lambda>s. named_row s \<and> sameJobKey s = sameJobKey r) ?shown of [s] \<Rightarrow> \<not> row_before r s | _ \<Rightarrow> False"
      using bb by (simp add: filter_one)
  qed
qed

end
