(* ===== verification/JobEditor.thy ===== *)
theory JobEditor
  imports ScheduleDraft ComposerText JobPlaces
begin

text \<open>
  The job editor's draft and the body of the job in the configuration file (\<open>jobsFormat.ts\<close>, from \<open>JobDraft\<close> on): what
  a draft writes, the draft a body opens as, and the checks before a save. The fields of the schedule are the record
  \<^typ>\<open>schedule_draft\<close>. The platform is \<open>win\<close>, the clock \<open>c\<close>. The messages of the checks are constructors.
\<close>

section \<open>Drafts\<close>

datatype duplicate_mode = NoDuplicate | CopyProject | WorktreeOf
datatype job_run_kind = RunAction | RunCmd | RunPrompt
datatype job_access = FullAccess | ReadAccess

record job_draft =
  jd_label :: string
  jd_emoji :: string
  jd_schedule :: schedule_draft
  jd_check :: string
  jd_verify :: string
  jd_duplicateMode :: duplicate_mode
  jd_pullLatest :: "bool option"
  jd_reinstallDeps :: "bool option"
  jd_excludeUncommitted :: "bool option"
  jd_runMode :: job_run_kind
  jd_action :: string
  jd_cmd :: string
  jd_prompt :: composer_value
  jd_agent :: string
  jd_model :: string
  jd_effort :: string
  jd_access :: job_access
  jd_quiet :: bool
  jd_memory :: bool
  jd_claudeAccount :: "string option"
  jd_sendTo :: "string list"
  jd_targets :: "string list"
  jd_everyProject :: bool
  jd_machines :: "string list"

definition default_draft :: job_draft where
  "default_draft =
     \<lparr>jd_label = [], jd_emoji = [], jd_schedule = defaultJobDraft, jd_check = [], jd_verify = [], jd_duplicateMode = NoDuplicate,
      jd_pullLatest = None, jd_reinstallDeps = None, jd_excludeUncommitted = None, jd_runMode = RunPrompt, jd_action = [], jd_cmd = [],
      jd_prompt = EMPTY_COMPOSER, jd_agent = [], jd_model = [], jd_effort = [], jd_access = FullAccess, jd_quiet = False,
      jd_memory = True, jd_claudeAccount = None, jd_sendTo = DEFAULT_SEND_TO, jd_targets = [], jd_everyProject = False, jd_machines = []\<rparr>"

section \<open>Checks\<close>

datatype job_error =
    NoName | StandaloneAction | BadSchedule schedule_error | VerifiedAction | NoAction | NoCommand | NoPrompt | NowhereToSend

definition validateJobDraft :: "clock \<Rightarrow> job_draft \<Rightarrow> bool \<Rightarrow> int \<Rightarrow> job_error option" where
  "validateJobDraft c draft standalone now =
     (if trim (jd_label draft) = [] then Some NoName
      else if standalone \<and> jd_runMode draft = RunAction then Some StandaloneAction
      else case validateDraftSchedule c (jd_schedule draft) now of
        Some e \<Rightarrow> Some (BadSchedule e)
      | None \<Rightarrow>
          if trim (jd_verify draft) \<noteq> [] \<and> jd_runMode draft = RunAction then Some VerifiedAction
          else if jd_runMode draft = RunAction \<and> trim (jd_action draft) = [] then Some NoAction
          else if jd_runMode draft = RunCmd \<and> trim (jd_cmd draft) = [] then Some NoCommand
          else if jd_runMode draft = RunPrompt \<and> trim (cv_text (jd_prompt draft)) = [] then Some NoPrompt
          else if length (jd_sendTo draft) = 0 then Some NowhereToSend
          else None)"

section \<open>The body a draft writes\<close>

text \<open>A field of the body: a scalar, a list, or a mapping.\<close>

datatype payload_value = PVal block_value | PMap schedule_block

type_synonym payload = "(string \<times> payload_value) list"

definition payload_field :: "payload \<Rightarrow> string \<Rightarrow> payload_value" where
  "payload_field p k = (case map_of p k of None \<Rightarrow> PVal (BYaml YUndefined) | Some v \<Rightarrow> v)"

definition text_value :: "string \<Rightarrow> block_value" where "text_value s = BYaml (YString s)"

text \<open>\<open>if (s.trim()) block.k = s.trim()\<close>\<close>

definition given_text :: "string \<Rightarrow> string \<Rightarrow> schedule_block" where
  "given_text k s = (if trim s \<noteq> [] then [(k, text_value (trim s))] else [])"

definition given_account :: "string \<Rightarrow> string option \<Rightarrow> schedule_block" where
  "given_account agent account =
     (case account of
        Some a \<Rightarrow> if agent = [] \<or> agent = ''claude'' then [(''claudeAccount'', text_value a)] else []
      | None \<Rightarrow> [])"

definition buildRunBlock :: "job_draft \<Rightarrow> schedule_block" where
  "buildRunBlock draft =
     (case jd_runMode draft of
        RunAction \<Rightarrow>
          (let t = trim (composerValueToText (jd_prompt draft))
           in (''action'', text_value (trim (jd_action draft))) # (if t \<noteq> [] then [(''prompt'', text_value t)] else []))
      | RunCmd \<Rightarrow> [(''cmd'', text_value (trim (jd_cmd draft)))]
      | RunPrompt \<Rightarrow>
          [(''prompt'', text_value (composerValueToText (jd_prompt draft)))] @
          given_text ''agent'' (jd_agent draft) @ given_text ''model'' (jd_model draft) @ given_text ''effort'' (jd_effort draft) @
          (if jd_access draft = ReadAccess then [(''access'', text_value ''read'')] else []) @
          (if jd_quiet draft then [(''quiet'', BBool True)] else []) @
          (if jd_memory draft then [(''memory'', BBool True)] else []) @
          given_account (jd_agent draft) (jd_claudeAccount draft))"

definition given_flag :: "string \<Rightarrow> bool option \<Rightarrow> schedule_block" where
  "given_flag k v = (case v of None \<Rightarrow> [] | Some b \<Rightarrow> [(k, BBool b)])"

definition buildDuplicateValue :: "job_draft \<Rightarrow> payload_value option" where
  "buildDuplicateValue draft =
     (if jd_duplicateMode draft = NoDuplicate then None
      else let options =
        (if jd_duplicateMode draft = WorktreeOf then [(''mode'', text_value ''worktree'')]
         else given_flag ''pullLatest'' (jd_pullLatest draft) @ given_flag ''excludeUncommitted'' (jd_excludeUncommitted draft)) @
        given_flag ''reinstallDeps'' (jd_reinstallDeps draft)
        in Some (if options = [] then PVal (BBool True) else PMap options))"

definition asBoolOrNull :: "block_value \<Rightarrow> bool option" where
  "asBoolOrNull v = (case v of BBool b \<Rightarrow> Some b | _ \<Rightarrow> None)"

definition readDuplicateInto :: "job_draft \<Rightarrow> payload_value \<Rightarrow> job_draft" where
  "readDuplicateInto draft v =
     (case v of
        PVal (BBool True) \<Rightarrow> draft\<lparr>jd_duplicateMode := CopyProject\<rparr>
      | PVal _ \<Rightarrow> draft
      | PMap options \<Rightarrow>
          draft\<lparr>jd_duplicateMode := (if block_field options ''mode'' = text_value ''worktree'' then WorktreeOf else CopyProject),
            jd_pullLatest := asBoolOrNull (block_field options ''pullLatest''),
            jd_reinstallDeps := asBoolOrNull (block_field options ''reinstallDeps''),
            jd_excludeUncommitted := asBoolOrNull (block_field options ''excludeUncommitted'')\<rparr>)"

definition as_scalars :: "schedule_block \<Rightarrow> payload" where
  "as_scalars block = map (\<lambda>(k, v). (k, PVal v)) block"

definition buildJobPayload :: "job_draft \<Rightarrow> payload" where
  "buildJobPayload draft =
     [(''label'', PVal (text_value (trim (jd_label draft))))] @ as_scalars (given_text ''emoji'' (jd_emoji draft)) @
     [(''schedule'', PMap (scheduleBlockFromDraft (jd_schedule draft)))] @
     as_scalars (given_text ''check'' (jd_check draft)) @ as_scalars (given_text ''verify'' (jd_verify draft)) @
     (case buildDuplicateValue draft of None \<Rightarrow> [] | Some v \<Rightarrow> [(''duplicate'', v)]) @
     [(''run'', PMap (buildRunBlock draft))] @
     (case writeSendTo (jd_sendTo draft) of None \<Rightarrow> [] | Some ids \<Rightarrow> [(''sendTo'', PVal (BYaml (YList (map YString ids))))]) @
     (if 0 < length (jd_machines draft) then [(''machines'', PVal (BYaml (YList (map YString (jd_machines draft)))))] else [])"

section \<open>The draft a body opens as\<close>

fun string_value :: "block_value \<Rightarrow> string option" where
  "string_value (BYaml (YString s)) = Some s"
| "string_value _ = None"

definition string_field :: "payload \<Rightarrow> string \<Rightarrow> string \<Rightarrow> string" where
  "string_field p k default_s =
     (case payload_field p k of PVal v \<Rightarrow> (case string_value v of Some s \<Rightarrow> s | None \<Rightarrow> default_s) | PMap _ \<Rightarrow> default_s)"

text \<open>An object; an array is one without these fields.\<close>

definition object_value :: "payload_value \<Rightarrow> schedule_block option" where
  "object_value v = (case v of PMap b \<Rightarrow> Some b | PVal (BYaml (YList _)) \<Rightarrow> Some [] | PVal _ \<Rightarrow> None)"

definition scalar_value :: "payload_value \<Rightarrow> yaml" where
  "scalar_value v = (case v of PVal (BYaml y) \<Rightarrow> y | _ \<Rightarrow> YUndefined)"

definition nonblank :: "block_value \<Rightarrow> string option" where
  "nonblank v = (case string_value v of Some s \<Rightarrow> if trim s \<noteq> [] then Some s else None | None \<Rightarrow> None)"

definition read_run :: "bool \<Rightarrow> job_draft \<Rightarrow> schedule_block \<Rightarrow> job_draft" where
  "read_run win draft r =
     (case nonblank (block_field r ''action'') of
        Some a \<Rightarrow>
          (let draft = draft\<lparr>jd_runMode := RunAction, jd_action := trim a\<rparr>
           in case nonblank (block_field r ''prompt'') of Some t \<Rightarrow> draft\<lparr>jd_prompt := textToPrompt t win\<rparr> | None \<Rightarrow> draft)
      | None \<Rightarrow>
          (case nonblank (block_field r ''cmd'') of
             Some cmd \<Rightarrow> draft\<lparr>jd_runMode := RunCmd, jd_cmd := trim cmd\<rparr>
           | None \<Rightarrow>
               (case string_value (block_field r ''prompt'') of
                  None \<Rightarrow> draft
                | Some t \<Rightarrow>
                    (let text_of = (\<lambda>k old f. case string_value (block_field r k) of Some s \<Rightarrow> f (trim s) | None \<Rightarrow> old)
                     in draft\<lparr>jd_runMode := RunPrompt, jd_prompt := textToPrompt t win,
                          jd_agent := text_of ''agent'' (jd_agent draft) to_lower,
                          jd_model := text_of ''model'' (jd_model draft) (\<lambda>s. s),
                          jd_effort := text_of ''effort'' (jd_effort draft) to_lower,
                          jd_access := (case string_value (block_field r ''access'') of
                              Some s \<Rightarrow> if to_lower (trim s) = ''read'' then ReadAccess else jd_access draft | None \<Rightarrow> jd_access draft),
                          jd_quiet := (block_field r ''quiet'' = BBool True),
                          jd_memory := (block_field r ''memory'' = BBool True),
                          jd_claudeAccount := (case string_value (block_field r ''claudeAccount'') of
                              Some s \<Rightarrow> Some (trim s) | None \<Rightarrow> jd_claudeAccount draft)\<rparr>))))"

definition payloadToDraft :: "bool \<Rightarrow> clock \<Rightarrow> payload \<Rightarrow> job_draft" where
  "payloadToDraft win c p =
     (let draft = default_draft;
          draft = draft\<lparr>jd_label := string_field p ''label'' (jd_label draft), jd_emoji := string_field p ''emoji'' (jd_emoji draft),
            jd_verify := string_field p ''verify'' (jd_verify draft)\<rparr>;
          draft = readDuplicateInto draft (payload_field p ''duplicate'');
          draft = draft\<lparr>jd_sendTo := readSendTo (scalar_value (payload_field p ''sendTo'')),
            jd_machines := readMachines (scalar_value (payload_field p ''machines''))\<rparr>;
          draft = (case object_value (payload_field p ''schedule'') of
              None \<Rightarrow> draft | Some s \<Rightarrow> draft\<lparr>jd_schedule := readScheduleIntoDraft c (jd_schedule draft) s\<rparr>);
          draft = (case object_value (payload_field p ''run'') of None \<Rightarrow> draft | Some r \<Rightarrow> read_run win draft r);
          draft = draft\<lparr>jd_check := string_field p ''check'' (jd_check draft)\<rparr>
      in case payload_field p ''projects'' of
           PVal (BYaml (YList vs)) \<Rightarrow> draft\<lparr>jd_targets := map yaml_string vs\<rparr>
         | _ \<Rightarrow> draft)"

section \<open>A job opened and saved is written as it was\<close>

lemma payload_fields:
  fixes d defines "p \<equiv> buildJobPayload d"
  shows "payload_field p ''label'' = PVal (text_value (trim (jd_label d)))"
    "payload_field p ''schedule'' = PMap (scheduleBlockFromDraft (jd_schedule d))"
    "payload_field p ''run'' = PMap (buildRunBlock d)"
    "payload_field p ''duplicate'' = (case buildDuplicateValue d of None \<Rightarrow> PVal (BYaml YUndefined) | Some v \<Rightarrow> v)"
    "scalar_value (payload_field p ''sendTo'') = yaml_list (writeSendTo (jd_sendTo d))"
    "scalar_value (payload_field p ''machines'') = yaml_list (if jd_machines d = [] then None else Some (jd_machines d))"
    "payload_field p ''projects'' = PVal (BYaml YUndefined)"
  by (auto simp: p_def buildJobPayload_def payload_field_def as_scalars_def given_text_def scalar_value_def yaml_list_def split: option.splits)

lemma text_fields:
  fixes d defines "p \<equiv> buildJobPayload d"
  shows "string_field p ''label'' [] = trim (jd_label d)" "string_field p ''emoji'' [] = trim (jd_emoji d)"
    "string_field p ''check'' [] = trim (jd_check d)" "string_field p ''verify'' [] = trim (jd_verify d)"
  by (auto simp: p_def buildJobPayload_def string_field_def payload_field_def as_scalars_def given_text_def text_value_def split: option.splits)

lemma duplicate_resaved:
  assumes "jd_duplicateMode e = NoDuplicate" "jd_pullLatest e = None" "jd_excludeUncommitted e = None" "jd_reinstallDeps e = None"
  shows "buildDuplicateValue (readDuplicateInto e (case buildDuplicateValue d of None \<Rightarrow> PVal (BYaml YUndefined) | Some v \<Rightarrow> v)) =
    buildDuplicateValue d"
  using assms
  by (cases "jd_duplicateMode d"; cases "jd_pullLatest d"; cases "jd_excludeUncommitted d"; cases "jd_reinstallDeps d")
    (simp_all add: buildDuplicateValue_def readDuplicateInto_def given_flag_def Let_def block_field_def asBoolOrNull_def text_value_def)

text \<open>What the editor keeps of a draft: names in lower case, accounts without blanks, destinations and computers as
  their pickers give them, and no typed \<open>[Image #n]\<close> in a prompt.\<close>

definition run_ok :: "job_draft \<Rightarrow> bool" where
  "run_ok d \<longleftrightarrow> \<not> has_token (composerValueToText (jd_prompt d)) \<and>
     to_lower (trim (jd_agent d)) = trim (jd_agent d) \<and> to_lower (trim (jd_effort d)) = trim (jd_effort d) \<and>
     (case jd_claudeAccount d of None \<Rightarrow> True | Some a \<Rightarrow> trim a = a)"

definition job_ok :: "clock \<Rightarrow> job_draft \<Rightarrow> bool" where
  "job_ok c d \<longleftrightarrow> draft_ok c (jd_schedule d) \<and> run_ok d \<and> list_all id_ok (jd_sendTo d) \<and> distinct (jd_sendTo d) \<and> machines_ok (jd_machines d)"

lemma prompt_again: "\<not> has_token (composerValueToText v) \<Longrightarrow> composerValueToText (textToPrompt (composerValueToText v) win) = composerValueToText v"
  by (rule prompt_verbatim) (simp_all add: composerValueToText_def)

lemma composer_trimmed [simp]: "trim (composerValueToText v) = composerValueToText v"
  by (simp add: composerValueToText_def)

lemma empty_composer [simp]: "composerValueToText EMPTY_COMPOSER = []"
  by code_simp

lemma trim_Nil [simp]: "trim [] = []"
  by (simp add: trim_def)

lemma action_resaved:
  assumes "jd_runMode d = RunAction" "trim (jd_action d) \<noteq> []" "\<not> has_token (composerValueToText (jd_prompt d))" "jd_prompt e = EMPTY_COMPOSER"
  shows "buildRunBlock (read_run win e (buildRunBlock d)) = buildRunBlock d"
  using assms prompt_again [OF assms(3)] composer_trimmed [of "jd_prompt d"]
  by (cases "composerValueToText (jd_prompt d)") (simp_all add: buildRunBlock_def read_run_def block_field_def nonblank_def text_value_def Let_def)

lemma cmd_resaved:
  assumes "jd_runMode d = RunCmd" "trim (jd_cmd d) \<noteq> []"
  shows "buildRunBlock (read_run win e (buildRunBlock d)) = buildRunBlock d"
  using assms by (simp add: buildRunBlock_def read_run_def block_field_def nonblank_def text_value_def)

lemma block_fields:
  "block_field [] k = BYaml YUndefined"
  "block_field ((k', v) # ys) k = (if k = k' then v else block_field ys k)"
  "block_field (given_text k' s @ ys) k = (if k = k' \<and> trim s \<noteq> [] then text_value (trim s) else block_field ys k)"
  "block_field ((if P then [(k', v)] else []) @ ys) k = (if k = k' \<and> P then v else block_field ys k)"
  "block_field (given_account agent account) k = (case account of
      Some a \<Rightarrow> if k = ''claudeAccount'' \<and> (agent = [] \<or> agent = ''claude'') then text_value a else BYaml YUndefined
    | None \<Rightarrow> BYaml YUndefined)"
  by (auto simp: block_field_def given_text_def given_account_def split: option.split)

lemma prompt_fields:
  fixes d defines "r \<equiv> buildRunBlock d"
  assumes "jd_runMode d = RunPrompt"
  shows "nonblank (block_field r ''action'') = None" "nonblank (block_field r ''cmd'') = None"
    "string_value (block_field r ''prompt'') = Some (composerValueToText (jd_prompt d))"
    "string_value (block_field r ''agent'') = (if trim (jd_agent d) = [] then None else Some (trim (jd_agent d)))"
    "string_value (block_field r ''model'') = (if trim (jd_model d) = [] then None else Some (trim (jd_model d)))"
    "string_value (block_field r ''effort'') = (if trim (jd_effort d) = [] then None else Some (trim (jd_effort d)))"
    "string_value (block_field r ''access'') = (if jd_access d = ReadAccess then Some ''read'' else None)"
    "(block_field r ''quiet'' = BBool True) = jd_quiet d" "(block_field r ''memory'' = BBool True) = jd_memory d"
    "string_value (block_field r ''claudeAccount'') = (if jd_agent d = [] \<or> jd_agent d = ''claude'' then jd_claudeAccount d else None)"
  unfolding r_def using assms(2)
  by (simp_all add: buildRunBlock_def block_fields nonblank_def text_value_def split: option.split)

lemma text_back:
  "f [] = [] \<Longrightarrow> (case (if trim t = [] then None else Some (trim t)) of Some s \<Rightarrow> f (trim s) | None \<Rightarrow> []) = f (trim t)"
  by simp

lemma prompt_read:
  assumes "jd_runMode d = RunPrompt" "run_ok d"
    "jd_agent e = []" "jd_model e = []" "jd_effort e = []" "jd_access e = FullAccess" "jd_claudeAccount e = None"
  shows "read_run win e (buildRunBlock d) = e\<lparr>jd_runMode := RunPrompt,
    jd_prompt := textToPrompt (composerValueToText (jd_prompt d)) win, jd_agent := trim (jd_agent d), jd_model := trim (jd_model d),
    jd_effort := trim (jd_effort d), jd_access := jd_access d, jd_quiet := jd_quiet d, jd_memory := jd_memory d,
    jd_claudeAccount := (if jd_agent d = [] \<or> jd_agent d = ''claude'' then jd_claudeAccount d else None)\<rparr>"
proof -
  have lower: "to_lower [] = []" "to_lower (trim (jd_agent d)) = trim (jd_agent d)" "to_lower (trim (jd_effort d)) = trim (jd_effort d)"
    using assms(2) by (simp_all add: run_ok_def to_lower_def)
  have access: "(case (if jd_access d = ReadAccess then Some ''read'' else None) of
      Some s \<Rightarrow> if to_lower (trim s) = ''read'' then ReadAccess else jd_access e | None \<Rightarrow> jd_access e) = jd_access d"
  proof -
    have "to_lower (trim ''read'') = ''read''" by code_simp
    then show ?thesis using assms(6) by (cases "jd_access d") simp_all
  qed
  have account: "(case (if P then jd_claudeAccount d else None) of Some s \<Rightarrow> Some (trim s) | None \<Rightarrow> jd_claudeAccount e) =
      (if P then jd_claudeAccount d else None)" for P
    using assms(2,7) by (auto simp: run_ok_def split: option.split)
  show ?thesis
    unfolding read_run_def prompt_fields [OF assms(1)] option.case Let_def access account assms(3-5)
      text_back [where f = to_lower, OF lower(1)] text_back [where f = "\<lambda>s. s", OF refl] lower(2,3) ..
qed

lemma given_trim: "given_text k (trim s) = given_text k s"
  by (simp add: given_text_def)

lemma prompt_resaved:
  assumes "jd_runMode d = RunPrompt" "run_ok d"
    "jd_agent e = []" "jd_model e = []" "jd_effort e = []" "jd_access e = FullAccess" "jd_claudeAccount e = None"
  shows "buildRunBlock (read_run win e (buildRunBlock d)) = buildRunBlock d"
proof -
  have prompt: "composerValueToText (textToPrompt (composerValueToText (jd_prompt d)) win) = composerValueToText (jd_prompt d)"
    using assms(2) by (simp add: run_ok_def prompt_again)
  have account: "given_account (trim (jd_agent d)) (if jd_agent d = [] \<or> jd_agent d = ''claude'' then jd_claudeAccount d else None) =
      given_account (jd_agent d) (jd_claudeAccount d)"
  proof (cases "jd_agent d = [] \<or> jd_agent d = ''claude''")
    case True
    then have "trim (jd_agent d) = jd_agent d" by (elim disjE) (simp_all add: trim_def is_space_def)
    then show ?thesis using True by (cases "jd_claudeAccount d") simp_all
  next
    case False
    then show ?thesis by (cases "jd_claudeAccount d") (simp_all add: given_account_def)
  qed
  show ?thesis
    unfolding prompt_read [OF assms]
    by (simp add: buildRunBlock_def assms(1) prompt account given_trim split del: if_split)
qed

lemma duplicate_keeps:
  "jd_schedule (readDuplicateInto e v) = jd_schedule e" "jd_prompt (readDuplicateInto e v) = jd_prompt e"
  "jd_agent (readDuplicateInto e v) = jd_agent e" "jd_model (readDuplicateInto e v) = jd_model e"
  "jd_effort (readDuplicateInto e v) = jd_effort e" "jd_access (readDuplicateInto e v) = jd_access e"
  "jd_claudeAccount (readDuplicateInto e v) = jd_claudeAccount e" "jd_check (readDuplicateInto e v) = jd_check e"
  "jd_label (readDuplicateInto e v) = jd_label e" "jd_emoji (readDuplicateInto e v) = jd_emoji e" "jd_verify (readDuplicateInto e v) = jd_verify e"
  by (auto simp: readDuplicateInto_def split: payload_value.split block_value.split bool.split)

lemma run_keeps:
  "jd_check (read_run win e b) = jd_check e" "jd_label (read_run win e b) = jd_label e" "jd_emoji (read_run win e b) = jd_emoji e"
  "jd_verify (read_run win e b) = jd_verify e" "jd_schedule (read_run win e b) = jd_schedule e" "jd_sendTo (read_run win e b) = jd_sendTo e"
  "jd_machines (read_run win e b) = jd_machines e" "buildDuplicateValue (read_run win e b) = buildDuplicateValue e"
  by (simp_all add: read_run_def Let_def buildDuplicateValue_def split: option.split)

lemma default_fields: "jd_label default_draft = []" "jd_emoji default_draft = []" "jd_verify default_draft = []" "jd_check default_draft = []"
  "jd_schedule default_draft = defaultJobDraft" "jd_prompt default_draft = EMPTY_COMPOSER" "jd_agent default_draft = []"
  "jd_model default_draft = []" "jd_effort default_draft = []" "jd_access default_draft = FullAccess" "jd_claudeAccount default_draft = None"
  "jd_duplicateMode default_draft = NoDuplicate" "jd_pullLatest default_draft = None" "jd_excludeUncommitted default_draft = None"
  "jd_reinstallDeps default_draft = None"
  by (simp_all add: default_draft_def)

text \<open>The draft a written body opens as, but for what it runs.\<close>

definition reopened_around :: "clock \<Rightarrow> job_draft \<Rightarrow> job_draft" where
  "reopened_around c d =
     (readDuplicateInto (default_draft\<lparr>jd_label := trim (jd_label d), jd_emoji := trim (jd_emoji d), jd_verify := trim (jd_verify d)\<rparr>)
        (case buildDuplicateValue d of None \<Rightarrow> PVal (BYaml YUndefined) | Some v \<Rightarrow> v))
      \<lparr>jd_sendTo := readSendTo (yaml_list (writeSendTo (jd_sendTo d))),
       jd_machines := readMachines (yaml_list (if jd_machines d = [] then None else Some (jd_machines d))),
       jd_schedule := readScheduleIntoDraft c defaultJobDraft (scheduleBlockFromDraft (jd_schedule d))\<rparr>"

lemma reopened_job:
  "payloadToDraft win c (buildJobPayload d) = (read_run win (reopened_around c d) (buildRunBlock d))\<lparr>jd_check := trim (jd_check d)\<rparr>"
  unfolding payloadToDraft_def Let_def
  by (simp add: payload_fields text_fields default_fields object_value_def reopened_around_def duplicate_keeps run_keeps)

lemma around_fields:
  fixes d c defines "e \<equiv> reopened_around c d"
  shows "jd_label e = trim (jd_label d)" "jd_emoji e = trim (jd_emoji d)" "jd_verify e = trim (jd_verify d)"
    "jd_sendTo e = readSendTo (yaml_list (writeSendTo (jd_sendTo d)))"
    "jd_machines e = readMachines (yaml_list (if jd_machines d = [] then None else Some (jd_machines d)))"
    "jd_schedule e = readScheduleIntoDraft c defaultJobDraft (scheduleBlockFromDraft (jd_schedule d))"
    "jd_prompt e = EMPTY_COMPOSER" "jd_agent e = []" "jd_model e = []" "jd_effort e = []" "jd_access e = FullAccess" "jd_claudeAccount e = None"
  by (simp_all add: e_def reopened_around_def duplicate_keeps default_fields)

lemma duplicate_apart:
  "buildDuplicateValue (e\<lparr>jd_sendTo := a, jd_machines := b, jd_schedule := s\<rparr>) = buildDuplicateValue e"
  by (simp add: buildDuplicateValue_def)

lemma around_duplicate: "buildDuplicateValue (reopened_around c d) = buildDuplicateValue d"
  using duplicate_resaved [of "default_draft\<lparr>jd_label := trim (jd_label d), jd_emoji := trim (jd_emoji d), jd_verify := trim (jd_verify d)\<rparr>" d]
  unfolding reopened_around_def duplicate_apart by (simp add: default_fields)

text \<open>
  The draft a saved job opens as, field by field: names and texts without the blanks around them, what it runs
  and how, the schedule read back from its block, the copy it runs in, its destinations in their order on disk
  and its computers.
\<close>

definition runs_the_same :: "job_draft \<Rightarrow> job_draft \<Rightarrow> bool" where
  "runs_the_same d e \<longleftrightarrow> jd_runMode e = jd_runMode d \<and>
     (case jd_runMode d of
        RunAction \<Rightarrow> jd_action e = trim (jd_action d) \<and> composerValueToText (jd_prompt e) = composerValueToText (jd_prompt d)
      | RunCmd \<Rightarrow> jd_cmd e = trim (jd_cmd d)
      | RunPrompt \<Rightarrow> composerValueToText (jd_prompt e) = composerValueToText (jd_prompt d) \<and>
          jd_agent e = trim (jd_agent d) \<and> jd_model e = trim (jd_model d) \<and> jd_effort e = trim (jd_effort d) \<and>
          jd_access e = jd_access d \<and> jd_quiet e = jd_quiet d \<and> jd_memory e = jd_memory d \<and>
          jd_claudeAccount e = (if jd_agent d = [] \<or> jd_agent d = ''claude'' then jd_claudeAccount d else None))"

definition copies_the_same :: "job_draft \<Rightarrow> job_draft \<Rightarrow> bool" where
  "copies_the_same d e \<longleftrightarrow> jd_duplicateMode e = jd_duplicateMode d \<and>
     (jd_duplicateMode d = CopyProject \<longrightarrow> jd_pullLatest e = jd_pullLatest d \<and> jd_excludeUncommitted e = jd_excludeUncommitted d) \<and>
     (jd_duplicateMode d \<noteq> NoDuplicate \<longrightarrow> jd_reinstallDeps e = jd_reinstallDeps d)"

definition same_job :: "clock \<Rightarrow> job_draft \<Rightarrow> job_draft \<Rightarrow> bool" where
  "same_job c d e \<longleftrightarrow>
     jd_label e = trim (jd_label d) \<and> jd_emoji e = trim (jd_emoji d) \<and> jd_check e = trim (jd_check d) \<and> jd_verify e = trim (jd_verify d) \<and>
     draftToSchedule (jd_schedule e) = draftToSchedule (narrowed (jd_schedule d)) \<and>
     runs_the_same d e \<and> copies_the_same d e \<and>
     jd_sendTo e = sort_by (\<lambda>a b. send_rank a - send_rank b) (jd_sendTo d) \<and> jd_machines e = jd_machines d"

lemma copies_apart:
  "copies_the_same d (e\<lparr>jd_sendTo := a, jd_machines := b, jd_schedule := s\<rparr>) = copies_the_same d e"
  "copies_the_same d (e\<lparr>jd_check := t\<rparr>) = copies_the_same d e" "copies_the_same d (read_run win e r) = copies_the_same d e"
  by (simp_all add: copies_the_same_def read_run_def Let_def split: option.split)

lemma duplicate_reopened:
  assumes "jd_duplicateMode e = NoDuplicate" "jd_pullLatest e = None" "jd_excludeUncommitted e = None" "jd_reinstallDeps e = None"
  shows "copies_the_same d (readDuplicateInto e (case buildDuplicateValue d of None \<Rightarrow> PVal (BYaml YUndefined) | Some v \<Rightarrow> v))"
  using assms
  by (cases "jd_duplicateMode d"; cases "jd_pullLatest d"; cases "jd_excludeUncommitted d"; cases "jd_reinstallDeps d")
    (simp_all add: buildDuplicateValue_def readDuplicateInto_def given_flag_def Let_def block_field_def asBoolOrNull_def text_value_def copies_the_same_def)

lemma around_copies: "copies_the_same d (reopened_around c d)"
  using duplicate_reopened [of "default_draft\<lparr>jd_label := trim (jd_label d), jd_emoji := trim (jd_emoji d), jd_verify := trim (jd_verify d)\<rparr>" d]
  unfolding reopened_around_def copies_apart by (simp add: default_fields)

lemma runs_apart: "runs_the_same d (e\<lparr>jd_check := t\<rparr>) = runs_the_same d e"
  by (simp add: runs_the_same_def cong: job_run_kind.case_cong)

lemma run_reopened:
  assumes "run_ok d" "jd_prompt e = EMPTY_COMPOSER" "jd_agent e = []" "jd_model e = []" "jd_effort e = []" "jd_access e = FullAccess"
    "jd_claudeAccount e = None" "jd_runMode d = RunAction \<Longrightarrow> trim (jd_action d) \<noteq> []" "jd_runMode d = RunCmd \<Longrightarrow> trim (jd_cmd d) \<noteq> []"
  shows "runs_the_same d (read_run win e (buildRunBlock d))"
proof (cases "jd_runMode d")
  case RunAction
  have again: "composerValueToText (textToPrompt (composerValueToText (jd_prompt d)) win) = composerValueToText (jd_prompt d)"
    using assms(1) by (simp add: run_ok_def prompt_again)
  show ?thesis
    using RunAction assms(2,8) again composer_trimmed [of "jd_prompt d"]
    by (cases "composerValueToText (jd_prompt d)")
      (simp_all add: runs_the_same_def buildRunBlock_def read_run_def block_field_def nonblank_def text_value_def Let_def)
next
  case RunCmd
  then show ?thesis using assms(9)
    by (simp add: runs_the_same_def buildRunBlock_def read_run_def block_field_def nonblank_def text_value_def)
next
  case RunPrompt
  have "composerValueToText (textToPrompt (composerValueToText (jd_prompt d)) win) = composerValueToText (jd_prompt d)"
    using assms(1) by (simp add: run_ok_def prompt_again)
  then show ?thesis unfolding prompt_read [OF RunPrompt assms(1,3-7)] by (simp add: runs_the_same_def RunPrompt)
qed


definition sample_job :: job_draft where
  "sample_job = default_draft\<lparr>jd_label := '' Nightly '', jd_schedule := sample_draft, jd_duplicateMode := WorktreeOf, jd_reinstallDeps := Some False,
     jd_prompt := \<lparr>cv_text = ''Compare [Image #1] with main.'', cv_images = [\<lparr>ci_token = 1, ci_path = ''/tmp/a.png''\<rparr>], cv_pending = False\<rparr>,
     jd_agent := ''claude'', jd_claudeAccount := Some ''work'', jd_sendTo := [''telegram:ops'', ''lpm''], jd_machines := [''m1'', ''any'']\<rparr>"


end
