(* ===== verification/ResumePicker.thy ===== *)
theory ResumePicker
  imports PersistedTree AgentStatus ComposerText JsSort
begin

text \<open>
  The conversations that can be resumed (\<open>agentSessions.ts\<close>, \<open>sessionText.ts\<close>): what the agents store and the tabs
  that were closed here, merged into one list of rows, searched, sorted and grouped by day. The platform is \<open>win\<close>; the
  start of today is computed by the caller's clock, and \<open>month_label\<close> is the formatting of the runtime.
\<close>

section \<open>Prompts as titles\<close>

function blank_tokens :: "string \<Rightarrow> string" where
  "blank_tokens [] = []"
| "blank_tokens (c # cs) = (case take_token (c # cs) of Some (_, rest) \<Rightarrow> CHR '' '' # blank_tokens rest | None \<Rightarrow> c # blank_tokens cs)"
  by pat_completeness auto
termination
  by (relation "measure length") (auto dest: take_token_shorter)

function squeeze_spaces :: "string \<Rightarrow> string" where
  "squeeze_spaces [] = []"
| "squeeze_spaces (c # cs) =
     (if is_space c then CHR '' '' # squeeze_spaces (dropWhile is_space cs) else c # squeeze_spaces cs)"
  by pat_completeness auto
termination
  by (relation "measure length") (auto simp: less_Suc_eq_le length_dropWhile_le)

definition cleanPrompt :: "string option \<Rightarrow> string" where
  "cleanPrompt v =
     (let t = trim (case v of None \<Rightarrow> [] | Some s \<Rightarrow> s); stripped = trim (squeeze_spaces (blank_tokens t))
      in if stripped \<noteq> [] then stripped else if t \<noteq> [] then ''Image prompt'' else [])"

definition title_char :: "char \<Rightarrow> bool" where
  "title_char c = (is_digit c \<or> (97 \<le> (of_char c :: nat) \<and> (of_char c :: nat) \<le> 122))"

function words_only :: "string \<Rightarrow> string" where
  "words_only [] = []"
| "words_only (c # cs) =
     (if title_char c then c # words_only cs else CHR '' '' # words_only (dropWhile (\<lambda>x. \<not> title_char x) cs))"
  by pat_completeness auto
termination
  by (relation "measure length") (auto simp: less_Suc_eq_le length_dropWhile_le)

definition normalize_title :: "string \<Rightarrow> string" where
  "normalize_title v = trim (words_only (to_lower v))"

text \<open>\<open>short.length >= long.length * 0.7\<close>\<close>

definition echoesTitle :: "string \<Rightarrow> string \<Rightarrow> bool" where
  "echoesTitle title preview =
     (let a = normalize_title title; b = normalize_title preview
      in if a = [] \<or> b = [] then True
         else if a = b then True
         else case (if length a < length b then (a, b) else (b, a)) of
           (short, long) \<Rightarrow> starts_with long short \<and> 7 * length long \<le> 10 * length short)"

section \<open>Rows\<close>

record agent_session_summary =
  as_provider :: agent_provider
  as_sessionId :: string
  as_title :: "string option"
  as_preview :: "string option"
  as_updatedAt :: int
  as_gitBranch :: "string option"
  as_account :: "string option"

datatype title_origin = Named | Prompt | FromTab

record session_row =
  pk_key :: string
  pk_provider :: "agent_provider option"
  pk_sessionId :: "string option"
  pk_title :: string
  pk_titleOrigin :: title_origin
  pk_preview :: string
  pk_updatedAt :: int
  pk_gitBranch :: "string option"
  pk_account :: "string option"
  pk_resumeCmd :: string
  pk_actionName :: "string option"
  pk_label :: string
  pk_storeBacked :: bool
  pk_sessionTitleId :: "string option"
  pk_sessionTitleSource :: "title_source option"
  pk_openInTerminalId :: "string option"
  pk_remembered :: bool

fun provider_name :: "agent_provider \<Rightarrow> string" where
  "provider_name Claude = ''claude''" | "provider_name Codex = ''codex''"

definition resumeCmdFor :: "agent_session_summary \<Rightarrow> string" where
  "resumeCmdFor session =
     (if as_provider session = Codex then ''codex resume '' @ as_sessionId session else ''claude --resume '' @ as_sessionId session)"

definition historyLabel :: "persisted_history_entry \<Rightarrow> string" where
  "historyLabel entry = (case keep_truthy (h_sessionTitle entry) of Some t \<Rightarrow> t | None \<Rightarrow> h_label entry)"

definition rowTitle :: "agent_session_summary \<Rightarrow> persisted_history_entry option \<Rightarrow> string \<times> title_origin" where
  "rowTitle session entry =
     (case (case entry of Some e \<Rightarrow> if h_sessionTitleSource e = Some Manual then keep_truthy (h_sessionTitle e) else None | None \<Rightarrow> None) of
        Some t \<Rightarrow> (t, Named)
      | None \<Rightarrow>
          if cleanPrompt (as_title session) \<noteq> [] then (cleanPrompt (as_title session), Named)
          else if cleanPrompt (as_preview session) \<noteq> [] then (cleanPrompt (as_preview session), Prompt)
          else (case entry of Some e \<Rightarrow> historyLabel e | None \<Rightarrow> ''Untitled session'', FromTab))"

text \<open>The first entry of each conversation.\<close>

definition note_entry :: "bool \<Rightarrow> persisted_history_entry \<Rightarrow> (string \<times> persisted_history_entry) list \<Rightarrow> (string \<times> persisted_history_entry) list" where
  "note_entry win entry byId =
     (case agentSessionRefOf win (Some (h_resumeCmd entry)) of
        None \<Rightarrow> byId
      | Some r \<Rightarrow> if map_of byId (ref_session_id r) = None then AList.update (ref_session_id r) entry byId else byId)"

definition stored_row :: "(string \<times> string) list \<Rightarrow> agent_session_summary \<Rightarrow> persisted_history_entry option \<Rightarrow> session_row" where
  "stored_row open_tabs session entry =
     (case rowTitle session entry of (title, origin) \<Rightarrow>
        \<lparr>pk_key = provider_name (as_provider session) @ '':'' @ as_sessionId session, pk_provider = Some (as_provider session),
         pk_sessionId = Some (as_sessionId session), pk_title = title, pk_titleOrigin = origin,
         pk_preview = cleanPrompt (as_preview session),
         pk_updatedAt = (if 0 < as_updatedAt session then as_updatedAt session else case entry of Some e \<Rightarrow> h_closedAt e | None \<Rightarrow> 0),
         pk_gitBranch = keep_truthy (map_option trim (as_gitBranch session)), pk_account = as_account session,
         pk_resumeCmd = (case entry of Some e \<Rightarrow> h_resumeCmd e | None \<Rightarrow> resumeCmdFor session),
         pk_actionName = (case entry of Some e \<Rightarrow> h_actionName e | None \<Rightarrow> None),
         pk_label = (case entry of Some e \<Rightarrow> h_label e | None \<Rightarrow> fst (snd (providerMeta (provider_name (as_provider session))))),
         pk_storeBacked = True,
         pk_sessionTitleId = (case entry of Some e \<Rightarrow> h_sessionTitleId e | None \<Rightarrow> None),
         pk_sessionTitleSource = (case entry of Some e \<Rightarrow> h_sessionTitleSource e | None \<Rightarrow> None),
         pk_openInTerminalId = map_of open_tabs (as_sessionId session), pk_remembered = (entry \<noteq> None)\<rparr>)"

definition closed_row :: "(string \<times> string) list \<Rightarrow> persisted_history_entry \<Rightarrow> agent_session_ref option \<Rightarrow> session_row" where
  "closed_row open_tabs entry r =
     \<lparr>pk_key = ''history:'' @ h_resumeCmd entry, pk_provider = map_option ref_provider r, pk_sessionId = map_option ref_session_id r,
      pk_title = historyLabel entry, pk_titleOrigin = FromTab,
      pk_preview = (case keep_truthy (h_actionName entry) of Some a \<Rightarrow> ''Ran '' @ a | None \<Rightarrow> []),
      pk_updatedAt = h_closedAt entry, pk_gitBranch = None, pk_account = None, pk_resumeCmd = h_resumeCmd entry,
      pk_actionName = h_actionName entry, pk_label = h_label entry, pk_storeBacked = False,
      pk_sessionTitleId = h_sessionTitleId entry, pk_sessionTitleSource = h_sessionTitleSource entry,
      pk_openInTerminalId = (case r of Some s \<Rightarrow> map_of open_tabs (ref_session_id s) | None \<Rightarrow> None), pk_remembered = True\<rparr>"

definition push_closed :: "bool \<Rightarrow> (string \<times> string) list \<Rightarrow> persisted_history_entry \<Rightarrow> session_row list \<times> string set \<Rightarrow> session_row list \<times> string set" where
  "push_closed win open_tabs entry acc =
     (case acc of (rows, seen) \<Rightarrow>
        (case agentSessionRefOf win (Some (h_resumeCmd entry)) of
           Some r \<Rightarrow> if ref_session_id r \<in> seen then acc
                     else (rows @ [closed_row open_tabs entry (Some r)], insert (ref_session_id r) seen)
         | None \<Rightarrow> (rows @ [closed_row open_tabs entry None], seen)))"

definition all_session_rows :: "bool \<Rightarrow> persisted_history_entry list \<Rightarrow> agent_session_summary list \<Rightarrow> (string \<times> string) list \<Rightarrow> session_row list" where
  "all_session_rows win history sessions open_tabs =
     (let byId = fold (note_entry win) history [];
          rows = map (\<lambda>s. stored_row open_tabs s (map_of byId (as_sessionId s))) sessions
      in fst (fold (push_closed win open_tabs) history (rows, set (map as_sessionId sessions))))"

definition row_matches :: "string \<Rightarrow> session_row \<Rightarrow> bool" where
  "row_matches needle row =
     (needle = [] \<or> str_includes (to_lower (pk_title row)) needle \<or> str_includes (to_lower (pk_preview row)) needle \<or>
      (case pk_gitBranch row of Some b \<Rightarrow> str_includes (to_lower b) needle | None \<Rightarrow> False))"

definition mergeSessionRows :: "bool \<Rightarrow> persisted_history_entry list \<Rightarrow> agent_session_summary list \<Rightarrow> (string \<times> string) list \<Rightarrow> string \<Rightarrow> string set \<Rightarrow> session_row list" where
  "mergeSessionRows win history sessions open_tabs search hidden =
     (let needle = to_lower (trim search)
      in sort_by (\<lambda>a b. pk_updatedAt b - pk_updatedAt a)
           (filter (row_matches needle) (filter (\<lambda>row. pk_key row \<notin> hidden) (all_session_rows win history sessions open_tabs))))"

definition filterByProvider :: "session_row list \<Rightarrow> agent_provider option \<Rightarrow> session_row list" where
  "filterByProvider rows wanted = (case wanted of None \<Rightarrow> rows | Some p \<Rightarrow> filter (\<lambda>row. pk_provider row = Some p) rows)"

section \<open>Days\<close>

definition DAY_MS :: int where "DAY_MS = 86400000"

definition dayLabel :: "(int \<Rightarrow> string) \<Rightarrow> int \<Rightarrow> int \<Rightarrow> string" where
  "dayLabel month_label startOfToday moment =
     (if moment \<le> 0 then ''Older''
      else if startOfToday \<le> moment then ''Today''
      else if startOfToday - DAY_MS \<le> moment then ''Yesterday''
      else if startOfToday - 6 * DAY_MS \<le> moment then ''Earlier this week''
      else if startOfToday - 29 * DAY_MS \<le> moment then ''Earlier this month''
      else month_label moment)"

definition add_to_day :: "(session_row \<Rightarrow> string) \<Rightarrow> session_row \<Rightarrow> (string \<times> session_row list) list \<Rightarrow> (string \<times> session_row list) list" where
  "add_to_day label_of row groups =
     (if groups \<noteq> [] \<and> fst (last groups) = label_of row
      then butlast groups @ [(fst (last groups), snd (last groups) @ [row])]
      else groups @ [(label_of row, [row])])"

definition groupByDay :: "(int \<Rightarrow> string) \<Rightarrow> session_row list \<Rightarrow> int \<Rightarrow> (string \<times> session_row list) list" where
  "groupByDay month_label rows startOfToday =
     fold (add_to_day (\<lambda>row. dayLabel month_label startOfToday (pk_updatedAt row))) rows []"

section \<open>The rows\<close>

definition closed_id :: "bool \<Rightarrow> persisted_history_entry \<Rightarrow> string option" where
  "closed_id win e = map_option ref_session_id (agentSessionRefOf win (Some (h_resumeCmd e)))"

lemma noted_entries:
  "map_of (fold (note_entry win) history acc) i =
    (case map_of acc i of Some e \<Rightarrow> Some e | None \<Rightarrow> List.find (\<lambda>e. closed_id win e = Some i) history)"
proof (induction history arbitrary: acc)
  case (Cons e history)
  have "map_of (note_entry win e acc) i =
      (case map_of acc i of Some e' \<Rightarrow> Some e' | None \<Rightarrow> if closed_id win e = Some i then Some e else None)"
    by (auto simp: note_entry_def closed_id_def jm.get_put split: option.split)
  then show ?case by (simp add: Cons.IH split: option.split)
qed (simp split: option.split)

text \<open>The entries that get a row of their own.\<close>

fun kept_entries :: "bool \<Rightarrow> string set \<Rightarrow> persisted_history_entry list \<Rightarrow> persisted_history_entry list" where
  "kept_entries win seen [] = []"
| "kept_entries win seen (e # es) =
     (case closed_id win e of
        None \<Rightarrow> e # kept_entries win seen es
      | Some i \<Rightarrow> if i \<in> seen then kept_entries win seen es else e # kept_entries win (insert i seen) es)"

lemma push_all:
  "fst (fold (push_closed win open_tabs) history (rows, seen)) =
    rows @ map (\<lambda>e. closed_row open_tabs e (agentSessionRefOf win (Some (h_resumeCmd e)))) (kept_entries win seen history)"
proof (induction history arbitrary: rows seen)
  case (Cons e history)
  then show ?case by (cases "agentSessionRefOf win (Some (h_resumeCmd e))") (simp_all add: push_closed_def closed_id_def)
qed simp

lemma kept_subset: "set (kept_entries win seen es) \<subseteq> set es"
  by (induction win seen es rule: kept_entries.induct) (auto split: option.splits if_splits)

lemma kept_none: "filter (\<lambda>e. closed_id win e = None) (kept_entries win seen es) = filter (\<lambda>e. closed_id win e = None) es"
  by (induction win seen es rule: kept_entries.induct) (auto split: option.splits if_splits)

lemma kept_ids:
  "set (List.map_filter (closed_id win) (kept_entries win seen es)) = set (List.map_filter (closed_id win) es) - seen \<and>
    distinct (List.map_filter (closed_id win) (kept_entries win seen es))"
proof (induction win seen es rule: kept_entries.induct)
  case (2 win seen e es)
  then show ?case by (cases "closed_id win e") (auto simp: List.map_filter_simps)
qed (simp add: List.map_filter_simps)

lemma map_filter_append: "List.map_filter f (xs @ ys) = List.map_filter f xs @ List.map_filter f ys"
  by (simp add: List.map_filter_def)

lemma map_filter_mset: "mset xs = mset ys \<Longrightarrow> mset (List.map_filter f xs) = mset (List.map_filter f ys)"
  by (simp add: List.map_filter_def)

lemma map_filter_map: "List.map_filter f (map g xs) = List.map_filter (f \<circ> g) xs"
  by (induction xs) (auto simp: List.map_filter_simps split: option.split)

interpretation newest: js_compare "\<lambda>a b. pk_updatedAt b - pk_updatedAt a"
  by unfold_locales (auto simp: sgn_if)

lemma stored_id [simp]: "pk_sessionId (stored_row open_tabs s e) = Some (as_sessionId s)"
  by (simp add: stored_row_def split: prod.split)

lemma closed_row_id [simp]: "pk_sessionId (closed_row open_tabs e r) = map_option ref_session_id r"
  by (simp add: closed_row_def)

lemma all_row_ids:
  "List.map_filter pk_sessionId (all_session_rows win history sessions open_tabs) =
    map as_sessionId sessions @ List.map_filter (closed_id win) (kept_entries win (set (map as_sessionId sessions)) history)"
proof -
  have "List.map_filter (pk_sessionId \<circ> (\<lambda>s. stored_row open_tabs s (m s))) sessions = map as_sessionId sessions" for m
    by (induction sessions) (simp_all add: List.map_filter_simps)
  then have "List.map_filter pk_sessionId (map (\<lambda>s. stored_row open_tabs s (m s)) sessions) = map as_sessionId sessions" for m
    by (simp only: map_filter_map)
  moreover have "pk_sessionId \<circ> (\<lambda>e. closed_row open_tabs e (agentSessionRefOf win (Some (h_resumeCmd e)))) = closed_id win"
    by (auto simp: closed_id_def)
  ultimately show ?thesis
    unfolding all_session_rows_def Let_def push_all map_filter_append by (simp only: map_filter_map)
qed

lemma all_rows_unnamed:
  "map pk_resumeCmd (filter (\<lambda>r. pk_sessionId r = None) (all_session_rows win history sessions open_tabs)) =
    map h_resumeCmd (filter (\<lambda>e. closed_id win e = None) history)"
proof -
  let ?row = "\<lambda>e. closed_row open_tabs e (agentSessionRefOf win (Some (h_resumeCmd e)))"
  have "(\<lambda>r. pk_sessionId r = None) \<circ> ?row = (\<lambda>e. closed_id win e = None)" "pk_resumeCmd \<circ> ?row = h_resumeCmd"
    by (auto simp: closed_row_def closed_id_def)
  then have "map pk_resumeCmd (filter (\<lambda>r. pk_sessionId r = None) (map ?row (kept_entries win seen history))) =
      map h_resumeCmd (filter (\<lambda>e. closed_id win e = None) history)" for seen
    by (simp only: filter_map map_map kept_none)
  moreover have "filter (\<lambda>r. pk_sessionId r = None) (map (\<lambda>s. stored_row open_tabs s (m s)) sessions) = []" for m
    by (induction sessions) simp_all
  ultimately show ?thesis
    unfolding all_session_rows_def Let_def push_all filter_append by (simp only: append_Nil)
qed

section \<open>What a row resumes\<close>

lemma commandName_codex: "commandName ''codex'' win = ''codex''"
  by (cases win) (simp_all add: commandName_def basename_def path_parts_def split_on_def fslash_def
      is_slash_def strip_program_ext_def to_lower_def lower_char_def)

lemma resume_codex:
  assumes "isValidAgentSessionId i"
  shows "agentSessionRefOf win (Some (''codex resume '' @ i)) = Some \<lparr>ref_provider = Codex, ref_session_id = i\<rparr>"
proof -
  let ?ws = "[''codex'', ''resume'', i]"
  have cl: "clean_tokens ?ws" using valid_id_clean [OF assms] by (auto simp: clean_tokens_def is_space_def)
  have w: "words (''codex resume '' @ i) = ?ws" using words_join [OF cl] by simp
  have "findIndex (\<lambda>token. \<not> env_assignment token) ?ws = 0"
    by (simp add: env_assignment_def is_word_char_def is_letter_def is_digit_def)
  with w have "parseAgentCommand win (Some (''codex resume '' @ i)) =
      Some \<lparr>pc_tokens = ?ws, pc_programIdx = 0, pc_program = ''codex''\<rparr>"
    by (simp only: parseAgentCommand_def option.case Let_def) (simp add: commandName_codex)
  then show ?thesis using validRef_valid [OF assms, of Codex] by (simp add: agentSessionRefOf_def token_at_def)
qed

lemma stored_resumes:
  assumes "isValidAgentSessionId (as_sessionId s)" "e = List.find (\<lambda>e. closed_id win e = Some (as_sessionId s)) history"
  shows "map_option ref_session_id (agentSessionRefOf win (Some (pk_resumeCmd (stored_row open_tabs s e)))) = Some (as_sessionId s)"
proof (cases e)
  case None
  then show ?thesis using resume_codex [OF assms(1)] resume_fresh [OF assms(1)]
    by (simp add: stored_row_def resumeCmdFor_def split: prod.split)
next
  case (Some h)
  then have "List.find (\<lambda>e. closed_id win e = Some (as_sessionId s)) history = Some h" using assms(2) by simp
  then have "closed_id win h = Some (as_sessionId s)" by (auto simp: find_Some_iff)
  then show ?thesis using Some by (simp add: stored_row_def closed_id_def split: prod.split)
qed


definition sample_history :: "persisted_history_entry list" where
  "sample_history =
     [\<lparr>h_label = ''tab'', h_sessionTitle = None, h_sessionTitleId = None, h_sessionTitleSource = None, h_startCmd = None,
       h_resumeCmd = ''claude --resume a1 --model opus'', h_actionName = None, h_closedAt = 5\<rparr>,
      \<lparr>h_label = ''shell'', h_sessionTitle = None, h_sessionTitleId = None, h_sessionTitleSource = None, h_startCmd = None,
       h_resumeCmd = ''npm run dev'', h_actionName = Some ''dev'', h_closedAt = 7\<rparr>]"

definition sample_sessions :: "agent_session_summary list" where
  "sample_sessions =
     [\<lparr>as_provider = Claude, as_sessionId = ''a1'', as_title = Some ''Fix login'', as_preview = None, as_updatedAt = 9, as_gitBranch = None, as_account = None\<rparr>,
      \<lparr>as_provider = Codex, as_sessionId = ''b2'', as_title = None, as_preview = Some ''[Image #1]'', as_updatedAt = 0, as_gitBranch = None, as_account = None\<rparr>]"


lemma picker_example:
  "map (\<lambda>r. (pk_title r, pk_resumeCmd r)) (mergeSessionRows False sample_history sample_sessions [] [] {}) =
    [(''Fix login'', ''claude --resume a1 --model opus''), (''shell'', ''npm run dev''), (''Image prompt'', ''codex resume b2'')]"
  by code_simp

section \<open>The days\<close>

text \<open>The groups hold the rows in their order, neighbours under different labels.\<close>

lemma days_keep_rows:
  "concat (map snd (groupByDay month_label rows startOfToday)) = rows"
  "list_all (\<lambda>(label, group). group \<noteq> [] \<and> list_all (\<lambda>r. dayLabel month_label startOfToday (pk_updatedAt r) = label) group)
    (groupByDay month_label rows startOfToday)"
  "successively (\<lambda>g h. fst g \<noteq> fst h) (groupByDay month_label rows startOfToday)"
proof -
  let ?l = "\<lambda>r. dayLabel month_label startOfToday (pk_updatedAt r)"
  let ?ok = "\<lambda>gs rows. concat (map snd gs) = rows \<and> list_all (\<lambda>(label, group). group \<noteq> [] \<and> list_all (\<lambda>r. ?l r = label) group) gs \<and>
    successively (\<lambda>g h. fst g \<noteq> fst h) gs"
  have step: "?ok (add_to_day ?l r gs) (old_rows @ [r])" if "?ok gs old_rows" for gs r old_rows
  proof (cases gs rule: rev_cases)
    case (snoc gs' g)
    then show ?thesis using that by (cases g) (auto simp: add_to_day_def successively_append_iff)
  qed (use that in \<open>simp add: add_to_day_def\<close>)
  have "?ok (fold (add_to_day ?l) rs gs) (old_rows @ rs)" if "?ok gs old_rows" for rs gs old_rows
    using that
  proof (induction rs arbitrary: gs old_rows)
    case (Cons r rs)
    from Cons.IH [OF step [OF Cons.prems]] show ?case by simp
  qed simp
  from this [of "[]" "[]"] have "?ok (groupByDay month_label rows startOfToday) rows" by (simp add: groupByDay_def)
  then show "concat (map snd (groupByDay month_label rows startOfToday)) = rows"
    "list_all (\<lambda>(label, group). group \<noteq> [] \<and> list_all (\<lambda>r. ?l r = label) group) (groupByDay month_label rows startOfToday)"
    "successively (\<lambda>g h. fst g \<noteq> fst h) (groupByDay month_label rows startOfToday)" by blast+
qed

end
